(* ===== verification/Prelude.thy ===== *)
theory Prelude
  imports Main "HOL-Library.Word" "HOL-Library.Multiset" "HOL-Library.Product_Lexorder"
    "HOL-Library.Monad_Syntax"
begin

text \<open>
  Generic facts shared by the component theories: ordered insertion into a list (the
  \<open>for\<close> loop with an early \<open>insert ... return\<close> that several containers of the
  simulator use), removal of the first element that satisfies a test, and the conversion of
  machine words to natural numbers when no wrap-around happens.

  Convention of the whole development: an operation that can end in a failed \<open>NS_ASSERT\<close>,
  an \<open>NS_ABORT\<close> or undefined behaviour (\<open>front()\<close> of an empty container, a signed
  overflow) returns an option, and \<open>None\<close> is that abnormal end.
\<close>

named_theorems option_simps \<open>equations that evaluate option-valued operations\<close>

lemmas bind_split_rules = Option.bind_split Option.bind_split_asm

text \<open>The run-time check \<open>NS_ASSERT\<close>: \<open>None\<close> when the condition fails.\<close>

definition ns_assert :: "bool \<Rightarrow> unit option" where
  "ns_assert b = (if b then Some () else None)"

lemma ns_assert_True [simp]: "ns_assert True = Some ()"
  by (simp add: ns_assert_def)

lemma ns_assert_False [simp]: "ns_assert False = None"
  by (simp add: ns_assert_def)

lemma ns_assert_eq_Some [simp]: "ns_assert b = Some u \<longleftrightarrow> b"
  by (simp add: ns_assert_def)

lemma bind_ns_assert [option_simps]: "(ns_assert b \<bind> f) = (if b then f () else None)"
  by (simp add: ns_assert_def)

section \<open>Ordered insertion\<close>

text \<open>
  \<open>insert_before lt x xs\<close> walks \<open>xs\<close> and inserts \<open>x\<close> in front of the first
  element \<open>y\<close> with \<open>lt x y\<close>, at the end when there is none.
\<close>

fun insert_before :: "('a \<Rightarrow> 'a \<Rightarrow> bool) \<Rightarrow> 'a \<Rightarrow> 'a list \<Rightarrow> 'a list" where
  "insert_before lt x [] = [x]"
| "insert_before lt x (y # ys) =
     (if lt x y then x # y # ys else y # insert_before lt x ys)"

lemma mset_insert_before [simp]:
  "mset (insert_before lt x xs) = add_mset x (mset xs)"
  by (induction xs) auto

lemma set_insert_before [simp]: "set (insert_before lt x xs) = insert x (set xs)"
  by (induction xs) auto

lemma length_insert_before [simp]: "length (insert_before lt x xs) = Suc (length xs)"
  by (induction xs) auto

lemma insert_before_not_Nil [simp]: "insert_before lt x xs \<noteq> []"
  by (cases xs) auto

lemma sorted_insert_before:
  fixes k :: "'a \<Rightarrow> 'k::linorder"
  assumes "sorted (map k xs)"
  shows "sorted (map k (insert_before (\<lambda>a b. k a < k b) x xs))"
  using assms by (induction xs) (auto simp: not_less)

text \<open>The mirror image: a list in descending order, searched with \<open>>\<close>.\<close>

lemma sorted_rev_insert_before:
  fixes k :: "'a \<Rightarrow> 'k::linorder"
  assumes "sorted_wrt (\<lambda>a b. k b \<le> k a) xs"
  shows "sorted_wrt (\<lambda>a b. k b \<le> k a) (insert_before (\<lambda>a b. k a > k b) x xs)"
  using assms by (induction xs) (auto simp: not_less)

section \<open>Removing the first match\<close>

text \<open>
  The loop that scans a container for the first element with property \<open>P\<close> and erases it;
  \<open>None\<close> when the loop runs off the end.
\<close>

fun erase_first :: "('a \<Rightarrow> bool) \<Rightarrow> 'a list \<Rightarrow> ('a \<times> 'a list) option" where
  "erase_first P [] = None"
| "erase_first P (x # xs) =
     (if P x then Some (x, xs)
      else (case erase_first P xs of None \<Rightarrow> None | Some (y, ys) \<Rightarrow> Some (y, x # ys)))"

lemma erase_first_None [simp]: "erase_first P xs = None \<longleftrightarrow> (\<forall>x\<in>set xs. \<not> P x)"
  by (induction xs) (auto split: option.splits)

lemma erase_first_Some:
  "erase_first P xs = Some (y, ys) \<Longrightarrow> P y \<and> y \<in> set xs \<and> mset xs = add_mset y (mset ys)"
  by (induction xs arbitrary: y ys) (auto split: if_splits option.splits)

lemma erase_first_sorted:
  "erase_first P xs = Some (y, ys) \<Longrightarrow> sorted_wrt r xs \<Longrightarrow> sorted_wrt r ys"
proof (induction xs arbitrary: y ys)
  case Nil
  then show ?case by simp
next
  case (Cons x xs)
  show ?case
  proof (cases "P x")
    case True
    with Cons.prems show ?thesis by simp
  next
    case False
    with Cons.prems(1) obtain zs where zs: "erase_first P xs = Some (y, zs)" "ys = x # zs"
      by (auto split: option.splits)
    have "set zs \<subseteq> set xs"
      using erase_first_Some [OF zs(1)] by (metis set_mset_add_mset_insert set_mset_mset subset_insertI)
    with zs Cons.IH [OF zs(1)] Cons.prems(2) show ?thesis by auto
  qed
qed

lemma erase_first_the_element:
  assumes "x \<in> set xs" and "P x" and "\<And>z. z \<in> set xs \<Longrightarrow> P z \<Longrightarrow> z = x"
  shows "\<exists>ys. erase_first P xs = Some (x, ys) \<and> mset ys = mset xs - {#x#}"
proof -
  obtain y ys where e: "erase_first P xs = Some (y, ys)"
    using assms(1,2) by (metis erase_first_None option.exhaust surj_pair)
  with erase_first_Some [OF e] assms(3) have "y = x" "mset xs = add_mset x (mset ys)"
    by auto
  with e show ?thesis by simp
qed

section \<open>Machine words as natural numbers\<close>

type_synonym u8 = "8 word"
type_synonym u16 = "16 word"
type_synonym u32 = "32 word"
type_synonym u64 = "64 word"

lemma unat_ucast_mod:
  fixes a :: "'a::len word"
  shows "unat (ucast a :: 'b::len word) = unat a mod 2 ^ LENGTH('b)"
  by (simp add: unsigned_ucast_eq take_bit_word_def unsigned_of_nat take_bit_eq_mod)

lemma unat_ucast_up:
  fixes a :: "'a::len word"
  assumes "LENGTH('a) \<le> LENGTH('b::len)"
  shows "unat (ucast a :: 'b word) = unat a"
proof -
  have "unat a < 2 ^ LENGTH('a)" by (rule unsigned_less)
  also have "\<dots> \<le> 2 ^ LENGTH('b)" using assms by (simp add: power_increasing)
  finally show ?thesis by (simp add: unat_ucast_mod)
qed

lemma unat_add_no_wrap:
  fixes a b :: "'a::len word"
  shows "unat a + unat b < 2 ^ LENGTH('a) \<Longrightarrow> unat (a + b) = unat a + unat b"
  by (simp add: unat_word_ariths)

lemma unat_mult_no_wrap:
  fixes a b :: "'a::len word"
  shows "unat a * unat b < 2 ^ LENGTH('a) \<Longrightarrow> unat (a * b) = unat a * unat b"
  by (simp add: unat_word_ariths)

lemma unat_succ_no_wrap:
  fixes a :: "'a::len word"
  shows "unat a + 1 < 2 ^ LENGTH('a) \<Longrightarrow> unat (a + 1) = unat a + 1"
  using unat_add_no_wrap [of a 1] by simp

lemma sint_small:
  fixes a :: "'a::len word"
  assumes "unat a < 2 ^ (LENGTH('a) - 1)"
  shows "sint a = int (unat a)"
proof -
  have "int (unat a) < int (2 ^ (LENGTH('a) - 1))"
    using assms by (rule iffD2 [OF of_nat_less_iff])
  then have "uint a < 2 ^ (LENGTH('a) - 1)" by simp
  moreover have "- (2 ^ (LENGTH('a) - 1)) \<le> uint a"
    by (rule order_trans [of _ 0]) simp_all
  ultimately show ?thesis
    by (simp add: sint_uint signed_take_bit_int_eq_self)
qed

text \<open>The bounds of the widths in use.\<close>

lemma unat_bounds:
  "unat (a :: u8) < 256" "unat (b :: u16) < 65536" "unat (c :: u32) < 4294967296"
  using unsigned_less [of a, where 'a = nat] unsigned_less [of b, where 'a = nat]
    unsigned_less [of c, where 'a = nat] by simp_all

end
