(* ===== verification/Event_Queue.thy ===== *)
theory Event_Queue
  imports Prelude
begin

text \<open>
  The interface \<open>ns3::Scheduler\<close> (src/src/core/model/scheduler.h): the event key, the
  event, their comparison operators, the table of virtual functions, and the two contracts
  the simulator relies on, stated as locales over that table. \<open>event_queue\<close> covers
  \<open>Insert\<close>, \<open>IsEmpty\<close>, \<open>PeekNext\<close> and \<open>RemoveNext\<close>; \<open>removable_event_queue\<close>
  adds \<open>Remove\<close>.
\<close>

section \<open>Events and keys\<close>

text \<open>A pointer to an \<open>EventImpl\<close>; \<open>0\<close> is \<open>nullptr\<close>.\<close>

type_synonym impl_ptr = nat

record event_key =
  m_ts :: u64
  m_uid :: u32
  m_context :: u32

record event =
  impl :: impl_ptr
  key :: event_key

text \<open>
  \<open>operator==\<close> and \<open>operator<\<close> of \<open>EventKey\<close>: equality looks at the uid only,
  the order at the time stamp and then the uid.
\<close>

definition key_eq :: "event_key \<Rightarrow> event_key \<Rightarrow> bool" where
  "key_eq a b \<longleftrightarrow> m_uid a = m_uid b"

definition key_neq :: "event_key \<Rightarrow> event_key \<Rightarrow> bool" where
  "key_neq a b \<longleftrightarrow> m_uid a \<noteq> m_uid b"

definition key_lt :: "event_key \<Rightarrow> event_key \<Rightarrow> bool" where
  "key_lt a b \<longleftrightarrow> m_ts a < m_ts b \<or> (m_ts a = m_ts b \<and> m_uid a < m_uid b)"

definition key_gt :: "event_key \<Rightarrow> event_key \<Rightarrow> bool" where
  "key_gt a b \<longleftrightarrow> m_ts a > m_ts b \<or> (m_ts a = m_ts b \<and> m_uid a > m_uid b)"

definition event_eq :: "event \<Rightarrow> event \<Rightarrow> bool" where
  "event_eq a b \<longleftrightarrow> key_eq (key a) (key b)"

definition event_lt :: "event \<Rightarrow> event \<Rightarrow> bool" where
  "event_lt a b \<longleftrightarrow> key_lt (key a) (key b)"

definition event_gt :: "event \<Rightarrow> event \<Rightarrow> bool" where
  "event_gt a b \<longleftrightarrow> key_gt (key a) (key b)"

text \<open>The pair the comparison really looks at, in the lexicographic order of the library.\<close>

definition key_rank :: "event_key \<Rightarrow> u64 \<times> u32" where
  "key_rank k = (m_ts k, m_uid k)"

abbreviation rank :: "event \<Rightarrow> u64 \<times> u32" where
  "rank e \<equiv> key_rank (key e)"

abbreviation ev_uid :: "event \<Rightarrow> u32" where
  "ev_uid e \<equiv> m_uid (key e)"

abbreviation ev_ts :: "event \<Rightarrow> u64" where
  "ev_ts e \<equiv> m_ts (key e)"

named_theorems key_order \<open>the comparison operators as comparisons of ranks\<close>

lemma key_lt_rank [key_order]: "key_lt a b \<longleftrightarrow> key_rank a < key_rank b"
  by (auto simp: key_lt_def key_rank_def less_prod_def)

lemma key_gt_rank [key_order]: "key_gt a b \<longleftrightarrow> key_rank b < key_rank a"
  by (auto simp: key_gt_def key_rank_def less_prod_def)

lemma event_lt_rank [key_order]: "event_lt a b \<longleftrightarrow> rank a < rank b"
  by (simp add: event_lt_def key_order)

lemma event_gt_rank [key_order]: "event_gt a b \<longleftrightarrow> rank b < rank a"
  by (simp add: event_gt_def key_order)

lemma key_lt_fun: "key_lt = (\<lambda>a b. key_rank a < key_rank b)"
  by (intro ext) (rule key_lt_rank)

lemma event_lt_fun: "event_lt = (\<lambda>a b. rank a < rank b)"
  by (intro ext) (rule event_lt_rank)

lemma rank_eq_iff: "key_rank a = key_rank b \<longleftrightarrow> m_ts a = m_ts b \<and> m_uid a = m_uid b"
  by (simp add: key_rank_def)

lemma rank_le_ts: "key_rank a \<le> key_rank b \<Longrightarrow> m_ts a \<le> m_ts b"
  by (auto simp: key_rank_def less_eq_prod_def)

lemma rank_less_ts: "m_ts a < m_ts b \<Longrightarrow> key_rank a < key_rank b"
  by (auto simp: key_rank_def less_prod_def)

section \<open>The set of pending uids\<close>

definition uids :: "event multiset \<Rightarrow> u32 multiset" where
  "uids M = image_mset (\<lambda>e. m_uid (key e)) M"

definition unique_uids :: "event multiset \<Rightarrow> bool" where
  "unique_uids M \<longleftrightarrow> (\<forall>u. count (uids M) u \<le> 1)"

lemma uids_simps [simp]:
  "uids {#} = {#}"
  "uids (add_mset e M) = add_mset (ev_uid e) (uids M)"
  by (simp_all add: uids_def)

lemma in_uids: "u \<in># uids M \<longleftrightarrow> (\<exists>e\<in>#M. ev_uid e = u)"
  by (auto simp: uids_def)

lemma unique_uids_empty [simp]: "unique_uids {#}"
  by (simp add: unique_uids_def)

lemma unique_uids_add:
  "unique_uids (add_mset e M) \<longleftrightarrow> unique_uids M \<and> ev_uid e \<notin># uids M"
proof
  assume a: "unique_uids (add_mset e M)"
  have le: "count (add_mset (ev_uid e) (uids M)) u \<le> 1" for u
    using a by (simp add: unique_uids_def)
  have "count (uids M) u \<le> 1" for u
    using le [of u] by (cases "u = ev_uid e") simp_all
  moreover have "count (uids M) (ev_uid e) = 0"
    using le [of "ev_uid e"] by simp
  ultimately show "unique_uids M \<and> ev_uid e \<notin># uids M"
    by (simp add: unique_uids_def not_in_iff)
next
  assume "unique_uids M \<and> ev_uid e \<notin># uids M"
  then show "unique_uids (add_mset e M)"
    by (simp add: unique_uids_def not_in_iff)
qed

lemma unique_uids_diff: "unique_uids M \<Longrightarrow> unique_uids (M - N)"
  unfolding unique_uids_def uids_def
  by (metis diff_subset_eq_self image_mset_subseteq_mono le_trans mset_subset_eq_count)

lemma unique_uids_eq:
  assumes "unique_uids M" and "a \<in># M" and "b \<in># M" and "ev_uid a = ev_uid b"
  shows "a = b"
proof (rule ccontr)
  assume "a \<noteq> b"
  from assms(2) obtain N where N: "M = add_mset a N" by (metis mset_add)
  with assms(3) \<open>a \<noteq> b\<close> have "b \<in># N" by simp
  with assms(1,4) N show False by (auto simp: unique_uids_add in_uids)
qed

lemma unique_uids_mset: "unique_uids (mset xs) \<longleftrightarrow> distinct (map ev_uid xs)"
  by (induction xs) (auto simp: unique_uids_add in_uids image_iff)

section \<open>The table of virtual functions\<close>

record 's scheduler =
  Insert :: "'s \<Rightarrow> event \<Rightarrow> 's option"
  IsEmpty :: "'s \<Rightarrow> bool"
  PeekNext :: "'s \<Rightarrow> event option"
  RemoveNext :: "'s \<Rightarrow> (event \<times> 's) option"
  Remove :: "'s \<Rightarrow> event \<Rightarrow> 's option"

text \<open>A batch of insertions, and \<open>n\<close> calls of \<open>RemoveNext\<close>.\<close>

fun insert_all :: "'s scheduler \<Rightarrow> event list \<Rightarrow> 's \<Rightarrow> 's option" where
  "insert_all S [] s = Some s"
| "insert_all S (e # es) s = do { s' \<leftarrow> Insert S s e; insert_all S es s' }"

fun drain :: "'s scheduler \<Rightarrow> nat \<Rightarrow> 's \<Rightarrow> (event list \<times> 's) option" where
  "drain S 0 s = Some ([], s)"
| "drain S (Suc n) s = do {
     (e, s') \<leftarrow> RemoveNext S s;
     (es, s'') \<leftarrow> drain S n s';
     Some (e # es, s'') }"

definition insert_and_drain :: "'s scheduler \<Rightarrow> 's \<Rightarrow> event list \<Rightarrow> event list option" where
  "insert_and_drain S s es = do {
     s' \<leftarrow> insert_all S es s;
     (out, _) \<leftarrow> drain S (length es) s';
     Some out }"

section \<open>The contracts\<close>

text \<open>
  \<open>contents\<close> is the multiset of stored events and \<open>inv\<close> the implementation's invariant.
  \<open>accepts s e\<close> says which events may be inserted: always true for the comparison based
  containers; the calendar queue refuses an event older than the last one it delivered.
\<close>

locale event_queue =
  fixes S :: "'s scheduler"
    and empty :: "'s"
    and inv :: "'s \<Rightarrow> bool"
    and contents :: "'s \<Rightarrow> event multiset"
    and accepts :: "'s \<Rightarrow> event \<Rightarrow> bool"
  assumes inv_empty: "inv empty"
    and contents_empty: "contents empty = {#}"
    and inv_unique: "inv s \<Longrightarrow> unique_uids (contents s)"
    and insert_law: "inv s \<Longrightarrow> accepts s e \<Longrightarrow> ev_uid e \<notin># uids (contents s) \<Longrightarrow>
      \<exists>s'. Insert S s e = Some s' \<and> inv s' \<and> contents s' = add_mset e (contents s) \<and>
        accepts s' = accepts s"
    and is_empty_law: "inv s \<Longrightarrow> IsEmpty S s \<longleftrightarrow> contents s = {#}"
    and remove_next_law: "inv s \<Longrightarrow> contents s \<noteq> {#} \<Longrightarrow>
      \<exists>e s'. RemoveNext S s = Some (e, s') \<and> inv s' \<and> contents s = add_mset e (contents s') \<and>
        (\<forall>x\<in>#contents s. rank e \<le> rank x) \<and>
        (\<forall>x. accepts s x \<and> ev_ts e \<le> ev_ts x \<longrightarrow> accepts s' x)"
    and peek_next_law: "inv s \<Longrightarrow> contents s \<noteq> {#} \<Longrightarrow>
      \<exists>e s'. PeekNext S s = Some e \<and> RemoveNext S s = Some (e, s')"
begin

lemma remove_next_member:
  assumes "inv s" and "contents s \<noteq> {#}"
  shows "\<exists>e s'. RemoveNext S s = Some (e, s') \<and> inv s' \<and> contents s = add_mset e (contents s') \<and>
    (\<forall>x\<in>#contents s'. rank e < rank x)"
proof -
  from remove_next_law [OF assms] obtain e s' where s': "RemoveNext S s = Some (e, s')"
    "inv s'" "contents s = add_mset e (contents s')" "\<forall>x\<in>#contents s. rank e \<le> rank x"
    by blast
  have "rank e \<noteq> rank x" if "x \<in># contents s'" for x
    using inv_unique [OF assms(1)] s'(3) that
    by (auto simp: unique_uids_add in_uids rank_eq_iff)
  with s' show ?thesis by (auto simp: le_neq_trans)
qed

lemma insert_all_law:
  assumes "inv s" and "\<forall>e\<in>set es. accepts s e" and "unique_uids (contents s + mset es)"
  shows "\<exists>s'. insert_all S es s = Some s' \<and> inv s' \<and> contents s' = contents s + mset es \<and>
    accepts s' = accepts s"
  using assms
proof (induction es arbitrary: s)
  case Nil
  then show ?case by simp
next
  case (Cons e es)
  from Cons.prems have "ev_uid e \<notin># uids (contents s)"
    by (simp add: unique_uids_add uids_def)
  with Cons.prems insert_law obtain s1 where s1: "Insert S s e = Some s1" "inv s1"
    "contents s1 = add_mset e (contents s)" "accepts s1 = accepts s"
    by (metis list.set_intros(1))
  with Cons.prems Cons.IH [of s1] show ?case by auto
qed

lemma drain_law:
  assumes "inv s" and "size (contents s) = n"
  shows "\<exists>es s'. drain S n s = Some (es, s') \<and> mset es = contents s \<and>
    sorted_wrt (\<lambda>a b. rank a < rank b) es \<and> inv s' \<and> contents s' = {#}"
  using assms
proof (induction n arbitrary: s)
  case 0
  then show ?case by simp
next
  case (Suc n)
  then have "contents s \<noteq> {#}" by auto
  from remove_next_member [OF Suc.prems(1) this] obtain e s1 where
    s1: "RemoveNext S s = Some (e, s1)" "inv s1" "contents s = add_mset e (contents s1)"
      "\<forall>x\<in>#contents s1. rank e < rank x" by blast
  with Suc.prems have "size (contents s1) = n" by simp
  with Suc.IH s1(2) obtain es s' where "drain S n s1 = Some (es, s')" "mset es = contents s1"
    "sorted_wrt (\<lambda>a b. rank a < rank b) es" "inv s'" "contents s' = {#}" by blast
  with s1 show ?case by (auto simp flip: set_mset_mset)
qed

lemma insert_and_drain_sorts:
  assumes "\<forall>e\<in>set es. accepts empty e" and "distinct (map ev_uid es)"
  shows "insert_and_drain S empty es = Some (sort_key rank es)"
proof -
  from insert_all_law [OF inv_empty assms(1)] assms(2) obtain s where
    s: "insert_all S es empty = Some s" "inv s" "contents s = mset es"
    by (auto simp: contents_empty unique_uids_mset)
  then have "size (contents s) = length es" by simp
  from drain_law [OF s(2) this] obtain out s' where
    d: "drain S (length es) s = Some (out, s')" "mset out = mset es"
      "sorted_wrt (\<lambda>a b. rank a < rank b) out" by (auto simp: s(3))
  have "sorted_wrt (\<lambda>a b. rank a \<le> rank b) out"
    by (rule sorted_wrt_mono_rel [OF _ d(3)]) auto
  then have "sorted (map rank out)" by (simp add: sorted_map)
  moreover have "inj_on rank (set out)"
    using d(3) assms(2) mset_eq_setD [OF d(2)]
    by (auto simp: inj_on_def distinct_map rank_eq_iff)
  ultimately have "sort_key rank es = out"
    using d(2) mset_eq_setD [OF d(2)] by (intro sort_key_inj_key_eq) simp_all
  with s(1) d(1) show ?thesis by (simp add: insert_and_drain_def)
qed

end

locale removable_event_queue = event_queue +
  assumes remove_law: "inv s \<Longrightarrow> e \<in># contents s \<Longrightarrow>
      \<exists>s'. Remove S s e = Some s' \<and> inv s' \<and> contents s' = contents s - {#e#} \<and>
        accepts s' = accepts s"

end
