(* ===== verification/List_Scheduler.thy ===== *)
theory List_Scheduler
  imports Event_Queue
begin

text \<open>
  \<open>ns3::ListScheduler\<close> (src/src/core/model/list-scheduler.cc): a \<open>std::list\<close> of events
  kept in ascending key order by \<open>Insert\<close>. The theory shows that it meets the whole
  scheduler contract, \<open>Remove\<close> included.
\<close>

record list_scheduler =
  ls_events :: "event list"

definition ls_create :: list_scheduler where
  "ls_create = \<lparr>ls_events = []\<rparr>"

definition ls_Insert :: "list_scheduler \<Rightarrow> event \<Rightarrow> list_scheduler option" where
  "ls_Insert s ev =
     Some (s\<lparr>ls_events := insert_before (\<lambda>a b. key_lt (key a) (key b)) ev (ls_events s)\<rparr>)"

definition ls_IsEmpty :: "list_scheduler \<Rightarrow> bool" where
  "ls_IsEmpty s \<longleftrightarrow> ls_events s = []"

text \<open>\<open>front()\<close> of an empty list is undefined: \<open>None\<close>.\<close>

definition ls_PeekNext :: "list_scheduler \<Rightarrow> event option" where
  "ls_PeekNext s = (case ls_events s of [] \<Rightarrow> None | e # _ \<Rightarrow> Some e)"

definition ls_RemoveNext :: "list_scheduler \<Rightarrow> (event \<times> list_scheduler) option" where
  "ls_RemoveNext s =
     (case ls_events s of [] \<Rightarrow> None | e # es \<Rightarrow> Some (e, s\<lparr>ls_events := es\<rparr>))"

text \<open>The first event with the uid of \<open>ev\<close> is erased, after a check of the pointers.\<close>

definition ls_Remove :: "list_scheduler \<Rightarrow> event \<Rightarrow> list_scheduler option" where
  "ls_Remove s ev =
     (case erase_first (\<lambda>x. ev_uid x = ev_uid ev) (ls_events s) of
        None \<Rightarrow> None
      | Some (x, es) \<Rightarrow> do { ns_assert (impl ev = impl x); Some (s\<lparr>ls_events := es\<rparr>) })"

definition list_vtable :: "list_scheduler scheduler" where
  "list_vtable = \<lparr>Insert = ls_Insert, IsEmpty = ls_IsEmpty, PeekNext = ls_PeekNext,
     RemoveNext = ls_RemoveNext, Remove = ls_Remove\<rparr>"

lemma list_vtable_simps [simp]:
  "Insert list_vtable = ls_Insert" "IsEmpty list_vtable = ls_IsEmpty"
  "PeekNext list_vtable = ls_PeekNext" "RemoveNext list_vtable = ls_RemoveNext"
  "Remove list_vtable = ls_Remove"
  by (simp_all add: list_vtable_def)

section \<open>Invariant and contract\<close>

definition ls_inv :: "list_scheduler \<Rightarrow> bool" where
  "ls_inv s \<longleftrightarrow> sorted (map rank (ls_events s)) \<and> distinct (map ev_uid (ls_events s))"

definition ls_contents :: "list_scheduler \<Rightarrow> event multiset" where
  "ls_contents s = mset (ls_events s)"

lemma ls_insert_sorted:
  "sorted (map rank xs) \<Longrightarrow>
   sorted (map rank (insert_before (\<lambda>a b. key_lt (key a) (key b)) e xs))"
  unfolding key_lt_rank by (rule sorted_insert_before)

lemma ls_Insert_correct:
  assumes "ls_inv s" and "ev_uid e \<notin># uids (ls_contents s)"
  shows "\<exists>s'. ls_Insert s e = Some s' \<and> ls_inv s' \<and>
    ls_contents s' = add_mset e (ls_contents s)"
proof -
  let ?ys = "insert_before (\<lambda>a b. key_lt (key a) (key b)) e (ls_events s)"
  have "unique_uids (mset ?ys)"
    using assms by (simp add: ls_inv_def ls_contents_def unique_uids_add unique_uids_mset)
  then have "ls_inv (s\<lparr>ls_events := ?ys\<rparr>)"
    using assms(1) by (simp add: ls_inv_def ls_insert_sorted unique_uids_mset del: mset_insert_before)
  then show ?thesis by (simp add: ls_Insert_def ls_contents_def)
qed

lemma ls_Remove_correct:
  assumes "ls_inv s" and "e \<in># ls_contents s"
  shows "\<exists>s'. ls_Remove s e = Some s' \<and> ls_inv s' \<and> ls_contents s' = ls_contents s - {#e#}"
proof -
  have uu: "unique_uids (mset (ls_events s))"
    using assms(1) by (simp add: ls_inv_def unique_uids_mset)
  obtain ys where ys: "erase_first (\<lambda>x. ev_uid x = ev_uid e) (ls_events s) = Some (e, ys)"
    "mset ys = mset (ls_events s) - {#e#}"
    using erase_first_the_element [of e "ls_events s" "\<lambda>x. ev_uid x = ev_uid e"] assms(2)
      unique_uids_eq [OF uu] by (auto simp: ls_contents_def)
  have "sorted (map rank ys)"
    using erase_first_sorted [OF ys(1), of "\<lambda>a b. rank a \<le> rank b"] assms(1)
    by (simp add: ls_inv_def sorted_map)
  moreover have "distinct (map ev_uid ys)"
    using unique_uids_diff [OF uu, of "{#e#}"] ys(2) by (simp flip: unique_uids_mset)
  ultimately show ?thesis
    using ys by (simp add: ls_Remove_def ls_inv_def ls_contents_def)
qed

interpretation list_sched: removable_event_queue list_vtable ls_create ls_inv ls_contents
  "\<lambda>_ _. True"
proof (unfold_locales, goal_cases)
  case 1 show ?case by (simp add: ls_inv_def ls_create_def)
next
  case 2 show ?case by (simp add: ls_contents_def ls_create_def)
next
  case (3 s) then show ?case by (simp add: ls_inv_def ls_contents_def unique_uids_mset)
next
  case (4 s e) then show ?case using ls_Insert_correct by auto
next
  case (5 s) show ?case by (simp add: ls_IsEmpty_def ls_contents_def)
next
  case (6 s) then show ?case
    by (auto simp: ls_RemoveNext_def ls_contents_def ls_inv_def split: list.split)
next
  case (7 s) then show ?case
    by (auto simp: ls_RemoveNext_def ls_PeekNext_def ls_contents_def split: list.split)
next
  case (8 s e) then show ?case using ls_Remove_correct by auto
qed

end
