(* ===== verification/Map_Scheduler.thy ===== *)
theory Map_Scheduler
  imports Event_Queue
begin

text \<open>
  \<open>ns3::MapScheduler\<close> (src/src/core/model/map-scheduler.cc): a
  \<open>std::map<EventKey, EventImpl*>\<close>. The map is the list of its entries in the order of
  \<open>operator<\<close> on keys, which is the order \<open>begin()\<close> iterates in; two keys are the same
  entry when neither is below the other.
\<close>

type_synonym key_map = "(event_key \<times> impl_ptr) list"

record map_scheduler =
  ms_list :: key_map

text \<open>\<open>std::map::insert\<close>: the new map and whether the entry was new.\<close>

fun key_map_insert :: "event_key \<Rightarrow> impl_ptr \<Rightarrow> key_map \<Rightarrow> key_map \<times> bool" where
  "key_map_insert k v [] = ([(k, v)], True)"
| "key_map_insert k v ((k', v') # m) =
     (if key_lt k k' then ((k, v) # (k', v') # m, True)
      else if key_lt k' k then (let (m', b) = key_map_insert k v m in ((k', v') # m', b))
      else ((k', v') # m, False))"

definition ms_create :: map_scheduler where
  "ms_create = \<lparr>ms_list = []\<rparr>"

definition ms_Insert :: "map_scheduler \<Rightarrow> event \<Rightarrow> map_scheduler option" where
  "ms_Insert s ev =
     (let (m, second) = key_map_insert (key ev) (impl ev) (ms_list s)
      in do { ns_assert second; Some (s\<lparr>ms_list := m\<rparr>) })"

definition ms_IsEmpty :: "map_scheduler \<Rightarrow> bool" where
  "ms_IsEmpty s \<longleftrightarrow> ms_list s = []"

definition ms_PeekNext :: "map_scheduler \<Rightarrow> event option" where
  "ms_PeekNext s =
     (case ms_list s of [] \<Rightarrow> None | (k, v) # _ \<Rightarrow> Some \<lparr>impl = v, key = k\<rparr>)"

definition ms_RemoveNext :: "map_scheduler \<Rightarrow> (event \<times> map_scheduler) option" where
  "ms_RemoveNext s =
     (case ms_list s of [] \<Rightarrow> None
      | (k, v) # m \<Rightarrow> Some (\<lparr>impl = v, key = k\<rparr>, s\<lparr>ms_list := m\<rparr>))"

text \<open>\<open>find\<close>, the check of the pointer, \<open>erase\<close>; a missing key dereferences \<open>end()\<close>.\<close>

definition ms_Remove :: "map_scheduler \<Rightarrow> event \<Rightarrow> map_scheduler option" where
  "ms_Remove s ev =
     (case erase_first (\<lambda>(k, v). \<not> key_lt k (key ev) \<and> \<not> key_lt (key ev) k) (ms_list s) of
        None \<Rightarrow> None
      | Some ((k, v), m) \<Rightarrow> do { ns_assert (v = impl ev); Some (s\<lparr>ms_list := m\<rparr>) })"

definition map_vtable :: "map_scheduler scheduler" where
  "map_vtable = \<lparr>Insert = ms_Insert, IsEmpty = ms_IsEmpty, PeekNext = ms_PeekNext,
     RemoveNext = ms_RemoveNext, Remove = ms_Remove\<rparr>"

lemma map_vtable_simps [simp]:
  "Insert map_vtable = ms_Insert" "IsEmpty map_vtable = ms_IsEmpty"
  "PeekNext map_vtable = ms_PeekNext" "RemoveNext map_vtable = ms_RemoveNext"
  "Remove map_vtable = ms_Remove"
  by (simp_all add: map_vtable_def)

section \<open>Invariant and contract\<close>

definition entry_event :: "event_key \<times> impl_ptr \<Rightarrow> event" where
  "entry_event kv = \<lparr>impl = snd kv, key = fst kv\<rparr>"

lemma entry_event_simps [simp]:
  "impl (entry_event kv) = snd kv" "key (entry_event kv) = fst kv"
  "entry_event (key e, impl e) = e"
  by (simp_all add: entry_event_def)

lemma entry_event_inj: "entry_event a = entry_event b \<longleftrightarrow> a = b"
  by (auto simp: entry_event_def prod_eq_iff)

definition ms_events :: "map_scheduler \<Rightarrow> event list" where
  "ms_events s = map entry_event (ms_list s)"

definition ms_inv :: "map_scheduler \<Rightarrow> bool" where
  "ms_inv s \<longleftrightarrow> sorted_wrt (<) (map (key_rank \<circ> fst) (ms_list s)) \<and>
     distinct (map ev_uid (ms_events s))"

definition ms_contents :: "map_scheduler \<Rightarrow> event multiset" where
  "ms_contents s = mset (ms_events s)"

text \<open>Inserting a new key is an ordered insertion; the uid of a new event makes its key new.\<close>

lemma key_map_insert_new:
  assumes "m_uid k \<notin> m_uid ` fst ` set m"
  shows "key_map_insert k v m =
    (insert_before (\<lambda>a b. key_rank (fst a) < key_rank (fst b)) (k, v) m, True)"
  using assms
proof (induction m)
  case Nil
  show ?case by simp
next
  case (Cons kv m)
  obtain k' v' where kv: "kv = (k', v')" by (cases kv)
  from Cons.prems kv have "key_rank k \<noteq> key_rank k'" by (auto simp: rank_eq_iff)
  then have "key_rank k < key_rank k' \<or> key_rank k' < key_rank k" by auto
  with Cons kv show ?case by (auto simp: key_lt_rank)
qed

lemma insert_before_strict:
  fixes f :: "'a \<Rightarrow> 'k::linorder"
  assumes "sorted_wrt (<) (map f m)" and "f x \<notin> f ` set m"
  shows "sorted_wrt (<) (map f (insert_before (\<lambda>a b. f a < f b) x m))"
  using assms by (induction m) (auto simp: not_less order.order_iff_strict)

lemma ms_Insert_correct:
  assumes "ms_inv s" and "ev_uid e \<notin># uids (ms_contents s)"
  shows "\<exists>s'. ms_Insert s e = Some s' \<and> ms_inv s' \<and>
    ms_contents s' = add_mset e (ms_contents s)"
proof -
  let ?m = "insert_before (\<lambda>a b. key_rank (fst a) < key_rank (fst b)) (key e, impl e) (ms_list s)"
  have new: "m_uid (key e) \<notin> m_uid ` fst ` set (ms_list s)"
    using assms(2) by (auto simp: ms_contents_def ms_events_def in_uids image_iff)
  have sorted: "sorted_wrt (<) (map (key_rank \<circ> fst) ?m)"
    using insert_before_strict [of "key_rank \<circ> fst" "ms_list s" "(key e, impl e)"] assms(1) new
    by (auto simp: ms_inv_def rank_eq_iff image_iff)
  have ms: "mset (map entry_event ?m) = add_mset e (mset (ms_events s))"
    by (simp add: ms_events_def)
  have "distinct (map ev_uid (map entry_event ?m))"
    using assms unfolding unique_uids_mset [symmetric] ms
    by (simp add: unique_uids_add unique_uids_mset ms_inv_def ms_contents_def)
  with sorted ms new show ?thesis
    by (simp add: ms_Insert_def key_map_insert_new ms_inv_def ms_contents_def ms_events_def
        del: mset_map)
qed

lemma ms_Remove_correct:
  assumes "ms_inv s" and "e \<in># ms_contents s"
  shows "\<exists>s'. ms_Remove s e = Some s' \<and> ms_inv s' \<and> ms_contents s' = ms_contents s - {#e#}"
proof -
  let ?P = "\<lambda>(k, v). \<not> key_lt k (key e) \<and> \<not> key_lt (key e) k"
  have uu: "unique_uids (mset (ms_events s))"
    using assms(1) by (simp add: ms_inv_def unique_uids_mset)
  have mem: "(key e, impl e) \<in> set (ms_list s)"
    using assms(2) by (auto simp: ms_contents_def ms_events_def)
  have the: "z = (key e, impl e)" if z: "z \<in> set (ms_list s)" "?P z" for z
  proof -
    have "ev_uid (entry_event z) = ev_uid e"
      using z(2) by (auto simp: key_order rank_eq_iff not_less dest!: order_antisym)
    with unique_uids_eq [OF uu, of "entry_event z" e] z(1) assms(2) have "entry_event z = e"
      by (simp add: ms_contents_def ms_events_def)
    then show ?thesis by (auto simp: entry_event_def)
  qed
  have self: "?P (key e, impl e)" by (simp add: key_lt_rank)
  obtain m where m: "erase_first ?P (ms_list s) = Some ((key e, impl e), m)"
    "mset m = mset (ms_list s) - {#(key e, impl e)#}"
    using erase_first_the_element [where P = ?P, OF mem self the] by blast
  have mm: "mset (map entry_event m) = mset (ms_events s) - {#e#}"
    using mem m(2) by (simp add: ms_events_def image_mset_Diff)
  have "sorted_wrt (<) (map (key_rank \<circ> fst) m)"
    using erase_first_sorted [OF m(1), of "\<lambda>a b. key_rank (fst a) < key_rank (fst b)"] assms(1)
    by (simp add: ms_inv_def sorted_wrt_map)
  moreover have "distinct (map ev_uid (map entry_event m))"
    using unique_uids_diff [OF uu, of "{#e#}"] unfolding mm [symmetric] unique_uids_mset .
  ultimately show ?thesis
    using m mm by (simp add: ms_Remove_def ms_inv_def ms_contents_def ms_events_def del: mset_map)
qed

lemma ms_list_sorted_ranks:
  "ms_inv s \<Longrightarrow> ms_list s = (k, v) # m \<Longrightarrow> x \<in> set m \<Longrightarrow> key_rank k < key_rank (fst x)"
  by (simp add: ms_inv_def)

interpretation map_sched: removable_event_queue map_vtable ms_create ms_inv ms_contents
  "\<lambda>_ _. True"
proof (unfold_locales, goal_cases)
  case 1 show ?case by (simp add: ms_inv_def ms_create_def ms_events_def)
next
  case 2 show ?case by (simp add: ms_contents_def ms_create_def ms_events_def)
next
  case (3 s) then show ?case by (simp add: ms_inv_def ms_contents_def unique_uids_mset)
next
  case (4 s e) then show ?case using ms_Insert_correct by auto
next
  case (5 s) show ?case by (simp add: ms_IsEmpty_def ms_contents_def ms_events_def)
next
  case (6 s)
  then obtain k v m where l: "ms_list s = (k, v) # m"
    by (cases "ms_list s") (auto simp: ms_contents_def ms_events_def)
  with 6 show ?case
    by (auto simp: ms_RemoveNext_def ms_contents_def ms_events_def ms_inv_def entry_event_def
        intro: less_imp_le)
next
  case (7 s) then show ?case
    by (auto simp: ms_RemoveNext_def ms_PeekNext_def ms_contents_def ms_events_def
        split: list.split)
next
  case (8 s e) then show ?case using ms_Remove_correct by auto
qed

end
