(* ===== verification/Priority_Queue_Scheduler.thy ===== *)
theory Priority_Queue_Scheduler
  imports Event_Queue
begin

text \<open>
  \<open>ns3::PriorityQueueScheduler\<close> (src/src/core/model/priority-queue-scheduler.cc): a
  \<open>std::priority_queue\<close> over a vector with \<open>std::greater\<close>, so that \<open>top\<close> is the least
  event. The standard fixes what \<open>push\<close>, \<open>top\<close> and \<open>pop\<close> return but not how
  \<open>push_heap\<close>, \<open>pop_heap\<close> and \<open>make_heap\<close> arrange the vector, so the model keeps the
  vector in insertion order and lets \<open>top\<close> search for its least event.
\<close>

record priority_queue_scheduler =
  pq_c :: "event list"

definition pq_create :: priority_queue_scheduler where
  "pq_create = \<lparr>pq_c = []\<rparr>"

text \<open>The least of \<open>e\<close> and the events of a list, by the comparison \<open>std::greater\<close>.\<close>

fun pq_least :: "event \<Rightarrow> event list \<Rightarrow> event" where
  "pq_least e [] = e"
| "pq_least e (x # xs) = pq_least (if event_gt e x then x else e) xs"

definition pq_Insert :: "priority_queue_scheduler \<Rightarrow> event \<Rightarrow> priority_queue_scheduler option" where
  "pq_Insert s ev = Some (s\<lparr>pq_c := pq_c s @ [ev]\<rparr>)"

definition pq_IsEmpty :: "priority_queue_scheduler \<Rightarrow> bool" where
  "pq_IsEmpty s \<longleftrightarrow> pq_c s = []"

definition pq_PeekNext :: "priority_queue_scheduler \<Rightarrow> event option" where
  "pq_PeekNext s = (case pq_c s of [] \<Rightarrow> None | e # es \<Rightarrow> Some (pq_least e es))"

definition pq_RemoveNext ::
  "priority_queue_scheduler \<Rightarrow> (event \<times> priority_queue_scheduler) option" where
  "pq_RemoveNext s = do {
     ev \<leftarrow> pq_PeekNext s;
     Some (ev, s\<lparr>pq_c := remove1 ev (pq_c s)\<rparr>) }"

text \<open>
  \<open>EventPriorityQueue::remove\<close>: \<open>std::find\<close> with \<open>operator==\<close>, which compares uids,
  then \<open>erase\<close>. An absent event is reported by \<open>false\<close>.
\<close>

definition pq_remove :: "event list \<Rightarrow> event \<Rightarrow> event list \<times> bool" where
  "pq_remove c ev =
     (case erase_first (\<lambda>x. event_eq x ev) c of
        Some (_, c') \<Rightarrow> (c', True)
      | None \<Rightarrow> (c, False))"

definition pq_Remove :: "priority_queue_scheduler \<Rightarrow> event \<Rightarrow> priority_queue_scheduler option" where
  "pq_Remove s ev = Some (s\<lparr>pq_c := fst (pq_remove (pq_c s) ev)\<rparr>)"

definition pq_vtable :: "priority_queue_scheduler scheduler" where
  "pq_vtable = \<lparr>Insert = pq_Insert, IsEmpty = pq_IsEmpty, PeekNext = pq_PeekNext,
     RemoveNext = pq_RemoveNext, Remove = pq_Remove\<rparr>"

lemma pq_vtable_simps [simp]:
  "Insert pq_vtable = pq_Insert" "IsEmpty pq_vtable = pq_IsEmpty"
  "PeekNext pq_vtable = pq_PeekNext" "RemoveNext pq_vtable = pq_RemoveNext"
  "Remove pq_vtable = pq_Remove"
  by (simp_all add: pq_vtable_def)

section \<open>Invariant and contract\<close>

definition pq_inv :: "priority_queue_scheduler \<Rightarrow> bool" where
  "pq_inv s \<longleftrightarrow> distinct (map ev_uid (pq_c s))"

definition pq_contents :: "priority_queue_scheduler \<Rightarrow> event multiset" where
  "pq_contents s = mset (pq_c s)"

lemma pq_least_correct:
  "pq_least e xs \<in> insert e (set xs) \<and> (\<forall>x\<in>insert e (set xs). rank (pq_least e xs) \<le> rank x)"
proof (induction xs arbitrary: e)
  case Nil
  show ?case by simp
next
  case (Cons x xs)
  show ?case
  proof (cases "rank x < rank e")
    case True
    then show ?thesis using Cons.IH [of x] by (auto simp: event_gt_rank)
  next
    case False
    then show ?thesis using Cons.IH [of e] by (auto simp: event_gt_rank not_less)
  qed
qed

lemma pq_RemoveNext_correct:
  assumes "pq_inv s" and "pq_contents s \<noteq> {#}"
  shows "\<exists>e s'. pq_PeekNext s = Some e \<and> pq_RemoveNext s = Some (e, s') \<and> pq_inv s' \<and>
    pq_contents s = add_mset e (pq_contents s') \<and> (\<forall>x\<in>#pq_contents s. rank e \<le> rank x)"
proof -
  obtain y ys where c: "pq_c s = y # ys" using assms(2) by (auto simp: pq_contents_def neq_Nil_conv)
  let ?e = "pq_least y ys"
  have "?e \<in> set (pq_c s)" "\<forall>x\<in>set (pq_c s). rank ?e \<le> rank x"
    using pq_least_correct [of y ys] by (auto simp: c)
  moreover have "distinct (map ev_uid (remove1 ?e (pq_c s)))"
    using assms(1) by (auto simp: pq_inv_def distinct_map inj_on_def dest: notin_set_remove1)
  moreover have "mset (pq_c s) = add_mset ?e (mset (remove1 ?e (pq_c s)))"
    using calculation(1) by simp
  moreover have "pq_PeekNext s = Some ?e" by (simp add: pq_PeekNext_def c)
  ultimately show ?thesis
    by (auto simp: pq_RemoveNext_def pq_inv_def pq_contents_def simp del: mset_remove1)
qed

lemma pq_Remove_correct:
  assumes "pq_inv s" and "e \<in># pq_contents s"
  shows "\<exists>s'. pq_Remove s e = Some s' \<and> pq_inv s' \<and> pq_contents s' = pq_contents s - {#e#}"
proof -
  have uu: "unique_uids (mset (pq_c s))" using assms(1) by (simp add: pq_inv_def unique_uids_mset)
  obtain ys where ys: "erase_first (\<lambda>x. event_eq x e) (pq_c s) = Some (e, ys)"
    "mset ys = mset (pq_c s) - {#e#}"
    using erase_first_the_element [of e "pq_c s" "\<lambda>x. event_eq x e"] assms(2)
      unique_uids_eq [OF uu] by (auto simp: pq_contents_def event_eq_def key_eq_def)
  have "unique_uids (mset ys)" using unique_uids_diff [OF uu] ys(2) by simp
  then have "distinct (map ev_uid ys)" by (simp only: unique_uids_mset)
  with ys show ?thesis
    by (simp add: pq_Remove_def pq_remove_def pq_inv_def pq_contents_def)
qed

interpretation pq_sched: removable_event_queue pq_vtable pq_create pq_inv pq_contents
  "\<lambda>_ _. True"
proof (unfold_locales, goal_cases)
  case 1 show ?case by (simp add: pq_inv_def pq_create_def)
next
  case 2 show ?case by (simp add: pq_contents_def pq_create_def)
next
  case (3 s) then show ?case by (simp add: pq_inv_def pq_contents_def unique_uids_mset)
next
  case (4 s e) then show ?case
    by (auto simp: pq_Insert_def pq_inv_def pq_contents_def in_uids)
next
  case (5 s) show ?case by (simp add: pq_IsEmpty_def pq_contents_def)
next
  case (6 s) then show ?case using pq_RemoveNext_correct [of s] by auto
next
  case (7 s) then show ?case using pq_RemoveNext_correct [of s] by auto
next
  case (8 s e) then show ?case using pq_Remove_correct by auto
qed

end
