(* ===== verification/Simulator.thy ===== *)
theory Simulator
  imports Event_Queue List_Scheduler Map_Scheduler Priority_Queue_Scheduler
begin

text \<open>
  \<open>ns3::DefaultSimulatorImpl\<close> (src/src/core/model/default-simulator-impl.cc) over any
  scheduler, with \<open>EventImpl\<close> (event-impl.cc) and \<open>EventId\<close> (event-id.h, event-id.cc).

  An \<open>EventImpl\<close> is an address; the object's \<open>m_cancel\<close> flag is kept in a map from
  addresses, and reference counts are left out. What \<open>Notify\<close> runs is code of the
  simulation's user: it is a parameter, an interactive program (\<open>action\<close>) of calls into
  the simulator whose continuation sees each call's result, and which may read and update
  the user's own state. A \<open>Time\<close> is its \<open>int64_t\<close> count of time steps; signed
  overflow is undefined and gives \<open>None\<close>.
\<close>

section \<open>EventId and EventImpl\<close>

record event_id =
  id_impl :: impl_ptr
  id_ts :: u64
  id_context :: u32
  id_uid :: u32

definition UID_INVALID :: u32 where "UID_INVALID = 0"
definition UID_NOW :: u32 where "UID_NOW = 1"
definition UID_DESTROY :: u32 where "UID_DESTROY = 2"
definition UID_RESERVED :: u32 where "UID_RESERVED = 3"
definition UID_VALID :: u32 where "UID_VALID = 4"

lemmas uid_defs = UID_INVALID_def UID_NOW_def UID_DESTROY_def UID_RESERVED_def UID_VALID_def

definition id_eq :: "event_id \<Rightarrow> event_id \<Rightarrow> bool" where
  "id_eq a b \<longleftrightarrow> id_uid a = id_uid b \<and> id_context a = id_context b \<and> id_ts a = id_ts b \<and>
     id_impl a = id_impl b"

lemma id_eq_iff [simp]: "id_eq a b \<longleftrightarrow> a = b"
  by (cases a; cases b) (auto simp: id_eq_def)

section \<open>The programs run by events\<close>

datatype 'w action =
    Finish
  | Update "'w \<Rightarrow> 'w" "'w action"
  | Read "'w \<Rightarrow> 'w action"
  | CallNow "int \<Rightarrow> 'w action"
  | CallSchedule int impl_ptr "event_id \<Rightarrow> 'w action"
  | CallScheduleNow impl_ptr "event_id \<Rightarrow> 'w action"
  | CallScheduleWithContext u32 int impl_ptr "'w action"
  | CallScheduleDestroy impl_ptr "event_id \<Rightarrow> 'w action"
  | CallIsExpired event_id "bool \<Rightarrow> 'w action"
  | CallCancel event_id "'w action"
  | CallRemove event_id "'w action"
  | CallStop "'w action"

section \<open>The simulator's state\<close>

record with_context =
  wc_context :: u32
  wc_timestamp :: u64
  wc_event :: impl_ptr

record ('s, 'w) simulator =
  m_events :: 's
  m_eventsWithContext :: "with_context list"
  m_eventsWithContextEmpty :: bool
  m_destroyEvents :: "event_id list"
  m_stop :: bool
  m_nextUid :: u32
  m_currentUid :: u32
  m_currentTs :: u64
  m_currentContext :: u32
  m_eventCount :: u64
  m_unscheduledEvents :: int
  m_cancel :: "impl_ptr \<Rightarrow> bool"
  world :: 'w

text \<open>The constructor, followed by \<open>SetScheduler\<close> with an empty scheduler.\<close>

definition sim_create :: "'s \<Rightarrow> 'w \<Rightarrow> ('s, 'w) simulator" where
  "sim_create q w = \<lparr>m_events = q, m_eventsWithContext = [], m_eventsWithContextEmpty = True,
     m_destroyEvents = [], m_stop = False, m_nextUid = UID_VALID, m_currentUid = UID_INVALID,
     m_currentTs = 0, m_currentContext = 0xffffffff, m_eventCount = 0, m_unscheduledEvents = 0,
     m_cancel = (\<lambda>_. False), world = w\<rparr>"

definition time_add :: "int \<Rightarrow> int \<Rightarrow> int option" where
  "time_add a b = (if - (2 ^ 63) \<le> a + b \<and> a + b < 2 ^ 63 then Some (a + b) else None)"

text \<open>\<open>TimeStep(m_currentTs)\<close>: the unsigned count read as \<open>int64_t\<close>.\<close>

definition sim_Now :: "('s, 'w) simulator \<Rightarrow> int" where
  "sim_Now s = sint (m_currentTs s)"

text \<open>The common part of the scheduling calls: a new uid, the counter, \<open>Insert\<close>.\<close>

definition sim_enqueue ::
  "'s scheduler \<Rightarrow> u64 \<Rightarrow> u32 \<Rightarrow> impl_ptr \<Rightarrow> ('s, 'w) simulator \<Rightarrow> ('s, 'w) simulator option" where
  "sim_enqueue S ts ctx ev s =
     (let e = \<lparr>impl = ev, key = \<lparr>m_ts = ts, m_uid = m_nextUid s, m_context = ctx\<rparr>\<rparr> in do {
      q \<leftarrow> Insert S (m_events s) e;
      Some (s\<lparr>m_nextUid := m_nextUid s + 1, m_unscheduledEvents := m_unscheduledEvents s + 1,
              m_events := q\<rparr>) })"

definition sim_Schedule ::
  "'s scheduler \<Rightarrow> int \<Rightarrow> impl_ptr \<Rightarrow> ('s, 'w) simulator \<Rightarrow> (event_id \<times> ('s, 'w) simulator) option" where
  "sim_Schedule S delay ev s = do {
     ns_assert (0 \<le> delay);
     tAbsolute \<leftarrow> time_add delay (sint (m_currentTs s));
     let ts = word_of_int tAbsolute;
     s' \<leftarrow> sim_enqueue S ts (m_currentContext s) ev s;
     Some (\<lparr>id_impl = ev, id_ts = ts, id_context = m_currentContext s, id_uid = m_nextUid s\<rparr>, s') }"

text \<open>The flag says whether the caller is the simulator's own thread.\<close>

definition sim_ScheduleWithContext ::
  "'s scheduler \<Rightarrow> bool \<Rightarrow> u32 \<Rightarrow> int \<Rightarrow> impl_ptr \<Rightarrow> ('s, 'w) simulator \<Rightarrow> ('s, 'w) simulator option" where
  "sim_ScheduleWithContext S mainThread context delay ev s =
     (if mainThread then do {
        tAbsolute \<leftarrow> time_add delay (sint (m_currentTs s));
        sim_enqueue S (word_of_int tAbsolute) context ev s }
      else
        Some (s\<lparr>m_eventsWithContext := m_eventsWithContext s @
                  [\<lparr>wc_context = context, wc_timestamp = word_of_int delay, wc_event = ev\<rparr>],
                m_eventsWithContextEmpty := False\<rparr>))"

definition sim_ScheduleNow ::
  "'s scheduler \<Rightarrow> impl_ptr \<Rightarrow> ('s, 'w) simulator \<Rightarrow> (event_id \<times> ('s, 'w) simulator) option" where
  "sim_ScheduleNow S ev s = sim_Schedule S 0 ev s"

definition sim_ScheduleDestroy ::
  "impl_ptr \<Rightarrow> ('s, 'w) simulator \<Rightarrow> event_id \<times> ('s, 'w) simulator" where
  "sim_ScheduleDestroy ev s =
     (let i = \<lparr>id_impl = ev, id_ts = m_currentTs s, id_context = 0xffffffff, id_uid = 2\<rparr>
      in (i, s\<lparr>m_destroyEvents := m_destroyEvents s @ [i], m_nextUid := m_nextUid s + 1\<rparr>))"

definition sim_IsExpired :: "event_id \<Rightarrow> ('s, 'w) simulator \<Rightarrow> bool" where
  "sim_IsExpired i s =
     (if id_uid i = UID_DESTROY
      then (if id_impl i = 0 \<or> m_cancel s (id_impl i) then True
            else \<not> (\<exists>j\<in>set (m_destroyEvents s). id_eq j i))
      else id_impl i = 0 \<or> id_ts i < m_currentTs s \<or>
           (id_ts i = m_currentTs s \<and> id_uid i \<le> m_currentUid s) \<or> m_cancel s (id_impl i))"

definition sim_GetDelayLeft :: "event_id \<Rightarrow> ('s, 'w) simulator \<Rightarrow> int" where
  "sim_GetDelayLeft i s = (if sim_IsExpired i s then 0 else sint (id_ts i - m_currentTs s))"

definition impl_Cancel :: "impl_ptr \<Rightarrow> ('s, 'w) simulator \<Rightarrow> ('s, 'w) simulator" where
  "impl_Cancel p s = s\<lparr>m_cancel := (m_cancel s)(p := True)\<rparr>"

definition sim_Cancel :: "event_id \<Rightarrow> ('s, 'w) simulator \<Rightarrow> ('s, 'w) simulator" where
  "sim_Cancel i s = (if \<not> sim_IsExpired i s then impl_Cancel (id_impl i) s else s)"

definition id_event :: "event_id \<Rightarrow> event" where
  "id_event i = \<lparr>impl = id_impl i,
     key = \<lparr>m_ts = id_ts i, m_uid = id_uid i, m_context = id_context i\<rparr>\<rparr>"

definition sim_Remove ::
  "'s scheduler \<Rightarrow> event_id \<Rightarrow> ('s, 'w) simulator \<Rightarrow> ('s, 'w) simulator option" where
  "sim_Remove S i s =
     (if id_uid i = UID_DESTROY
      then (case erase_first (\<lambda>j. id_eq j i) (m_destroyEvents s) of
              None \<Rightarrow> Some s
            | Some (_, ds) \<Rightarrow> Some (s\<lparr>m_destroyEvents := ds\<rparr>))
      else if sim_IsExpired i s then Some s
      else do {
        q \<leftarrow> Remove S (m_events s) (id_event i);
        let s1 = impl_Cancel (id_impl i) (s\<lparr>m_events := q\<rparr>);
        Some (s1\<lparr>m_unscheduledEvents := m_unscheduledEvents s1 - 1\<rparr>) })"

definition sim_Stop :: "('s, 'w) simulator \<Rightarrow> ('s, 'w) simulator" where
  "sim_Stop s = s\<lparr>m_stop := True\<rparr>"

text \<open>A program run on the simulator's own thread.\<close>

primrec run_action ::
  "'s scheduler \<Rightarrow> 'w action \<Rightarrow> ('s, 'w) simulator \<Rightarrow> ('s, 'w) simulator option" where
  "run_action S Finish s = Some s"
| "run_action S (Update f a) s = run_action S a (s\<lparr>world := f (world s)\<rparr>)"
| "run_action S (Read k) s = run_action S (k (world s)) s"
| "run_action S (CallNow k) s = run_action S (k (sim_Now s)) s"
| "run_action S (CallSchedule d ev k) s =
     (case sim_Schedule S d ev s of None \<Rightarrow> None | Some (i, s') \<Rightarrow> run_action S (k i) s')"
| "run_action S (CallScheduleNow ev k) s =
     (case sim_ScheduleNow S ev s of None \<Rightarrow> None | Some (i, s') \<Rightarrow> run_action S (k i) s')"
| "run_action S (CallScheduleWithContext c d ev a) s =
     (case sim_ScheduleWithContext S True c d ev s of None \<Rightarrow> None | Some s' \<Rightarrow> run_action S a s')"
| "run_action S (CallScheduleDestroy ev k) s =
     (case sim_ScheduleDestroy ev s of (i, s') \<Rightarrow> run_action S (k i) s')"
| "run_action S (CallIsExpired i k) s = run_action S (k (sim_IsExpired i s)) s"
| "run_action S (CallCancel i a) s = run_action S a (sim_Cancel i s)"
| "run_action S (CallRemove i a) s =
     (case sim_Remove S i s of None \<Rightarrow> None | Some s' \<Rightarrow> run_action S a s')"
| "run_action S (CallStop a) s = run_action S a (sim_Stop s)"

text \<open>\<open>EventImpl::Invoke\<close>: \<open>body p\<close> is what \<open>Notify\<close> of the object at \<open>p\<close> does.\<close>

definition impl_Invoke ::
  "'s scheduler \<Rightarrow> (impl_ptr \<Rightarrow> 'w action) \<Rightarrow> impl_ptr \<Rightarrow> ('s, 'w) simulator \<Rightarrow>
   ('s, 'w) simulator option" where
  "impl_Invoke S body p s = (if \<not> m_cancel s p then run_action S (body p) s else Some s)"

section \<open>The event loop\<close>

fun move_events_with_context ::
  "'s scheduler \<Rightarrow> with_context list \<Rightarrow> ('s, 'w) simulator \<Rightarrow> ('s, 'w) simulator option" where
  "move_events_with_context S [] s = Some s"
| "move_events_with_context S (e # es) s =
     (case sim_enqueue S (m_currentTs s + wc_timestamp e) (wc_context e) (wc_event e) s of
        None \<Rightarrow> None
      | Some s' \<Rightarrow> move_events_with_context S es s')"

definition sim_ProcessEventsWithContext ::
  "'s scheduler \<Rightarrow> ('s, 'w) simulator \<Rightarrow> ('s, 'w) simulator option" where
  "sim_ProcessEventsWithContext S s =
     (if m_eventsWithContextEmpty s then Some s
      else move_events_with_context S (m_eventsWithContext s)
             (s\<lparr>m_eventsWithContext := [], m_eventsWithContextEmpty := True\<rparr>))"

definition sim_ProcessOneEvent ::
  "'s scheduler \<Rightarrow> (impl_ptr \<Rightarrow> 'w action) \<Rightarrow> ('s, 'w) simulator \<Rightarrow> ('s, 'w) simulator option" where
  "sim_ProcessOneEvent S body s = do {
     (nxt, q) \<leftarrow> RemoveNext S (m_events s);
     ns_assert (ev_ts nxt \<ge> m_currentTs s);
     let s1 = s\<lparr>m_events := q, m_unscheduledEvents := m_unscheduledEvents s - 1,
                m_eventCount := m_eventCount s + 1, m_currentTs := ev_ts nxt,
                m_currentContext := m_context (key nxt), m_currentUid := ev_uid nxt\<rparr>;
     s2 \<leftarrow> impl_Invoke S body (impl nxt) s1;
     sim_ProcessEventsWithContext S s2 }"

definition sim_IsFinished :: "'s scheduler \<Rightarrow> ('s, 'w) simulator \<Rightarrow> bool" where
  "sim_IsFinished S s \<longleftrightarrow> IsEmpty S (m_events s) \<or> m_stop s"

text \<open>The loop of \<open>Run\<close> with its final consistency check; \<open>None\<close> also when it does not return.\<close>

partial_function (option) sim_loop ::
  "'s scheduler \<Rightarrow> (impl_ptr \<Rightarrow> 'w action) \<Rightarrow> ('s, 'w) simulator \<Rightarrow> ('s, 'w) simulator option" where
  "sim_loop S body s =
     (if \<not> IsEmpty S (m_events s) \<and> \<not> m_stop s
      then (case sim_ProcessOneEvent S body s of None \<Rightarrow> None | Some s' \<Rightarrow> sim_loop S body s')
      else if \<not> IsEmpty S (m_events s) \<or> m_unscheduledEvents s = 0 then Some s else None)"

definition sim_Run ::
  "'s scheduler \<Rightarrow> (impl_ptr \<Rightarrow> 'w action) \<Rightarrow> ('s, 'w) simulator \<Rightarrow> ('s, 'w) simulator option" where
  "sim_Run S body s = do {
     s' \<leftarrow> sim_ProcessEventsWithContext S s;
     sim_loop S body (s'\<lparr>m_stop := False\<rparr>) }"

partial_function (option) sim_Destroy ::
  "'s scheduler \<Rightarrow> (impl_ptr \<Rightarrow> 'w action) \<Rightarrow> ('s, 'w) simulator \<Rightarrow> ('s, 'w) simulator option" where
  "sim_Destroy S body s =
     (case m_destroyEvents s of
        [] \<Rightarrow> Some s
      | i # ds \<Rightarrow>
          (case impl_Invoke S body (id_impl i) (s\<lparr>m_destroyEvents := ds\<rparr>) of
             None \<Rightarrow> None | Some s' \<Rightarrow> sim_Destroy S body s'))"

text \<open>\<open>SetScheduler\<close>: every event of the old scheduler \<open>q\<close> moves into the new one.\<close>

partial_function (option) move_all ::
  "'s scheduler \<Rightarrow> 't scheduler \<Rightarrow> 's \<Rightarrow> 't \<Rightarrow> 't option" where
  "move_all S T q t =
     (if \<not> IsEmpty S q
      then (case RemoveNext S q of None \<Rightarrow> None
            | Some (e, q') \<Rightarrow>
                (case Insert T t e of None \<Rightarrow> None | Some t' \<Rightarrow> move_all S T q' t'))
      else Some t)"

definition sim_SetScheduler ::
  "'s scheduler \<Rightarrow> 't scheduler \<Rightarrow> 't \<Rightarrow> ('s, 'w) simulator \<Rightarrow> ('t, 'w) simulator option" where
  "sim_SetScheduler S T fresh s = do {
     t \<leftarrow> move_all S T (m_events s) fresh;
     Some \<lparr>m_events = t, m_eventsWithContext = m_eventsWithContext s,
       m_eventsWithContextEmpty = m_eventsWithContextEmpty s, m_destroyEvents = m_destroyEvents s,
       m_stop = m_stop s, m_nextUid = m_nextUid s, m_currentUid = m_currentUid s,
       m_currentTs = m_currentTs s, m_currentContext = m_currentContext s,
       m_eventCount = m_eventCount s, m_unscheduledEvents = m_unscheduledEvents s,
       m_cancel = m_cancel s, world = world s\<rparr> }"


section \<open>The invariant\<close>

text \<open>
  \<open>sim_inv I contents D T U s\<close>: every pending event lies strictly after the current one
  in the order of \<open>EventKey\<close> and at most \<open>D\<close> steps after the bound \<open>T\<close> of the clock;
  its uid was handed out earlier; \<open>m_unscheduledEvents\<close> counts the pending events; the
  flag of the inter-thread list agrees with the list; at most \<open>U\<close> uids are used once the
  list has been moved into the scheduler.
\<close>

definition pending_ok :: "nat \<Rightarrow> ('s, 'w) simulator \<Rightarrow> event \<Rightarrow> bool" where
  "pending_ok B s e \<longleftrightarrow> UID_VALID \<le> ev_uid e \<and> ev_uid e < m_nextUid s \<and>
     (m_currentTs s, m_currentUid s) < rank e \<and> unat (ev_ts e) \<le> B"

definition sim_inv ::
  "('s \<Rightarrow> bool) \<Rightarrow> ('s \<Rightarrow> event multiset) \<Rightarrow> nat \<Rightarrow> nat \<Rightarrow> nat \<Rightarrow> ('s, 'w) simulator \<Rightarrow> bool" where
  "sim_inv I contents D T U s \<longleftrightarrow>
     I (m_events s) \<and>
     (\<forall>e\<in>#contents (m_events s). pending_ok (T + D) s e) \<and>
     m_currentUid s < m_nextUid s \<and> UID_VALID \<le> m_nextUid s \<and> unat (m_currentTs s) \<le> T \<and>
     m_unscheduledEvents s = int (size (contents (m_events s))) \<and>
     (m_eventsWithContextEmpty s \<longleftrightarrow> m_eventsWithContext s = []) \<and>
     (\<forall>w\<in>set (m_eventsWithContext s). unat (wc_timestamp w) \<le> D) \<and>
     unat (m_nextUid s) + length (m_eventsWithContext s) \<le> U"

text \<open>
  \<open>client known D K a n\<close>: the program \<open>a\<close>, which holds the ids \<open>K\<close>, makes at most
  \<open>n\<close> scheduling calls in every execution, each with a delay between 0 and \<open>D\<close>, and
  removes only ids that it holds: the simulator returned them to it, or it read them from
  the user's state, whose stored ids are \<open>known\<close>; ids it stores there are ids it holds.
\<close>

primrec client ::
  "('w \<Rightarrow> event_id set) \<Rightarrow> nat \<Rightarrow> 'w action \<Rightarrow> event_id set \<Rightarrow> nat \<Rightarrow> bool" where
  "client known D Finish K n = True"
| "client known D (Update f a) K n = ((\<forall>w. known (f w) \<subseteq> known w \<union> K) \<and> client known D a K n)"
| "client known D (Read k) K n = (\<forall>w. client known D (k w) (K \<union> known w) n)"
| "client known D (CallNow k) K n = (\<forall>t. client known D (k t) K n)"
| "client known D (CallSchedule d ev k) K n =
     (0 \<le> d \<and> d \<le> int D \<and> 0 < n \<and> (\<forall>i. client known D (k i) (insert i K) (n - 1)))"
| "client known D (CallScheduleNow ev k) K n =
     (0 < n \<and> (\<forall>i. client known D (k i) (insert i K) (n - 1)))"
| "client known D (CallScheduleWithContext c d ev a) K n =
     (0 \<le> d \<and> d \<le> int D \<and> 0 < n \<and> client known D a K (n - 1))"
| "client known D (CallScheduleDestroy ev k) K n =
     (0 < n \<and> (\<forall>i. client known D (k i) (insert i K) (n - 1)))"
| "client known D (CallIsExpired i k) K n = (\<forall>b. client known D (k b) K n)"
| "client known D (CallCancel i a) K n = client known D a K n"
| "client known D (CallRemove i a) K n = (i \<in> K \<and> client known D a K n)"
| "client known D (CallStop a) K n = client known D a K n"

text \<open>An id is genuine when the simulator may still be asked to remove it.\<close>

definition genuine :: "('s \<Rightarrow> event multiset) \<Rightarrow> event_id \<Rightarrow> ('s, 'w) simulator \<Rightarrow> bool" where
  "genuine contents i s \<longleftrightarrow>
     id_uid i = UID_DESTROY \<or> sim_IsExpired i s \<or> id_event i \<in># contents (m_events s)"

text \<open>
  What no call ever undoes: a genuine id stays genuine, an expired one expired, a cancelled
  object cancelled.
\<close>

definition advances ::
  "('s \<Rightarrow> event multiset) \<Rightarrow> ('s, 'w) simulator \<Rightarrow> ('s, 'w) simulator \<Rightarrow> bool" where
  "advances contents s s' \<longleftrightarrow>
     (\<forall>i. genuine contents i s \<longrightarrow> genuine contents i s') \<and>
     (\<forall>i. id_uid i \<noteq> UID_DESTROY \<and> sim_IsExpired i s \<longrightarrow> sim_IsExpired i s') \<and>
     (\<forall>p. m_cancel s p \<longrightarrow> m_cancel s' p)"

definition same_current :: "('s, 'w) simulator \<Rightarrow> ('s, 'w) simulator \<Rightarrow> bool" where
  "same_current s s' \<longleftrightarrow> m_currentTs s' = m_currentTs s \<and> m_currentUid s' = m_currentUid s \<and>
     m_currentContext s' = m_currentContext s"

lemma advances_refl: "advances contents s s"
  by (simp add: advances_def)

lemma advances_trans: "advances contents s s' \<Longrightarrow> advances contents s' s'' \<Longrightarrow> advances contents s s''"
  by (simp add: advances_def)

lemma same_current_refl: "same_current s s"
  by (simp add: same_current_def)

lemma same_current_trans: "same_current s s' \<Longrightarrow> same_current s' s'' \<Longrightarrow> same_current s s''"
  by (simp add: same_current_def)

lemma id_event_inject [simp]: "id_event i = id_event j \<longleftrightarrow> i = j"
  by (cases i; cases j) (auto simp: id_event_def)

lemma expired_later:
  assumes "(m_currentTs s, m_currentUid s) \<le> (m_currentTs s', m_currentUid s')"
    and "\<And>p. m_cancel s p \<Longrightarrow> m_cancel s' p"
    and "id_uid i \<noteq> UID_DESTROY" and "sim_IsExpired i s"
  shows "sim_IsExpired i s'"
  using assms by (auto simp: sim_IsExpired_def less_eq_prod_def less_prod_def)

lemma advancesI:
  assumes le: "(m_currentTs s, m_currentUid s) \<le> (m_currentTs s', m_currentUid s')"
    and c: "\<And>p. m_cancel s p \<Longrightarrow> m_cancel s' p"
    and e: "\<And>i. id_event i \<in># contents (m_events s) \<Longrightarrow> id_uid i \<noteq> UID_DESTROY \<Longrightarrow>
      id_event i \<in># contents (m_events s') \<or> sim_IsExpired i s'"
  shows "advances contents s s'"
proof -
  have x: "id_uid i \<noteq> UID_DESTROY \<Longrightarrow> sim_IsExpired i s \<Longrightarrow> sim_IsExpired i s'" for i
    using expired_later [OF le c] by blast
  moreover have "genuine contents i s \<Longrightarrow> genuine contents i s'" for i
    using x [of i] e [of i] by (auto simp: genuine_def)
  ultimately show ?thesis using c by (simp add: advances_def)
qed

text \<open>The state in which an event is invoked.\<close>

definition dispatch :: "event \<Rightarrow> 's \<Rightarrow> ('s, 'w) simulator \<Rightarrow> ('s, 'w) simulator" where
  "dispatch e q s = s\<lparr>m_events := q, m_unscheduledEvents := m_unscheduledEvents s - 1,
     m_eventCount := m_eventCount s + 1, m_currentTs := ev_ts e,
     m_currentContext := m_context (key e), m_currentUid := ev_uid e\<rparr>"

text \<open>
  \<open>sim_reach S body known D n m f s0 s\<close>: a state between two calls from outside, reached
  after \<open>m\<close> events were processed or programs of the user run, and after \<open>f\<close> calls of
  \<open>ScheduleWithContext\<close> from other threads with delays of at most \<open>D\<close>. \<open>Run\<close> itself is
  the step \<open>begin_run\<close> and then the steps \<open>event\<close>.
\<close>

inductive sim_reach ::
  "'s scheduler \<Rightarrow> (impl_ptr \<Rightarrow> 'w action) \<Rightarrow> ('w \<Rightarrow> event_id set) \<Rightarrow> nat \<Rightarrow> nat \<Rightarrow> nat \<Rightarrow> nat \<Rightarrow>
   ('s, 'w) simulator \<Rightarrow> ('s, 'w) simulator \<Rightarrow> bool"
  for S body known D n where
  start: "sim_reach S body known D n 0 0 s s"
| event: "sim_reach S body known D n m f s0 s \<Longrightarrow> \<not> IsEmpty S (m_events s) \<Longrightarrow>
    sim_ProcessOneEvent S body s = Some s' \<Longrightarrow> sim_reach S body known D n (Suc m) f s0 s'"
| user: "sim_reach S body known D n m f s0 s \<Longrightarrow> client known D a {} n \<Longrightarrow>
    run_action S a s = Some s' \<Longrightarrow> sim_reach S body known D n (Suc m) f s0 s'"
| foreign: "sim_reach S body known D n m f s0 s \<Longrightarrow> 0 \<le> d \<Longrightarrow> d \<le> int D \<Longrightarrow>
    sim_ScheduleWithContext S False c d ev s = Some s' \<Longrightarrow>
    sim_reach S body known D n m (Suc f) s0 s'"
| begin_run: "sim_reach S body known D n m f s0 s \<Longrightarrow>
    sim_ProcessEventsWithContext S s = Some s' \<Longrightarrow>
    sim_reach S body known D n m f s0 (s'\<lparr>m_stop := False\<rparr>)"

text \<open>The absolute time of a delay, when the clock has room for it.\<close>

lemma absolute_time:
  assumes "0 \<le> d" and "d \<le> int D" and "unat (c :: u64) \<le> T" and "T + D < 2 ^ 63"
  shows "\<exists>ts. time_add d (sint c) = Some (int (unat ts)) \<and>
    word_of_int (int (unat ts)) = (ts :: u64) \<and> unat ts = nat d + unat c \<and> c \<le> ts"
proof -
  have si: "sint c = int (unat c)"
    using assms by (intro sint_small) simp
  define ts where "ts = word_of_int d + c"
  have "unat (word_of_int d :: u64) = nat d"
    using assms by (simp add: unsigned_of_int take_bit_int_eq_self)
  with assms have u: "unat ts = nat d + unat c"
    unfolding ts_def by (subst unat_add_no_wrap) simp_all
  then have "c \<le> ts" by (simp add: word_le_nat_alt)
  moreover have e: "d + sint c = int (unat ts)" using u si assms(1) by simp
  have "nat d \<le> D" using assms(2) by simp
  then have "unat ts < 2 ^ 63" using u assms(3,4) by linarith
  then have "int (unat ts) < int (2 ^ 63)" by (rule iffD2 [OF of_nat_less_iff])
  then have "time_add d (sint c) = Some (int (unat ts))"
    unfolding time_add_def e using order_trans [of "- (2 ^ 63)" 0 "int (unat ts)"] by simp
  moreover have "word_of_int (int (unat ts)) = ts" by simp
  ultimately show ?thesis using u by blast
qed

section \<open>A cancelled object stays cancelled\<close>

lemma enqueue_cancel: "sim_enqueue S ts c ev s = Some s' \<Longrightarrow> m_cancel s' = m_cancel s"
  by (auto simp: sim_enqueue_def Let_def bind_eq_Some_conv)

lemma schedule_cancel: "sim_Schedule S d ev s = Some (i, s') \<Longrightarrow> m_cancel s' = m_cancel s"
  by (auto simp: sim_Schedule_def Let_def bind_eq_Some_conv dest: enqueue_cancel)

lemma remove_cancel: "sim_Remove S i s = Some s' \<Longrightarrow> m_cancel s p \<Longrightarrow> m_cancel s' p"
  by (auto simp: sim_Remove_def impl_Cancel_def bind_eq_Some_conv split: if_splits option.splits)

lemma schedule_with_context_cancel:
  "sim_ScheduleWithContext S b c d ev s = Some s' \<Longrightarrow> m_cancel s' = m_cancel s"
  by (auto simp: sim_ScheduleWithContext_def bind_eq_Some_conv split: if_splits
      dest: enqueue_cancel)

lemma run_action_cancel: "run_action S a s = Some s' \<Longrightarrow> m_cancel s p \<Longrightarrow> m_cancel s' p"
proof (induction a arbitrary: s)
  case (CallSchedule d ev k)
  from CallSchedule.prems(1) obtain i s1 where
    s1: "sim_Schedule S d ev s = Some (i, s1)" "run_action S (k i) s1 = Some s'"
    by (auto split: option.splits)
  with CallSchedule.prems(2) schedule_cancel [OF s1(1)] show ?case
    by (intro CallSchedule.IH [OF _ s1(2)]) auto
next
  case (CallScheduleNow ev k)
  from CallScheduleNow.prems(1) obtain i s1 where
    s1: "sim_Schedule S 0 ev s = Some (i, s1)" "run_action S (k i) s1 = Some s'"
    by (auto simp: sim_ScheduleNow_def split: option.splits)
  with CallScheduleNow.prems(2) schedule_cancel [OF s1(1)] show ?case
    by (intro CallScheduleNow.IH [OF _ s1(2)]) auto
qed (fastforce simp: sim_ScheduleDestroy_def Let_def sim_Cancel_def impl_Cancel_def sim_Stop_def
    dest: schedule_with_context_cancel remove_cancel split: option.splits if_splits)+

lemma invoke_cancel: "impl_Invoke S body q s = Some s' \<Longrightarrow> m_cancel s p \<Longrightarrow> m_cancel s' p"
  by (auto simp: impl_Invoke_def split: if_splits dest: run_action_cancel)

lemma move_events_cancel:
  "move_events_with_context S ws s = Some s' \<Longrightarrow> m_cancel s' = m_cancel s"
  by (induction ws arbitrary: s) (auto split: option.splits dest: enqueue_cancel)

lemma process_with_context_cancel:
  "sim_ProcessEventsWithContext S s = Some s' \<Longrightarrow> m_cancel s' = m_cancel s"
  by (auto simp: sim_ProcessEventsWithContext_def split: if_splits dest: move_events_cancel)

lemma process_one_cancel:
  assumes "sim_ProcessOneEvent S body s = Some s'" and "m_cancel s p"
  shows "m_cancel s' p"
  using assms by (auto simp: sim_ProcessOneEvent_def Let_def bind_eq_Some_conv
      dest!: process_with_context_cancel dest: invoke_cancel [where p = p])

text \<open>What the object at \<open>p\<close> would have done is irrelevant once it is cancelled.\<close>

lemma process_one_cancelled:
  assumes "m_cancel s p" and "\<And>q. q \<noteq> p \<Longrightarrow> body q = body' q"
  shows "sim_ProcessOneEvent S body s = sim_ProcessOneEvent S body' s"
proof -
  have "m_cancel t p \<Longrightarrow> impl_Invoke S body q t = impl_Invoke S body' q t" for q and t :: "('a, 'b) simulator"
    using assms(2) [of q] by (cases "q = p") (simp_all add: impl_Invoke_def)
  with assms(1) show ?thesis
    by (auto simp: sim_ProcessOneEvent_def Let_def option_simps split: Option.bind_split)
qed

lemma loop_cancelled_aux:
  assumes "sim_loop S body s = Some r" and "m_cancel s p" and "\<And>q. q \<noteq> p \<Longrightarrow> body q = body' q"
  shows "sim_loop S body' s = Some r"
proof -
  let ?P = "\<lambda>S body s r. m_cancel s p \<longrightarrow> (\<forall>q. q \<noteq> p \<longrightarrow> body q = body' q) \<longrightarrow>
    sim_loop S body' s = Some r"
  have "?P S body s r"
  proof (rule sim_loop.raw_induct [where P = ?P, OF _ assms(1)], intro impI)
    fix loop and S :: "'a scheduler" and body :: "impl_ptr \<Rightarrow> 'b action"
      and s :: "('a, 'b) simulator" and r
    assume IH: "\<And>S body s r. loop S body s = Some r \<Longrightarrow> ?P S body s r"
      and step: "(if \<not> IsEmpty S (m_events s) \<and> \<not> m_stop s
         then (case sim_ProcessOneEvent S body s of None \<Rightarrow> None | Some s' \<Rightarrow> loop S body s')
         else if \<not> IsEmpty S (m_events s) \<or> m_unscheduledEvents s = 0 then Some s else None)
         = Some r"
      and c: "m_cancel s p" and eq: "\<forall>q. q \<noteq> p \<longrightarrow> body q = body' q"
    have same: "sim_ProcessOneEvent S body s = sim_ProcessOneEvent S body' s"
      by (rule process_one_cancelled [OF c]) (use eq in blast)
    show "sim_loop S body' s = Some r"
      using step IH c eq process_one_cancel [OF _ c, of S body]
      by (subst sim_loop.simps) (auto simp: same split: if_splits option.splits)
  qed
  with assms(2,3) show ?thesis by blast
qed

lemma loop_cancelled:
  assumes "m_cancel s p" and "\<And>q. q \<noteq> p \<Longrightarrow> body q = body' q"
  shows "sim_loop S body s = sim_loop S body' s"
proof (cases "sim_loop S body s")
  case (Some r)
  with loop_cancelled_aux [OF Some assms] show ?thesis by simp
next
  case None
  show ?thesis
  proof (cases "sim_loop S body' s")
    case (Some r)
    have "sim_loop S body s = Some r"
      by (rule loop_cancelled_aux [OF Some assms(1)]) (simp add: assms(2))
    with Some show ?thesis by simp
  qed (use None in simp)
qed

section \<open>The simulator over a contract-abiding scheduler\<close>

locale simulation_queue = removable_event_queue +
  assumes accepts_all: "accepts s e"
begin

abbreviation "sinv \<equiv> sim_inv inv contents"

lemma fresh_uid:
  assumes "sinv D T U s"
  shows "m_nextUid s \<notin># uids (contents (m_events s))"
  using assms by (auto simp: sim_inv_def pending_ok_def in_uids)

lemma enqueue_inv:
  assumes "sinv D T U s" and "U < 2 ^ 32"
    and "unat (m_nextUid s) + length (m_eventsWithContext s) < U'" and "U' < 2 ^ 32"
    and "m_currentTs s \<le> ts" and "unat ts \<le> T + D"
  shows "\<exists>s' q. sim_enqueue S ts c ev s = Some s' \<and> sinv D T U' s' \<and>
    s' = s\<lparr>m_nextUid := m_nextUid s + 1, m_unscheduledEvents := m_unscheduledEvents s + 1,
           m_events := q\<rparr> \<and>
    contents q = add_mset \<lparr>impl = ev, key = \<lparr>m_ts = ts, m_uid = m_nextUid s, m_context = c\<rparr>\<rparr>
                   (contents (m_events s)) \<and>
    unat (m_nextUid s') = unat (m_nextUid s) + 1"
proof -
  let ?e = "\<lparr>impl = ev, key = \<lparr>m_ts = ts, m_uid = m_nextUid s, m_context = c\<rparr>\<rparr>"
  have i: "inv (m_events s)" using assms(1) by (simp add: sim_inv_def)
  have "ev_uid ?e \<notin># uids (contents (m_events s))"
    using fresh_uid [OF assms(1)] by simp
  from insert_law [OF i accepts_all this] obtain q where
    q: "Insert S (m_events s) ?e = Some q" "inv q" "contents q = add_mset ?e (contents (m_events s))"
    by blast
  have u: "unat (m_nextUid s + 1) = unat (m_nextUid s) + 1"
    using assms by (intro unat_succ_no_wrap) simp
  have up: "x < m_nextUid s \<Longrightarrow> x < m_nextUid s + 1" for x
    using u by (simp add: word_less_nat_alt)
  have lt: "m_nextUid s < m_nextUid s + 1" using u by (simp add: word_less_nat_alt)
  let ?s = "s\<lparr>m_nextUid := m_nextUid s + 1, m_unscheduledEvents := m_unscheduledEvents s + 1,
    m_events := q\<rparr>"
  have old: "pending_ok (T + D) ?s e" if "pending_ok (T + D) s e" for e
    using that up by (simp add: pending_ok_def)
  have new: "pending_ok (T + D) ?s ?e"
    using assms lt by (auto simp: pending_ok_def sim_inv_def key_rank_def less_prod_def)
  have "sinv D T U' ?s"
    using assms(1,3) q u old new up lt by (auto simp: sim_inv_def intro: order_trans less_imp_le)
  with q u show ?thesis
    by (intro exI [of _ ?s] exI [of _ q]) (simp add: sim_enqueue_def Let_def)
qed

lemma schedule_inv:
  assumes "sinv D T U s" and "U < 2 ^ 32 - 1" and "0 \<le> d" and "d \<le> int D" and "T + D < 2 ^ 63"
  shows "\<exists>i s' q. sim_Schedule S d ev s = Some (i, s') \<and> sinv D T (U + 1) s' \<and>
    s' = s\<lparr>m_nextUid := m_nextUid s + 1, m_unscheduledEvents := m_unscheduledEvents s + 1,
           m_events := q\<rparr> \<and>
    contents q = add_mset (id_event i) (contents (m_events s)) \<and>
    id_impl i = ev \<and> id_uid i = m_nextUid s \<and>
    unat (id_ts i) = nat d + unat (m_currentTs s) \<and> id_context i = m_currentContext s"
proof -
  have c: "unat (m_currentTs s) \<le> T" using assms(1) by (simp add: sim_inv_def)
  from absolute_time [OF assms(3,4) c assms(5)] obtain ts where
    ts: "time_add d (sint (m_currentTs s)) = Some (int (unat ts))"
      "word_of_int (int (unat ts)) = ts" "unat ts = nat d + unat (m_currentTs s)"
      "m_currentTs s \<le> ts" by blast
  have tsle: "unat ts \<le> T + D" using ts(3) c assms(3,4) by linarith
  have "unat (m_nextUid s) + length (m_eventsWithContext s) < U + 1"
    using assms(1) by (simp add: sim_inv_def)
  then obtain s' q where "sim_enqueue S ts (m_currentContext s) ev s = Some s'" "sinv D T (U + 1) s'"
    "s' = s\<lparr>m_nextUid := m_nextUid s + 1, m_unscheduledEvents := m_unscheduledEvents s + 1,
           m_events := q\<rparr>"
    "contents q = add_mset \<lparr>impl = ev, key = \<lparr>m_ts = ts, m_uid = m_nextUid s,
       m_context = m_currentContext s\<rparr>\<rparr> (contents (m_events s))"
    using enqueue_inv [OF assms(1) _ _ _ ts(4) tsle, of "U + 1" "m_currentContext s" ev] assms(2)
    by auto
  with ts(1,2,3) assms(3) show ?thesis
    by (auto simp: sim_Schedule_def Let_def option_simps id_event_def)
qed

lemma schedule_with_context_inv:
  assumes "sinv D T U s" and "U < 2 ^ 32 - 1" and "0 \<le> d" and "d \<le> int D" and "T + D < 2 ^ 63"
  shows "\<exists>s'. sim_ScheduleWithContext S True c d ev s = Some s' \<and> sinv D T (U + 1) s' \<and>
    m_currentTs s' = m_currentTs s \<and> m_currentUid s' = m_currentUid s \<and>
    m_cancel s' = m_cancel s \<and> contents (m_events s) \<subseteq># contents (m_events s') \<and>
    m_destroyEvents s' = m_destroyEvents s"
proof -
  have c: "unat (m_currentTs s) \<le> T" using assms(1) by (simp add: sim_inv_def)
  from absolute_time [OF assms(3,4) c assms(5)] obtain ts where
    ts: "time_add d (sint (m_currentTs s)) = Some (int (unat ts))"
      "word_of_int (int (unat ts)) = ts" "unat ts = nat d + unat (m_currentTs s)"
      "m_currentTs s \<le> ts" by blast
  have tsle: "unat ts \<le> T + D" using ts(3) c assms(3,4) by linarith
  have "unat (m_nextUid s) + length (m_eventsWithContext s) < U + 1"
    using assms(1) by (simp add: sim_inv_def)
  then show ?thesis
    using enqueue_inv [OF assms(1) _ _ _ ts(4) tsle, of "U + 1" c ev] assms(2) ts
    by (auto simp: sim_ScheduleWithContext_def)
qed

lemma schedule_destroy_inv:
  assumes "sinv D T U s" and "U < 2 ^ 32 - 1" and "sim_ScheduleDestroy ev s = (i, s')"
  shows "sinv D T (U + 1) s'"
proof -
  have u: "unat (m_nextUid s + 1) = unat (m_nextUid s) + 1"
    using assms by (intro unat_succ_no_wrap) (simp add: sim_inv_def)
  have up: "x < m_nextUid s \<Longrightarrow> x < m_nextUid s + 1" for x
    using u by (simp add: word_less_nat_alt)
  have "UID_VALID \<le> m_nextUid s \<Longrightarrow> UID_VALID \<le> m_nextUid s + 1"
    using u by (simp add: word_le_nat_alt)
  with assms u up show ?thesis
    by (auto simp: sim_inv_def sim_ScheduleDestroy_def Let_def pending_ok_def)
qed

lemma cancel_inv: "sinv D T U s \<Longrightarrow> sinv D T U (sim_Cancel i s)"
  by (simp add: sim_inv_def sim_Cancel_def impl_Cancel_def pending_ok_def)

lemma remove_inv:
  assumes "sinv D T U s" and "genuine contents i s"
  shows "\<exists>s'. sim_Remove S i s = Some s' \<and> sinv D T U s'"
proof (cases "id_uid i = UID_DESTROY \<or> sim_IsExpired i s")
  case True
  with assms(1) show ?thesis
    by (auto simp: sim_Remove_def sim_inv_def pending_ok_def split: option.split)
next
  case False
  with assms(2) have m: "id_event i \<in># contents (m_events s)" by (simp add: genuine_def)
  have "inv (m_events s)" using assms(1) by (simp add: sim_inv_def)
  from remove_law [OF this m] obtain q where
    q: "Remove S (m_events s) (id_event i) = Some q" "inv q"
      "contents q = contents (m_events s) - {#id_event i#}" by blast
  have "size (contents q) + 1 = size (contents (m_events s))"
    using m q(3) by (metis Suc_eq_plus1 insert_DiffM size_add_mset)
  then have "sinv D T U (impl_Cancel (id_impl i) (s\<lparr>m_events := q\<rparr>)
      \<lparr>m_unscheduledEvents := m_unscheduledEvents s - 1\<rparr>)"
    using assms(1) q(2,3) m
    by (auto simp: sim_inv_def impl_Cancel_def pending_ok_def dest: in_diffD)
  with False q(1) show ?thesis by (simp add: sim_Remove_def impl_Cancel_def)
qed

text \<open>What the scheduling calls of a program leave behind.\<close>

lemma remove_advances:
  assumes "sinv D T U s" and "genuine contents i s" and "sim_Remove S i s = Some s'"
  shows "advances contents s s' \<and> same_current s s'"
proof (cases "id_uid i = UID_DESTROY \<or> sim_IsExpired i s")
  case True
  with assms(3) obtain ds where "s' = s \<or> s' = s\<lparr>m_destroyEvents := ds\<rparr>"
    by (auto simp: sim_Remove_def split: option.splits if_splits)
  then show ?thesis
    by (auto simp: same_current_def advances_refl intro!: advancesI)
next
  case False
  with assms(2) have m: "id_event i \<in># contents (m_events s)" by (simp add: genuine_def)
  have "inv (m_events s)" using assms(1) by (simp add: sim_inv_def)
  from remove_law [OF this m] False assms(3) obtain q where
    q: "contents q = contents (m_events s) - {#id_event i#}"
    "s' = (impl_Cancel (id_impl i) (s\<lparr>m_events := q\<rparr>))
       \<lparr>m_unscheduledEvents := m_unscheduledEvents s - 1\<rparr>"
    by (auto simp: sim_Remove_def impl_Cancel_def)
  have "id_event j \<in># contents (m_events s') \<or> sim_IsExpired j s'"
    if j: "id_event j \<in># contents (m_events s)" and d: "id_uid j \<noteq> UID_DESTROY" for j
  proof (cases "j = i")
    case True
    with d show ?thesis by (simp add: q(2) sim_IsExpired_def impl_Cancel_def)
  next
    case False
    with j have "id_event j \<in># contents (m_events s')"
      by (simp add: q impl_Cancel_def in_diff_count)
    then show ?thesis ..
  qed
  note keep = this
  have "advances contents s s'"
    by (rule advancesI [of s s' contents, OF _ _ keep]) (auto simp: q(2) impl_Cancel_def)
  then show ?thesis by (simp add: q(2) impl_Cancel_def same_current_def)
qed

lemma schedule_steps:
  assumes "sinv D T U s" and "U < 2 ^ 32 - 1" and "0 \<le> d" and "d \<le> int D" and "T + D < 2 ^ 63"
  shows "\<exists>i s'. sim_Schedule S d ev s = Some (i, s') \<and> sinv D T (U + 1) s' \<and>
    advances contents s s' \<and> same_current s s' \<and> genuine contents i s' \<and> world s' = world s"
proof -
  from schedule_inv [OF assms] obtain i s' q where
    s': "sim_Schedule S d ev s = Some (i, s')" "sinv D T (U + 1) s'"
    "s' = s\<lparr>m_nextUid := m_nextUid s + 1, m_unscheduledEvents := m_unscheduledEvents s + 1,
           m_events := q\<rparr>"
    "contents q = add_mset (id_event i) (contents (m_events s))" by blast
  then have "advances contents s s'" by (intro advancesI) simp_all
  with s' show ?thesis by (simp add: same_current_def genuine_def)
qed

lemma schedule_with_context_steps:
  assumes "sinv D T U s" and "U < 2 ^ 32 - 1" and "0 \<le> d" and "d \<le> int D" and "T + D < 2 ^ 63"
  shows "\<exists>s'. sim_ScheduleWithContext S True c d ev s = Some s' \<and> sinv D T (U + 1) s' \<and>
    advances contents s s' \<and> same_current s s' \<and> world s' = world s"
proof -
  from schedule_with_context_inv [OF assms] obtain s' where
    s': "sim_ScheduleWithContext S True c d ev s = Some s'" "sinv D T (U + 1) s'"
    "m_currentTs s' = m_currentTs s" "m_currentUid s' = m_currentUid s" "m_cancel s' = m_cancel s"
    "contents (m_events s) \<subseteq># contents (m_events s')" by blast
  have "world s' = world s \<and> m_currentContext s' = m_currentContext s"
    using s'(1) by (auto simp: sim_ScheduleWithContext_def sim_enqueue_def Let_def bind_eq_Some_conv)
  moreover have "advances contents s s'"
    using s' by (intro advancesI) (auto dest: mset_subset_eqD)
  ultimately show ?thesis using s' by (auto simp: same_current_def)
qed

abbreviation "ends_ok known D T U s r \<equiv> (\<exists>s'. r = Some s' \<and> sinv D T U s' \<and>
  advances contents s s' \<and> same_current s s' \<and> (\<forall>i\<in>known (world s'). genuine contents i s'))"

lemma ends_ok_step:
  assumes "ends_ok known D T U s1 r" and "advances contents s s1" and "same_current s s1"
  shows "ends_ok known D T U s r"
  using assms advances_trans same_current_trans by blast

lemma genuine_mono:
  "advances contents s s1 \<Longrightarrow> \<forall>i\<in>A. genuine contents i s \<Longrightarrow> \<forall>i\<in>A. genuine contents i s1"
  by (auto simp: advances_def)

lemma run_action_inv:
  assumes "client known D a K n" and "sinv D T U s" and "U + n < 2 ^ 32" and "T + D < 2 ^ 63"
    and "\<forall>i\<in>K \<union> known (world s). genuine contents i s"
  shows "ends_ok known D T (U + n) s (run_action S a s)"
  using assms
proof (induction a arbitrary: K n U s)
  case Finish
  then show ?case by (auto simp: advances_refl same_current_refl sim_inv_def)
next
  case (Update f a)
  let ?s = "s\<lparr>world := f (world s)\<rparr>"
  have a: "advances contents s ?s" by (intro advancesI) simp_all
  have "ends_ok known D T (U + n) ?s (run_action S a ?s)"
  proof (rule Update.IH)
    show "client known D a K n" using Update.prems(1) by simp
    show "sinv D T U ?s" using Update.prems(2) by (simp add: sim_inv_def pending_ok_def)
    have "known (f (world s)) \<subseteq> known (world s) \<union> K" using Update.prems(1) by simp
    then show "\<forall>i\<in>K \<union> known (world ?s). genuine contents i ?s"
      using genuine_mono [OF a Update.prems(5)] by auto
  qed (use Update.prems in simp_all)
  from ends_ok_step [OF this a] show ?case by (simp add: same_current_def)
next
  case (Read k)
  have "ends_ok known D T (U + n) s (run_action S (k (world s)) s)"
    by (rule Read.IH [of _ "K \<union> known (world s)"]) (use Read.prems in auto)
  then show ?case by simp
next
  case (CallNow k)
  have "ends_ok known D T (U + n) s (run_action S (k (sim_Now s)) s)"
    by (rule CallNow.IH [of _ K]) (use CallNow.prems in auto)
  then show ?case by simp
next
  case (CallSchedule d ev k)
  from CallSchedule.prems have "0 \<le> d" "d \<le> int D" "0 < n" "U < 2 ^ 32 - 1" by auto
  from schedule_steps [OF CallSchedule.prems(2) this(4,1,2) CallSchedule.prems(4)] obtain i s1 where
    s1: "sim_Schedule S d ev s = Some (i, s1)" "sinv D T (U + 1) s1" "advances contents s s1"
      "same_current s s1" "genuine contents i s1" "world s1 = world s" by blast
  have "ends_ok known D T (U + 1 + (n - 1)) s1 (run_action S (k i) s1)"
    by (rule CallSchedule.IH [of _ "insert i K"])
      (use CallSchedule.prems s1 genuine_mono [OF s1(3) CallSchedule.prems(5)] in auto)
  from ends_ok_step [OF this s1(3,4)] show ?case using s1(1) \<open>0 < n\<close> by simp
next
  case (CallScheduleNow ev k)
  from CallScheduleNow.prems have "0 < n" "U < 2 ^ 32 - 1" by auto
  from schedule_steps [OF CallScheduleNow.prems(2) this(2) _ _ CallScheduleNow.prems(4), of 0 ev]
  obtain i s1 where
    s1: "sim_ScheduleNow S ev s = Some (i, s1)" "sinv D T (U + 1) s1" "advances contents s s1"
      "same_current s s1" "genuine contents i s1" "world s1 = world s"
    unfolding sim_ScheduleNow_def by auto
  have "ends_ok known D T (U + 1 + (n - 1)) s1 (run_action S (k i) s1)"
    by (rule CallScheduleNow.IH [of _ "insert i K"])
      (use CallScheduleNow.prems s1 genuine_mono [OF s1(3) CallScheduleNow.prems(5)] in auto)
  from ends_ok_step [OF this s1(3,4)] show ?case using s1(1) \<open>0 < n\<close> by simp
next
  case (CallScheduleWithContext c d ev a)
  from CallScheduleWithContext.prems have "0 \<le> d" "d \<le> int D" "0 < n" "U < 2 ^ 32 - 1" by auto
  from schedule_with_context_steps [OF CallScheduleWithContext.prems(2) this(4,1,2)
    CallScheduleWithContext.prems(4)] obtain s1 where
    s1: "sim_ScheduleWithContext S True c d ev s = Some s1" "sinv D T (U + 1) s1"
      "advances contents s s1" "same_current s s1" "world s1 = world s" by blast
  have "ends_ok known D T (U + 1 + (n - 1)) s1 (run_action S a s1)"
    by (rule CallScheduleWithContext.IH [of K])
      (use CallScheduleWithContext.prems s1
        genuine_mono [OF s1(3) CallScheduleWithContext.prems(5)] in auto)
  from ends_ok_step [OF this s1(3,4)] show ?case using s1(1) \<open>0 < n\<close> by simp
next
  case (CallScheduleDestroy ev k)
  obtain i s1 where d: "sim_ScheduleDestroy ev s = (i, s1)" by fastforce
  have "0 < n" "U < 2 ^ 32 - 1" using CallScheduleDestroy.prems by auto
  with schedule_destroy_inv [OF CallScheduleDestroy.prems(2) _ d] have inv1: "sinv D T (U + 1) s1"
    by blast
  have a: "advances contents s s1" "same_current s s1" "world s1 = world s" "genuine contents i s1"
    using d by (auto simp: sim_ScheduleDestroy_def Let_def same_current_def genuine_def uid_defs
        intro!: advancesI)
  have "ends_ok known D T (U + 1 + (n - 1)) s1 (run_action S (k i) s1)"
    by (rule CallScheduleDestroy.IH [of _ "insert i K"])
      (use CallScheduleDestroy.prems a inv1 genuine_mono [OF a(1) CallScheduleDestroy.prems(5)]
        in auto)
  from ends_ok_step [OF this a(1,2)] show ?case using d \<open>0 < n\<close> by simp
next
  case (CallIsExpired i k)
  have "ends_ok known D T (U + n) s (run_action S (k (sim_IsExpired i s)) s)"
    by (rule CallIsExpired.IH [of _ K]) (use CallIsExpired.prems in auto)
  then show ?case by simp
next
  case (CallCancel i a)
  let ?s = "sim_Cancel i s"
  have a: "advances contents s ?s" "same_current s ?s" "world ?s = world s"
    by (auto simp: sim_Cancel_def impl_Cancel_def same_current_def intro!: advancesI)
  have "ends_ok known D T (U + n) ?s (run_action S a ?s)"
    by (rule CallCancel.IH [of K])
      (use CallCancel.prems a cancel_inv genuine_mono [OF a(1) CallCancel.prems(5)] in auto)
  from ends_ok_step [OF this a(1,2)] show ?case by simp
next
  case (CallRemove i a)
  then have g: "genuine contents i s" by simp
  from remove_inv [OF CallRemove.prems(2) g] obtain s1 where
    s1: "sim_Remove S i s = Some s1" "sinv D T U s1" by blast
  note a = remove_advances [OF CallRemove.prems(2) g s1(1)]
  have w: "world s1 = world s"
    using s1(1) by (auto simp: sim_Remove_def impl_Cancel_def bind_eq_Some_conv
        split: if_splits option.splits)
  have "ends_ok known D T (U + n) s1 (run_action S a s1)"
    by (rule CallRemove.IH [of K])
      (use CallRemove.prems a w s1(2) genuine_mono [OF conjunct1 [OF a] CallRemove.prems(5)] in auto)
  from ends_ok_step [OF this] a show ?case by (simp add: s1(1))
next
  case (CallStop a)
  let ?s = "sim_Stop s"
  have a: "advances contents s ?s" "same_current s ?s" "world ?s = world s"
    by (auto simp: sim_Stop_def same_current_def intro!: advancesI)
  have "sinv D T U ?s" using CallStop.prems(2) by (simp add: sim_inv_def sim_Stop_def pending_ok_def)
  then have "ends_ok known D T (U + n) ?s (run_action S a ?s)"
    by (intro CallStop.IH [of K])
      (use CallStop.prems a genuine_mono [OF a(1) CallStop.prems(5)] in auto)
  from ends_ok_step [OF this a(1,2)] show ?case by simp
qed

subsection \<open>One event\<close>

lemma move_events_inv:
  assumes "sinv D T U s" and "m_eventsWithContext s = []"
    and "\<forall>w\<in>set ws. unat (wc_timestamp w) \<le> D"
    and "unat (m_nextUid s) + length ws \<le> U" and "U < 2 ^ 32" and "T + D < 2 ^ 63"
  shows "\<exists>s'. move_events_with_context S ws s = Some s' \<and> sinv D T U s' \<and>
    advances contents s s' \<and> same_current s s' \<and> world s' = world s \<and>
    m_eventsWithContext s' = []"
  using assms
proof (induction ws arbitrary: s)
  case Nil
  then show ?case by (simp add: advances_refl same_current_refl)
next
  case (Cons w ws)
  let ?ts = "m_currentTs s + wc_timestamp w"
  have c: "unat (m_currentTs s) \<le> T" using Cons.prems(1) by (simp add: sim_inv_def)
  have w: "unat (wc_timestamp w) \<le> D" using Cons.prems(3) by simp
  have u: "unat ?ts = unat (m_currentTs s) + unat (wc_timestamp w)"
    using c w Cons.prems(6) by (intro unat_add_no_wrap) simp
  then have ts: "m_currentTs s \<le> ?ts" "unat ?ts \<le> T + D"
    using c w by (simp_all add: word_le_nat_alt)
  have "unat (m_nextUid s) + length (m_eventsWithContext s) < U" using Cons.prems by simp
  from enqueue_inv [OF Cons.prems(1,5) this Cons.prems(5) ts, of "wc_context w" "wc_event w"]
  obtain s1 q where s1: "sim_enqueue S ?ts (wc_context w) (wc_event w) s = Some s1"
    "sinv D T U s1" "s1 = s\<lparr>m_nextUid := m_nextUid s + 1,
       m_unscheduledEvents := m_unscheduledEvents s + 1, m_events := q\<rparr>"
    "contents q = add_mset \<lparr>impl = wc_event w, key = \<lparr>m_ts = ?ts, m_uid = m_nextUid s,
       m_context = wc_context w\<rparr>\<rparr> (contents (m_events s))"
    "unat (m_nextUid s1) = unat (m_nextUid s) + 1" by blast
  have a: "advances contents s s1" "same_current s s1" "world s1 = world s"
    using s1(3,4) by (auto simp: same_current_def intro!: advancesI)
  have "\<exists>s'. move_events_with_context S ws s1 = Some s' \<and> sinv D T U s' \<and>
    advances contents s1 s' \<and> same_current s1 s' \<and> world s' = world s1 \<and>
    m_eventsWithContext s' = []"
    by (rule Cons.IH) (use Cons.prems s1(2,3,5) in simp_all)
  then show ?case
    using s1 a advances_trans [OF a(1)] same_current_trans [OF a(2)] by auto
qed

lemma process_with_context_inv:
  assumes "sinv D T U s" and "U < 2 ^ 32" and "T + D < 2 ^ 63"
  shows "\<exists>s'. sim_ProcessEventsWithContext S s = Some s' \<and> sinv D T U s' \<and>
    advances contents s s' \<and> same_current s s' \<and> world s' = world s \<and>
    m_eventsWithContext s' = []"
proof (cases "m_eventsWithContextEmpty s")
  case True
  with assms(1) show ?thesis
    by (simp add: sim_ProcessEventsWithContext_def advances_refl same_current_refl sim_inv_def)
next
  case False
  let ?s = "s\<lparr>m_eventsWithContext := [], m_eventsWithContextEmpty := True\<rparr>"
  have i: "sinv D T U ?s" using assms(1) by (simp add: sim_inv_def pending_ok_def)
  have a: "advances contents s ?s" "same_current s ?s"
    by (auto simp: same_current_def intro!: advancesI)
  have "\<forall>w\<in>set (m_eventsWithContext s). unat (wc_timestamp w) \<le> D"
    "unat (m_nextUid ?s) + length (m_eventsWithContext s) \<le> U"
    using assms(1) by (simp_all add: sim_inv_def)
  from move_events_inv [OF i _ this assms(2,3)] obtain s' where
    s': "move_events_with_context S (m_eventsWithContext s) ?s = Some s'" "sinv D T U s'"
    "advances contents ?s s'" "same_current ?s s'" "world s' = world s"
    "m_eventsWithContext s' = []" by auto
  with s' False advances_trans [OF a(1)] same_current_trans [OF a(2)] show ?thesis
    by (simp add: sim_ProcessEventsWithContext_def)
qed

text \<open>The state in which the event \<open>e\<close>, just taken out of the queue, is invoked.\<close>

lemma dispatch_inv:
  assumes "sinv D T U s" and "contents (m_events s) \<noteq> {#}"
  shows "\<exists>e q. RemoveNext S (m_events s) = Some (e, q) \<and> e \<in># contents (m_events s) \<and>
    (\<forall>x\<in>#contents (m_events s). rank e \<le> rank x) \<and>
    (m_currentTs s, m_currentUid s) < rank e \<and>
    sinv D (T + D) U (dispatch e q s) \<and> advances contents s (dispatch e q s)"
proof -
  have "inv (m_events s)" using assms(1) by (simp add: sim_inv_def)
  from remove_next_member [OF this assms(2)] obtain e q where
    q: "RemoveNext S (m_events s) = Some (e, q)" "inv q"
      "contents (m_events s) = add_mset e (contents q)" "\<forall>x\<in>#contents q. rank e < rank x"
    by blast
  let ?s = "dispatch e q s"
  have e: "pending_ok (T + D) s e" using assms(1) q(3) by (simp add: sim_inv_def)
  have r: "rank e = (ev_ts e, ev_uid e)" by (simp add: key_rank_def)
  have "pending_ok (T + D + D) ?s x" if "x \<in># contents q" for x
    using that assms(1) q(3,4) by (auto simp: sim_inv_def pending_ok_def dispatch_def r)
  then have "sinv D (T + D) U ?s"
    using assms(1) q(2,3) e by (auto simp: sim_inv_def dispatch_def pending_ok_def)
  moreover have "advances contents s ?s"
  proof (rule advancesI)
    show "(m_currentTs s, m_currentUid s) \<le> (m_currentTs ?s, m_currentUid ?s)"
      using e by (auto simp: pending_ok_def dispatch_def r)
  next
    fix i assume "id_event i \<in># contents (m_events s)" "id_uid i \<noteq> UID_DESTROY"
    then show "id_event i \<in># contents (m_events ?s) \<or> sim_IsExpired i ?s"
      using q(3) by (auto simp: dispatch_def sim_IsExpired_def id_event_def)
  qed (simp add: dispatch_def)
  ultimately show ?thesis
    using q e by (auto simp: pending_ok_def less_imp_le)
qed

lemma process_one_inv:
  assumes "sinv D T U s" and "contents (m_events s) \<noteq> {#}"
    and "U + n < 2 ^ 32" and "T + D + D < 2 ^ 63"
    and "\<forall>p. client known D (body p) {} n"
    and "\<forall>i\<in>known (world s). genuine contents i s"
  shows "\<exists>e s'. sim_ProcessOneEvent S body s = Some s' \<and> e \<in># contents (m_events s) \<and>
    (\<forall>x\<in>#contents (m_events s). rank e \<le> rank x) \<and>
    (m_currentTs s, m_currentUid s) < rank e \<and>
    m_currentTs s' = ev_ts e \<and> m_currentUid s' = ev_uid e \<and>
    m_currentContext s' = m_context (key e) \<and>
    sinv D (T + D) (U + n) s' \<and> advances contents s s' \<and>
    (\<forall>i\<in>known (world s'). genuine contents i s') \<and> m_eventsWithContext s' = []"
proof -
  from dispatch_inv [OF assms(1,2)] obtain e q where
    q: "RemoveNext S (m_events s) = Some (e, q)" "e \<in># contents (m_events s)"
      "\<forall>x\<in>#contents (m_events s). rank e \<le> rank x" "(m_currentTs s, m_currentUid s) < rank e"
      "sinv D (T + D) U (dispatch e q s)" "advances contents s (dispatch e q s)" by blast
  let ?s = "dispatch e q s"
  have ts: "m_currentTs s \<le> ev_ts e"
    using q(4) by (auto simp: key_rank_def less_prod_def)
  have w: "world ?s = world s" by (simp add: dispatch_def)
  have g: "\<forall>i\<in>{} \<union> known (world ?s). genuine contents i ?s"
    using genuine_mono [OF q(6) assms(6)] w by simp
  have "ends_ok known D (T + D) (U + n) ?s (impl_Invoke S body (impl e) ?s)"
  proof (cases "m_cancel ?s (impl e)")
    case True
    have "sinv D (T + D) (U + n) ?s" using q(5) by (simp add: sim_inv_def)
    with True g show ?thesis by (simp add: impl_Invoke_def advances_refl same_current_refl)
  next
    case False
    have "client known D (body (impl e)) {} n" using assms(5) by blast
    from run_action_inv [OF this q(5) assms(3,4) g] False show ?thesis
      by (simp add: impl_Invoke_def)
  qed
  then obtain s2 where s2: "impl_Invoke S body (impl e) ?s = Some s2" "sinv D (T + D) (U + n) s2"
    "advances contents ?s s2" "same_current ?s s2" "\<forall>i\<in>known (world s2). genuine contents i s2"
    by blast
  from process_with_context_inv [OF s2(2) assms(3,4)] obtain s' where
    s': "sim_ProcessEventsWithContext S s2 = Some s'" "sinv D (T + D) (U + n) s'"
    "advances contents s2 s'" "same_current s2 s'" "world s' = world s2"
    "m_eventsWithContext s' = []" by blast
  have "sim_ProcessOneEvent S body s = Some s'"
    using q(1) ts s2(1) s'(1) by (simp add: sim_ProcessOneEvent_def dispatch_def option_simps)
  moreover have "same_current ?s s'" by (rule same_current_trans [OF s2(4) s'(4)])
  moreover have "advances contents s s'"
    by (rule advances_trans [OF q(6) advances_trans [OF s2(3) s'(3)]])
  moreover have "\<forall>i\<in>known (world s'). genuine contents i s'"
    using genuine_mono [OF s'(3) s2(5)] s'(5) by simp
  ultimately show ?thesis
    using q(2,3,4) s'(2,6) by (auto simp: same_current_def dispatch_def)
qed

subsection \<open>Runs\<close>

lemma sinv_mono: "sinv D T U s \<Longrightarrow> T \<le> T' \<Longrightarrow> U \<le> U' \<Longrightarrow> sinv D T' U' s"
  by (auto simp: sim_inv_def pending_ok_def)

lemma create_inv: "sinv D 0 4 (sim_create empty w)"
  by (simp add: sim_inv_def sim_create_def inv_empty contents_empty uid_defs)

lemma reach_inv:
  assumes "sim_reach S body known D n m f s0 s" and "sinv D T U s0"
    and "U + m * n + f < 2 ^ 32" and "T + m * D + D < 2 ^ 63"
    and "\<forall>p. client known D (body p) {} n" and "\<forall>i\<in>known (world s0). genuine contents i s0"
  shows "sinv D (T + m * D) (U + m * n + f) s \<and> advances contents s0 s \<and>
    (\<forall>i\<in>known (world s). genuine contents i s)"
  using assms
proof (induction rule: sim_reach.induct)
  case (start s)
  then show ?case by (simp add: advances_refl)
next
  case (event m f s0 s s')
  have IH: "sinv D (T + m * D) (U + m * n + f) s" "advances contents s0 s"
    "\<forall>i\<in>known (world s). genuine contents i s"
    using event by simp_all
  have "inv (m_events s)" using IH(1) by (simp add: sim_inv_def)
  then have "contents (m_events s) \<noteq> {#}" using is_empty_law event.hyps(2) by blast
  from process_one_inv [OF IH(1) this, of n known body] event IH(3)
  have "sinv D (T + m * D + D) (U + m * n + f + n) s'" "advances contents s s'"
    "\<forall>i\<in>known (world s'). genuine contents i s'"
    by auto
  with advances_trans [OF IH(2)] show ?case by (simp add: algebra_simps)
next
  case (user m f s0 s a s')
  have IH: "sinv D (T + m * D) (U + m * n + f) s" "advances contents s0 s"
    "\<forall>i\<in>known (world s). genuine contents i s"
    using user by simp_all
  then have "sinv D (T + m * D + D) (U + m * n + f) s" by (intro sinv_mono [OF IH(1)]) simp_all
  from run_action_inv [OF user.hyps(2) IH(1)] user.hyps(3) user.prems IH(3)
  have "sinv D (T + m * D) (U + m * n + f + n) s'" "advances contents s s'"
    "\<forall>i\<in>known (world s'). genuine contents i s'"
    by auto
  with advances_trans [OF IH(2)] sinv_mono [OF this(1), of "T + Suc m * D" "U + Suc m * n + f"]
  show ?case by (simp add: algebra_simps)
next
  case (foreign m f s0 s d c ev s')
  have IH: "sinv D (T + m * D) (U + m * n + f) s" "advances contents s0 s"
    "\<forall>i\<in>known (world s). genuine contents i s"
    using foreign by simp_all
  have a: "advances contents s s'" "world s' = world s"
    using foreign.hyps(4) by (auto simp: sim_ScheduleWithContext_def intro!: advancesI)
  have d: "unat (word_of_int d :: u64) \<le> D"
    using foreign.hyps(2,3) foreign.prems(3) by (simp add: unsigned_of_int take_bit_int_eq_self)
  have "sinv D (T + m * D) (U + m * n + Suc f) s'"
    using IH(1) foreign.hyps(4) d
    by (auto simp: sim_inv_def sim_ScheduleWithContext_def pending_ok_def)
  with advances_trans [OF IH(2) a(1)] genuine_mono [OF a(1) IH(3)] a(2) show ?case by simp
next
  case (begin_run m f s0 s s')
  have IH: "sinv D (T + m * D) (U + m * n + f) s" "advances contents s0 s"
    "\<forall>i\<in>known (world s). genuine contents i s"
    using begin_run by simp_all
  from process_with_context_inv [OF IH(1)] begin_run.prems begin_run.hyps(2)
  have s': "sinv D (T + m * D) (U + m * n + f) s'" "advances contents s s'" "world s' = world s"
    by auto
  let ?s = "s'\<lparr>m_stop := False\<rparr>"
  have "sinv D (T + m * D) (U + m * n + f) ?s"
    using s'(1) by (simp add: sim_inv_def pending_ok_def)
  moreover have "advances contents s' ?s" by (intro advancesI) simp_all
  then have a: "advances contents s ?s" by (rule advances_trans [OF s'(2)])
  ultimately show ?case
    using advances_trans [OF IH(2) a] genuine_mono [OF a IH(3)] s'(3) by simp
qed

lemma next_event_of_reachable:
  assumes "sim_reach S body known D n m f (sim_create empty w) s"
    and "4 + Suc m * n + f < 2 ^ 32" and "Suc (Suc m) * D < 2 ^ 63"
    and "\<forall>p. client known D (body p) {} n" and "known w = {}" and "\<not> IsEmpty S (m_events s)"
  shows "\<exists>e s'. sim_ProcessOneEvent S body s = Some s' \<and> e \<in># contents (m_events s) \<and>
    (\<forall>x\<in>#contents (m_events s). rank e \<le> rank x) \<and>
    (m_currentTs s, m_currentUid s) < rank e \<and>
    m_currentTs s' = ev_ts e \<and> m_currentUid s' = ev_uid e \<and>
    m_currentContext s' = m_context (key e) \<and>
    m_unscheduledEvents s' = int (size (contents (m_events s')))"
proof -
  have "sinv D (0 + m * D) (4 + m * n + f) s \<and> advances contents (sim_create empty w) s \<and>
    (\<forall>i\<in>known (world s). genuine contents i s)"
    by (rule reach_inv [OF assms(1) create_inv]) (use assms in \<open>simp_all add: sim_create_def\<close>)
  then have i: "sinv D (m * D) (4 + m * n + f) s" "\<forall>i\<in>known (world s). genuine contents i s"
    by simp_all
  have "contents (m_events s) \<noteq> {#}"
    using i(1) assms(6) is_empty_law by (auto simp: sim_inv_def)
  from process_one_inv [OF i(1) this _ _ assms(4) i(2)] assms(2,3) show ?thesis
    by (auto simp: sim_inv_def)
qed

lemma loop_returns:
  assumes "sinv 0 T U s" and "U < 2 ^ 32" and "T < 2 ^ 63"
    and "\<forall>p. client known 0 (body p) {} 0" and "\<forall>i\<in>known (world s). genuine contents i s"
  shows "\<exists>s'. sim_loop S body s = Some s' \<and> sinv 0 T U s' \<and>
    (contents (m_events s') = {#} \<or> m_stop s')"
  using assms(1,5)
proof (induction "card {r. (m_currentTs s, m_currentUid s) < r}" arbitrary: s rule: less_induct)
  case less
  have i: "inv (m_events s)" using less.prems(1) by (simp add: sim_inv_def)
  show ?case
  proof (cases "contents (m_events s) \<noteq> {#} \<and> \<not> m_stop s")
    case False
    with i less.prems show ?thesis
      by (subst sim_loop.simps) (auto simp: is_empty_law sim_inv_def)
  next
    case True
    from process_one_inv [OF less.prems(1), of 0 known body] True assms(2,3,4) less.prems(2)
    obtain e s1 where s1: "sim_ProcessOneEvent S body s = Some s1"
      "(m_currentTs s, m_currentUid s) < rank e" "m_currentTs s1 = ev_ts e"
      "m_currentUid s1 = ev_uid e" "sinv 0 T U s1" "\<forall>i\<in>known (world s1). genuine contents i s1"
      by auto
    have lt: "(m_currentTs s, m_currentUid s) < (m_currentTs s1, m_currentUid s1)"
      using s1(2-4) by (simp add: key_rank_def)
    have "{r. (m_currentTs s1, m_currentUid s1) < r} \<subset> {r. (m_currentTs s, m_currentUid s) < r}"
      using lt by (auto intro: less_trans)
    then have "card {r. (m_currentTs s1, m_currentUid s1) < r} <
      card {r. (m_currentTs s, m_currentUid s) < r}"
      by (intro psubset_card_mono) simp_all
    from less.hyps [OF this s1(5,6)] True i s1(1) show ?thesis
      by (subst sim_loop.simps) (simp add: is_empty_law)
  qed
qed

lemma remove_effect:
  assumes "sinv D T U s" and "genuine contents i s" and "id_uid i \<noteq> UID_DESTROY"
    and "sim_Remove S i s = Some s'"
  shows "sim_IsExpired i s' \<and> contents (m_events s') \<subseteq># contents (m_events s)"
proof (cases "sim_IsExpired i s")
  case True
  with assms(3,4) show ?thesis by (simp add: sim_Remove_def)
next
  case False
  with assms(2,3) have m: "id_event i \<in># contents (m_events s)" by (simp add: genuine_def)
  have "inv (m_events s)" using assms(1) by (simp add: sim_inv_def)
  from remove_law [OF this m] False assms(3,4) show ?thesis
    by (auto simp: sim_Remove_def impl_Cancel_def sim_IsExpired_def)
qed

lemma expired_iff:
  assumes "sinv D T U s" and "genuine contents i s" and "id_uid i \<noteq> UID_DESTROY"
  shows "sim_IsExpired i s \<longleftrightarrow>
    id_event i \<notin># contents (m_events s) \<or> id_impl i = 0 \<or> m_cancel s (id_impl i)"
proof
  assume x: "sim_IsExpired i s"
  show "id_event i \<notin># contents (m_events s) \<or> id_impl i = 0 \<or> m_cancel s (id_impl i)"
  proof (rule ccontr)
    assume n: "\<not> ?thesis"
    then have "pending_ok (T + D) s (id_event i)" using assms(1) by (simp add: sim_inv_def)
    then have "(m_currentTs s, m_currentUid s) < (id_ts i, id_uid i)"
      by (simp add: pending_ok_def key_rank_def id_event_def)
    with x n assms(3) show False by (auto simp: sim_IsExpired_def less_prod_def)
  qed
next
  assume "id_event i \<notin># contents (m_events s) \<or> id_impl i = 0 \<or> m_cancel s (id_impl i)"
  with assms(2,3) show "sim_IsExpired i s" by (auto simp: genuine_def sim_IsExpired_def)
qed

end

section \<open>Changing the scheduler\<close>

locale scheduler_change = old: event_queue S e1 I1 C1 A1 + fresh: event_queue T e2 I2 C2 A2
  for S :: "'s scheduler" and e1 and I1 and C1 and A1
    and T :: "'t scheduler" and e2 and I2 and C2 and A2
begin

lemma move_all_keeps:
  assumes "I1 q" and "I2 t" and "unique_uids (C1 q + C2 t)" and "\<forall>e\<in>#C1 q. A2 t e"
  shows "\<exists>t'. move_all S T q t = Some t' \<and> I2 t' \<and> C2 t' = C1 q + C2 t"
  using assms
proof (induction "size (C1 q)" arbitrary: q t)
  case 0
  then show ?case by (subst move_all.simps) (simp add: old.is_empty_law)
next
  case (Suc n)
  then have ne: "C1 q \<noteq> {#}" by auto
  from old.remove_next_member [OF Suc.prems(1) ne] obtain e q' where
    q': "RemoveNext S q = Some (e, q')" "I1 q'" "C1 q = add_mset e (C1 q')" by blast
  have "ev_uid e \<notin># uids (C2 t)"
    using Suc.prems(3) q'(3) by (simp add: unique_uids_add uids_def)
  from fresh.insert_law [OF Suc.prems(2) _ this] Suc.prems(4) q'(3) obtain t1 where
    t1: "Insert T t e = Some t1" "I2 t1" "C2 t1 = add_mset e (C2 t)" "A2 t1 = A2 t" by auto
  have "\<exists>t'. move_all S T q' t1 = Some t' \<and> I2 t' \<and> C2 t' = C1 q' + C2 t1"
    by (rule Suc.hyps(1)) (use Suc q'(2,3) t1 in auto)
  then show ?case
    using q' t1 ne Suc.prems(1) by (subst move_all.simps) (auto simp: old.is_empty_law)
qed

lemma set_scheduler_keeps:
  assumes "sim_inv I1 C1 D T0 U s" and "\<forall>e\<in>#C1 (m_events s). A2 e2 e"
  shows "\<exists>s'. sim_SetScheduler S T e2 s = Some s' \<and> sim_inv I2 C2 D T0 U s' \<and>
    C2 (m_events s') = C1 (m_events s) \<and> world s' = world s \<and> m_currentTs s' = m_currentTs s"
proof -
  have i: "I1 (m_events s)" using assms(1) by (simp add: sim_inv_def)
  have "unique_uids (C1 (m_events s) + C2 e2)"
    using old.inv_unique [OF i] by (simp add: fresh.contents_empty)
  from move_all_keeps [OF i fresh.inv_empty this assms(2)] obtain t where
    t: "move_all S T (m_events s) e2 = Some t" "I2 t" "C2 t = C1 (m_events s)"
    by (auto simp: fresh.contents_empty)
  with assms(1) show ?thesis
    by (auto simp: sim_SetScheduler_def sim_inv_def pending_ok_def)
qed

end

section \<open>The comparison-based schedulers\<close>

interpretation map_sim: simulation_queue map_vtable ms_create ms_inv ms_contents "\<lambda>_ _. True"
  by unfold_locales simp

interpretation list_sim: simulation_queue list_vtable ls_create ls_inv ls_contents "\<lambda>_ _. True"
  by unfold_locales simp

interpretation pq_sim: simulation_queue pq_vtable pq_create pq_inv pq_contents "\<lambda>_ _. True"
  by unfold_locales simp

interpretation list_to_map: scheduler_change list_vtable ls_create ls_inv ls_contents "\<lambda>_ _. True"
  map_vtable ms_create ms_inv ms_contents "\<lambda>_ _. True"
  by unfold_locales

section \<open>Correctness of the simulator with its default scheduler\<close>

text \<open>A small user program, to instantiate the hypotheses below.\<close>

definition demo_body :: "impl_ptr \<Rightarrow> nat action" where
  "demo_body p =
     (if p = 1 then CallSchedule 5 2 (\<lambda>i. CallScheduleNow 3 (\<lambda>j. CallRemove i Finish))
      else Update Suc Finish)"

definition no_ids :: "nat \<Rightarrow> event_id set" where
  "no_ids w = {}"

lemma demo_client: "\<forall>p. client no_ids 10 (demo_body p) {} 2"
  by (simp add: demo_body_def no_ids_def)

definition demo_id :: event_id where
  "demo_id = \<lparr>id_impl = 1, id_ts = 3, id_context = 0xffffffff, id_uid = 4\<rparr>"

definition demo_program :: "nat action" where
  "demo_program = CallSchedule 3 1 (\<lambda>i. CallSchedule 7 2 (\<lambda>j. CallCancel j Finish))"

definition demo_state :: "(map_scheduler, nat) simulator" where
  "demo_state = \<lparr>m_events = \<lparr>ms_list = [(\<lparr>m_ts = 3, m_uid = 4, m_context = 0xffffffff\<rparr>, 1),
       (\<lparr>m_ts = 7, m_uid = 5, m_context = 0xffffffff\<rparr>, 2)]\<rparr>,
     m_eventsWithContext = [], m_eventsWithContextEmpty = True, m_destroyEvents = [],
     m_stop = False, m_nextUid = 6, m_currentUid = 0, m_currentTs = 0,
     m_currentContext = 0xffffffff, m_eventCount = 0, m_unscheduledEvents = 2,
     m_cancel = (\<lambda>_. False)(2 := True), world = 0\<rparr>"

lemmas demo_eval = sim_Schedule_def sim_enqueue_def Let_def time_add_def sim_create_def
  ms_Insert_def ms_create_def uid_defs option_simps sim_Cancel_def sim_IsExpired_def
  impl_Cancel_def

lemma demo_run: "run_action map_vtable demo_program (sim_create ms_create 0) = Some demo_state"
  by (simp add: demo_program_def demo_state_def demo_eval key_lt_def)

lemma demo_reach: "sim_reach map_vtable demo_body no_ids 10 2 1 0 (sim_create ms_create 0) demo_state"
  using sim_reach.user [OF sim_reach.start _ demo_run, of no_ids 10 2 demo_body]
  by (simp add: demo_program_def)

lemma demo_pending: "ms_contents (m_events demo_state) =
  {#\<lparr>impl = 1, key = \<lparr>m_ts = 3, m_uid = 4, m_context = 0xffffffff\<rparr>\<rparr>,
    \<lparr>impl = 2, key = \<lparr>m_ts = 7, m_uid = 5, m_context = 0xffffffff\<rparr>\<rparr>#}"
  by (simp add: demo_state_def ms_contents_def ms_events_def entry_event_def)

lemma demo_not_empty: "\<not> IsEmpty map_vtable (m_events demo_state)"
  by (simp add: demo_state_def ms_IsEmpty_def)

lemma demo_inv: "sim_inv ms_inv ms_contents 10 0 6 demo_state"
  by (simp add: sim_inv_def ms_inv_def pending_ok_def demo_pending)
    (simp add: demo_state_def ms_events_def entry_event_def key_rank_def uid_defs)

lemma demo_id_pending: "id_event demo_id \<in># ms_contents (m_events demo_state)"
  by (simp add: demo_pending demo_id_def id_event_def)

lemma demo_id_facts: "genuine ms_contents demo_id demo_state" "id_uid demo_id \<noteq> UID_DESTROY"
    "id_impl demo_id = 1" "\<not> m_cancel demo_state 1"
  by (simp_all add: genuine_def demo_id_pending) (simp_all add: demo_id_def demo_state_def uid_defs)



text \<open>
  C24: When no event schedules further events, \<open>Run\<close>'s loop returns: the queue is drained or
  the simulation was stopped. The final check of \<open>m_unscheduledEvents\<close> succeeds, whatever the
  events remove or cancel on the way.
\<close>

theorem loop_returns_without_new_events:
  assumes "sim_inv ms_inv ms_contents 0 T U s" and "U < 2 ^ 32" and "T < 2 ^ 63"
    and "\<forall>p. client known 0 (body p) {} 0"
    and "\<forall>i\<in>known (world s). genuine ms_contents i s"
  shows "\<exists>s'. sim_loop map_vtable body s = Some s' \<and> sim_inv ms_inv ms_contents 0 T U s' \<and>
    (ms_contents (m_events s') = {#} \<or> m_stop s')"
  by (rule map_sim.loop_returns [OF assms])

theorem loop_returns_without_new_events_witness:
  "\<exists>s'. sim_loop map_vtable (\<lambda>p. Update Suc Finish) demo_state = Some s' \<and>
    (ms_contents (m_events s') = {#} \<or> m_stop s')"
proof -
  have "sim_inv ms_inv ms_contents 0 10 6 demo_state"
    by (simp add: sim_inv_def ms_inv_def pending_ok_def demo_pending)
      (simp add: demo_state_def ms_events_def entry_event_def key_rank_def uid_defs)
  from loop_returns_without_new_events [OF this, of no_ids "\<lambda>p. Update Suc Finish"]
  show ?thesis by (auto simp: no_ids_def)
qed

text \<open>
  C26: What a cancelled event would have done is irrelevant: whatever code the object at \<open>p\<close>
  holds, the whole run gives the same result once \<open>m_cancel\<close> is set. No operation of the
  simulator clears the flag. This holds for every scheduler.
\<close>

theorem cancelled_event_never_runs:
  assumes "m_cancel s p" and "\<forall>q. q \<noteq> p \<longrightarrow> body q = body' q"
  shows "sim_loop S body s = sim_loop S body' s"
  by (rule loop_cancelled [OF assms(1)]) (use assms(2) in blast)

theorem cancelled_event_never_runs_witness:
  "sim_loop map_vtable demo_body demo_state = sim_loop map_vtable (demo_body(2 := CallStop Finish)) demo_state"
  by (rule cancelled_event_never_runs [of _ 2]) (simp_all add: demo_state_def)



text \<open>
  \<open>IsExpired\<close> is exact: for an id the simulator returned, it is false precisely while the
  event is in the scheduler, not cancelled, with an implementation.
\<close>

lemma is_expired_exact:
  assumes "sim_inv ms_inv ms_contents D T U s" and "genuine ms_contents i s"
    and "id_uid i \<noteq> UID_DESTROY"
  shows "sim_IsExpired i s \<longleftrightarrow>
    id_event i \<notin># ms_contents (m_events s) \<or> id_impl i = 0 \<or> m_cancel s (id_impl i)"
  by (rule map_sim.expired_iff [OF assms])

text \<open>
  Every id that was genuine stays genuine in every later state of a simulation, and one
  that expired stays expired: timers may be kept and removed at any later time.
\<close>

lemma genuine_ids_stay_genuine:
  assumes "sim_reach map_vtable body known D n m f s0 s"
    and "sim_inv ms_inv ms_contents D T U s0"
    and "U + m * n + f < 2 ^ 32" and "T + m * D + D < 2 ^ 63"
    and "\<forall>p. client known D (body p) {} n"
    and "\<forall>i\<in>known (world s0). genuine ms_contents i s0"
    and "genuine ms_contents j s0"
  shows "genuine ms_contents j s \<and>
    (id_uid j \<noteq> UID_DESTROY \<and> sim_IsExpired j s0 \<longrightarrow> sim_IsExpired j s)"
  using map_sim.reach_inv [OF assms(1-6)] assms(7) by (auto simp: advances_def)

end
