(* ===== verification/Heap_Scheduler.thy ===== *)
theory Heap_Scheduler
  imports Event_Queue
begin

text \<open>
  \<open>ns3::HeapScheduler\<close> (src/src/core/model/heap-scheduler.cc): a binary heap in a vector
  whose slot \<open>0\<close> is wasted. The two sift loops are partial functions into an option, so
  that a failed assertion or a loop that does not return would be \<open>None\<close>; the lemmas
  show that this does not happen. The theory proves the contract without \<open>Remove\<close>, and
  then says exactly when \<open>Remove\<close>, which sifts the moved event only downwards, leaves a
  heap.
\<close>

record heap_scheduler =
  hs_heap :: "event list"

definition hs_Parent :: "nat \<Rightarrow> nat" where
  "hs_Parent i = i div 2"

definition hs_Sibling :: "nat \<Rightarrow> nat" where
  "hs_Sibling i = i + 1"

definition hs_LeftChild :: "nat \<Rightarrow> nat" where
  "hs_LeftChild i = i * 2"

definition hs_RightChild :: "nat \<Rightarrow> nat" where
  "hs_RightChild i = i * 2 + 1"

definition hs_Root :: nat where
  "hs_Root = 1"

definition hs_IsRoot :: "nat \<Rightarrow> bool" where
  "hs_IsRoot i \<longleftrightarrow> i = hs_Root"

definition hs_Last :: "event list \<Rightarrow> nat" where
  "hs_Last h = length h - 1"

definition hs_IsBottom :: "event list \<Rightarrow> nat \<Rightarrow> bool" where
  "hs_IsBottom h i \<longleftrightarrow> i \<ge> length h"

definition hs_Exch :: "event list \<Rightarrow> nat \<Rightarrow> nat \<Rightarrow> event list option" where
  "hs_Exch h a b = do {
     ns_assert (b < length h \<and> a < length h);
     Some (h[a := h ! b, b := h ! a]) }"

definition hs_IsLessStrictly :: "event list \<Rightarrow> nat \<Rightarrow> nat \<Rightarrow> bool" where
  "hs_IsLessStrictly h a b \<longleftrightarrow> event_lt (h ! a) (h ! b)"

definition hs_Smallest :: "event list \<Rightarrow> nat \<Rightarrow> nat \<Rightarrow> nat" where
  "hs_Smallest h a b = (if hs_IsLessStrictly h a b then a else b)"

text \<open>The \<open>while\<close> loop of \<open>BottomUp\<close>, from position \<open>index\<close>.\<close>

partial_function (option) hs_up_loop :: "event list \<Rightarrow> nat \<Rightarrow> event list option" where
  "hs_up_loop h index =
     (if \<not> hs_IsRoot index \<and> hs_IsLessStrictly h index (hs_Parent index)
      then do { h' \<leftarrow> hs_Exch h index (hs_Parent index); hs_up_loop h' (hs_Parent index) }
      else Some h)"

definition hs_BottomUp :: "event list \<Rightarrow> event list option" where
  "hs_BottomUp h = hs_up_loop h (hs_Last h)"

text \<open>What \<open>TopDown\<close> does after its loop: the node may have a left child only.\<close>

definition hs_down_tail :: "event list \<Rightarrow> nat \<Rightarrow> event list option" where
  "hs_down_tail h index =
     (if hs_IsBottom h index then Some h
      else do {
        ns_assert (\<not> hs_IsBottom h index);
        let left = hs_LeftChild index in
        (if hs_IsBottom h left then Some h
         else if hs_IsLessStrictly h index left then Some h
         else hs_Exch h index left) })"

partial_function (option) hs_TopDown :: "event list \<Rightarrow> nat \<Rightarrow> event list option" where
  "hs_TopDown h index =
     (let right = hs_RightChild index in
      if \<not> hs_IsBottom h right
      then (let left = hs_LeftChild index; tmp = hs_Smallest h left right in
            if hs_IsLessStrictly h index tmp then Some h
            else do { h' \<leftarrow> hs_Exch h index tmp; hs_TopDown h' tmp })
      else hs_down_tail h index)"

definition null_event :: event where
  "null_event = \<lparr>impl = 0, key = \<lparr>m_ts = 0, m_uid = 0, m_context = 0\<rparr>\<rparr>"

definition hs_create :: heap_scheduler where
  "hs_create = \<lparr>hs_heap = [null_event]\<rparr>"

definition hs_Insert :: "heap_scheduler \<Rightarrow> event \<Rightarrow> heap_scheduler option" where
  "hs_Insert s ev = do { h \<leftarrow> hs_BottomUp (hs_heap s @ [ev]); Some (s\<lparr>hs_heap := h\<rparr>) }"

definition hs_IsEmpty :: "heap_scheduler \<Rightarrow> bool" where
  "hs_IsEmpty s \<longleftrightarrow> length (hs_heap s) = 1"

text \<open>Reading slot \<open>1\<close> of an empty heap is out of range.\<close>

definition hs_PeekNext :: "heap_scheduler \<Rightarrow> event option" where
  "hs_PeekNext s =
     (if hs_Root < length (hs_heap s) then Some (hs_heap s ! hs_Root) else None)"

definition hs_RemoveNext :: "heap_scheduler \<Rightarrow> (event \<times> heap_scheduler) option" where
  "hs_RemoveNext s = do {
     nxt \<leftarrow> hs_PeekNext s;
     h \<leftarrow> hs_Exch (hs_heap s) hs_Root (hs_Last (hs_heap s));
     h' \<leftarrow> hs_TopDown (butlast h) hs_Root;
     Some (nxt, s\<lparr>hs_heap := h'\<rparr>) }"

text \<open>The search loop of \<open>Remove\<close>, from position \<open>i\<close>.\<close>

function hs_find :: "event list \<Rightarrow> u32 \<Rightarrow> nat \<Rightarrow> nat option" where
  "hs_find h u i =
     (if i < length h then (if u = ev_uid (h ! i) then Some i else hs_find h u (i + 1)) else None)"
  by pat_completeness auto
termination
  by (relation "measure (\<lambda>(h, u, i). length h - i)") auto

declare hs_find.simps [simp del]

definition hs_Remove :: "heap_scheduler \<Rightarrow> event \<Rightarrow> heap_scheduler option" where
  "hs_Remove s ev = do {
     i \<leftarrow> hs_find (hs_heap s) (ev_uid ev) 1;
     ns_assert (impl (hs_heap s ! i) = impl ev);
     h \<leftarrow> hs_Exch (hs_heap s) i (hs_Last (hs_heap s));
     h' \<leftarrow> hs_TopDown (butlast h) i;
     Some (s\<lparr>hs_heap := h'\<rparr>) }"

definition heap_vtable :: "heap_scheduler scheduler" where
  "heap_vtable = \<lparr>Insert = hs_Insert, IsEmpty = hs_IsEmpty, PeekNext = hs_PeekNext,
     RemoveNext = hs_RemoveNext, Remove = hs_Remove\<rparr>"

lemma heap_vtable_simps [simp]:
  "Insert heap_vtable = hs_Insert" "IsEmpty heap_vtable = hs_IsEmpty"
  "PeekNext heap_vtable = hs_PeekNext" "RemoveNext heap_vtable = hs_RemoveNext"
  "Remove heap_vtable = hs_Remove"
  by (simp_all add: heap_vtable_def)

named_theorems heap_defs \<open>index arithmetic and comparisons of the heap\<close>

lemmas [heap_defs] = hs_Parent_def hs_LeftChild_def hs_RightChild_def hs_Root_def hs_IsRoot_def
  hs_Last_def hs_IsBottom_def hs_IsLessStrictly_def hs_Smallest_def event_lt_rank

section \<open>The heap order\<close>

definition heap_ordered :: "event list \<Rightarrow> bool" where
  "heap_ordered h \<longleftrightarrow> (\<forall>j. 2 \<le> j \<and> j < length h \<longrightarrow> rank (h ! (j div 2)) \<le> rank (h ! j))"

text \<open>Ordered but for position \<open>i\<close> against its parent, resp. against its children.\<close>

definition ordered_but_up :: "event list \<Rightarrow> nat \<Rightarrow> bool" where
  "ordered_but_up h i \<longleftrightarrow>
     (\<forall>j. 2 \<le> j \<and> j < length h \<and> j \<noteq> i \<longrightarrow> rank (h ! (j div 2)) \<le> rank (h ! j)) \<and>
     (\<forall>j. 2 \<le> i \<and> j < length h \<and> j div 2 = i \<longrightarrow> rank (h ! (i div 2)) \<le> rank (h ! j))"

definition ordered_but_down :: "event list \<Rightarrow> nat \<Rightarrow> bool" where
  "ordered_but_down h i \<longleftrightarrow>
     (\<forall>j. 2 \<le> j \<and> j < length h \<and> j div 2 \<noteq> i \<longrightarrow> rank (h ! (j div 2)) \<le> rank (h ! j)) \<and>
     (\<forall>j. 2 \<le> i \<and> j < length h \<and> j div 2 = i \<longrightarrow> rank (h ! (i div 2)) \<le> rank (h ! j))"

lemma ordered_but_upD:
  "ordered_but_up h i \<Longrightarrow> 2 \<le> j \<Longrightarrow> j < length h \<Longrightarrow> j \<noteq> i \<Longrightarrow> rank (h ! (j div 2)) \<le> rank (h ! j)"
  "ordered_but_up h i \<Longrightarrow> 2 \<le> i \<Longrightarrow> j < length h \<Longrightarrow> j div 2 = i \<Longrightarrow>
     rank (h ! (i div 2)) \<le> rank (h ! j)"
  by (simp_all add: ordered_but_up_def)

lemma ordered_but_downD:
  "ordered_but_down h i \<Longrightarrow> 2 \<le> j \<Longrightarrow> j < length h \<Longrightarrow> j div 2 \<noteq> i \<Longrightarrow>
     rank (h ! (j div 2)) \<le> rank (h ! j)"
  "ordered_but_down h i \<Longrightarrow> 2 \<le> i \<Longrightarrow> j < length h \<Longrightarrow> j div 2 = i \<Longrightarrow>
     rank (h ! (i div 2)) \<le> rank (h ! j)"
  by (simp_all add: ordered_but_down_def)

abbreviation swap :: "'a list \<Rightarrow> nat \<Rightarrow> nat \<Rightarrow> 'a list" where
  "swap h a b \<equiv> h[a := h ! b, b := h ! a]"

lemma Exch_in_range: "a < length h \<Longrightarrow> b < length h \<Longrightarrow> hs_Exch h a b = Some (swap h a b)"
  by (simp add: hs_Exch_def)

lemma nth_swap:
  "a < length h \<Longrightarrow> b < length h \<Longrightarrow> j < length h \<Longrightarrow>
   swap h a b ! j = (if j = b then h ! a else if j = a then h ! b else h ! j)"
  by (auto simp: nth_list_update)

lemma mset_tl_swap:
  assumes "1 \<le> a" "a < length h" "1 \<le> b" "b < length h"
  shows "mset (tl (swap h a b)) = mset (tl h)"
proof -
  obtain x t where h: "h = x # t" using assms(2) by (cases h) auto
  obtain a' b' where "a = Suc a'" "b = Suc b'" using assms by (metis Suc_le_D One_nat_def)
  with h assms show ?thesis by (simp add: mset_swap)
qed

section \<open>Sifting up\<close>

lemma swap_up_ordered:
  assumes ok: "ordered_but_up h i" and i: "2 \<le> i" "i < length h"
    and lt: "rank (h ! i) < rank (h ! (i div 2))"
  shows "ordered_but_up (swap h i (i div 2)) (i div 2)"
proof -
  let ?p = "i div 2"
  let ?h = "swap h i ?p"
  have p: "?p < length h" "?p < i" "1 \<le> ?p" using i by auto
  note nth = nth_swap [OF i(2) p(1)]
  have "rank (?h ! (j div 2)) \<le> rank (?h ! j)" if j: "2 \<le> j" "j < length h" "j \<noteq> ?p" for j
  proof -
    have "j div 2 < length h" using j by auto
    consider "j = i" | "j \<noteq> i" "j div 2 = i" | "j \<noteq> i" "j div 2 = ?p" | "j \<noteq> i" "j div 2 \<noteq> i" "j div 2 \<noteq> ?p"
      by blast
    then show ?thesis
    proof cases
      case 1
      then show ?thesis using j lt p nth i by auto
    next
      case 2
      then show ?thesis using j ordered_but_upD(2) [OF ok i(1) j(2)] nth p i by auto
    next
      case 3
      then have "rank (h ! ?p) \<le> rank (h ! j)" using ordered_but_upD(1) [OF ok j(1,2)] by simp
      then show ?thesis using 3 j lt nth p i by auto
    next
      case 4
      then show ?thesis using ordered_but_upD(1) [OF ok j(1,2)] j nth \<open>j div 2 < length h\<close> by simp
    qed
  qed
  moreover have "rank (?h ! (?p div 2)) \<le> rank (?h ! j)"
    if j: "2 \<le> ?p" "j < length h" "j div 2 = ?p" for j
  proof -
    have pp: "?p div 2 < ?p" "?p div 2 < length h" using j(1) p by auto
    have up: "rank (h ! (?p div 2)) \<le> rank (h ! ?p)"
      using ordered_but_upD(1) [OF ok j(1) p(1)] p by simp
    show ?thesis
    proof (cases "j = i")
      case True
      with up nth j pp p i show ?thesis by auto
    next
      case False
      have "2 \<le> j" using j by auto
      with False ordered_but_upD(1) [OF ok _ j(2)] j(3) have "rank (h ! ?p) \<le> rank (h ! j)" by auto
      with up have "rank (h ! (?p div 2)) \<le> rank (h ! j)" by (rule order_trans)
      with False nth j pp p i show ?thesis by auto
    qed
  qed
  ultimately show ?thesis unfolding ordered_but_up_def length_list_update by blast
qed

lemma up_loop_correct:
  assumes "ordered_but_up h i" and "1 \<le> i" and "i < length h"
  shows "\<exists>h'. hs_up_loop h i = Some h' \<and> heap_ordered h' \<and> length h' = length h \<and>
    mset (tl h') = mset (tl h)"
  using assms
proof (induction i arbitrary: h rule: less_induct)
  case (less i)
  show ?case
  proof (cases "2 \<le> i \<and> rank (h ! i) < rank (h ! (i div 2))")
    case True
    then have i: "2 \<le> i" "rank (h ! i) < rank (h ! (i div 2))" by auto
    let ?h = "swap h i (i div 2)"
    have "\<exists>h'. hs_up_loop ?h (i div 2) = Some h' \<and> heap_ordered h' \<and> length h' = length ?h \<and>
      mset (tl h') = mset (tl ?h)"
      by (rule less.IH) (use less.prems swap_up_ordered [OF _ i(1) _ i(2)] i in auto)
    moreover have "mset (tl ?h) = mset (tl h)"
      by (rule mset_tl_swap) (use less.prems i in auto)
    moreover have "hs_up_loop h i = hs_up_loop ?h (i div 2)"
      using i less.prems by (subst hs_up_loop.simps) (simp add: heap_defs Exch_in_range)
    ultimately show ?thesis by auto
  next
    case False
    then have "hs_up_loop h i = Some h"
      using less.prems by (subst hs_up_loop.simps) (auto simp: heap_defs)
    moreover have "heap_ordered h"
      using False less.prems by (auto simp: heap_ordered_def ordered_but_up_def not_less)
    ultimately show ?thesis by simp
  qed
qed

section \<open>Sifting down\<close>

lemma swap_down_ordered:
  assumes ok: "ordered_but_down h i" and i: "1 \<le> i"
    and c: "c < length h" "c div 2 = i"
    and le: "rank (h ! c) \<le> rank (h ! i)"
    and least: "\<And>j. j < length h \<Longrightarrow> j div 2 = i \<Longrightarrow> rank (h ! c) \<le> rank (h ! j)"
  shows "ordered_but_down (swap h i c) c"
proof -
  let ?h = "swap h i c"
  have il: "i < length h" "2 \<le> c" "i < c" using i c by auto
  note nth = nth_swap [OF il(1) c(1)]
  have "rank (?h ! (j div 2)) \<le> rank (?h ! j)" if j: "2 \<le> j" "j < length h" "j div 2 \<noteq> c" for j
  proof -
    have j2: "j div 2 < length h" using j by auto
    consider "j = c" | "j = i" | "j \<noteq> c" "j \<noteq> i" "j div 2 = i" | "j \<noteq> c" "j \<noteq> i" "j div 2 \<noteq> i"
      by blast
    then show ?thesis
    proof cases
      case 1
      then show ?thesis using c le nth il by auto
    next
      case 2
      then have "rank (h ! (i div 2)) \<le> rank (h ! c)"
        using ordered_but_downD(2) [OF ok _ c] j by simp
      moreover have "i div 2 \<noteq> i" using i by auto
      ultimately show ?thesis using 2 j j2 c nth il by auto
    next
      case 3
      then show ?thesis using least [OF j(2)] j nth il by auto
    next
      case 4
      then show ?thesis using ordered_but_downD(1) [OF ok j(1,2)] j j2 nth by simp
    qed
  qed
  moreover have "rank (?h ! (c div 2)) \<le> rank (?h ! j)" if j: "j < length h" "j div 2 = c" for j
  proof -
    have "2 \<le> j" "j \<noteq> c" "j \<noteq> i" using j il by auto
    moreover have "rank (h ! c) \<le> rank (h ! j)"
      using ordered_but_downD(1) [OF ok \<open>2 \<le> j\<close> j(1)] j(2) il(3) by simp
    ultimately show ?thesis using nth j c il by auto
  qed
  ultimately show ?thesis unfolding ordered_but_down_def length_list_update by blast
qed

lemma ordered_but_down_done:
  assumes "ordered_but_down h i" and "1 \<le> i"
    and "\<And>j. j < length h \<Longrightarrow> j div 2 = i \<Longrightarrow> rank (h ! i) \<le> rank (h ! j)"
  shows "heap_ordered h"
  unfolding heap_ordered_def
proof (intro allI impI)
  fix j assume "2 \<le> j \<and> j < length h"
  then show "rank (h ! (j div 2)) \<le> rank (h ! j)"
    using assms(3) [of j] ordered_but_downD(1) [OF assms(1), of j] by (cases "j div 2 = i") auto
qed

lemma child_cases: "1 \<le> i \<Longrightarrow> j div 2 = i \<longleftrightarrow> j = i * 2 \<or> j = i * 2 + (1::nat)"
  by presburger

lemma down_tail_correct:
  assumes ok: "ordered_but_down h i" and i: "1 \<le> i" and bottom: "length h \<le> i * 2 + 1"
  shows "\<exists>h'. hs_down_tail h i = Some h' \<and> heap_ordered h' \<and> length h' = length h \<and>
    mset (tl h') = mset (tl h)"
proof (cases "i * 2 < length h \<and> rank (h ! (i * 2)) \<le> rank (h ! i)")
  case True
  let ?h = "swap h i (i * 2)"
  have "ordered_but_down ?h (i * 2)"
    by (rule swap_down_ordered [OF ok i]) (use True bottom i in \<open>auto simp: child_cases\<close>)
  then have "heap_ordered ?h"
    by (rule ordered_but_down_done) (use i bottom in auto)
  moreover have "hs_down_tail h i = Some ?h"
    using True i by (auto simp: hs_down_tail_def Let_def heap_defs Exch_in_range)
  moreover have "mset (tl ?h) = mset (tl h)"
    by (rule mset_tl_swap) (use True i in auto)
  ultimately show ?thesis by simp
next
  case False
  have "heap_ordered h"
    by (rule ordered_but_down_done [OF ok i]) (use False bottom i in \<open>auto simp: child_cases\<close>)
  moreover have "hs_down_tail h i = Some h"
    using False by (auto simp: hs_down_tail_def Let_def heap_defs not_le)
  ultimately show ?thesis by simp
qed

lemma Smallest_child:
  assumes "1 \<le> i" and "i * 2 + 1 < length h" and "c = hs_Smallest h (i * 2) (i * 2 + 1)"
  shows "c < length h \<and> c div 2 = i \<and> i < c \<and>
    (\<forall>j. j < length h \<longrightarrow> j div 2 = i \<longrightarrow> rank (h ! c) \<le> rank (h ! j))"
  using assms by (auto simp: hs_Smallest_def heap_defs child_cases)

lemma top_down_correct:
  assumes "ordered_but_down h i" and "1 \<le> i"
  shows "\<exists>h'. hs_TopDown h i = Some h' \<and> heap_ordered h' \<and> length h' = length h \<and>
    mset (tl h') = mset (tl h)"
  using assms
proof (induction "length h - i" arbitrary: h i rule: less_induct)
  case (less h i)
  let ?c = "hs_Smallest h (i * 2) (i * 2 + 1)"
  show ?case
  proof (cases "i * 2 + 1 < length h")
    case False
    then have "hs_TopDown h i = hs_down_tail h i"
      by (subst hs_TopDown.simps) (simp add: heap_defs)
    with False down_tail_correct [OF less.prems] show ?thesis by simp
  next
    case right: True
    have c: "?c < length h" "?c div 2 = i" "i < ?c"
      and least: "\<And>j. j < length h \<Longrightarrow> j div 2 = i \<Longrightarrow> rank (h ! ?c) \<le> rank (h ! j)"
      using Smallest_child [OF less.prems(2) right refl] by blast+
    show ?thesis
    proof (cases "rank (h ! i) < rank (h ! ?c)")
      case True
      then have "hs_TopDown h i = Some h"
        using right by (subst hs_TopDown.simps) (simp add: Let_def heap_defs)
      moreover have "heap_ordered h"
        by (rule ordered_but_down_done [OF less.prems]) (use True least in force)
      ultimately show ?thesis by simp
    next
      case False
      let ?h = "swap h i ?c"
      have "hs_TopDown h i = hs_TopDown ?h ?c"
        using False right c
        by (subst hs_TopDown.simps)
          (simp add: Let_def hs_RightChild_def hs_LeftChild_def hs_IsBottom_def
            hs_IsLessStrictly_def event_lt_rank Exch_in_range)
      moreover have "\<exists>h'. hs_TopDown ?h ?c = Some h' \<and> heap_ordered h' \<and>
          length h' = length ?h \<and> mset (tl h') = mset (tl ?h)"
        by (rule less.hyps)
          (use less.prems False c least swap_down_ordered [OF less.prems c(1,2) _ least] in auto)
      moreover have "mset (tl ?h) = mset (tl h)"
        by (rule mset_tl_swap) (use c less.prems in auto)
      ultimately show ?thesis by simp
    qed
  qed
qed


section \<open>The contract\<close>

definition hs_inv :: "heap_scheduler \<Rightarrow> bool" where
  "hs_inv s \<longleftrightarrow> hs_heap s \<noteq> [] \<and> heap_ordered (hs_heap s) \<and>
     distinct (map ev_uid (tl (hs_heap s)))"

definition hs_contents :: "heap_scheduler \<Rightarrow> event multiset" where
  "hs_contents s = mset (tl (hs_heap s))"

lemma root_least:
  "heap_ordered h \<Longrightarrow> 1 \<le> j \<Longrightarrow> j < length h \<Longrightarrow> rank (h ! 1) \<le> rank (h ! j)"
proof (induction j rule: less_induct)
  case (less j)
  show ?case
  proof (cases "j = 1")
    case False
    with less.prems have "2 \<le> j" by simp
    then have "rank (h ! 1) \<le> rank (h ! (j div 2))" using less by simp
    also have "\<dots> \<le> rank (h ! j)"
      using less.prems \<open>2 \<le> j\<close> by (simp add: heap_ordered_def)
    finally show ?thesis .
  qed simp
qed

lemma in_tl_nth: "x \<in> set (tl h) \<longleftrightarrow> (\<exists>j. 1 \<le> j \<and> j < length h \<and> h ! j = x)"
proof
  assume "x \<in> set (tl h)"
  then obtain k where "k < length (tl h)" "tl h ! k = x" by (auto simp: in_set_conv_nth)
  then show "\<exists>j. 1 \<le> j \<and> j < length h \<and> h ! j = x"
    by (intro exI [of _ "Suc k"]) (simp add: nth_tl)
next
  assume "\<exists>j. 1 \<le> j \<and> j < length h \<and> h ! j = x"
  then obtain j where "1 \<le> j" "j < length h" "h ! j = x" by blast
  then show "x \<in> set (tl h)"
    unfolding in_set_conv_nth by (intro exI [of _ "j - 1"]) (simp add: nth_tl)
qed

lemma hs_Insert_correct:
  assumes "hs_inv s" and "ev_uid e \<notin># uids (hs_contents s)"
  shows "\<exists>s'. hs_Insert s e = Some s' \<and> hs_inv s' \<and> hs_contents s' = add_mset e (hs_contents s)"
proof -
  let ?h = "hs_heap s @ [e]"
  have ne: "hs_heap s \<noteq> []" using assms(1) by (simp add: hs_inv_def)
  have "ordered_but_up ?h (length (hs_heap s))"
    using assms(1) by (auto simp: ordered_but_up_def hs_inv_def heap_ordered_def nth_append)
  then obtain h' where h': "hs_up_loop ?h (length (hs_heap s)) = Some h'" "heap_ordered h'"
    "length h' = length ?h" "mset (tl h') = mset (tl ?h)"
    using up_loop_correct [of ?h "length (hs_heap s)"] ne by (auto simp: Suc_le_eq)
  have "unique_uids (mset (tl h'))"
    using assms ne h'(4) by (simp add: unique_uids_add unique_uids_mset hs_inv_def hs_contents_def)
  then have "distinct (map ev_uid (tl h'))"
    by (simp only: unique_uids_mset)
  with h' ne show ?thesis
    by (auto simp: hs_Insert_def hs_BottomUp_def hs_Last_def hs_inv_def hs_contents_def)
qed

text \<open>
  Slot \<open>i\<close> is taken out: the last element is moved there. \<open>vacate h i\<close> is the vector
  before the sift.
\<close>

definition vacate :: "event list \<Rightarrow> nat \<Rightarrow> event list" where
  "vacate h i = butlast (swap h i (length h - 1))"

lemma length_vacate [simp]: "length (vacate h i) = length h - 1"
  by (simp add: vacate_def)

lemma vacate_nth:
  assumes "i < length h" and "j < length h - 1"
  shows "vacate h i ! j = (if j = i then h ! (length h - 1) else h ! j)"
  using assms by (auto simp: vacate_def nth_butlast nth_swap)

lemma mset_vacate:
  assumes "1 \<le> i" and "i < length h"
  shows "mset (tl h) = add_mset (h ! i) (mset (tl (vacate h i)))"
proof -
  let ?g = "swap h i (length h - 1)"
  have g: "?g \<noteq> []" "length ?g = length h" using assms by auto
  have "last ?g = ?g ! (length h - 1)" using g by (simp add: last_conv_nth del: length_list_update)
  also have "\<dots> = h ! i" using assms by simp
  finally have l: "last ?g = h ! i" .
  have "tl ?g \<noteq> []" using assms by (auto simp: tl_Nil length_Suc_conv simp flip: length_0_conv)
  then have "tl ?g = butlast (tl ?g) @ [last (tl ?g)]" by simp
  then have "tl ?g = tl (butlast ?g) @ [last ?g]"
    using \<open>tl ?g \<noteq> []\<close> by (simp add: butlast_tl last_tl)
  then have "mset (tl ?g) = add_mset (h ! i) (mset (tl (vacate h i)))"
    using l by (simp add: vacate_def)
  moreover have "mset (tl ?g) = mset (tl h)"
    by (rule mset_tl_swap) (use assms in auto)
  ultimately show ?thesis by simp
qed

text \<open>The moved element fits below the parent of the vacated slot.\<close>

definition fits :: "event list \<Rightarrow> nat \<Rightarrow> bool" where
  "fits h i \<longleftrightarrow> i = length h - 1 \<or> i = 1 \<or> rank (h ! (i div 2)) \<le> rank (h ! (length h - 1))"

lemma vacate_fits:
  assumes ok: "heap_ordered h" and i: "1 \<le> i" "i < length h" and fits: "fits h i"
  shows "ordered_but_down (vacate h i) i"
proof -
  let ?g = "vacate h i"
  note nth = vacate_nth [OF i(2)]
  have par: "rank (h ! (j div 2)) \<le> rank (h ! j)" if "2 \<le> j" "j < length h" for j
    using ok that by (simp add: heap_ordered_def)
  have "rank (?g ! (j div 2)) \<le> rank (?g ! j)" if j: "2 \<le> j" "j < length ?g" "j div 2 \<noteq> i" for j
  proof (cases "j = i")
    case True
    with fits j have "rank (h ! (i div 2)) \<le> rank (h ! (length h - 1))" by (auto simp: fits_def)
    with True j nth i show ?thesis by auto
  next
    case False
    with j nth par [of j] show ?thesis by auto
  qed
  moreover have "rank (?g ! (i div 2)) \<le> rank (?g ! j)"
    if j: "2 \<le> i" "j < length ?g" "j div 2 = i" for j
  proof -
    have "rank (h ! (i div 2)) \<le> rank (h ! i)" using par [of i] j i by simp
    also have "\<dots> \<le> rank (h ! j)" using par [of j] j by auto
    finally show ?thesis using j nth by auto
  qed
  ultimately show ?thesis unfolding ordered_but_down_def by blast
qed

text \<open>Otherwise the moved element is already below its children, and stays where it is.\<close>

lemma vacate_misfit:
  assumes ok: "heap_ordered h" and i: "1 \<le> i" "i < length h" and misfit: "\<not> fits h i"
  shows "hs_TopDown (vacate h i) i = Some (vacate h i) \<and> \<not> heap_ordered (vacate h i)"
proof -
  let ?g = "vacate h i"
  note nth = vacate_nth [OF i(2)]
  from misfit i have i2: "2 \<le> i" "i < length h - 1"
    and lt: "rank (h ! (length h - 1)) < rank (h ! (i div 2))"
    by (auto simp: fits_def)
  have par: "rank (h ! (j div 2)) \<le> rank (h ! j)" if "2 \<le> j" "j < length h" for j
    using ok that by (simp add: heap_ordered_def)
  have below: "rank (?g ! i) < rank (?g ! j)" if j: "j < length ?g" "j div 2 = i" for j
  proof -
    have "rank (h ! (i div 2)) \<le> rank (h ! i)" using par [of i] i2 by simp
    also have "\<dots> \<le> rank (h ! j)" using par [of j] j i2 by auto
    finally have "rank (h ! (length h - 1)) < rank (h ! j)" using lt by simp
    with j nth i2 show ?thesis by auto
  qed
  have "hs_TopDown ?g i = Some ?g"
  proof (cases "i * 2 + 1 < length ?g")
    case True
    then show ?thesis
      using below by (subst hs_TopDown.simps) (simp add: Let_def heap_defs del: length_vacate)
  next
    case False
    then have "hs_TopDown ?g i = hs_down_tail ?g i"
      by (subst hs_TopDown.simps) (simp add: heap_defs)
    also have "\<dots> = Some ?g"
      using below [of "i * 2"] by (auto simp: hs_down_tail_def Let_def heap_defs)
    finally show ?thesis .
  qed
  moreover have "rank (?g ! i) < rank (?g ! (i div 2))"
    using lt nth i2 by auto
  then have "\<not> heap_ordered ?g"
    using i2 by (auto simp: heap_ordered_def not_le intro!: exI [of _ i])
  ultimately show ?thesis by simp
qed

lemma vacate_step:
  assumes ok: "heap_ordered h" and i: "1 \<le> i" "i < length h"
  shows "\<exists>h'. hs_TopDown (vacate h i) i = Some h' \<and> (heap_ordered h' \<longleftrightarrow> fits h i) \<and>
    mset (tl h) = add_mset (h ! i) (mset (tl h')) \<and> length h' = length h - 1"
proof (cases "fits h i")
  case True
  then show ?thesis
    using top_down_correct [OF vacate_fits [OF ok i True] i(1)] mset_vacate [OF i] by auto
next
  case False
  then show ?thesis using vacate_misfit [OF ok i] mset_vacate [OF i] by auto
qed

lemma Exch_vacate:
  "1 \<le> i \<Longrightarrow> i < length h \<Longrightarrow>
   hs_Exch h i (hs_Last h) = Some (swap h i (length h - 1)) \<and>
   butlast (swap h i (length h - 1)) = vacate h i"
  by (auto simp: Exch_in_range hs_Last_def vacate_def)

lemma hs_RemoveNext_correct:
  assumes inv: "hs_inv s" and ne: "hs_contents s \<noteq> {#}"
  shows "\<exists>s'. hs_RemoveNext s = Some (hs_heap s ! 1, s') \<and> hs_inv s' \<and>
    hs_contents s = add_mset (hs_heap s ! 1) (hs_contents s')"
proof -
  have ok: "heap_ordered (hs_heap s)" and len: "1 < length (hs_heap s)"
    using inv ne by (auto simp: hs_inv_def hs_contents_def neq_Nil_conv tl_def split: list.splits)
  obtain h' where h': "hs_TopDown (vacate (hs_heap s) 1) 1 = Some h'" "heap_ordered h'"
    "mset (tl (hs_heap s)) = add_mset (hs_heap s ! 1) (mset (tl h'))"
    "length h' = length (hs_heap s) - 1"
    using vacate_step [OF ok order_refl len] by (auto simp: fits_def)
  have "unique_uids (mset (tl h'))"
    using inv h'(3) by (simp add: hs_inv_def unique_uids_add flip: unique_uids_mset)
  then have "distinct (map ev_uid (tl h'))"
    by (simp add: unique_uids_mset)
  with h' len Exch_vacate [of 1 "hs_heap s"] show ?thesis
    by (auto simp: hs_RemoveNext_def hs_PeekNext_def hs_Root_def hs_inv_def hs_contents_def)
qed

interpretation heap_sched: event_queue heap_vtable hs_create hs_inv hs_contents "\<lambda>_ _. True"
proof (unfold_locales, goal_cases)
  case 1 show ?case by (simp add: hs_inv_def hs_create_def heap_ordered_def)
next
  case 2 show ?case by (simp add: hs_contents_def hs_create_def)
next
  case (3 s) then show ?case by (simp add: hs_inv_def hs_contents_def unique_uids_mset)
next
  case (4 s e) then show ?case using hs_Insert_correct by auto
next
  case (5 s) then show ?case
    by (auto simp: hs_IsEmpty_def hs_contents_def hs_inv_def tl_Nil length_Suc_conv)
next
  case (6 s)
  from hs_RemoveNext_correct [OF this] obtain s' where
    "hs_RemoveNext s = Some (hs_heap s ! 1, s')" "hs_inv s'"
    "hs_contents s = add_mset (hs_heap s ! 1) (hs_contents s')" by blast
  moreover have "rank (hs_heap s ! 1) \<le> rank x" if "x \<in># hs_contents s" for x
    using that root_least 6 by (auto simp: hs_contents_def hs_inv_def in_tl_nth)
  ultimately show ?case by auto
next
  case (7 s)
  from hs_RemoveNext_correct [OF this] show ?case
    by (auto simp: hs_RemoveNext_def hs_PeekNext_def hs_Root_def bind_eq_Some_conv split: if_splits)
qed

section \<open>Remove\<close>

lemma hs_find_Some:
  "hs_find h u i = Some k \<Longrightarrow> i \<le> k \<and> k < length h \<and> ev_uid (h ! k) = u"
proof (induction h u i rule: hs_find.induct)
  case (1 h u i)
  from "1.prems" "1.IH" show ?case
    by (subst (asm) hs_find.simps) (fastforce split: if_splits)
qed

lemma hs_find_exists:
  "i \<le> k \<Longrightarrow> k < length h \<Longrightarrow> ev_uid (h ! k) = u \<Longrightarrow> hs_find h u i \<noteq> None"
proof (induction h u i rule: hs_find.induct)
  case (1 h u i)
  show ?case
  proof (cases "u = ev_uid (h ! i)")
    case True
    with "1.prems" show ?thesis by (subst hs_find.simps) auto
  next
    case False
    with "1.prems" have "i + 1 \<le> k" by (metis Suc_eq_plus1 le_neq_implies_less Suc_leI)
    with False "1.prems" "1.IH" show ?thesis by (subst hs_find.simps) auto
  qed
qed

lemma hs_find_event:
  assumes "hs_inv s" and "e \<in># hs_contents s"
  shows "\<exists>i. hs_find (hs_heap s) (ev_uid e) 1 = Some i \<and> 1 \<le> i \<and> i < length (hs_heap s) \<and>
    hs_heap s ! i = e"
proof -
  obtain k where "1 \<le> k" "k < length (hs_heap s)" "hs_heap s ! k = e"
    using assms(2) by (auto simp: hs_contents_def in_tl_nth)
  then obtain i where i: "hs_find (hs_heap s) (ev_uid e) 1 = Some i"
    using hs_find_exists by blast
  with hs_find_Some [OF i] have "1 \<le> i" "i < length (hs_heap s)"
    "ev_uid (hs_heap s ! i) = ev_uid e" by auto
  moreover have "hs_heap s ! i = e"
    using assms calculation unique_uids_eq [of "hs_contents s" "hs_heap s ! i" e]
    by (auto simp: hs_inv_def hs_contents_def unique_uids_mset in_tl_nth)
  ultimately show ?thesis using i by blast
qed

lemma hs_Remove_general:
  assumes inv: "hs_inv s" and mem: "e \<in># hs_contents s"
  shows "\<exists>i s'. 1 \<le> i \<and> i < length (hs_heap s) \<and> hs_heap s ! i = e \<and> hs_Remove s e = Some s' \<and>
    hs_contents s' = hs_contents s - {#e#} \<and> (hs_inv s' \<longleftrightarrow> fits (hs_heap s) i)"
proof -
  have ok: "heap_ordered (hs_heap s)" using inv by (simp add: hs_inv_def)
  obtain i where i: "hs_find (hs_heap s) (ev_uid e) 1 = Some i" "1 \<le> i" "i < length (hs_heap s)"
    "hs_heap s ! i = e"
    using hs_find_event [OF inv mem] by blast
  obtain h' where h': "hs_TopDown (vacate (hs_heap s) i) i = Some h'"
    "heap_ordered h' \<longleftrightarrow> fits (hs_heap s) i" "mset (tl (hs_heap s)) = add_mset e (mset (tl h'))"
    "length h' = length (hs_heap s) - 1"
    using vacate_step [OF ok i(2,3)] i(4) by blast
  have "unique_uids (mset (tl h'))"
    using inv h'(3) by (simp add: hs_inv_def unique_uids_add flip: unique_uids_mset)
  then have d: "distinct (map ev_uid (tl h'))" by (simp add: unique_uids_mset)
  have r: "hs_Remove s e = Some (s\<lparr>hs_heap := h'\<rparr>)"
    using i h' Exch_vacate [OF i(2,3)] by (simp add: hs_Remove_def)
  have "h' \<noteq> []" using h'(4) i(2,3) by auto
  with h' d have "hs_inv (s\<lparr>hs_heap := h'\<rparr>) \<longleftrightarrow> fits (hs_heap s) i"
    by (simp add: hs_inv_def)
  with r i h'(3) show ?thesis by (auto simp: hs_contents_def)
qed

end
