(* ===== verification/Calendar_Scheduler.thy ===== *)
theory Calendar_Scheduler
  imports Event_Queue
begin

text \<open>
  \<open>ns3::CalendarScheduler\<close> (src/src/core/model/calendar-scheduler.cc): Brown's calendar
  queue. An event with time stamp \<open>ts\<close> lives in bucket \<open>(ts / width) % nBuckets\<close>; the
  next event is searched bucket by bucket from the one last dequeued, and the number and the
  width of the buckets follow the number of stored events. All arithmetic is on machine words
  as in the code. The theory proves the whole scheduler contract for time stamps below
  \<open>2 ^ 46\<close> (19 hours in nanoseconds), the range in which no bucket limit wraps around,
  for both storage orders.
\<close>

record calendar_scheduler =
  cs_buckets :: "event list list"
  cs_nBuckets :: u32
  cs_width :: u64
  cs_lastBucket :: u32
  cs_bucketTop :: u64
  cs_lastPrio :: u64
  cs_qSize :: u32
  cs_reverse :: bool

text \<open>The three function pointers that \<open>SetReverse\<close> selects.\<close>

definition cs_NextEvent :: "bool \<Rightarrow> event list \<Rightarrow> event" where
  "cs_NextEvent rv bucket = (if rv then last bucket else hd bucket)"

definition cs_Order :: "bool \<Rightarrow> event_key \<Rightarrow> event_key \<Rightarrow> bool" where
  "cs_Order rv a b = (if rv then key_gt a b else key_lt a b)"

definition cs_Pop :: "bool \<Rightarrow> event list \<Rightarrow> event list" where
  "cs_Pop rv bucket = (if rv then butlast bucket else tl bucket)"

definition cs_Hash :: "calendar_scheduler \<Rightarrow> u64 \<Rightarrow> u32" where
  "cs_Hash s ts = ucast ((ts div cs_width s) mod ucast (cs_nBuckets s))"

definition cs_Init :: "calendar_scheduler \<Rightarrow> u32 \<Rightarrow> u64 \<Rightarrow> u64 \<Rightarrow> calendar_scheduler" where
  "cs_Init s nBuckets width startPrio =
     (let s1 = s\<lparr>cs_buckets := replicate (unat nBuckets) [], cs_nBuckets := nBuckets,
                 cs_width := width, cs_lastPrio := startPrio\<rparr>
      in s1\<lparr>cs_lastBucket := cs_Hash s1 startPrio,
            cs_bucketTop := (startPrio div width + 1) * width\<rparr>)"

text \<open>The constructor; the attribute \<open>Reverse\<close> is set at construction.\<close>

definition cs_create :: "bool \<Rightarrow> calendar_scheduler" where
  "cs_create rv = (cs_Init \<lparr>cs_buckets = [], cs_nBuckets = 0, cs_width = 0, cs_lastBucket = 0,
     cs_bucketTop = 0, cs_lastPrio = 0, cs_qSize = 0, cs_reverse = rv\<rparr> 2 1 0)\<lparr>cs_qSize := 0\<rparr>"

definition cs_DoInsert :: "calendar_scheduler \<Rightarrow> event \<Rightarrow> calendar_scheduler" where
  "cs_DoInsert s ev =
     (let b = unat (cs_Hash s (ev_ts ev)) in
      s\<lparr>cs_buckets := (cs_buckets s)[b :=
          insert_before (\<lambda>x y. cs_Order (cs_reverse s) (key x) (key y)) ev (cs_buckets s ! b)]\<rparr>)"

definition cs_IsEmpty :: "calendar_scheduler \<Rightarrow> bool" where
  "cs_IsEmpty s \<longleftrightarrow> cs_qSize s = 0"

text \<open>
  The \<open>do ... while\<close> loop that \<open>PeekNext\<close> and \<open>DoRemoveNext\<close> share: one turn of the
  calendar from bucket \<open>i\<close> with limit \<open>lim\<close>. It stops at the first bucket whose next event
  is below the limit (\<open>Inl\<close>), and otherwise yields the least key seen, with what \<open>f\<close>
  records of its bucket and event (\<open>Inr\<close>).
\<close>

partial_function (option) cs_scan ::
  "calendar_scheduler \<Rightarrow> (u32 \<Rightarrow> event \<Rightarrow> 'b) \<Rightarrow> u32 \<Rightarrow> u64 \<Rightarrow> event_key \<times> 'b \<Rightarrow>
   (u32 \<times> u64 \<times> event + event_key \<times> 'b) option" where
  "cs_scan s f i lim m =
     (let bucket = cs_buckets s ! unat i; nxt = cs_NextEvent (cs_reverse s) bucket in
      if bucket \<noteq> [] \<and> ev_ts nxt < lim then Some (Inl (i, lim, nxt))
      else
        (let m' = (if bucket \<noteq> [] \<and> key_lt (key nxt) (fst m) then (key nxt, f i nxt) else m);
             i' = (i + 1) mod cs_nBuckets s;
             lim' = lim + cs_width s
         in if i' \<noteq> cs_lastBucket s then cs_scan s f i' lim' m' else Some (Inr m')))"

definition cs_PeekNext :: "calendar_scheduler \<Rightarrow> event option" where
  "cs_PeekNext s = do {
     ns_assert (\<not> cs_IsEmpty s);
     let minKey = \<lparr>m_ts = - 1, m_uid = - 1, m_context = 0\<rparr>;
     r \<leftarrow> cs_scan s (\<lambda>i nxt. nxt) (cs_lastBucket s) (cs_bucketTop s)
            (minKey, \<lparr>impl = 0, key = minKey\<rparr>);
     Some (case r of Inl (i, lim, nxt) \<Rightarrow> nxt | Inr (_, minEvent) \<Rightarrow> minEvent) }"

text \<open>Bucket \<open>-1\<close> (no least key found) is out of range: \<open>None\<close>.\<close>

definition cs_DoRemoveNext :: "calendar_scheduler \<Rightarrow> (event \<times> calendar_scheduler) option" where
  "cs_DoRemoveNext s = do {
     ns_assert (\<not> cs_IsEmpty s);
     r \<leftarrow> cs_scan s (\<lambda>i nxt. int (unat i)) (cs_lastBucket s) (cs_bucketTop s)
            (\<lparr>m_ts = - 1, m_uid = 0, m_context = 0xffffffff\<rparr>, - 1);
     (case r of
        Inl (i, lim, nxt) \<Rightarrow>
          Some (nxt, s\<lparr>cs_lastBucket := i, cs_lastPrio := ev_ts nxt, cs_bucketTop := lim,
            cs_buckets := (cs_buckets s)[unat i :=
              cs_Pop (cs_reverse s) (cs_buckets s ! unat i)]\<rparr>)
      | Inr (minKey, minBucket) \<Rightarrow>
          if minBucket = - 1 then None
          else let b = cs_buckets s ! nat minBucket in
            Some (cs_NextEvent (cs_reverse s) b,
              s\<lparr>cs_lastPrio := m_ts minKey, cs_lastBucket := cs_Hash s (m_ts minKey),
                cs_bucketTop := (m_ts minKey div cs_width s + 1) * cs_width s,
                cs_buckets := (cs_buckets s)[nat minBucket := cs_Pop (cs_reverse s) b]\<rparr>)) }"

text \<open>Gathering \<open>n\<close> samples, and the two sums of separations of \<open>CalculateNewWidth\<close>.\<close>

fun cs_gather :: "nat \<Rightarrow> calendar_scheduler \<Rightarrow> (event list \<times> calendar_scheduler) option" where
  "cs_gather 0 s = Some ([], s)"
| "cs_gather (Suc n) s = do {
     (e, s') \<leftarrow> cs_DoRemoveNext s;
     (es, s'') \<leftarrow> cs_gather n s';
     Some (e # es, s'') }"

fun cs_separation :: "event list \<Rightarrow> u64 \<Rightarrow> u64" where
  "cs_separation (cur # nxt # es) acc =
     cs_separation (nxt # es) (acc + (ev_ts nxt - ev_ts cur))"
| "cs_separation _ acc = acc"

fun cs_close_separation :: "u64 \<Rightarrow> event list \<Rightarrow> u64 \<Rightarrow> u64" where
  "cs_close_separation twiceAvg (cur # nxt # es) acc =
     (let diff = ev_ts nxt - ev_ts cur in
      cs_close_separation twiceAvg (nxt # es) (if diff \<le> twiceAvg then acc + diff else acc))"
| "cs_close_separation twiceAvg _ acc = acc"

definition cs_nSamples :: "u32 \<Rightarrow> u32" where
  "cs_nSamples qSize =
     (let n = (if qSize \<le> 5 then qSize else 5 + qSize div 10) in if n > 25 then 25 else n)"

definition cs_CalculateNewWidth :: "calendar_scheduler \<Rightarrow> (u64 \<times> calendar_scheduler) option" where
  "cs_CalculateNewWidth s =
     (if cs_qSize s < 2 then Some (1, s)
      else do {
        let nSamples = cs_nSamples (cs_qSize s);
        (samples, s1) \<leftarrow> cs_gather (unat nSamples) s;
        let s2 = foldl cs_DoInsert s1 samples;
        let s3 = s2\<lparr>cs_lastBucket := cs_lastBucket s, cs_bucketTop := cs_bucketTop s,
                    cs_lastPrio := cs_lastPrio s\<rparr>;
        let totalSeparation = cs_separation samples 0;
        let twiceAvg = totalSeparation div ucast (nSamples - 1) * 2;
        let acc = cs_close_separation twiceAvg samples 0;
        Some (max (acc * 3) 1, s3) })"

definition cs_DoResize :: "calendar_scheduler \<Rightarrow> u32 \<Rightarrow> u64 \<Rightarrow> calendar_scheduler" where
  "cs_DoResize s newSize newWidth =
     foldl (\<lambda>t bucket. foldl cs_DoInsert t bucket)
       (cs_Init s newSize newWidth (cs_lastPrio s)) (cs_buckets s)"

definition cs_Resize :: "calendar_scheduler \<Rightarrow> u32 \<Rightarrow> calendar_scheduler option" where
  "cs_Resize s newSize = do {
     (newWidth, s') \<leftarrow> cs_CalculateNewWidth s;
     Some (cs_DoResize s' newSize newWidth) }"

definition cs_ResizeUp :: "calendar_scheduler \<Rightarrow> calendar_scheduler option" where
  "cs_ResizeUp s =
     (if cs_qSize s > cs_nBuckets s * 2 \<and> cs_nBuckets s < 32768
      then cs_Resize s (cs_nBuckets s * 2) else Some s)"

definition cs_ResizeDown :: "calendar_scheduler \<Rightarrow> calendar_scheduler option" where
  "cs_ResizeDown s =
     (if cs_qSize s < cs_nBuckets s div 2 then cs_Resize s (cs_nBuckets s div 2) else Some s)"

definition cs_Insert :: "calendar_scheduler \<Rightarrow> event \<Rightarrow> calendar_scheduler option" where
  "cs_Insert s ev = (let s' = cs_DoInsert s ev in cs_ResizeUp (s'\<lparr>cs_qSize := cs_qSize s' + 1\<rparr>))"

definition cs_RemoveNext :: "calendar_scheduler \<Rightarrow> (event \<times> calendar_scheduler) option" where
  "cs_RemoveNext s = do {
     ns_assert (\<not> cs_IsEmpty s);
     (ev, s1) \<leftarrow> cs_DoRemoveNext s;
     s2 \<leftarrow> cs_ResizeDown (s1\<lparr>cs_qSize := cs_qSize s1 - 1\<rparr>);
     Some (ev, s2) }"

definition cs_Remove :: "calendar_scheduler \<Rightarrow> event \<Rightarrow> calendar_scheduler option" where
  "cs_Remove s ev = do {
     ns_assert (\<not> cs_IsEmpty s);
     let b = unat (cs_Hash s (ev_ts ev));
     (x, bucket) \<leftarrow> erase_first (\<lambda>x. ev_uid x = ev_uid ev) (cs_buckets s ! b);
     ns_assert (impl ev = impl x);
     let s' = s\<lparr>cs_buckets := (cs_buckets s)[b := bucket]\<rparr>;
     cs_ResizeDown (s'\<lparr>cs_qSize := cs_qSize s' - 1\<rparr>) }"

definition calendar_vtable :: "calendar_scheduler scheduler" where
  "calendar_vtable = \<lparr>Insert = cs_Insert, IsEmpty = cs_IsEmpty, PeekNext = cs_PeekNext,
     RemoveNext = cs_RemoveNext, Remove = cs_Remove\<rparr>"

lemma calendar_vtable_simps [simp]:
  "Insert calendar_vtable = cs_Insert" "IsEmpty calendar_vtable = cs_IsEmpty"
  "PeekNext calendar_vtable = cs_PeekNext" "RemoveNext calendar_vtable = cs_RemoveNext"
  "Remove calendar_vtable = cs_Remove"
  by (simp_all add: calendar_vtable_def)

section \<open>Buckets\<close>

definition bucket_sorted :: "bool \<Rightarrow> event list \<Rightarrow> bool" where
  "bucket_sorted rv b \<longleftrightarrow>
     (if rv then sorted_wrt (\<lambda>x y. rank y \<le> rank x) b else sorted (map rank b))"

lemma bucket_sorted_Nil [simp]: "bucket_sorted rv []"
  by (simp add: bucket_sorted_def)

lemma bucket_insert_sorted:
  "bucket_sorted rv b \<Longrightarrow>
   bucket_sorted rv (insert_before (\<lambda>x y. cs_Order rv (key x) (key y)) e b)"
  by (cases rv)
    (simp_all add: bucket_sorted_def cs_Order_def key_order sorted_insert_before
      sorted_rev_insert_before)

lemma bucket_pop:
  assumes "b \<noteq> []"
  shows "mset b = add_mset (cs_NextEvent rv b) (mset (cs_Pop rv b))"
proof (cases rv)
  case True
  with assms show ?thesis
    by (cases b rule: rev_cases) (auto simp: cs_NextEvent_def cs_Pop_def)
next
  case False
  with assms show ?thesis by (cases b) (auto simp: cs_NextEvent_def cs_Pop_def)
qed

lemma bucket_next_in: "b \<noteq> [] \<Longrightarrow> cs_NextEvent rv b \<in> set b"
  by (simp add: cs_NextEvent_def)

lemma bucket_next_least:
  assumes "bucket_sorted rv b" and "x \<in> set b"
  shows "rank (cs_NextEvent rv b) \<le> rank x"
proof (cases rv)
  case True
  with assms show ?thesis
    by (cases b rule: rev_cases) (auto simp: bucket_sorted_def cs_NextEvent_def sorted_wrt_append)
next
  case False
  with assms show ?thesis by (cases b) (auto simp: bucket_sorted_def cs_NextEvent_def)
qed

lemma bucket_pop_sorted:
  assumes "bucket_sorted rv b"
  shows "bucket_sorted rv (cs_Pop rv b)"
proof (cases rv)
  case True
  with assms show ?thesis
    by (cases b rule: rev_cases) (auto simp: bucket_sorted_def cs_Pop_def sorted_wrt_append)
next
  case False
  with assms show ?thesis by (cases b) (auto simp: bucket_sorted_def cs_Pop_def)
qed

lemma bucket_erase_sorted:
  "bucket_sorted rv b \<Longrightarrow> erase_first P b = Some (x, b') \<Longrightarrow> bucket_sorted rv b'"
  by (auto simp: bucket_sorted_def sorted_map dest: erase_first_sorted split: if_splits)

lemma mset_concat_update:
  assumes "i < length bs"
  shows "mset (concat (bs[i := b])) + mset (bs ! i) = mset (concat bs) + mset b"
  using assms
proof (induction bs arbitrary: i)
  case Nil
  then show ?case by simp
next
  case (Cons a bs)
  then show ?case by (cases i) (auto simp: ac_simps)
qed


section \<open>Geometry\<close>

abbreviation nB :: "calendar_scheduler \<Rightarrow> nat" where
  "nB s \<equiv> unat (cs_nBuckets s)"

abbreviation wB :: "calendar_scheduler \<Rightarrow> nat" where
  "wB s \<equiv> unat (cs_width s)"

text \<open>The number of the bucket width a time stamp falls in, counted from time 0.\<close>

definition slot :: "calendar_scheduler \<Rightarrow> u64 \<Rightarrow> nat" where
  "slot s ts = unat ts div wB s"

text \<open>Bucket and limit of the \<open>k\<close>-th step of a turn.\<close>

definition turn_bucket :: "calendar_scheduler \<Rightarrow> nat \<Rightarrow> nat" where
  "turn_bucket s k = (slot s (cs_lastPrio s) + k) mod nB s"

definition turn_limit :: "calendar_scheduler \<Rightarrow> nat \<Rightarrow> nat" where
  "turn_limit s k = (slot s (cs_lastPrio s) + 1 + k) * wB s"

definition cal_size_ok :: "calendar_scheduler \<Rightarrow> bool" where
  "cal_size_ok s \<longleftrightarrow> 1 \<le> nB s \<and> nB s \<le> 65534 \<and> length (cs_buckets s) = nB s \<and>
     1 \<le> wB s \<and> wB s < 2 ^ 48"

definition cal_geometry :: "calendar_scheduler \<Rightarrow> bool" where
  "cal_geometry s \<longleftrightarrow> cal_size_ok s \<and> unat (cs_lastPrio s) < 2 ^ 46 \<and>
     cs_lastBucket s = cs_Hash s (cs_lastPrio s) \<and>
     cs_bucketTop s = (cs_lastPrio s div cs_width s + 1) * cs_width s"

lemma unat_Hash:
  assumes "1 \<le> nB s"
  shows "unat (cs_Hash s ts) = slot s ts mod nB s"
proof -
  have n: "unat (ucast (cs_nBuckets s) :: u64) = nB s" by (simp add: unat_ucast_up)
  have "slot s ts mod nB s < nB s" using assms by simp
  also have "\<dots> < 2 ^ 32" using unsigned_less [of "cs_nBuckets s"] by simp
  finally have small: "slot s ts mod nB s < 2 ^ 32" .
  have "unat (cs_Hash s ts) = unat (ts div cs_width s mod ucast (cs_nBuckets s)) mod 2 ^ 32"
    unfolding cs_Hash_def unat_ucast_mod by simp
  also have "unat (ts div cs_width s mod ucast (cs_nBuckets s)) = slot s ts mod nB s"
    by (simp only: unat_mod unat_div n slot_def)
  finally show ?thesis using small by simp
qed

lemma Hash_less: "1 \<le> nB s \<Longrightarrow> unat (cs_Hash s ts) < nB s"
  by (simp add: unat_Hash)

lemma slot_bound: "unat ts < 2 ^ 46 \<Longrightarrow> slot s ts < 2 ^ 46"
  by (simp add: slot_def le_less_trans [OF div_le_dividend])

lemma unat_top:
  assumes "1 \<le> wB s" and "wB s < 2 ^ 48" and "unat ts < 2 ^ 46"
  shows "unat ((ts div cs_width s + 1) * cs_width s) = (slot s ts + 1) * wB s"
proof -
  have le: "slot s ts * wB s \<le> unat ts" by (simp add: slot_def)
  have d: "unat (ts div cs_width s) = slot s ts" by (simp add: slot_def unat_div)
  have "slot s ts < 2 ^ 46" by (rule slot_bound [OF assms(3)])
  then have one: "unat (ts div cs_width s + 1) = slot s ts + 1"
    using d by (subst unat_succ_no_wrap) simp_all
  have "(slot s ts + 1) * wB s < 2 ^ 64" using le assms(2,3) by (simp add: algebra_simps)
  then show ?thesis using one by (subst unat_mult_no_wrap) simp_all
qed

lemma turn_limit_bound:
  assumes "cal_geometry s" and "k \<le> nB s"
  shows "turn_limit s k < 2 ^ 64"
proof -
  have g: "wB s < 2 ^ 48" "nB s \<le> 65534" "unat (cs_lastPrio s) < 2 ^ 46"
    using assms(1) by (simp_all add: cal_geometry_def cal_size_ok_def)
  have "slot s (cs_lastPrio s) * wB s < 2 ^ 46"
    by (rule le_less_trans [OF _ g(3)]) (simp add: slot_def)
  moreover have "(1 + k) * wB s \<le> 65535 * (2 ^ 48 - 1)"
    by (rule mult_le_mono) (use g assms(2) in auto)
  ultimately show ?thesis by (simp add: turn_limit_def algebra_simps)
qed

lemma bucketTop_turn: "cal_geometry s \<Longrightarrow> unat (cs_bucketTop s) = turn_limit s 0"
  by (simp add: cal_geometry_def cal_size_ok_def turn_limit_def unat_top)

lemma lastBucket_turn: "cal_geometry s \<Longrightarrow> unat (cs_lastBucket s) = turn_bucket s 0"
  by (simp add: cal_geometry_def cal_size_ok_def turn_bucket_def unat_Hash)

lemma turn_limit_Suc:
  assumes "cal_geometry s" and "unat lim = turn_limit s k" and "k < nB s"
  shows "unat (lim + cs_width s) = turn_limit s (Suc k)"
proof -
  have "turn_limit s k + wB s = turn_limit s (Suc k)" by (simp add: turn_limit_def)
  moreover have "turn_limit s (Suc k) < 2 ^ 64" using turn_limit_bound assms by simp
  ultimately show ?thesis using assms(2) by (subst unat_add_no_wrap) simp_all
qed

lemma turn_bucket_Suc:
  assumes "cal_geometry s" and "unat i = turn_bucket s k"
  shows "unat ((i + 1) mod cs_nBuckets s) = turn_bucket s (Suc k)"
proof -
  have n: "1 \<le> nB s" "nB s \<le> 65534" using assms(1) by (simp_all add: cal_geometry_def cal_size_ok_def)
  have "unat i < nB s" using assms(2) n by (simp add: turn_bucket_def)
  then have "unat (i + 1) = unat i + 1" using n by (subst unat_succ_no_wrap) simp_all
  then show ?thesis using assms(2) by (simp add: unat_mod turn_bucket_def mod_Suc_eq)
qed

lemma turn_bucket_less: "cal_geometry s \<Longrightarrow> turn_bucket s k < nB s"
  by (simp add: turn_bucket_def cal_geometry_def cal_size_ok_def)

lemma turn_bucket_return:
  assumes "cal_geometry s" and "k < nB s"
  shows "turn_bucket s (Suc k) = turn_bucket s 0 \<longleftrightarrow> Suc k = nB s"
proof
  assume "turn_bucket s (Suc k) = turn_bucket s 0"
  then have "nB s dvd Suc k"
    using mod_eq_dvd_iff_nat [of "slot s (cs_lastPrio s)" "slot s (cs_lastPrio s) + Suc k" "nB s"]
    by (simp add: turn_bucket_def)
  with assms(2) show "Suc k = nB s" by (simp add: dvd_imp_le le_antisym)
next
  assume "Suc k = nB s"
  then show "turn_bucket s (Suc k) = turn_bucket s 0" unfolding turn_bucket_def by simp
qed

section \<open>One turn of the calendar\<close>

abbreviation turn_events :: "calendar_scheduler \<Rightarrow> nat \<Rightarrow> event list" where
  "turn_events s k \<equiv> cs_buckets s ! turn_bucket s k"

abbreviation turn_next :: "calendar_scheduler \<Rightarrow> nat \<Rightarrow> event" where
  "turn_next s k \<equiv> cs_NextEvent (cs_reverse s) (turn_events s k)"

text \<open>Nothing in the \<open>k\<close>-th bucket is due before its limit.\<close>

definition not_due :: "calendar_scheduler \<Rightarrow> nat \<Rightarrow> bool" where
  "not_due s k \<longleftrightarrow> turn_events s k = [] \<or> turn_limit s k \<le> unat (ev_ts (turn_next s k))"

definition scan_found :: "calendar_scheduler \<Rightarrow> nat \<Rightarrow> u32 \<times> u64 \<times> event \<Rightarrow> bool" where
  "scan_found s k r \<longleftrightarrow> (case r of (i, lim, e) \<Rightarrow>
     \<exists>k'\<ge>k. k' < nB s \<and> unat i = turn_bucket s k' \<and> unat lim = turn_limit s k' \<and>
       turn_events s k' \<noteq> [] \<and> e = turn_next s k' \<and> unat (ev_ts e) < turn_limit s k' \<and>
       (\<forall>j. k \<le> j \<and> j < k' \<longrightarrow> not_due s j))"

definition scan_least ::
  "calendar_scheduler \<Rightarrow> (u32 \<Rightarrow> event \<Rightarrow> 'b) \<Rightarrow> nat \<Rightarrow> event_key \<times> 'b \<Rightarrow> event_key \<times> 'b \<Rightarrow> bool" where
  "scan_least s f k m r \<longleftrightarrow> (\<forall>j. k \<le> j \<and> j < nB s \<longrightarrow> not_due s j) \<and>
     key_rank (fst r) \<le> key_rank (fst m) \<and>
     (\<forall>j. k \<le> j \<and> j < nB s \<and> turn_events s j \<noteq> [] \<longrightarrow> key_rank (fst r) \<le> rank (turn_next s j)) \<and>
     (r = m \<or> (\<exists>j i. k \<le> j \<and> j < nB s \<and> turn_events s j \<noteq> [] \<and> unat i = turn_bucket s j \<and>
        r = (key (turn_next s j), f i (turn_next s j))))"

lemma all_from_step: "k < n \<Longrightarrow> (\<forall>j. k \<le> j \<and> j < n \<longrightarrow> P j) \<longleftrightarrow> P k \<and> (\<forall>j. Suc k \<le> j \<and> j < n \<longrightarrow> P j)"
  for k n :: nat
  by (metis Suc_leD Suc_leI le_neq_implies_less order_refl)

lemma scan_least_step:
  fixes m :: "event_key \<times> 'b"
  assumes k: "k < nB s" and nd: "not_due s k" and i: "unat i = turn_bucket s k"
    and rest: "scan_least s f (Suc k)
      (if turn_events s k \<noteq> [] \<and> key_lt (key (turn_next s k)) (fst m)
       then (key (turn_next s k), f i (turn_next s k)) else m) r"
  shows "scan_least s f k m r"
proof -
  let ?e = "turn_next s k"
  let ?upd = "turn_events s k \<noteq> [] \<and> key_lt (key ?e) (fst m)"
  define m1 where "m1 = (if ?upd then (key ?e, f i ?e) else m)"
  have m1: "key_rank (fst m1) \<le> key_rank (fst m) \<and>
    (turn_events s k \<noteq> [] \<longrightarrow> key_rank (fst m1) \<le> rank ?e)"
  proof (cases ?upd)
    case True
    then have "m1 = (key ?e, f i ?e)" unfolding m1_def by (rule if_P)
    with True show ?thesis by (simp add: key_lt_rank order.strict_implies_order)
  next
    case False
    then have "m1 = m" unfolding m1_def by (rule if_not_P)
    moreover have "turn_events s k \<noteq> [] \<longrightarrow> key_rank (fst m) \<le> rank ?e"
      using False unfolding key_lt_rank linorder_not_less [symmetric] by blast
    ultimately show ?thesis by simp
  qed
  have R: "\<forall>j. Suc k \<le> j \<and> j < nB s \<longrightarrow> not_due s j" "key_rank (fst r) \<le> key_rank (fst m1)"
    "\<forall>j. Suc k \<le> j \<and> j < nB s \<longrightarrow> turn_events s j \<noteq> [] \<longrightarrow> key_rank (fst r) \<le> rank (turn_next s j)"
    "r = m1 \<or> (\<exists>j i. Suc k \<le> j \<and> j < nB s \<and> turn_events s j \<noteq> [] \<and> unat i = turn_bucket s j \<and>
        r = (key (turn_next s j), f i (turn_next s j)))"
    using rest by (simp_all add: scan_least_def m1_def)
  have "r = m \<or> (\<exists>j i. k \<le> j \<and> j < nB s \<and> turn_events s j \<noteq> [] \<and> unat i = turn_bucket s j \<and>
        r = (key (turn_next s j), f i (turn_next s j)))"
    using R(4)
  proof
    assume "r = m1"
    then show ?thesis using k i unfolding m1_def by (cases ?upd) auto
  next
    assume "\<exists>j i. Suc k \<le> j \<and> j < nB s \<and> turn_events s j \<noteq> [] \<and> unat i = turn_bucket s j \<and>
        r = (key (turn_next s j), f i (turn_next s j))"
    then obtain j i' where j: "Suc k \<le> j" "j < nB s \<and> turn_events s j \<noteq> [] \<and>
        unat i' = turn_bucket s j \<and> r = (key (turn_next s j), f i' (turn_next s j))" by blast
    then have "k \<le> j" by simp
    with j(2) show ?thesis by blast
  qed
  moreover have "\<forall>j. k \<le> j \<and> j < nB s \<longrightarrow> not_due s j"
    using R(1) nd all_from_step [OF k] by blast
  moreover have "key_rank (fst r) \<le> rank (turn_next s j)"
    if "k \<le> j" "j < nB s" "turn_events s j \<noteq> []" for j
  proof (cases "j = k")
    case True
    with that m1 have "key_rank (fst m1) \<le> rank (turn_next s j)" by simp
    with R(2) show ?thesis by (rule order_trans)
  next
    case False
    with that have "Suc k \<le> j" by simp
    with that R(3) show ?thesis by blast
  qed
  moreover have "key_rank (fst r) \<le> key_rank (fst m)"
    by (rule order_trans [OF R(2) conjunct1 [OF m1]])
  ultimately show ?thesis
    unfolding scan_least_def by blast
qed

lemma scan_correct:
  assumes "cal_geometry s" and "k < nB s" and "unat i = turn_bucket s k"
    and "unat lim = turn_limit s k"
  shows "\<exists>r. cs_scan s f i lim m = Some r \<and>
    (case r of Inl x \<Rightarrow> scan_found s k x | Inr m' \<Rightarrow> scan_least s f k m m')"
  using assms(2-)
proof (induction "nB s - k" arbitrary: k i lim m rule: less_induct)
  case (less k i lim m)
  let ?b = "turn_events s k" and ?e = "turn_next s k"
  let ?i = "(i + 1) mod cs_nBuckets s" and ?lim = "lim + cs_width s"
  let ?m = "if ?b \<noteq> [] \<and> key_lt (key ?e) (fst m) then (key ?e, f i ?e) else m"
  show ?case
  proof (cases "?b \<noteq> [] \<and> ev_ts ?e < lim")
    case True
    then have "cs_scan s f i lim m = Some (Inl (i, lim, ?e))"
      using less.prems by (subst cs_scan.simps) (simp add: Let_def)
    moreover have "scan_found s k (i, lim, ?e)"
      using True less.prems by (auto simp: scan_found_def word_less_nat_alt intro!: exI [of _ k])
    ultimately show ?thesis by simp
  next
    case False
    then have nd: "not_due s k"
      using less.prems(3) by (auto simp: not_due_def word_less_nat_alt)
    have step: "cs_scan s f i lim m =
        (if ?i \<noteq> cs_lastBucket s then cs_scan s f ?i ?lim ?m else Some (Inr ?m))"
    proof -
      have c: "(?b \<noteq> [] \<and> ev_ts ?e < lim) = False" using False by blast
      show ?thesis
        unfolding cs_scan.simps [of s f i lim m] Let_def less.prems(2) c if_False ..
    qed
    have i': "unat ?i = turn_bucket s (Suc k)"
      by (rule turn_bucket_Suc [OF assms(1) less.prems(2)])
    have ret: "?i = cs_lastBucket s \<longleftrightarrow> Suc k = nB s"
      using turn_bucket_return [OF assms(1) less.prems(1)] i' lastBucket_turn [OF assms(1)]
      by (metis word_unat_eq_iff)
    show ?thesis
    proof (cases "Suc k = nB s")
      case True
      have "scan_least s f k m ?m"
        by (rule scan_least_step [OF less.prems(1) nd less.prems(2)])
          (use True in \<open>auto simp: scan_least_def\<close>)
      with step ret True show ?thesis by auto
    next
      case False
      with less.prems(1) have k': "Suc k < nB s" by simp
      have dec: "nB s - Suc k < nB s - k" using less.prems(1) by simp
      obtain r where r: "cs_scan s f ?i ?lim ?m = Some r"
        "case r of Inl x \<Rightarrow> scan_found s (Suc k) x | Inr m' \<Rightarrow> scan_least s f (Suc k) ?m m'"
        using less.hyps [OF dec k' i' turn_limit_Suc [OF assms(1) less.prems(3,1)], of ?m] by blast
      have "case r of Inl x \<Rightarrow> scan_found s k x | Inr m' \<Rightarrow> scan_least s f k m m'"
      proof (cases r)
        case (Inl x)
        with r(2) nd show ?thesis
          by (auto simp: scan_found_def) (metis Suc_leD Suc_leI le_neq_implies_less)
      next
        case (Inr m')
        with r(2) have "scan_least s f (Suc k) ?m m'" by simp
        with Inr scan_least_step [OF less.prems(1) nd less.prems(2)] show ?thesis by simp
      qed
      with r(1) step ret False show ?thesis by auto
    qed
  qed
qed


section \<open>Contents and the ordering of the buckets\<close>

definition cs_contents :: "calendar_scheduler \<Rightarrow> event multiset" where
  "cs_contents s = mset (concat (cs_buckets s))"

definition cal_events_ok :: "calendar_scheduler \<Rightarrow> bool" where
  "cal_events_ok s \<longleftrightarrow> (\<forall>b<nB s. bucket_sorted (cs_reverse s) (cs_buckets s ! b) \<and>
     (\<forall>e\<in>set (cs_buckets s ! b). slot s (ev_ts e) mod nB s = b \<and> unat (ev_ts e) < 2 ^ 46))"

text \<open>No stored event is older than the last one delivered.\<close>

definition none_late :: "calendar_scheduler \<Rightarrow> bool" where
  "none_late s \<longleftrightarrow> (\<forall>e\<in>#cs_contents s. cs_lastPrio s \<le> ev_ts e)"

lemma cal_events_okD:
  assumes "cal_events_ok s" and "b < nB s"
  shows "bucket_sorted (cs_reverse s) (cs_buckets s ! b)"
    and "e \<in> set (cs_buckets s ! b) \<Longrightarrow> slot s (ev_ts e) mod nB s = b"
    and "e \<in> set (cs_buckets s ! b) \<Longrightarrow> unat (ev_ts e) < 2 ^ 46"
  using assms by (simp_all add: cal_events_ok_def)

lemma in_contents_bucket:
  assumes "length (cs_buckets s) = nB s" and "cal_events_ok s" and "e \<in># cs_contents s"
  shows "e \<in> set (cs_buckets s ! (slot s (ev_ts e) mod nB s)) \<and> unat (ev_ts e) < 2 ^ 46"
proof -
  obtain bk where "bk \<in> set (cs_buckets s)" "e \<in> set bk"
    using assms(3) by (auto simp: cs_contents_def)
  then obtain b where "b < nB s" "e \<in> set (cs_buckets s ! b)"
    using assms(1) by (metis in_set_conv_nth)
  with cal_events_okD(2,3) [OF assms(2)] show ?thesis by auto
qed

lemma bucket_in_contents:
  "b < length (cs_buckets s) \<Longrightarrow> e \<in> set (cs_buckets s ! b) \<Longrightarrow> e \<in># cs_contents s"
  by (auto simp: cs_contents_def)

text \<open>Replacing one bucket by another that keeps its order and its hash.\<close>

lemma cal_events_ok_update:
  assumes "cal_events_ok s" and "length (cs_buckets s) = nB s"
    and "bucket_sorted (cs_reverse s) b'"
    and "\<And>e. e \<in> set b' \<Longrightarrow> slot s (ev_ts e) mod nB s = i \<and> unat (ev_ts e) < 2 ^ 46"
    and "cs_buckets t = (cs_buckets s)[i := b']" and "cs_nBuckets t = cs_nBuckets s"
    and "cs_width t = cs_width s" and "cs_reverse t = cs_reverse s"
  shows "cal_events_ok t"
  unfolding cal_events_ok_def
proof (intro allI impI)
  fix b assume b: "b < nB t"
  have sl: "slot t = slot s" by (simp add: slot_def fun_eq_iff assms(7))
  show "bucket_sorted (cs_reverse t) (cs_buckets t ! b) \<and>
    (\<forall>e\<in>set (cs_buckets t ! b). slot t (ev_ts e) mod nB t = b \<and> unat (ev_ts e) < 2 ^ 46)"
  proof (cases "b = i")
    case True
    then have "cs_buckets t ! b = b'" using assms(2,5,6) b by simp
    with True show ?thesis using assms(3,4,6,8) sl by simp
  next
    case False
    then have "cs_buckets t ! b = cs_buckets s ! b" using assms(5) by simp
    then show ?thesis using cal_events_okD [OF assms(1)] b assms(6,8) sl by simp
  qed
qed

lemma contents_update:
  assumes "i < length (cs_buckets s)" and "cs_buckets t = (cs_buckets s)[i := b']"
  shows "cs_contents t + mset (cs_buckets s ! i) = cs_contents s + mset b'"
  using assms mset_concat_update [OF assms(1), of b'] by (simp add: cs_contents_def)

section \<open>DoInsert\<close>

lemma DoInsert_fields [simp]:
  "cs_nBuckets (cs_DoInsert s e) = cs_nBuckets s" "cs_width (cs_DoInsert s e) = cs_width s"
  "cs_lastBucket (cs_DoInsert s e) = cs_lastBucket s"
  "cs_bucketTop (cs_DoInsert s e) = cs_bucketTop s"
  "cs_lastPrio (cs_DoInsert s e) = cs_lastPrio s" "cs_qSize (cs_DoInsert s e) = cs_qSize s"
  "cs_reverse (cs_DoInsert s e) = cs_reverse s"
  "length (cs_buckets (cs_DoInsert s e)) = length (cs_buckets s)"
  by (simp_all add: cs_DoInsert_def Let_def)

definition in_range :: "event \<Rightarrow> bool" where
  "in_range e \<longleftrightarrow> unat (ev_ts e) < 2 ^ 46"

lemma cal_size_okD:
  "cal_size_ok s \<Longrightarrow> Suc 0 \<le> nB s" "cal_size_ok s \<Longrightarrow> length (cs_buckets s) = nB s"
  "cal_size_ok s \<Longrightarrow> Suc 0 \<le> wB s" "cal_size_ok s \<Longrightarrow> wB s < 2 ^ 48" "cal_size_ok s \<Longrightarrow> nB s \<le> 65534"
  by (simp_all add: cal_size_ok_def)

lemma DoInsert_correct:
  assumes "cal_size_ok s" and "cal_events_ok s" and "in_range e"
  shows "cal_events_ok (cs_DoInsert s e) \<and> cs_contents (cs_DoInsert s e) = add_mset e (cs_contents s)
    \<and> cal_size_ok (cs_DoInsert s e)"
proof -
  let ?i = "unat (cs_Hash s (ev_ts e))"
  let ?b = "insert_before (\<lambda>x y. cs_Order (cs_reverse s) (key x) (key y)) e (cs_buckets s ! ?i)"
  have i: "?i < nB s" "?i = slot s (ev_ts e) mod nB s" and l: "length (cs_buckets s) = nB s"
    using cal_size_okD [OF assms(1)] Hash_less [of s] unat_Hash [of s] by simp_all
  have upd: "cs_buckets (cs_DoInsert s e) = (cs_buckets s)[?i := ?b]"
    by (simp add: cs_DoInsert_def Let_def)
  have "cal_events_ok (cs_DoInsert s e)"
  proof (rule cal_events_ok_update [OF assms(2) l _ _ upd])
    show "bucket_sorted (cs_reverse s) ?b"
      using cal_events_okD(1) [OF assms(2) i(1)] by (rule bucket_insert_sorted)
    show "slot s (ev_ts x) mod nB s = ?i \<and> unat (ev_ts x) < 2 ^ 46" if "x \<in> set ?b" for x
    proof (cases "x = e")
      case True
      then show ?thesis using i(2) assms(3) by (simp add: in_range_def)
    next
      case False
      with that have "x \<in> set (cs_buckets s ! ?i)" by simp
      then show ?thesis using cal_events_okD(2,3) [OF assms(2) i(1)] by blast
    qed
  qed simp_all
  moreover have "cs_contents (cs_DoInsert s e) = add_mset e (cs_contents s)"
    using contents_update [OF _ upd] i(1) l by simp
  ultimately show ?thesis using assms(1) by (simp add: cal_size_ok_def)
qed

lemma foldl_DoInsert_fields [simp]:
  "cs_nBuckets (foldl cs_DoInsert s es) = cs_nBuckets s"
  "cs_width (foldl cs_DoInsert s es) = cs_width s"
  "cs_lastBucket (foldl cs_DoInsert s es) = cs_lastBucket s"
  "cs_bucketTop (foldl cs_DoInsert s es) = cs_bucketTop s"
  "cs_lastPrio (foldl cs_DoInsert s es) = cs_lastPrio s"
  "cs_qSize (foldl cs_DoInsert s es) = cs_qSize s"
  "cs_reverse (foldl cs_DoInsert s es) = cs_reverse s"
  "length (cs_buckets (foldl cs_DoInsert s es)) = length (cs_buckets s)"
  by (induction es arbitrary: s) simp_all

lemma foldl_DoInsert_correct:
  assumes "cal_size_ok s" and "cal_events_ok s" and "\<forall>e\<in>set es. in_range e"
  shows "cal_events_ok (foldl cs_DoInsert s es) \<and>
    cs_contents (foldl cs_DoInsert s es) = cs_contents s + mset es \<and>
    cal_size_ok (foldl cs_DoInsert s es)"
  using assms
proof (induction es arbitrary: s)
  case Nil
  then show ?case by simp
next
  case (Cons e es)
  then have "in_range e" by simp
  note step = DoInsert_correct [OF Cons.prems(1,2) this]
  from Cons.IH [of "cs_DoInsert s e"] step Cons.prems(3) show ?case by simp
qed

section \<open>DoRemoveNext\<close>

lemma slot_mono: "a \<le> b \<Longrightarrow> slot s a \<le> slot s b"
  by (simp add: slot_def div_le_mono word_le_nat_alt)

lemma slot_less: "slot s a < slot s b \<Longrightarrow> a < b"
  using slot_mono [of b a s] by (meson linorder_not_less)

lemma below_limit: "Suc 0 \<le> wB s \<Longrightarrow> unat ts < (q + 1) * wB s \<longleftrightarrow> slot s ts \<le> q"
  using div_less_iff_less_mult [of "wB s" "unat ts" "q + 1"] by (auto simp: slot_def)

text \<open>The step of the turn at which a stored event's bucket is looked at.\<close>

definition turn_of :: "calendar_scheduler \<Rightarrow> event \<Rightarrow> nat" where
  "turn_of s e = (slot s (ev_ts e) - slot s (cs_lastPrio s)) mod nB s"

lemma turn_of_correct:
  assumes "cal_geometry s" and "cal_events_ok s" and "none_late s" and "e \<in># cs_contents s"
  shows "turn_of s e < nB s" and "e \<in> set (turn_events s (turn_of s e))"
    and "turn_of s e \<le> slot s (ev_ts e) - slot s (cs_lastPrio s)"
    and "slot s (cs_lastPrio s) \<le> slot s (ev_ts e)"
proof -
  have sz: "cal_size_ok s" using assms(1) by (simp add: cal_geometry_def)
  show le: "slot s (cs_lastPrio s) \<le> slot s (ev_ts e)"
    using assms(3,4) by (auto simp: none_late_def intro: slot_mono)
  show "turn_of s e < nB s" using cal_size_okD(1) [OF sz] by (simp add: turn_of_def)
  show "turn_of s e \<le> slot s (ev_ts e) - slot s (cs_lastPrio s)" by (simp add: turn_of_def)
  have "turn_bucket s (turn_of s e) = slot s (ev_ts e) mod nB s"
    using le by (simp add: turn_bucket_def turn_of_def mod_add_right_eq)
  then show "e \<in> set (turn_events s (turn_of s e))"
    using in_contents_bucket [OF cal_size_okD(2) [OF sz] assms(2,4)] by simp
qed

text \<open>If the bucket's next event is not due, no event of the bucket falls in this turn.\<close>

lemma not_due_later:
  assumes "cal_geometry s" and "cal_events_ok s" and "none_late s" and "e \<in># cs_contents s"
    and "not_due s (turn_of s e)"
  shows "slot s (cs_lastPrio s) + turn_of s e < slot s (ev_ts e)"
proof -
  note t = turn_of_correct [OF assms(1-4)]
  have w: "Suc 0 \<le> wB s" using assms(1) by (simp add: cal_geometry_def cal_size_okD)
  have "rank (turn_next s (turn_of s e)) \<le> rank e"
    using bucket_next_least [OF cal_events_okD(1) [OF assms(2) turn_bucket_less [OF assms(1)]] t(2)] .
  then have "unat (ev_ts (turn_next s (turn_of s e))) \<le> unat (ev_ts e)"
    using rank_le_ts word_le_nat_alt by blast
  with assms(5) t(2) have "turn_limit s (turn_of s e) \<le> unat (ev_ts e)"
    by (auto simp: not_due_def)
  then have "\<not> unat (ev_ts e) < (slot s (cs_lastPrio s) + turn_of s e + 1) * wB s"
    by (simp add: turn_limit_def algebra_simps)
  then show ?thesis using below_limit [OF w] by simp
qed

lemma found_least:
  assumes ok: "cal_geometry s" "cal_events_ok s" "none_late s"
    and k: "k < nB s" "turn_events s k \<noteq> []" "unat (ev_ts (turn_next s k)) < turn_limit s k"
    and before: "\<forall>j<k. not_due s j"
  shows "slot s (ev_ts (turn_next s k)) = slot s (cs_lastPrio s) + k"
    and "\<forall>x\<in>#cs_contents s. rank (turn_next s k) \<le> rank x"
proof -
  let ?e = "turn_next s k" and ?q = "slot s (cs_lastPrio s)"
  have sz: "cal_size_ok s" using ok(1) by (simp add: cal_geometry_def)
  have b: "turn_bucket s k < nB s" by (rule turn_bucket_less [OF ok(1)])
  have mem: "?e \<in> set (turn_events s k)" by (rule bucket_next_in [OF k(2)])
  then have e: "?e \<in># cs_contents s" using bucket_in_contents b sz by (simp add: cal_size_okD)
  have "unat (ev_ts ?e) < (?q + k + 1) * wB s"
    using k(3) by (simp add: turn_limit_def algebra_simps)
  then have up: "slot s (ev_ts ?e) \<le> ?q + k" using below_limit [OF cal_size_okD(3) [OF sz]] by blast
  have low: "?q \<le> slot s (ev_ts ?e)" by (rule turn_of_correct(4) [OF ok e])
  have "(?q + (slot s (ev_ts ?e) - ?q)) mod nB s = (?q + k) mod nB s"
    using cal_events_okD(2) [OF ok(2) b mem] low by (simp add: turn_bucket_def)
  moreover have "slot s (ev_ts ?e) - ?q \<le> k" using up by simp
  ultimately have "slot s (ev_ts ?e) - ?q = k"
    using k(1) mod_eq_dvd_iff_nat [of "?q + (slot s (ev_ts ?e) - ?q)" "?q + k" "nB s"]
    by (auto dest!: dvd_imp_le)
  with low show slot: "slot s (ev_ts ?e) = ?q + k" by simp
  show "\<forall>x\<in>#cs_contents s. rank ?e \<le> rank x"
  proof
    fix x assume x: "x \<in># cs_contents s"
    note t = turn_of_correct [OF ok x]
    consider "turn_of s x = k" | "slot s (ev_ts ?e) < slot s (ev_ts x)"
    proof (cases "slot s (ev_ts x) \<le> ?q + k")
      case True
      then have "turn_of s x = slot s (ev_ts x) - ?q" using k(1) by (simp add: turn_of_def)
      with True not_due_later [OF ok x] before t(4) that show ?thesis
        by (metis le_add_diff_inverse less_irrefl le_neq_implies_less nat_add_left_cancel_le)
    next
      case False
      with that slot show ?thesis by simp
    qed
    then show "rank ?e \<le> rank x"
    proof cases
      case 1
      then show ?thesis using bucket_next_least [OF cal_events_okD(1) [OF ok(2) b]] t(2) by simp
    next
      case 2
      then show ?thesis using rank_less_ts slot_less less_imp_le by blast
    qed
  qed
qed


definition cal_core :: "calendar_scheduler \<Rightarrow> bool" where
  "cal_core s \<longleftrightarrow> cal_geometry s \<and> cal_events_ok s \<and> none_late s"

lemma cal_coreD:
  "cal_core s \<Longrightarrow> cal_geometry s" "cal_core s \<Longrightarrow> cal_events_ok s" "cal_core s \<Longrightarrow> none_late s"
  "cal_core s \<Longrightarrow> cal_size_ok s"
  by (simp_all add: cal_core_def cal_geometry_def)

lemma Hash_cong: "cs_width t = cs_width s \<Longrightarrow> cs_nBuckets t = cs_nBuckets s \<Longrightarrow> cs_Hash t = cs_Hash s"
  by (simp add: cs_Hash_def fun_eq_iff)

text \<open>The state in which \<open>DoRemoveNext\<close> leaves the calendar, on either of its exits.\<close>

definition delivered :: "calendar_scheduler \<Rightarrow> nat \<Rightarrow> event \<Rightarrow> calendar_scheduler" where
  "delivered s i e = s\<lparr>cs_lastBucket := cs_Hash s (ev_ts e), cs_lastPrio := ev_ts e,
     cs_bucketTop := (ev_ts e div cs_width s + 1) * cs_width s,
     cs_buckets := (cs_buckets s)[i := cs_Pop (cs_reverse s) (cs_buckets s ! i)]\<rparr>"

lemma delivered_core:
  assumes "cal_core s" and i: "i < nB s" "cs_buckets s ! i \<noteq> []"
    and e: "e = cs_NextEvent (cs_reverse s) (cs_buckets s ! i)"
    and least: "\<forall>x\<in>#cs_contents s. rank e \<le> rank x"
  shows "cal_core (delivered s i e) \<and> cs_contents s = add_mset e (cs_contents (delivered s i e))"
proof -
  let ?t = "delivered s i e" and ?b = "cs_buckets s ! i"
  note core = cal_coreD [OF assms(1)]
  note l = cal_size_okD(2) [OF core(4)]
  have pop: "mset ?b = add_mset e (mset (cs_Pop (cs_reverse s) ?b))"
    using bucket_pop [OF i(2)] e by simp
  have upd: "cs_buckets ?t = (cs_buckets s)[i := cs_Pop (cs_reverse s) ?b]"
    by (simp add: delivered_def)
  have cont: "cs_contents s = add_mset e (cs_contents ?t)"
    using contents_update [OF _ upd] i(1) l pop by simp
  have ev: "cal_events_ok ?t"
  proof (rule cal_events_ok_update [OF core(2) l _ _ upd])
    show "bucket_sorted (cs_reverse s) (cs_Pop (cs_reverse s) ?b)"
      using cal_events_okD(1) [OF core(2) i(1)] by (rule bucket_pop_sorted)
    show "slot s (ev_ts x) mod nB s = i \<and> unat (ev_ts x) < 2 ^ 46"
      if "x \<in> set (cs_Pop (cs_reverse s) ?b)" for x
    proof -
      have "x \<in># mset ?b" using that pop by simp
      then show ?thesis using cal_events_okD(2,3) [OF core(2) i(1)] by simp
    qed
  qed (simp_all add: delivered_def)
  have "e \<in> set ?b" using e bucket_next_in [OF i(2)] by simp
  then have range: "unat (ev_ts e) < 2 ^ 46" by (rule cal_events_okD(3) [OF core(2) i(1)])
  have H: "cs_Hash ?t = cs_Hash s" by (rule Hash_cong) (simp_all add: delivered_def)
  have "cal_geometry ?t"
    using core(4) range l unfolding cal_geometry_def H by (simp add: delivered_def cal_size_ok_def)
  moreover have "none_late ?t"
    using least cont by (auto simp: none_late_def delivered_def intro: rank_le_ts)
  ultimately show ?thesis using ev cont by (simp add: cal_core_def)
qed

lemma turn_exists:
  assumes "cal_core s" and "x \<in># cs_contents s"
  shows "\<exists>j<nB s. turn_events s j \<noteq> [] \<and> rank (turn_next s j) \<le> rank x"
proof -
  note core = cal_coreD [OF assms(1)]
  note t = turn_of_correct [OF core(1-3) assms(2)]
  then have "turn_events s (turn_of s x) \<noteq> []" by auto
  moreover have "rank (turn_next s (turn_of s x)) \<le> rank x"
    using bucket_next_least [OF cal_events_okD(1) [OF core(2) turn_bucket_less [OF core(1)]] t(2)] .
  ultimately show ?thesis using t(1) by blast
qed

lemma scan_from_start:
  assumes "cal_core s"
  shows "\<exists>r. cs_scan s f (cs_lastBucket s) (cs_bucketTop s) m = Some r \<and>
    (case r of Inl x \<Rightarrow> scan_found s 0 x | Inr m' \<Rightarrow> scan_least s f 0 m m')"
proof -
  note core = cal_coreD [OF assms]
  have "0 < nB s" using cal_size_okD(1) [OF core(4)] by simp
  then show ?thesis
    by (rule scan_correct [OF core(1)]) (simp_all add: core bucketTop_turn lastBucket_turn)
qed

lemma scan_found_delivered:
  assumes "cal_core s" and "scan_found s 0 (i, lim, e)"
  shows "\<exists>k<nB s. unat i = turn_bucket s k \<and> turn_events s k \<noteq> [] \<and> e = turn_next s k \<and>
    (\<forall>x\<in>#cs_contents s. rank e \<le> rank x) \<and> i = cs_Hash s (ev_ts e) \<and>
    lim = (ev_ts e div cs_width s + 1) * cs_width s"
proof -
  note core = cal_coreD [OF assms(1)]
  obtain k where k: "k < nB s" "unat i = turn_bucket s k" "unat lim = turn_limit s k"
    "turn_events s k \<noteq> []" "e = turn_next s k" "unat (ev_ts e) < turn_limit s k"
    "\<forall>j<k. not_due s j"
    using assms(2) by (auto simp: scan_found_def)
  have fl: "slot s (ev_ts e) = slot s (cs_lastPrio s) + k"
    "\<forall>x\<in>#cs_contents s. rank e \<le> rank x"
    using found_least [OF core(1-3) k(1,4) _ k(7)] k(5,6) by simp_all
  have n: "1 \<le> nB s" and w: "1 \<le> wB s" using cal_size_okD [OF core(4)] by simp_all
  have "unat i = unat (cs_Hash s (ev_ts e))"
    using k(2) fl(1) n by (simp add: turn_bucket_def unat_Hash)
  then have "i = cs_Hash s (ev_ts e)" by (simp add: word_unat_eq_iff)
  moreover have "e \<in> set (turn_events s k)" using bucket_next_in [OF k(4)] k(5) by simp
  then have "unat (ev_ts e) < 2 ^ 46"
    by (rule cal_events_okD(3) [OF core(2) turn_bucket_less [OF core(1)]])
  then have "unat lim = unat ((ev_ts e div cs_width s + 1) * cs_width s)"
    using k(3) fl(1) unat_top [OF w cal_size_okD(4) [OF core(4)]]
    by (simp add: turn_limit_def algebra_simps)
  then have "lim = (ev_ts e div cs_width s + 1) * cs_width s" by (simp only: word_unat_eq_iff)
  ultimately show ?thesis using k fl(2) by blast
qed

lemma rank_below_max: "unat (ev_ts e) < 2 ^ 46 \<Longrightarrow> rank e < key_rank \<lparr>m_ts = - 1, m_uid = u, m_context = c\<rparr>"
proof -
  assume a: "unat (ev_ts e) < 2 ^ 46"
  have "unat (- 1 :: u64) = 2 ^ 64 - 1" by (simp add: unsigned_minus_1_eq_mask mask_eq_exp_minus_1)
  with a have "ev_ts e < - 1" by (simp add: word_less_nat_alt)
  then show ?thesis by (intro rank_less_ts) simp
qed

lemma scan_least_delivered:
  assumes "cal_core s" and "cs_contents s \<noteq> {#}"
    and "scan_least s f 0 (\<lparr>m_ts = - 1, m_uid = u, m_context = c\<rparr>, d) r"
  shows "\<exists>k<nB s. \<exists>i. unat i = turn_bucket s k \<and> turn_events s k \<noteq> [] \<and>
    r = (key (turn_next s k), f i (turn_next s k)) \<and>
    (\<forall>x\<in>#cs_contents s. rank (turn_next s k) \<le> rank x)"
proof -
  note core = cal_coreD [OF assms(1)]
  have least: "key_rank (fst r) \<le> rank x" if x: "x \<in># cs_contents s" for x
  proof -
    obtain j where "j < nB s" "turn_events s j \<noteq> []" "rank (turn_next s j) \<le> rank x"
      using turn_exists [OF assms(1) x] by blast
    with assms(3) show ?thesis by (auto simp: scan_least_def intro: order_trans)
  qed
  obtain x where x: "x \<in># cs_contents s" using assms(2) by blast
  have "rank x < key_rank \<lparr>m_ts = - 1, m_uid = u, m_context = c\<rparr>"
    by (rule rank_below_max)
      (use in_contents_bucket [OF cal_size_okD(2) [OF core(4)] core(2) x] in simp)
  with least [OF x] have "r \<noteq> (\<lparr>m_ts = - 1, m_uid = u, m_context = c\<rparr>, d)" by auto
  with assms(3) obtain k i where "k < nB s" "turn_events s k \<noteq> []" "unat i = turn_bucket s k"
    "r = (key (turn_next s k), f i (turn_next s k))"
    by (auto simp: scan_least_def)
  moreover from this least have "\<forall>x\<in>#cs_contents s. rank (turn_next s k) \<le> rank x" by simp
  ultimately show ?thesis by blast
qed

text \<open>The main lemma: the event with the least key leaves the calendar.\<close>

lemma DoRemoveNext_correct:
  assumes "cal_core s" and "cs_contents s \<noteq> {#}" and "cs_qSize s \<noteq> 0"
  shows "\<exists>i e. cs_DoRemoveNext s = Some (e, delivered s i e) \<and> i < nB s \<and> cs_buckets s ! i \<noteq> [] \<and>
    e = cs_NextEvent (cs_reverse s) (cs_buckets s ! i) \<and> (\<forall>x\<in>#cs_contents s. rank e \<le> rank x)"
proof -
  note core = cal_coreD [OF assms(1)]
  let ?m = "(\<lparr>m_ts = - 1, m_uid = 0, m_context = 0xffffffff\<rparr>, - 1) :: event_key \<times> int"
  let ?f = "\<lambda>i (nxt::event). int (unat (i::u32))"
  obtain r where r: "cs_scan s ?f (cs_lastBucket s) (cs_bucketTop s) ?m = Some r"
    "case r of Inl x \<Rightarrow> scan_found s 0 x | Inr m' \<Rightarrow> scan_least s ?f 0 ?m m'"
    using scan_from_start [OF assms(1), of ?f ?m] by blast
  show ?thesis
  proof (cases r)
    case (Inl x)
    obtain i lim e where x: "x = (i, lim, e)" by (cases x)
    obtain k where k: "unat i = turn_bucket s k" "turn_events s k \<noteq> []" "e = turn_next s k"
      "\<forall>x\<in>#cs_contents s. rank e \<le> rank x" "i = cs_Hash s (ev_ts e)"
      "lim = (ev_ts e div cs_width s + 1) * cs_width s"
      using scan_found_delivered [OF assms(1), of i lim e] r(2) Inl x by auto
    have "cs_DoRemoveNext s = Some (e, delivered s (turn_bucket s k) e)"
      using r(1) Inl x assms(3) k(1)
      by (simp add: cs_DoRemoveNext_def cs_IsEmpty_def delivered_def flip: k(5,6))
    then show ?thesis using k turn_bucket_less [OF core(1), of k] by blast
  next
    case (Inr m')
    then have "scan_least s ?f 0 ?m m'" using r(2) by simp
    from scan_least_delivered [OF assms(1,2) this]
    obtain k and i :: u32 where k: "unat i = turn_bucket s k" "turn_events s k \<noteq> []"
      "m' = (key (turn_next s k), int (unat i))"
      "\<forall>x\<in>#cs_contents s. rank (turn_next s k) \<le> rank x"
      by blast
    have "cs_DoRemoveNext s = Some (turn_next s k, delivered s (turn_bucket s k) (turn_next s k))"
      using r(1) Inr assms(3) k(1,3)
      by (simp add: cs_DoRemoveNext_def cs_IsEmpty_def delivered_def Let_def)
    then show ?thesis using k turn_bucket_less [OF core(1), of k] by blast
  qed
qed

lemma PeekNext_correct:
  assumes "cal_core s" and "cs_contents s \<noteq> {#}" and "cs_qSize s \<noteq> 0"
  shows "\<exists>e. cs_PeekNext s = Some e \<and> e \<in># cs_contents s \<and> (\<forall>x\<in>#cs_contents s. rank e \<le> rank x)"
proof -
  note core = cal_coreD [OF assms(1)]
  let ?k = "\<lparr>m_ts = - 1, m_uid = - 1, m_context = 0\<rparr>"
  let ?m = "(?k, \<lparr>impl = 0, key = ?k\<rparr>)"
  let ?f = "\<lambda>(i::u32) (nxt::event). nxt"
  obtain r where r: "cs_scan s ?f (cs_lastBucket s) (cs_bucketTop s) ?m = Some r"
    "case r of Inl x \<Rightarrow> scan_found s 0 x | Inr m' \<Rightarrow> scan_least s ?f 0 ?m m'"
    using scan_from_start [OF assms(1), of ?f ?m] by blast
  have mem: "turn_next s k \<in># cs_contents s" if "turn_events s k \<noteq> []" for k
    using bucket_in_contents [OF _ bucket_next_in [OF that]] turn_bucket_less [OF core(1)]
      cal_size_okD(2) [OF core(4)] by simp
  show ?thesis
  proof (cases r)
    case (Inl x)
    obtain i lim e where x: "x = (i, lim, e)" by (cases x)
    obtain k where "turn_events s k \<noteq> []" "e = turn_next s k" "\<forall>x\<in>#cs_contents s. rank e \<le> rank x"
      using scan_found_delivered [OF assms(1), of i lim e] r(2) Inl x by auto
    then show ?thesis
      using r(1) Inl x assms(3) mem [of k]
      by (simp add: cs_PeekNext_def cs_IsEmpty_def Let_def)
  next
    case (Inr m')
    then have "scan_least s ?f 0 ?m m'" using r(2) by simp
    from scan_least_delivered [OF assms(1,2) this]
    obtain k where "turn_events s k \<noteq> []" "m' = (key (turn_next s k), turn_next s k)"
      "\<forall>x\<in>#cs_contents s. rank (turn_next s k) \<le> rank x"
      by blast
    then show ?thesis
      using r(1) Inr assms(3) mem [of k]
      by (simp add: cs_PeekNext_def cs_IsEmpty_def Let_def case_prod_beta)
  qed
qed


section \<open>Resizing\<close>

text \<open>The fields that searching and re-inserting events leave alone.\<close>

definition same_frame :: "calendar_scheduler \<Rightarrow> calendar_scheduler \<Rightarrow> bool" where
  "same_frame s t \<longleftrightarrow> cs_nBuckets t = cs_nBuckets s \<and> cs_width t = cs_width s \<and>
     cs_qSize t = cs_qSize s \<and> cs_reverse t = cs_reverse s"

lemma same_frame_refl [simp]: "same_frame s s"
  by (simp add: same_frame_def)

lemma same_frame_trans: "same_frame s t \<Longrightarrow> same_frame t u \<Longrightarrow> same_frame s u"
  by (simp add: same_frame_def)

lemma core_in_range: "cal_core s \<Longrightarrow> e \<in># cs_contents s \<Longrightarrow> in_range e"
  using in_contents_bucket [of s e] cal_coreD [of s] cal_size_okD(2) [of s]
  by (auto simp: in_range_def)

lemma gather_correct:
  assumes "cal_core s" and "cs_qSize s \<noteq> 0" and "n \<le> size (cs_contents s)"
  shows "\<exists>es s'. cs_gather n s = Some (es, s') \<and> cal_core s' \<and> same_frame s s' \<and>
    cs_contents s = mset es + cs_contents s' \<and> length es = n \<and> sorted (map ev_ts es)"
  using assms
proof (induction n arbitrary: s)
  case 0
  then show ?case by simp
next
  case (Suc n)
  from Suc.prems(3) have "cs_contents s \<noteq> {#}" by auto
  from DoRemoveNext_correct [OF Suc.prems(1) this Suc.prems(2)]
  obtain i e where r: "cs_DoRemoveNext s = Some (e, delivered s i e)" "i < nB s"
    "cs_buckets s ! i \<noteq> []" "e = cs_NextEvent (cs_reverse s) (cs_buckets s ! i)"
    "\<forall>x\<in>#cs_contents s. rank e \<le> rank x" by blast
  let ?t = "delivered s i e"
  from delivered_core [OF Suc.prems(1) r(2-5)]
  have t: "cal_core ?t" "cs_contents s = add_mset e (cs_contents ?t)" by simp_all
  have fr: "same_frame s ?t" by (simp add: same_frame_def delivered_def)
  have "n \<le> size (cs_contents ?t)" "cs_qSize ?t \<noteq> 0"
    using Suc.prems(2,3) t(2) fr by (auto simp: same_frame_def)
  with Suc.IH [OF t(1)] obtain es s' where g: "cs_gather n ?t = Some (es, s')" "cal_core s'"
    "same_frame ?t s'" "cs_contents ?t = mset es + cs_contents s'" "length es = n"
    "sorted (map ev_ts es)" by blast
  have "ev_ts e \<le> ev_ts x" if "x \<in> set es" for x
    using that r(5) t(2) g(4) by (auto intro: rank_le_ts)
  then have "sorted (map ev_ts (e # es))" using g(6) by simp
  moreover have "cs_gather (Suc n) s = Some (e # es, s')" using r(1) g(1) by simp
  moreover have "cs_contents s = mset (e # es) + cs_contents s'" using t(2) g(4) by simp
  ultimately show ?case using g(2,5) same_frame_trans [OF fr g(3)] by (metis length_Cons)
qed

lemma close_separation_bound:
  assumes "sorted (map ev_ts es)" and "\<forall>e\<in>set es. in_range e" and "es \<noteq> []"
    and "unat acc + unat (ev_ts (last es)) < 2 ^ 48 + unat (ev_ts (hd es))"
  shows "unat (cs_close_separation tA es acc) + unat (ev_ts (hd es)) \<le>
    unat acc + unat (ev_ts (last es))"
  using assms
proof (induction tA es acc rule: cs_close_separation.induct)
  case (1 tA cur nxt es acc)
  let ?d = "ev_ts nxt - ev_ts cur"
  have le: "unat (ev_ts cur) \<le> unat (ev_ts nxt)" "unat (ev_ts nxt) \<le> unat (ev_ts (last (nxt # es)))"
    using "1.prems"(1) by (auto simp: word_le_nat_alt)
  have d: "unat ?d = unat (ev_ts nxt) - unat (ev_ts cur)"
    using le(1) by (simp add: unat_sub word_le_nat_alt)
  let ?acc = "if ?d \<le> tA then acc + ?d else acc"
  have sum: "unat acc + unat ?d < 2 ^ 64"
    using "1.prems"(2,4) le d by (auto simp: in_range_def)
  have acc: "unat ?acc \<le> unat acc + unat ?d"
    using sum by (simp add: unat_add_no_wrap)
  have "unat (cs_close_separation tA (nxt # es) ?acc) + unat (ev_ts (hd (nxt # es))) \<le>
      unat ?acc + unat (ev_ts (last (nxt # es)))"
    by (rule "1.IH" [OF refl]) (use "1.prems" acc d le in auto)
  then show ?case using acc d le by (simp add: Let_def)
qed simp_all

lemma nSamples_le:
  assumes "2 \<le> unat q"
  shows "unat (cs_nSamples q) \<le> unat q"
proof -
  have "unat q < 2 ^ 32" using unsigned_less [of q] by simp
  then have "5 + unat q div 10 < 2 ^ 32" by simp
  then have "unat (5 + q div 10) = 5 + unat q div 10"
    by (subst unat_add_no_wrap) (simp_all add: unat_div)
  then show ?thesis
    by (auto simp: cs_nSamples_def Let_def word_le_nat_alt word_less_nat_alt)
qed

lemma CalculateNewWidth_correct:
  assumes core: "cal_core s" and q: "unat (cs_qSize s) = size (cs_contents s)"
  shows "\<exists>w s'. cs_CalculateNewWidth s = Some (w, s') \<and> 1 \<le> unat w \<and> unat w < 2 ^ 48 \<and>
    cal_core s' \<and> cs_contents s' = cs_contents s \<and> same_frame s s' \<and>
    cs_lastPrio s' = cs_lastPrio s"
proof (cases "cs_qSize s < 2")
  case True
  with core show ?thesis by (simp add: cs_CalculateNewWidth_def)
next
  case False
  then have q2: "2 \<le> unat (cs_qSize s)" by (simp add: word_less_nat_alt)
  then have q0: "cs_qSize s \<noteq> 0" by auto
  let ?n = "cs_nSamples (cs_qSize s)"
  have "unat ?n \<le> size (cs_contents s)" using nSamples_le [OF q2] q by simp
  from gather_correct [OF core q0 this] obtain es s1 where
    g: "cs_gather (unat ?n) s = Some (es, s1)" "cal_core s1" "same_frame s s1"
      "cs_contents s = mset es + cs_contents s1" "length es = unat ?n" "sorted (map ev_ts es)"
    by blast
  have rng: "\<forall>e\<in>set es. in_range e" using core_in_range [OF core] g(4) by simp
  let ?s2 = "foldl cs_DoInsert s1 es"
  let ?s3 = "?s2\<lparr>cs_lastBucket := cs_lastBucket s, cs_bucketTop := cs_bucketTop s,
    cs_lastPrio := cs_lastPrio s\<rparr>"
  from foldl_DoInsert_correct [OF cal_coreD(4,2) [OF g(2)] rng]
  have s2: "cal_events_ok ?s2" "cs_contents ?s2 = cs_contents s" "cal_size_ok ?s2"
    using g(4) by simp_all
  have fr: "same_frame s ?s3" using g(3) by (simp add: same_frame_def)
  have c3: "cs_contents ?s3 = cs_contents s" using s2(2) by (simp add: cs_contents_def)
  have H: "cs_Hash ?s3 = cs_Hash s" by (rule Hash_cong) (use fr in \<open>auto simp: same_frame_def\<close>)
  have "cal_geometry ?s3"
    using cal_coreD(1) [OF core] s2(3) fr unfolding cal_geometry_def H
    by (simp add: cal_size_ok_def same_frame_def)
  moreover have "cal_events_ok ?s3" using s2(1) by (simp add: cal_events_ok_def slot_def)
  moreover have "none_late ?s3" using cal_coreD(3) [OF core] c3 by (simp add: none_late_def)
  ultimately have core3: "cal_core ?s3" by (simp add: cal_core_def)
  let ?tA = "cs_separation es 0 div ucast (?n - 1) * 2"
  let ?acc = "cs_close_separation ?tA es 0"
  have "unat ?acc < 2 ^ 46"
  proof (cases "es = []")
    case True
    then show ?thesis by simp
  next
    case False
    then have last: "unat (ev_ts (last es)) < 2 ^ 46" using rng by (simp add: in_range_def)
    then show ?thesis
      using close_separation_bound [OF g(6) rng False, of 0 ?tA] by simp
  qed
  then have "unat (?acc * 3) = unat ?acc * 3"
    by (subst unat_mult_no_wrap) simp_all
  with \<open>unat ?acc < 2 ^ 46\<close> have w: "1 \<le> unat (max (?acc * 3) 1)" "unat (max (?acc * 3) 1) < 2 ^ 48"
    by (auto simp: max_def word_le_nat_alt)
  have "cs_CalculateNewWidth s = Some (max (?acc * 3) 1, ?s3)"
    using False g(1) by (simp add: cs_CalculateNewWidth_def Let_def)
  then show ?thesis using w core3 c3 fr by auto
qed

lemma foldl_foldl_concat: "foldl (foldl f) s xss = foldl f s (concat xss)"
  by (induction xss arbitrary: s) simp_all

lemma Init_empty:
  assumes "1 \<le> unat n" and "unat n \<le> 65534" and "1 \<le> unat w" and "unat w < 2 ^ 48"
  shows "cal_size_ok (cs_Init s n w p) \<and> cal_events_ok (cs_Init s n w p) \<and>
    cs_contents (cs_Init s n w p) = {#} \<and> cs_lastPrio (cs_Init s n w p) = p \<and>
    cs_qSize (cs_Init s n w p) = cs_qSize s \<and> cs_reverse (cs_Init s n w p) = cs_reverse s \<and>
    cs_lastBucket (cs_Init s n w p) = cs_Hash (cs_Init s n w p) p \<and>
    cs_bucketTop (cs_Init s n w p) = (p div w + 1) * w \<and> cs_width (cs_Init s n w p) = w"
  using assms
  by (auto simp: cs_Init_def Let_def cal_size_ok_def cal_events_ok_def cs_contents_def cs_Hash_def)

lemma DoResize_correct:
  assumes core: "cal_core s" and sz: "1 \<le> unat n" "unat n \<le> 65534" "1 \<le> unat w" "unat w < 2 ^ 48"
  shows "cal_core (cs_DoResize s n w) \<and> cs_contents (cs_DoResize s n w) = cs_contents s \<and>
    cs_lastPrio (cs_DoResize s n w) = cs_lastPrio s \<and> cs_qSize (cs_DoResize s n w) = cs_qSize s \<and>
    cs_reverse (cs_DoResize s n w) = cs_reverse s"
proof -
  let ?i = "cs_Init s n w (cs_lastPrio s)"
  let ?t = "cs_DoResize s n w"
  note init = Init_empty [OF sz, of s "cs_lastPrio s"]
  have t: "?t = foldl cs_DoInsert ?i (concat (cs_buckets s))"
    by (simp add: cs_DoResize_def foldl_foldl_concat)
  have "\<forall>e\<in>set (concat (cs_buckets s)). in_range e"
    using core_in_range [OF core] by (simp add: cs_contents_def)
  from foldl_DoInsert_correct [OF _ _ this, of ?i] init
  have r: "cal_events_ok ?t" "cs_contents ?t = cs_contents s" "cal_size_ok ?t"
    by (simp_all add: t cs_contents_def)
  have H: "cs_Hash ?t = cs_Hash ?i" by (rule Hash_cong) (simp_all add: t)
  have "cal_geometry ?t"
    using init cal_coreD(1) [OF core] r(3) unfolding cal_geometry_def H by (simp add: t)
  moreover have "none_late ?t"
    using cal_coreD(3) [OF core] r(2) init by (simp add: none_late_def t)
  ultimately show ?thesis using r init by (simp add: cal_core_def t)
qed

lemma Resize_correct:
  assumes "cal_core s" and "unat (cs_qSize s) = size (cs_contents s)"
    and "1 \<le> unat n" and "unat n \<le> 65534"
  shows "\<exists>s'. cs_Resize s n = Some s' \<and> cal_core s' \<and> cs_contents s' = cs_contents s \<and>
    cs_lastPrio s' = cs_lastPrio s \<and> cs_qSize s' = cs_qSize s"
proof -
  obtain w s1 where w: "cs_CalculateNewWidth s = Some (w, s1)" "1 \<le> unat w" "unat w < 2 ^ 48"
    "cal_core s1" "cs_contents s1 = cs_contents s" "same_frame s s1" "cs_lastPrio s1 = cs_lastPrio s"
    using CalculateNewWidth_correct [OF assms(1,2)] by blast
  from DoResize_correct [OF w(4) assms(3,4) w(2,3)] w show ?thesis
    by (simp add: cs_Resize_def same_frame_def)
qed

lemma ResizeUp_correct:
  assumes "cal_core s" and "unat (cs_qSize s) = size (cs_contents s)"
  shows "\<exists>s'. cs_ResizeUp s = Some s' \<and> cal_core s' \<and> cs_contents s' = cs_contents s \<and>
    cs_lastPrio s' = cs_lastPrio s \<and> cs_qSize s' = cs_qSize s"
proof (cases "cs_qSize s > cs_nBuckets s * 2 \<and> cs_nBuckets s < 32768")
  case True
  then have "nB s < 32768" by (simp add: word_less_nat_alt)
  moreover from this have "unat (cs_nBuckets s * 2) = nB s * 2"
    by (subst unat_mult_no_wrap) simp_all
  ultimately show ?thesis
    using Resize_correct [OF assms, of "cs_nBuckets s * 2"] True
      cal_size_okD(1) [OF cal_coreD(4) [OF assms(1)]]
    by (simp add: cs_ResizeUp_def)
next
  case False
  then show ?thesis using assms unfolding cs_ResizeUp_def by (simp only: if_False) blast
qed

lemma ResizeDown_correct:
  assumes "cal_core s" and "unat (cs_qSize s) = size (cs_contents s)"
  shows "\<exists>s'. cs_ResizeDown s = Some s' \<and> cal_core s' \<and> cs_contents s' = cs_contents s \<and>
    cs_lastPrio s' = cs_lastPrio s \<and> cs_qSize s' = cs_qSize s"
proof (cases "cs_qSize s < cs_nBuckets s div 2")
  case True
  have "unat (cs_nBuckets s div 2) = nB s div 2" by (simp add: unat_div)
  then show ?thesis
    using Resize_correct [OF assms, of "cs_nBuckets s div 2"] True
      cal_size_okD(5) [OF cal_coreD(4) [OF assms(1)]]
    by (simp add: cs_ResizeDown_def word_less_nat_alt)
next
  case False
  then show ?thesis using assms unfolding cs_ResizeDown_def by (simp only: if_False) blast
qed


section \<open>The contract\<close>

text \<open>
  The size counter cannot wrap: stored uids are distinct, and \<open>0\<close> (\<open>EventId::INVALID\<close>)
  is not one of them.
\<close>

definition cs_inv :: "calendar_scheduler \<Rightarrow> bool" where
  "cs_inv s \<longleftrightarrow> cal_core s \<and> unat (cs_qSize s) = size (cs_contents s) \<and>
     unique_uids (cs_contents s) \<and> 0 \<notin># uids (cs_contents s)"

definition cs_accepts :: "calendar_scheduler \<Rightarrow> event \<Rightarrow> bool" where
  "cs_accepts s e \<longleftrightarrow> cs_lastPrio s \<le> ev_ts e \<and> in_range e \<and> ev_uid e \<noteq> 0"

lemma size_unique_uids:
  assumes "unique_uids M" and "0 \<notin># uids M"
  shows "size M < 2 ^ 32"
proof -
  have "count (uids M) u \<le> 1" for u
    using assms(1) by (simp add: unique_uids_def)
  then have "size (uids M) \<le> (\<Sum>u\<in>set_mset (uids M). 1)"
    unfolding size_multiset_overloaded_eq by (intro sum_mono) simp
  also have "\<dots> = card (set_mset (uids M))" by simp
  also have "\<dots> \<le> card (UNIV - {0 :: u32})"
  proof (rule card_mono)
    show "set_mset (uids M) \<subseteq> UNIV - {0}" using assms(2) by blast
  qed simp
  also have "\<dots> = 2 ^ 32 - 1" by (simp add: card_Diff_singleton card_word)
  finally show ?thesis by (simp add: uids_def)
qed

lemma core_qSize [simp]:
  "cs_contents (s\<lparr>cs_qSize := x\<rparr>) = cs_contents s"
  "cal_core (s\<lparr>cs_qSize := x\<rparr>) = cal_core s"
  by (simp_all add: cs_contents_def cal_core_def cal_geometry_def cal_size_ok_def cal_events_ok_def
      none_late_def slot_def cs_Hash_def)

lemma unat_pred: "x \<noteq> 0 \<Longrightarrow> unat (x - 1) = unat x - 1" for x :: "'a::len word"
  by (simp add: unat_minus_one)

lemma cs_Insert_correct:
  assumes inv: "cs_inv s" and acc: "cs_accepts s e" and new: "ev_uid e \<notin># uids (cs_contents s)"
  shows "\<exists>s'. cs_Insert s e = Some s' \<and> cs_inv s' \<and> cs_contents s' = add_mset e (cs_contents s) \<and>
    cs_lastPrio s' = cs_lastPrio s"
proof -
  let ?t = "cs_DoInsert s e"
  have core: "cal_core s" using inv by (simp add: cs_inv_def)
  note c = cal_coreD [OF core]
  have i: "cal_events_ok ?t" "cs_contents ?t = add_mset e (cs_contents s)" "cal_size_ok ?t"
    using DoInsert_correct [OF c(4,2)] acc by (simp_all add: cs_accepts_def)
  have H: "cs_Hash ?t = cs_Hash s" by (rule Hash_cong) simp_all
  have ct: "cal_core ?t"
    using i c acc unfolding cal_core_def cal_geometry_def H
    by (auto simp: none_late_def cs_accepts_def)
  have u: "unique_uids (cs_contents ?t)" "0 \<notin># uids (cs_contents ?t)"
    using inv new acc by (auto simp: i cs_inv_def unique_uids_add cs_accepts_def)
  then have "size (cs_contents ?t) < 2 ^ 32" by (rule size_unique_uids)
  then have q: "unat (cs_qSize ?t + 1) = size (cs_contents ?t)"
    using inv by (subst unat_succ_no_wrap) (simp_all add: cs_inv_def i)
  then show ?thesis
    using ResizeUp_correct [of "?t\<lparr>cs_qSize := cs_qSize ?t + 1\<rparr>"] ct u i
    by (auto simp: cs_Insert_def Let_def cs_inv_def)
qed

lemma inv_nonempty:
  "cs_inv s \<Longrightarrow> cs_contents s \<noteq> {#} \<Longrightarrow> cs_qSize s \<noteq> 0"
  by (auto simp: cs_inv_def)

text \<open>Taking one event out and shrinking the calendar.\<close>

lemma take_out:
  assumes inv: "cs_inv s" and ne: "cs_contents s \<noteq> {#}"
    and t: "cal_core t" "cs_contents s = add_mset e (cs_contents t)" "cs_qSize t = cs_qSize s"
  shows "\<exists>s'. cs_ResizeDown (t\<lparr>cs_qSize := cs_qSize t - 1\<rparr>) = Some s' \<and> cs_inv s' \<and>
    cs_contents s' = cs_contents t \<and> cs_lastPrio s' = cs_lastPrio t"
proof -
  let ?u = "t\<lparr>cs_qSize := cs_qSize t - 1\<rparr>"
  have q: "unat (cs_qSize ?u) = size (cs_contents ?u)"
    using inv t(2,3) inv_nonempty [OF inv ne] by (simp add: cs_inv_def unat_pred)
  have "unique_uids (cs_contents t)" "0 \<notin># uids (cs_contents t)"
    using inv t(2) by (auto simp: cs_inv_def unique_uids_add)
  then show ?thesis
    using ResizeDown_correct [OF _ q] t(1) q by (auto simp: cs_inv_def)
qed

lemma cs_RemoveNext_correct:
  assumes inv: "cs_inv s" and ne: "cs_contents s \<noteq> {#}"
  shows "\<exists>e s'. cs_PeekNext s = Some e \<and> cs_RemoveNext s = Some (e, s') \<and> cs_inv s' \<and>
    cs_contents s = add_mset e (cs_contents s') \<and> (\<forall>x\<in>#cs_contents s. rank e \<le> rank x) \<and>
    cs_lastPrio s' = ev_ts e"
proof -
  have core: "cal_core s" using inv by (simp add: cs_inv_def)
  have q: "cs_qSize s \<noteq> 0" by (rule inv_nonempty [OF inv ne])
  obtain i e where r: "cs_DoRemoveNext s = Some (e, delivered s i e)" "i < nB s"
    "cs_buckets s ! i \<noteq> []" "e = cs_NextEvent (cs_reverse s) (cs_buckets s ! i)"
    "\<forall>x\<in>#cs_contents s. rank e \<le> rank x"
    using DoRemoveNext_correct [OF core ne q] by blast
  let ?t = "delivered s i e"
  from delivered_core [OF core r(2-5)]
  have t: "cal_core ?t" "cs_contents s = add_mset e (cs_contents ?t)" by simp_all
  have f: "cs_qSize ?t = cs_qSize s" "cs_lastPrio ?t = ev_ts e" by (simp_all add: delivered_def)
  obtain s' where s': "cs_ResizeDown (?t\<lparr>cs_qSize := cs_qSize ?t - 1\<rparr>) = Some s'" "cs_inv s'"
    "cs_contents s' = cs_contents ?t" "cs_lastPrio s' = cs_lastPrio ?t"
    using take_out [OF inv ne t f(1)] by blast
  obtain p where p: "cs_PeekNext s = Some p" "p \<in># cs_contents s" "\<forall>x\<in>#cs_contents s. rank p \<le> rank x"
    using PeekNext_correct [OF core ne q] by blast
  have "e \<in># cs_contents s" using t(2) by simp
  then have "rank p = rank e" using p(2,3) r(5) by (simp add: order_antisym)
  then have "p = e"
    using inv p(2) \<open>e \<in># cs_contents s\<close> unique_uids_eq [of "cs_contents s" p e]
    by (simp add: cs_inv_def rank_eq_iff)
  moreover have "cs_RemoveNext s = Some (e, s')"
    using q r(1) s'(1) by (simp add: cs_RemoveNext_def cs_IsEmpty_def)
  ultimately show ?thesis using p(1) s' t(2) f(2) r(5) by auto
qed

lemma cs_Remove_correct:
  assumes inv: "cs_inv s" and mem: "e \<in># cs_contents s"
  shows "\<exists>s'. cs_Remove s e = Some s' \<and> cs_inv s' \<and> cs_contents s' = cs_contents s - {#e#} \<and>
    cs_lastPrio s' = cs_lastPrio s"
proof -
  have core: "cal_core s" and uu: "unique_uids (cs_contents s)"
    using inv by (simp_all add: cs_inv_def)
  note c = cal_coreD [OF core]
  note l = cal_size_okD(2) [OF c(4)]
  have ne: "cs_contents s \<noteq> {#}" using mem by auto
  let ?i = "unat (cs_Hash s (ev_ts e))"
  have i: "?i < nB s" "?i = slot s (ev_ts e) mod nB s"
    using cal_size_okD [OF c(4)] Hash_less [of s] unat_Hash [of s] by simp_all
  have "e \<in> set (cs_buckets s ! ?i)" using in_contents_bucket [OF l c(2) mem] i(2) by simp
  moreover have "z = e" if "z \<in> set (cs_buckets s ! ?i)" "ev_uid z = ev_uid e" for z
    using unique_uids_eq [OF uu _ mem that(2)] bucket_in_contents [OF _ that(1)] i(1) l by simp
  ultimately obtain b where b: "erase_first (\<lambda>x. ev_uid x = ev_uid e) (cs_buckets s ! ?i) = Some (e, b)"
    using erase_first_the_element [of e "cs_buckets s ! ?i" "\<lambda>x. ev_uid x = ev_uid e"] by blast
  note eb = erase_first_Some [OF b]
  let ?t = "s\<lparr>cs_buckets := (cs_buckets s)[?i := b]\<rparr>"
  have cont: "cs_contents s = add_mset e (cs_contents ?t)"
    using contents_update [of ?i s ?t b] i(1) l eb by simp
  have ev: "cal_events_ok ?t"
  proof (rule cal_events_ok_update [OF c(2) l])
    show "bucket_sorted (cs_reverse s) b"
      using cal_events_okD(1) [OF c(2) i(1)] b by (rule bucket_erase_sorted)
    show "slot s (ev_ts x) mod nB s = ?i \<and> unat (ev_ts x) < 2 ^ 46" if "x \<in> set b" for x
    proof -
      have "x \<in> set (cs_buckets s ! ?i)"
        using that eb by (metis insert_iff set_mset_add_mset_insert set_mset_mset)
      then show ?thesis using cal_events_okD(2,3) [OF c(2) i(1)] by blast
    qed
  qed simp_all
  have H: "cs_Hash ?t = cs_Hash s" by (rule Hash_cong) simp_all
  have "cal_core ?t"
    using c ev cont unfolding cal_core_def cal_geometry_def H
    by (auto simp: cal_size_ok_def none_late_def)
  from take_out [OF inv ne this cont] obtain s' where
    s': "cs_ResizeDown (?t\<lparr>cs_qSize := cs_qSize ?t - 1\<rparr>) = Some s'" "cs_inv s'"
      "cs_contents s' = cs_contents ?t" "cs_lastPrio s' = cs_lastPrio ?t" by auto
  have "cs_Remove s e = Some s'"
    using b s'(1) inv_nonempty [OF inv ne] by (simp add: cs_Remove_def cs_IsEmpty_def Let_def)
  with s' cont show ?thesis by simp
qed

lemma cs_create_inv: "cs_inv (cs_create rv)" and cs_create_empty: "cs_contents (cs_create rv) = {#}"
proof -
  let ?i = "cs_Init \<lparr>cs_buckets = [], cs_nBuckets = 0, cs_width = 0, cs_lastBucket = 0,
     cs_bucketTop = 0, cs_lastPrio = 0, cs_qSize = 0, cs_reverse = rv\<rparr> 2 1 0"
  note init = Init_empty [of 2 1 "\<lparr>cs_buckets = [], cs_nBuckets = 0, cs_width = 0,
    cs_lastBucket = 0, cs_bucketTop = 0, cs_lastPrio = 0, cs_qSize = 0, cs_reverse = rv\<rparr>" 0]
  have "cal_core ?i" using init by (simp add: cal_core_def cal_geometry_def none_late_def)
  then show "cs_inv (cs_create rv)" and "cs_contents (cs_create rv) = {#}"
    using init by (simp_all add: cs_create_def cs_inv_def)
qed

lemma cs_create_accepts: "cs_accepts (cs_create rv) e \<longleftrightarrow> in_range e \<and> ev_uid e \<noteq> 0"
  by (simp add: cs_accepts_def cs_create_def cs_Init_def Let_def)

interpretation calendar_sched: removable_event_queue calendar_vtable "cs_create rv" cs_inv
  cs_contents cs_accepts
  for rv
proof (unfold_locales, goal_cases)
  case 1 show ?case by (rule cs_create_inv)
next
  case 2 show ?case by (rule cs_create_empty)
next
  case (3 s) then show ?case by (simp add: cs_inv_def)
next
  case (4 s e)
  then show ?case using cs_Insert_correct [OF 4] by (auto simp: cs_accepts_def fun_eq_iff)
next
  case (5 s) then show ?case by (auto simp: cs_IsEmpty_def cs_inv_def unat_0_iff)
next
  case (6 s)
  then show ?case using cs_RemoveNext_correct [OF 6] by (fastforce simp: cs_accepts_def)
next
  case (7 s) then show ?case using cs_RemoveNext_correct [OF 7] by auto
next
  case (8 s e)
  then show ?case using cs_Remove_correct [OF 8] by (auto simp: cs_accepts_def fun_eq_iff)
qed

end
