(* ===== verification/Schedulers.thy ===== *)
theory Schedulers
  imports Simulator Priority_Queue_Scheduler Heap_Scheduler Calendar_Scheduler
begin

text \<open>
  What the five schedulers have in common: any legal sequence of calls of the
  \<open>ns3::Scheduler\<close> interface is answered by each of them as by one sorted list, so that they
  can be exchanged, also during a simulation (\<open>Simulator::SetScheduler\<close>). \<open>HeapScheduler::Remove\<close> is
  the exception; what it does is stated here too.
\<close>

section \<open>Traces of calls\<close>

datatype sched_op = OpInsert event | OpIsEmpty | OpPeekNext | OpRemoveNext | OpRemove event

datatype sched_obs = ObsUnit | ObsBool bool | ObsEvent event

fun sched_step :: "'s scheduler \<Rightarrow> sched_op \<Rightarrow> 's \<Rightarrow> (sched_obs \<times> 's) option" where
  "sched_step S (OpInsert e) s = map_option (Pair ObsUnit) (Insert S s e)"
| "sched_step S OpIsEmpty s = Some (ObsBool (IsEmpty S s), s)"
| "sched_step S OpPeekNext s = map_option (\<lambda>e. (ObsEvent e, s)) (PeekNext S s)"
| "sched_step S OpRemoveNext s = map_option (\<lambda>(e, s'). (ObsEvent e, s')) (RemoveNext S s)"
| "sched_step S (OpRemove e) s = map_option (Pair ObsUnit) (Remove S s e)"

fun sched_trace :: "'s scheduler \<Rightarrow> sched_op list \<Rightarrow> 's \<Rightarrow> sched_obs list option" where
  "sched_trace S [] s = Some []"
| "sched_trace S (a # as) s = do {
     (r, s') \<leftarrow> sched_step S a s;
     rs \<leftarrow> sched_trace S as s';
     Some (r # rs) }"

text \<open>
  The specification: the pending events in the order of their keys. A trace is legal when uids
  are fresh, only pending events are removed and \<open>PeekNext\<close> and \<open>RemoveNext\<close> are called on
  a non-empty scheduler; an inserted event satisfies \<open>P\<close> and is no older than the last
  one delivered (at time \<open>t\<close>).
\<close>

fun spec_step :: "sched_op \<Rightarrow> event list \<Rightarrow> sched_obs \<times> event list" where
  "spec_step (OpInsert e) es = (ObsUnit, insort_key rank e es)"
| "spec_step OpIsEmpty es = (ObsBool (es = []), es)"
| "spec_step OpPeekNext es = (ObsEvent (hd es), es)"
| "spec_step OpRemoveNext es = (ObsEvent (hd es), tl es)"
| "spec_step (OpRemove e) es = (ObsUnit, remove1 e es)"

fun spec_trace :: "sched_op list \<Rightarrow> event list \<Rightarrow> sched_obs list" where
  "spec_trace [] es = []"
| "spec_trace (a # as) es = (let (r, es') = spec_step a es in r # spec_trace as es')"

fun op_legal :: "(event \<Rightarrow> bool) \<Rightarrow> sched_op \<Rightarrow> event list \<Rightarrow> u64 \<Rightarrow> bool" where
  "op_legal P (OpInsert e) es t \<longleftrightarrow> P e \<and> t \<le> ev_ts e \<and> (\<forall>x\<in>set es. ev_uid x \<noteq> ev_uid e)"
| "op_legal P OpIsEmpty es t \<longleftrightarrow> True"
| "op_legal P OpPeekNext es t \<longleftrightarrow> es \<noteq> []"
| "op_legal P OpRemoveNext es t \<longleftrightarrow> es \<noteq> []"
| "op_legal P (OpRemove e) es t \<longleftrightarrow> e \<in> set es"

fun trace_legal :: "(event \<Rightarrow> bool) \<Rightarrow> sched_op list \<Rightarrow> event list \<Rightarrow> u64 \<Rightarrow> bool" where
  "trace_legal P [] es t \<longleftrightarrow> True"
| "trace_legal P (a # as) es t \<longleftrightarrow> op_legal P a es t \<and>
     trace_legal P as (snd (spec_step a es)) (if a = OpRemoveNext then ev_ts (hd es) else t)"

lemma ranked_head:
  assumes "sorted (map rank es)" and "unique_uids (mset es)" and "mset es = add_mset e M"
    and "\<forall>x\<in>set es. rank e \<le> rank x"
  shows "hd es = e \<and> mset (tl es) = M"
proof -
  obtain x xs where es: "es = x # xs" using assms(3) by (cases es) auto
  have e: "e \<in> set es" using assms(3) by (metis set_mset_mset union_single_eq_member)
  have "rank x \<le> rank e" using assms(1) e es by auto
  moreover have "rank e \<le> rank x" using assms(4) es by simp
  ultimately have "rank x = rank e" by (rule order_antisym)
  then have "ev_uid x = ev_uid e" by (simp add: rank_eq_iff)
  then have "x = e" using unique_uids_eq [OF assms(2), of x e] e es by simp
  with es assms(3) show ?thesis by simp
qed

lemma sorted_tl_ranks: "sorted (map rank es) \<Longrightarrow> sorted (map rank (tl es))"
  by (cases es) simp_all

lemma sorted_remove1_ranks: "sorted (map rank es) \<Longrightarrow> sorted (map rank (remove1 e es))"
  by (simp add: sorted_map_remove1)

context removable_event_queue
begin

definition models :: "(event \<Rightarrow> bool) \<Rightarrow> event list \<Rightarrow> u64 \<Rightarrow> 'a \<Rightarrow> bool" where
  "models P es t s \<longleftrightarrow> inv s \<and> contents s = mset es \<and> sorted (map rank es) \<and>
     (\<forall>x\<in>set es. t \<le> ev_ts x) \<and> (\<forall>x. P x \<and> t \<le> ev_ts x \<longrightarrow> accepts s x)"

lemma modelsD:
  assumes "models P es t s"
  shows "inv s" "contents s = mset es" "sorted (map rank es)"
    "x \<in> set es \<Longrightarrow> t \<le> ev_ts x" "P x \<Longrightarrow> t \<le> ev_ts x \<Longrightarrow> accepts s x"
  using assms by (auto simp: models_def)

lemma head_refines:
  assumes "models P es t s" and "es \<noteq> []"
  shows "\<exists>s'. RemoveNext S s = Some (hd es, s') \<and> PeekNext S s = Some (hd es) \<and>
    models P (tl es) (ev_ts (hd es)) s'"
proof -
  note i = modelsD [OF assms(1)]
  have ne: "contents s \<noteq> {#}" using assms(2) i(2) by simp
  from remove_next_law [OF i(1) ne] obtain e s' where
    e: "RemoveNext S s = Some (e, s')" "inv s'" "contents s = add_mset e (contents s')"
    "\<forall>x\<in>#contents s. rank e \<le> rank x" "\<forall>x. accepts s x \<and> ev_ts e \<le> ev_ts x \<longrightarrow> accepts s' x"
    by blast
  have all: "\<forall>x\<in>set es. rank e \<le> rank x" using e(4) unfolding i(2) set_mset_mset .
  have "unique_uids (mset es)" using inv_unique [OF i(1)] i(2) by simp
  from ranked_head [OF i(3) this _ all, of "contents s'"] e(3) i(2)
  have h: "hd es = e" "mset (tl es) = contents s'" by simp_all
  have mem: "e \<in> set es" using h(1) assms(2) by auto
  have "t \<le> ev_ts e" by (rule i(4) [OF mem])
  then have "accepts s' x" if "P x" "ev_ts e \<le> ev_ts x" for x
    using that i(5) e(5) order_trans by blast
  moreover have "ev_ts e \<le> ev_ts x" if "x \<in> set (tl es)" for x
    using that all rank_le_ts list.set_sel(2) [OF assms(2)] by blast
  ultimately have "models P (tl es) (ev_ts e) s'"
    using h(2) e(2) sorted_tl_ranks [OF i(3)] by (simp add: models_def)
  moreover have "PeekNext S s = Some e" using peek_next_law [OF i(1) ne] e(1) by auto
  ultimately show ?thesis using e(1) h(1) by simp
qed

lemma step_refines:
  assumes "models P es t s" and "op_legal P a es t"
  shows "\<exists>s'. sched_step S a s = Some (fst (spec_step a es), s') \<and>
    models P (snd (spec_step a es)) (if a = OpRemoveNext then ev_ts (hd es) else t) s'"
proof (cases a)
  case (OpInsert e)
  note i = modelsD [OF assms(1)]
  have "ev_uid e \<notin># uids (contents s)" "accepts s e"
    using assms(2) i(2,5) OpInsert by (auto simp: in_uids)
  with insert_law [OF i(1)] obtain s' where
    "Insert S s e = Some s'" "inv s'" "contents s' = add_mset e (contents s)" "accepts s' = accepts s"
    by blast
  with OpInsert i assms(2) show ?thesis
    by (auto simp: models_def sorted_insort_key set_insort_key)
next
  case OpIsEmpty
  with assms(1) is_empty_law [OF modelsD(1) [OF assms(1)]] modelsD(2) [OF assms(1)] show ?thesis
    by simp
next
  case OpPeekNext
  with head_refines [OF assms(1)] assms show ?thesis by auto
next
  case OpRemoveNext
  with head_refines [OF assms(1)] assms(2) show ?thesis by auto
next
  case (OpRemove e)
  note i = modelsD [OF assms(1)]
  have "e \<in># contents s" using assms(2) i(2) OpRemove by simp
  from remove_law [OF i(1) this] obtain s' where
    "Remove S s e = Some s'" "inv s'" "contents s' = contents s - {#e#}" "accepts s' = accepts s"
    by blast
  moreover have "\<forall>x\<in>set (remove1 e es). t \<le> ev_ts x" using i(4) notin_set_remove1 by metis
  ultimately show ?thesis using OpRemove i sorted_remove1_ranks [OF i(3)]
    by (auto simp: models_def)
qed

lemma trace_refines:
  "models P es t s \<Longrightarrow> trace_legal P as es t \<Longrightarrow> sched_trace S as s = Some (spec_trace as es)"
proof (induction as arbitrary: es t s)
  case (Cons a as)
  from step_refines [OF Cons.prems(1)] Cons.prems(2) obtain s' where
    s': "sched_step S a s = Some (fst (spec_step a es), s')"
    "models P (snd (spec_step a es)) (if a = OpRemoveNext then ev_ts (hd es) else t) s'"
    by auto
  with Cons.IH [OF s'(2)] Cons.prems(2) show ?case by (simp add: Let_def case_prod_beta)
qed simp

lemma trace_from_empty:
  assumes "trace_legal P as [] 0" and "\<And>x. P x \<Longrightarrow> accepts empty x"
  shows "sched_trace S as empty = Some (spec_trace as [])"
  by (rule trace_refines [OF _ assms(1)])
    (use assms(2) in \<open>simp add: models_def inv_empty contents_empty\<close>)

end

section \<open>The schedulers against the specification\<close>

text \<open>A few events for the examples: time stamp and uid.\<close>

definition demo_event :: "nat \<Rightarrow> nat \<Rightarrow> event" where
  "demo_event t u = \<lparr>impl = u, key = \<lparr>m_ts = word_of_nat t, m_uid = word_of_nat u, m_context = 0\<rparr>\<rparr>"

lemma demo_event_simps [simp]:
  "ev_ts (demo_event t u) = word_of_nat t" "ev_uid (demo_event t u) = word_of_nat u"
  by (simp_all add: demo_event_def)

lemma demo_event_rank [simp]: "rank (demo_event t u) = (word_of_nat t, word_of_nat u)"
  by (simp add: demo_event_def key_rank_def)

definition demo_ops :: "sched_op list" where
  "demo_ops = [OpInsert (demo_event 9 5), OpInsert (demo_event 3 6), OpPeekNext, OpInsert (demo_event 9 4),
     OpRemove (demo_event 9 5), OpRemoveNext, OpRemoveNext, OpIsEmpty]"



text \<open>
  C6: The calendar queue implements the same specification, in either order of its buckets, for
  events in the range of its 64 bit arithmetic, none older than the last one delivered: resizing
  the calendar, the year scan and the direct search never change an answer.
\<close>

theorem calendar_refines_sorted_list:
  assumes "trace_legal (\<lambda>e. in_range e \<and> ev_uid e \<noteq> 0) ops [] 0"
  shows "sched_trace calendar_vtable ops (cs_create rv) = Some (spec_trace ops [])"
  by (rule calendar_sched.trace_from_empty [OF assms]) (simp add: cs_create_accepts)

theorem calendar_refines_sorted_list_witness:
  "sched_trace calendar_vtable demo_ops (cs_create True) = Some [ObsUnit, ObsUnit, ObsEvent (demo_event 3 6),
     ObsUnit, ObsUnit, ObsEvent (demo_event 3 6), ObsEvent (demo_event 9 4), ObsBool True]"
proof -
  have "trace_legal (\<lambda>e. in_range e \<and> ev_uid e \<noteq> 0) demo_ops [] 0"
    by (simp add: demo_ops_def demo_event_def key_rank_def in_range_def)
  from calendar_refines_sorted_list [OF this] show ?thesis
    by (simp add: demo_ops_def demo_event_def key_rank_def)
qed

text \<open>
  C21: All five schedulers deliver a batch of events in the same order, that of \<open>EventKey\<close>,
  whatever the order of insertion.
\<close>

theorem schedulers_deliver_alike:
  assumes "distinct (map ev_uid es)" and "\<forall>e\<in>set es. in_range e \<and> ev_uid e \<noteq> 0"
  shows "insert_and_drain list_vtable ls_create es = Some (sort_key rank es) \<and>
    insert_and_drain map_vtable ms_create es = Some (sort_key rank es) \<and>
    insert_and_drain pq_vtable pq_create es = Some (sort_key rank es) \<and>
    insert_and_drain heap_vtable hs_create es = Some (sort_key rank es) \<and>
    insert_and_drain calendar_vtable (cs_create rv) es = Some (sort_key rank es)"
  using assms list_sched.insert_and_drain_sorts map_sched.insert_and_drain_sorts
    pq_sched.insert_and_drain_sorts heap_sched.insert_and_drain_sorts
    calendar_sched.insert_and_drain_sorts [of es rv] by (simp add: cs_create_accepts)

theorem schedulers_deliver_alike_witness:
  "insert_and_drain calendar_vtable (cs_create False) [demo_event 7 3, demo_event 7 2, demo_event 1 4] =
     insert_and_drain heap_vtable hs_create [demo_event 7 3, demo_event 7 2, demo_event 1 4]"
  using schedulers_deliver_alike [of "[demo_event 7 3, demo_event 7 2, demo_event 1 4]" False]
  by (simp add: in_range_def)

section \<open>HeapScheduler::Remove\<close>

text \<open>
  C15: \<open>HeapScheduler::Remove\<close> finds and takes out the event and nothing else, but leaves a heap
  exactly when the last event, moved into the hole, is no less than the parent of the hole (or the
  hole is the last slot): the code sifts it only downwards.
\<close>

theorem heap_remove_keeps_heap_iff:
  assumes "hs_inv s" and "e \<in># hs_contents s"
  shows "\<exists>i s'. 1 \<le> i \<and> i < length (hs_heap s) \<and> hs_heap s ! i = e \<and> hs_Remove s e = Some s' \<and>
    hs_contents s' = hs_contents s - {#e#} \<and> (hs_inv s' \<longleftrightarrow> fits (hs_heap s) i)"
  using hs_Remove_general [OF assms] by blast

theorem heap_remove_keeps_heap_iff_witness:
  "\<exists>s'. hs_Remove \<lparr>hs_heap = [null_event, demo_event 1 1, demo_event 4 4, demo_event 2 2]\<rparr> (demo_event 4 4) =
     Some s' \<and> hs_inv s'"
proof -
  let ?s = "\<lparr>hs_heap = [null_event, demo_event 1 1, demo_event 4 4, demo_event 2 2]\<rparr>"
  have "heap_ordered (hs_heap ?s)"
    unfolding heap_ordered_def
  proof (intro allI impI)
    fix j :: nat assume "2 \<le> j \<and> j < length (hs_heap ?s)"
    then have "j = 2 \<or> j = 3" by auto
    then show "rank (hs_heap ?s ! (j div 2)) \<le> rank (hs_heap ?s ! j)"
      by (elim disjE) (simp_all add: demo_event_def key_rank_def)
  qed
  then have inv: "hs_inv ?s" by (simp add: hs_inv_def demo_event_def)
  have mem: "demo_event 4 4 \<in># hs_contents ?s" by (simp add: hs_contents_def)
  from heap_remove_keeps_heap_iff [OF inv mem] obtain i s' where s': "1 \<le> i" "i < 4"
    "hs_heap ?s ! i = demo_event 4 4" "hs_Remove ?s (demo_event 4 4) = Some s'"
    "hs_inv s' \<longleftrightarrow> fits (hs_heap ?s) i" by auto
  then have "i = 1 \<or> i = 2 \<or> i = 3" by auto
  with s'(3) have "i = 2" by (elim disjE) (simp_all add: demo_event_def)
  then have "fits (hs_heap ?s) i" by (simp add: fits_def demo_event_def key_rank_def)
  with s' show ?thesis by blast
qed

text \<open>The events of the counterexample: time stamps 5, 3, 1, 7, 6, 4, 2.\<close>

definition heap_demo_events :: "event list" where
  "heap_demo_events = map (\<lambda>t. demo_event t t) [5, 3, 1, 7, 6, 4, 2]"

definition remove_then_drain :: "'s scheduler \<Rightarrow> 's \<Rightarrow> event list \<Rightarrow> event \<Rightarrow> event list option" where
  "remove_then_drain S s es e = do {
     s1 \<leftarrow> insert_all S es s;
     s2 \<leftarrow> Remove S s1 e;
     (out, _) \<leftarrow> drain S (length es - 1) s2;
     Some out }"

lemmas heap_eval = hs_create_def null_event_def hs_Insert_def hs_BottomUp_def hs_up_loop.simps
  heap_defs hs_Exch_def hs_Remove_def hs_find.simps hs_TopDown.simps hs_down_tail_def Let_def
  hs_RemoveNext_def hs_PeekNext_def option_simps nth_append nth_list_update demo_event_def key_rank_def

lemmas map_eval = ms_create_def ms_Insert_def ms_Remove_def ms_RemoveNext_def key_lt_def

text \<open>
  A removal that breaks the heap: of seven events with time stamps 1 to 7 the one of
  time 7 is removed, and the others are delivered in the order 1, 2, 4, 3, 5, 6. The map
  scheduler delivers them in order.
\<close>

lemma heap_remove_misorders:
  "remove_then_drain heap_vtable hs_create heap_demo_events (demo_event 7 7) =
     Some (map (\<lambda>t. demo_event t t) [1, 2, 4, 3, 5, 6]) \<and>
   remove_then_drain map_vtable ms_create heap_demo_events (demo_event 7 7) =
     Some (map (\<lambda>t. demo_event t t) [1, 2, 3, 4, 5, 6])"
  by (rule conjI) (simp_all add: remove_then_drain_def heap_demo_events_def heap_eval map_eval)

section \<open>Simulations and their scheduler\<close>

definition heap_demo_program :: "nat action" where
  "heap_demo_program =
     CallSchedule 5 5 (\<lambda>_. CallSchedule 3 3 (\<lambda>_. CallSchedule 1 1 (\<lambda>_. CallSchedule 7 7 (\<lambda>i.
     CallSchedule 6 6 (\<lambda>_. CallSchedule 4 4 (\<lambda>_. CallSchedule 2 2 (\<lambda>_. CallRemove i Finish)))))))"

definition run_program ::
  "'s scheduler \<Rightarrow> 's \<Rightarrow> nat action \<Rightarrow> (impl_ptr \<Rightarrow> nat action) \<Rightarrow> nat option" where
  "run_program S s a body = do {
     s1 \<leftarrow> run_action S a (sim_create s 0);
     s2 \<leftarrow> sim_Run S body s1;
     Some (world s2) }"

lemmas sim_eval = run_program_def sim_create_def sim_Schedule_def sim_enqueue_def time_add_def
  sim_Remove_def sim_IsExpired_def impl_Cancel_def id_event_def sim_Run_def
  sim_ProcessEventsWithContext_def sim_ProcessOneEvent_def impl_Invoke_def sim_loop.simps uid_defs
  hs_IsEmpty_def ms_IsEmpty_def


interpretation map_to_calendar: scheduler_change map_vtable ms_create ms_inv ms_contents "\<lambda>_ _. True"
  calendar_vtable "cs_create rv" cs_inv cs_contents cs_accepts
  for rv
  by unfold_locales

interpretation calendar_to_map: scheduler_change calendar_vtable "cs_create rv" cs_inv cs_contents
  cs_accepts map_vtable ms_create ms_inv ms_contents "\<lambda>_ _. True"
  for rv
  by unfold_locales

interpretation map_to_heap: scheduler_change map_vtable ms_create ms_inv ms_contents "\<lambda>_ _. True"
  heap_vtable hs_create hs_inv hs_contents "\<lambda>_ _. True"
  by unfold_locales

text \<open>
  C22: \<open>SetScheduler\<close> during a simulation loses, duplicates and changes nothing: from the map
  scheduler to the calendar queue and back, every pending event is kept, no assertion fails and
  the invariant of the simulation holds for the new scheduler.
\<close>

theorem set_scheduler_keeps_simulation:
  assumes "sim_inv ms_inv ms_contents D T U s"
    and "\<forall>e\<in>#ms_contents (m_events s). in_range e \<and> ev_uid e \<noteq> 0"
  shows "\<exists>s1 s2. sim_SetScheduler map_vtable calendar_vtable (cs_create rv) s = Some s1 \<and>
    sim_inv cs_inv cs_contents D T U s1 \<and> cs_contents (m_events s1) = ms_contents (m_events s) \<and>
    sim_SetScheduler calendar_vtable map_vtable ms_create s1 = Some s2 \<and>
    sim_inv ms_inv ms_contents D T U s2 \<and> ms_contents (m_events s2) = ms_contents (m_events s) \<and>
    m_currentTs s2 = m_currentTs s \<and> world s2 = world s"
proof -
  from map_to_calendar.set_scheduler_keeps [OF assms(1), of rv] assms(2) obtain s1 where
    s1: "sim_SetScheduler map_vtable calendar_vtable (cs_create rv) s = Some s1"
    "sim_inv cs_inv cs_contents D T U s1" "cs_contents (m_events s1) = ms_contents (m_events s)"
    "m_currentTs s1 = m_currentTs s" "world s1 = world s" by (auto simp: cs_create_accepts)
  from calendar_to_map.set_scheduler_keeps [OF s1(2)] obtain s2 where
    "sim_SetScheduler calendar_vtable map_vtable ms_create s1 = Some s2"
    "sim_inv ms_inv ms_contents D T U s2" "ms_contents (m_events s2) = cs_contents (m_events s1)"
    "m_currentTs s2 = m_currentTs s1" "world s2 = world s1" by auto
  with s1 show ?thesis by auto
qed

theorem set_scheduler_keeps_simulation_witness:
  "\<exists>s1. sim_SetScheduler map_vtable calendar_vtable (cs_create True) demo_state = Some s1 \<and>
    size (cs_contents (m_events s1)) = 2"
proof -
  have "\<forall>e\<in>#ms_contents (m_events demo_state). in_range e \<and> ev_uid e \<noteq> 0"
    by (simp add: demo_pending in_range_def)
  from set_scheduler_keeps_simulation [OF demo_inv this, of True] show ?thesis
    by (auto simp: demo_pending)
qed

end
