(* ===== verification/Cho.thy ===== *)
theory Cho
  imports Complex_Main Prelude
begin

text \<open>
  \<open>ns3::NrConditionalHandoverAlgorithm\<close>
  (src/contrib/nr/model/nr-conditional-handover-algorithm.cc), the conditional handover (CHO)
  state machine of the source gNB.

  The state holds the pending handover of each UE, the algorithm's own scheduled callbacks
  (\<open>cho_agenda\<close>, what \<open>Simulator::Schedule\<close> and \<open>EventId::Cancel\<close> did), the
  clock and the two traces. The gNB's RRC entity, the UE managers, the node list and the
  mobility models are not part of this file: they are the parameter \<open>cho_env\<close> over a state
  \<open>'r\<close>. Times are integers, in nanoseconds; the \<open>double\<close> thresholds are rationals (the
  attributes are multiples of half a dB, for which the sums are exact). The free text of the
  detailed trace is left out, its step names and time stamps are kept.
\<close>

section \<open>Data\<close>

record candidate_info =
  m_cellId :: u16
  m_rsrp :: u8

text \<open>An \<open>EventId\<close> is the number of the scheduled callback; \<open>0\<close> is the default \<open>EventId()\<close>.\<close>

record pending_cho =
  m_candidates :: "candidate_info list"
  m_servingRsrp :: u8
  m_measReportSentTime :: int
  m_measReportRecvTime :: int
  m_decisionStartTime :: int
  m_hoRequestSentTime :: int
  m_selectedTargetCellId :: u16
  m_selectedTargetRsrp :: u8
  m_selectedCandidateCount :: u16
  m_choCommandDelivered :: bool
  m_decisionEvent :: nat
  m_ackEvent :: nat
  m_choCommandDeliveryEvent :: nat
  m_randomAccessCompleteEvent :: nat
  m_lastComputedX2Delay :: int
  m_lastComputedServiceDelay :: int
  m_x2DelayByTarget :: "u16 \<Rightarrow> int option"

record neighbour_result =
  physCellId :: u16
  haveRsrpResult :: bool
  rsrpResult :: u8

record meas_results =
  measId :: u8
  pCellRsrp :: u8
  haveMeasResultNeighCells :: bool
  measResultListEutra :: "neighbour_result list"

text \<open>The literals passed to the two trace sources.\<close>

datatype cho_event_name =
    A3ConditionSatisfied | ChoPrepareStart | ChoCancelledConditionLeave
  | HoRequestSentToCandidates | HoRequestAckReceived | RrcReconfigurationWithChoPrepared
  | ChoStoredInUe | ChoExecutionConditionMet | ChoExecutionStart
  | TriggerHandoverCalled | TriggerHandoverSkipped | ChoPendingEntryRemoved

datatype cho_step_name =
    Step1_MR_TxByUe | Step1_MR_RxBySource | Step1_MR_ProcessedBySource | Step1_CandidateEvaluation
  | Step2_ChoDecisionCompleted | Step2_HoReq_TxBySource | Step2_HoReq_RxByTarget
  | Step2_HoAck_TxByTarget | Step2_AdmissionProcessedByTarget | Step2_AdmissionControlAndAck
  | Step3_ChoPreparedAtSource | Step3_RrcReconfigCho_TxBySource | Step3_RrcReconfigCho_RxByUe
  | Step3_UeReceivedChoCommand | Step3_ExecutionMonitoring | Step4_UeSelectionDecision
  | Step5_ExecutePreparedCho | Step5_RrcReconfigExec_TxBySource | Step5_RrcReconfigExec_RxByUe
  | Step5_RandomAccessComplete | Step6_7_PathSwitchAndCancelOthers

record cho_event =
  ce_timestampMs :: u64
  ce_rnti :: u16
  ce_name :: cho_event_name
  ce_targetCellId :: u16
  ce_servingRsrp :: u8
  ce_targetRsrp :: u8
  ce_candidateCount :: u16

record cho_detail =
  cd_timestampMs :: u64
  cd_rnti :: u16
  cd_step :: cho_step_name

datatype cho_handler = DecisionCompleted | PollPreparation | CommandDelivered

record cho_timer =
  tm_id :: nat
  tm_time :: int
  tm_handler :: cho_handler
  tm_rnti :: u16

record cho_config =
  m_measIds :: "u8 list"
  m_hysteresisDb :: rat
  m_a3OffsetDb :: rat
  m_choDecisionDelay :: int
  m_hoPreparationDelay :: int
  m_hoPreparationPerTargetOffset :: int
  m_pathSwitchDelay :: int
  m_enableHandoverExecution :: bool

record 'r cho =
  m_pendingCho :: "u16 \<Rightarrow> pending_cho option"
  cho_agenda :: "cho_timer list"
  cho_now :: int
  cho_next_id :: nat
  cho_rrc :: 'r
  m_choEventTrace :: "cho_event list"
  m_choDetailedTrace :: "cho_detail list"

section \<open>The environment\<close>

datatype net_device = GnbDevice u16 | UeDevice u64 | OtherDevice

record net_node =
  node_devices :: "net_device list"
  node_mobility :: "nat option"

text \<open>
  \<open>rrc_aggregated\<close> is whether \<open>GetObject<NrGnbRrc>()\<close> finds the RRC entity. \<open>to_time\<close> is
  the conversion \<open>Seconds(double)\<close>.
\<close>

record 'r cho_env =
  rrc_aggregated :: bool
  PrepareConditionalHandover :: "u16 \<Rightarrow> u16 \<Rightarrow> 'r \<Rightarrow> bool \<times> 'r"
  IsConditionalHandoverPrepared :: "'r \<Rightarrow> u16 \<Rightarrow> u16 \<Rightarrow> bool"
  ExecuteConditionalHandover :: "u16 \<Rightarrow> u16 \<Rightarrow> 'r \<Rightarrow> bool \<times> 'r"
  TriggerHandover :: "u16 \<Rightarrow> u16 \<Rightarrow> 'r \<Rightarrow> 'r"
  HasUeManager :: "'r \<Rightarrow> u16 \<Rightarrow> bool"
  UeComponentCarrierId :: "'r \<Rightarrow> u16 \<Rightarrow> u8"
  UeImsi :: "'r \<Rightarrow> u16 \<Rightarrow> u64"
  ComponentCarrierToCellId :: "'r \<Rightarrow> u8 \<Rightarrow> u16"
  NodeList :: "'r \<Rightarrow> net_node list"
  DistanceFrom :: "'r \<Rightarrow> nat \<Rightarrow> nat \<Rightarrow> rat"
  to_time :: "rat \<Rightarrow> int"

definition ComputeLightSpeedDelay :: "'r cho_env \<Rightarrow> rat \<Rightarrow> int" where
  "ComputeLightSpeedDelay env distanceMeters = to_time env (distanceMeters / 299792458)"

definition FindGnbNodeByCellId :: "'r cho_env \<Rightarrow> 'r \<Rightarrow> u16 \<Rightarrow> net_node option" where
  "FindGnbNodeByCellId env r cellId =
     List.find (\<lambda>n. GnbDevice cellId \<in> set (node_devices n)) (NodeList env r)"

definition FindUeNodeByRnti :: "'r cho_env \<Rightarrow> 'r \<Rightarrow> u16 \<Rightarrow> net_node option" where
  "FindUeNodeByRnti env r rnti =
     (if \<not> rrc_aggregated env \<or> \<not> HasUeManager env r rnti then None
      else List.find (\<lambda>n. UeDevice (UeImsi env r rnti) \<in> set (node_devices n)) (NodeList env r))"

text \<open>The delay between two nodes; zero when a node or its mobility model is missing.\<close>

definition link_delay :: "'r cho_env \<Rightarrow> 'r \<Rightarrow> net_node option \<Rightarrow> net_node option \<Rightarrow> int" where
  "link_delay env r a b =
     (case (a, b) of
        (Some na, Some nb) \<Rightarrow>
          (case (node_mobility na, node_mobility nb) of
             (Some ma, Some mb) \<Rightarrow> ComputeLightSpeedDelay env (DistanceFrom env r ma mb)
           | _ \<Rightarrow> 0)
      | _ \<Rightarrow> 0)"

definition ComputeServiceLinkDelay :: "'r cho_env \<Rightarrow> 'r \<Rightarrow> u16 \<Rightarrow> int" where
  "ComputeServiceLinkDelay env r rnti =
     (if \<not> rrc_aggregated env \<or> \<not> HasUeManager env r rnti then 0
      else let servingCellId = ComponentCarrierToCellId env r (UeComponentCarrierId env r rnti)
        in link_delay env r (FindGnbNodeByCellId env r servingCellId) (FindUeNodeByRnti env r rnti))"

definition ComputeX2PropagationDelay :: "'r cho_env \<Rightarrow> 'r \<Rightarrow> u16 \<Rightarrow> u16 \<Rightarrow> int" where
  "ComputeX2PropagationDelay env r rnti targetCellId =
     (if \<not> rrc_aggregated env \<or> \<not> HasUeManager env r rnti then 0
      else let sourceCellId = ComponentCarrierToCellId env r (UeComponentCarrierId env r rnti)
        in link_delay env r (FindGnbNodeByCellId env r sourceCellId)
             (FindGnbNodeByCellId env r targetCellId))"

section \<open>Traces and timers\<close>

text \<open>\<open>GetMilliSeconds\<close> truncates towards zero; the trace argument is unsigned.\<close>

definition ms_of :: "int \<Rightarrow> u64" where
  "ms_of t = word_of_int (if 0 \<le> t then t div 1000000 else - ((- t) div 1000000))"

definition EmitChoEventTrace ::
  "u16 \<Rightarrow> cho_event_name \<Rightarrow> u16 \<Rightarrow> u8 \<Rightarrow> u8 \<Rightarrow> u16 \<Rightarrow> 'r cho \<Rightarrow> 'r cho" where
  "EmitChoEventTrace rnti name tgt srv trg cnt s =
     s\<lparr>m_choEventTrace := m_choEventTrace s @
        [\<lparr>ce_timestampMs = ms_of (cho_now s), ce_rnti = rnti, ce_name = name, ce_targetCellId = tgt,
          ce_servingRsrp = srv, ce_targetRsrp = trg, ce_candidateCount = cnt\<rparr>]\<rparr>"

definition EmitChoDetailedTraceAt :: "u64 \<Rightarrow> u16 \<Rightarrow> cho_step_name \<Rightarrow> 'r cho \<Rightarrow> 'r cho" where
  "EmitChoDetailedTraceAt ts rnti name s =
     s\<lparr>m_choDetailedTrace := m_choDetailedTrace s @
        [\<lparr>cd_timestampMs = ts, cd_rnti = rnti, cd_step = name\<rparr>]\<rparr>"

definition EmitChoDetailedTrace :: "u16 \<Rightarrow> cho_step_name \<Rightarrow> 'r cho \<Rightarrow> 'r cho" where
  "EmitChoDetailedTrace rnti name s = EmitChoDetailedTraceAt (ms_of (cho_now s)) rnti name s"

text \<open>\<open>Simulator::Schedule\<close> of one of the algorithm's callbacks, \<open>IsPending\<close> and \<open>Cancel\<close>.\<close>

definition cho_schedule :: "int \<Rightarrow> cho_handler \<Rightarrow> u16 \<Rightarrow> 'r cho \<Rightarrow> nat \<times> 'r cho" where
  "cho_schedule delay h rnti s =
     (cho_next_id s,
      s\<lparr>cho_agenda := cho_agenda s @ [\<lparr>tm_id = cho_next_id s, tm_time = cho_now s + delay,
            tm_handler = h, tm_rnti = rnti\<rparr>],
        cho_next_id := cho_next_id s + 1\<rparr>)"

definition is_pending :: "nat \<Rightarrow> 'r cho \<Rightarrow> bool" where
  "is_pending i s \<longleftrightarrow> (\<exists>t\<in>set (cho_agenda s). tm_id t = i)"

definition cancel_timer :: "nat \<Rightarrow> 'r cho \<Rightarrow> 'r cho" where
  "cancel_timer i s =
     (if is_pending i s then s\<lparr>cho_agenda := filter (\<lambda>t. tm_id t \<noteq> i) (cho_agenda s)\<rparr> else s)"

definition cancel_timers :: "pending_cho \<Rightarrow> 'r cho \<Rightarrow> 'r cho" where
  "cancel_timers st s =
     cancel_timer (m_randomAccessCompleteEvent st)
       (cancel_timer (m_choCommandDeliveryEvent st)
         (cancel_timer (m_ackEvent st) (cancel_timer (m_decisionEvent st) s)))"

definition put_pending :: "u16 \<Rightarrow> pending_cho \<Rightarrow> 'r cho \<Rightarrow> 'r cho" where
  "put_pending rnti st s = s\<lparr>m_pendingCho := (m_pendingCho s)(rnti \<mapsto> st)\<rparr>"

definition erase_pending :: "u16 \<Rightarrow> 'r cho \<Rightarrow> 'r cho" where
  "erase_pending rnti s = s\<lparr>m_pendingCho := (m_pendingCho s)(rnti := None)\<rparr>"

section \<open>Selecting a target\<close>

text \<open>\<open>std::max_element\<close> with the comparison of the RSRPs: the first greatest element.\<close>

fun max_element_from :: "candidate_info \<Rightarrow> candidate_info list \<Rightarrow> candidate_info" where
  "max_element_from best [] = best"
| "max_element_from best (c # cs) =
     max_element_from (if m_rsrp best < m_rsrp c then c else best) cs"

definition ComputeBestTargetCellId :: "candidate_info list \<Rightarrow> u16" where
  "ComputeBestTargetCellId cs =
     (case cs of [] \<Rightarrow> 0 | c # cs' \<Rightarrow> m_cellId (max_element_from c cs'))"

definition ComputeBestTargetRsrp :: "candidate_info list \<Rightarrow> u8" where
  "ComputeBestTargetRsrp cs =
     (case cs of [] \<Rightarrow> 0 | c # cs' \<Rightarrow> m_rsrp (max_element_from c cs'))"

fun best_prepared ::
  "(u16 \<Rightarrow> bool) \<Rightarrow> candidate_info list \<Rightarrow> u16 \<Rightarrow> u8 \<Rightarrow> bool \<Rightarrow> u16" where
  "best_prepared prepared [] bestCellId bestRsrp found = bestCellId"
| "best_prepared prepared (c # cs) bestCellId bestRsrp found =
     (if \<not> prepared (m_cellId c) then best_prepared prepared cs bestCellId bestRsrp found
      else if \<not> found \<or> m_rsrp c > bestRsrp
      then best_prepared prepared cs (m_cellId c) (m_rsrp c) True
      else best_prepared prepared cs bestCellId bestRsrp found)"

definition ComputeBestPreparedTargetCellId ::
  "'r cho_env \<Rightarrow> 'r \<Rightarrow> u16 \<Rightarrow> candidate_info list \<Rightarrow> u16" where
  "ComputeBestPreparedTargetCellId env r rnti cs =
     (if \<not> rrc_aggregated env then 0
      else best_prepared (IsConditionalHandoverPrepared env r rnti) cs 0 0 False)"

fun ComputeTargetRsrpByCellId :: "candidate_info list \<Rightarrow> u16 \<Rightarrow> u8" where
  "ComputeTargetRsrpByCellId [] tgt = 0"
| "ComputeTargetRsrpByCellId (c # cs) tgt =
     (if m_cellId c = tgt then m_rsrp c else ComputeTargetRsrpByCellId cs tgt)"

definition IsValidNeighbour :: "u16 \<Rightarrow> bool" where
  "IsValidNeighbour cellId = True"

text \<open>The delay recorded for a target, else the last computed one, else one nanosecond.\<close>

definition target_x2_delay :: "pending_cho \<Rightarrow> u16 \<Rightarrow> int" where
  "target_x2_delay st cell =
     (case m_x2DelayByTarget st cell of
        Some d \<Rightarrow> d
      | None \<Rightarrow> (if m_lastComputedX2Delay st = 0 then 1 else m_lastComputedX2Delay st))"

definition ack_time :: "cho_config \<Rightarrow> pending_cho \<Rightarrow> nat \<Rightarrow> candidate_info \<Rightarrow> int" where
  "ack_time cfg st i c =
     (let x2Delay = target_x2_delay st (m_cellId c);
          hoReqRx = m_hoRequestSentTime st + x2Delay;
          offset = m_hoPreparationPerTargetOffset cfg * int i;
          admissionDone = hoReqRx + m_hoPreparationDelay cfg + offset
      in admissionDone + x2Delay)"

fun latest_ack :: "cho_config \<Rightarrow> pending_cho \<Rightarrow> nat \<Rightarrow> candidate_info list \<Rightarrow> int \<Rightarrow> int" where
  "latest_ack cfg st i [] maxAckRx = maxAckRx"
| "latest_ack cfg st i (c # cs) maxAckRx =
     latest_ack cfg st (Suc i) cs
       (if ack_time cfg st i c > maxAckRx then ack_time cfg st i c else maxAckRx)"

definition ComputeAllAckReceivedTime :: "cho_config \<Rightarrow> pending_cho \<Rightarrow> 'r cho \<Rightarrow> int" where
  "ComputeAllAckReceivedTime cfg st s =
     (if m_candidates st = [] then cho_now s
      else latest_ack cfg st 0 (m_candidates st) (m_hoRequestSentTime st))"

definition execution_threshold :: "cho_config \<Rightarrow> u8 \<Rightarrow> rat" where
  "execution_threshold cfg serving = of_nat (unat serving) + m_hysteresisDb cfg + m_a3OffsetDb cfg"

definition above :: "u8 \<Rightarrow> rat \<Rightarrow> bool" where
  "above rsrp threshold \<longleftrightarrow> of_nat (unat rsrp) > threshold"

section \<open>The handlers\<close>

definition CancelCho :: "u16 \<Rightarrow> 'r cho \<Rightarrow> 'r cho" where
  "CancelCho rnti s =
     (case m_pendingCho s rnti of
        None \<Rightarrow> s
      | Some st \<Rightarrow>
          erase_pending rnti (EmitChoEventTrace rnti ChoPendingEntryRemoved 0 0 0 0
            (cancel_timers st s)))"

text \<open>The parts of \<open>ExecuteCho\<close> for a selected target: its traces, and the handover itself.\<close>

definition trace_execution :: "'r cho_env \<Rightarrow> u16 \<Rightarrow> pending_cho \<Rightarrow> 'r cho \<Rightarrow> 'r cho" where
  "trace_execution env rnti st s =
     (let s2 = EmitChoEventTrace rnti ChoExecutionStart (m_selectedTargetCellId st) (m_servingRsrp st)
                 (m_selectedTargetRsrp st) (m_selectedCandidateCount st) s;
          s3 = EmitChoDetailedTrace rnti Step4_UeSelectionDecision s2;
          s4 = EmitChoDetailedTrace rnti Step5_ExecutePreparedCho s3;
          serviceDelay = (if m_lastComputedServiceDelay st = 0
            then ComputeServiceLinkDelay env (cho_rrc s) rnti
            else m_lastComputedServiceDelay st);
          s5 = EmitChoDetailedTraceAt (ms_of (cho_now s)) rnti Step5_RrcReconfigExec_TxBySource s4
      in EmitChoDetailedTraceAt (ms_of (cho_now s + serviceDelay)) rnti
           Step5_RrcReconfigExec_RxByUe s5)"

definition perform_handover ::
  "cho_config \<Rightarrow> 'r cho_env \<Rightarrow> u16 \<Rightarrow> pending_cho \<Rightarrow> 'r cho \<Rightarrow> 'r cho" where
  "perform_handover cfg env rnti st s =
     (let emit = (\<lambda>name. EmitChoEventTrace rnti name (m_selectedTargetCellId st) (m_servingRsrp st)
          (m_selectedTargetRsrp st) (m_selectedCandidateCount st))
      in if m_enableHandoverExecution cfg
         then let (ok, r) = ExecuteConditionalHandover env rnti (m_selectedTargetCellId st) (cho_rrc s)
           in emit (if ok then TriggerHandoverCalled else TriggerHandoverSkipped) (s\<lparr>cho_rrc := r\<rparr>)
         else emit TriggerHandoverSkipped s)"

definition ExecuteCho :: "cho_config \<Rightarrow> 'r cho_env \<Rightarrow> u16 \<Rightarrow> 'r cho \<Rightarrow> 'r cho" where
  "ExecuteCho cfg env rnti s =
     (case m_pendingCho s rnti of
        None \<Rightarrow> s
      | Some st0 \<Rightarrow>
          if m_candidates st0 = [] then s
          else if \<not> rrc_aggregated env then CancelCho rnti s
          else let targetCellId = ComputeBestPreparedTargetCellId env (cho_rrc s) rnti (m_candidates st0)
            in if targetCellId = 0 then CancelCho rnti s
            else let st = st0\<lparr>m_selectedTargetCellId := targetCellId,
                  m_selectedTargetRsrp := ComputeTargetRsrpByCellId (m_candidates st0) targetCellId\<rparr>
              in erase_pending rnti (perform_handover cfg env rnti st
                   (trace_execution env rnti st (put_pending rnti st s))))"

text \<open>The RSRP of a candidate after a report: the first measurement of its cell that has one.\<close>

definition update_candidate :: "neighbour_result list \<Rightarrow> candidate_info \<Rightarrow> candidate_info" where
  "update_candidate ms c =
     (case List.find (\<lambda>m. physCellId m = m_cellId c \<and> haveRsrpResult m) ms of
        None \<Rightarrow> c | Some m \<Rightarrow> c\<lparr>m_rsrp := rsrpResult m\<rparr>)"

text \<open>The branch of \<open>DoReportUeMeas\<close> for a UE that has the CHO command.\<close>

definition monitor_execution ::
  "cho_config \<Rightarrow> 'r cho_env \<Rightarrow> u16 \<Rightarrow> meas_results \<Rightarrow> pending_cho \<Rightarrow> 'r cho \<Rightarrow> 'r cho" where
  "monitor_execution cfg env rnti mr st0 s =
     (let st = st0\<lparr>m_candidates := map (update_candidate (measResultListEutra mr)) (m_candidates st0),
                m_servingRsrp := pCellRsrp mr\<rparr>;
          s1 = put_pending rnti st s;
          bestTargetCellId = ComputeBestTargetCellId (m_candidates st);
          bestTargetRsrp = ComputeBestTargetRsrp (m_candidates st);
          executionThreshold = execution_threshold cfg (pCellRsrp mr);
          s2 = EmitChoDetailedTrace rnti Step3_ExecutionMonitoring s1
      in if above bestTargetRsrp executionThreshold
         then ExecuteCho cfg env rnti
                (EmitChoEventTrace rnti ChoExecutionConditionMet bestTargetCellId (pCellRsrp mr)
                   bestTargetRsrp (m_selectedCandidateCount st) s2)
         else s2)"

text \<open>The loop over the reported neighbours: those above the threshold become candidates.\<close>

fun screen_neighbours ::
  "cho_config \<Rightarrow> u16 \<Rightarrow> u8 \<Rightarrow> neighbour_result list \<Rightarrow> candidate_info list \<Rightarrow> 'r cho \<Rightarrow>
   candidate_info list \<times> 'r cho" where
  "screen_neighbours cfg rnti serving [] candidates s = (candidates, s)"
| "screen_neighbours cfg rnti serving (m # ms) candidates s =
     (if \<not> haveRsrpResult m \<or> \<not> IsValidNeighbour (physCellId m)
      then screen_neighbours cfg rnti serving ms candidates s
      else if above (rsrpResult m) (execution_threshold cfg serving)
      then screen_neighbours cfg rnti serving ms
             (candidates @ [\<lparr>m_cellId = physCellId m, m_rsrp = rsrpResult m\<rparr>])
             (EmitChoDetailedTrace rnti Step1_CandidateEvaluation
               (EmitChoEventTrace rnti A3ConditionSatisfied (physCellId m) serving (rsrpResult m) 0 s))
      else screen_neighbours cfg rnti serving ms candidates
             (EmitChoDetailedTrace rnti Step1_CandidateEvaluation s))"

definition start_preparation ::
  "cho_config \<Rightarrow> u16 \<Rightarrow> u8 \<Rightarrow> int \<Rightarrow> int \<Rightarrow> candidate_info list \<Rightarrow> 'r cho \<Rightarrow> 'r cho" where
  "start_preparation cfg rnti servingRsrp mrSentTime serviceDelay candidates s =
     (let s1 = EmitChoEventTrace rnti ChoPrepareStart (ComputeBestTargetCellId candidates) servingRsrp
                 (ComputeBestTargetRsrp candidates) (of_nat (length candidates)) s;
          (ev, s2) = cho_schedule (m_choDecisionDelay cfg) DecisionCompleted rnti s1
      in put_pending rnti
           \<lparr>m_candidates = candidates, m_servingRsrp = servingRsrp,
            m_measReportSentTime = mrSentTime, m_measReportRecvTime = cho_now s,
            m_decisionStartTime = cho_now s, m_hoRequestSentTime = 0,
            m_selectedTargetCellId = ComputeBestTargetCellId candidates,
            m_selectedTargetRsrp = ComputeBestTargetRsrp candidates,
            m_selectedCandidateCount = of_nat (length candidates),
            m_choCommandDelivered = False, m_decisionEvent = ev, m_ackEvent = 0,
            m_choCommandDeliveryEvent = 0, m_randomAccessCompleteEvent = 0,
            m_lastComputedX2Delay = 0, m_lastComputedServiceDelay = serviceDelay,
            m_x2DelayByTarget = (\<lambda>_. None)\<rparr> s2)"

definition DoReportUeMeas ::
  "cho_config \<Rightarrow> 'r cho_env \<Rightarrow> u16 \<Rightarrow> meas_results \<Rightarrow> 'r cho \<Rightarrow> 'r cho" where
  "DoReportUeMeas cfg env rnti mr s =
     (if measId mr \<notin> set (m_measIds cfg) then s
      else if \<not> haveMeasResultNeighCells mr \<or> measResultListEutra mr = [] then s
      else let mrRecvTime = cho_now s;
          serviceDelay = ComputeServiceLinkDelay env (cho_rrc s) rnti;
          mrSentTime = mrRecvTime - serviceDelay;
          servingRsrp = pCellRsrp mr;
          pending = m_pendingCho s rnti
        in if (case pending of None \<Rightarrow> False | Some st \<Rightarrow> m_choCommandDelivered st)
           then monitor_execution cfg env rnti mr (the pending) s
           else let s1 = EmitChoDetailedTraceAt (ms_of mrSentTime) rnti Step1_MR_TxByUe s;
               s2 = EmitChoDetailedTraceAt (ms_of mrRecvTime) rnti Step1_MR_RxBySource s1;
               s3 = EmitChoDetailedTrace rnti Step1_MR_ProcessedBySource s2;
               (candidates, s4) =
                 screen_neighbours cfg rnti servingRsrp (measResultListEutra mr) [] s3
             in if candidates = []
                then (if pending \<noteq> None
                      then CancelCho rnti
                             (EmitChoEventTrace rnti ChoCancelledConditionLeave 0 servingRsrp 0 0 s4)
                      else s4)
                else let s5 = (if pending \<noteq> None then CancelCho rnti s4 else s4)
                  in start_preparation cfg rnti servingRsrp mrSentTime serviceDelay candidates s5)"

text \<open>
  The loop that asks each candidate's gNB: the number of acceptances, the greatest X2 delay,
  the delay of each accepted target and the new state.
\<close>

fun prepare_candidates ::
  "'r cho_env \<Rightarrow> u16 \<Rightarrow> candidate_info list \<Rightarrow> u16 \<Rightarrow> int \<Rightarrow> (u16 \<Rightarrow> int option) \<Rightarrow> 'r cho \<Rightarrow>
   u16 \<times> int \<times> (u16 \<Rightarrow> int option) \<times> 'r cho" where
  "prepare_candidates env rnti [] accepted maxX2 delays s = (accepted, maxX2, delays, s)"
| "prepare_candidates env rnti (c # cs) accepted maxX2 delays s =
     (let (ok, r) = PrepareConditionalHandover env rnti (m_cellId c) (cho_rrc s);
          s1 = s\<lparr>cho_rrc := r\<rparr>
      in if \<not> ok then prepare_candidates env rnti cs accepted maxX2 delays s1
         else let d = ComputeX2PropagationDelay env r rnti (m_cellId c);
             x2Delay = (if d = 0 then 1 else d);
             s2 = EmitChoDetailedTraceAt (ms_of (cho_now s1)) rnti Step2_HoReq_TxBySource s1;
             s3 = EmitChoDetailedTraceAt (ms_of (cho_now s1 + x2Delay)) rnti Step2_HoReq_RxByTarget s2
           in prepare_candidates env rnti cs (accepted + 1)
                (if x2Delay > maxX2 then x2Delay else maxX2)
                (delays(m_cellId c \<mapsto> x2Delay)) s3)"

definition OnChoDecisionCompleted :: "'r cho_env \<Rightarrow> u16 \<Rightarrow> 'r cho \<Rightarrow> 'r cho" where
  "OnChoDecisionCompleted env rnti s =
     (case m_pendingCho s rnti of
        None \<Rightarrow> s
      | Some st0 \<Rightarrow>
          if m_candidates st0 = [] then s
          else let s1 = EmitChoDetailedTrace rnti Step2_ChoDecisionCompleted s
            in if \<not> rrc_aggregated env then CancelCho rnti s1
            else let (acceptedCount, maxX2Delay, delays, s2) =
                  prepare_candidates env rnti (m_candidates st0) 0 0 (\<lambda>_. None) s1;
                st1 = st0\<lparr>m_hoRequestSentTime := cho_now s, m_x2DelayByTarget := delays\<rparr>
              in if acceptedCount = 0 then CancelCho rnti (put_pending rnti st1 s2)
                 else let x2 = (if maxX2Delay = 0 then 1 else maxX2Delay);
                     st2 = st1\<lparr>m_selectedCandidateCount := acceptedCount, m_lastComputedX2Delay := x2\<rparr>;
                     s3 = EmitChoEventTrace rnti HoRequestSentToCandidates (m_selectedTargetCellId st2)
                            (m_servingRsrp st2) (m_selectedTargetRsrp st2)
                            (m_selectedCandidateCount st2) s2;
                     (ev, s4) = cho_schedule x2 PollPreparation rnti s3
                   in put_pending rnti (st2\<lparr>m_ackEvent := ev\<rparr>) s4)"

definition OnHandoverPreparationCompleted :: "'r cho_env \<Rightarrow> u16 \<Rightarrow> 'r cho \<Rightarrow> 'r cho" where
  "OnHandoverPreparationCompleted env rnti s =
     (case m_pendingCho s rnti of
        None \<Rightarrow> s
      | Some st \<Rightarrow>
          if m_candidates st = [] then s
          else let emit = (\<lambda>name. EmitChoEventTrace rnti name (m_selectedTargetCellId st)
                  (m_servingRsrp st) (m_selectedTargetRsrp st) (m_selectedCandidateCount st));
              now = cho_now s;
              s1 = emit HoRequestAckReceived s;
              x2Delay = target_x2_delay st (m_selectedTargetCellId st);
              targetAckTx = now - x2Delay;
              s2 = EmitChoDetailedTraceAt (ms_of targetAckTx) rnti Step2_HoAck_TxByTarget s1;
              s3 = EmitChoDetailedTraceAt (ms_of targetAckTx) rnti Step2_AdmissionProcessedByTarget s2;
              s4 = EmitChoDetailedTrace rnti Step2_AdmissionControlAndAck s3;
              s5 = emit RrcReconfigurationWithChoPrepared s4;
              serviceDelay = ComputeServiceLinkDelay env (cho_rrc s5) rnti;
              s6 = EmitChoDetailedTrace rnti Step3_ChoPreparedAtSource s5;
              s7 = EmitChoDetailedTraceAt (ms_of now) rnti Step3_RrcReconfigCho_TxBySource s6;
              s8 = EmitChoDetailedTraceAt (ms_of (now + serviceDelay)) rnti
                     Step3_RrcReconfigCho_RxByUe s7;
              (ev, s9) = cho_schedule serviceDelay CommandDelivered rnti s8
            in put_pending rnti (st\<lparr>m_lastComputedServiceDelay := serviceDelay,
                 m_choCommandDelivered := False, m_choCommandDeliveryEvent := ev\<rparr>) s9)"

definition PollConditionalPreparation :: "'r cho_env \<Rightarrow> u16 \<Rightarrow> 'r cho \<Rightarrow> 'r cho" where
  "PollConditionalPreparation env rnti s =
     (case m_pendingCho s rnti of
        None \<Rightarrow> s
      | Some st \<Rightarrow>
          if \<not> rrc_aggregated env then CancelCho rnti s
          else let prepared = ComputeBestPreparedTargetCellId env (cho_rrc s) rnti (m_candidates st)
            in if prepared \<noteq> 0
               then OnHandoverPreparationCompleted env rnti
                      (put_pending rnti (st\<lparr>m_selectedTargetCellId := prepared,
                         m_selectedTargetRsrp := ComputeTargetRsrpByCellId (m_candidates st) prepared\<rparr>) s)
               else let retryDelay = (if m_lastComputedX2Delay st = 0 then 1 else m_lastComputedX2Delay st);
                   (ev, s1) = cho_schedule retryDelay PollPreparation rnti s
                 in put_pending rnti (st\<lparr>m_ackEvent := ev\<rparr>) s1)"

definition OnChoCommandDeliveredToUe ::
  "cho_config \<Rightarrow> 'r cho_env \<Rightarrow> u16 \<Rightarrow> 'r cho \<Rightarrow> 'r cho" where
  "OnChoCommandDeliveredToUe cfg env rnti s =
     (case m_pendingCho s rnti of
        None \<Rightarrow> s
      | Some st0 \<Rightarrow>
          if m_candidates st0 = [] then s
          else let emit = (\<lambda>name. EmitChoEventTrace rnti name (m_selectedTargetCellId st0)
                  (m_servingRsrp st0) (m_selectedTargetRsrp st0) (m_selectedCandidateCount st0));
              s1 = EmitChoDetailedTrace rnti Step3_UeReceivedChoCommand (emit ChoStoredInUe s);
              s2 = put_pending rnti (st0\<lparr>m_choCommandDelivered := True\<rparr>) s1
            in if above (m_selectedTargetRsrp st0) (execution_threshold cfg (m_servingRsrp st0))
               then ExecuteCho cfg env rnti (emit ChoExecutionConditionMet s2)
               else s2)"

text \<open>Defined by the class, with no caller.\<close>

definition CompleteChoAfterRandomAccess ::
  "cho_config \<Rightarrow> 'r cho_env \<Rightarrow> u16 \<Rightarrow> 'r cho \<Rightarrow> 'r cho" where
  "CompleteChoAfterRandomAccess cfg env rnti s =
     (case m_pendingCho s rnti of
        None \<Rightarrow> s
      | Some st \<Rightarrow>
          if m_selectedTargetCellId st = 0 then s
          else let emit = (\<lambda>name. EmitChoEventTrace rnti name (m_selectedTargetCellId st)
                  (m_servingRsrp st) (m_selectedTargetRsrp st) (m_selectedCandidateCount st));
              s1 = emit TriggerHandoverCalled (EmitChoDetailedTrace rnti Step5_RandomAccessComplete s);
              s2 = EmitChoDetailedTrace rnti Step6_7_PathSwitchAndCancelOthers s1;
              s3 = (if m_enableHandoverExecution cfg
                then s2\<lparr>cho_rrc := TriggerHandover env rnti (m_selectedTargetCellId st) (cho_rrc s2)\<rparr>
                else emit TriggerHandoverSkipped s2)
            in erase_pending rnti s3)"

text \<open>\<open>DoDispose\<close> walks the map of pending handovers in the order of the RNTIs.\<close>

definition DoDispose :: "'r cho \<Rightarrow> 'r cho" where
  "DoDispose s =
     (let s1 = fold (\<lambda>n s. case m_pendingCho s (of_nat n) of None \<Rightarrow> s | Some st \<Rightarrow> cancel_timers st s)
                 [0..<65536] s
      in s1\<lparr>m_pendingCho := (\<lambda>_. None)\<rparr>)"

section \<open>The steps of the algorithm\<close>

definition run_timer :: "cho_config \<Rightarrow> 'r cho_env \<Rightarrow> cho_timer \<Rightarrow> 'r cho \<Rightarrow> 'r cho" where
  "run_timer cfg env t s =
     (let s1 = s\<lparr>cho_now := tm_time t, cho_agenda := filter (\<lambda>u. tm_id u \<noteq> tm_id t) (cho_agenda s)\<rparr>
      in case tm_handler t of
           DecisionCompleted \<Rightarrow> OnChoDecisionCompleted env (tm_rnti t) s1
         | PollPreparation \<Rightarrow> PollConditionalPreparation env (tm_rnti t) s1
         | CommandDelivered \<Rightarrow> OnChoCommandDeliveredToUe cfg env (tm_rnti t) s1)"

definition due :: "cho_timer \<Rightarrow> 'r cho \<Rightarrow> bool" where
  "due t s \<longleftrightarrow> t \<in> set (cho_agenda s) \<and>
     (\<forall>u\<in>set (cho_agenda s). tm_time t < tm_time u \<or> (tm_time t = tm_time u \<and> tm_id t \<le> tm_id u))"

text \<open>
  A report of a UE, a due callback, a change of the rest of the gNB, or the passing of time up
  to the next callback.
\<close>

inductive cho_step :: "cho_config \<Rightarrow> 'r cho_env \<Rightarrow> 'r cho \<Rightarrow> 'r cho \<Rightarrow> bool" for cfg env where
  report: "cho_step cfg env s (DoReportUeMeas cfg env rnti mr s)"
| fire: "due t s \<Longrightarrow> cho_step cfg env s (run_timer cfg env t s)"
| rrc: "cho_step cfg env s (s\<lparr>cho_rrc := r\<rparr>)"
| wait: "cho_now s \<le> now \<Longrightarrow> \<forall>t\<in>set (cho_agenda s). now \<le> tm_time t \<Longrightarrow>
    cho_step cfg env s (s\<lparr>cho_now := now\<rparr>)"

inductive cho_reachable :: "cho_config \<Rightarrow> 'r cho_env \<Rightarrow> 'r cho \<Rightarrow> 'r cho \<Rightarrow> bool" for cfg env where
  reach_start: "cho_reachable cfg env s s"
| reach_step: "cho_reachable cfg env s0 s \<Longrightarrow> cho_step cfg env s s' \<Longrightarrow> cho_reachable cfg env s0 s'"

definition cho_initial :: "'r \<Rightarrow> 'r cho" where
  "cho_initial r = \<lparr>m_pendingCho = (\<lambda>_. None), cho_agenda = [], cho_now = 0, cho_next_id = 1,
     cho_rrc = r, m_choEventTrace = [], m_choDetailedTrace = []\<rparr>"

section \<open>The protocol as an automaton over the event trace\<close>

text \<open>
  The specification: the phases a handover of one UE goes through, and the event names allowed
  in each of them.
\<close>

datatype cho_phase =
    Idle | Deciding | Preparing | Acknowledged | Delivering | Monitoring | ConditionMet | Executing

fun phase_step :: "cho_phase \<Rightarrow> cho_event_name \<Rightarrow> cho_phase option" where
  "phase_step p A3ConditionSatisfied =
     (if p = Idle \<or> p = Deciding \<or> p = Preparing \<or> p = Delivering then Some p else None)"
| "phase_step p ChoCancelledConditionLeave =
     (if p = Deciding \<or> p = Preparing \<or> p = Delivering then Some p else None)"
| "phase_step p ChoPendingEntryRemoved =
     (if p = Deciding \<or> p = Preparing \<or> p = Delivering \<or> p = ConditionMet then Some Idle else None)"
| "phase_step p ChoPrepareStart = (if p = Idle then Some Deciding else None)"
| "phase_step p HoRequestSentToCandidates = (if p = Deciding then Some Preparing else None)"
| "phase_step p HoRequestAckReceived = (if p = Preparing then Some Acknowledged else None)"
| "phase_step p RrcReconfigurationWithChoPrepared =
     (if p = Acknowledged then Some Delivering else None)"
| "phase_step p ChoStoredInUe = (if p = Delivering then Some Monitoring else None)"
| "phase_step p ChoExecutionConditionMet = (if p = Monitoring then Some ConditionMet else None)"
| "phase_step p ChoExecutionStart = (if p = ConditionMet then Some Executing else None)"
| "phase_step p TriggerHandoverCalled = (if p = Executing then Some Idle else None)"
| "phase_step p TriggerHandoverSkipped = (if p = Executing then Some Idle else None)"

fun run_phase :: "cho_phase option \<Rightarrow> cho_event_name list \<Rightarrow> cho_phase option" where
  "run_phase p [] = p"
| "run_phase None (n # ns) = None"
| "run_phase (Some p) (n # ns) = run_phase (phase_step p n) ns"

definition ue_events :: "u16 \<Rightarrow> 'r cho \<Rightarrow> cho_event_name list" where
  "ue_events rnti s = map ce_name (filter (\<lambda>e. ce_rnti e = rnti) (m_choEventTrace s))"

definition trace_phase :: "u16 \<Rightarrow> 'r cho \<Rightarrow> cho_phase option" where
  "trace_phase rnti s = run_phase (Some Idle) (ue_events rnti s)"

lemma run_phase_append: "run_phase p (xs @ ys) = run_phase (run_phase p xs) ys"
proof (induction xs arbitrary: p)
  case (Cons n xs)
  then show ?case by (cases p; cases ys) simp_all
qed simp

lemma run_phase_None [simp]: "run_phase None ns = None"
  by (cases ns) simp_all

section \<open>What the elementary operations change\<close>

named_theorems cho_simps \<open>projections of the elementary operations\<close>

lemma emit_event_simps [cho_simps]:
  "m_pendingCho (EmitChoEventTrace r n a b c d s) = m_pendingCho s"
  "cho_agenda (EmitChoEventTrace r n a b c d s) = cho_agenda s"
  "cho_now (EmitChoEventTrace r n a b c d s) = cho_now s"
  "cho_next_id (EmitChoEventTrace r n a b c d s) = cho_next_id s"
  "cho_rrc (EmitChoEventTrace r n a b c d s) = cho_rrc s"
  "trace_phase r' (EmitChoEventTrace r n a b c d s) =
     (if r' = r then trace_phase r' s \<bind> (\<lambda>p. phase_step p n) else trace_phase r' s)"
proof -
  have "run_phase p [n] = (p \<bind> (\<lambda>p. phase_step p n))" for p
    by (cases p) simp_all
  then show "trace_phase r' (EmitChoEventTrace r n a b c d s) =
     (if r' = r then trace_phase r' s \<bind> (\<lambda>p. phase_step p n) else trace_phase r' s)"
    by (simp add: trace_phase_def ue_events_def EmitChoEventTrace_def run_phase_append)
qed (simp_all add: EmitChoEventTrace_def)

lemma emit_detail_at_simps [cho_simps]:
  "m_pendingCho (EmitChoDetailedTraceAt ts r n s) = m_pendingCho s"
  "cho_agenda (EmitChoDetailedTraceAt ts r n s) = cho_agenda s"
  "cho_now (EmitChoDetailedTraceAt ts r n s) = cho_now s"
  "cho_next_id (EmitChoDetailedTraceAt ts r n s) = cho_next_id s"
  "cho_rrc (EmitChoDetailedTraceAt ts r n s) = cho_rrc s"
  "m_choEventTrace (EmitChoDetailedTraceAt ts r n s) = m_choEventTrace s"
  "trace_phase r' (EmitChoDetailedTraceAt ts r n s) = trace_phase r' s"
  by (simp_all add: EmitChoDetailedTraceAt_def trace_phase_def ue_events_def)

lemma emit_detail_simps [cho_simps]:
  "m_pendingCho (EmitChoDetailedTrace r n s) = m_pendingCho s"
  "cho_agenda (EmitChoDetailedTrace r n s) = cho_agenda s"
  "cho_now (EmitChoDetailedTrace r n s) = cho_now s"
  "cho_next_id (EmitChoDetailedTrace r n s) = cho_next_id s"
  "cho_rrc (EmitChoDetailedTrace r n s) = cho_rrc s"
  "m_choEventTrace (EmitChoDetailedTrace r n s) = m_choEventTrace s"
  "trace_phase r' (EmitChoDetailedTrace r n s) = trace_phase r' s"
  by (simp_all add: EmitChoDetailedTrace_def cho_simps)

lemma update_simps [cho_simps]:
  "trace_phase r' (s\<lparr>cho_rrc := x\<rparr>) = trace_phase r' s"
  "trace_phase r' (s\<lparr>cho_now := now\<rparr>) = trace_phase r' s"
  "trace_phase r' (s\<lparr>cho_now := now, cho_agenda := ts\<rparr>) = trace_phase r' s"
  "trace_phase r' (s\<lparr>cho_agenda := ts\<rparr>) = trace_phase r' s"
  by (simp_all add: trace_phase_def ue_events_def)

lemma put_pending_simps [cho_simps]:
  "m_pendingCho (put_pending r st s) = (m_pendingCho s)(r \<mapsto> st)"
  "cho_agenda (put_pending r st s) = cho_agenda s"
  "cho_now (put_pending r st s) = cho_now s"
  "cho_next_id (put_pending r st s) = cho_next_id s"
  "cho_rrc (put_pending r st s) = cho_rrc s"
  "m_choEventTrace (put_pending r st s) = m_choEventTrace s"
  "trace_phase r' (put_pending r st s) = trace_phase r' s"
  by (simp_all add: put_pending_def trace_phase_def ue_events_def)

lemma erase_pending_simps [cho_simps]:
  "m_pendingCho (erase_pending r s) = (m_pendingCho s)(r := None)"
  "cho_agenda (erase_pending r s) = cho_agenda s"
  "cho_now (erase_pending r s) = cho_now s"
  "cho_next_id (erase_pending r s) = cho_next_id s"
  "cho_rrc (erase_pending r s) = cho_rrc s"
  "m_choEventTrace (erase_pending r s) = m_choEventTrace s"
  "trace_phase r' (erase_pending r s) = trace_phase r' s"
  by (simp_all add: erase_pending_def trace_phase_def ue_events_def)

lemma cancel_timer_simps [cho_simps]:
  "m_pendingCho (cancel_timer i s) = m_pendingCho s"
  "cho_agenda (cancel_timer i s) = filter (\<lambda>t. tm_id t \<noteq> i) (cho_agenda s)"
  "cho_now (cancel_timer i s) = cho_now s"
  "cho_next_id (cancel_timer i s) = cho_next_id s"
  "cho_rrc (cancel_timer i s) = cho_rrc s"
  "m_choEventTrace (cancel_timer i s) = m_choEventTrace s"
  "trace_phase r' (cancel_timer i s) = trace_phase r' s"
  by (auto simp: cancel_timer_def is_pending_def trace_phase_def ue_events_def
      intro!: filter_True [symmetric])

definition timer_ids :: "pending_cho \<Rightarrow> nat set" where
  "timer_ids st = {m_decisionEvent st, m_ackEvent st, m_choCommandDeliveryEvent st,
     m_randomAccessCompleteEvent st}"

lemma cancel_timers_simps [cho_simps]:
  "m_pendingCho (cancel_timers st s) = m_pendingCho s"
  "cho_agenda (cancel_timers st s) = filter (\<lambda>t. tm_id t \<notin> timer_ids st) (cho_agenda s)"
  "cho_now (cancel_timers st s) = cho_now s"
  "cho_next_id (cancel_timers st s) = cho_next_id s"
  "cho_rrc (cancel_timers st s) = cho_rrc s"
  "m_choEventTrace (cancel_timers st s) = m_choEventTrace s"
  "trace_phase r' (cancel_timers st s) = trace_phase r' s"
  by (auto simp: cancel_timers_def cho_simps timer_ids_def intro!: filter_cong)

lemma schedule_simps [cho_simps]:
  "fst (cho_schedule d h r s) = cho_next_id s"
  "m_pendingCho (snd (cho_schedule d h r s)) = m_pendingCho s"
  "cho_agenda (snd (cho_schedule d h r s)) = cho_agenda s @ [\<lparr>tm_id = cho_next_id s,
     tm_time = cho_now s + d, tm_handler = h, tm_rnti = r\<rparr>]"
  "cho_now (snd (cho_schedule d h r s)) = cho_now s"
  "cho_next_id (snd (cho_schedule d h r s)) = cho_next_id s + 1"
  "cho_rrc (snd (cho_schedule d h r s)) = cho_rrc s"
  "m_choEventTrace (snd (cho_schedule d h r s)) = m_choEventTrace s"
  "trace_phase r' (snd (cho_schedule d h r s)) = trace_phase r' s"
  by (simp_all add: cho_schedule_def trace_phase_def ue_events_def)

lemma trace_execution_simps [cho_simps]:
  "m_pendingCho (trace_execution env r st s) = m_pendingCho s"
  "cho_agenda (trace_execution env r st s) = cho_agenda s"
  "cho_now (trace_execution env r st s) = cho_now s"
  "cho_next_id (trace_execution env r st s) = cho_next_id s"
  "cho_rrc (trace_execution env r st s) = cho_rrc s"
  "trace_phase r' (trace_execution env r st s) =
     (if r' = r then trace_phase r' s \<bind> (\<lambda>p. phase_step p ChoExecutionStart) else trace_phase r' s)"
  unfolding trace_execution_def Let_def by (simp_all only: cho_simps)

lemma perform_handover_simps [cho_simps]:
  "m_pendingCho (perform_handover cfg env r st s) = m_pendingCho s"
  "cho_agenda (perform_handover cfg env r st s) = cho_agenda s"
  "cho_now (perform_handover cfg env r st s) = cho_now s"
  "cho_next_id (perform_handover cfg env r st s) = cho_next_id s"
  "trace_phase r' (perform_handover cfg env r st s) =
     (if r' = r then trace_phase r' s \<bind> (\<lambda>p. phase_step p TriggerHandoverSkipped)
      else trace_phase r' s)"
  unfolding perform_handover_def Let_def
  by (auto simp: cho_simps split: prod.split Option.bind_split)

section \<open>The invariant\<close>

fun handler_event :: "cho_handler \<Rightarrow> pending_cho \<Rightarrow> nat" where
  "handler_event DecisionCompleted st = m_decisionEvent st"
| "handler_event PollPreparation st = m_ackEvent st"
| "handler_event CommandDelivered st = m_choCommandDeliveryEvent st"

fun handler_phase :: "cho_handler \<Rightarrow> cho_phase" where
  "handler_phase DecisionCompleted = Deciding"
| "handler_phase PollPreparation = Preparing"
| "handler_phase CommandDelivered = Delivering"

lemma handler_event_in: "handler_event h st \<in> timer_ids st"
  by (cases h) (simp_all add: timer_ids_def)

definition ue_timers :: "u16 \<Rightarrow> 'r cho \<Rightarrow> cho_timer list" where
  "ue_timers rnti s = filter (\<lambda>t. tm_rnti t = rnti) (cho_agenda s)"

text \<open>
  One UE: without a pending handover it has no callback and its trace is back at \<open>Idle\<close>; with
  one it has candidates and either monitors the execution condition, with no callback left, or
  waits for exactly one callback, the one whose \<open>EventId\<close> is stored, in the matching phase.
\<close>

definition ue_ok :: "u16 \<Rightarrow> 'r cho \<Rightarrow> bool" where
  "ue_ok rnti s \<longleftrightarrow>
     (case m_pendingCho s rnti of
        None \<Rightarrow> ue_timers rnti s = [] \<and> trace_phase rnti s = Some Idle
      | Some st \<Rightarrow>
          m_candidates st \<noteq> [] \<and> (\<forall>i\<in>timer_ids st. i < cho_next_id s) \<and>
          (\<forall>t\<in>set (cho_agenda s). tm_id t \<in> timer_ids st \<longrightarrow> tm_rnti t = rnti) \<and>
          (if m_choCommandDelivered st
           then ue_timers rnti s = [] \<and> trace_phase rnti s = Some Monitoring
           else \<exists>t. ue_timers rnti s = [t] \<and> tm_id t = handler_event (tm_handler t) st \<and>
                  trace_phase rnti s = Some (handler_phase (tm_handler t))))"

definition agenda_ok :: "'r cho \<Rightarrow> bool" where
  "agenda_ok s \<longleftrightarrow> distinct (map tm_id (cho_agenda s)) \<and> 0 < cho_next_id s \<and>
     (\<forall>t\<in>set (cho_agenda s). 0 < tm_id t \<and> tm_id t < cho_next_id s)"

definition cho_inv :: "'r cho \<Rightarrow> bool" where
  "cho_inv s \<longleftrightarrow> agenda_ok s \<and> (\<forall>rnti. ue_ok rnti s)"

text \<open>
  Inside a handler: the UE's callback has been taken out of the agenda, its trace is in phase
  \<open>p\<close>.
\<close>

definition mid :: "u16 \<Rightarrow> pending_cho \<Rightarrow> cho_phase \<Rightarrow> 'r cho \<Rightarrow> bool" where
  "mid rnti st p s \<longleftrightarrow> m_pendingCho s rnti = Some st \<and> m_candidates st \<noteq> [] \<and>
     (\<forall>t\<in>set (cho_agenda s). tm_rnti t \<noteq> rnti \<and> tm_id t \<notin> timer_ids st) \<and>
     (\<forall>i\<in>timer_ids st. i < cho_next_id s) \<and>
     (\<forall>t\<in>set (cho_agenda s). tm_id t < cho_next_id s) \<and> trace_phase rnti s = Some p"

text \<open>What a handler of one UE has done when it returns.\<close>

definition settled :: "u16 \<Rightarrow> 'r cho \<Rightarrow> 'r cho \<Rightarrow> bool" where
  "settled rnti s s' \<longleftrightarrow>
     (\<forall>r. r \<noteq> rnti \<longrightarrow> m_pendingCho s' r = m_pendingCho s r \<and> trace_phase r s' = trace_phase r s) \<and>
     (case m_pendingCho s' rnti of
        None \<Rightarrow> cho_agenda s' = cho_agenda s \<and> cho_next_id s' = cho_next_id s \<and>
          trace_phase rnti s' = Some Idle
      | Some st \<Rightarrow>
          m_candidates st \<noteq> [] \<and> (\<forall>i\<in>timer_ids st. i < cho_next_id s') \<and>
          (\<forall>t\<in>set (cho_agenda s). tm_id t \<notin> timer_ids st) \<and>
          (if m_choCommandDelivered st
           then cho_agenda s' = cho_agenda s \<and> cho_next_id s' = cho_next_id s \<and>
             trace_phase rnti s' = Some Monitoring
           else \<exists>t. cho_agenda s' = cho_agenda s @ [t] \<and> tm_rnti t = rnti \<and>
                  tm_id t = cho_next_id s \<and> cho_next_id s' = cho_next_id s + 1 \<and>
                  tm_id t = handler_event (tm_handler t) st \<and>
                  trace_phase rnti s' = Some (handler_phase (tm_handler t))))"

lemma settled_trans_emit:
  assumes "settled rnti s1 s'"
    and "\<And>r. r \<noteq> rnti \<Longrightarrow> m_pendingCho s1 r = m_pendingCho s r \<and> trace_phase r s1 = trace_phase r s"
    and "cho_agenda s1 = cho_agenda s" and "cho_next_id s1 = cho_next_id s"
  shows "settled rnti s s'"
  using assms(1,2) unfolding settled_def assms(3,4) by simp

lemma settled_by_timer:
  assumes "\<And>r. r \<noteq> rnti \<Longrightarrow> m_pendingCho s1 r = m_pendingCho s r \<and> trace_phase r s1 = trace_phase r s"
    and "cho_agenda s1 = cho_agenda s" and "cho_next_id s1 = cho_next_id s"
    and "m_candidates st \<noteq> []" and "\<not> m_choCommandDelivered st"
    and "handler_event h st = cho_next_id s" and "\<forall>i\<in>timer_ids st. i \<le> cho_next_id s"
    and "\<forall>t\<in>set (cho_agenda s). tm_id t \<notin> timer_ids st"
    and "trace_phase rnti s1 = Some (handler_phase h)"
  shows "settled rnti s (put_pending rnti st (snd (cho_schedule d h rnti s1)))"
  using assms by (simp add: settled_def cho_simps le_imp_less_Suc)

lemma CancelCho_settled:
  assumes "mid rnti st p s" and "p = Deciding \<or> p = Preparing \<or> p = Delivering \<or> p = ConditionMet"
  shows "settled rnti s (CancelCho rnti s)"
proof -
  have "filter (\<lambda>t. tm_id t \<notin> timer_ids st) (cho_agenda s) = cho_agenda s"
    using assms(1) by (intro filter_True) (simp add: mid_def)
  then show ?thesis
    using assms by (auto simp: settled_def CancelCho_def mid_def cho_simps)
qed

lemma ExecuteCho_settled:
  assumes "mid rnti st ConditionMet s"
  shows "settled rnti s (ExecuteCho cfg env rnti s)"
proof -
  let ?tgt = "ComputeBestPreparedTargetCellId env (cho_rrc s) rnti (m_candidates st)"
  have st: "m_pendingCho s rnti = Some st" "m_candidates st \<noteq> []" "trace_phase rnti s = Some ConditionMet"
    using assms by (simp_all add: mid_def)
  show ?thesis
  proof (cases "\<not> rrc_aggregated env \<or> ?tgt = 0")
    case True
    then have "ExecuteCho cfg env rnti s = CancelCho rnti s"
      using st by (auto simp: ExecuteCho_def Let_def)
    with CancelCho_settled [OF assms] show ?thesis by simp
  next
    case False
    with st show ?thesis
      by (simp add: ExecuteCho_def Let_def settled_def cho_simps)
  qed
qed

lemma prepare_candidates_simps:
  assumes "prepare_candidates env rnti cs n mx dl s = (n', mx', dl', s')"
  shows "m_pendingCho s' = m_pendingCho s" "cho_agenda s' = cho_agenda s"
    "cho_next_id s' = cho_next_id s" "cho_now s' = cho_now s"
    "trace_phase r s' = trace_phase r s" "m_choEventTrace s' = m_choEventTrace s"
proof -
  have "m_pendingCho s' = m_pendingCho s \<and> cho_agenda s' = cho_agenda s \<and>
    cho_next_id s' = cho_next_id s \<and> cho_now s' = cho_now s \<and>
    trace_phase r s' = trace_phase r s \<and> m_choEventTrace s' = m_choEventTrace s"
    using assms
  proof (induction cs arbitrary: n mx dl s)
    case Nil
    then show ?case by simp
  next
    case (Cons c cs)
    obtain ok r1 where r1: "PrepareConditionalHandover env rnti (m_cellId c) (cho_rrc s) = (ok, r1)"
      by fastforce
    let ?s1 = "s\<lparr>cho_rrc := r1\<rparr>"
    show ?case
    proof (cases ok)
      case False
      with r1 Cons.prems have "prepare_candidates env rnti cs n mx dl ?s1 = (n', mx', dl', s')"
        by simp
      from Cons.IH [OF this] show ?thesis by (simp add: cho_simps)
    next
      case True
      let ?d = "ComputeX2PropagationDelay env r1 rnti (m_cellId c)"
      let ?x = "if ?d = 0 then 1 else ?d"
      let ?s3 = "EmitChoDetailedTraceAt (ms_of (cho_now s + ?x)) rnti Step2_HoReq_RxByTarget
        (EmitChoDetailedTraceAt (ms_of (cho_now s)) rnti Step2_HoReq_TxBySource ?s1)"
      from True r1 Cons.prems have "prepare_candidates env rnti cs (n + 1)
        (if ?x > mx then ?x else mx) (dl(m_cellId c \<mapsto> ?x)) ?s3 = (n', mx', dl', s')"
        by (simp add: Let_def)
      from Cons.IH [OF this] show ?thesis by (simp add: cho_simps)
    qed
  qed
  then show "m_pendingCho s' = m_pendingCho s" "cho_agenda s' = cho_agenda s"
    "cho_next_id s' = cho_next_id s" "cho_now s' = cho_now s"
    "trace_phase r s' = trace_phase r s" "m_choEventTrace s' = m_choEventTrace s" by simp_all
qed

lemma OnChoDecisionCompleted_settled:
  assumes "mid rnti st Deciding s" and "\<not> m_choCommandDelivered st"
  shows "settled rnti s (OnChoDecisionCompleted env rnti s)"
proof -
  let ?s1 = "EmitChoDetailedTrace rnti Step2_ChoDecisionCompleted s"
  have st: "m_pendingCho s rnti = Some st" "m_candidates st \<noteq> []" "trace_phase rnti s = Some Deciding"
    using assms by (simp_all add: mid_def)
  have mid1: "mid rnti st Deciding ?s1" using assms(1) by (simp add: mid_def cho_simps)
  obtain n mx dl s2 where p: "prepare_candidates env rnti (m_candidates st) 0 0 (\<lambda>_. None) ?s1 = (n, mx, dl, s2)"
    by (metis prod_cases4)
  note p_simps = prepare_candidates_simps [OF p]
  let ?st1 = "st\<lparr>m_hoRequestSentTime := cho_now s, m_x2DelayByTarget := dl\<rparr>"
  have ids: "timer_ids ?st1 = timer_ids st" by (simp add: timer_ids_def)
  consider (no_rrc) "\<not> rrc_aggregated env" | (none) "rrc_aggregated env" "n = 0"
    | (some) "rrc_aggregated env" "n \<noteq> 0" by blast
  then show ?thesis
  proof cases
    case no_rrc
    then have "OnChoDecisionCompleted env rnti s = CancelCho rnti ?s1"
      using st by (simp add: OnChoDecisionCompleted_def Let_def)
    with CancelCho_settled [OF mid1] show ?thesis
      by (auto intro: settled_trans_emit simp: cho_simps)
  next
    case none
    then have e: "OnChoDecisionCompleted env rnti s = CancelCho rnti (put_pending rnti ?st1 s2)"
      using st p by (simp add: OnChoDecisionCompleted_def Let_def)
    have "mid rnti ?st1 Deciding (put_pending rnti ?st1 s2)"
      using assms(1) by (simp add: mid_def cho_simps p_simps ids)
    from CancelCho_settled [OF this] show ?thesis
      unfolding e by (auto intro: settled_trans_emit simp: cho_simps p_simps)
  next
    case some
    let ?x2 = "if mx = 0 then 1 else mx"
    let ?st2 = "?st1\<lparr>m_selectedCandidateCount := n, m_lastComputedX2Delay := ?x2\<rparr>"
    let ?s3 = "EmitChoEventTrace rnti HoRequestSentToCandidates (m_selectedTargetCellId ?st2)
      (m_servingRsrp ?st2) (m_selectedTargetRsrp ?st2) (m_selectedCandidateCount ?st2) s2"
    have e: "OnChoDecisionCompleted env rnti s =
      put_pending rnti (?st2\<lparr>m_ackEvent := cho_next_id s\<rparr>)
        (snd (cho_schedule ?x2 PollPreparation rnti ?s3))"
      using some st p
      by (simp add: OnChoDecisionCompleted_def Let_def case_prod_beta cho_simps p_simps)
    show ?thesis
      unfolding e using assms
      by (intro settled_by_timer) (auto simp: cho_simps p_simps mid_def timer_ids_def agenda_ok_def)
  qed
qed

lemma OnHandoverPreparationCompleted_settled:
  assumes "mid rnti st Preparing s"
  shows "settled rnti s (OnHandoverPreparationCompleted env rnti s)"
proof -
  have st: "m_pendingCho s rnti = Some st" "m_candidates st \<noteq> []" "trace_phase rnti s = Some Preparing"
    using assms by (simp_all add: mid_def)
  let ?d = "ComputeServiceLinkDelay env (cho_rrc s) rnti"
  let ?st = "st\<lparr>m_lastComputedServiceDelay := ?d, m_choCommandDelivered := False,
    m_choCommandDeliveryEvent := cho_next_id s\<rparr>"
  obtain s8 where e: "OnHandoverPreparationCompleted env rnti s =
      put_pending rnti ?st (snd (cho_schedule ?d CommandDelivered rnti s8))"
    and s8: "m_pendingCho s8 = m_pendingCho s" "cho_agenda s8 = cho_agenda s"
      "cho_next_id s8 = cho_next_id s" "trace_phase rnti s8 = Some Delivering"
      "\<And>r. r \<noteq> rnti \<Longrightarrow> trace_phase r s8 = trace_phase r s"
  proof
    let ?emit = "\<lambda>name. EmitChoEventTrace rnti name (m_selectedTargetCellId st)
      (m_servingRsrp st) (m_selectedTargetRsrp st) (m_selectedCandidateCount st)"
    let ?ack = "ms_of (cho_now s - target_x2_delay st (m_selectedTargetCellId st))"
    let ?s8 = "EmitChoDetailedTraceAt (ms_of (cho_now s + ?d)) rnti Step3_RrcReconfigCho_RxByUe
      (EmitChoDetailedTraceAt (ms_of (cho_now s)) rnti Step3_RrcReconfigCho_TxBySource
      (EmitChoDetailedTrace rnti Step3_ChoPreparedAtSource (?emit RrcReconfigurationWithChoPrepared
      (EmitChoDetailedTrace rnti Step2_AdmissionControlAndAck
      (EmitChoDetailedTraceAt ?ack rnti Step2_AdmissionProcessedByTarget
      (EmitChoDetailedTraceAt ?ack rnti Step2_HoAck_TxByTarget (?emit HoRequestAckReceived s)))))))"
    show "OnHandoverPreparationCompleted env rnti s =
      put_pending rnti ?st (snd (cho_schedule ?d CommandDelivered rnti ?s8))"
      using st by (simp add: OnHandoverPreparationCompleted_def Let_def case_prod_beta cho_simps)
    show "trace_phase rnti ?s8 = Some Delivering" using st by (simp add: cho_simps)
  qed (simp_all add: cho_simps)
  show ?thesis
    unfolding e using assms s8
    by (intro settled_by_timer) (auto simp: mid_def timer_ids_def)
qed

lemma PollConditionalPreparation_settled:
  assumes "mid rnti st Preparing s" and "\<not> m_choCommandDelivered st"
  shows "settled rnti s (PollConditionalPreparation env rnti s)"
proof -
  have st: "m_pendingCho s rnti = Some st" using assms by (simp add: mid_def)
  let ?p = "ComputeBestPreparedTargetCellId env (cho_rrc s) rnti (m_candidates st)"
  consider (no_rrc) "\<not> rrc_aggregated env" | (prepared) "rrc_aggregated env" "?p \<noteq> 0"
    | (retry) "rrc_aggregated env" "?p = 0" by blast
  then show ?thesis
  proof cases
    case no_rrc
    with CancelCho_settled [OF assms(1)] st show ?thesis by (simp add: PollConditionalPreparation_def)
  next
    case prepared
    let ?st = "st\<lparr>m_selectedTargetCellId := ?p,
      m_selectedTargetRsrp := ComputeTargetRsrpByCellId (m_candidates st) ?p\<rparr>"
    have e: "PollConditionalPreparation env rnti s =
      OnHandoverPreparationCompleted env rnti (put_pending rnti ?st s)"
      using prepared st by (simp add: PollConditionalPreparation_def Let_def)
    have "mid rnti ?st Preparing (put_pending rnti ?st s)"
      using assms(1) by (simp add: mid_def cho_simps timer_ids_def)
    from settled_trans_emit [OF OnHandoverPreparationCompleted_settled [OF this]] show ?thesis
      unfolding e by (simp add: cho_simps)
  next
    case retry
    let ?d = "if m_lastComputedX2Delay st = 0 then 1 else m_lastComputedX2Delay st"
    have e: "PollConditionalPreparation env rnti s =
      put_pending rnti (st\<lparr>m_ackEvent := cho_next_id s\<rparr>)
        (snd (cho_schedule ?d PollPreparation rnti s))"
      using retry st
      by (simp add: PollConditionalPreparation_def Let_def case_prod_beta cho_simps)
    show ?thesis
      unfolding e using assms
      by (intro settled_by_timer) (auto simp: mid_def timer_ids_def)
  qed
qed

lemma OnChoCommandDeliveredToUe_settled:
  assumes "mid rnti st Delivering s"
  shows "settled rnti s (OnChoCommandDeliveredToUe cfg env rnti s)"
proof -
  have st: "m_pendingCho s rnti = Some st" "m_candidates st \<noteq> []" using assms by (simp_all add: mid_def)
  let ?emit = "\<lambda>name. EmitChoEventTrace rnti name (m_selectedTargetCellId st)
    (m_servingRsrp st) (m_selectedTargetRsrp st) (m_selectedCandidateCount st)"
  let ?st = "st\<lparr>m_choCommandDelivered := True\<rparr>"
  let ?s2 = "put_pending rnti ?st
    (EmitChoDetailedTrace rnti Step3_UeReceivedChoCommand (?emit ChoStoredInUe s))"
  have ids: "timer_ids ?st = timer_ids st" by (simp add: timer_ids_def)
  show ?thesis
  proof (cases "above (m_selectedTargetRsrp st) (execution_threshold cfg (m_servingRsrp st))")
    case True
    let ?s3 = "?emit ChoExecutionConditionMet ?s2"
    have e: "OnChoCommandDeliveredToUe cfg env rnti s = ExecuteCho cfg env rnti ?s3"
      using True st by (simp add: OnChoCommandDeliveredToUe_def Let_def)
    have "mid rnti ?st ConditionMet ?s3"
      using assms by (simp add: mid_def cho_simps ids)
    from settled_trans_emit [OF ExecuteCho_settled [OF this]] show ?thesis
      unfolding e by (simp add: cho_simps)
  next
    case False
    then have e: "OnChoCommandDeliveredToUe cfg env rnti s = ?s2"
      using st by (simp add: OnChoCommandDeliveredToUe_def Let_def)
    show ?thesis
      unfolding e using assms by (simp add: settled_def cho_simps mid_def ids)
  qed
qed

text \<open>A settled handler re-establishes the invariant of every UE.\<close>

lemma settled_inv:
  assumes "agenda_ok s" and "\<forall>r. r \<noteq> rnti \<longrightarrow> ue_ok r s"
    and "\<forall>t\<in>set (cho_agenda s). tm_rnti t \<noteq> rnti" and "settled rnti s s'"
  shows "cho_inv s'"
proof -
  have new: "cho_agenda s' = cho_agenda s \<and> cho_next_id s' = cho_next_id s \<or>
    (\<exists>t. cho_agenda s' = cho_agenda s @ [t] \<and> tm_rnti t = rnti \<and> tm_id t = cho_next_id s \<and>
      cho_next_id s' = cho_next_id s + 1)"
    using assms(4) unfolding settled_def by (auto split: option.splits if_splits)
  have "agenda_ok s'"
    using assms(1) new by (fastforce simp: agenda_ok_def intro: less_SucI)
  moreover have "ue_ok r s'" for r
  proof (cases "r = rnti")
    case True
    have own: "filter (\<lambda>t. tm_rnti t = rnti) (cho_agenda s) = []"
      using assms(3) by (simp add: filter_empty_conv)
    show ?thesis
      using assms(4) own unfolding True ue_ok_def settled_def ue_timers_def
      by (auto split: option.splits if_splits)
  next
    case False
    have p: "m_pendingCho s' r = m_pendingCho s r" "trace_phase r s' = trace_phase r s"
      using assms(4) False by (simp_all add: settled_def)
    have tms: "ue_timers r s' = ue_timers r s"
      using new False by (auto simp: ue_timers_def)
    have mono: "cho_next_id s \<le> cho_next_id s'" using new by auto
    have u: "ue_ok r s" using assms(2) False by blast
    have old: "tm_rnti t = r" if "m_pendingCho s r = Some st" "t \<in> set (cho_agenda s')"
      "tm_id t \<in> timer_ids st" for st t
    proof -
      have "tm_id t < cho_next_id s" using u that by (auto simp: ue_ok_def)
      then have "t \<in> set (cho_agenda s)" using new that(2) by auto
      with u that show ?thesis by (auto simp: ue_ok_def)
    qed
    have less: "i < cho_next_id s'" if "m_pendingCho s r = Some st" "i \<in> timer_ids st" for st i
      using u that mono by (fastforce simp: ue_ok_def)
    show ?thesis
    proof (cases "m_pendingCho s r")
      case None
      with u show ?thesis by (simp add: ue_ok_def p tms)
    next
      case (Some st)
      with u old [OF Some] less [OF Some] show ?thesis by (simp add: ue_ok_def p tms)
    qed
  qed
  ultimately show ?thesis by (simp add: cho_inv_def)
qed

text \<open>A callback fires.\<close>

lemma run_timer_inv:
  assumes "cho_inv s" and "t \<in> set (cho_agenda s)"
  shows "cho_inv (run_timer cfg env t s)"
proof -
  let ?rnti = "tm_rnti t"
  let ?s1 = "s\<lparr>cho_now := tm_time t,
    cho_agenda := filter (\<lambda>u. tm_id u \<noteq> tm_id t) (cho_agenda s)\<rparr>"
  have a: "agenda_ok s" and u: "ue_ok r s" for r using assms(1) by (simp_all add: cho_inv_def)
  have t: "t \<in> set (ue_timers ?rnti s)" using assms(2) by (simp add: ue_timers_def)
  then obtain st where st: "m_pendingCho s ?rnti = Some st" "\<not> m_choCommandDelivered st"
    "ue_timers ?rnti s = [t]" "tm_id t = handler_event (tm_handler t) st"
    "trace_phase ?rnti s = Some (handler_phase (tm_handler t))" "m_candidates st \<noteq> []"
    "\<forall>i\<in>timer_ids st. i < cho_next_id s"
    "\<forall>v\<in>set (cho_agenda s). tm_id v \<in> timer_ids st \<longrightarrow> tm_rnti v = ?rnti"
    using u [of ?rnti] by (auto simp: ue_ok_def split: option.splits if_splits)
  have own: "v = t" if "v \<in> set (cho_agenda s)" "tm_rnti v = ?rnti" for v
  proof -
    have "v \<in> set (ue_timers ?rnti s)" using that by (simp add: ue_timers_def)
    then show ?thesis by (simp add: st(3))
  qed
  have keep: "filter (\<lambda>v. tm_id v \<noteq> tm_id t) (cho_agenda s) =
    filter (\<lambda>v. tm_rnti v \<noteq> ?rnti) (cho_agenda s)"
  proof (rule filter_cong [OF refl])
    fix v assume v: "v \<in> set (cho_agenda s)"
    have "inj_on tm_id (set (cho_agenda s))" using a by (simp add: agenda_ok_def distinct_map)
    with v assms(2) own [OF v] show "tm_id v \<noteq> tm_id t \<longleftrightarrow> tm_rnti v \<noteq> ?rnti"
      by (auto simp: inj_on_def)
  qed
  have a1: "agenda_ok ?s1"
    using a by (auto simp: agenda_ok_def distinct_map intro: inj_on_subset)
  have m: "mid ?rnti st (handler_phase (tm_handler t)) ?s1"
    using st own a by (auto simp: mid_def cho_simps agenda_ok_def)
  have others: "\<forall>r. r \<noteq> ?rnti \<longrightarrow> ue_ok r ?s1"
  proof (intro allI impI)
    fix r assume r: "r \<noteq> ?rnti"
    have "ue_timers r ?s1 = ue_timers r s"
      using r by (auto simp: ue_timers_def keep intro!: filter_cong)
    with u [of r] show "ue_ok r ?s1"
      by (auto simp: ue_ok_def cho_simps split: option.splits if_splits)
  qed
  have "settled ?rnti ?s1 (run_timer cfg env t s)"
  proof (cases "tm_handler t")
    case DecisionCompleted
    with OnChoDecisionCompleted_settled [of ?rnti st ?s1 env] m st(2) show ?thesis
      by (simp add: run_timer_def Let_def)
  next
    case PollPreparation
    with PollConditionalPreparation_settled [of ?rnti st ?s1 env] m st(2) show ?thesis
      by (simp add: run_timer_def Let_def)
  next
    case CommandDelivered
    with OnChoCommandDeliveredToUe_settled [of ?rnti st ?s1 cfg env] m show ?thesis
      by (simp add: run_timer_def Let_def)
  qed
  from settled_inv [OF a1 others _ this] show ?thesis by (simp add: keep)
qed

subsection \<open>A measurement report\<close>

lemma screen_neighbours_simps:
  assumes "screen_neighbours cfg rnti srv ms cs s = (cs', s')"
  shows "m_pendingCho s' = m_pendingCho s \<and> cho_agenda s' = cho_agenda s \<and>
    cho_next_id s' = cho_next_id s \<and> cho_now s' = cho_now s \<and> cho_rrc s' = cho_rrc s \<and>
    (r \<noteq> rnti \<longrightarrow> trace_phase r s' = trace_phase r s) \<and>
    (\<forall>p. trace_phase rnti s = Some p \<and> p \<in> {Idle, Deciding, Preparing, Delivering} \<longrightarrow>
      trace_phase rnti s' = Some p)"
  using assms
proof (induction ms arbitrary: cs s)
  case Nil
  then show ?case by simp
next
  case (Cons m ms)
  show ?case
  proof (cases "\<not> haveRsrpResult m \<or> \<not> IsValidNeighbour (physCellId m)")
    case True
    with Cons.prems have "screen_neighbours cfg rnti srv ms cs s = (cs', s')" by simp
    from Cons.IH [OF this] show ?thesis .
  next
    case False
    let ?s1 = "EmitChoEventTrace rnti A3ConditionSatisfied (physCellId m) srv (rsrpResult m) 0 s"
    show ?thesis
    proof (cases "above (rsrpResult m) (execution_threshold cfg srv)")
      case True
      with False Cons.prems have "screen_neighbours cfg rnti srv ms
        (cs @ [\<lparr>m_cellId = physCellId m, m_rsrp = rsrpResult m\<rparr>])
        (EmitChoDetailedTrace rnti Step1_CandidateEvaluation ?s1) = (cs', s')" by simp
      from Cons.IH [OF this] show ?thesis by (auto simp: cho_simps)
    next
      case no: False
      with False Cons.prems have "screen_neighbours cfg rnti srv ms cs
        (EmitChoDetailedTrace rnti Step1_CandidateEvaluation s) = (cs', s')" by simp
      from Cons.IH [OF this] show ?thesis by (auto simp: cho_simps)
    qed
  qed
qed

lemma cho_inv_cong:
  assumes "cho_inv s" and "m_pendingCho s' = m_pendingCho s" and "cho_agenda s' = cho_agenda s"
    and "cho_next_id s' = cho_next_id s" and "\<And>r. trace_phase r s' = trace_phase r s"
  shows "cho_inv s'"
  using assms(1) unfolding cho_inv_def agenda_ok_def ue_ok_def ue_timers_def assms(2-5) .

lemma waiting_phase:
  assumes "cho_inv s" and "m_pendingCho s rnti = Some st" and "\<not> m_choCommandDelivered st"
  shows "trace_phase rnti s \<in> {Some Deciding, Some Preparing, Some Delivering}"
proof -
  have "ue_ok rnti s" using assms(1) by (simp add: cho_inv_def)
  with assms(2,3) have "\<exists>h. trace_phase rnti s = Some (handler_phase h)"
    by (auto simp: ue_ok_def)
  then obtain h where "trace_phase rnti s = Some (handler_phase h)" ..
  then show ?thesis by (cases h) simp_all
qed

lemma idle_phase: "cho_inv s \<Longrightarrow> m_pendingCho s rnti = None \<Longrightarrow> trace_phase rnti s = Some Idle"
  by (auto simp: cho_inv_def ue_ok_def dest: spec [of _ rnti])

lemma CancelCho_inv:
  assumes "cho_inv s" and "m_pendingCho s rnti = Some st" and "\<not> m_choCommandDelivered st"
  shows "cho_inv (CancelCho rnti s) \<and> m_pendingCho (CancelCho rnti s) = (m_pendingCho s)(rnti := None) \<and>
    cho_rrc (CancelCho rnti s) = cho_rrc s \<and> cho_now (CancelCho rnti s) = cho_now s"
proof -
  have a: "agenda_ok s" and u: "ue_ok r s" for r using assms(1) by (simp_all add: cho_inv_def)
  obtain t where t: "ue_timers rnti s = [t]" "tm_id t = handler_event (tm_handler t) st"
    "\<forall>v\<in>set (cho_agenda s). tm_id v \<in> timer_ids st \<longrightarrow> tm_rnti v = rnti"
    using u [of rnti] assms(2,3) by (auto simp: ue_ok_def)
  have own: "tm_id v \<in> timer_ids st \<longleftrightarrow> tm_rnti v = rnti" if "v \<in> set (cho_agenda s)" for v
  proof
    assume "tm_rnti v = rnti"
    then have "v \<in> set (ue_timers rnti s)" using that by (simp add: ue_timers_def)
    then have "v = t" by (simp add: t(1))
    then show "tm_id v \<in> timer_ids st" using t(2) handler_event_in by simp
  qed (use t(3) that in blast)
  let ?s = "CancelCho rnti s"
  have ag: "cho_agenda ?s = filter (\<lambda>v. tm_rnti v \<noteq> rnti) (cho_agenda s)"
    using assms(2) own by (auto simp: CancelCho_def cho_simps intro!: filter_cong)
  have rest: "m_pendingCho ?s = (m_pendingCho s)(rnti := None)" "cho_next_id ?s = cho_next_id s"
    "cho_rrc ?s = cho_rrc s" "cho_now ?s = cho_now s"
    "r \<noteq> rnti \<Longrightarrow> trace_phase r ?s = trace_phase r s" for r
    using assms(2) by (simp_all add: CancelCho_def cho_simps)
  have idle: "trace_phase rnti ?s = Some Idle"
    using waiting_phase [OF assms] assms(2) by (auto simp: CancelCho_def cho_simps)
  have "agenda_ok ?s"
    using a by (auto simp: agenda_ok_def ag rest distinct_map intro: inj_on_subset)
  moreover have "ue_ok r ?s" for r
  proof (cases "r = rnti")
    case True
    then show ?thesis by (simp add: ue_ok_def rest idle ue_timers_def ag)
  next
    case False
    have "ue_timers r ?s = ue_timers r s"
      using False by (auto simp: ue_timers_def ag intro!: filter_cong)
    with u [of r] False show ?thesis
      by (auto simp: ue_ok_def rest ag split: option.splits if_splits)
  qed
  ultimately show ?thesis by (simp add: cho_inv_def rest)
qed

lemma start_preparation_inv:
  assumes "cho_inv s" and "m_pendingCho s rnti = None" and "cs \<noteq> []"
  shows "cho_inv (start_preparation cfg rnti srv sent d cs s)"
proof -
  let ?s1 = "EmitChoEventTrace rnti ChoPrepareStart (ComputeBestTargetCellId cs) srv
    (ComputeBestTargetRsrp cs) (of_nat (length cs)) s"
  have a: "agenda_ok s" and u: "ue_ok r s" for r using assms(1) by (simp_all add: cho_inv_def)
  have none: "\<forall>t\<in>set (cho_agenda s). tm_rnti t \<noteq> rnti"
    using u [of rnti] assms(2) by (auto simp: ue_ok_def ue_timers_def filter_empty_conv)
  obtain st where e: "start_preparation cfg rnti srv sent d cs s =
      put_pending rnti st (snd (cho_schedule (m_choDecisionDelay cfg) DecisionCompleted rnti ?s1))"
    and st: "m_candidates st = cs" "\<not> m_choCommandDelivered st" "m_decisionEvent st = cho_next_id s"
      "timer_ids st = {cho_next_id s, 0}"
    by (rule that) (auto simp: start_preparation_def Let_def case_prod_beta cho_simps timer_ids_def
        cho_schedule_def put_pending_def)
  have "settled rnti s (start_preparation cfg rnti srv sent d cs s)"
    unfolding e using assms(3) st a idle_phase [OF assms(1,2)]
    by (intro settled_by_timer) (auto simp: cho_simps agenda_ok_def)
  from settled_inv [OF a _ none this] u show ?thesis by blast
qed

lemma monitor_execution_inv:
  assumes "cho_inv s" and "m_pendingCho s rnti = Some st" and "m_choCommandDelivered st"
  shows "cho_inv (monitor_execution cfg env rnti mr st s)"
proof -
  let ?st = "st\<lparr>m_candidates := map (update_candidate (measResultListEutra mr)) (m_candidates st),
    m_servingRsrp := pCellRsrp mr\<rparr>"
  let ?s2 = "EmitChoDetailedTrace rnti Step3_ExecutionMonitoring (put_pending rnti ?st s)"
  have a: "agenda_ok s" and u: "ue_ok r s" for r using assms(1) by (simp_all add: cho_inv_def)
  have o: "ue_timers rnti s = []" "trace_phase rnti s = Some Monitoring" "m_candidates st \<noteq> []"
    "\<forall>i\<in>timer_ids st. i < cho_next_id s"
    "\<forall>t\<in>set (cho_agenda s). tm_id t \<in> timer_ids st \<longrightarrow> tm_rnti t = rnti"
    using u [of rnti] assms(2,3) by (simp_all add: ue_ok_def)
  have none: "\<forall>t\<in>set (cho_agenda s). tm_rnti t \<noteq> rnti"
    using o(1) by (simp add: ue_timers_def filter_empty_conv)
  have ids: "timer_ids ?st = timer_ids st" by (simp add: timer_ids_def)
  have "settled rnti s (monitor_execution cfg env rnti mr st s)"
  proof (cases "above (ComputeBestTargetRsrp (m_candidates ?st)) (execution_threshold cfg (pCellRsrp mr))")
    case True
    let ?s3 = "EmitChoEventTrace rnti ChoExecutionConditionMet (ComputeBestTargetCellId (m_candidates ?st))
      (pCellRsrp mr) (ComputeBestTargetRsrp (m_candidates ?st)) (m_selectedCandidateCount ?st) ?s2"
    have e: "monitor_execution cfg env rnti mr st s = ExecuteCho cfg env rnti ?s3"
      using True by (simp add: monitor_execution_def Let_def)
    have "mid rnti ?st ConditionMet ?s3"
      using o none a by (auto simp: mid_def cho_simps ids agenda_ok_def)
    from settled_trans_emit [OF ExecuteCho_settled [OF this]] show ?thesis
      unfolding e by (simp add: cho_simps)
  next
    case False
    then have e: "monitor_execution cfg env rnti mr st s = ?s2"
      by (simp add: monitor_execution_def Let_def)
    show ?thesis
      unfolding e using o none assms(3) by (auto simp: settled_def cho_simps ids)
  qed
  from settled_inv [OF a _ none this] u show ?thesis by blast
qed

lemma DoReportUeMeas_inv:
  assumes "cho_inv s"
  shows "cho_inv (DoReportUeMeas cfg env rnti mr s)"
proof (cases "measId mr \<notin> set (m_measIds cfg) \<or> \<not> haveMeasResultNeighCells mr \<or>
    measResultListEutra mr = []")
  case True
  with assms show ?thesis by (auto simp: DoReportUeMeas_def)
next
  case go: False
  show ?thesis
  proof (cases "\<exists>st. m_pendingCho s rnti = Some st \<and> m_choCommandDelivered st")
    case True
    then obtain st where st: "m_pendingCho s rnti = Some st" "m_choCommandDelivered st" by blast
    with go have "DoReportUeMeas cfg env rnti mr s = monitor_execution cfg env rnti mr st s"
      by (simp add: DoReportUeMeas_def Let_def)
    with monitor_execution_inv [OF assms st] show ?thesis by simp
  next
    case False
    let ?d = "ComputeServiceLinkDelay env (cho_rrc s) rnti"
    let ?s3 = "EmitChoDetailedTrace rnti Step1_MR_ProcessedBySource
      (EmitChoDetailedTraceAt (ms_of (cho_now s)) rnti Step1_MR_RxBySource
        (EmitChoDetailedTraceAt (ms_of (cho_now s - ?d)) rnti Step1_MR_TxByUe s))"
    obtain cs s4 where sc: "screen_neighbours cfg rnti (pCellRsrp mr) (measResultListEutra mr) [] ?s3 = (cs, s4)"
      by fastforce
    obtain p where p: "trace_phase rnti s = Some p" "p \<in> {Idle, Deciding, Preparing, Delivering}"
    proof (cases "m_pendingCho s rnti")
      case None
      with idle_phase [OF assms] that show ?thesis by simp
    next
      case (Some st)
      with False waiting_phase [OF assms Some] that show ?thesis by auto
    qed
    have tp: "trace_phase r s4 = trace_phase r s" for r
    proof (cases "r = rnti")
      case True
      have "trace_phase rnti s4 = Some p"
        using p screen_neighbours_simps [OF sc, of rnti] by (auto simp: cho_simps)
      with p(1) True show ?thesis by simp
    qed (use screen_neighbours_simps [OF sc, of r] in \<open>simp add: cho_simps\<close>)
    have same: "m_pendingCho s4 = m_pendingCho s" "cho_agenda s4 = cho_agenda s"
      "cho_next_id s4 = cho_next_id s"
      using screen_neighbours_simps [OF sc, of rnti] by (simp_all add: cho_simps)
    have inv4: "cho_inv s4" by (rule cho_inv_cong [OF assms same tp])
    show ?thesis
    proof (cases "m_pendingCho s rnti")
      case None
      then have e: "DoReportUeMeas cfg env rnti mr s =
        (if cs = [] then s4
         else start_preparation cfg rnti (pCellRsrp mr) (cho_now s - ?d) ?d cs s4)"
        using go sc by (simp add: DoReportUeMeas_def Let_def)
      show ?thesis
        unfolding e using inv4 start_preparation_inv [OF inv4] None same by simp
    next
      case (Some st)
      with False have nd: "\<not> m_choCommandDelivered st" by simp
      let ?s5 = "EmitChoEventTrace rnti ChoCancelledConditionLeave 0 (pCellRsrp mr) 0 0 s4"
      have e: "DoReportUeMeas cfg env rnti mr s =
        (if cs = [] then CancelCho rnti ?s5
         else start_preparation cfg rnti (pCellRsrp mr) (cho_now s - ?d) ?d cs (CancelCho rnti s4))"
        using go sc Some nd by (simp add: DoReportUeMeas_def Let_def)
      have p4: "m_pendingCho s4 rnti = Some st" using Some same by simp
      have "trace_phase r ?s5 = trace_phase r s4" for r
        using waiting_phase [OF inv4 p4 nd] by (auto simp: cho_simps)
      then have inv5: "cho_inv ?s5"
        by (intro cho_inv_cong [OF inv4]) (simp_all only: cho_simps)
      have p5: "m_pendingCho ?s5 rnti = Some st" using p4 by (simp add: cho_simps)
      have "cho_inv (start_preparation cfg rnti (pCellRsrp mr) (cho_now s - ?d) ?d cs (CancelCho rnti s4))"
        if "cs \<noteq> []"
        by (rule start_preparation_inv) (use CancelCho_inv [OF inv4 p4 nd] that in simp_all)
      then show ?thesis
        unfolding e using CancelCho_inv [OF inv5 p5 nd] by simp
    qed
  qed
qed

lemma cho_step_inv: "cho_step cfg env s s' \<Longrightarrow> cho_inv s \<Longrightarrow> cho_inv s'"
proof (induction rule: cho_step.induct)
  case (report s rnti mr)
  then show ?case by (rule DoReportUeMeas_inv)
next
  case (fire t s)
  then show ?case by (intro run_timer_inv) (simp_all add: due_def)
next
  case (rrc s r)
  then show ?case by (intro cho_inv_cong [OF rrc]) (simp_all add: cho_simps)
next
  case (wait s now)
  show ?case by (rule cho_inv_cong [OF wait(3)]) (simp_all add: cho_simps)
qed

lemma cho_initial_inv: "cho_inv (cho_initial r)"
  by (simp add: cho_inv_def agenda_ok_def ue_ok_def ue_timers_def cho_initial_def trace_phase_def
      ue_events_def)

lemma cho_reachable_inv: "cho_reachable cfg env s0 s \<Longrightarrow> cho_inv s0 \<Longrightarrow> cho_inv s"
  by (induction rule: cho_reachable.induct) (auto intro: cho_step_inv)

section \<open>The candidates and the thresholds\<close>

text \<open>\<open>max_element\<close> and the selection among prepared targets.\<close>

lemma max_element_from_greatest:
  "max_element_from c cs \<in> set (c # cs) \<and> (\<forall>x\<in>set (c # cs). m_rsrp x \<le> m_rsrp (max_element_from c cs))"
proof (induction cs arbitrary: c)
  case Nil
  then show ?case by simp
next
  case (Cons d cs)
  show ?case
  proof (cases "m_rsrp c < m_rsrp d")
    case True
    with Cons.IH [of d] show ?thesis by auto
  next
    case False
    then have "m_rsrp d \<le> m_rsrp c" by simp
    with False Cons.IH [of c] show ?thesis by (auto intro: order_trans)
  qed
qed

lemma best_target_member:
  "cs \<noteq> [] \<Longrightarrow> \<exists>c\<in>set cs. ComputeBestTargetCellId cs = m_cellId c \<and> ComputeBestTargetRsrp cs = m_rsrp c \<and>
     (\<forall>x\<in>set cs. m_rsrp x \<le> m_rsrp c)"
proof (cases cs)
  case (Cons c cs')
  with max_element_from_greatest [of c cs'] show ?thesis
    by (intro bexI [of _ "max_element_from c cs'"])
      (simp_all add: ComputeBestTargetCellId_def ComputeBestTargetRsrp_def)
qed simp

lemma best_prepared_found:
  "\<exists>c. (best_prepared P cs b r True = b \<and> c = r \<or>
        (\<exists>x\<in>set cs. P (m_cellId x) \<and> best_prepared P cs b r True = m_cellId x \<and> c = m_rsrp x)) \<and>
       r \<le> c \<and> (\<forall>x\<in>set cs. P (m_cellId x) \<longrightarrow> m_rsrp x \<le> c)"
proof (induction cs arbitrary: b r)
  case Nil
  then show ?case by auto
next
  case (Cons x cs)
  show ?case
  proof (cases "P (m_cellId x) \<and> m_rsrp x > r")
    case True
    obtain c where c: "best_prepared P cs (m_cellId x) (m_rsrp x) True = m_cellId x \<and> c = m_rsrp x \<or>
        (\<exists>y\<in>set cs. P (m_cellId y) \<and>
           best_prepared P cs (m_cellId x) (m_rsrp x) True = m_cellId y \<and> c = m_rsrp y)"
      "m_rsrp x \<le> c" "\<forall>y\<in>set cs. P (m_cellId y) \<longrightarrow> m_rsrp y \<le> c"
      using Cons.IH by blast
    have "r \<le> c" using True c(2) by (meson less_imp_le order_trans)
    with c True show ?thesis by auto
  next
    case False
    then have e: "best_prepared P (x # cs) b r True = best_prepared P cs b r True" by auto
    obtain c where c: "best_prepared P cs b r True = b \<and> c = r \<or>
        (\<exists>y\<in>set cs. P (m_cellId y) \<and> best_prepared P cs b r True = m_cellId y \<and> c = m_rsrp y)"
      "r \<le> c" "\<forall>y\<in>set cs. P (m_cellId y) \<longrightarrow> m_rsrp y \<le> c"
      using Cons.IH by blast
    have "P (m_cellId x) \<longrightarrow> m_rsrp x \<le> c" using False c(2) by auto
    with c show ?thesis unfolding e by auto
  qed
qed

lemma best_prepared_first:
  "(\<forall>x\<in>set cs. \<not> P (m_cellId x)) \<and> best_prepared P cs b r False = b \<or>
   (\<exists>x\<in>set cs. P (m_cellId x) \<and> best_prepared P cs b r False = m_cellId x \<and>
      (\<forall>y\<in>set cs. P (m_cellId y) \<longrightarrow> m_rsrp y \<le> m_rsrp x))"
proof (induction cs)
  case Nil
  then show ?case by simp
next
  case (Cons x cs)
  show ?case
  proof (cases "P (m_cellId x)")
    case False
    with Cons show ?thesis by auto
  next
    case True
    obtain c where c: "best_prepared P cs (m_cellId x) (m_rsrp x) True = m_cellId x \<and> c = m_rsrp x \<or>
        (\<exists>y\<in>set cs. P (m_cellId y) \<and>
           best_prepared P cs (m_cellId x) (m_rsrp x) True = m_cellId y \<and> c = m_rsrp y)"
      "m_rsrp x \<le> c" "\<forall>y\<in>set cs. P (m_cellId y) \<longrightarrow> m_rsrp y \<le> c"
      using best_prepared_found [of P cs "m_cellId x" "m_rsrp x"] by blast
    with True show ?thesis by auto
  qed
qed

lemma target_rsrp_member:
  "x \<in> set cs \<Longrightarrow> \<exists>y\<in>set cs. m_cellId y = m_cellId x \<and> ComputeTargetRsrpByCellId cs (m_cellId x) = m_rsrp y"
  by (induction cs) auto

lemma best_prepared_rsrp:
  assumes "ComputeBestPreparedTargetCellId env r rnti cs \<noteq> 0"
  shows "\<exists>y\<in>set cs. m_cellId y = ComputeBestPreparedTargetCellId env r rnti cs \<and>
    ComputeTargetRsrpByCellId cs (ComputeBestPreparedTargetCellId env r rnti cs) = m_rsrp y"
proof -
  let ?t = "ComputeBestPreparedTargetCellId env r rnti cs"
  have "?t = best_prepared (IsConditionalHandoverPrepared env r rnti) cs 0 0 False"
    using assms by (auto simp: ComputeBestPreparedTargetCellId_def)
  with best_prepared_first [of cs "IsConditionalHandoverPrepared env r rnti" 0 0] assms
  obtain x where "x \<in> set cs" "?t = m_cellId x" by auto
  with target_rsrp_member [of x cs] show ?thesis by auto
qed

text \<open>
  Every pending handover is one whose CHO command is still on its way, all of whose candidates,
  and the selected target, are above the threshold of the stored serving RSRP.
\<close>

definition cond_ok :: "cho_config \<Rightarrow> pending_cho \<Rightarrow> bool" where
  "cond_ok cfg st \<longleftrightarrow> \<not> m_choCommandDelivered st \<and>
     (\<forall>c\<in>set (m_candidates st). above (m_rsrp c) (execution_threshold cfg (m_servingRsrp st))) \<and>
     above (m_selectedTargetRsrp st) (execution_threshold cfg (m_servingRsrp st))"

definition all_cond_ok :: "cho_config \<Rightarrow> 'r cho \<Rightarrow> bool" where
  "all_cond_ok cfg s \<longleftrightarrow> (\<forall>rnti st. m_pendingCho s rnti = Some st \<longrightarrow> m_candidates st \<noteq> [] \<and> cond_ok cfg st)"

lemma all_cond_okD:
  "all_cond_ok cfg s \<Longrightarrow> m_pendingCho s rnti = Some st \<Longrightarrow> m_candidates st \<noteq> [] \<and> cond_ok cfg st"
  by (simp add: all_cond_ok_def)

lemma all_cond_ok_erase:
  "all_cond_ok cfg s \<Longrightarrow> m_pendingCho s' = (m_pendingCho s)(rnti := None) \<Longrightarrow> all_cond_ok cfg s'"
  by (auto simp: all_cond_ok_def split: if_splits)

lemma all_cond_ok_put:
  "all_cond_ok cfg s \<Longrightarrow> m_pendingCho s' = (m_pendingCho s)(rnti \<mapsto> st) \<Longrightarrow> m_candidates st \<noteq> [] \<Longrightarrow>
   cond_ok cfg st \<Longrightarrow> all_cond_ok cfg s'"
  by (auto simp: all_cond_ok_def split: if_splits)

lemma CancelCho_pending: "m_pendingCho (CancelCho rnti s) = (m_pendingCho s)(rnti := None)"
  by (auto simp: CancelCho_def cho_simps split: option.split)

lemma ExecuteCho_pending:
  assumes "m_pendingCho s rnti = Some st" and "m_candidates st \<noteq> []"
  shows "m_pendingCho (ExecuteCho cfg env rnti s) = (m_pendingCho s)(rnti := None)"
  using assms by (simp add: ExecuteCho_def Let_def CancelCho_pending cho_simps)

lemma screen_candidates:
  assumes "screen_neighbours cfg rnti srv ms cs s = (cs', s')"
    and "\<forall>c\<in>set cs. above (m_rsrp c) (execution_threshold cfg srv)"
  shows "\<forall>c\<in>set cs'. above (m_rsrp c) (execution_threshold cfg srv)"
  using assms
proof (induction ms arbitrary: cs s)
  case Nil
  then show ?case by simp
next
  case (Cons m ms)
  show ?case
  proof (cases "haveRsrpResult m \<and> IsValidNeighbour (physCellId m) \<and>
      above (rsrpResult m) (execution_threshold cfg srv)")
    case True
    with Cons.prems show ?thesis
      by (intro Cons.IH [of "cs @ [\<lparr>m_cellId = physCellId m, m_rsrp = rsrpResult m\<rparr>]"
            "EmitChoDetailedTrace rnti Step1_CandidateEvaluation
              (EmitChoEventTrace rnti A3ConditionSatisfied (physCellId m) srv (rsrpResult m) 0 s)"])
        auto
  next
    case False
    with Cons.prems(1) obtain s1 where "screen_neighbours cfg rnti srv ms cs s1 = (cs', s')"
      by (auto split: if_splits)
    from Cons.IH [OF this Cons.prems(2)] show ?thesis .
  qed
qed

lemma start_preparation_cond:
  assumes "all_cond_ok cfg s" and "cs \<noteq> []"
    and "\<forall>c\<in>set cs. above (m_rsrp c) (execution_threshold cfg srv)"
  shows "all_cond_ok cfg (start_preparation cfg rnti srv sent d cs s)"
proof -
  obtain st where st: "m_pendingCho (start_preparation cfg rnti srv sent d cs s) =
      (m_pendingCho s)(rnti \<mapsto> st)" "m_candidates st = cs" "\<not> m_choCommandDelivered st"
      "m_servingRsrp st = srv" "m_selectedTargetRsrp st = ComputeBestTargetRsrp cs"
    by (rule that) (auto simp: start_preparation_def Let_def case_prod_beta cho_simps)
  obtain c where "c \<in> set cs" "ComputeBestTargetRsrp cs = m_rsrp c"
    using best_target_member [OF assms(2)] by blast
  with assms(2,3) st have "cond_ok cfg st" by (auto simp: cond_ok_def)
  from all_cond_ok_put [OF assms(1) st(1) _ this] assms(2) st(2) show ?thesis by simp
qed

lemma DoReportUeMeas_cond:
  assumes "all_cond_ok cfg s"
  shows "all_cond_ok cfg (DoReportUeMeas cfg env rnti mr s)"
proof (cases "measId mr \<notin> set (m_measIds cfg) \<or> \<not> haveMeasResultNeighCells mr \<or>
    measResultListEutra mr = []")
  case True
  with assms show ?thesis by (auto simp: DoReportUeMeas_def)
next
  case go: False
  let ?d = "ComputeServiceLinkDelay env (cho_rrc s) rnti"
  let ?s3 = "EmitChoDetailedTrace rnti Step1_MR_ProcessedBySource
    (EmitChoDetailedTraceAt (ms_of (cho_now s)) rnti Step1_MR_RxBySource
      (EmitChoDetailedTraceAt (ms_of (cho_now s - ?d)) rnti Step1_MR_TxByUe s))"
  obtain cs s4 where sc: "screen_neighbours cfg rnti (pCellRsrp mr) (measResultListEutra mr) [] ?s3 = (cs, s4)"
    by fastforce
  have p4: "m_pendingCho s4 = m_pendingCho s"
    using screen_neighbours_simps [OF sc, of rnti] by (simp add: cho_simps)
  have c4: "\<forall>c\<in>set cs. above (m_rsrp c) (execution_threshold cfg (pCellRsrp mr))"
    using screen_candidates [OF sc] by simp
  have ok4: "all_cond_ok cfg s4" using assms p4 by (simp add: all_cond_ok_def)
  have nd: "\<not> (case m_pendingCho s rnti of None \<Rightarrow> False | Some st \<Rightarrow> m_choCommandDelivered st)"
    using assms by (auto simp: all_cond_ok_def cond_ok_def split: option.split)
  let ?s5 = "EmitChoEventTrace rnti ChoCancelledConditionLeave 0 (pCellRsrp mr) 0 0 s4"
  let ?s6 = "if m_pendingCho s rnti \<noteq> None then CancelCho rnti s4 else s4"
  have e: "DoReportUeMeas cfg env rnti mr s =
    (if cs = [] then (if m_pendingCho s rnti \<noteq> None then CancelCho rnti ?s5 else s4)
     else start_preparation cfg rnti (pCellRsrp mr) (cho_now s - ?d) ?d cs ?s6)"
    using go sc nd by (simp add: DoReportUeMeas_def Let_def)
  have ok5: "all_cond_ok cfg (CancelCho rnti ?s5)"
    using ok4 by (rule all_cond_ok_erase) (simp add: CancelCho_pending cho_simps)
  have ok6: "all_cond_ok cfg ?s6"
    using ok4 all_cond_ok_erase [OF ok4 CancelCho_pending] by simp
  show ?thesis
    unfolding e using ok4 ok5 start_preparation_cond [OF ok6 _ c4] by simp
qed

lemma OnChoDecisionCompleted_cond:
  assumes "all_cond_ok cfg s"
  shows "all_cond_ok cfg (OnChoDecisionCompleted env rnti s)"
proof (cases "m_pendingCho s rnti")
  case None
  with assms show ?thesis by (simp add: OnChoDecisionCompleted_def)
next
  case (Some st)
  from all_cond_okD [OF assms Some] have st: "m_candidates st \<noteq> []" "cond_ok cfg st" by simp_all
  let ?s1 = "EmitChoDetailedTrace rnti Step2_ChoDecisionCompleted s"
  obtain n mx dl s2 where p: "prepare_candidates env rnti (m_candidates st) 0 0 (\<lambda>_. None) ?s1 = (n, mx, dl, s2)"
    by (metis prod_cases4)
  have p2: "m_pendingCho s2 = m_pendingCho s"
    using prepare_candidates_simps(1) [OF p] by (simp add: cho_simps)
  show ?thesis
  proof (cases "rrc_aggregated env \<and> n \<noteq> 0")
    case True
    let ?st = "st\<lparr>m_hoRequestSentTime := cho_now s, m_x2DelayByTarget := dl,
      m_selectedCandidateCount := n, m_lastComputedX2Delay := (if mx = 0 then 1 else mx),
      m_ackEvent := cho_next_id s2\<rparr>"
    have "m_pendingCho (OnChoDecisionCompleted env rnti s) = (m_pendingCho s)(rnti \<mapsto> ?st)"
      using True Some st(1) p p2
      by (simp add: OnChoDecisionCompleted_def Let_def case_prod_beta cho_simps)
    then show ?thesis
      by (rule all_cond_ok_put [OF assms]) (use st in \<open>simp_all add: cond_ok_def\<close>)
  next
    case False
    then have "m_pendingCho (OnChoDecisionCompleted env rnti s) = (m_pendingCho s)(rnti := None)"
      using Some st(1) p p2
      by (auto simp: OnChoDecisionCompleted_def Let_def CancelCho_pending cho_simps)
    then show ?thesis by (rule all_cond_ok_erase [OF assms])
  qed
qed

lemma OnHandoverPreparationCompleted_cond:
  assumes "all_cond_ok cfg s"
  shows "all_cond_ok cfg (OnHandoverPreparationCompleted env rnti s)"
proof (cases "m_pendingCho s rnti")
  case None
  with assms show ?thesis by (simp add: OnHandoverPreparationCompleted_def)
next
  case (Some st)
  from all_cond_okD [OF assms Some] have st: "m_candidates st \<noteq> []" "cond_ok cfg st" by simp_all
  have "m_pendingCho (OnHandoverPreparationCompleted env rnti s) = (m_pendingCho s)(rnti \<mapsto>
    st\<lparr>m_lastComputedServiceDelay := ComputeServiceLinkDelay env (cho_rrc s) rnti,
       m_choCommandDelivered := False, m_choCommandDeliveryEvent := cho_next_id s\<rparr>)"
    using Some st(1)
    by (simp add: OnHandoverPreparationCompleted_def Let_def case_prod_beta cho_simps)
  then show ?thesis
    by (rule all_cond_ok_put [OF assms]) (use st in \<open>simp_all add: cond_ok_def\<close>)
qed

lemma PollConditionalPreparation_cond:
  assumes "all_cond_ok cfg s"
  shows "all_cond_ok cfg (PollConditionalPreparation env rnti s)"
proof (cases "m_pendingCho s rnti")
  case None
  with assms show ?thesis by (simp add: PollConditionalPreparation_def)
next
  case (Some st)
  from all_cond_okD [OF assms Some] have st: "m_candidates st \<noteq> []" "cond_ok cfg st" by simp_all
  let ?p = "ComputeBestPreparedTargetCellId env (cho_rrc s) rnti (m_candidates st)"
  let ?st = "st\<lparr>m_selectedTargetCellId := ?p,
    m_selectedTargetRsrp := ComputeTargetRsrpByCellId (m_candidates st) ?p\<rparr>"
  consider (no_rrc) "\<not> rrc_aggregated env" | (prepared) "rrc_aggregated env" "?p \<noteq> 0"
    | (retry) "rrc_aggregated env" "?p = 0" by blast
  then show ?thesis
  proof cases
    case no_rrc
    with Some all_cond_ok_erase [OF assms CancelCho_pending] show ?thesis
      by (simp add: PollConditionalPreparation_def)
  next
    case prepared
    have "cond_ok cfg ?st"
      using st best_prepared_rsrp [OF prepared(2)] by (auto simp: cond_ok_def)
    then have "all_cond_ok cfg (put_pending rnti ?st s)"
      by (intro all_cond_ok_put [OF assms, of _ rnti ?st]) (use st in \<open>simp_all add: cho_simps\<close>)
    from OnHandoverPreparationCompleted_cond [OF this] prepared Some show ?thesis
      by (simp add: PollConditionalPreparation_def Let_def)
  next
    case retry
    have "m_pendingCho (PollConditionalPreparation env rnti s) = (m_pendingCho s)(rnti \<mapsto>
      st\<lparr>m_ackEvent := cho_next_id s\<rparr>)"
      using retry Some by (simp add: PollConditionalPreparation_def Let_def case_prod_beta cho_simps)
    then show ?thesis
      by (rule all_cond_ok_put [OF assms]) (use st in \<open>simp_all add: cond_ok_def\<close>)
  qed
qed

lemma OnChoCommandDeliveredToUe_executes:
  assumes "all_cond_ok cfg s" and "m_pendingCho s rnti = Some st"
  shows "m_pendingCho (OnChoCommandDeliveredToUe cfg env rnti s) = (m_pendingCho s)(rnti := None)"
proof -
  from all_cond_okD [OF assms] have st: "m_candidates st \<noteq> []"
    "above (m_selectedTargetRsrp st) (execution_threshold cfg (m_servingRsrp st))"
    by (simp_all add: cond_ok_def)
  let ?st = "st\<lparr>m_choCommandDelivered := True\<rparr>"
  obtain s3 where e: "OnChoCommandDeliveredToUe cfg env rnti s = ExecuteCho cfg env rnti s3"
    and s3: "m_pendingCho s3 = (m_pendingCho s)(rnti \<mapsto> ?st)"
    using st assms(2) by (auto simp: OnChoCommandDeliveredToUe_def Let_def cho_simps)
  have "m_pendingCho s3 rnti = Some ?st" using s3 by simp
  from ExecuteCho_pending [OF this] st(1) s3 show ?thesis by (simp add: e)
qed

lemma cho_step_cond: "cho_step cfg env s s' \<Longrightarrow> all_cond_ok cfg s \<Longrightarrow> all_cond_ok cfg s'"
proof (induction rule: cho_step.induct)
  case (report s rnti mr)
  then show ?case by (rule DoReportUeMeas_cond)
next
  case (fire t s)
  let ?s1 = "s\<lparr>cho_now := tm_time t, cho_agenda := filter (\<lambda>u. tm_id u \<noteq> tm_id t) (cho_agenda s)\<rparr>"
  have ok: "all_cond_ok cfg ?s1" using fire.prems by (simp add: all_cond_ok_def)
  show ?case
  proof (cases "tm_handler t")
    case DecisionCompleted
    with OnChoDecisionCompleted_cond [OF ok] show ?thesis by (simp add: run_timer_def Let_def)
  next
    case PollPreparation
    with PollConditionalPreparation_cond [OF ok] show ?thesis by (simp add: run_timer_def Let_def)
  next
    case CommandDelivered
    have "all_cond_ok cfg (OnChoCommandDeliveredToUe cfg env (tm_rnti t) ?s1)"
    proof (cases "m_pendingCho ?s1 (tm_rnti t)")
      case None
      with ok show ?thesis by (simp add: OnChoCommandDeliveredToUe_def)
    next
      case (Some st)
      from all_cond_ok_erase [OF ok OnChoCommandDeliveredToUe_executes [OF ok Some]]
      show ?thesis .
    qed
    with CommandDelivered show ?thesis by (simp add: run_timer_def Let_def)
  qed
qed (simp_all add: all_cond_ok_def)

lemma cho_reachable_cond:
  "cho_reachable cfg env s0 s \<Longrightarrow> all_cond_ok cfg s0 \<Longrightarrow> all_cond_ok cfg s"
  by (induction rule: cho_reachable.induct) (auto intro: cho_step_cond)

section \<open>The abstract phase, and polling\<close>

definition phase_of :: "u16 \<Rightarrow> 'r cho \<Rightarrow> cho_phase" where
  "phase_of rnti s =
     (case m_pendingCho s rnti of
        None \<Rightarrow> Idle
      | Some st \<Rightarrow>
          if m_choCommandDelivered st then Monitoring
          else (case ue_timers rnti s of [] \<Rightarrow> Idle | t # _ \<Rightarrow> handler_phase (tm_handler t)))"

lemma inv_phase: "cho_inv s \<Longrightarrow> trace_phase rnti s = Some (phase_of rnti s)"
  by (auto simp: cho_inv_def ue_ok_def phase_of_def dest!: spec [of _ rnti]
      split: option.splits if_splits)

text \<open>\<open>k\<close> firings of the callback of one UE.\<close>

fun fire_rounds :: "cho_config \<Rightarrow> 'r cho_env \<Rightarrow> u16 \<Rightarrow> nat \<Rightarrow> 'r cho \<Rightarrow> 'r cho" where
  "fire_rounds cfg env rnti 0 s = s"
| "fire_rounds cfg env rnti (Suc k) s =
     (case ue_timers rnti s of [] \<Rightarrow> s | t # _ \<Rightarrow> fire_rounds cfg env rnti k (run_timer cfg env t s))"

definition retry_delay :: "pending_cho \<Rightarrow> int" where
  "retry_delay st = (if m_lastComputedX2Delay st = 0 then 1 else m_lastComputedX2Delay st)"

lemma none_prepared_zero:
  assumes "\<forall>c\<in>set cs. \<not> IsConditionalHandoverPrepared env r rnti (m_cellId c)"
  shows "ComputeBestPreparedTargetCellId env r rnti cs = 0"
  using best_prepared_first [of cs "IsConditionalHandoverPrepared env r rnti" 0 0] assms
  by (auto simp: ComputeBestPreparedTargetCellId_def)

lemma poll_round:
  assumes "cho_inv s" and "m_pendingCho s rnti = Some st" and "ue_timers rnti s = [t]"
    and "tm_handler t = PollPreparation" and "rrc_aggregated env"
    and "\<forall>c\<in>set (m_candidates st). \<not> IsConditionalHandoverPrepared env (cho_rrc s) rnti (m_cellId c)"
  shows "let s' = run_timer cfg env t s in
    m_pendingCho s' rnti = Some (st\<lparr>m_ackEvent := cho_next_id s\<rparr>) \<and>
    ue_timers rnti s' = [\<lparr>tm_id = cho_next_id s, tm_time = tm_time t + retry_delay st,
      tm_handler = PollPreparation, tm_rnti = rnti\<rparr>] \<and>
    cho_rrc s' = cho_rrc s \<and> m_choEventTrace s' = m_choEventTrace s \<and> cho_inv s'"
proof -
  let ?s1 = "s\<lparr>cho_now := tm_time t, cho_agenda := filter (\<lambda>u. tm_id u \<noteq> tm_id t) (cho_agenda s)\<rparr>"
  have tin: "t \<in> set (cho_agenda s)" "tm_rnti t = rnti"
    using assms(3) by (auto simp: ue_timers_def filter_eq_Cons_iff)
  have e: "run_timer cfg env t s = put_pending rnti (st\<lparr>m_ackEvent := cho_next_id s\<rparr>)
      (snd (cho_schedule (retry_delay st) PollPreparation rnti ?s1))"
    using assms(2,4,5) tin(2) none_prepared_zero [OF assms(6)]
    by (simp add: run_timer_def Let_def PollConditionalPreparation_def case_prod_beta cho_simps
        retry_delay_def)
  have "filter (\<lambda>u. tm_rnti u = rnti) (filter (\<lambda>u. tm_id u \<noteq> tm_id t) (cho_agenda s)) =
    filter (\<lambda>u. tm_id u \<noteq> tm_id t) (ue_timers rnti s)"
    by (simp add: ue_timers_def conj_commute)
  then have none: "filter (\<lambda>u. tm_rnti u = rnti) (filter (\<lambda>u. tm_id u \<noteq> tm_id t) (cho_agenda s)) = []"
    using assms(3) by simp
  show ?thesis
    using run_timer_inv [OF assms(1) tin(1), of cfg env] none
    unfolding Let_def e by (simp add: cho_simps ue_timers_def)
qed

lemma poll_rounds_stay:
  assumes "cho_inv s" and "m_pendingCho s rnti = Some st" and "ue_timers rnti s = [t]"
    and "tm_handler t = PollPreparation" and "rrc_aggregated env"
    and "\<forall>c\<in>set (m_candidates st). \<not> IsConditionalHandoverPrepared env (cho_rrc s) rnti (m_cellId c)"
  shows "\<exists>st' t'. m_pendingCho (fire_rounds cfg env rnti k s) rnti = Some st' \<and>
    m_candidates st' = m_candidates st \<and> ue_timers rnti (fire_rounds cfg env rnti k s) = [t'] \<and>
    tm_handler t' = PollPreparation \<and> tm_time t' = tm_time t + int k * retry_delay st \<and>
    m_choEventTrace (fire_rounds cfg env rnti k s) = m_choEventTrace s"
  using assms
proof (induction k arbitrary: s st t)
  case 0
  then show ?case by simp
next
  case (Suc k)
  let ?s = "run_timer cfg env t s"
  let ?st = "st\<lparr>m_ackEvent := cho_next_id s\<rparr>"
  from poll_round [OF Suc.prems, of cfg] have s': "m_pendingCho ?s rnti = Some ?st"
    "ue_timers rnti ?s = [\<lparr>tm_id = cho_next_id s, tm_time = tm_time t + retry_delay st,
      tm_handler = PollPreparation, tm_rnti = rnti\<rparr>]"
    "cho_rrc ?s = cho_rrc s" "m_choEventTrace ?s = m_choEventTrace s" "cho_inv ?s"
    by (simp_all add: Let_def)
  have rd: "retry_delay ?st = retry_delay st" by (simp add: retry_delay_def)
  have "fire_rounds cfg env rnti (Suc k) s = fire_rounds cfg env rnti k ?s"
    using Suc.prems(3) by simp
  moreover have "\<exists>st' t'. m_pendingCho (fire_rounds cfg env rnti k ?s) rnti = Some st' \<and>
    m_candidates st' = m_candidates ?st \<and> ue_timers rnti (fire_rounds cfg env rnti k ?s) = [t'] \<and>
    tm_handler t' = PollPreparation \<and>
    tm_time t' = tm_time t + retry_delay st + int k * retry_delay ?st \<and>
    m_choEventTrace (fire_rounds cfg env rnti k ?s) = m_choEventTrace ?s"
    using Suc.IH [OF s'(5,1,2) _ Suc.prems(5)] Suc.prems(6) s'(3) by simp
  ultimately show ?case using s'(4) rd by (simp add: algebra_simps)
qed

section \<open>The target of an execution\<close>

lemma ExecuteCho_target:
  assumes "m_pendingCho s rnti = Some st"
  shows "cho_rrc (ExecuteCho cfg env rnti s) = cho_rrc s \<or>
    (\<exists>c\<in>set (m_candidates st). m_enableHandoverExecution cfg \<and> rrc_aggregated env \<and>
       IsConditionalHandoverPrepared env (cho_rrc s) rnti (m_cellId c) \<and>
       (\<forall>d\<in>set (m_candidates st).
          IsConditionalHandoverPrepared env (cho_rrc s) rnti (m_cellId d) \<longrightarrow> m_rsrp d \<le> m_rsrp c) \<and>
       cho_rrc (ExecuteCho cfg env rnti s) =
         snd (ExecuteConditionalHandover env rnti (m_cellId c) (cho_rrc s)))"
proof -
  let ?t = "ComputeBestPreparedTargetCellId env (cho_rrc s) rnti (m_candidates st)"
  have cancel: "cho_rrc (CancelCho rnti s) = cho_rrc s"
    using assms by (simp add: CancelCho_def cho_simps)
  show ?thesis
  proof (cases "rrc_aggregated env \<and> ?t \<noteq> 0 \<and> m_candidates st \<noteq> [] \<and> m_enableHandoverExecution cfg")
    case False
    with assms cancel show ?thesis
      by (auto simp: ExecuteCho_def Let_def perform_handover_def cho_simps)
  next
    case True
    then have "?t = best_prepared (IsConditionalHandoverPrepared env (cho_rrc s) rnti) (m_candidates st) 0 0 False"
      by (simp add: ComputeBestPreparedTargetCellId_def)
    with best_prepared_first [of "m_candidates st" "IsConditionalHandoverPrepared env (cho_rrc s) rnti" 0 0] True
    obtain c where c: "c \<in> set (m_candidates st)" "?t = m_cellId c"
      "IsConditionalHandoverPrepared env (cho_rrc s) rnti (m_cellId c)"
      "\<forall>d\<in>set (m_candidates st).
          IsConditionalHandoverPrepared env (cho_rrc s) rnti (m_cellId d) \<longrightarrow> m_rsrp d \<le> m_rsrp c"
      by auto
    have "cho_rrc (ExecuteCho cfg env rnti s) =
         snd (ExecuteConditionalHandover env rnti ?t (cho_rrc s))"
      using True assms
      by (simp add: ExecuteCho_def Let_def perform_handover_def cho_simps split: prod.split)
    with c True show ?thesis by auto
  qed
qed

section \<open>Disposal and the acknowledgement times\<close>

lemma fold_cancel_simps:
  "m_pendingCho (fold (\<lambda>n s. case m_pendingCho s (of_nat n) of None \<Rightarrow> s | Some st \<Rightarrow> cancel_timers st s) ns s) =
     m_pendingCho s \<and>
   set (cho_agenda (fold (\<lambda>n s. case m_pendingCho s (of_nat n) of None \<Rightarrow> s | Some st \<Rightarrow> cancel_timers st s) ns s)) =
     {t \<in> set (cho_agenda s). \<forall>n\<in>set ns. \<forall>st. m_pendingCho s (of_nat n) = Some st \<longrightarrow> tm_id t \<notin> timer_ids st}"
proof (induction ns arbitrary: s)
  case Nil
  then show ?case by simp
next
  case (Cons n ns)
  show ?case
  proof (cases "m_pendingCho s (of_nat n)")
    case None
    with Cons.IH [of s] show ?thesis by auto
  next
    case (Some st)
    with Cons.IH [of "cancel_timers st s"] show ?thesis by (auto simp: cho_simps)
  qed
qed

lemma DoDispose_empties:
  assumes "cho_inv s"
  shows "cho_agenda (DoDispose s) = [] \<and> (\<forall>rnti. m_pendingCho (DoDispose s) rnti = None)"
proof -
  have key: False if t: "t \<in> set (cho_agenda s)"
    and n: "\<forall>n\<in>{0..<65536}. \<forall>st. m_pendingCho s (of_nat n) = Some st \<longrightarrow> tm_id t \<notin> timer_ids st" for t
  proof -
    let ?r = "tm_rnti t"
    have "ue_ok ?r s" using assms by (simp add: cho_inv_def)
    moreover have tt: "t \<in> set (ue_timers ?r s)" using t by (simp add: ue_timers_def)
    ultimately obtain st where st: "m_pendingCho s ?r = Some st" "tm_id t = handler_event (tm_handler t) st"
      by (auto simp: ue_ok_def split: option.splits if_splits)
    have "unat ?r < 65536" using unsigned_less [of ?r] by simp
    moreover have "of_nat (unat ?r) = ?r" by simp
    ultimately have "tm_id t \<notin> timer_ids st" using n st(1)
      by (metis atLeastLessThan_iff zero_le)
    with st(2) handler_event_in show False by simp
  qed
  have "{t \<in> set (cho_agenda s). \<forall>n\<in>set [0..<65536].
      \<forall>st. m_pendingCho s (of_nat n) = Some st \<longrightarrow> tm_id t \<notin> timer_ids st} = {}"
    unfolding set_upt using key by blast
  then have "set (cho_agenda (DoDispose s)) = {}"
    using fold_cancel_simps [of "[0..<65536]" s] unfolding DoDispose_def Let_def by simp
  then show ?thesis by (simp add: DoDispose_def Let_def)
qed

lemma latest_ack_bounds:
  "m \<le> latest_ack cfg st i cs m \<and>
   (\<forall>j<length cs. ack_time cfg st (i + j) (cs ! j) \<le> latest_ack cfg st i cs m) \<and>
   (latest_ack cfg st i cs m = m \<or>
    (\<exists>j<length cs. latest_ack cfg st i cs m = ack_time cfg st (i + j) (cs ! j)))"
proof (induction cs arbitrary: i m)
  case Nil
  then show ?case by simp
next
  case (Cons c cs)
  let ?m = "if ack_time cfg st i c > m then ack_time cfg st i c else m"
  from Cons.IH [of ?m "Suc i"] have IH: "?m \<le> latest_ack cfg st i (c # cs) m"
    "\<forall>j<length cs. ack_time cfg st (Suc i + j) (cs ! j) \<le> latest_ack cfg st i (c # cs) m"
    "latest_ack cfg st i (c # cs) m = ?m \<or>
      (\<exists>j<length cs. latest_ack cfg st i (c # cs) m = ack_time cfg st (Suc i + j) (cs ! j))"
    by simp_all
  have "\<forall>j<length (c # cs). ack_time cfg st (i + j) ((c # cs) ! j) \<le> latest_ack cfg st i (c # cs) m"
  proof (intro allI impI)
    fix j assume "j < length (c # cs)"
    then show "ack_time cfg st (i + j) ((c # cs) ! j) \<le> latest_ack cfg st i (c # cs) m"
      using IH(1,2) by (cases j) (simp_all split: if_splits)
  qed
  moreover have "m \<le> latest_ack cfg st i (c # cs) m" using IH(1) by (simp split: if_splits)
  moreover have "latest_ack cfg st i (c # cs) m = m \<or>
    (\<exists>j<length (c # cs). latest_ack cfg st i (c # cs) m = ack_time cfg st (i + j) ((c # cs) ! j))"
  proof (cases "latest_ack cfg st i (c # cs) m = ?m")
    case True
    then show ?thesis by (auto split: if_splits intro!: exI [of _ 0])
  next
    case False
    with IH(3) obtain j where "j < length cs"
      "latest_ack cfg st i (c # cs) m = ack_time cfg st (Suc i + j) (cs ! j)" by blast
    then show ?thesis by (intro disjI2 exI [of _ "Suc j"]) simp
  qed
  ultimately show ?case by blast
qed

section \<open>Correctness of the conditional handover\<close>

text \<open>A gNB on which only cell 7 acknowledges a preparation; its state counts the executions.\<close>

definition demo_env :: "nat cho_env" where
  "demo_env = \<lparr>rrc_aggregated = True, PrepareConditionalHandover = (\<lambda>rnti cell r. (True, r)),
     IsConditionalHandoverPrepared = (\<lambda>r rnti cell. cell = 7),
     ExecuteConditionalHandover = (\<lambda>rnti cell r. (True, r + 1)),
     TriggerHandover = (\<lambda>rnti cell r. r), HasUeManager = (\<lambda>r rnti. True),
     UeComponentCarrierId = (\<lambda>r rnti. 0), UeImsi = (\<lambda>r rnti. 1),
     ComponentCarrierToCellId = (\<lambda>r cc. 3), NodeList = (\<lambda>r. []), DistanceFrom = (\<lambda>r a b. 0),
     to_time = (\<lambda>x. 0)\<rparr>"

definition demo_cfg :: cho_config where
  "demo_cfg = \<lparr>m_measIds = [1], m_hysteresisDb = 3, m_a3OffsetDb = 0, m_choDecisionDelay = 1000000,
     m_hoPreparationDelay = 8000000, m_hoPreparationPerTargetOffset = 1000000,
     m_pathSwitchDelay = 2000000, m_enableHandoverExecution = True\<rparr>"

definition demo_report :: "u16 \<Rightarrow> meas_results" where
  "demo_report cell = \<lparr>measId = 1, pCellRsrp = 40, haveMeasResultNeighCells = True,
     measResultListEutra = [\<lparr>physCellId = cell, haveRsrpResult = True, rsrpResult = 50\<rparr>]\<rparr>"

lemmas demo_defs = demo_env_def demo_cfg_def demo_report_def

definition demo_prepared :: "u16 \<Rightarrow> nat cho" where
  "demo_prepared cell = DoReportUeMeas demo_cfg demo_env 5 (demo_report cell) (cho_initial 0)"

lemma demo_prepared_reachable: "cho_reachable demo_cfg demo_env (cho_initial 0) (demo_prepared cell)"
  unfolding demo_prepared_def by (rule reach_step [OF reach_start cho_step.report])

lemma demo_prepared_state:
  "\<exists>st. m_pendingCho (demo_prepared cell) 5 = Some st \<and>
    m_candidates st = [\<lparr>m_cellId = cell, m_rsrp = 50\<rparr>] \<and> m_servingRsrp st = 40 \<and>
    \<not> m_choCommandDelivered st \<and> m_decisionEvent st = 1"
  "cho_agenda (demo_prepared cell) = [\<lparr>tm_id = 1, tm_time = 1000000,
     tm_handler = DecisionCompleted, tm_rnti = 5\<rparr>]"
  by (simp_all add: demo_prepared_def DoReportUeMeas_def demo_defs Let_def cho_initial_def cho_simps
      IsValidNeighbour_def execution_threshold_def above_def start_preparation_def case_prod_beta)

text \<open>
  C8: Whatever the UEs report, the gNB's RRC does and in whatever order the callbacks fire, the
  event trace of each UE is a run of the specified protocol (prepare, request, acknowledge,
  deliver, store, condition met, execute, trigger, with cancellation only where it is allowed),
  and the phase it has reached is the one the pending state and its callback stand for.
\<close>

theorem cho_trace_follows_protocol:
  assumes "cho_reachable cfg env (cho_initial r) s"
  shows "trace_phase rnti s = Some (phase_of rnti s)"
  by (rule inv_phase [OF cho_reachable_inv [OF assms cho_initial_inv]])

theorem cho_trace_follows_protocol_witness:
  "trace_phase 5 (demo_prepared 7) = Some Deciding"
  using cho_trace_follows_protocol [OF demo_prepared_reachable, of 5 7] demo_prepared_state [of 7]
  by (auto simp: phase_of_def ue_timers_def)

text \<open>
  No stale callback ever fires: every scheduled callback belongs to a UE with a pending
  handover, is the only one of that UE, and is the one whose \<open>EventId\<close> the pending state
  stores for that stage.
\<close>

lemma cho_callbacks_current:
  assumes "cho_reachable cfg env (cho_initial r) s" and "t \<in> set (cho_agenda s)"
  shows "\<exists>st. m_pendingCho s (tm_rnti t) = Some st \<and> tm_id t = handler_event (tm_handler t) st \<and>
    (\<forall>u\<in>set (cho_agenda s). tm_rnti u = tm_rnti t \<longrightarrow> u = t)"
proof -
  have "cho_inv s" by (rule cho_reachable_inv [OF assms(1) cho_initial_inv])
  then have u: "ue_ok (tm_rnti t) s" by (simp add: cho_inv_def)
  have t: "t \<in> set (ue_timers (tm_rnti t) s)" using assms(2) by (simp add: ue_timers_def)
  with u obtain st where st: "m_pendingCho s (tm_rnti t) = Some st"
    "tm_id t = handler_event (tm_handler t) st" "ue_timers (tm_rnti t) s = [t]"
    by (auto simp: ue_ok_def split: option.splits if_splits)
  have "u = t" if "u \<in> set (cho_agenda s)" "tm_rnti u = tm_rnti t" for u
  proof -
    have "u \<in> set (ue_timers (tm_rnti t) s)" using that by (simp add: ue_timers_def)
    then show ?thesis by (simp add: st(3))
  qed
  with st show ?thesis by blast
qed

text \<open>
  C31: The execution-monitoring stage is never entered: in every reachable state no pending
  handover has its command delivered, because the condition tested on delivery compares the
  very measurements that made the target a candidate. The delivery of the command ends the
  pending handover at once, by execution or cancellation.
\<close>

theorem cho_executes_on_delivery:
  assumes "cho_reachable cfg env (cho_initial r) s" and "m_pendingCho s rnti = Some st"
  shows "\<not> m_choCommandDelivered st \<and> trace_phase rnti s \<noteq> Some Monitoring \<and>
    m_pendingCho (OnChoCommandDeliveredToUe cfg env rnti s) rnti = None"
proof -
  have ok: "all_cond_ok cfg s"
    by (rule cho_reachable_cond [OF assms(1)]) (simp add: all_cond_ok_def cho_initial_def)
  have i: "cho_inv s" by (rule cho_reachable_inv [OF assms(1) cho_initial_inv])
  have nd: "\<not> m_choCommandDelivered st"
    using all_cond_okD [OF ok assms(2)] by (simp add: cond_ok_def)
  with waiting_phase [OF i assms(2)] OnChoCommandDeliveredToUe_executes [OF ok assms(2)] show ?thesis
    by auto
qed

theorem cho_executes_on_delivery_witness:
  "m_pendingCho (OnChoCommandDeliveredToUe demo_cfg demo_env 5 (demo_prepared 7)) 5 = None"
proof -
  obtain st where "m_pendingCho (demo_prepared 7) 5 = Some st" using demo_prepared_state by blast
  from cho_executes_on_delivery [OF demo_prepared_reachable this] show ?thesis by blast
qed

text \<open>
  C32: A handover is only ever executed towards a candidate that the target gNB has prepared, and
  among the prepared candidates it is one of greatest RSRP; otherwise the RRC is left alone.
\<close>

theorem cho_executes_best_prepared:
  assumes "m_pendingCho s rnti = Some st"
  shows "cho_rrc (ExecuteCho cfg env rnti s) = cho_rrc s \<or>
    (\<exists>c\<in>set (m_candidates st). m_enableHandoverExecution cfg \<and> rrc_aggregated env \<and>
       IsConditionalHandoverPrepared env (cho_rrc s) rnti (m_cellId c) \<and>
       (\<forall>d\<in>set (m_candidates st).
          IsConditionalHandoverPrepared env (cho_rrc s) rnti (m_cellId d) \<longrightarrow> m_rsrp d \<le> m_rsrp c) \<and>
       cho_rrc (ExecuteCho cfg env rnti s) =
         snd (ExecuteConditionalHandover env rnti (m_cellId c) (cho_rrc s)))"
  by (rule ExecuteCho_target [OF assms])

theorem cho_executes_best_prepared_witness:
  "cho_rrc (ExecuteCho demo_cfg demo_env 5 (demo_prepared 9)) = cho_rrc (demo_prepared 9)"
proof -
  obtain st where st: "m_pendingCho (demo_prepared 9) 5 = Some st"
    "m_candidates st = [\<lparr>m_cellId = 9, m_rsrp = 50\<rparr>]" using demo_prepared_state by blast
  from cho_executes_best_prepared [OF st(1), of demo_cfg demo_env] st(2) show ?thesis
    by (auto simp: demo_env_def)
qed

text \<open>
  C33: A preparation that no target acknowledges is polled for ever: after any number of polls
  the handover is still pending with the same candidates, the next poll lies one retry delay
  after the last, and nothing was reported. Only a new measurement report ends it.
\<close>

theorem cho_polls_without_bound:
  assumes "cho_inv s" and "m_pendingCho s rnti = Some st" and "ue_timers rnti s = [t]"
    and "tm_handler t = PollPreparation" and "rrc_aggregated env"
    and "\<forall>c\<in>set (m_candidates st). \<not> IsConditionalHandoverPrepared env (cho_rrc s) rnti (m_cellId c)"
  shows "\<exists>st' t'. m_pendingCho (fire_rounds cfg env rnti k s) rnti = Some st' \<and>
    m_candidates st' = m_candidates st \<and> ue_timers rnti (fire_rounds cfg env rnti k s) = [t'] \<and>
    tm_handler t' = PollPreparation \<and> tm_time t' = tm_time t + int k * retry_delay st \<and>
    m_choEventTrace (fire_rounds cfg env rnti k s) = m_choEventTrace s"
  by (rule poll_rounds_stay [OF assms])

lemma demo_polling:
  "\<exists>(s :: nat cho) st t. cho_inv s \<and> m_pendingCho s 5 = Some st \<and> ue_timers 5 s = [t] \<and>
    tm_handler t = PollPreparation \<and> m_candidates st = [\<lparr>m_cellId = 9, m_rsrp = 50\<rparr>]"
proof -
  let ?t = "\<lparr>tm_id = 1, tm_time = 1000000, tm_handler = DecisionCompleted, tm_rnti = 5\<rparr>"
  let ?s = "run_timer demo_cfg demo_env ?t (demo_prepared 9)"
  obtain st where st: "m_pendingCho (demo_prepared 9) 5 = Some st"
    "m_candidates st = [\<lparr>m_cellId = 9, m_rsrp = 50\<rparr>]" using demo_prepared_state by blast
  have i: "cho_inv ?s"
    by (rule run_timer_inv [OF cho_reachable_inv [OF demo_prepared_reachable cho_initial_inv]])
      (simp add: demo_prepared_state)
  have "\<exists>st'. m_pendingCho ?s 5 = Some st' \<and> m_candidates st' = m_candidates st \<and>
      (\<exists>t. cho_agenda ?s = [t] \<and> tm_handler t = PollPreparation \<and> tm_rnti t = 5)"
    using st demo_prepared_state(2) [of 9]
    by (auto simp: run_timer_def Let_def OnChoDecisionCompleted_def case_prod_beta cho_simps
        demo_env_def)
  then obtain st' t where s': "m_pendingCho ?s 5 = Some st'" "m_candidates st' = m_candidates st"
    "cho_agenda ?s = [t]" "tm_handler t = PollPreparation" "tm_rnti t = 5" by blast
  have "ue_timers 5 ?s = [t]" using s'(3,5) by (simp add: ue_timers_def)
  with i st(2) s' show ?thesis by metis
qed

theorem cho_polls_without_bound_witness:
  "\<exists>(s :: nat cho) st' t'. m_pendingCho (fire_rounds demo_cfg demo_env 5 1000 s) 5 = Some st' \<and>
    ue_timers 5 (fire_rounds demo_cfg demo_env 5 1000 s) = [t'] \<and> tm_handler t' = PollPreparation"
proof -
  from demo_polling obtain s :: "nat cho" and st t where s: "cho_inv s" "m_pendingCho s 5 = Some st"
    "ue_timers 5 s = [t]" "tm_handler t = PollPreparation"
    "m_candidates st = [\<lparr>m_cellId = 9, m_rsrp = 50\<rparr>]" by blast
  from cho_polls_without_bound [OF s(1-4), where env = demo_env and cfg = demo_cfg and k = 1000] s(5) show ?thesis
    by (fastforce simp: demo_env_def)
qed

text \<open>
  \<open>DoDispose\<close> leaves nothing behind: no pending handover, and none of the algorithm's
  callbacks remains scheduled.
\<close>

lemma cho_dispose_clears:
  assumes "cho_reachable cfg env (cho_initial r) s"
  shows "cho_agenda (DoDispose s) = [] \<and> (\<forall>rnti. m_pendingCho (DoDispose s) rnti = None)"
  by (rule DoDispose_empties [OF cho_reachable_inv [OF assms cho_initial_inv]])

text \<open>
  \<open>ComputeAllAckReceivedTime\<close> is the latest arrival: no candidate's acknowledgement
  arrives later, and the value is the arrival of one of them or the time of the request.
\<close>

lemma all_acks_received_by:
  "m_candidates st \<noteq> [] \<longrightarrow>
   (\<forall>j<length (m_candidates st).
      ack_time cfg st j (m_candidates st ! j) \<le> ComputeAllAckReceivedTime cfg st s) \<and>
   (ComputeAllAckReceivedTime cfg st s = m_hoRequestSentTime st \<or>
    (\<exists>j<length (m_candidates st).
       ComputeAllAckReceivedTime cfg st s = ack_time cfg st j (m_candidates st ! j)))"
  using latest_ack_bounds [of "m_hoRequestSentTime st" cfg st 0 "m_candidates st"]
  by (simp add: ComputeAllAckReceivedTime_def)

end
