(* ===== verification/Sequence_Number.thy ===== *)
theory Sequence_Number
  imports Prelude
begin

text \<open>
  \<open>ns3::SequenceNumber32\<close> (src/src/network/utils/sequence-number.h): the instance
  \<open>SequenceNumber<uint32_t, int32_t>\<close> of the template, with its circular comparison and
  signed difference. A sequence number is its \<open>uint32_t\<close> value; an \<open>int32_t\<close> is an
  integer.
\<close>

type_synonym seq32 = "32 word"

definition seq_pre_inc :: "seq32 \<Rightarrow> seq32" where
  "seq_pre_inc a = a + 1"

definition seq_post_inc :: "seq32 \<Rightarrow> seq32 \<times> seq32" where
  "seq_post_inc a = (a, a + 1)"

definition seq_pre_dec :: "seq32 \<Rightarrow> seq32" where
  "seq_pre_dec a = a - 1"

definition seq_post_dec :: "seq32 \<Rightarrow> seq32 \<times> seq32" where
  "seq_post_dec a = (a, a - 1)"

definition seq_add_delta :: "seq32 \<Rightarrow> int \<Rightarrow> seq32" where
  "seq_add_delta a d = a + word_of_int d"

definition seq_sub_delta :: "seq32 \<Rightarrow> int \<Rightarrow> seq32" where
  "seq_sub_delta a d = a - word_of_int d"

definition seq_add :: "seq32 \<Rightarrow> seq32 \<Rightarrow> seq32" where
  "seq_add a b = a + b"

text \<open>
  \<open>operator-\<close> of two sequence numbers. A \<open>static_cast\<close> to \<open>int32_t\<close> reads the word as
  signed; negating the least \<open>int32_t\<close> overflows, which is undefined.
\<close>

definition neg_int32 :: "int \<Rightarrow> int option" where
  "neg_int32 x = (if x = - (2 ^ 31) then None else Some (- x))"

definition seq_max :: seq32 where "seq_max = 0xffffffff"

definition seq_half :: seq32 where "seq_half = 0x7fffffff"

definition seq_diff :: "seq32 \<Rightarrow> seq32 \<Rightarrow> int option" where
  "seq_diff a b =
     (if a > b
      then let diff = a - b in
        if diff < seq_half then Some (sint diff) else neg_int32 (sint (seq_max - a + 1 + b))
      else let diff = b - a in
        if diff < seq_half then neg_int32 (sint diff) else Some (sint (seq_max - b + 1 + a)))"

definition seq_gt :: "seq32 \<Rightarrow> seq32 \<Rightarrow> bool" where
  "seq_gt a b \<longleftrightarrow> (a > b \<and> a - b \<le> seq_half) \<or> (b > a \<and> b - a > seq_half)"

definition seq_eq :: "seq32 \<Rightarrow> seq32 \<Rightarrow> bool" where
  "seq_eq a b \<longleftrightarrow> a = b"

definition seq_neq :: "seq32 \<Rightarrow> seq32 \<Rightarrow> bool" where
  "seq_neq a b \<longleftrightarrow> a \<noteq> b"

definition seq_le :: "seq32 \<Rightarrow> seq32 \<Rightarrow> bool" where
  "seq_le a b \<longleftrightarrow> \<not> seq_gt a b"

definition seq_ge :: "seq32 \<Rightarrow> seq32 \<Rightarrow> bool" where
  "seq_ge a b \<longleftrightarrow> seq_gt a b \<or> seq_eq a b"

definition seq_lt :: "seq32 \<Rightarrow> seq32 \<Rightarrow> bool" where
  "seq_lt a b \<longleftrightarrow> \<not> seq_gt a b \<and> a \<noteq> b"

section \<open>Circular order and positions\<close>

lemma unat_diff_le: "b \<le> a \<Longrightarrow> unat (a - b) = unat a - unat (b :: seq32)"
  by (simp add: unat_sub)

lemma unat_seq_half [simp]: "unat seq_half = 2 ^ 31 - 1"
  by (simp add: seq_half_def)

text \<open>The distance from \<open>b\<close> up to \<open>a\<close>, going round.\<close>

lemma unat_diff_mod: "unat (a - b) = nat ((int (unat a) - int (unat (b :: seq32))) mod 2 ^ 32)"
proof -
  have "uint (a - b) = (uint a - uint b) mod 2 ^ 32"
    by (simp add: uint_word_ariths)
  then show ?thesis by (metis unat_eq_nat_uint uint_nat)
qed

lemma seq_gt_unat:
  "seq_gt a b \<longleftrightarrow> (unat b < unat a \<and> unat a - unat b < 2 ^ 31) \<or>
     (unat a < unat b \<and> 2 ^ 31 \<le> unat b - unat a)"
  by (auto simp: seq_gt_def word_less_nat_alt word_le_nat_alt unat_diff_le)

lemma seq_trichotomy:
  "(seq_gt a b \<and> \<not> seq_gt b a \<and> a \<noteq> b) \<or> (\<not> seq_gt a b \<and> seq_gt b a \<and> a \<noteq> b) \<or>
   (\<not> seq_gt a b \<and> \<not> seq_gt b a \<and> a = b)"
proof -
  have "a = b \<longleftrightarrow> unat a = unat b" by (rule word_unat_eq_iff)
  then show ?thesis
    using unsigned_less [of a] unsigned_less [of b] by (auto simp: seq_gt_unat)
qed

lemma seq_lt_gt: "seq_lt a b \<longleftrightarrow> seq_gt b a"
  using seq_trichotomy [of a b] by (auto simp: seq_lt_def)

text \<open>Positions of a byte stream, less than half the circle apart, compare as their numbers.\<close>

abbreviation seq_of :: "nat \<Rightarrow> seq32" where
  "seq_of n \<equiv> word_of_nat n"

lemma unat_seq_of: "unat (seq_of n) = n mod 2 ^ 32"
  by (simp add: unsigned_of_nat take_bit_eq_mod)

lemma seq_gt_positions:
  assumes "x < y + 2 ^ 31" and "y < x + 2 ^ 31"
  shows "seq_gt (seq_of x) (seq_of y) \<longleftrightarrow> y < x"
proof -
  have *: "seq_gt (seq_of v) (seq_of u) \<and> \<not> seq_gt (seq_of u) (seq_of v)"
    if "u < v" "v < u + 2 ^ 31" for u v :: nat
  proof -
    have d: "v = u + (v - u)" "0 < v - u" "v - u < 2 ^ 31" using that by simp_all
    define d where "d = v - u"
    note d = d [folded d_def]
    have "u mod 2 ^ 32 + d < 2 ^ 32 \<or> 2 ^ 32 \<le> u mod 2 ^ 32 + d"
      by (rule le_less_linear [THEN disj_commute [THEN iffD1]])
    then show ?thesis
    proof
      assume a: "u mod 2 ^ 32 + d < 2 ^ 32"
      have "v mod 2 ^ 32 = (u mod 2 ^ 32 + d) mod 2 ^ 32" by (simp only: d(1) mod_add_left_eq)
      also have "\<dots> = u mod 2 ^ 32 + d" using a by (rule mod_less)
      finally have v: "v mod 2 ^ 32 = u mod 2 ^ 32 + d" .
      show ?thesis unfolding seq_gt_unat unat_seq_of v using d(2,3) by simp
    next
      assume a: "2 ^ 32 \<le> u mod 2 ^ 32 + d"
      have "v mod 2 ^ 32 = (u mod 2 ^ 32 + d) mod 2 ^ 32" by (simp only: d(1) mod_add_left_eq)
      also have "\<dots> = u mod 2 ^ 32 + d - 2 ^ 32"
      proof -
        have "u mod 2 ^ 32 < 2 ^ 32" by simp
        then have "u mod 2 ^ 32 + d - 2 ^ 32 < 2 ^ 32" using d(3) by simp
        with a show ?thesis by (simp add: le_mod_geq)
      qed
      finally have v: "v mod 2 ^ 32 = u mod 2 ^ 32 + d - 2 ^ 32" .
      have "u mod 2 ^ 32 < 2 ^ 32" by simp
      then show ?thesis
        unfolding seq_gt_unat unat_seq_of v using a d(2,3) by simp linarith
    qed
  qed
  consider "x < y" | "x = y" | "y < x" by linarith
  then show ?thesis
  proof cases
    case 1
    with * [of x y] assms show ?thesis by simp
  next
    case 2
    then show ?thesis by (simp add: seq_gt_unat)
  next
    case 3
    with * [of y x] assms show ?thesis by simp
  qed
qed

text \<open>The difference is the signed reading of the modular difference.\<close>

lemma neg_int32_sint: "neg_int32 (sint w) = (if w = 2 ^ 31 then None else Some (sint (- w)))"
  for w :: seq32
proof (cases "w = 2 ^ 31")
  case True
  then show ?thesis by (simp add: neg_int32_def)
next
  case False
  have "sint (2 ^ 31 :: seq32) = - (2 ^ 31)" by simp
  with False have n: "sint w \<noteq> - (2 ^ 31)" using signed_word_eqI [of w "2 ^ 31"] by metis
  have "- (2 ^ 31) \<le> sint w" "sint w < 2 ^ 31" using sint_ge [of w] sint_lt [of w] by simp_all
  with n have "signed_take_bit 31 (- sint w) = - sint w"
    by (intro signed_take_bit_int_eq_self) simp_all
  then have "sint (- w) = - sint w" by (simp add: sint_word_minus)
  with n False show ?thesis by (simp add: neg_int32_def)
qed

lemma seq_diff_value:
  "seq_diff a b = (if a > b \<and> a - b = 2 ^ 31 then None else Some (sint (a - b)))"
proof -
  have round: "seq_max - x + 1 + y = y - x" for x y :: seq32
    by (simp add: seq_max_def)
  have opp: "b - a = - (a - b)" by simp
  have half: "(b - a = 2 ^ 31) \<longleftrightarrow> (a - b = 2 ^ 31)"
  proof -
    have "- (2 ^ 31 :: seq32) = 2 ^ 31" by simp
    then show ?thesis by (metis opp minus_diff_eq)
  qed
  have nl: "\<not> (2 ^ 31 :: seq32) < seq_half" by (simp add: seq_half_def)
  show ?thesis
  proof (cases "a > b")
    case True
    then show ?thesis
      using half nl by (auto simp: seq_diff_def Let_def round neg_int32_sint)
  next
    case False
    then show ?thesis
      using half nl by (auto simp: seq_diff_def Let_def round neg_int32_sint)
  qed
qed

lemma seq_diff_positions:
  assumes "x < y + 2 ^ 31" and "y < x + 2 ^ 31"
  shows "seq_diff (seq_of x) (seq_of y) = Some (int x - int y)"
proof -
  let ?d = "int x - int y"
  have w: "seq_of x - seq_of y = word_of_int ?d" by simp
  have "signed_take_bit 31 ?d = ?d"
    by (rule signed_take_bit_int_eq_self) (use assms in simp_all)
  then have s: "sint (seq_of x - seq_of y) = ?d"
    unfolding w sint_sbintrunc' by simp
  have "seq_of x - seq_of y \<noteq> 2 ^ 31"
  proof
    assume "seq_of x - seq_of y = 2 ^ 31"
    then have "?d = sint (2 ^ 31 :: seq32)" using s by (simp only:)
    then show False using assms by simp
  qed
  then show ?thesis unfolding seq_diff_value s by simp
qed

section \<open>The operators of SequenceNumber32\<close>

text \<open>
  C29: Two positions of a byte stream less than half the sequence space apart compare as their
  sequence numbers do, and \<open>operator-\<close> returns their signed distance, across the wrap-around.
\<close>

theorem sequence_numbers_follow_positions:
  assumes "x < y + 2 ^ 31" and "y < x + 2 ^ 31"
  shows "(seq_gt (seq_of x) (seq_of y) \<longleftrightarrow> y < x) \<and> (seq_lt (seq_of x) (seq_of y) \<longleftrightarrow> x < y) \<and>
    (seq_le (seq_of x) (seq_of y) \<longleftrightarrow> x \<le> y) \<and> (seq_eq (seq_of x) (seq_of y) \<longleftrightarrow> x = y) \<and>
    seq_diff (seq_of x) (seq_of y) = Some (int x - int y) \<and>
    seq_add_delta (seq_of y) (int x - int y) = seq_of x"
proof -
  have g: "seq_gt (seq_of x) (seq_of y) \<longleftrightarrow> y < x" "seq_gt (seq_of y) (seq_of x) \<longleftrightarrow> x < y"
    by (rule seq_gt_positions; use assms in simp)+
  have e: "seq_of x = seq_of y \<longleftrightarrow> x = y"
    using g seq_trichotomy [of "seq_of x" "seq_of y"] by (metis nat_neq_iff)
  have "seq_add_delta (seq_of y) (int x - int y) = seq_of x"
    by (simp add: seq_add_delta_def)
  with g e seq_diff_positions [OF assms] show ?thesis
    unfolding seq_lt_gt seq_le_def seq_eq_def by auto
qed

theorem sequence_numbers_follow_positions_witness:
  "seq_lt (seq_of (2 ^ 32 - 1)) (seq_of (2 ^ 32 + 4)) \<and>
   seq_diff (seq_of (2 ^ 32 + 4)) (seq_of (2 ^ 32 - 1)) = Some 5"
  using sequence_numbers_follow_positions [of "2 ^ 32 - 1" "2 ^ 32 + 4"]
    sequence_numbers_follow_positions [of "2 ^ 32 + 4" "2 ^ 32 - 1"] by simp

text \<open>
  C30: For every pair of sequence numbers \<open>operator-\<close> is the signed reading of the modular
  difference, except for a pair exactly \<open>2^31\<close> apart whose first number is the larger one:
  there it negates the least \<open>int32_t\<close>, which is undefined.
\<close>

theorem sequence_difference_exact:
  "seq_diff a b = (if a > b \<and> a - b = 2 ^ 31 then None else Some (sint (a - b)))"
  by (rule seq_diff_value)

text \<open>
  The comparison operators are consistent for all pairs: of two different numbers exactly
  one is greater, \<open><=\<close>, \<open>>=\<close> and \<open><\<close> are what \<open>>\<close> and equality make them.
\<close>

lemma sequence_comparison_consistent:
  "(seq_gt a b \<longleftrightarrow> \<not> seq_gt b a \<and> a \<noteq> b) \<and> (seq_lt a b \<longleftrightarrow> seq_gt b a) \<and>
   (seq_le a b \<longleftrightarrow> seq_ge b a) \<and> (seq_neq a b \<longleftrightarrow> \<not> seq_eq a b)"
  using seq_trichotomy [of a b]
  by (auto simp: seq_lt_gt seq_le_def seq_ge_def seq_eq_def seq_neq_def)

end
