(* ===== verification/Tcp_Rx_Buffer.thy ===== *)
theory Tcp_Rx_Buffer
  imports Sequence_Number
begin

text \<open>
  \<open>ns3::TcpRxBuffer\<close> (src/src/internet/model/tcp-rx-buffer.cc): the reassembly buffer of a
  TCP receiver, with its SACK list. A packet is the list of its bytes; \<open>m_data\<close>, a
  \<open>std::map\<close> keyed by sequence number, is the list of its entries in iteration order;
  \<open>None\<close> is a failed \<open>NS_ASSERT\<close> or undefined behaviour.
\<close>

type_synonym packet = "u8 list"

type_synonym sack_block = "seq32 \<times> seq32"

definition GetSize :: "packet \<Rightarrow> u32" where
  "GetSize p = of_nat (length p)"

definition CreateFragment :: "packet \<Rightarrow> u32 \<Rightarrow> u32 \<Rightarrow> packet option" where
  "CreateFragment p start len =
     (if unat start + unat len \<le> length p then Some (take (unat len) (drop (unat start) p)) else None)"

record rx_buffer =
  m_sackList :: "sack_block list"
  m_nextRxSeq :: seq32
  m_finSeq :: seq32
  m_gotFin :: bool
  m_size :: u32
  m_maxBuffer :: u32
  m_availBytes :: u32
  m_data :: "(seq32 \<times> packet) list"

definition rx_create :: "u32 \<Rightarrow> rx_buffer" where
  "rx_create n = \<lparr>m_sackList = [], m_nextRxSeq = n, m_finSeq = 0, m_gotFin = False, m_size = 0,
     m_maxBuffer = 32768, m_availBytes = 0, m_data = []\<rparr>"

definition rx_NextRxSequence :: "rx_buffer \<Rightarrow> seq32" where
  "rx_NextRxSequence s = m_nextRxSeq s"

definition rx_SetNextRxSequence :: "seq32 \<Rightarrow> rx_buffer \<Rightarrow> rx_buffer" where
  "rx_SetNextRxSequence n s = s\<lparr>m_nextRxSeq := n\<rparr>"

definition rx_SetMaxBufferSize :: "u32 \<Rightarrow> rx_buffer \<Rightarrow> rx_buffer" where
  "rx_SetMaxBufferSize n s = s\<lparr>m_maxBuffer := n\<rparr>"

definition rx_Size :: "rx_buffer \<Rightarrow> u32" where
  "rx_Size s = m_size s"

definition rx_Available :: "rx_buffer \<Rightarrow> u32" where
  "rx_Available s = m_availBytes s"

definition rx_IncNextRxSequence :: "rx_buffer \<Rightarrow> rx_buffer option" where
  "rx_IncNextRxSequence s =
     (if m_size s = 0 then Some (s\<lparr>m_nextRxSeq := m_nextRxSeq s + 1\<rparr>) else None)"

definition rx_MaxRxSequence :: "rx_buffer \<Rightarrow> seq32" where
  "rx_MaxRxSequence s =
     (if m_gotFin s then m_finSeq s
      else case m_data s of
             [] \<Rightarrow> m_nextRxSeq s + m_maxBuffer s
           | (k, p) # _ \<Rightarrow>
               if seq_gt (m_nextRxSeq s) k then k + m_maxBuffer s else m_nextRxSeq s + m_maxBuffer s)"

definition rx_SetFinSequence :: "seq32 \<Rightarrow> rx_buffer \<Rightarrow> rx_buffer" where
  "rx_SetFinSequence f s =
     (let s1 = s\<lparr>m_gotFin := True, m_finSeq := f\<rparr>
      in if m_nextRxSeq s1 = f then s1\<lparr>m_nextRxSeq := m_nextRxSeq s1 + 1\<rparr> else s1)"

definition rx_Finished :: "rx_buffer \<Rightarrow> bool" where
  "rx_Finished s \<longleftrightarrow> m_gotFin s \<and> seq_lt (m_finSeq s) (m_nextRxSeq s)"

section \<open>The SACK list\<close>

text \<open>
  The merging loop of \<open>UpdateSackList\<close>: the front block, the blocks already passed, the
  blocks still to examine. A merge puts the union in front and starts over.
\<close>

function sack_merge ::
  "sack_block \<Rightarrow> sack_block list \<Rightarrow> sack_block list \<Rightarrow> sack_block list option" where
  "sack_merge b seen [] = Some (b # seen)"
| "sack_merge b seen (c # rest) =
     (if fst b = snd c
      then (if seq_lt (fst c) (snd b) then sack_merge (fst c, snd b) [] (seen @ rest) else None)
      else if snd b = fst c
      then (if seq_lt (fst b) (snd c) then sack_merge (fst b, snd c) [] (seen @ rest) else None)
      else sack_merge b (seen @ [c]) rest)"
  by pat_completeness auto
termination
  by (relation "measures [\<lambda>(b, seen, rest). length seen + length rest, \<lambda>(b, seen, rest). length rest]")
    auto

definition rx_UpdateSackList :: "seq32 \<Rightarrow> seq32 \<Rightarrow> rx_buffer \<Rightarrow> rx_buffer option" where
  "rx_UpdateSackList head tail s = do {
     ns_assert (seq_gt head (m_nextRxSeq s));
     l \<leftarrow> sack_merge (head, tail) [] (m_sackList s);
     Some (s\<lparr>m_sackList := (if length l > 4 then butlast l else l)\<rparr>) }"

fun sack_clear :: "seq32 \<Rightarrow> sack_block list \<Rightarrow> sack_block list option" where
  "sack_clear seq [] = Some []"
| "sack_clear seq (b # bs) =
     (if \<not> seq_lt (fst b) (snd b) then None
      else if seq_le (snd b) seq then sack_clear seq bs
      else map_option ((#) b) (sack_clear seq bs))"

section \<open>Adding a segment\<close>

text \<open>
  The loop that removes the overlap with the stored packets: the rest of the map, the bounds of
  the new data and \<open>m_size\<close>; packets embedded in the new data are erased.
\<close>

fun remove_overlap ::
  "(seq32 \<times> packet) list \<Rightarrow> seq32 \<Rightarrow> seq32 \<Rightarrow> u32 \<Rightarrow> (seq32 \<times> packet) list \<times> seq32 \<times> seq32 \<times> u32" where
  "remove_overlap [] headSeq tailSeq sz = ([], headSeq, tailSeq, sz)"
| "remove_overlap ((k, p) # m) headSeq tailSeq sz =
     (if \<not> seq_le k tailSeq then ((k, p) # m, headSeq, tailSeq, sz)
      else let lastByteSeq = k + GetSize p in
        if seq_gt lastByteSeq headSeq \<and> seq_gt k headSeq \<and> seq_lt lastByteSeq tailSeq
        then remove_overlap m headSeq tailSeq (sz - GetSize p)
        else
          let headSeq' = (if seq_gt lastByteSeq headSeq \<and> seq_le k headSeq then lastByteSeq else headSeq);
              tailSeq' = (if seq_gt lastByteSeq headSeq \<and> seq_ge lastByteSeq tailSeq then k else tailSeq);
              (m', h, t, n) = remove_overlap m headSeq' tailSeq' sz
          in ((k, p) # m', h, t, n))"

text \<open>\<open>m_data[key] = p\<close>.\<close>

fun data_put :: "seq32 \<Rightarrow> packet \<Rightarrow> (seq32 \<times> packet) list \<Rightarrow> (seq32 \<times> packet) list" where
  "data_put k p [] = [(k, p)]"
| "data_put k p ((k', p') # m) =
     (if seq_lt k k' then (k, p) # (k', p') # m
      else if seq_lt k' k then (k', p') # data_put k p m
      else (k', p) # m)"

text \<open>The loop that advances \<open>m_nextRxSeq\<close> over the contiguous packets.\<close>

fun advance_next ::
  "(seq32 \<times> packet) list \<Rightarrow> seq32 \<Rightarrow> u32 \<Rightarrow> sack_block list \<Rightarrow> (seq32 \<times> u32 \<times> sack_block list) option" where
  "advance_next [] nextRx avail sacks = Some (nextRx, avail, sacks)"
| "advance_next ((k, p) # m) nextRx avail sacks =
     (if seq_lt k nextRx then advance_next m nextRx avail sacks
      else if seq_gt k nextRx then Some (nextRx, avail, sacks)
      else case sack_clear (k + GetSize p) sacks of
             None \<Rightarrow> None
           | Some sacks' \<Rightarrow> advance_next m (k + GetSize p) (avail + GetSize p) sacks')"

text \<open>The parts of \<open>Add\<close>: the window, and storing the new data between its bounds.\<close>

definition trim_to_window ::
  "(seq32 \<times> packet) list \<Rightarrow> u32 \<Rightarrow> seq32 \<Rightarrow> seq32 \<Rightarrow> seq32 \<times> seq32" where
  "trim_to_window data maxBuffer headSeq tailSeq =
     (case data of
        [] \<Rightarrow> (headSeq, tailSeq)
      | (k, _) # _ \<Rightarrow>
          let maxSeq = k + maxBuffer;
              t = (if seq_lt maxSeq tailSeq then maxSeq else tailSeq)
          in (if seq_lt t headSeq then t else headSeq, t))"

definition store_segment :: "packet \<Rightarrow> seq32 \<Rightarrow> seq32 \<Rightarrow> rx_buffer \<Rightarrow> rx_buffer option" where
  "store_segment p headSeq tailSeq s = do {
     ns_assert (headSeq \<notin> fst ` set (m_data s));
     let s2 = s\<lparr>m_data := data_put headSeq p (m_data s)\<rparr>;
     s3 \<leftarrow> (if seq_gt headSeq (m_nextRxSeq s2) then rx_UpdateSackList headSeq tailSeq s2 else Some s2);
     let s4 = s3\<lparr>m_size := m_size s3 + GetSize p\<rparr>;
     (nextRx, avail, sacks) \<leftarrow> advance_next (m_data s4) (m_nextRxSeq s4) (m_availBytes s4) (m_sackList s4);
     let s5 = s4\<lparr>m_nextRxSeq := nextRx, m_availBytes := avail, m_sackList := sacks\<rparr>;
     Some (if m_gotFin s5 \<and> m_nextRxSeq s5 = m_finSeq s5
           then s5\<lparr>m_nextRxSeq := m_nextRxSeq s5 + 1\<rparr> else s5) }"

definition rx_Add :: "packet \<Rightarrow> seq32 \<Rightarrow> rx_buffer \<Rightarrow> (bool \<times> rx_buffer) option" where
  "rx_Add p seq s =
     (let headSeq0 = (if seq_lt seq (m_nextRxSeq s) then m_nextRxSeq s else seq);
          (headSeq1, tailSeq1) =
            trim_to_window (m_data s) (m_maxBuffer s) headSeq0 (seq + GetSize p);
          (data, headSeq, tailSeq, sz) = remove_overlap (m_data s) headSeq1 tailSeq1 (m_size s);
          s1 = s\<lparr>m_data := data, m_size := sz\<rparr>
      in if seq_ge headSeq tailSeq then Some (False, s1)
         else do {
           start \<leftarrow> seq_diff headSeq seq;
           len \<leftarrow> seq_diff tailSeq headSeq;
           p' \<leftarrow> CreateFragment p (word_of_int start) (word_of_int len);
           ns_assert (word_of_int len = GetSize p');
           s' \<leftarrow> store_segment p' headSeq tailSeq s1;
           Some (True, s') })"

section \<open>Reading\<close>

text \<open>The loop of \<open>Extract\<close>: the bytes still wanted, the output so far.\<close>

function extract_loop ::
  "(seq32 \<times> packet) list \<Rightarrow> u32 \<Rightarrow> packet \<Rightarrow> rx_buffer \<Rightarrow> (packet \<times> rx_buffer) option" where
  "extract_loop [] n out s = (if n = 0 then Some (out, s\<lparr>m_data := []\<rparr>) else None)"
| "extract_loop ((k, p) # m) n out s =
     (if n = 0 then Some (out, s\<lparr>m_data := (k, p) # m\<rparr>)
      else if \<not> seq_le k (m_nextRxSeq s) then None
      else if GetSize p \<le> n
      then extract_loop m (n - GetSize p) (out @ p)
             (s\<lparr>m_size := m_size s - GetSize p, m_availBytes := m_availBytes s - GetSize p\<rparr>)
      else do {
        first \<leftarrow> CreateFragment p 0 n;
        rest \<leftarrow> CreateFragment p n (GetSize p - n);
        Some (out @ first,
          s\<lparr>m_data := filter (\<lambda>(k', _). k' \<noteq> k) (data_put (k + n) rest ((k, p) # m)),
            m_size := m_size s - n, m_availBytes := m_availBytes s - n\<rparr>) })"
  by pat_completeness auto
termination by (relation "measure (\<lambda>(m, n, out, s). length m)") auto

text \<open>The packet is null when nothing was extracted.\<close>

definition rx_Extract :: "u32 \<Rightarrow> rx_buffer \<Rightarrow> (packet option \<times> rx_buffer) option" where
  "rx_Extract maxSize s =
     (let extractSize = min maxSize (m_availBytes s)
      in if extractSize = 0 then Some (None, s)
         else do {
           ns_assert (m_data s \<noteq> []);
           (out, s') \<leftarrow> extract_loop (m_data s) extractSize [] s;
           Some (if GetSize out = 0 then None else Some out, s') })"

section \<open>Blocks at positions of the stream\<close>

text \<open>
  The abstract view: a stored packet lies at a position (a natural number) of the sender's byte
  stream. Positions in one window of less than half the sequence space compare like their
  sequence numbers.
\<close>

type_synonym block = "nat \<times> packet"

definition in_win :: "nat \<Rightarrow> nat \<Rightarrow> bool" where
  "in_win lo x \<longleftrightarrow> lo \<le> x \<and> x < lo + 2 ^ 31"

lemma win_cmp:
  assumes "in_win lo x" and "in_win lo y"
  shows "seq_gt (seq_of x) (seq_of y) \<longleftrightarrow> y < x" and "seq_lt (seq_of x) (seq_of y) \<longleftrightarrow> x < y"
    and "seq_le (seq_of x) (seq_of y) \<longleftrightarrow> x \<le> y" and "seq_ge (seq_of x) (seq_of y) \<longleftrightarrow> y \<le> x"
    and "seq_of x = seq_of y \<longleftrightarrow> x = y"
proof -
  have g: "seq_gt (seq_of x) (seq_of y) \<longleftrightarrow> y < x" "seq_gt (seq_of y) (seq_of x) \<longleftrightarrow> x < y"
    using assms by (auto simp: in_win_def intro!: seq_gt_positions)
  then show "seq_gt (seq_of x) (seq_of y) \<longleftrightarrow> y < x" "seq_lt (seq_of x) (seq_of y) \<longleftrightarrow> x < y"
    "seq_le (seq_of x) (seq_of y) \<longleftrightarrow> x \<le> y"
    by (auto simp: seq_lt_gt seq_le_def)
  show e: "seq_of x = seq_of y \<longleftrightarrow> x = y"
    by (metis g nat_neq_iff seq_trichotomy)
  show "seq_ge (seq_of x) (seq_of y) \<longleftrightarrow> y \<le> x"
    unfolding seq_ge_def seq_eq_def g e by auto
qed

definition bend :: "block \<Rightarrow> nat" where
  "bend b = fst b + length (snd b)"

lemma bend_pair [simp]: "bend (a, p) = a + length p"
  by (simp add: bend_def)

definition entries :: "block list \<Rightarrow> (seq32 \<times> packet) list" where
  "entries B = map (\<lambda>(a, p). (seq_of a, p)) B"

lemma entries_simps [simp]: "entries [] = []" "entries ((a, p) # B) = (seq_of a, p) # entries B"
  by (simp_all add: entries_def)

lemma seq_end: "seq_of a + GetSize p = seq_of (a + length p)"
  by (simp add: GetSize_def)

definition chain :: "block list \<Rightarrow> bool" where
  "chain B \<longleftrightarrow> sorted_wrt (\<lambda>x y. bend x \<le> fst y) B \<and> (\<forall>b\<in>set B. snd b \<noteq> [])"

definition cover :: "block list \<Rightarrow> nat set" where
  "cover B = (\<Union>b\<in>set B. {fst b..<bend b})"

definition total :: "block list \<Rightarrow> nat" where
  "total B = sum_list (map (length \<circ> snd) B)"

lemma chain_Nil [simp]: "chain []"
  by (simp add: chain_def)

lemma chain_Cons [simp]:
  "chain (b # B) \<longleftrightarrow> snd b \<noteq> [] \<and> (\<forall>c\<in>set B. bend b \<le> fst c) \<and> chain B"
  by (auto simp: chain_def)

lemma cover_simps [simp]: "cover [] = {}" "cover (b # B) = {fst b..<bend b} \<union> cover B"
  by (simp_all add: cover_def)

lemma total_simps [simp]: "total [] = 0" "total (b # B) = length (snd b) + total B"
  by (simp_all add: total_def)

lemma bend_gt: "snd b \<noteq> [] \<Longrightarrow> fst b < bend b"
  by (simp add: bend_def)

lemma total_bound:
  "chain B \<Longrightarrow> \<forall>b\<in>set B. lo \<le> fst b \<and> bend b \<le> hi \<Longrightarrow> lo \<le> hi \<Longrightarrow> total B \<le> hi - lo"
proof (induction B arbitrary: lo)
  case Nil
  then show ?case by simp
next
  case (Cons b B)
  then have "total B \<le> hi - bend b" by (intro Cons.IH) auto
  with Cons.prems show ?case by (auto simp: bend_def)
qed

fun overlap :: "block list \<Rightarrow> nat \<Rightarrow> nat \<Rightarrow> block list \<times> nat \<times> nat" where
  "overlap [] h t = ([], h, t)"
| "overlap (b # B) h t =
     (if \<not> fst b \<le> t then (b # B, h, t)
      else if bend b > h \<and> fst b > h \<and> bend b < t then overlap B h t
      else let (B', h', t') = overlap B (if bend b > h \<and> fst b \<le> h then bend b else h)
                                        (if bend b > h \<and> bend b \<ge> t then fst b else t)
           in (b # B', h', t'))"

lemma remove_overlap_entries:
  assumes "\<forall>b\<in>set B. in_win lo (fst b) \<and> in_win lo (bend b)" and "in_win lo h" and "in_win lo t"
    and "overlap B h t = (B', h', t')"
  shows "remove_overlap (entries B) (seq_of h) (seq_of t) sz =
    (entries B', seq_of h', seq_of t', sz + of_nat (total B') - of_nat (total B)) \<and>
    in_win lo h' \<and> in_win lo t'"
  using assms
proof (induction B arbitrary: h t B' h' t' sz)
  case Nil
  then show ?case by simp
next
  case (Cons b B)
  obtain a p where b: "b = (a, p)" by (cases b)
  have w: "in_win lo a" "in_win lo (a + length p)" using Cons.prems(1) b by simp_all
  note c = win_cmp(3) [OF w(1) Cons.prems(3)] win_cmp(1) [OF w(1) Cons.prems(2)]
    win_cmp(3) [OF w(1) Cons.prems(2)] win_cmp(1) [OF w(2) Cons.prems(2)]
    win_cmp(2) [OF w(2) Cons.prems(3)] win_cmp(4) [OF w(2) Cons.prems(3)]
  let ?e = "a + length p"
  have all: "\<forall>b\<in>set B. in_win lo (fst b) \<and> in_win lo (bend b)" using Cons.prems(1) by simp
  consider (stop) "\<not> a \<le> t" | (erase) "a \<le> t" "?e > h \<and> a > h \<and> ?e < t"
    | (keep) "a \<le> t" "\<not> (?e > h \<and> a > h \<and> ?e < t)" by blast
  then show ?case
  proof cases
    case stop
    then have e: "B' = b # B" "h' = h" "t' = t" using Cons.prems(4) by (auto simp: b)
    show ?thesis
      unfolding e b entries_simps remove_overlap.simps c using stop Cons.prems(2,3) by simp
  next
    case erase
    with Cons.prems(4) b have o: "overlap B h t = (B', h', t')" by simp
    show ?thesis
      unfolding b entries_simps remove_overlap.simps seq_end Let_def c total_simps
      using erase Cons.IH [OF all Cons.prems(2,3) o, of "sz - GetSize p"]
      by (simp add: GetSize_def algebra_simps)
  next
    case keep
    let ?h = "if ?e > h \<and> a \<le> h then ?e else h"
    let ?t = "if ?e > h \<and> ?e \<ge> t then a else t"
    obtain B1 h1 t1 where o1: "overlap B ?h ?t = (B1, h1, t1)" by (metis prod_cases3)
    have "overlap (b # B) h t = (b # B1, h1, t1)"
      unfolding b overlap.simps fst_conv bend_pair if_not_P [OF keep(2)] o1 Let_def
      using keep(1) by simp
    then have eqs: "B' = b # B1" "h1 = h'" "t1 = t'"
      using Cons.prems(4) by simp_all
    note B' = eqs(1) and o = o1 [unfolded eqs(2,3)]
    have "in_win lo ?h" "in_win lo ?t" using Cons.prems(2,3) w by simp_all
    from Cons.IH [OF all this o, of sz]
    have IH: "remove_overlap (entries B) (seq_of ?h) (seq_of ?t) sz =
      (entries B1, seq_of h', seq_of t', sz + of_nat (total B1) - of_nat (total B))"
      "in_win lo h'" "in_win lo t'" by simp_all
    have "(if seq_gt (seq_of ?e) (seq_of h) \<and> seq_le (seq_of a) (seq_of h) then seq_of ?e else seq_of h) = seq_of ?h"
      "(if seq_gt (seq_of ?e) (seq_of h) \<and> seq_ge (seq_of ?e) (seq_of t) then seq_of a else seq_of t) = seq_of ?t"
      unfolding c by simp_all
    with keep IH show ?thesis
      unfolding b entries_simps remove_overlap.simps seq_end Let_def B' c if_not_P [OF keep(2)]
      by (simp add: algebra_simps)
  qed
qed

text \<open>What the overlap loop leaves, over positions.\<close>

lemma overlap_cases:
  assumes "overlap (b # B) h t = (B', h', t')"
  obtains (stop) "t < fst b" "B' = b # B" "h' = h" "t' = t"
    | (erase) "fst b \<le> t" "h < fst b" "bend b < t" "overlap B h t = (B', h', t')"
    | (before) B1 where "fst b \<le> t" "bend b \<le> h" "B' = b # B1" "overlap B h t = (B1, h', t')"
    | (head) B1 where "fst b \<le> h" "h < bend b" "bend b < t" "B' = b # B1"
        "overlap B (bend b) t = (B1, h', t')"
    | (tail) B1 where "h < fst b" "fst b \<le> t" "t \<le> bend b" "B' = b # B1"
        "overlap B h (fst b) = (B1, h', t')"
    | (both) B1 where "fst b \<le> h" "fst b \<le> t" "h < bend b" "t \<le> bend b" "B' = b # B1"
        "overlap B (bend b) (fst b) = (B1, h', t')"
proof -
  consider "t < fst b" | "fst b \<le> t" "h < fst b" "bend b < t" "bend b > h"
    | "fst b \<le> t" "bend b \<le> h"
    | "fst b \<le> t" "fst b \<le> h" "h < bend b" "bend b < t"
    | "h < fst b" "fst b \<le> t" "t \<le> bend b" "h < bend b"
    | "fst b \<le> h" "fst b \<le> t" "h < bend b" "t \<le> bend b"
    | "fst b \<le> t" "h < fst b" "bend b < t" "\<not> bend b > h"
    | "h < fst b" "fst b \<le> t" "t \<le> bend b" "\<not> h < bend b"
    by linarith
  then show thesis
  proof cases
    case 1
    with assms show ?thesis by (intro stop) auto
  next
    case 2
    with assms show ?thesis by (intro erase) auto
  next
    case 3
    obtain B1 h1 t1 where "overlap B h t = (B1, h1, t1)" by (metis prod_cases3)
    with 3 assms show ?thesis by (intro before [of B1]) auto
  next
    case 4
    obtain B1 h1 t1 where "overlap B (bend b) t = (B1, h1, t1)" by (metis prod_cases3)
    with 4 assms show ?thesis by (intro head [of B1]) auto
  next
    case 5
    obtain B1 h1 t1 where "overlap B h (fst b) = (B1, h1, t1)" by (metis prod_cases3)
    with 5 assms show ?thesis by (intro tail [of B1]) auto
  next
    case 6
    obtain B1 h1 t1 where "overlap B (bend b) (fst b) = (B1, h1, t1)" by (metis prod_cases3)
    with 6 assms show ?thesis by (intro both [of B1]) auto
  qed (auto simp: bend_def)
qed

lemma overlap_bounds:
  "overlap B h t = (B', h', t') \<Longrightarrow> set B' \<subseteq> set B \<and> h \<le> h' \<and> t' \<le> t \<and>
     (\<forall>x. x \<le> t \<and> (\<forall>b\<in>set B. x \<le> fst b) \<longrightarrow> x \<le> t') \<and> ((\<forall>b\<in>set B. h < fst b) \<longrightarrow> h' = h) \<and>
     (h' = h \<or> (\<exists>b\<in>set B. h' = bend b)) \<and> (t' = t \<or> (\<exists>b\<in>set B. t' = fst b))"
proof (induction B arbitrary: h t B' h' t')
  case Nil
  then show ?case by simp
next
  case (Cons b B)
  show ?case
  proof (rule overlap_cases [OF Cons.prems])
    fix B1 assume *: "fst b \<le> h" "h < bend b" "bend b < t" "B' = b # B1"
        "overlap B (bend b) t = (B1, h', t')"
    from Cons.IH [OF *(5)] *(1-4) show ?thesis by (auto dest: less_imp_le order_trans)
  next
    fix B1 assume *: "h < fst b" "fst b \<le> t" "t \<le> bend b" "B' = b # B1"
        "overlap B h (fst b) = (B1, h', t')"
    from Cons.IH [OF *(5)] *(1-4) show ?thesis by auto
  next
    fix B1 assume *: "fst b \<le> h" "fst b \<le> t" "h < bend b" "t \<le> bend b" "B' = b # B1"
        "overlap B (bend b) (fst b) = (B1, h', t')"
    from Cons.IH [OF *(6)] *(1-5) show ?thesis by auto
  qed (use Cons.IH in \<open>fastforce+\<close>)
qed

lemma overlap_chain: "overlap B h t = (B', h', t') \<Longrightarrow> chain B \<Longrightarrow> chain B'"
proof (induction B arbitrary: h t B' h' t')
  case Nil
  then show ?case by simp
next
  case (Cons b B)
  have c: "snd b \<noteq> []" "\<forall>c\<in>set B. bend b \<le> fst c" "chain B" using Cons.prems(2) by simp_all
  have keep: "chain (b # B1)" if "overlap B h1 t1 = (B1, h', t')" for B1 h1 t1
    using Cons.IH [OF that c(3)] overlap_bounds [OF that] c(1,2) by auto
  from Cons.prems(1) show ?case
  proof (cases rule: overlap_cases)
    case stop
    with Cons.prems(2) show ?thesis by simp
  next
    case erase
    from Cons.IH [OF erase(4) c(3)] show ?thesis .
  next
    case (before B1)
    from keep [OF before(4)] before(3) show ?thesis by simp
  next
    case (head B1)
    from keep [OF head(5)] head(4) show ?thesis by simp
  next
    case (tail B1)
    from keep [OF tail(5)] tail(4) show ?thesis by simp
  next
    case (both B1)
    from keep [OF both(6)] both(5) show ?thesis by simp
  qed
qed

lemma overlap_facts:
  assumes "overlap B h t = (B', h', t')" and "chain B"
  shows "(h' < t' \<longrightarrow> (\<forall>b\<in>set B'. bend b \<le> h' \<or> t' \<le> fst b)) \<and>
    (\<forall>b\<in>set B - set B'. h' \<le> fst b \<and> bend b \<le> t') \<and>
    {h..<t} \<subseteq> {h'..<t'} \<union> cover B'"
  using assms
proof (induction B arbitrary: h t B' h' t')
  case Nil
  then show ?case by simp
next
  case (Cons b B)
  have c: "fst b < bend b" "\<forall>c\<in>set B. bend b \<le> fst c" "chain B"
    using Cons.prems(2) bend_gt by auto
  from Cons.prems(1) show ?case
  proof (cases rule: overlap_cases)
    case stop
    with c show ?thesis by fastforce
  next
    case erase
    have "\<forall>x\<in>set B. h < fst x" using erase c by fastforce
    with overlap_bounds [OF erase(4)] have "h' = h" by blast
    moreover have "bend b \<le> t'" using overlap_bounds [OF erase(4)] erase(3) c(2) by auto
    ultimately show ?thesis using Cons.IH [OF erase(4) c(3)] erase(2) by auto
  next
    case (before B1)
    from Cons.IH [OF before(4) c(3)] overlap_bounds [OF before(4)] before(2,3) show ?thesis by auto
  next
    case (head B1)
    have "{h..<t} \<subseteq> {fst b..<bend b} \<union> {bend b..<t}" using head(1) by auto
    with Cons.IH [OF head(5) c(3)] overlap_bounds [OF head(5)] head(4) show ?thesis by auto
  next
    case (tail B1)
    have "{h..<t} \<subseteq> {h..<fst b} \<union> {fst b..<bend b}" using tail(1-3) by auto
    with Cons.IH [OF tail(5) c(3)] overlap_bounds [OF tail(5)] tail(4) show ?thesis by auto
  next
    case (both B1)
    have "{h..<t} \<subseteq> {fst b..<bend b}" using both(1-4) by auto
    with Cons.IH [OF both(6) c(3)] overlap_bounds [OF both(6)] both(5) show ?thesis by auto
  qed
qed

subsection \<open>Storing a block\<close>

abbreviation put_block :: "block \<Rightarrow> block list \<Rightarrow> block list" where
  "put_block \<equiv> insert_before (\<lambda>x y. fst x < fst y)"

lemma data_put_entries:
  assumes "in_win lo a" and "\<forall>b\<in>set B. in_win lo (fst b) \<and> fst b \<noteq> a"
  shows "data_put (seq_of a) p (entries B) = entries (put_block (a, p) B)"
  using assms(2)
proof (induction B)
  case Nil
  then show ?case by simp
next
  case (Cons b B)
  obtain a' p' where b: "b = (a', p')" by (cases b)
  have w: "in_win lo a'" "a' \<noteq> a" using Cons.prems b by simp_all
  note c = win_cmp(2) [OF assms(1) w(1)] win_cmp(2) [OF w(1) assms(1)]
  show ?case
    unfolding b entries_simps data_put.simps insert_before.simps c fst_conv
    using Cons w(2) by auto
qed

lemma put_block_chain:
  assumes "chain B" and "p \<noteq> []" and "\<forall>b\<in>set B. bend b \<le> a \<or> a + length p \<le> fst b"
  shows "chain (put_block (a, p) B)"
  using assms(1,3)
proof (induction B)
  case Nil
  with assms(2) show ?case by simp
next
  case (Cons b B)
  have ne: "snd b \<noteq> []" and rest: "\<forall>c\<in>set B. bend b \<le> fst c" and cB: "chain B"
    using Cons.prems(1) by simp_all
  have IH: "chain (put_block (a, p) B)" using Cons by simp
  have lt: "fst b < bend b" by (rule bend_gt [OF ne])
  show ?case
  proof (cases "a < fst b")
    case True
    have le: "a + length p \<le> fst b" using Cons.prems(2) lt True by auto
    have "\<forall>c\<in>set (b # B). a + length p \<le> fst c"
      using le rest lt by fastforce
    with True assms(2) Cons.prems(1) show ?thesis by simp
  next
    case False
    have le: "bend b \<le> a" using Cons.prems(2) False assms(2)
      by (metis add_leD1 le_antisym le_eq_less_or_eq length_greater_0_conv less_add_same_cancel1
          list.set_intros(1) not_le)
    with False IH ne rest show ?thesis by simp
  qed
qed

lemma cover_put_block: "cover (put_block b B) = {fst b..<bend b} \<union> cover B"
  by (auto simp: cover_def)

lemma total_mset: "total B = sum_mset (image_mset (length \<circ> snd) (mset B))"
  by (induction B) simp_all

lemma total_put_block: "total (put_block b B) = length (snd b) + total B"
  by (simp add: total_mset)

subsection \<open>The SACK list\<close>

type_synonym sack = "nat \<times> nat"

definition sack_entries :: "sack list \<Rightarrow> sack_block list" where
  "sack_entries K = map (\<lambda>(a, b). (seq_of a, seq_of b)) K"

lemma sack_entries_simps [simp]:
  "sack_entries [] = []" "sack_entries ((a, b) # K) = (seq_of a, seq_of b) # sack_entries K"
  "sack_entries (K @ L) = sack_entries K @ sack_entries L"
  "length (sack_entries K) = length K" "butlast (sack_entries K) = sack_entries (butlast K)"
  by (simp_all add: sack_entries_def map_butlast)

definition sack_ok :: "nat \<Rightarrow> nat \<Rightarrow> nat set \<Rightarrow> sack \<Rightarrow> bool" where
  "sack_ok n hi C = (\<lambda>(a, b). n < a \<and> a < b \<and> b \<le> hi \<and> {a..<b} \<subseteq> C)"

lemma sack_ok_pair [simp]:
  "sack_ok n hi C (a, b) \<longleftrightarrow> n < a \<and> a < b \<and> b \<le> hi \<and> {a..<b} \<subseteq> C"
  by (simp add: sack_ok_def)

lemma sack_merge_ok:
  assumes "lo \<le> n" and "hi < lo + 2 ^ 31"
    and "sack_ok n hi C x" and "\<forall>k\<in>set seen. sack_ok n hi C k" and "\<forall>k\<in>set rest. sack_ok n hi C k"
  shows "\<exists>K. sack_merge (seq_of (fst x), seq_of (snd x)) (sack_entries seen) (sack_entries rest) =
      Some (sack_entries K) \<and> (\<forall>k\<in>set K. sack_ok n hi C k) \<and>
    length K \<le> Suc (length seen + length rest) \<and> K \<noteq> [] \<and>
    fst (hd K) \<le> fst x \<and> snd x \<le> snd (hd K)"
  using assms(3-5)
proof (induction "length seen + length rest" arbitrary: x seen rest rule: less_induct)
  case outer: less
  show ?case
    using outer.prems outer.hyps
  proof (induction rest arbitrary: seen)
    case Nil
    obtain a b where x: "x = (a, b)" by (cases x)
    show ?case by (intro exI [of _ "x # seen"]) (use Nil.prems x in auto)
  next
    case (Cons c rest)
    obtain a b where x: "x = (a, b)" by (cases x)
    obtain d e where c: "c = (d, e)" by (cases c)
    have ok: "n < a" "a < b" "b \<le> hi" "{a..<b} \<subseteq> C" "n < d" "d < e" "e \<le> hi" "{d..<e} \<subseteq> C"
      using Cons.prems(1,3) x c by auto
    have w: "in_win lo a" "in_win lo b" "in_win lo d" "in_win lo e"
      using ok assms(1,2) by (auto simp: in_win_def)
    note cmp = win_cmp(5) [OF w(1,4)] win_cmp(5) [OF w(2,3)] win_cmp(2) [OF w(3,2)]
      win_cmp(2) [OF w(1,4)]
    have both: "\<forall>k\<in>set (seen @ rest). sack_ok n hi C k" using Cons.prems(2,3) by auto
    consider (left) "a = e" | (right) "a \<noteq> e" "b = d" | (no) "a \<noteq> e" "b \<noteq> d" by blast
    then show ?case
    proof cases
      case left
      have ok1: "sack_ok n hi C (d, b)"
      proof -
        have "{d..<b} = {d..<e} \<union> {a..<b}" using ok left by auto
        with ok left show ?thesis by simp
      qed
      have "length ([] :: sack list) + length (seen @ rest) < length seen + length (c # rest)" by simp
      from Cons.prems(4) [OF this ok1 _ both] obtain K where
        "sack_merge (seq_of d, seq_of b) [] (sack_entries (seen @ rest)) = Some (sack_entries K)"
        "\<forall>k\<in>set K. sack_ok n hi C k" "length K \<le> Suc (length seen + length rest)" "K \<noteq> []"
        "fst (hd K) \<le> d" "b \<le> snd (hd K)" by auto
      with left ok x c show ?thesis
        unfolding c x sack_entries_simps fst_conv snd_conv sack_merge.simps cmp
        by (intro exI [of _ K]) auto
    next
      case right
      have ok1: "sack_ok n hi C (a, e)"
      proof -
        have "{a..<e} = {a..<b} \<union> {d..<e}" using ok right by auto
        with ok right show ?thesis by simp
      qed
      have "length ([] :: sack list) + length (seen @ rest) < length seen + length (c # rest)" by simp
      from Cons.prems(4) [OF this ok1 _ both] obtain K where
        "sack_merge (seq_of a, seq_of e) [] (sack_entries (seen @ rest)) = Some (sack_entries K)"
        "\<forall>k\<in>set K. sack_ok n hi C k" "length K \<le> Suc (length seen + length rest)" "K \<noteq> []"
        "fst (hd K) \<le> a" "e \<le> snd (hd K)" by auto
      with right ok x c show ?thesis
        unfolding c x sack_entries_simps fst_conv snd_conv sack_merge.simps cmp
        by (intro exI [of _ K]) auto
    next
      case no
      have "\<exists>K. sack_merge (seq_of (fst x), seq_of (snd x)) (sack_entries (seen @ [c])) (sack_entries rest) =
          Some (sack_entries K) \<and> (\<forall>k\<in>set K. sack_ok n hi C k) \<and>
        length K \<le> Suc (length (seen @ [c]) + length rest) \<and> K \<noteq> [] \<and>
        fst (hd K) \<le> fst x \<and> snd x \<le> snd (hd K)"
        by (rule Cons.IH) (use Cons.prems in auto)
      with no show ?thesis
        unfolding c x sack_entries_simps fst_conv snd_conv sack_merge.simps cmp by auto
    qed
  qed
qed

lemma sack_clear_entries:
  assumes "in_win lo m" and "\<forall>(a, b)\<in>set K. in_win lo a \<and> in_win lo b \<and> a < b"
  shows "sack_clear (seq_of m) (sack_entries K) = Some (sack_entries (filter (\<lambda>k. m < snd k) K))"
  using assms(2)
proof (induction K)
  case Nil
  then show ?case by simp
next
  case (Cons k K)
  obtain a b where k: "k = (a, b)" by (cases k)
  have w: "in_win lo a" "in_win lo b" "a < b" using Cons.prems k by auto
  note c = win_cmp(2) [OF w(1,2)] win_cmp(3) [OF w(2) assms(1)]
  show ?case
    using Cons w(3) unfolding k sack_entries_simps sack_clear.simps fst_conv snd_conv c
    by auto
qed

subsection \<open>Advancing over contiguous packets\<close>

lemma advance_next_entries:
  assumes "chain B" and "in_win lo n" and "\<forall>b\<in>set B. in_win lo (fst b) \<and> in_win lo (bend b)"
    and "\<forall>b\<in>set B. n \<le> fst b \<or> bend b \<le> n"
    and "\<forall>(a, b)\<in>set K. in_win lo a \<and> in_win lo b \<and> a < b"
  shows "\<exists>n' K'. advance_next (entries B) (seq_of n) av (sack_entries K) =
      Some (seq_of n', av + of_nat (n' - n), sack_entries K') \<and>
    n \<le> n' \<and> (n' = n \<or> (\<exists>b\<in>set B. n' = bend b)) \<and> {n..<n'} \<subseteq> cover B \<and> n' \<notin> cover B \<and>
    set K' \<subseteq> set K \<and> length K' \<le> length K \<and> (n' = n \<or> (\<forall>k\<in>set K'. n' < snd k)) \<and>
    (n' = n \<longrightarrow> K' = K)"
  using assms
proof (induction B arbitrary: n av K)
  case Nil
  then show ?case by (intro exI [of _ n] exI [of _ K]) simp
next
  case (Cons b B)
  obtain a p where b: "b = (a, p)" by (cases b)
  have ch: "p \<noteq> []" "\<forall>c\<in>set B. a + length p \<le> fst c" "chain B" using Cons.prems(1) b by simp_all
  have w: "in_win lo a" "in_win lo (a + length p)" using Cons.prems(3) b by simp_all
  note c = win_cmp(2) [OF w(1) Cons.prems(2)] win_cmp(1) [OF w(1) Cons.prems(2)]
  have allB: "\<forall>b\<in>set B. in_win lo (fst b) \<and> in_win lo (bend b)"
    "\<forall>b\<in>set B. n \<le> fst b \<or> bend b \<le> n" using Cons.prems(3,4) by simp_all
  consider (skip) "a < n" | (stop) "n < a" | (eat) "a = n" by linarith
  then show ?case
  proof cases
    case skip
    then have e: "a + length p \<le> n" using Cons.prems(4) b by auto
    from Cons.IH [OF ch(3) Cons.prems(2) allB Cons.prems(5), of av] obtain n' K' where
      "advance_next (entries B) (seq_of n) av (sack_entries K) =
        Some (seq_of n', av + of_nat (n' - n), sack_entries K')"
      "n \<le> n'" "n' = n \<or> (\<exists>b\<in>set B. n' = bend b)" "{n..<n'} \<subseteq> cover B" "n' \<notin> cover B"
      "set K' \<subseteq> set K" "length K' \<le> length K" "n' = n \<or> (\<forall>k\<in>set K'. n' < snd k)"
      "n' = n \<longrightarrow> K' = K" by blast
    with skip e show ?thesis
      unfolding b entries_simps advance_next.simps c
      by (intro exI [of _ n'] exI [of _ K']) auto
  next
    case stop
    have "n \<notin> cover B" using ch(2) stop by (fastforce simp: cover_def)
    with stop show ?thesis
      unfolding b entries_simps advance_next.simps c
      by (intro exI [of _ n] exI [of _ K]) auto
  next
    case eat
    let ?e = "a + length p"
    let ?K = "filter (\<lambda>k. ?e < snd k) K"
    have clr: "sack_clear (seq_of ?e) (sack_entries K) = Some (sack_entries ?K)"
      by (rule sack_clear_entries [OF w(2) Cons.prems(5)])
    have "\<forall>b\<in>set B. ?e \<le> fst b \<or> bend b \<le> ?e" using ch(2) by blast
    moreover have "\<forall>(a, b)\<in>set ?K. in_win lo a \<and> in_win lo b \<and> a < b" using Cons.prems(5) by auto
    ultimately obtain n' K' where
      s: "advance_next (entries B) (seq_of ?e) (av + of_nat (length p)) (sack_entries ?K) =
        Some (seq_of n', av + of_nat (length p) + of_nat (n' - ?e), sack_entries K')"
      "?e \<le> n'" "n' = ?e \<or> (\<exists>b\<in>set B. n' = bend b)" "{?e..<n'} \<subseteq> cover B" "n' \<notin> cover B"
      "set K' \<subseteq> set ?K" "length K' \<le> length ?K" "n' = ?e \<or> (\<forall>k\<in>set K'. n' < snd k)"
      using Cons.IH [OF ch(3) w(2) allB(1), of ?K "av + of_nat (length p)"] by blast
    have len: "length K' \<le> length K" using s(7) length_filter_le [of "\<lambda>k. ?e < snd k" K] by linarith
    have K': "\<forall>k\<in>set K'. n' < snd k" using s(6,8) by auto
    have "n' - n = length p + (n' - ?e)" using s(2) eat by simp
    then have av: "av + of_nat (length p) + of_nat (n' - ?e) = av + (of_nat (n' - n) :: u32)"
      by (simp only: of_nat_add add.assoc)
    have "advance_next (entries (b # B)) (seq_of n) av (sack_entries K) =
      Some (seq_of n', av + of_nat (n' - n), sack_entries K')"
      using s(1) clr eat
      unfolding b entries_simps advance_next.simps c seq_end av
      by (simp add: GetSize_def del: of_nat_add)
    moreover have "{n..<n'} \<subseteq> cover (b # B)"
    proof -
      have "{n..<n'} \<subseteq> {n..<?e} \<union> {?e..<n'}" by auto
      also have "\<dots> \<subseteq> {n..<?e} \<union> cover B" using s(4) by blast
      finally show ?thesis using eat b by simp
    qed
    moreover have "n' \<notin> cover (b # B)" using s(2,5) eat b by auto
    moreover have "\<exists>c\<in>set (b # B). n' = bend c" using s(3) b by auto
    ultimately show ?thesis
      using s(2,6) eat len K' ch(1) by (intro exI [of _ n'] exI [of _ K']) auto
  qed
qed

section \<open>The invariant\<close>

text \<open>
  \<open>rx_inv stream F lo hi r n s\<close>: the buffer holds bytes of the sender's \<open>stream\<close> at
  their positions, none of them twice; the application has read up to \<open>r\<close>, every byte
  from \<open>r\<close> up to \<open>n\<close> is there and byte \<open>n\<close> is not; the sequence number expected
  next and the counters say so; each SACK block consists of stored bytes beyond \<open>n\<close>. \<open>F\<close>
  is the position of the FIN, \<open>[lo, hi]\<close> the window of the positions in play.
\<close>

definition rx_next :: "nat \<Rightarrow> nat \<Rightarrow> rx_buffer \<Rightarrow> nat" where
  "rx_next F n s = (if m_gotFin s \<and> n = F then n + 1 else n)"

definition rx_blocks ::
  "(nat \<Rightarrow> u8) \<Rightarrow> nat \<Rightarrow> nat \<Rightarrow> nat \<Rightarrow> block list \<Rightarrow> bool" where
  "rx_blocks stream hi r n B \<longleftrightarrow> chain B \<and>
     (\<forall>b\<in>set B. r \<le> fst b \<and> bend b \<le> hi \<and> snd b = map stream [fst b..<bend b]) \<and>
     {r..<n} \<subseteq> cover B \<and> n \<notin> cover B"

definition rx_inv ::
  "(nat \<Rightarrow> u8) \<Rightarrow> nat \<Rightarrow> nat \<Rightarrow> nat \<Rightarrow> nat \<Rightarrow> nat \<Rightarrow> rx_buffer \<Rightarrow> bool" where
  "rx_inv stream F lo hi r n s \<longleftrightarrow>
     (\<exists>B K. m_data s = entries B \<and> rx_blocks stream hi r n B \<and>
        m_size s = of_nat (total B) \<and>
        m_sackList s = sack_entries K \<and> length K \<le> 4 \<and> (\<forall>k\<in>set K. sack_ok n hi (cover B) k)) \<and>
     lo \<le> r \<and> r \<le> n \<and> n \<le> hi \<and> hi + unat (m_maxBuffer s) + 1 < lo + 2 ^ 31 \<and>
     m_nextRxSeq s = seq_of (rx_next F n s) \<and> m_availBytes s = of_nat (n - r) \<and>
     (m_gotFin s \<longrightarrow> m_finSeq s = seq_of F \<and> hi \<le> F \<and> F < lo + 2 ^ 31)"

text \<open>The bounds of the new data after the window has been applied.\<close>

definition trim_window :: "block list \<Rightarrow> nat \<Rightarrow> nat \<Rightarrow> nat \<Rightarrow> nat \<times> nat" where
  "trim_window B wnd h t =
     (case B of [] \<Rightarrow> (h, t)
      | b # _ \<Rightarrow> (let t' = min t (fst b + wnd) in (min h t', t')))"

lemma trim_window_props:
  assumes "trim_window B wnd h t = (h1, t1)"
  shows "t1 \<le> t" and "h1 \<le> h" and "h1 < t1 \<Longrightarrow> h1 = h"
    and "(\<forall>b\<in>set B. x < fst b + wnd) \<Longrightarrow> x < t \<Longrightarrow> x < t1"
  using assms by (auto simp: trim_window_def Let_def split: list.splits if_splits)

lemma trim_window_entries:
  assumes "in_win lo h" and "in_win lo t" and "\<forall>b\<in>set B. lo \<le> fst b \<and> fst b + unat w < lo + 2 ^ 31"
    and "trim_window B (unat w) h t = (h1, t1)"
  shows "trim_to_window (entries B) w (seq_of h) (seq_of t) = (seq_of h1, seq_of t1) \<and>
    in_win lo h1 \<and> in_win lo t1"
proof (cases B)
  case Nil
  with assms show ?thesis by (simp add: trim_window_def trim_to_window_def)
next
  case (Cons b B')
  obtain a p where b: "b = (a, p)" by (cases b)
  let ?m = "a + unat w"
  have wm: "in_win lo ?m" using assms(3) Cons b by (auto simp: in_win_def)
  have m: "seq_of a + w = seq_of ?m" by simp
  let ?t = "min t ?m"
  have wt: "in_win lo ?t" using assms(2) wm by (auto simp: min_def)
  have t: "(if seq_lt (seq_of ?m) (seq_of t) then seq_of ?m else seq_of t) = seq_of ?t"
    unfolding win_cmp(2) [OF wm assms(2)] by (simp add: min_def)
  have h: "(if seq_lt (seq_of ?t) (seq_of h) then seq_of ?t else seq_of h) = seq_of (min h ?t)"
    unfolding win_cmp(2) [OF wt assms(1)] by (auto simp: min_def)
  have eq: "h1 = min h ?t" "t1 = ?t" using assms(4) Cons b by (auto simp: trim_window_def Let_def)
  have "in_win lo (min h ?t)" using assms(1) wt by (auto simp: min_def)
  with wt h t show ?thesis
    unfolding trim_to_window_def Cons b entries_simps list.case prod.case Let_def m t eq by simp
qed

lemma stream_slice:
  assumes "q \<le> h" and "h \<le> t" and "t \<le> q + length p" and "p = map stream [q..<q + length p]"
    and "length p < 2 ^ 32"
  shows "CreateFragment p (of_nat (h - q)) (of_nat (t - h)) = Some (map stream [h..<t])"
proof -
  have k: "unat (of_nat k :: u32) = k" if "k < 2 ^ 32" for k
    using that by (simp add: unsigned_of_nat take_bit_nat_eq_self)
  have u: "unat (of_nat (h - q) :: u32) = h - q" "unat (of_nat (t - h) :: u32) = t - h"
    by (rule k, use assms in linarith)+
  have "take (t - h) (drop (h - q) p) = map stream (take (t - h) (drop (h - q) [q..<q + length p]))"
    by (subst assms(4)) (simp add: take_map drop_map)
  also have "drop (h - q) [q..<q + length p] = [h..<q + length p]" using assms(1) by simp
  also have "take (t - h) [h..<q + length p] = [h..<t]"
    using assms(2,3) by (simp add: take_upt)
  finally have "take (t - h) (drop (h - q) p) = map stream [h..<t]" .
  then show ?thesis using assms(1-3) unfolding CreateFragment_def u by simp
qed

section \<open>Adding keeps the invariant\<close>

lemma cover_mono: "set B' \<subseteq> set B \<Longrightarrow> cover B' \<subseteq> cover B"
  by (auto simp: cover_def)

lemma overlap_cover_old:
  assumes "overlap B h t = (B', h', t')" and "chain B"
  shows "cover B \<subseteq> cover B' \<union> {h'..<t'}"
proof
  fix x assume "x \<in> cover B"
  then obtain b where b: "b \<in> set B" "fst b \<le> x" "x < bend b" by (auto simp: cover_def)
  show "x \<in> cover B' \<union> {h'..<t'}"
  proof (cases "b \<in> set B'")
    case True
    with b show ?thesis by (auto simp: cover_def)
  next
    case False
    then have "h' \<le> fst b \<and> bend b \<le> t'" using overlap_facts [OF assms] b(1) by blast
    with b show ?thesis by auto
  qed
qed

lemma rejected_blocks:
  assumes "rx_blocks stream hi r n B" and "overlap B h t = (B', h', t')" and "t' \<le> h'"
  shows "rx_blocks stream hi r n B' \<and> cover B' = cover B"
proof -
  have c: "chain B" using assms(1) by (simp add: rx_blocks_def)
  have sub: "set B' \<subseteq> set B" using overlap_bounds [OF assms(2)] by blast
  have "cover B' = cover B"
    using overlap_cover_old [OF assms(2) c] cover_mono [OF sub] assms(3) by auto
  with assms(1) overlap_chain [OF assms(2) c] sub show ?thesis
    by (auto simp: rx_blocks_def)
qed

lemma stored_blocks:
  assumes "rx_blocks stream hi r n B" and "overlap B h t = (B', h', t')" and "h' < t'"
    and "r \<le> h" and "t \<le> hi" and "n \<le> h"
  shows "let B'' = put_block (h', map stream [h'..<t']) B' in
    chain B'' \<and> (\<forall>b\<in>set B''. r \<le> fst b \<and> bend b \<le> hi \<and> snd b = map stream [fst b..<bend b]) \<and>
    cover B'' = cover B \<union> {h'..<t'} \<and> total B'' = (t' - h') + total B' \<and>
    (\<forall>b\<in>set B''. n \<le> fst b \<or> bend b \<le> n)"
proof -
  let ?p = "map stream [h'..<t']"
  have c: "chain B" and n: "n \<notin> cover B"
    and all: "\<forall>b\<in>set B. r \<le> fst b \<and> bend b \<le> hi \<and> snd b = map stream [fst b..<bend b]"
    using assms(1) by (simp_all add: rx_blocks_def)
  have bd: "set B' \<subseteq> set B" "h \<le> h'" "t' \<le> t" using overlap_bounds [OF assms(2)] by auto
  have dis: "\<forall>b\<in>set B'. bend b \<le> h' \<or> t' \<le> fst b"
    using overlap_facts [OF assms(2) c] assms(3) by blast
  have e: "h' + length ?p = t'" using assms(3) by simp
  have "chain (put_block (h', ?p) B')"
    by (rule put_block_chain [OF overlap_chain [OF assms(2) c]]) (use assms(3) dis e in auto)
  moreover have "cover (put_block (h', ?p) B') = cover B \<union> {h'..<t'}"
  proof -
    have "cover (put_block (h', ?p) B') = {h'..<t'} \<union> cover B'"
      by (simp only: cover_put_block fst_conv bend_pair e)
    with overlap_cover_old [OF assms(2) c] cover_mono [OF bd(1)] show ?thesis by blast
  qed
  moreover have "\<forall>b\<in>set (put_block (h', ?p) B').
      r \<le> fst b \<and> bend b \<le> hi \<and> snd b = map stream [fst b..<bend b]"
    using all bd assms(3,4,5) by (auto simp: e)
  moreover have "n \<le> fst b \<or> bend b \<le> n" if "b \<in> set B" for b
    using n that by (force simp: cover_def)
  then have "\<forall>b\<in>set (put_block (h', ?p) B'). n \<le> fst b \<or> bend b \<le> n"
    using bd(1,2) assms(6) by auto
  ultimately show ?thesis by (simp add: Let_def total_put_block)
qed

lemma sack_ok_mono: "sack_ok n hi C k \<Longrightarrow> C \<subseteq> C' \<Longrightarrow> sack_ok n hi C' k"
  by (cases k) auto

lemma update_sack_ok:
  assumes "lo \<le> n" and "hi < lo + 2 ^ 31" and "m_sackList s = sack_entries K" and "length K \<le> 4"
    and "\<forall>k\<in>set K. sack_ok n hi C k" and "sack_ok n hi C (h, t)" and "m_nextRxSeq s = seq_of n"
  shows "\<exists>K'. rx_UpdateSackList (seq_of h) (seq_of t) s = Some (s\<lparr>m_sackList := sack_entries K'\<rparr>) \<and>
    length K' \<le> 4 \<and> K' \<noteq> [] \<and> (\<forall>k\<in>set K'. sack_ok n hi C k) \<and> fst (hd K') \<le> h \<and> t \<le> snd (hd K')"
proof -
  obtain K1 where K1: "sack_merge (seq_of h, seq_of t) [] (sack_entries K) = Some (sack_entries K1)"
    "\<forall>k\<in>set K1. sack_ok n hi C k" "length K1 \<le> Suc (length K)" "K1 \<noteq> []"
    "fst (hd K1) \<le> h" "t \<le> snd (hd K1)"
    using sack_merge_ok [OF assms(1,2,6), of "[]" K] assms(5) by auto
  define K' where "K' = (if length K1 > 4 then butlast K1 else K1)"
  have w: "in_win lo h" "in_win lo n" using assms(1,2,6) by (auto simp: in_win_def)
  have "seq_gt (seq_of h) (m_nextRxSeq s)"
    unfolding assms(7) win_cmp(1) [OF w] using assms(6) by simp
  then have "rx_UpdateSackList (seq_of h) (seq_of t) s = Some (s\<lparr>m_sackList := sack_entries K'\<rparr>)"
    using K1(1) assms(3) by (simp add: rx_UpdateSackList_def option_simps K'_def)
  moreover have "length K' \<le> 4" using K1(3) assms(4) by (auto simp: K'_def)
  moreover have "hd K' = hd K1 \<and> K' \<noteq> []" using K1(4) by (cases K1) (auto simp: K'_def)
  moreover have "\<forall>k\<in>set K'. sack_ok n hi C k" using K1(2) by (auto simp: K'_def dest: in_set_butlastD)
  ultimately show ?thesis using K1(5,6) by (intro exI [of _ K']) simp
qed

lemma store_segment_inv:
  assumes "chain B" and "\<forall>b\<in>set B. r \<le> fst b \<and> bend b \<le> hi \<and> snd b = map stream [fst b..<bend b]"
    and "chain B''" and "B'' = put_block (h, map stream [h..<t]) B"
    and "\<forall>b\<in>set B''. r \<le> fst b \<and> bend b \<le> hi \<and> snd b = map stream [fst b..<bend b]"
    and "\<forall>b\<in>set B. fst b \<noteq> h" and "\<forall>b\<in>set B''. n \<le> fst b \<or> bend b \<le> n"
    and "{r..<n} \<subseteq> cover B''" and "{h..<t} \<subseteq> cover B''"
    and "n \<le> h \<and> (n \<noteq> h \<longrightarrow> n \<notin> cover B'')" and "h < t" and "t \<le> hi" and "lo \<le> r" and "r \<le> n"
    and "hi + unat (m_maxBuffer s) + 1 < lo + 2 ^ 31"
    and "m_data s = entries B" and "m_size s = of_nat (total B)" and "m_nextRxSeq s = seq_of n"
    and "m_availBytes s = of_nat (n - r)" and "m_sackList s = sack_entries K" and "length K \<le> 4"
    and "\<forall>k\<in>set K. sack_ok n hi (cover B'') k"
    and "m_gotFin s \<longrightarrow> m_finSeq s = seq_of F \<and> hi \<le> F \<and> F < lo + 2 ^ 31"
  shows "\<exists>s' n'. store_segment (map stream [h..<t]) (seq_of h) (seq_of t) s = Some s' \<and>
    rx_inv stream F lo hi r n' s' \<and> n \<le> n' \<and> (h = n \<longrightarrow> n < n') \<and> m_data s' = entries B'' \<and>
    (h = n \<or> (\<exists>K'. m_sackList s' = sack_entries K' \<and> K' \<noteq> [] \<and> fst (hd K') \<le> h \<and> t \<le> snd (hd K')))"
proof -
  let ?p = "map stream [h..<t]"
  have win: "r \<le> x \<Longrightarrow> x \<le> hi \<Longrightarrow> in_win lo x" for x using assms(13,15) by (auto simp: in_win_def)
  have wh: "in_win lo h" and wn: "in_win lo n" using win assms(10-12,14) by auto
  have wB: "\<forall>b\<in>set B. in_win lo (fst b) \<and> fst b \<noteq> h" using assms(2,6) win by (fastforce simp: bend_def)
  have wB'': "\<forall>b\<in>set B''. in_win lo (fst b) \<and> in_win lo (bend b)"
    using assms(5) win by (fastforce simp: bend_def)
  have a1: "seq_of h \<notin> fst ` set (m_data s)"
  proof
    assume "seq_of h \<in> fst ` set (m_data s)"
    then obtain b where "b \<in> set B" "seq_of h = seq_of (fst b)"
      unfolding assms(16) entries_def by force
    with wB win_cmp(5) [OF wh, of "fst b"] show False by auto
  qed
  have put: "data_put (seq_of h) ?p (m_data s) = entries B''"
    unfolding assms(4,16) by (rule data_put_entries [OF wh wB])
  let ?s2 = "s\<lparr>m_data := entries B''\<rparr>"
  have g: "seq_gt (seq_of h) (m_nextRxSeq ?s2) \<longleftrightarrow> n < h"
    using win_cmp(1) [OF wh wn] assms(18) by simp
  have sackhi: "hi < lo + 2 ^ 31" using assms(15) by linarith
  have lon: "lo \<le> n" using assms(13,14) by linarith
  obtain K3 where s3: "(if seq_gt (seq_of h) (m_nextRxSeq ?s2)
      then rx_UpdateSackList (seq_of h) (seq_of t) ?s2 else Some ?s2) =
      Some (?s2\<lparr>m_sackList := sack_entries K3\<rparr>)"
    and K3: "length K3 \<le> 4" "\<forall>k\<in>set K3. sack_ok n hi (cover B'') k"
    "h = n \<or> (K3 \<noteq> [] \<and> fst (hd K3) \<le> h \<and> t \<le> snd (hd K3))"
  proof (cases "n < h")
    case True
    have "sack_ok n hi (cover B'') (h, t)" using True assms(9,11,12) by simp
    from update_sack_ok [OF lon sackhi _ assms(21,22) this, of ?s2] assms(18,20) obtain K' where
      "rx_UpdateSackList (seq_of h) (seq_of t) ?s2 = Some (?s2\<lparr>m_sackList := sack_entries K'\<rparr>)"
      "length K' \<le> 4" "\<forall>k\<in>set K'. sack_ok n hi (cover B'') k"
      "K' \<noteq> []" "fst (hd K') \<le> h" "t \<le> snd (hd K')" by auto
    with True g that [of K'] show ?thesis by simp
  next
    case False
    have "?s2 = ?s2\<lparr>m_sackList := sack_entries K\<rparr>" using assms(20) by simp
    with False g assms(10,21,22) that [of K] show ?thesis by simp
  qed
  let ?s4 = "?s2\<lparr>m_sackList := sack_entries K3, m_size := m_size s + GetSize ?p\<rparr>"
  have kw: "\<forall>(a, b)\<in>set K3. in_win lo a \<and> in_win lo b \<and> a < b"
    using K3(2) win assms(14) by (fastforce simp: sack_ok_def)
  obtain n' K' where adv: "advance_next (entries B'') (seq_of n) (of_nat (n - r)) (sack_entries K3) =
      Some (seq_of n', of_nat (n - r) + of_nat (n' - n), sack_entries K')"
    and n': "n \<le> n'" "n' = n \<or> (\<exists>b\<in>set B''. n' = bend b)" "{n..<n'} \<subseteq> cover B''" "n' \<notin> cover B''"
      "set K' \<subseteq> set K3" "length K' \<le> length K3" "n' = n \<or> (\<forall>k\<in>set K'. n' < snd k)"
      "n' = n \<longrightarrow> K' = K3"
    using advance_next_entries [OF assms(3) wn wB'' assms(7) kw] by blast
  have av: "of_nat (n - r) + of_nat (n' - n) = (of_nat (n' - r) :: u32)"
  proof -
    have "n' - r = (n - r) + (n' - n)" using n'(1) assms(14) by simp
    then show ?thesis by (simp only: of_nat_add)
  qed
  let ?s5 = "?s4\<lparr>m_nextRxSeq := seq_of n', m_availBytes := of_nat (n' - r), m_sackList := sack_entries K'\<rparr>"
  let ?s' = "if m_gotFin ?s5 \<and> m_nextRxSeq ?s5 = m_finSeq ?s5
    then ?s5\<lparr>m_nextRxSeq := m_nextRxSeq ?s5 + 1\<rparr> else ?s5"
  have st: "store_segment ?p (seq_of h) (seq_of t) s = Some ?s'"
    unfolding store_segment_def put Let_def s3 using a1 adv assms(18,19) av
    by (simp add: option_simps)
  have n'hi: "n' \<le> hi" using n'(2) assms(5,10,11,12) by auto
  have fin: "m_gotFin s \<Longrightarrow> seq_of n' = m_finSeq s \<longleftrightarrow> n' = F"
  proof -
    assume "m_gotFin s"
    with assms(23) have F: "m_finSeq s = seq_of F" "hi \<le> F" "F < lo + 2 ^ 31" by simp_all
    have "in_win lo n'" "in_win lo F" using n'(1) n'hi F lon by (auto simp: in_win_def)
    then show ?thesis unfolding F(1) by (rule win_cmp(5))
  qed
  have proj: "m_data ?s' = entries B''" "m_size ?s' = m_size s + GetSize ?p"
    "m_sackList ?s' = sack_entries K'" "m_availBytes ?s' = of_nat (n' - r)"
    "m_maxBuffer ?s' = m_maxBuffer s" "m_gotFin ?s' = m_gotFin s" "m_finSeq ?s' = m_finSeq s"
    by simp_all
  have nxt: "m_nextRxSeq ?s' = seq_of (rx_next F n' ?s')"
    using fin by (auto simp: rx_next_def)
  have cov: "{r..<n'} \<subseteq> cover B''"
  proof -
    have "{r..<n'} \<subseteq> {r..<n} \<union> {n..<n'}" by auto
    with assms(8) n'(3) show ?thesis by blast
  qed
  have sacks: "\<forall>k\<in>set K'. sack_ok n' hi (cover B'') k"
  proof
    fix k assume k: "k \<in> set K'"
    obtain a b where ab: "k = (a, b)" by (cases k)
    have "sack_ok n hi (cover B'') (a, b)" using k n'(5) K3(2) ab by blast
    then have ok: "n < a" "a < b" "b \<le> hi" "{a..<b} \<subseteq> cover B''" by simp_all
    have "n' < b" using n'(7) k ab ok(1,2) by auto
    moreover have "n' < a"
    proof (rule ccontr)
      assume "\<not> n' < a"
      with \<open>n' < b\<close> have "n' \<in> {a..<b}" by simp
      with ok(4) n'(4) show False by blast
    qed
    ultimately show "sack_ok n' hi (cover B'') k" using ok ab by simp
  qed
  have "rx_inv stream F lo hi r n' ?s'"
    unfolding rx_inv_def
  proof (intro conjI exI)
    show "m_data ?s' = entries B''" by (rule proj(1))
    show "rx_blocks stream hi r n' B''" using assms(3,5) cov n'(4) by (simp add: rx_blocks_def)
    show "m_size ?s' = of_nat (total B'')"
      unfolding proj(2) assms(17) using assms(4) by (simp add: total_put_block GetSize_def)
    show "m_sackList ?s' = sack_entries K'" by (rule proj(3))
    show "length K' \<le> 4" using n'(6) K3(1) by simp
    show "\<forall>k\<in>set K'. sack_ok n' hi (cover B'') k" by (rule sacks)
    show "m_nextRxSeq ?s' = seq_of (rx_next F n' ?s')" by (rule nxt)
    show "m_availBytes ?s' = of_nat (n' - r)" by (rule proj(4))
    show "hi + unat (m_maxBuffer ?s') + 1 < lo + 2 ^ 31" using assms(15) unfolding proj .
    show "m_gotFin ?s' \<longrightarrow> m_finSeq ?s' = seq_of F \<and> hi \<le> F \<and> F < lo + 2 ^ 31"
      using assms(23) unfolding proj .
  qed (use assms(13,14) n'(1) n'hi in simp_all)
  moreover have "h = n \<longrightarrow> n < n'"
  proof
    assume "h = n"
    then have "n \<in> cover B''" using assms(9,11) by auto
    with n'(1,4) show "n < n'" by (cases "n = n'") auto
  qed
  moreover have "h = n \<or> (K' \<noteq> [] \<and> fst (hd K') \<le> h \<and> t \<le> snd (hd K'))"
  proof (cases "h = n")
    case False
    then have "n \<notin> cover B''" using assms(10) by blast
    have "n' = n"
    proof (rule ccontr)
      assume "n' \<noteq> n"
      with n'(1) have "n \<in> {n..<n'}" by simp
      with n'(3) \<open>n \<notin> cover B''\<close> show False by blast
    qed
    with n'(8) K3(3) False show ?thesis by simp
  qed simp
  ultimately show ?thesis
    using st n'(1) proj(1,3) by (intro exI [of _ ?s'] exI [of _ n']) auto
qed

lemma rx_Add_inv:
  assumes inv: "rx_inv stream F lo hi r n s" and p: "p = map stream [q..<q + length p]"
    and q: "lo \<le> q" "q + length p \<le> hi"
  shows "\<exists>b s' n'. rx_Add p (seq_of q) s = Some (b, s') \<and> rx_inv stream F lo hi r n' s' \<and> n \<le> n' \<and>
    (q \<le> n \<and> n < q + length p \<and> n < r + unat (m_maxBuffer s) \<longrightarrow> n < n')"
proof -
  obtain B K where B: "m_data s = entries B" "rx_blocks stream hi r n B" "m_size s = of_nat (total B)"
    and K: "m_sackList s = sack_entries K" "length K \<le> 4" "\<forall>k\<in>set K. sack_ok n hi (cover B) k"
    using inv unfolding rx_inv_def by blast
  have bnd: "lo \<le> r" "r \<le> n" "n \<le> hi" "hi + unat (m_maxBuffer s) + 1 < lo + 2 ^ 31"
    "m_nextRxSeq s = seq_of (rx_next F n s)" "m_availBytes s = of_nat (n - r)"
    "m_gotFin s \<longrightarrow> m_finSeq s = seq_of F \<and> hi \<le> F \<and> F < lo + 2 ^ 31"
    using inv by (simp_all add: rx_inv_def)
  have blk: "chain B" "\<forall>b\<in>set B. r \<le> fst b \<and> bend b \<le> hi \<and> snd b = map stream [fst b..<bend b]"
    "{r..<n} \<subseteq> cover B" "n \<notin> cover B" using B(2) by (simp_all add: rx_blocks_def)
  let ?N = "rx_next F n s"
  have N: "n \<le> ?N" "?N \<le> hi + 1" "?N \<noteq> n \<Longrightarrow> m_gotFin s \<and> n = F \<and> ?N = F + 1"
    using bnd(3) by (auto simp: rx_next_def)
  have win: "lo \<le> x \<Longrightarrow> x \<le> hi + 1 \<Longrightarrow> in_win lo x" for x using bnd(4) by (auto simp: in_win_def)
  have wN: "in_win lo ?N" and wq: "in_win lo q" and wt: "in_win lo (q + length p)"
    using win N(1,2) bnd(1,2) q by auto
  let ?h0 = "max q ?N"
  have h0: "(if seq_lt (seq_of q) (m_nextRxSeq s) then m_nextRxSeq s else seq_of q) = seq_of ?h0"
    unfolding bnd(5) win_cmp(2) [OF wq wN] by (auto simp: max_def)
  have wh0: "in_win lo ?h0" using wq wN by (auto simp: max_def)
  obtain h1 t1 where tr: "trim_window B (unat (m_maxBuffer s)) ?h0 (q + length p) = (h1, t1)"
    by fastforce
  have fstB: "\<forall>b\<in>set B. lo \<le> fst b \<and> fst b + unat (m_maxBuffer s) < lo + 2 ^ 31"
    using blk(2) bnd(1,4) by (fastforce simp: bend_def)
  have trim: "trim_to_window (m_data s) (m_maxBuffer s) (seq_of ?h0) (seq_of q + GetSize p) =
      (seq_of h1, seq_of t1)" "in_win lo h1" "in_win lo t1"
    using trim_window_entries [OF wh0 wt fstB tr] unfolding B(1) seq_end by simp_all
  note tp = trim_window_props [OF tr]
  obtain B' h' t' where ov: "overlap B h1 t1 = (B', h', t')" by (metis prod_cases3)
  have wB: "\<forall>b\<in>set B. in_win lo (fst b) \<and> in_win lo (bend b)"
    using blk(2) win bnd(1) by (fastforce simp: bend_def)
  from remove_overlap_entries [OF wB trim(2,3) ov, of "m_size s"]
  have ro: "remove_overlap (m_data s) (seq_of h1) (seq_of t1) (m_size s) =
      (entries B', seq_of h', seq_of t', of_nat (total B'))" and w': "in_win lo h'" "in_win lo t'"
    unfolding B(1,3) by simp_all
  have ge: "seq_ge (seq_of h') (seq_of t') \<longleftrightarrow> t' \<le> h'" by (rule win_cmp(4) [OF w'])
  have ob: "set B' \<subseteq> set B" "h1 \<le> h'" "t' \<le> t1" using overlap_bounds [OF ov] by auto
  let ?s1 = "s\<lparr>m_data := entries B', m_size := of_nat (total B')\<rparr>"
  have needed: "h' \<le> n \<and> n < t'" if "q \<le> n" "n < q + length p" "n < r + unat (m_maxBuffer s)"
  proof -
    have "?N = n"
    proof (rule ccontr)
      assume "?N \<noteq> n"
      with N(3) have "m_gotFin s" "n = F" by auto
      with bnd(7) q(2) that(2) show False by simp
    qed
    then have h: "?h0 = n" using that(1) by simp
    have "\<forall>b\<in>set B. n < fst b + unat (m_maxBuffer s)" using blk(2) that(3) by fastforce
    from tp(4) [OF this that(2)] have "n < t1" .
    moreover have "h1 \<le> n" using tp(2) h by simp
    ultimately have "n \<in> {h1..<t1}" by simp
    moreover have "n \<notin> cover B'" using blk(4) cover_mono [OF ob(1)] by blast
    ultimately show ?thesis using overlap_facts [OF ov blk(1)] by auto
  qed
  show ?thesis
  proof (cases "t' \<le> h'")
    case True
    have e: "rx_Add p (seq_of q) s = Some (False, ?s1)"
      unfolding rx_Add_def Let_def h0 trim(1) prod.case ro ge using True by simp
    from rejected_blocks [OF B(2) ov True] have rb: "rx_blocks stream hi r n B'" "cover B' = cover B"
      by simp_all
    have "rx_inv stream F lo hi r n ?s1"
      unfolding rx_inv_def
    proof (intro conjI exI)
      show "m_data ?s1 = entries B'" by simp
      show "rx_blocks stream hi r n B'" by (rule rb(1))
      show "m_sackList ?s1 = sack_entries K" using K(1) by simp
      show "length K \<le> 4" by (rule K(2))
      show "\<forall>k\<in>set K. sack_ok n hi (cover B') k" using K(3) rb(2) by simp
      show "m_nextRxSeq ?s1 = seq_of (rx_next F n ?s1)" using bnd(5) by (simp add: rx_next_def)
    qed (use bnd in simp_all)
    with e True needed show ?thesis by (intro exI [of _ False] exI [of _ ?s1] exI [of _ n]) auto
  next
    case False
    then have lt: "h' < t'" by simp
    then have h1t1: "h1 < t1" using ob by simp
    then have h1: "h1 = ?h0" by (rule tp(3))
    have "?N = n"
    proof (rule ccontr)
      assume "?N \<noteq> n"
      with N(3) have "m_gotFin s" "?N = F + 1" by auto
      with bnd(7) have "hi < ?N" by simp
      with h1t1 h1 tp(1) q(2) show False by simp
    qed
    then have nh: "n \<le> h1" "q \<le> h1" using h1 by simp_all
    have qh: "q \<le> h'" "t' \<le> q + length p" "t' \<le> hi" "n \<le> h'" "r \<le> h1" "t1 \<le> hi"
      using nh ob tp(1) q(2) bnd(2) by simp_all
    have plen: "length p < 2 ^ 32" using q bnd(4) by simp
    have d1: "seq_diff (seq_of h') (seq_of q) = Some (int (h' - q))"
      using seq_diff_positions [of h' q] w'(1) wq qh(1) by (simp add: in_win_def of_nat_diff)
    have d2: "seq_diff (seq_of t') (seq_of h') = Some (int (t' - h'))"
      using seq_diff_positions [of t' h'] w' lt by (simp add: in_win_def of_nat_diff)
    have fr: "CreateFragment p (of_nat (h' - q)) (of_nat (t' - h')) = Some (map stream [h'..<t'])"
      by (rule stream_slice [OF qh(1) _ qh(2) p plen]) (use lt in simp)
    let ?B = "put_block (h', map stream [h'..<t']) B'"
    from stored_blocks [OF B(2) ov lt qh(5,6) nh(1)] have sb: "chain ?B"
      "\<forall>b\<in>set ?B. r \<le> fst b \<and> bend b \<le> hi \<and> snd b = map stream [fst b..<bend b]"
      "cover ?B = cover B \<union> {h'..<t'}" "\<forall>b\<in>set ?B. n \<le> fst b \<or> bend b \<le> n"
      unfolding Let_def by blast+
    have allB': "\<forall>b\<in>set B'. r \<le> fst b \<and> bend b \<le> hi \<and> snd b = map stream [fst b..<bend b]"
      using blk(2) ob(1) by blast
    have ne: "\<forall>b\<in>set B'. fst b \<noteq> h'"
    proof
      fix b assume b: "b \<in> set B'"
      have "snd b \<noteq> []" using overlap_chain [OF ov blk(1)] b by (auto simp: chain_def)
      then have "fst b < bend b" by (rule bend_gt)
      moreover have "bend b \<le> h' \<or> t' \<le> fst b" using overlap_facts [OF ov blk(1)] lt b by blast
      ultimately show "fst b \<noteq> h'" using lt by auto
    qed
    have "\<exists>s' n'. store_segment (map stream [h'..<t']) (seq_of h') (seq_of t') ?s1 = Some s' \<and>
      rx_inv stream F lo hi r n' s' \<and> n \<le> n' \<and> (h' = n \<longrightarrow> n < n') \<and> m_data s' = entries ?B \<and>
      (h' = n \<or> (\<exists>K'. m_sackList s' = sack_entries K' \<and> K' \<noteq> [] \<and> fst (hd K') \<le> h' \<and> t' \<le> snd (hd K')))"
    proof (rule store_segment_inv [OF overlap_chain [OF ov blk(1)] allB' sb(1) refl sb(2) ne sb(4)])
      show "{r..<n} \<subseteq> cover ?B" "{h'..<t'} \<subseteq> cover ?B" using sb(3) blk(3) by auto
      show "n \<le> h' \<and> (n \<noteq> h' \<longrightarrow> n \<notin> cover ?B)" using sb(3) blk(4) qh(4) by auto
      show "\<forall>k\<in>set K. sack_ok n hi (cover ?B) k" using K(3) sack_ok_mono sb(3) by (metis Un_upper1)
      show "m_nextRxSeq ?s1 = seq_of n" using bnd(5) \<open>?N = n\<close> by simp
      show "m_sackList ?s1 = sack_entries K" using K(1) by simp
      show "length K \<le> 4" by (rule K(2))
      show "m_gotFin ?s1 \<longrightarrow> m_finSeq ?s1 = seq_of F \<and> hi \<le> F \<and> F < lo + 2 ^ 31" using bnd(7) by simp
    qed (use lt qh bnd in simp_all)
    then obtain s' n' where s': "store_segment (map stream [h'..<t']) (seq_of h') (seq_of t') ?s1 = Some s'"
      "rx_inv stream F lo hi r n' s'" "n \<le> n'" "h' = n \<longrightarrow> n < n'" by blast
    have "rx_Add p (seq_of q) s = Some (True, s')"
      unfolding rx_Add_def Let_def h0 trim(1) prod.case ro ge d1 d2
      using False s'(1) fr by (simp add: GetSize_def option_simps)
    moreover have "q \<le> n \<and> n < q + length p \<and> n < r + unat (m_maxBuffer s) \<longrightarrow> n < n'"
      using needed s'(4) qh(4) by auto
    ultimately show ?thesis using s'(2,3) by blast
  qed
qed

section \<open>Reading delivers the stream\<close>

lemma first_block:
  assumes "chain (b # B)" and "\<forall>c\<in>set (b # B). r \<le> fst c" and "r \<in> cover (b # B)"
  shows "fst b = r"
proof -
  obtain c where "c \<in> set (b # B)" "r \<in> {fst c..<bend c}"
    using assms(3) unfolding cover_def by blast
  then have c: "c \<in> set (b # B)" "fst c \<le> r" "r < bend c" by simp_all
  have lt: "fst b < bend b" using assms(1) bend_gt by simp
  show ?thesis
  proof (cases "c = b")
    case True
    with c assms(2) show ?thesis by (simp add: le_antisym)
  next
    case False
    with c(1) assms(1) have "bend b \<le> fst c" by auto
    with lt c(2) assms(2) show ?thesis by fastforce
  qed
qed

lemma extract_loop_entries:
  assumes "chain B" and "\<forall>b\<in>set B. r \<le> fst b \<and> bend b \<le> hi \<and> snd b = map stream [fst b..<bend b]"
    and "{r..<r + e} \<subseteq> cover B" and "r + e \<le> N" and "lo \<le> r" and "in_win lo N" and "in_win lo hi"
    and "r + e \<le> hi" and "m_nextRxSeq s = seq_of N"
  shows "\<exists>B'. extract_loop (entries B) (of_nat e) out s =
      Some (out @ map stream [r..<r + e], s\<lparr>m_data := entries B', m_size := m_size s - of_nat e,
        m_availBytes := m_availBytes s - of_nat e\<rparr>) \<and> chain B' \<and>
    (\<forall>b\<in>set B'. r + e \<le> fst b \<and> bend b \<le> hi \<and> snd b = map stream [fst b..<bend b]) \<and>
    cover B' = cover B - {r..<r + e} \<and> total B = total B' + e"
  using assms(1-5,8,9)
proof (induction B arbitrary: r e out s)
  case Nil
  then have "e = 0" by auto
  then show ?case by (intro exI [of _ "[]"]) simp
next
  case (Cons b B)
  obtain a p where b: "b = (a, p)" by (cases b)
  have small: "x \<le> hi \<Longrightarrow> lo \<le> x \<Longrightarrow> in_win lo x" for x using assms(7) by (auto simp: in_win_def)
  have len32: "x \<le> hi \<Longrightarrow> lo \<le> y \<Longrightarrow> x - y < 2 ^ 32" for x y
    using assms(7) by (auto simp: in_win_def)
  have u: "unat (of_nat k :: u32) = k" if "k < 2 ^ 32" for k
    using that by (simp add: unsigned_of_nat take_bit_nat_eq_self)
  have e32: "e < 2 ^ 32" using len32 [of "r + e" r] Cons.prems(5,6) by simp
  have ch: "p \<noteq> []" "\<forall>c\<in>set B. a + length p \<le> fst c" "chain B"
    using Cons.prems(1) b by simp_all
  have p_eq: "p = map stream [a..<a + length p]" and p_hi: "a + length p \<le> hi" and ra: "r \<le> a"
    using Cons.prems(2) b by simp_all
  have p32: "length p < 2 ^ 32" using len32 [of "a + length p" a] p_hi ra Cons.prems(5) by simp
  show ?case
  proof (cases "e = 0")
    case True
    then show ?thesis
      unfolding b entries_simps extract_loop.simps
      by (intro exI [of _ "(a, p) # B"]) (use Cons.prems(1,2) b in simp_all)
  next
    case False
    then have "r \<in> {r..<r + e}" by simp
    then have "r \<in> cover (b # B)" using Cons.prems(3) by blast
    from first_block [OF Cons.prems(1) _ this] Cons.prems(2) b have a: "a = r" by simp
    have e0: "of_nat e \<noteq> (0 :: u32)" using False e32 u [OF e32] by (metis unat_0)
    have wr: "in_win lo r" using small p_hi a Cons.prems(5) by simp
    have le: "seq_le (seq_of a) (m_nextRxSeq s)"
      unfolding a Cons.prems(7) win_cmp(3) [OF wr assms(6)] using Cons.prems(4) by simp
    have cmp: "GetSize p \<le> of_nat e \<longleftrightarrow> length p \<le> e"
      by (simp add: word_le_nat_alt GetSize_def u [OF e32] u [OF p32])
    show ?thesis
    proof (cases "length p \<le> e")
      case whole: True
      let ?r = "r + length p" and ?e = "e - length p"
      let ?s = "s\<lparr>m_size := m_size s - GetSize p, m_availBytes := m_availBytes s - GetSize p\<rparr>"
      have re: "?r + ?e = r + e" using whole by simp
      have n: "of_nat e - GetSize p = (of_nat ?e :: u32)" using whole by (simp add: GetSize_def)
      have "{?r..<?r + ?e} \<subseteq> cover B"
      proof
        fix x assume x: "x \<in> {?r..<?r + ?e}"
        then have "x \<in> {r..<r + e}" using re by simp
        then have "x \<in> cover (b # B)" using Cons.prems(3) by blast
        with x show "x \<in> cover B" by (auto simp: b a)
      qed
      then have "\<exists>B'. extract_loop (entries B) (of_nat ?e) (out @ p) ?s =
          Some ((out @ p) @ map stream [?r..<?r + ?e], ?s\<lparr>m_data := entries B', m_size := m_size ?s - of_nat ?e,
            m_availBytes := m_availBytes ?s - of_nat ?e\<rparr>) \<and> chain B' \<and>
        (\<forall>b\<in>set B'. ?r + ?e \<le> fst b \<and> bend b \<le> hi \<and> snd b = map stream [fst b..<bend b]) \<and>
        cover B' = cover B - {?r..<?r + ?e} \<and> total B = total B' + ?e"
      proof (intro Cons.IH [OF ch(3)])
        show "\<forall>b\<in>set B. ?r \<le> fst b \<and> bend b \<le> hi \<and> snd b = map stream [fst b..<bend b]"
          using ch(2) a Cons.prems(2) by auto
      qed (use Cons.prems(4-7) re in simp_all)
      then obtain B' where B': "extract_loop (entries B) (of_nat ?e) (out @ p) ?s =
          Some ((out @ p) @ map stream [?r..<?r + ?e], ?s\<lparr>m_data := entries B', m_size := m_size ?s - of_nat ?e,
            m_availBytes := m_availBytes ?s - of_nat ?e\<rparr>)" "chain B'"
        "\<forall>b\<in>set B'. ?r + ?e \<le> fst b \<and> bend b \<le> hi \<and> snd b = map stream [fst b..<bend b]"
        "cover B' = cover B - {?r..<?r + ?e}" "total B = total B' + ?e" by blast
      have out: "p @ map stream [?r..<?r + ?e] = map stream [r..<r + e]"
      proof -
        have "[r..<r + e] = [r..<?r] @ [?r..<r + e]"
          using whole upt_add_eq_append [of r ?r ?e] by simp
        then show ?thesis using p_eq a re by (metis map_append)
      qed
      have "extract_loop (entries (b # B)) (of_nat e) out s =
        Some (out @ map stream [r..<r + e], s\<lparr>m_data := entries B', m_size := m_size s - of_nat e,
          m_availBytes := m_availBytes s - of_nat e\<rparr>)"
        using B'(1) e0 le cmp whole
        unfolding b entries_simps extract_loop.simps n out [symmetric]
        by (simp add: GetSize_def algebra_simps)
      moreover have "cover B' = cover (b # B) - {r..<r + e}"
      proof -
        have "cover B \<inter> {r..<?r} = {}" using ch(2) a by (fastforce simp: cover_def)
        moreover have "{r..<r + e} = {r..<?r} \<union> {?r..<r + e}" using whole by auto
        ultimately show ?thesis unfolding B'(4) re by (auto simp: b a)
      qed
      ultimately show ?thesis using B'(2,3,5) re whole b by (intro exI [of _ B']) auto
    next
      case part: False
      let ?rest = "drop e p"
      let ?B = "(r + e, ?rest) # B"
      have ge: "GetSize p - of_nat e = (of_nat (length p - e) :: u32)"
        using part by (simp add: GetSize_def)
      have first: "CreateFragment p 0 (of_nat e) = Some (take e p)"
        using part by (simp add: CreateFragment_def u [OF e32])
      have rest: "CreateFragment p (of_nat e) (GetSize p - of_nat e) = Some ?rest"
      proof -
        have "length p - e < 2 ^ 32" using p32 by simp
        then have ul: "unat (of_nat (length p - e) :: u32) = length p - e" by (rule u)
        show ?thesis unfolding ge CreateFragment_def u [OF e32] ul using part by simp
      qed
      have wre: "in_win lo (r + e)" using small Cons.prems(5,6) by simp
      have lt1: "\<not> seq_lt (seq_of (r + e)) (seq_of r)" "seq_lt (seq_of r) (seq_of (r + e))"
        unfolding win_cmp(2) [OF wre wr] win_cmp(2) [OF wr wre] using False by simp_all
      have wB: "in_win lo (fst c)" "r + length p \<le> fst c" if "c \<in> set B" for c
        using ch(2) a that Cons.prems(2,5) small [of "fst c"] by (auto simp: bend_def)
      have put: "data_put (seq_of (r + e)) ?rest (entries B) = entries ?B"
      proof (cases B)
        case (Cons c C)
        then have w: "in_win lo (fst c)" "r + length p \<le> fst c" using wB by simp_all
        have "seq_lt (seq_of (r + e)) (seq_of (fst c))"
          unfolding win_cmp(2) [OF wre w(1)] using w(2) part by simp
        with Cons show ?thesis by (cases c) simp
      qed simp
      have keys: "filter (\<lambda>(k', _). k' \<noteq> seq_of r) (entries ?B) = entries ?B"
      proof (rule filter_True)
        show "\<forall>x\<in>set (entries ?B). case x of (k', _) \<Rightarrow> k' \<noteq> seq_of r"
        proof
          fix x assume "x \<in> set (entries ?B)"
          then obtain c where c: "c \<in> set ?B" "x = (seq_of (fst c), snd c)"
            unfolding entries_def set_map case_prod_beta by blast
          have "in_win lo (fst c) \<and> fst c \<noteq> r"
          proof (cases "c \<in> set B")
            case True
            have "0 < length p" using ch(1) by simp
            with wB [OF True] show ?thesis by auto
          next
            case out: False
            with c(1) have "fst c = r + e" by auto
            with wre False show ?thesis by simp
          qed
          then have "seq_of (fst c) \<noteq> seq_of r" using win_cmp(5) [OF _ wr, of "fst c"] by blast
          then show "case x of (k', _) \<Rightarrow> k' \<noteq> seq_of r" unfolding c(2) prod.case .
        qed
      qed
      have filt: "filter (\<lambda>(k', _). k' \<noteq> seq_of a)
          (data_put (seq_of a + of_nat e) ?rest ((seq_of a, p) # entries B)) = entries ?B"
      proof -
        have sum: "seq_of r + of_nat e = seq_of (r + e)" by simp
        have "data_put (seq_of (r + e)) ?rest ((seq_of r, p) # entries B) = (seq_of r, p) # entries ?B"
          unfolding data_put.simps(2) if_not_P [OF lt1(1)] if_P [OF lt1(2)] put ..
        then show ?thesis
          unfolding a sum by (simp only: filter.simps prod.case simp_thms if_False keys)
      qed
      have "extract_loop (entries (b # B)) (of_nat e) out s =
        Some (out @ take e p, s\<lparr>m_data := entries ?B, m_size := m_size s - of_nat e,
          m_availBytes := m_availBytes s - of_nat e\<rparr>)"
        using e0 le cmp part first rest filt
        unfolding b entries_simps(2) extract_loop.simps by simp
      moreover have "take e p = map stream [r..<r + e]"
        using part by (subst p_eq) (simp add: a take_map take_upt)
      moreover have "?rest = map stream [r + e..<r + e + length ?rest]"
        using part by (subst p_eq) (simp add: a drop_map)
      moreover have "cover ?B = cover (b # B) - {r..<r + e}"
      proof -
        have "cover B \<inter> {r..<r + length p} = {}" using ch(2) a by (fastforce simp: cover_def)
        with part show ?thesis by (auto simp: b a)
      qed
      moreover have "chain ?B" using part ch a by auto
      moreover have "\<forall>c\<in>set B. r + e \<le> fst c" using wB(2) part by fastforce
      ultimately show ?thesis
        using part Cons.prems(2) b a p_hi by (intro exI [of _ ?B]) auto
    qed
  qed
qed

lemma rx_invD:
  assumes "rx_inv stream F lo hi r n s"
  shows "lo \<le> r" "r \<le> n" "n \<le> hi" "hi + unat (m_maxBuffer s) + 1 < lo + 2 ^ 31"
    "m_nextRxSeq s = seq_of (rx_next F n s)" "m_availBytes s = of_nat (n - r)"
    "m_gotFin s \<Longrightarrow> m_finSeq s = seq_of F" "m_gotFin s \<Longrightarrow> hi \<le> F" "m_gotFin s \<Longrightarrow> F < lo + 2 ^ 31"
    "unat (m_availBytes s) = n - r"
proof -
  show b: "lo \<le> r" "r \<le> n" "n \<le> hi" "hi + unat (m_maxBuffer s) + 1 < lo + 2 ^ 31"
    "m_nextRxSeq s = seq_of (rx_next F n s)" "m_availBytes s = of_nat (n - r)"
    "m_gotFin s \<Longrightarrow> m_finSeq s = seq_of F" "m_gotFin s \<Longrightarrow> hi \<le> F" "m_gotFin s \<Longrightarrow> F < lo + 2 ^ 31"
    using assms by (simp_all add: rx_inv_def)
  have "n - r < 2 ^ 32" using b(1-4) by simp
  then show "unat (m_availBytes s) = n - r"
    unfolding b(6) by (simp add: unsigned_of_nat take_bit_nat_eq_self)
qed

lemma rx_create_inv: "rx_inv stream F n n n n (rx_create (seq_of n))"
proof -
  have "rx_blocks stream n n n []" by (simp add: rx_blocks_def)
  then show ?thesis
    unfolding rx_inv_def
    by (intro conjI exI [of _ "[]"]) (simp_all add: rx_create_def rx_next_def)
qed

text \<open>The window may move up behind the reader and grow.\<close>

lemma rx_inv_slide:
  assumes "rx_inv stream F lo hi r n s" and "lo \<le> lo'" and "lo' \<le> r" and "hi \<le> hi'"
    and "hi' + unat (m_maxBuffer s) + 1 < lo' + 2 ^ 31" and "m_gotFin s \<longrightarrow> hi' \<le> F"
  shows "rx_inv stream F lo' hi' r n s"
proof -
  obtain B K where B: "m_data s = entries B" "rx_blocks stream hi r n B" "m_size s = of_nat (total B)"
    and K: "m_sackList s = sack_entries K" "length K \<le> 4" "\<forall>k\<in>set K. sack_ok n hi (cover B) k"
    using assms(1) unfolding rx_inv_def by blast
  have "rx_blocks stream hi' r n B" using B(2) assms(4) by (auto simp: rx_blocks_def)
  moreover have "\<forall>k\<in>set K. sack_ok n hi' (cover B) k" using K(3) assms(4) by (auto simp: sack_ok_def)
  ultimately have "\<exists>B K. m_data s = entries B \<and> rx_blocks stream hi' r n B \<and>
      m_size s = of_nat (total B) \<and> m_sackList s = sack_entries K \<and> length K \<le> 4 \<and>
      (\<forall>k\<in>set K. sack_ok n hi' (cover B) k)" using B K by blast
  then show ?thesis using assms rx_invD [OF assms(1)] unfolding rx_inv_def by auto
qed

lemma rx_resize_inv:
  assumes "rx_inv stream F lo hi r n s" and "hi + unat m + 1 < lo + 2 ^ 31"
  shows "rx_inv stream F lo hi r n (rx_SetMaxBufferSize m s)"
  using assms by (simp add: rx_inv_def rx_SetMaxBufferSize_def rx_next_def)

lemma rx_fin_inv:
  assumes "rx_inv stream F lo hi r n s" and "hi \<le> F" and "F < lo + 2 ^ 31"
  shows "rx_inv stream F lo hi r n (rx_SetFinSequence (seq_of F) s)"
proof -
  note d = rx_invD [OF assms(1)]
  have w: "in_win lo n" "in_win lo F" "rx_next F n s \<le> F + 1" "n \<le> F"
    using d assms(2,3) by (auto simp: in_win_def rx_next_def)
  have eq: "seq_of n = seq_of F \<longleftrightarrow> n = F" by (rule win_cmp(5) [OF w(1,2)])
  have ne: "seq_of (F + 1) \<noteq> seq_of F" by simp
  have "m_nextRxSeq (rx_SetFinSequence (seq_of F) s) = seq_of (if n = F then n + 1 else n)"
  proof (cases "n = F")
    case True
    then have "m_nextRxSeq s = seq_of F \<or> m_nextRxSeq s = seq_of (F + 1)"
      using d(5) by (auto simp: rx_next_def)
    with True ne show ?thesis by (auto simp: rx_SetFinSequence_def Let_def)
  next
    case False
    then have "m_nextRxSeq s = seq_of n" using d(5) by (simp add: rx_next_def)
    with False eq show ?thesis by (simp add: rx_SetFinSequence_def Let_def)
  qed
  moreover have "rx_next F n (rx_SetFinSequence (seq_of F) s) = (if n = F then n + 1 else n)"
    by (simp add: rx_SetFinSequence_def rx_next_def Let_def)
  moreover have "m_data (rx_SetFinSequence (seq_of F) s) = m_data s"
    "m_size (rx_SetFinSequence (seq_of F) s) = m_size s"
    "m_sackList (rx_SetFinSequence (seq_of F) s) = m_sackList s"
    "m_maxBuffer (rx_SetFinSequence (seq_of F) s) = m_maxBuffer s"
    "m_availBytes (rx_SetFinSequence (seq_of F) s) = m_availBytes s"
    "m_finSeq (rx_SetFinSequence (seq_of F) s) = seq_of F"
    by (simp_all add: rx_SetFinSequence_def Let_def)
  ultimately show ?thesis using assms unfolding rx_inv_def by simp
qed

lemma rx_Extract_inv:
  assumes inv: "rx_inv stream F lo hi r n s" and e: "e = min (unat m) (n - r)"
  shows "\<exists>s'. rx_Extract m s = Some (if e = 0 then None else Some (map stream [r..<r + e]), s') \<and>
    rx_inv stream F lo hi (r + e) n s'"
proof -
  note d = rx_invD [OF inv]
  obtain B K where B: "m_data s = entries B" "rx_blocks stream hi r n B" "m_size s = of_nat (total B)"
    and K: "m_sackList s = sack_entries K" "length K \<le> 4" "\<forall>k\<in>set K. sack_ok n hi (cover B) k"
    using inv unfolding rx_inv_def by blast
  have blk: "chain B" "\<forall>b\<in>set B. r \<le> fst b \<and> bend b \<le> hi \<and> snd b = map stream [fst b..<bend b]"
    "{r..<n} \<subseteq> cover B" "n \<notin> cover B" using B(2) by (simp_all add: rx_blocks_def)
  have en: "e \<le> n - r" "r + e \<le> n" using e d(2) by simp_all
  have e32: "e < 2 ^ 32" using en d(1-4) by simp
  have u: "unat (of_nat e :: u32) = e" using e32 by (simp add: unsigned_of_nat take_bit_nat_eq_self)
  have x: "min m (m_availBytes s) = of_nat e"
  proof -
    have "unat (min m (m_availBytes s)) = e"
      by (simp add: min_def word_le_nat_alt d(10) e)
    then show ?thesis using u by (simp add: word_unat_eq_iff)
  qed
  show ?thesis
  proof (cases "e = 0")
    case True
    with x have "rx_Extract m s = Some (None, s)" by (simp add: rx_Extract_def)
    with True inv show ?thesis by simp
  next
    case False
    then have z: "of_nat e \<noteq> (0 :: u32)" using u by (metis unat_0)
    have nr: "r < n" using False en by simp
    then have "r \<in> cover B" using blk(3) by auto
    then have ne: "m_data s \<noteq> []" using B(1) by (cases B) (auto simp: entries_def)
    have N: "r + e \<le> rx_next F n s" "in_win lo (rx_next F n s)" "in_win lo hi" "r + e \<le> hi"
      "{r..<r + e} \<subseteq> cover B"
      using d en blk(3) by (auto simp: rx_next_def in_win_def)
    from extract_loop_entries [OF blk(1,2) N(5,1) d(1) N(2,3,4) d(5), of "[]"] obtain B' where
      B': "extract_loop (entries B) (of_nat e) [] s = Some (map stream [r..<r + e],
        s\<lparr>m_data := entries B', m_size := m_size s - of_nat e, m_availBytes := m_availBytes s - of_nat e\<rparr>)"
      "chain B'" "\<forall>b\<in>set B'. r + e \<le> fst b \<and> bend b \<le> hi \<and> snd b = map stream [fst b..<bend b]"
      "cover B' = cover B - {r..<r + e}" "total B = total B' + e" by auto
    let ?s = "s\<lparr>m_data := entries B', m_size := m_size s - of_nat e, m_availBytes := m_availBytes s - of_nat e\<rparr>"
    have "GetSize (map stream [r..<r + e]) \<noteq> 0" using z by (simp add: GetSize_def)
    then have out: "rx_Extract m s = Some (Some (map stream [r..<r + e]), ?s)"
      using B'(1) B(1) ne z by (simp add: rx_Extract_def x Let_def)
    have "rx_blocks stream hi (r + e) n B'"
      using B'(2,3,4) blk(3,4) by (auto simp: rx_blocks_def)
    moreover have "\<forall>k\<in>set K. sack_ok n hi (cover B') k"
      using K(3) en unfolding B'(4) by (fastforce simp: sack_ok_def)
    moreover have "m_size s - of_nat e = of_nat (total B')" using B(3) B'(5) by simp
    ultimately have "\<exists>B K. m_data ?s = entries B \<and> rx_blocks stream hi (r + e) n B \<and>
        m_size ?s = of_nat (total B) \<and> m_sackList ?s = sack_entries K \<and> length K \<le> 4 \<and>
        (\<forall>k\<in>set K. sack_ok n hi (cover B) k)"
      using K(1,2) by (intro exI [of _ B'] exI [of _ K]) simp
    moreover have "m_availBytes s - of_nat e = of_nat (n - (r + e))"
    proof -
      have "n - r = (n - (r + e)) + e" using en by simp
      then show ?thesis unfolding d(6) by (metis add_diff_cancel_right' of_nat_add)
    qed
    moreover have "rx_next F n ?s = rx_next F n s" by (simp add: rx_next_def)
    ultimately have "rx_inv stream F lo hi (r + e) n ?s"
      using d en unfolding rx_inv_def by simp
    with out False show ?thesis by simp
  qed
qed

section \<open>Runs of a receiver\<close>

text \<open>
  \<open>rx_run stream F n0 lo hi s out\<close>: starting at position \<open>n0\<close>, segments of the byte stream
  have arrived in any order, overlapping and repeated, the application has read \<open>out\<close> in
  all, and the FIN, which lies at \<open>F\<close>, may have arrived. The window \<open>[lo, hi]\<close> that
  bounds the segments moves with the reader; only its length is bounded, by half the sequence
  space.
\<close>

inductive rx_run :: "(nat \<Rightarrow> u8) \<Rightarrow> nat \<Rightarrow> nat \<Rightarrow> nat \<Rightarrow> nat \<Rightarrow> rx_buffer \<Rightarrow> packet \<Rightarrow> bool"
  for stream :: "nat \<Rightarrow> u8" and F :: nat and n0 :: nat
where
  rx_start: "rx_run stream F n0 n0 n0 (rx_create (seq_of n0)) []"
| rx_segment: "rx_run stream F n0 lo hi s out \<Longrightarrow> p = map stream [q..<q + length p] \<Longrightarrow> lo \<le> q \<Longrightarrow>
    q + length p \<le> hi \<Longrightarrow> rx_Add p (seq_of q) s = Some (b, s') \<Longrightarrow> rx_run stream F n0 lo hi s' out"
| rx_read: "rx_run stream F n0 lo hi s out \<Longrightarrow> rx_Extract m s = Some (x, s') \<Longrightarrow>
    rx_run stream F n0 lo hi s' (out @ (case x of None \<Rightarrow> [] | Some p \<Rightarrow> p))"
| rx_fin: "rx_run stream F n0 lo hi s out \<Longrightarrow> hi \<le> F \<Longrightarrow> F < lo + 2 ^ 31 \<Longrightarrow>
    rx_run stream F n0 lo hi (rx_SetFinSequence (seq_of F) s) out"
| rx_resize: "rx_run stream F n0 lo hi s out \<Longrightarrow> hi + unat m + 1 < lo + 2 ^ 31 \<Longrightarrow>
    rx_run stream F n0 lo hi (rx_SetMaxBufferSize m s) out"
| rx_slide: "rx_run stream F n0 lo hi s out \<Longrightarrow> lo \<le> lo' \<Longrightarrow> lo' \<le> n0 + length out \<Longrightarrow> hi \<le> hi' \<Longrightarrow>
    hi' + unat (m_maxBuffer s) + 1 < lo' + 2 ^ 31 \<Longrightarrow> (m_gotFin s \<Longrightarrow> hi' \<le> F) \<Longrightarrow>
    rx_run stream F n0 lo' hi' s out"

lemma rx_run_inv:
  assumes "rx_run stream F n0 lo hi s out"
  shows "out = map stream [n0..<n0 + length out] \<and> (\<exists>n. rx_inv stream F lo hi (n0 + length out) n s)"
  using assms
proof (induction rule: rx_run.induct)
  case rx_start
  show ?case using rx_create_inv by auto
next
  case (rx_segment lo hi s out p q b s')
  from rx_segment.IH obtain n where "rx_inv stream F lo hi (n0 + length out) n s" by blast
  from rx_Add_inv [OF this rx_segment.hyps(2-4)] obtain b1 s1 n1 where
    "rx_Add p (seq_of q) s = Some (b1, s1)" "rx_inv stream F lo hi (n0 + length out) n1 s1" by blast
  moreover from this(1) rx_segment.hyps(5) have "s1 = s'" by simp
  ultimately show ?case using rx_segment.IH by blast
next
  case (rx_read lo hi s out m x s')
  from rx_read.IH obtain n where "rx_inv stream F lo hi (n0 + length out) n s" by blast
  from rx_Extract_inv [OF this refl, of m] rx_read.hyps(2) obtain e where
    x: "x = (if e = 0 then None else Some (map stream [n0 + length out..<n0 + length out + e]))"
    and s': "rx_inv stream F lo hi (n0 + length out + e) n s'" by auto
  let ?p = "case x of None \<Rightarrow> [] | Some p \<Rightarrow> p"
  have p: "?p = map stream [n0 + length out..<n0 + length out + e]" using x by simp
  have o: "out = map stream [n0..<n0 + length out]" using rx_read.IH by (rule conjunct1)
  have "[n0..<n0 + length out + e] = [n0..<n0 + length out] @ [n0 + length out..<n0 + length out + e]"
    by (rule upt_add_eq_append) simp
  then have "map stream [n0..<n0 + length out + e] =
      map stream [n0..<n0 + length out] @ map stream [n0 + length out..<n0 + length out + e]"
    by (simp only: map_append)
  then have "out @ ?p = map stream [n0..<n0 + length out + e]" unfolding p o [symmetric] by (rule sym)
  moreover have "n0 + length (out @ ?p) = n0 + length out + e" unfolding p by simp
  ultimately show ?case using s' by (simp only:) blast
next
  case (rx_fin lo hi s out)
  then show ?case using rx_fin_inv by blast
next
  case (rx_resize lo hi s out m)
  then show ?case using rx_resize_inv by blast
next
  case (rx_slide lo hi s out lo' hi')
  then show ?case using rx_inv_slide by blast
qed

section \<open>Correctness of the receive buffer\<close>

text \<open>The run of the examples: bytes 108 to 113 of the stream, the second half first.\<close>

definition demo_stream :: "nat \<Rightarrow> u8" where
  "demo_stream i = word_of_nat i"

definition demo_rx :: rx_buffer where
  "demo_rx = \<lparr>m_sackList = [(111, 114)], m_nextRxSeq = 108, m_finSeq = 0, m_gotFin = False, m_size = 3,
     m_maxBuffer = 32768, m_availBytes = 0, m_data = [(111, [111, 112, 113])]\<rparr>"

lemmas rx_eval = rx_Add_def trim_to_window_def store_segment_def rx_UpdateSackList_def GetSize_def
  CreateFragment_def seq_lt_def seq_gt_def seq_le_def seq_ge_def seq_eq_def seq_diff_def seq_half_def
  seq_max_def neg_int32_def Let_def option_simps

lemma demo_rx_run: "rx_run demo_stream 120 108 108 120 demo_rx []"
proof -
  have "rx_run demo_stream 120 108 108 120 (rx_create (seq_of 108)) []"
    by (rule rx_slide [OF rx_start]) (simp_all add: rx_create_def)
  then show ?thesis
    by (rule rx_segment [of _ _ _ _ _ _ _ "[111, 112, 113]" 111 True])
      (simp_all add: demo_stream_def demo_rx_def rx_create_def rx_eval upt_rec)
qed

definition demo_rx1 :: rx_buffer where
  "demo_rx1 = \<lparr>m_sackList = [], m_nextRxSeq = 114, m_finSeq = 0, m_gotFin = False, m_size = 6,
     m_maxBuffer = 32768, m_availBytes = 6, m_data = [(108, [108, 109, 110]), (111, [111, 112, 113])]\<rparr>"

lemma demo_rx_add: "rx_Add [108, 109, 110] 108 demo_rx = Some (True, demo_rx1)"
  by (simp add: demo_rx_def demo_rx1_def rx_eval)

lemma demo_rx_extract:
  "rx_Extract 4 demo_rx1 = Some (Some [108, 109, 110, 111], demo_rx1\<lparr>m_size := 2, m_availBytes := 2,
     m_data := [(112, [112, 113])]\<rparr>)"
  by (simp add: demo_rx1_def rx_eval rx_Extract_def word_le_nat_alt)

text \<open>
  C7: In-order delivery: whatever segments of the peer's byte stream arrive, in any order,
  overlapping, repeated and cut by the window, the bytes the application has read are exactly
  the first bytes of the stream.
\<close>

theorem rx_delivers_stream:
  assumes "rx_run stream F n0 lo hi s out"
  shows "out = map stream [n0..<n0 + length out]"
  using rx_run_inv [OF assms] by blast

theorem rx_delivers_stream_witness:
  "\<exists>s. rx_run demo_stream 120 108 108 120 s [108, 109, 110, 111]"
proof -
  have "rx_run demo_stream 120 108 108 120 demo_rx1 []"
    by (rule rx_segment [OF demo_rx_run, of "[108, 109, 110]" 108 True])
      (simp_all add: demo_stream_def demo_rx_add upt_rec)
  from rx_read [OF this demo_rx_extract] obtain s where
    r: "rx_run demo_stream 120 108 108 120 s [108, 109, 110, 111]" by simp
  from rx_delivers_stream [OF r] have "[108, 109, 110, 111] = map demo_stream [108..<112]" by simp
  with r show ?thesis by blast
qed

text \<open>
  C9: \<open>Add\<close> never fails: no assertion and no undefined operation is reached, available bytes are
  never lost, and a segment that carries the next expected byte makes more bytes available as long
  as the receive window is open.
\<close>

theorem rx_add_makes_progress:
  assumes "rx_run stream F n0 lo hi s out" and "p = map stream [q..<q + length p]"
    and "lo \<le> q" and "q + length p \<le> hi"
  shows "\<exists>b s'. rx_Add p (seq_of q) s = Some (b, s') \<and> rx_Available s \<le> rx_Available s' \<and>
    (let nxt = n0 + length out + unat (rx_Available s)
     in q \<le> nxt \<and> nxt < q + length p \<and> rx_Available s < m_maxBuffer s \<longrightarrow>
        rx_Available s < rx_Available s')"
proof -
  let ?r = "n0 + length out"
  obtain n where i: "rx_inv stream F lo hi ?r n s" using rx_run_inv [OF assms(1)] by blast
  from rx_Add_inv [OF this assms(2-4)] obtain b s' n' where a: "rx_Add p (seq_of q) s = Some (b, s')"
    "rx_inv stream F lo hi ?r n' s'" "n \<le> n'"
    "q \<le> n \<and> n < q + length p \<and> n < ?r + unat (m_maxBuffer s) \<longrightarrow> n < n'" by blast
  note v = rx_invD(2,10) [OF i] rx_invD(2,10) [OF a(2)]
  have "unat (m_availBytes s) \<le> unat (m_availBytes s')" using v a(3) by simp
  moreover have "unat (m_availBytes s) < unat (m_availBytes s')"
    if "q \<le> ?r + unat (m_availBytes s)" "?r + unat (m_availBytes s) < q + length p"
      "unat (m_availBytes s) < unat (m_maxBuffer s)"
    using that v a(3,4) by auto
  ultimately show ?thesis
    using a(1) unfolding rx_Available_def word_le_nat_alt word_less_nat_alt Let_def by blast
qed

theorem rx_add_makes_progress_witness:
  "\<exists>b s'. rx_Add [108, 109, 110] 108 demo_rx = Some (b, s') \<and> 0 < rx_Available s'"
  using rx_add_makes_progress [OF demo_rx_run, of "[108, 109, 110]" 108]
  by (auto simp: demo_stream_def upt_rec demo_rx_def rx_Available_def Let_def)

text \<open>
  C27: \<open>Extract\<close> never fails, returns exactly the next \<open>min maxSize available\<close> bytes of the
  stream (no packet when there are none) and accounts for them.
\<close>

theorem rx_extract_exact:
  assumes "rx_run stream F n0 lo hi s out"
  shows "\<exists>s'. let r = n0 + length out; e = min (unat m) (unat (rx_Available s)) in
    rx_Extract m s = Some (if e = 0 then None else Some (map stream [r..<r + e]), s') \<and>
    unat (rx_Available s') = unat (rx_Available s) - e"
proof -
  let ?r = "n0 + length out"
  obtain n where i: "rx_inv stream F lo hi ?r n s" using rx_run_inv [OF assms(1)] by blast
  from rx_Extract_inv [OF i refl] obtain s' where
    "rx_Extract m s = Some (if min (unat m) (n - ?r) = 0 then None
      else Some (map stream [?r..<?r + min (unat m) (n - ?r)]), s')"
    and s': "rx_inv stream F lo hi (?r + min (unat m) (n - ?r)) n s'" by blast
  with rx_invD(10) [OF i] rx_invD(10) [OF s'] show ?thesis
    by (intro exI [of _ s']) (simp add: Let_def rx_Available_def)
qed

theorem rx_extract_exact_witness: "\<exists>s'. rx_Extract 5 demo_rx = Some (None, s')"
  using rx_extract_exact [OF demo_rx_run, of 5]
  by (auto simp: demo_rx_def rx_Available_def Let_def)

text \<open>
  C28: SACK blocks are truthful: there are at most four, and each names a range of bytes beyond
  the next expected one, every one of which is in the buffer.
\<close>

theorem rx_sack_blocks_stored:
  assumes "rx_run stream F n0 lo hi s out"
  shows "length (m_sackList s) \<le> 4 \<and>
    (\<forall>k\<in>set (m_sackList s). \<exists>x y. k = (seq_of x, seq_of y) \<and> x < y \<and>
       n0 + length out + unat (rx_Available s) < x \<and>
       (\<forall>i. x \<le> i \<and> i < y \<longrightarrow> (\<exists>j p. (seq_of j, p) \<in> set (m_data s) \<and> j \<le> i \<and> i < j + length p \<and>
          p ! (i - j) = stream i)))"
proof -
  let ?r = "n0 + length out"
  obtain n where i: "rx_inv stream F lo hi ?r n s" using rx_run_inv [OF assms(1)] by blast
  have n: "?r + unat (rx_Available s) = n"
    using rx_invD(2,10) [OF i] by (simp add: rx_Available_def)
  obtain B K where B: "m_data s = entries B" "rx_blocks stream hi ?r n B"
    and K: "m_sackList s = sack_entries K" "length K \<le> 4" "\<forall>k\<in>set K. sack_ok n hi (cover B) k"
    using i unfolding rx_inv_def by blast
  have st: "\<exists>j p. (seq_of j, p) \<in> set (m_data s) \<and> j \<le> i \<and> i < j + length p \<and> p ! (i - j) = stream i"
    if c: "i \<in> cover B" for i
  proof -
    obtain b where b: "b \<in> set B" "fst b \<le> i" "i < bend b" using c by (auto simp: cover_def)
    then have "snd b = map stream [fst b..<bend b]" using B(2) by (simp add: rx_blocks_def)
    moreover have "map stream [fst b..<bend b] ! (i - fst b) = stream i" using b by simp
    ultimately have "snd b ! (i - fst b) = stream i" by (rule ssubst)
    moreover have "(seq_of (fst b), snd b) \<in> set (m_data s)"
      using b(1) unfolding B(1) entries_def by (force simp: case_prod_beta)
    ultimately show ?thesis using b by (auto simp: bend_def)
  qed
  have "\<exists>x y. k = (seq_of x, seq_of y) \<and> x < y \<and> n < x \<and> (\<forall>i. x \<le> i \<and> i < y \<longrightarrow>
      (\<exists>j p. (seq_of j, p) \<in> set (m_data s) \<and> j \<le> i \<and> i < j + length p \<and> p ! (i - j) = stream i))"
    if k: "k \<in> set (m_sackList s)" for k
  proof -
    obtain x y where xy: "(x, y) \<in> set K" "k = (seq_of x, seq_of y)"
      using k unfolding K(1) sack_entries_def by auto
    from bspec [OF K(3) xy(1)] have o: "n < x" "x < y" "{x..<y} \<subseteq> cover B" by simp_all
    have "i \<in> cover B" if "x \<le> i \<and> i < y" for i using o(3) that by auto
    then show ?thesis using xy(2) o(1,2) st by blast
  qed
  with K(1,2) show ?thesis unfolding n by simp
qed

theorem rx_sack_blocks_stored_witness:
  "\<exists>x y. (111, 114) = (seq_of x, seq_of y) \<and> 108 < x \<and> x < y"
proof -
  have "(111, 114) \<in> set (m_sackList demo_rx)" by (simp add: demo_rx_def)
  with rx_sack_blocks_stored [OF demo_rx_run] show ?thesis
    by (fastforce simp: demo_rx_def rx_Available_def)
qed

text \<open>
  Once the FIN is known, \<open>Finished\<close> says exactly whether every byte before it has arrived.
\<close>

lemma rx_finished_iff_complete:
  assumes "rx_run stream F n0 lo hi s out" and "m_gotFin s"
  shows "rx_Finished s \<longleftrightarrow> n0 + length out + unat (rx_Available s) = F"
proof -
  let ?r = "n0 + length out"
  obtain n where i: "rx_inv stream F lo hi ?r n s" using rx_run_inv [OF assms(1)] by blast
  note d = rx_invD [OF i]
  have n: "?r + unat (rx_Available s) = n" using d(2,10) by (simp add: rx_Available_def)
  have f: "n \<le> F" "lo \<le> n" "F < lo + 2 ^ 31" using d(1-3) d(8,9) [OF assms(2)] by simp_all
  have "seq_lt (seq_of F) (seq_of (rx_next F n s)) \<longleftrightarrow> F < rx_next F n s"
    unfolding seq_lt_gt using f by (intro seq_gt_positions) (auto simp: rx_next_def)
  with f d(5,7) assms(2) show ?thesis unfolding n rx_Finished_def by (auto simp: rx_next_def)
qed

text \<open>
  The SACK list may hold a block that is a subset of another one: a segment that embeds
  stored data erases the packets, but the merging loop compares only end points, so the old block
  stays behind the new one.
\<close>

lemma sack_list_keeps_subset_block:
  "(do { (_, s1) \<leftarrow> rx_Add [0, 0] 10 (rx_create 1);
         (_, s2) \<leftarrow> rx_Add [0, 0, 0, 0] 9 s1;
         Some (m_sackList s2) }) = Some [(9, 13), (10, 12)]"
  by (simp add: rx_create_def rx_eval)

end
