(* ===== verification/Buffer_Iterator.thy ===== *)
theory Buffer_Iterator
  imports Prelude
begin

unbundle bit_operations_syntax

text \<open>
  \<open>ns3::Buffer::Iterator\<close> (src/src/network/model/buffer.h and buffer.cc): reading and writing
  the bytes of a packet buffer. The storage is the list of the bytes of \<open>Data::m_data\<close>; an
  iterator's pointer to it is the reference of the \<open>Data\<close>. The zero area of the buffer,
  from \<open>m_zeroStart\<close> to \<open>m_zeroEnd\<close>, has no storage: bytes behind it are stored right
  after the bytes before it. \<open>None\<close> is a failed \<open>NS_ASSERT\<close> or an access outside of the
  storage.
\<close>

type_synonym data_ref = nat

record iterator =
  it_zeroStart :: u32
  it_zeroEnd :: u32
  it_dataStart :: u32
  it_dataEnd :: u32
  it_current :: u32
  it_data :: data_ref

section \<open>The storage\<close>

text \<open>Copying no bytes does not access the storage.\<close>

definition mem_get :: "u8 list \<Rightarrow> u32 \<Rightarrow> u8 option" where
  "mem_get bs i = (if unat i < length bs then Some (bs ! unat i) else None)"

definition mem_put :: "u8 list \<Rightarrow> u32 \<Rightarrow> u8 list \<Rightarrow> u8 list option" where
  "mem_put bs i xs =
     (if xs = [] then Some bs
      else if unat i + length xs \<le> length bs
      then Some (take (unat i) bs @ xs @ drop (unat i + length xs) bs) else None)"

definition mem_slice :: "u8 list \<Rightarrow> u32 \<Rightarrow> u32 \<Rightarrow> u8 list option" where
  "mem_slice bs i n =
     (if n = 0 then Some []
      else if unat i + unat n \<le> length bs then Some (take (unat n) (drop (unat i) bs)) else None)"

section \<open>Moving\<close>

abbreviation it_skip :: "u32 \<Rightarrow> iterator \<Rightarrow> iterator" where
  "it_skip n it \<equiv> it\<lparr>it_current := it_current it + n\<rparr>"

definition it_Next :: "u32 \<Rightarrow> iterator \<Rightarrow> iterator option" where
  "it_Next delta it =
     (if it_current it + delta \<le> it_dataEnd it then Some (it_skip delta it) else None)"

definition it_Prev :: "u32 \<Rightarrow> iterator \<Rightarrow> iterator option" where
  "it_Prev delta it =
     (if it_current it \<ge> delta then Some (it\<lparr>it_current := it_current it - delta\<rparr>) else None)"

definition it_Next1 :: "iterator \<Rightarrow> iterator option" where
  "it_Next1 it = (if it_current it + 1 \<le> it_dataEnd it then Some (it_skip 1 it) else None)"

definition it_Prev1 :: "iterator \<Rightarrow> iterator option" where
  "it_Prev1 it = (if it_current it \<ge> 1 then Some (it\<lparr>it_current := it_current it - 1\<rparr>) else None)"

definition it_GetDistanceFrom :: "iterator \<Rightarrow> iterator \<Rightarrow> u32 option" where
  "it_GetDistanceFrom it o' =
     (if it_data it = it_data o'
      then (let diff = it_current it - it_current o' in Some (if sint diff < 0 then - diff else diff))
      else None)"

definition it_IsEnd :: "iterator \<Rightarrow> bool" where
  "it_IsEnd it \<longleftrightarrow> it_current it = it_dataEnd it"

definition it_IsStart :: "iterator \<Rightarrow> bool" where
  "it_IsStart it \<longleftrightarrow> it_current it = it_dataStart it"

definition it_GetSize :: "iterator \<Rightarrow> u32" where
  "it_GetSize it = it_dataEnd it - it_dataStart it"

definition it_GetRemainingSize :: "iterator \<Rightarrow> u32" where
  "it_GetRemainingSize it = it_dataEnd it - it_current it"

definition it_CheckNoZero :: "iterator \<Rightarrow> u32 \<Rightarrow> u32 \<Rightarrow> bool" where
  "it_CheckNoZero it start end' \<longleftrightarrow>
     \<not> (start < it_dataStart it \<or> end' > it_dataEnd it \<or>
        (end' > it_zeroStart it \<and> start < it_zeroEnd it \<and> it_zeroEnd it \<noteq> it_zeroStart it \<and>
         start \<noteq> end'))"

definition it_Check :: "iterator \<Rightarrow> u32 \<Rightarrow> bool" where
  "it_Check it i \<longleftrightarrow>
     i \<ge> it_dataStart it \<and> \<not> (i \<ge> it_zeroStart it \<and> i < it_zeroEnd it) \<and> i \<le> it_dataEnd it"

section \<open>Writing\<close>

abbreviation zero_len :: "iterator \<Rightarrow> u32" where
  "zero_len it \<equiv> it_zeroEnd it - it_zeroStart it"

definition it_WriteU8 :: "u8 \<Rightarrow> u8 list \<times> iterator \<Rightarrow> (u8 list \<times> iterator) option" where
  "it_WriteU8 x = (\<lambda>(bs, it). do {
     ns_assert (it_Check it (it_current it));
     bs' \<leftarrow> (if it_current it < it_zeroStart it then mem_put bs (it_current it) [x]
             else mem_put bs (it_current it - zero_len it) [x]);
     Some (bs', it_skip 1 it) })"

definition it_FillU8 :: "u8 \<Rightarrow> u32 \<Rightarrow> u8 list \<times> iterator \<Rightarrow> (u8 list \<times> iterator) option" where
  "it_FillU8 x len = (\<lambda>(bs, it). do {
     ns_assert (it_CheckNoZero it (it_current it) (it_current it + len));
     bs' \<leftarrow> (if it_current it \<le> it_zeroStart it then mem_put bs (it_current it) (replicate (unat len) x)
             else mem_put bs (it_current it - zero_len it) (replicate (unat len) x));
     Some (bs', it_skip len it) })"

definition it_WriteHtonU16 :: "u16 \<Rightarrow> u8 list \<times> iterator \<Rightarrow> (u8 list \<times> iterator) option" where
  "it_WriteHtonU16 w = (\<lambda>(bs, it). do {
     ns_assert (it_CheckNoZero it (it_current it) (it_current it + 2));
     bs' \<leftarrow> mem_put bs (if it_current it + 2 \<le> it_zeroStart it then it_current it
                       else it_current it - zero_len it)
              [ucast (drop_bit 8 w AND 0xff), ucast (drop_bit 0 w AND 0xff)];
     Some (bs', it_skip 2 it) })"

definition it_WriteHtonU32 :: "u32 \<Rightarrow> u8 list \<times> iterator \<Rightarrow> (u8 list \<times> iterator) option" where
  "it_WriteHtonU32 w = (\<lambda>(bs, it). do {
     ns_assert (it_CheckNoZero it (it_current it) (it_current it + 4));
     bs' \<leftarrow> mem_put bs (if it_current it + 4 \<le> it_zeroStart it then it_current it
                       else it_current it - zero_len it)
              [ucast (drop_bit 24 w AND 0xff), ucast (drop_bit 16 w AND 0xff),
               ucast (drop_bit 8 w AND 0xff), ucast (drop_bit 0 w AND 0xff)];
     Some (bs', it_skip 4 it) })"

text \<open>The writers built from \<open>WriteU8\<close>.\<close>

fun it_WriteBytes :: "u8 list \<Rightarrow> u8 list \<times> iterator \<Rightarrow> (u8 list \<times> iterator) option" where
  "it_WriteBytes [] st = Some st"
| "it_WriteBytes (x # xs) st = do { st' \<leftarrow> it_WriteU8 x st; it_WriteBytes xs st' }"

definition it_WriteU16 :: "u16 \<Rightarrow> u8 list \<times> iterator \<Rightarrow> (u8 list \<times> iterator) option" where
  "it_WriteU16 w =
     (let w1 = drop_bit 8 w in it_WriteBytes [ucast (w AND 0xff), ucast (w1 AND 0xff)])"

definition it_WriteU32 :: "u32 \<Rightarrow> u8 list \<times> iterator \<Rightarrow> (u8 list \<times> iterator) option" where
  "it_WriteU32 w =
     (let w1 = drop_bit 8 w; w2 = drop_bit 8 w1; w3 = drop_bit 8 w2
      in it_WriteBytes [ucast (w AND 0xff), ucast (w1 AND 0xff), ucast (w2 AND 0xff),
           ucast (w3 AND 0xff)])"

definition it_WriteU64 :: "u64 \<Rightarrow> u8 list \<times> iterator \<Rightarrow> (u8 list \<times> iterator) option" where
  "it_WriteU64 w =
     (let w1 = drop_bit 8 w; w2 = drop_bit 8 w1; w3 = drop_bit 8 w2; w4 = drop_bit 8 w3;
          w5 = drop_bit 8 w4; w6 = drop_bit 8 w5; w7 = drop_bit 8 w6
      in it_WriteBytes [ucast (w AND 0xff), ucast (w1 AND 0xff), ucast (w2 AND 0xff),
           ucast (w3 AND 0xff), ucast (w4 AND 0xff), ucast (w5 AND 0xff), ucast (w6 AND 0xff),
           ucast (w7 AND 0xff)])"

definition it_WriteHtolsbU16 :: "u16 \<Rightarrow> u8 list \<times> iterator \<Rightarrow> (u8 list \<times> iterator) option" where
  "it_WriteHtolsbU16 w = it_WriteBytes [ucast (drop_bit 0 w AND 0xff), ucast (drop_bit 8 w AND 0xff)]"

definition it_WriteHtolsbU32 :: "u32 \<Rightarrow> u8 list \<times> iterator \<Rightarrow> (u8 list \<times> iterator) option" where
  "it_WriteHtolsbU32 w = it_WriteBytes [ucast (drop_bit 0 w AND 0xff), ucast (drop_bit 8 w AND 0xff),
     ucast (drop_bit 16 w AND 0xff), ucast (drop_bit 24 w AND 0xff)]"

definition it_WriteHtolsbU64 :: "u64 \<Rightarrow> u8 list \<times> iterator \<Rightarrow> (u8 list \<times> iterator) option" where
  "it_WriteHtolsbU64 w = it_WriteBytes [ucast (drop_bit 0 w AND 0xff), ucast (drop_bit 8 w AND 0xff),
     ucast (drop_bit 16 w AND 0xff), ucast (drop_bit 24 w AND 0xff), ucast (drop_bit 32 w AND 0xff),
     ucast (drop_bit 40 w AND 0xff), ucast (drop_bit 48 w AND 0xff), ucast (drop_bit 56 w AND 0xff)]"

definition it_WriteHtonU64 :: "u64 \<Rightarrow> u8 list \<times> iterator \<Rightarrow> (u8 list \<times> iterator) option" where
  "it_WriteHtonU64 w = it_WriteBytes [ucast (drop_bit 56 w AND 0xff), ucast (drop_bit 48 w AND 0xff),
     ucast (drop_bit 40 w AND 0xff), ucast (drop_bit 32 w AND 0xff), ucast (drop_bit 24 w AND 0xff),
     ucast (drop_bit 16 w AND 0xff), ucast (drop_bit 8 w AND 0xff), ucast (drop_bit 0 w AND 0xff)]"

text \<open>
  \<open>Write(const uint8_t*, uint32_t)\<close>: the check is given \<open>size\<close> as the end of the range, as in
  the source.
\<close>

definition it_Write :: "u8 list \<Rightarrow> u32 \<Rightarrow> u8 list \<times> iterator \<Rightarrow> (u8 list \<times> iterator) option" where
  "it_Write buffer n = (\<lambda>(bs, it). do {
     ns_assert (it_CheckNoZero it (it_current it) n);
     xs \<leftarrow> mem_slice buffer 0 n;
     bs' \<leftarrow> (if it_current it \<le> it_zeroStart it then mem_put bs (it_current it) xs
             else mem_put bs (it_current it - zero_len it) xs);
     Some (bs', it_skip n it) })"

text \<open>
  \<open>Write(Iterator, Iterator)\<close>: \<open>src\<close> is the storage of the source range; prefix, zero area
  and suffix are copied in turn.
\<close>

definition it_WriteRange ::
  "u8 list \<Rightarrow> iterator \<Rightarrow> iterator \<Rightarrow> u8 list \<times> iterator \<Rightarrow> (u8 list \<times> iterator) option" where
  "it_WriteRange src start end' = (\<lambda>(bs, it). do {
     ns_assert (it_data start = it_data end' \<and> it_current start \<le> it_current end' \<and>
       it_zeroStart start = it_zeroStart end' \<and> it_zeroEnd start = it_zeroEnd end' \<and>
       it_data it \<noteq> it_data start);
     let n = it_current end' - it_current start;
     ns_assert (it_CheckNoZero it (it_current it) (it_current it + n));
     (bs1, start1, it1, n1) \<leftarrow>
       (if it_current start \<le> it_zeroStart start
        then do {
          let toCopy = min n (it_zeroStart start - it_current start);
          xs \<leftarrow> mem_slice src (it_current start) toCopy;
          bs' \<leftarrow> mem_put bs (it_current it) xs;
          Some (bs', it_skip toCopy start, it_skip toCopy it, n - toCopy) }
        else Some (bs, start, it, n));
     (bs2, start2, it2, n2) \<leftarrow>
       (if it_current start1 \<le> it_zeroEnd start1
        then do {
          let toCopy = min n1 (it_zeroEnd start1 - it_current start1);
          bs' \<leftarrow> mem_put bs1 (it_current it1) (replicate (unat toCopy) 0);
          Some (bs', it_skip toCopy start1, it_skip toCopy it1, n1 - toCopy) }
        else Some (bs1, start1, it1, n1));
     let toCopy = min n2 (it_dataEnd start2 - it_current start2);
     xs \<leftarrow> mem_slice src (it_current start2 - zero_len start2) toCopy;
     bs3 \<leftarrow> mem_put bs2 (it_current it2) xs;
     Some (bs3, it_skip toCopy it2) })"

section \<open>Reading\<close>

definition it_PeekU8 :: "u8 list \<Rightarrow> iterator \<Rightarrow> u8 option" where
  "it_PeekU8 bs it = do {
     ns_assert (it_current it \<ge> it_dataStart it \<and> it_current it < it_dataEnd it);
     (if it_current it < it_zeroStart it then mem_get bs (it_current it)
      else if it_current it < it_zeroEnd it then Some 0
      else mem_get bs (it_current it - zero_len it)) }"

definition it_ReadU8 :: "u8 list \<Rightarrow> iterator \<Rightarrow> (u8 \<times> iterator) option" where
  "it_ReadU8 bs it = do { x \<leftarrow> it_PeekU8 bs it; Some (x, it_skip 1 it) }"

text \<open>\<open>Read(uint8_t*, uint32_t)\<close>: \<open>n\<close> calls of \<open>ReadU8\<close>.\<close>

fun it_ReadBytes :: "u8 list \<Rightarrow> nat \<Rightarrow> iterator \<Rightarrow> (u8 list \<times> iterator) option" where
  "it_ReadBytes bs 0 it = Some ([], it)"
| "it_ReadBytes bs (Suc n) it = do {
     (x, it1) \<leftarrow> it_ReadU8 bs it;
     (xs, it2) \<leftarrow> it_ReadBytes bs n it1;
     Some (x # xs, it2) }"

definition it_Read :: "u8 list \<Rightarrow> u32 \<Rightarrow> iterator \<Rightarrow> (u8 list \<times> iterator) option" where
  "it_Read bs n = it_ReadBytes bs (unat n)"

text \<open>\<open>Read(Iterator, uint32_t)\<close>: the range is written at \<open>start\<close>, in the storage \<open>dst\<close>.\<close>

definition it_ReadRange ::
  "u8 list \<Rightarrow> u8 list \<Rightarrow> iterator \<Rightarrow> u32 \<Rightarrow> iterator \<Rightarrow> (u8 list \<times> iterator) option" where
  "it_ReadRange bs dst start n it = do {
     end' \<leftarrow> it_Next n it;
     it_WriteRange bs it end' (dst, start) }"

text \<open>Shifting one more byte into the value: \<open>data <<= 8; data |= byte\<close>.\<close>

definition shift_in :: "'a::len word \<Rightarrow> u8 \<Rightarrow> 'a word" where
  "shift_in w x = push_bit 8 w OR ucast x"

definition it_ReadU16 :: "u8 list \<Rightarrow> iterator \<Rightarrow> (u16 \<times> iterator) option" where
  "it_ReadU16 bs it = do {
     (byte0, it1) \<leftarrow> it_ReadU8 bs it;
     (byte1, it2) \<leftarrow> it_ReadU8 bs it1;
     Some (shift_in (ucast byte1) byte0, it2) }"

text \<open>The bytes of \<open>ReadU32\<close>, \<open>ReadU64\<close> and the \<open>ReadLsbtoh\<close> family, the last one first.\<close>

definition little_endian :: "u8 list \<Rightarrow> 'a::len word" where
  "little_endian xs =
     (case rev xs of [] \<Rightarrow> 0 | x # ys \<Rightarrow> foldl shift_in (ucast x) ys)"

definition big_endian :: "u8 list \<Rightarrow> 'a::len word" where
  "big_endian xs = (case xs of [] \<Rightarrow> 0 | x # ys \<Rightarrow> foldl shift_in (0 OR ucast x) ys)"

definition it_ReadU32 :: "u8 list \<Rightarrow> iterator \<Rightarrow> (u32 \<times> iterator) option" where
  "it_ReadU32 bs it = do { (xs, it') \<leftarrow> it_ReadBytes bs 4 it; Some (little_endian xs, it') }"

definition it_ReadU64 :: "u8 list \<Rightarrow> iterator \<Rightarrow> (u64 \<times> iterator) option" where
  "it_ReadU64 bs it = do { (xs, it') \<leftarrow> it_ReadBytes bs 8 it; Some (little_endian xs, it') }"

definition it_ReadLsbtohU16 :: "u8 list \<Rightarrow> iterator \<Rightarrow> (u16 \<times> iterator) option" where
  "it_ReadLsbtohU16 bs it = do { (xs, it') \<leftarrow> it_ReadBytes bs 2 it; Some (little_endian xs, it') }"

definition it_ReadLsbtohU32 :: "u8 list \<Rightarrow> iterator \<Rightarrow> (u32 \<times> iterator) option" where
  "it_ReadLsbtohU32 bs it = do { (xs, it') \<leftarrow> it_ReadBytes bs 4 it; Some (little_endian xs, it') }"

definition it_ReadLsbtohU64 :: "u8 list \<Rightarrow> iterator \<Rightarrow> (u64 \<times> iterator) option" where
  "it_ReadLsbtohU64 bs it = do { (xs, it') \<leftarrow> it_ReadBytes bs 8 it; Some (little_endian xs, it') }"

definition it_SlowReadNtohU16 :: "u8 list \<Rightarrow> iterator \<Rightarrow> (u16 \<times> iterator) option" where
  "it_SlowReadNtohU16 bs it = do { (xs, it') \<leftarrow> it_ReadBytes bs 2 it; Some (big_endian xs, it') }"

definition it_SlowReadNtohU32 :: "u8 list \<Rightarrow> iterator \<Rightarrow> (u32 \<times> iterator) option" where
  "it_SlowReadNtohU32 bs it = do { (xs, it') \<leftarrow> it_ReadBytes bs 4 it; Some (big_endian xs, it') }"

definition it_ReadNtohU64 :: "u8 list \<Rightarrow> iterator \<Rightarrow> (u64 \<times> iterator) option" where
  "it_ReadNtohU64 bs it = do { (xs, it') \<leftarrow> it_ReadBytes bs 8 it; Some (big_endian xs, it') }"

text \<open>The fast paths, when the bytes are contiguous in the storage.\<close>

definition it_ReadNtohU16 :: "u8 list \<Rightarrow> iterator \<Rightarrow> (u16 \<times> iterator) option" where
  "it_ReadNtohU16 bs it =
     (if it_current it + 2 \<le> it_zeroStart it
      then do { xs \<leftarrow> mem_slice bs (it_current it) 2; Some (big_endian xs, it_skip 2 it) }
      else if it_current it \<ge> it_zeroEnd it
      then do { xs \<leftarrow> mem_slice bs (it_current it - zero_len it) 2; Some (big_endian xs, it_skip 2 it) }
      else it_SlowReadNtohU16 bs it)"

definition it_ReadNtohU32 :: "u8 list \<Rightarrow> iterator \<Rightarrow> (u32 \<times> iterator) option" where
  "it_ReadNtohU32 bs it =
     (if it_current it + 4 \<le> it_zeroStart it
      then do { xs \<leftarrow> mem_slice bs (it_current it) 4; Some (big_endian xs, it_skip 4 it) }
      else if it_current it \<ge> it_zeroEnd it
      then do { xs \<leftarrow> mem_slice bs (it_current it - zero_len it) 4; Some (big_endian xs, it_skip 4 it) }
      else it_SlowReadNtohU32 bs it)"

section \<open>The IP checksum\<close>

fun sum_words :: "u8 list \<Rightarrow> nat \<Rightarrow> iterator \<Rightarrow> u32 \<Rightarrow> (u32 \<times> iterator) option" where
  "sum_words bs 0 it acc = Some (acc, it)"
| "sum_words bs (Suc n) it acc = do {
     (w, it') \<leftarrow> it_ReadU16 bs it;
     sum_words bs n it' (acc + ucast w) }"

lemma fold_carry_decreases:
  fixes x :: u32
  assumes "drop_bit 16 x \<noteq> 0"
  shows "unat ((x AND 0xffff) + drop_bit 16 x) < unat x"
proof -
  have d: "unat (drop_bit 16 x) = unat x div 2 ^ 16"
    by (simp add: drop_bit_eq_div unat_div)
  have a: "unat (x AND 0xffff) = unat x mod 2 ^ 16"
  proof -
    have "x AND 0xffff = take_bit 16 x" by (simp add: take_bit_eq_mask mask_eq_decr_exp)
    then show ?thesis by (simp add: take_bit_eq_mod unat_mod)
  qed
  define q r where "q = unat x div 2 ^ 16" and "r = unat x mod 2 ^ 16"
  have "q \<noteq> 0" using assms d unfolding q_def by (metis unat_0_iff)
  moreover have "unat x = 65536 * q + r" by (simp add: q_def r_def)
  ultimately have "r + q < unat x" by simp
  then have lt: "unat x mod 2 ^ 16 + unat x div 2 ^ 16 < unat x" by (simp only: q_def r_def)
  moreover have "unat x < 2 ^ 32" using unsigned_less [of x] by simp
  ultimately show ?thesis by (subst unat_add_no_wrap) (simp_all add: a d)
qed

function fold_carry :: "u32 \<Rightarrow> u32" where
  "fold_carry x = (if drop_bit 16 x \<noteq> 0 then fold_carry ((x AND 0xffff) + drop_bit 16 x) else x)"
  by pat_completeness auto
termination
proof (relation "measure unat", goal_cases)
  case 1 show ?case by simp
next
  case (2 x) then show ?case unfolding in_measure by (rule fold_carry_decreases)
qed

declare fold_carry.simps [simp del]

definition it_CalculateIpChecksum :: "u8 list \<Rightarrow> u16 \<Rightarrow> u32 \<Rightarrow> iterator \<Rightarrow> (u16 \<times> iterator) option" where
  "it_CalculateIpChecksum bs n initialChecksum it = do {
     (acc, it1) \<leftarrow> sum_words bs (unat n div 2) it initialChecksum;
     (acc', it2) \<leftarrow> (if odd (unat n)
        then do { (x, it2) \<leftarrow> it_ReadU8 bs it1; Some (acc + ucast x, it2) } else Some (acc, it1));
     Some (ucast (NOT (fold_carry acc')), it2) }"

end
