(* ===== verification/Buffer.thy ===== *)
theory Buffer
  imports Buffer_Iterator
begin

text \<open>
  \<open>ns3::Buffer\<close> (src/src/network/model/buffer.cc, buffer.h): the storage of a packet, shared
  between copies. A \<open>Buffer\<close> is a view (\<open>m_start\<close>, \<open>m_end\<close>, the zero area) of a
  reference-counted \<open>Data\<close>, whose dirty area is the union of the areas its views have used.
  The \<open>Data\<close> objects, the free list and the static variables are one explicit store.
  Operations take a buffer and the store and return both. \<open>None\<close> is a failed
  \<open>NS_ASSERT\<close>, an access outside of the storage or the use of a freed \<open>Data\<close>.
\<close>

section \<open>The store\<close>

record buf_data =
  d_count :: u32
  d_size :: u32
  d_dirtyStart :: u32
  d_dirtyEnd :: u32
  d_bytes :: "u8 list"

datatype free_list = Uninitialized | Destroyed | Initialized "data_ref list"

text \<open>
  \<open>st_junk r\<close> is what the memory holds that \<open>new\<close> returns for reference \<open>r\<close>. The dirty
  area of a new \<open>Data\<close>, which its user sets before reading it, starts as 0.
\<close>

record store =
  st_data :: "data_ref \<Rightarrow> buf_data option"
  st_next :: data_ref
  st_free :: free_list
  st_maxSize :: u32
  st_recommendedStart :: u32
  st_junk :: "data_ref \<Rightarrow> nat \<Rightarrow> u8"

definition initial_store :: "(data_ref \<Rightarrow> nat \<Rightarrow> u8) \<Rightarrow> store" where
  "initial_store junk = \<lparr>st_data = (\<lambda>_. None), st_next = 0, st_free = Uninitialized, st_maxSize = 0,
     st_recommendedStart = 0, st_junk = junk\<rparr>"

abbreviation set_data :: "data_ref \<Rightarrow> buf_data \<Rightarrow> store \<Rightarrow> store" where
  "set_data r d st \<equiv> st\<lparr>st_data := (st_data st)(r := Some d)\<rparr>"

definition st_Allocate :: "u32 \<Rightarrow> store \<Rightarrow> data_ref \<times> store" where
  "st_Allocate reqSize st =
     (let n = (if reqSize = 0 then 1 else reqSize) + 100; r = st_next st in
      (r, (set_data r \<lparr>d_count = 1, d_size = n, d_dirtyStart = 0, d_dirtyEnd = 0,
             d_bytes = map (st_junk st r) [0..<unat n]\<rparr> st)\<lparr>st_next := r + 1\<rparr>))"

definition st_Deallocate :: "data_ref \<Rightarrow> store \<Rightarrow> store option" where
  "st_Deallocate r st = do {
     d \<leftarrow> st_data st r;
     ns_assert (d_count d = 0);
     Some (st\<lparr>st_data := (st_data st)(r := None)\<rparr>) }"

definition st_Recycle :: "data_ref \<Rightarrow> store \<Rightarrow> store option" where
  "st_Recycle r st = do {
     d \<leftarrow> st_data st r;
     ns_assert (d_count d = 0);
     ns_assert (st_free st \<noteq> Uninitialized);
     let st1 = st\<lparr>st_maxSize := max (st_maxSize st) (d_size d)\<rparr>;
     (case st_free st1 of
        Initialized fs \<Rightarrow>
          if d_size d < st_maxSize st1 \<or> length fs > 1000 then st_Deallocate r st1
          else Some (st1\<lparr>st_free := Initialized (fs @ [r])\<rparr>)
      | _ \<Rightarrow> st_Deallocate r st1) }"

text \<open>The search of \<open>Create\<close>: the free list from its back, unsuitable blocks are freed.\<close>

fun take_free :: "u32 \<Rightarrow> data_ref list \<Rightarrow> store \<Rightarrow> (data_ref option \<times> store) option" where
  "take_free n [] st = Some (None, st\<lparr>st_free := Initialized []\<rparr>)"
| "take_free n (r # fs) st = do {
     d \<leftarrow> st_data st r;
     (if d_size d \<ge> n
      then Some (Some r, set_data r (d\<lparr>d_count := 1\<rparr>) (st\<lparr>st_free := Initialized (rev fs)\<rparr>))
      else do { st' \<leftarrow> st_Deallocate r st; take_free n fs st' }) }"

definition st_Create :: "u32 \<Rightarrow> store \<Rightarrow> (data_ref \<times> store) option" where
  "st_Create dataSize st =
     (case st_free st of
        Uninitialized \<Rightarrow> Some (st_Allocate dataSize (st\<lparr>st_free := Initialized []\<rparr>))
      | Destroyed \<Rightarrow> Some (st_Allocate dataSize st)
      | Initialized fs \<Rightarrow> do {
          (found, st') \<leftarrow> take_free dataSize (rev fs) st;
          Some (case found of Some r \<Rightarrow> (r, st') | None \<Rightarrow> st_Allocate dataSize st') })"

text \<open>The static destructor.\<close>

fun free_all :: "data_ref list \<Rightarrow> store \<Rightarrow> store option" where
  "free_all [] st = Some st"
| "free_all (r # fs) st = do { st' \<leftarrow> st_Deallocate r st; free_all fs st' }"

definition st_shutdown :: "store \<Rightarrow> store option" where
  "st_shutdown st =
     (case st_free st of
        Initialized fs \<Rightarrow> do { st' \<leftarrow> free_all fs st; Some (st'\<lparr>st_free := Destroyed\<rparr>) }
      | _ \<Rightarrow> Some st)"

text \<open>\<open>m_data->m_count--\<close>, followed by \<open>Recycle\<close> when nobody uses the data any more.\<close>

definition st_release :: "data_ref \<Rightarrow> store \<Rightarrow> store option" where
  "st_release r st = do {
     d \<leftarrow> st_data st r;
     let st1 = set_data r (d\<lparr>d_count := d_count d - 1\<rparr>) st;
     (if d_count d - 1 = 0 then st_Recycle r st1 else Some st1) }"

section \<open>Buffers\<close>

record buffer =
  b_data :: data_ref
  b_maxZeroAreaStart :: u32
  b_zeroAreaStart :: u32
  b_zeroAreaEnd :: u32
  b_start :: u32
  b_end :: u32

definition b_Initialize :: "u32 \<Rightarrow> store \<Rightarrow> (buffer \<times> store) option" where
  "b_Initialize zeroSize st = do {
     (r, st1) \<leftarrow> st_Create 0 st;
     d \<leftarrow> st_data st1 r;
     let start = min (d_size d) (st_recommendedStart st1);
     Some (\<lparr>b_data = r, b_maxZeroAreaStart = start, b_zeroAreaStart = start,
              b_zeroAreaEnd = start + zeroSize, b_start = start, b_end = start + zeroSize\<rparr>,
           set_data r (d\<lparr>d_dirtyStart := start, d_dirtyEnd := start + zeroSize\<rparr>) st1) }"

definition b_copy :: "buffer \<Rightarrow> store \<Rightarrow> (buffer \<times> store) option" where
  "b_copy b st = do {
     d \<leftarrow> st_data st (b_data b);
     Some (b\<lparr>b_maxZeroAreaStart := b_zeroAreaStart b\<rparr>,
           set_data (b_data b) (d\<lparr>d_count := d_count d + 1\<rparr>) st) }"

definition b_assign :: "buffer \<Rightarrow> buffer \<Rightarrow> store \<Rightarrow> (buffer \<times> store) option" where
  "b_assign b o' st = do {
     st1 \<leftarrow> (if b_data b \<noteq> b_data o'
       then do {
         st' \<leftarrow> st_release (b_data b) st;
         d \<leftarrow> st_data st' (b_data o');
         Some (set_data (b_data o') (d\<lparr>d_count := d_count d + 1\<rparr>) st') }
       else Some st);
     Some (o', st1\<lparr>st_recommendedStart := max (st_recommendedStart st1) (b_maxZeroAreaStart b)\<rparr>) }"

definition b_destroy :: "buffer \<Rightarrow> store \<Rightarrow> store option" where
  "b_destroy b st =
     st_release (b_data b) (st\<lparr>st_recommendedStart := max (st_recommendedStart st) (b_maxZeroAreaStart b)\<rparr>)"

definition b_GetSize :: "buffer \<Rightarrow> u32" where
  "b_GetSize b = b_end b - b_start b"

definition b_GetInternalSize :: "buffer \<Rightarrow> u32" where
  "b_GetInternalSize b = b_zeroAreaStart b - b_start b + b_end b - b_zeroAreaEnd b"

definition b_GetInternalEnd :: "buffer \<Rightarrow> u32" where
  "b_GetInternalEnd b = b_end b - (b_zeroAreaEnd b - b_zeroAreaStart b)"

definition b_Begin :: "buffer \<Rightarrow> iterator" where
  "b_Begin b = \<lparr>it_zeroStart = b_zeroAreaStart b, it_zeroEnd = b_zeroAreaEnd b,
     it_dataStart = b_start b, it_dataEnd = b_end b, it_current = b_start b, it_data = b_data b\<rparr>"

definition b_End :: "buffer \<Rightarrow> iterator" where
  "b_End b = \<lparr>it_zeroStart = b_zeroAreaStart b, it_zeroEnd = b_zeroAreaEnd b,
     it_dataStart = b_start b, it_dataEnd = b_end b, it_current = b_end b, it_data = b_data b\<rparr>"

text \<open>
  The check that \<open>CheckInternalState\<close> would make; the source disables it with
  \<open>#if 0\<close>, so that the assertions of it always hold.
\<close>

definition b_CheckInternalState :: "buffer \<Rightarrow> store \<Rightarrow> bool" where
  "b_CheckInternalState b st \<longleftrightarrow>
     (case st_data st (b_data b) of
        None \<Rightarrow> False
      | Some d \<Rightarrow>
          (let offsetsOk = (b_start b \<le> b_zeroAreaStart b \<and> b_zeroAreaStart b \<le> b_zeroAreaEnd b \<and>
                 b_zeroAreaEnd b \<le> b_end b);
               dirtyOk = (b_start b \<ge> d_dirtyStart d \<and> b_end b \<le> d_dirtyEnd d);
               internalSizeOk = (b_end b - (b_zeroAreaEnd b - b_zeroAreaStart b) \<le> d_size d \<and>
                 b_start b \<le> d_size d \<and> b_zeroAreaStart b \<le> d_size d)
           in d_count d > 0 \<and> offsetsOk \<and> dirtyOk \<and> internalSizeOk))"

abbreviation note_zero_start :: "buffer \<Rightarrow> buffer" where
  "note_zero_start b \<equiv> b\<lparr>b_maxZeroAreaStart := max (b_maxZeroAreaStart b) (b_zeroAreaStart b)\<rparr>"

text \<open>
  Moving to new storage of \<open>size\<close> bytes, the bytes in use copied to offset \<open>at\<close>: the part
  that \<open>AddAtStart\<close> and \<open>AddAtEnd\<close> share.
\<close>

definition b_move :: "u32 \<Rightarrow> u32 \<Rightarrow> buffer \<Rightarrow> store \<Rightarrow> (data_ref \<times> store) option" where
  "b_move n at b st = do {
     (r, st1) \<leftarrow> st_Create n st;
     d \<leftarrow> st_data st1 (b_data b);
     d' \<leftarrow> st_data st1 r;
     xs \<leftarrow> mem_slice (d_bytes d) (b_start b) (b_GetInternalSize b);
     bs \<leftarrow> mem_put (d_bytes d') at xs;
     st2 \<leftarrow> st_release (b_data b) (set_data r (d'\<lparr>d_bytes := bs\<rparr>) st1);
     Some (r, st2) }"

definition set_dirty :: "buffer \<Rightarrow> store \<Rightarrow> store option" where
  "set_dirty b st = do {
     d \<leftarrow> st_data st (b_data b);
     Some (set_data (b_data b) (d\<lparr>d_dirtyStart := b_start b, d_dirtyEnd := b_end b\<rparr>) st) }"

definition b_AddAtStart :: "u32 \<Rightarrow> buffer \<Rightarrow> store \<Rightarrow> (buffer \<times> store) option" where
  "b_AddAtStart start b st = do {
     d \<leftarrow> st_data st (b_data b);
     let isDirty = (d_count d > 1 \<and> b_start b > d_dirtyStart d);
     (b', st') \<leftarrow> (if b_start b \<ge> start \<and> \<not> isDirty
       then do {
         ns_assert (d_count d = 1 \<or> b_start b = d_dirtyStart d);
         let b1 = b\<lparr>b_start := b_start b - start\<rparr>;
         Some (b1, set_data (b_data b1) (d\<lparr>d_dirtyStart := b_start b1\<rparr>) st) }
       else do {
         (r, st1) \<leftarrow> b_move (b_GetInternalSize b + start) start b st;
         let delta = start - b_start b;
         let b1 = b\<lparr>b_data := r, b_start := b_start b + delta - start,
                    b_zeroAreaStart := b_zeroAreaStart b + delta,
                    b_zeroAreaEnd := b_zeroAreaEnd b + delta, b_end := b_end b + delta\<rparr>;
         st2 \<leftarrow> set_dirty b1 st1;
         Some (b1, st2) });
     Some (note_zero_start b', st') }"

definition b_AddAtEnd :: "u32 \<Rightarrow> buffer \<Rightarrow> store \<Rightarrow> (buffer \<times> store) option" where
  "b_AddAtEnd n b st = do {
     d \<leftarrow> st_data st (b_data b);
     let isDirty = (d_count d > 1 \<and> b_end b < d_dirtyEnd d);
     (b', st') \<leftarrow> (if b_GetInternalEnd b + n \<le> d_size d \<and> \<not> isDirty
       then do {
         ns_assert (d_count d = 1 \<or> b_end b = d_dirtyEnd d);
         let b1 = b\<lparr>b_end := b_end b + n\<rparr>;
         Some (b1, set_data (b_data b1) (d\<lparr>d_dirtyEnd := b_end b1\<rparr>) st) }
       else do {
         (r, st1) \<leftarrow> b_move (b_GetInternalSize b + n) 0 b st;
         let delta = - b_start b;
         let b1 = b\<lparr>b_data := r, b_start := b_start b + delta,
                    b_zeroAreaStart := b_zeroAreaStart b + delta,
                    b_zeroAreaEnd := b_zeroAreaEnd b + delta, b_end := b_end b + delta + n\<rparr>;
         st2 \<leftarrow> set_dirty b1 st1;
         Some (b1, st2) });
     Some (note_zero_start b', st') }"

definition b_RemoveAtStart :: "u32 \<Rightarrow> buffer \<Rightarrow> buffer" where
  "b_RemoveAtStart start b =
     (let newStart = b_start b + start;
          b' = (if newStart \<le> b_zeroAreaStart b then b\<lparr>b_start := newStart\<rparr>
            else if newStart \<le> b_zeroAreaEnd b
            then (let delta = newStart - b_zeroAreaStart b in
              b\<lparr>b_start := b_zeroAreaStart b, b_zeroAreaEnd := b_zeroAreaEnd b - delta,
                b_end := b_end b - delta\<rparr>)
            else if newStart \<le> b_end b
            then (let zeroSize = b_zeroAreaEnd b - b_zeroAreaStart b; s = newStart - zeroSize in
              b\<lparr>b_start := s, b_end := b_end b - zeroSize, b_zeroAreaStart := s, b_zeroAreaEnd := s\<rparr>)
            else (let e = b_end b - (b_zeroAreaEnd b - b_zeroAreaStart b) in
              b\<lparr>b_end := e, b_start := e, b_zeroAreaEnd := e, b_zeroAreaStart := e\<rparr>))
      in note_zero_start b')"

definition b_RemoveAtEnd :: "u32 \<Rightarrow> buffer \<Rightarrow> buffer" where
  "b_RemoveAtEnd n b =
     (let newEnd = b_end b - min n (b_end b - b_start b);
          b' = (if newEnd > b_zeroAreaEnd b then b\<lparr>b_end := newEnd\<rparr>
            else if newEnd > b_zeroAreaStart b then b\<lparr>b_end := newEnd, b_zeroAreaEnd := newEnd\<rparr>
            else if newEnd > b_start b
            then b\<lparr>b_end := newEnd, b_zeroAreaEnd := newEnd, b_zeroAreaStart := newEnd\<rparr>
            else b\<lparr>b_end := b_start b, b_zeroAreaEnd := b_start b, b_zeroAreaStart := b_start b\<rparr>)
      in note_zero_start b')"

definition b_CreateFragment :: "u32 \<Rightarrow> u32 \<Rightarrow> buffer \<Rightarrow> store \<Rightarrow> (buffer \<times> store) option" where
  "b_CreateFragment start len b st = do {
     (tmp, st1) \<leftarrow> b_copy b st;
     Some (b_RemoveAtEnd (b_GetSize b - (start + len)) (b_RemoveAtStart start tmp), st1) }"

section \<open>Copies of the bytes\<close>

text \<open>An iterator's write on the store.\<close>

definition write_at :: "iterator \<Rightarrow> (u8 list \<times> iterator \<Rightarrow> (u8 list \<times> iterator) option) \<Rightarrow> store \<Rightarrow> store option" where
  "write_at it w st = do {
     d \<leftarrow> st_data st (it_data it);
     (bs, _) \<leftarrow> w (d_bytes d, it);
     Some (set_data (it_data it) (d\<lparr>d_bytes := bs\<rparr>) st) }"

definition b_CreateFullCopy :: "buffer \<Rightarrow> store \<Rightarrow> (buffer \<times> store) option" where
  "b_CreateFullCopy b st =
     (if b_zeroAreaEnd b - b_zeroAreaStart b \<noteq> 0
      then do {
        let zeroSize = b_zeroAreaEnd b - b_zeroAreaStart b;
        (tmp, st1) \<leftarrow> b_Initialize 0 st;
        (tmp, st2) \<leftarrow> b_AddAtStart zeroSize tmp st1;
        st3 \<leftarrow> write_at (b_Begin tmp) (it_FillU8 0 zeroSize) st2;
        let dataStart = b_zeroAreaStart b - b_start b;
        (tmp, st4) \<leftarrow> b_AddAtStart dataStart tmp st3;
        d \<leftarrow> st_data st4 (b_data b);
        xs \<leftarrow> mem_slice (d_bytes d) (b_start b) dataStart;
        st5 \<leftarrow> write_at (b_Begin tmp) (it_Write xs dataStart) st4;
        let dataEnd = b_end b - b_zeroAreaEnd b;
        (tmp, st6) \<leftarrow> b_AddAtEnd dataEnd tmp st5;
        i \<leftarrow> it_Prev dataEnd (b_End tmp);
        d \<leftarrow> st_data st6 (b_data b);
        xs \<leftarrow> mem_slice (d_bytes d) (b_zeroAreaStart b) dataEnd;
        st7 \<leftarrow> write_at i (it_Write xs dataEnd) st6;
        Some (tmp, st7) }
      else b_copy b st)"

text \<open>\<open>*this = CreateFullCopy()\<close>, with the destruction of the temporary.\<close>

definition b_TransformIntoRealBuffer :: "buffer \<Rightarrow> store \<Rightarrow> (buffer \<times> store) option" where
  "b_TransformIntoRealBuffer b st = do {
     (tmp, st1) \<leftarrow> b_CreateFullCopy b st;
     (b', st2) \<leftarrow> b_assign b tmp st1;
     st3 \<leftarrow> b_destroy tmp st2;
     Some (b', st3) }"

definition b_PeekData :: "buffer \<Rightarrow> store \<Rightarrow> (u8 list \<times> buffer \<times> store) option" where
  "b_PeekData b st = do {
     (b', st') \<leftarrow> b_TransformIntoRealBuffer b st;
     d \<leftarrow> st_data st' (b_data b');
     Some (drop (unat (b_start b')) (d_bytes d), b', st') }"

definition write_range :: "iterator \<Rightarrow> iterator \<Rightarrow> iterator \<Rightarrow> store \<Rightarrow> store option" where
  "write_range dst src end' st = do {
     d \<leftarrow> st_data st (it_data src);
     write_at dst (it_WriteRange (d_bytes d) src end') st }"

definition b_AddBufferAtEnd :: "buffer \<Rightarrow> buffer \<Rightarrow> store \<Rightarrow> (buffer \<times> store) option" where
  "b_AddBufferAtEnd o' b st = do {
     d \<leftarrow> st_data st (b_data b);
     (if d_count d = 1 \<and> (b_end b = b_zeroAreaEnd b \<or> b_zeroAreaStart b = b_zeroAreaEnd b) \<and>
         b_end b = d_dirtyEnd d \<and> b_start o' = b_zeroAreaStart o' \<and>
         b_zeroAreaEnd o' - b_zeroAreaStart o' > 0
      then do {
        let zs = (if b_zeroAreaStart b = b_zeroAreaEnd b then b_end b else b_zeroAreaStart b);
        let zeroSize = b_zeroAreaEnd o' - b_zeroAreaStart o';
        let ze = b_end b + zeroSize;
        let b1 = b\<lparr>b_zeroAreaStart := zs, b_zeroAreaEnd := ze, b_end := ze\<rparr>;
        let st1 = set_data (b_data b) (d\<lparr>d_dirtyEnd := ze\<rparr>) st;
        let endData = b_end o' - b_zeroAreaEnd o';
        (b2, st2) \<leftarrow> b_AddAtEnd endData b1 st1;
        dst \<leftarrow> it_Prev endData (b_End b2);
        src \<leftarrow> it_Prev endData (b_End o');
        st3 \<leftarrow> write_range dst src (b_End o') st2;
        Some (b2, st3) }
      else do {
        (b1, st1) \<leftarrow> b_TransformIntoRealBuffer b st;
        (b2, st2) \<leftarrow> b_AddAtEnd (b_GetSize o') b1 st1;
        dst \<leftarrow> it_Prev (b_GetSize o') (b_End b2);
        st3 \<leftarrow> write_range dst (b_Begin o') (b_End o') st2;
        Some (b2, st3) }) }"

section \<open>Copying out\<close>

function zeroes_out :: "u32 \<Rightarrow> u8 list" where
  "zeroes_out left =
     (if left > 0 then let toWrite = min left 1000 in replicate (unat toWrite) 0 @ zeroes_out (left - toWrite)
      else [])"
  by pat_completeness auto
termination
proof (relation "measure unat", goal_cases)
  case 1 show ?case by simp
next
  case (2 left x)
  then have "0 < unat x" "x \<le> left" by (auto simp: min_def word_gt_0_no word_less_nat_alt)
  moreover from this(2) have "unat x \<le> unat left" by (simp add: word_le_nat_alt)
  ultimately show ?case by (simp add: unat_sub)
qed

declare zeroes_out.simps [simp del]

definition b_CopyData :: "u32 \<Rightarrow> buffer \<Rightarrow> store \<Rightarrow> (u8 list \<times> u32) option" where
  "b_CopyData sz b st = do {
     d \<leftarrow> st_data st (b_data b);
     (if sz > 0 then do {
        let tmp1 = min (b_zeroAreaStart b - b_start b) sz;
        xs \<leftarrow> mem_slice (d_bytes d) (b_start b) tmp1;
        let sz1 = sz - tmp1;
        (if sz1 > 0 then do {
           let tmp2 = min (b_zeroAreaEnd b - b_zeroAreaStart b) sz1;
           let sz2 = sz1 - tmp2;
           (if sz2 > 0 then do {
              let tmp3 = min (b_end b - b_zeroAreaEnd b) sz2;
              ys \<leftarrow> mem_slice (d_bytes d) (b_zeroAreaStart b) tmp3;
              Some (xs @ zeroes_out tmp2 @ ys, sz - (sz2 - tmp3)) }
            else Some (xs @ zeroes_out tmp2, sz - sz2)) }
         else Some (xs, sz - sz1)) }
      else Some ([], sz - sz)) }"

section \<open>Serialization\<close>

text \<open>
  The serialized form is an array of \<open>uint32_t\<close> in the caller's memory, written in the
  host's byte order, which is taken to be little endian. \<open>pad4\<close> is \<open>(n + 3) & ~3\<close>.
\<close>

definition pad4 :: "u32 \<Rightarrow> u32" where
  "pad4 n = (n + 3) AND NOT 3"

definition host_bytes :: "u32 \<Rightarrow> u8 list" where
  "host_bytes w = [ucast w, ucast (drop_bit 8 w), ucast (drop_bit 16 w), ucast (drop_bit 24 w)]"

definition b_GetSerializedSize :: "buffer \<Rightarrow> u32" where
  "b_GetSerializedSize b =
     (let dataStart = pad4 (b_zeroAreaStart b - b_start b);
          dataEnd = pad4 (b_end b - b_zeroAreaEnd b)
      in 4 + 4 + dataStart + 4 + dataEnd)"

text \<open>\<open>out\<close> is the caller's memory; the result is the return value and the memory.\<close>

definition b_Serialize :: "u8 list \<Rightarrow> u32 \<Rightarrow> buffer \<Rightarrow> store \<Rightarrow> (u32 \<times> u8 list) option" where
  "b_Serialize out maxSize b st =
     (let sz = 4 in if sz > maxSize then Some (0, out) else do {
        out1 \<leftarrow> mem_put out 0 (host_bytes (b_zeroAreaEnd b - b_zeroAreaStart b));
        let sz = sz + 4;
        (if sz > maxSize then Some (0, out1) else do {
           let n1 = b_zeroAreaStart b - b_start b;
           out2 \<leftarrow> mem_put out1 4 (host_bytes n1);
           let sz = sz + pad4 n1;
           (if sz > maxSize then Some (0, out2) else do {
              d \<leftarrow> st_data st (b_data b);
              xs \<leftarrow> mem_slice (d_bytes d) (b_start b) n1;
              out3 \<leftarrow> mem_put out2 8 xs;
              let sz = sz + 4;
              (if sz > maxSize then Some (0, out3) else do {
                 let n2 = b_end b - b_zeroAreaEnd b;
                 out4 \<leftarrow> mem_put out3 (8 + pad4 n1) (host_bytes n2);
                 let sz = sz + pad4 n2;
                 (if sz > maxSize then Some (0, out4) else do {
                    ys \<leftarrow> mem_slice (d_bytes d) (b_zeroAreaStart b) n2;
                    out5 \<leftarrow> mem_put out4 (12 + pad4 n1) ys;
                    Some (1, out5) }) }) }) }) })"

definition b_Deserialize :: "u8 list \<Rightarrow> u32 \<Rightarrow> store \<Rightarrow> (u32 \<times> buffer \<times> store) option" where
  "b_Deserialize buf sz st = do {
     let check0 = sz - 4;
     ns_assert (check0 \<ge> 4);
     ws \<leftarrow> mem_slice buf 0 4;
     let zeroDataLength = little_endian ws;
     let check1 = check0 - 4;
     (b, st1) \<leftarrow> b_Initialize zeroDataLength st;
     ns_assert (check1 \<ge> 4);
     ws \<leftarrow> mem_slice buf 4 4;
     let n1 = little_endian ws;
     let check2 = check1 - 4;
     (b, st2) \<leftarrow> b_AddAtStart n1 b st1;
     ns_assert (check2 \<ge> n1);
     xs \<leftarrow> mem_slice buf 8 n1;
     st3 \<leftarrow> write_at (b_Begin b) (it_Write xs n1) st2;
     let check3 = check2 - pad4 n1;
     ns_assert (check3 \<ge> 4);
     ws \<leftarrow> mem_slice buf (8 + pad4 n1) 4;
     let n2 = little_endian ws;
     let check4 = check3 - 4;
     (b, st4) \<leftarrow> b_AddAtEnd n2 b st3;
     ns_assert (check4 \<ge> n2);
     tmp \<leftarrow> it_Prev n2 (b_End b);
     xs \<leftarrow> mem_slice buf (12 + pad4 n1) n2;
     st5 \<leftarrow> write_at tmp (it_Write xs n2) st4;
     let check5 = check4 - pad4 n2;
     ns_assert (check5 = 0);
     Some (if check5 \<noteq> 0 then 0 else 1, b, st5) }"

end
