(* ===== verification/Buffer_View.thy ===== *)
theory Buffer_View
  imports Buffer
begin

text \<open>
  A buffer as a view of storage: the bytes it stands for, as a function of the storage and the
  four offsets, and what \<open>RemoveAtStart\<close> and \<open>RemoveAtEnd\<close> do to them.
\<close>

text \<open>The bytes of a view with offsets \<open>s \<le> z \<le> e \<le> x\<close>.\<close>

definition view_bytes :: "u8 list \<Rightarrow> nat \<Rightarrow> nat \<Rightarrow> nat \<Rightarrow> nat \<Rightarrow> u8 list" where
  "view_bytes bs s z e x = take (z - s) (drop s bs) @ replicate (e - z) 0 @ take (x - e) (drop z bs)"

lemma view_parts:
  "view_bytes bs s (s + a) (s + a + c) (s + a + c + t) =
    take a (drop s bs) @ replicate c 0 @ take t (drop (s + a) bs)"
  by (simp add: view_bytes_def)

lemma offsets:
  assumes "s \<le> z" "z \<le> e" "e \<le> (x :: nat)"
  obtains a c t where "z = s + a" "e = s + a + c" "x = s + a + c + t"
  using assms by (metis le_Suc_ex)

lemma length_view_bytes:
  assumes "s \<le> z" "z \<le> e" "e \<le> x" "z + (x - e) \<le> length bs"
  shows "length (view_bytes bs s z e x) = x - s"
proof -
  obtain a c t where o: "z = s + a" "e = s + a + c" "x = s + a + c + t"
    using assms(1-3) by (rule offsets)
  show ?thesis using assms(4) unfolding o view_parts by simp
qed

lemma view_drop_start:
  "s + n \<le> z \<Longrightarrow> z \<le> length bs \<Longrightarrow> view_bytes bs (s + n) z e x = drop n (view_bytes bs s z e x)"
  by (simp add: view_bytes_def drop_take add.commute)

lemma view_drop_zero:
  assumes "a \<le> n" "n \<le> a + c" "s + a \<le> length bs"
  shows "view_bytes bs (s + a) (s + a) (s + a + c - (n - a)) (s + a + c + t - (n - a)) =
    drop n (view_bytes bs s (s + a) (s + a + c) (s + a + c + t))"
proof -
  obtain d where d: "n = a + d" "d \<le> c" using assms(1,2) by (metis le_Suc_ex nat_add_left_cancel_le)
  then obtain c' where c: "c = d + c'" by (metis le_Suc_ex)
  show ?thesis using assms(3) unfolding d(1) c view_parts by (simp add: view_bytes_def)
qed

lemma view_drop_end:
  assumes "a + c \<le> n" "s + a + t \<le> length bs"
  shows "view_bytes bs (s + n - c) (s + n - c) (s + n - c) (s + a + c + t - c) =
    drop n (view_bytes bs s (s + a) (s + a + c) (s + a + c + t))"
proof -
  obtain d where n: "n = a + c + d" using assms(1) by (metis le_Suc_ex)
  show ?thesis using assms(2) unfolding n view_parts by (simp add: view_bytes_def drop_take ac_simps)
qed

lemma view_take_end:
  assumes "s + a + t \<le> length bs" and "t' \<le> t"
  shows "view_bytes bs s (s + a) (s + a + c) (s + a + c + t') =
    take (a + c + t') (view_bytes bs s (s + a) (s + a + c) (s + a + c + t))"
  using assms unfolding view_parts by simp

lemma view_take_zero:
  assumes "s + a + t \<le> length bs" and "c' \<le> c"
  shows "view_bytes bs s (s + a) (s + a + c') (s + a + c') =
    take (a + c') (view_bytes bs s (s + a) (s + a + c) (s + a + c + t))"
proof -
  obtain d where c: "c = c' + d" using assms(2) by (metis le_Suc_ex)
  show ?thesis using assms(1) unfolding c view_parts by (simp add: view_bytes_def replicate_add)
qed

lemma view_take_start:
  assumes "s + a + t \<le> length bs" and "a' \<le> a"
  shows "view_bytes bs s (s + a') (s + a') (s + a') =
    take a' (view_bytes bs s (s + a) (s + a + c) (s + a + c + t))"
  using assms unfolding view_parts by (simp add: view_bytes_def min_def) arith


definition b_ok :: "buffer \<Rightarrow> bool" where
  "b_ok b \<longleftrightarrow> b_start b \<le> b_zeroAreaStart b \<and> b_zeroAreaStart b \<le> b_zeroAreaEnd b \<and>
     b_zeroAreaEnd b \<le> b_end b"

definition phys_end :: "buffer \<Rightarrow> nat" where
  "phys_end b = unat (b_zeroAreaStart b) + (unat (b_end b) - unat (b_zeroAreaEnd b))"

definition b_bytes :: "u8 list \<Rightarrow> buffer \<Rightarrow> u8 list" where
  "b_bytes bs b = view_bytes bs (unat (b_start b)) (unat (b_zeroAreaStart b))
     (unat (b_zeroAreaEnd b)) (unat (b_end b))"

text \<open>A buffer whose view has the given offset and lengths.\<close>

definition at_offsets :: "buffer \<Rightarrow> nat \<Rightarrow> nat \<Rightarrow> nat \<Rightarrow> nat \<Rightarrow> bool" where
  "at_offsets b s a c t \<longleftrightarrow> unat (b_start b) = s \<and> unat (b_zeroAreaStart b) = s + a \<and>
     unat (b_zeroAreaEnd b) = s + a + c \<and> unat (b_end b) = s + a + c + t"

lemma b_ok_offsets: "b_ok b \<longleftrightarrow> (\<exists>s a c t. at_offsets b s a c t)"
proof
  assume "b_ok b"
  then have "unat (b_start b) \<le> unat (b_zeroAreaStart b)"
    "unat (b_zeroAreaStart b) \<le> unat (b_zeroAreaEnd b)" "unat (b_zeroAreaEnd b) \<le> unat (b_end b)"
    by (simp_all add: b_ok_def word_le_nat_alt)
  then obtain a c t where "unat (b_zeroAreaStart b) = unat (b_start b) + a"
    "unat (b_zeroAreaEnd b) = unat (b_start b) + a + c" "unat (b_end b) = unat (b_start b) + a + c + t"
    by (rule offsets)
  then show "\<exists>s a c t. at_offsets b s a c t" unfolding at_offsets_def by blast
next
  assume "\<exists>s a c t. at_offsets b s a c t"
  then show "b_ok b" by (auto simp: b_ok_def at_offsets_def word_le_nat_alt)
qed

lemma at_offsets_view:
  assumes "at_offsets b s a c t"
  shows "b_ok b" "phys_end b = s + a + t"
    "b_bytes bs b = view_bytes bs s (s + a) (s + a + c) (s + a + c + t)"
proof -
  show "b_ok b" using assms b_ok_offsets by blast
  show "phys_end b = s + a + t"
    "b_bytes bs b = view_bytes bs s (s + a) (s + a + c) (s + a + c + t)"
    using assms by (simp_all add: at_offsets_def phys_end_def b_bytes_def)
qed

lemma note_zero_start_view [simp]:
  "at_offsets (note_zero_start b) s a c t = at_offsets b s a c t"
  by (simp add: at_offsets_def)

lemma RemoveAtStart_offsets:
  assumes b: "at_offsets b s a c t" and n: "s + unat n < 2 ^ 32"
  shows "at_offsets (b_RemoveAtStart n b)
     (if unat n \<le> a then s + unat n else if unat n \<le> a + c then s + a
      else if unat n \<le> a + c + t then s + unat n - c else s + a + t)
     (a - unat n) (if unat n \<le> a then c else a + c - unat n)
     (if unat n \<le> a + c then t else a + c + t - unat n)"
proof -
  have u: "unat (b_start b) = s" "unat (b_zeroAreaStart b) = s + a"
     "unat (b_zeroAreaEnd b) = s + a + c" "unat (b_end b) = s + a + c + t"
    using b by (simp_all add: at_offsets_def)
  have new: "unat (b_start b + n) = s + unat n"
    using u(1) n by (subst unat_add_no_wrap) simp_all
  have zl: "unat (b_zeroAreaEnd b - b_zeroAreaStart b) = c"
    using u by (simp add: unat_sub word_le_nat_alt)
  consider "unat n \<le> a" | "\<not> unat n \<le> a" "unat n \<le> a + c"
    | "\<not> unat n \<le> a" "\<not> unat n \<le> a + c" "unat n \<le> a + c + t"
    | "\<not> unat n \<le> a" "\<not> unat n \<le> a + c" "\<not> unat n \<le> a + c + t" by blast
  then show ?thesis
  proof cases
    case 1
    then show ?thesis
      using u new by (simp add: at_offsets_def b_RemoveAtStart_def word_le_nat_alt Let_def)
  next
    case 2
    have d: "unat (b_start b + n - b_zeroAreaStart b) = unat n - a"
      using u new 2 by (subst unat_sub) (simp_all add: word_le_nat_alt)
    have "unat (b_zeroAreaEnd b - (b_start b + n - b_zeroAreaStart b)) = s + a + c - (unat n - a)"
      "unat (b_end b - (b_start b + n - b_zeroAreaStart b)) = s + a + c + t - (unat n - a)"
      using u d 2 by (subst unat_sub; simp add: word_le_nat_alt)+
    then show ?thesis
      using u new 2 by (simp add: at_offsets_def b_RemoveAtStart_def word_le_nat_alt Let_def) arith
  next
    case 3
    have "unat (b_start b + n - (b_zeroAreaEnd b - b_zeroAreaStart b)) = s + unat n - c"
      "unat (b_end b - (b_zeroAreaEnd b - b_zeroAreaStart b)) = s + a + t"
      using u new zl 3 by (subst unat_sub; simp add: word_le_nat_alt)+
    then show ?thesis
      using u new 3 by (simp add: at_offsets_def b_RemoveAtStart_def word_le_nat_alt Let_def)
  next
    case 4
    have "unat (b_end b - (b_zeroAreaEnd b - b_zeroAreaStart b)) = s + a + t"
      using u new zl 4 by (subst unat_sub) (simp_all add: word_le_nat_alt)
    then show ?thesis
      using u new 4 by (simp add: at_offsets_def b_RemoveAtStart_def word_le_nat_alt Let_def)
  qed
qed


lemma RemoveAtStart_bytes:
  assumes "b_ok b" and "phys_end b \<le> length bs" and "unat (b_start b) + unat n < 2 ^ 32"
  shows "b_bytes bs (b_RemoveAtStart n b) = drop (unat n) (b_bytes bs b)"
    and "b_ok (b_RemoveAtStart n b)" and "phys_end (b_RemoveAtStart n b) = phys_end b"
proof -
  obtain s a c t where o: "at_offsets b s a c t" using assms(1) b_ok_offsets by blast
  note v = at_offsets_view [OF o]
  have s: "s + unat n < 2 ^ 32" "s + a + t \<le> length bs"
    using o assms(2,3) v(2) by (simp_all add: at_offsets_def)
  note r = RemoveAtStart_offsets [OF o s(1)]
  note w = at_offsets_view [OF r]
  show "b_ok (b_RemoveAtStart n b)" by (rule w(1))
  show "phys_end (b_RemoveAtStart n b) = phys_end b" unfolding w(2) v(2) by auto
  consider "unat n \<le> a" | "\<not> unat n \<le> a" "unat n \<le> a + c"
    | "\<not> unat n \<le> a" "\<not> unat n \<le> a + c" "unat n \<le> a + c + t"
    | "\<not> unat n \<le> a" "\<not> unat n \<le> a + c" "\<not> unat n \<le> a + c + t" by blast
  then show "b_bytes bs (b_RemoveAtStart n b) = drop (unat n) (b_bytes bs b)"
  proof cases
    case 1
    then show ?thesis
      using view_drop_start [of s "unat n" "s + a" bs "s + a + c" "s + a + c + t"] s(2)
      unfolding w(3) v(3) by simp
  next
    case 2
    have "s + a + (a + c - unat n) = s + a + c - (unat n - a)"
      "s + a + (a + c - unat n) + t = s + a + c + t - (unat n - a)"
      using 2 by simp_all
    then show ?thesis
      using view_drop_zero [of a "unat n" c s bs t] 2 s(2) unfolding w(3) v(3) by simp
  next
    case 3
    have "s + unat n - c + (a + c + t - unat n) = s + a + c + t - c" using 3 by simp
    then show ?thesis
      using view_drop_end [of a c "unat n" s t bs] 3 s(2) unfolding w(3) v(3) by simp
  next
    case 4
    then have "length (view_bytes bs s (s + a) (s + a + c) (s + a + c + t)) \<le> unat n"
      using s(2) by (subst length_view_bytes) simp_all
    then show ?thesis using 4 unfolding w(3) v(3) by (simp add: view_bytes_def)
  qed
qed

lemma RemoveAtEnd_offsets:
  assumes b: "at_offsets b s a c t" and m_def: "m = a + c + t - unat n"
  shows "at_offsets (b_RemoveAtEnd n b) s (min a m) (min c (m - a)) (m - (a + c))"
proof -
  have u: "unat (b_start b) = s" "unat (b_zeroAreaStart b) = s + a"
     "unat (b_zeroAreaEnd b) = s + a + c" "unat (b_end b) = s + a + c + t"
    using b by (simp_all add: at_offsets_def)
  have len: "unat (b_end b - b_start b) = a + c + t"
    using u by (subst unat_sub) (simp_all add: word_le_nat_alt)
  have "unat (min n (b_end b - b_start b)) = min (unat n) (a + c + t)"
    using len by (simp add: min_def word_le_nat_alt)
  then have new: "unat (b_end b - min n (b_end b - b_start b)) = s + m"
    using u len unfolding m_def by (subst unat_sub) (auto simp: word_le_nat_alt min_def)
  consider "a + c < m" | "m \<le> a + c" "a < m" | "m \<le> a" "0 < m" | "m = 0" by linarith
  then show ?thesis
  proof cases
    case 1
    then show ?thesis
      using u new by (simp add: at_offsets_def b_RemoveAtEnd_def word_less_nat_alt Let_def min_def)
  next
    case 2
    then have "min c (m - a) = m - a" by simp
    with 2 show ?thesis
      using u new by (simp add: at_offsets_def b_RemoveAtEnd_def word_less_nat_alt Let_def)
  next
    case 3
    then show ?thesis
      using u new by (simp add: at_offsets_def b_RemoveAtEnd_def word_less_nat_alt Let_def min_def)
  next
    case 4
    then show ?thesis
      using u new by (simp add: at_offsets_def b_RemoveAtEnd_def word_less_nat_alt Let_def min_def)
  qed
qed

lemma RemoveAtEnd_bytes:
  assumes "b_ok b" and "phys_end b \<le> length bs"
  shows "b_bytes bs (b_RemoveAtEnd n b) = take (length (b_bytes bs b) - unat n) (b_bytes bs b)"
    and "b_ok (b_RemoveAtEnd n b)" and "phys_end (b_RemoveAtEnd n b) \<le> phys_end b"
proof -
  obtain s a c t where o: "at_offsets b s a c t" using assms(1) b_ok_offsets by blast
  note v = at_offsets_view [OF o]
  have s: "s + a + t \<le> length bs" using assms(2) v(2) by simp
  note w = at_offsets_view [OF RemoveAtEnd_offsets [OF o refl, of n]]
  show "b_ok (b_RemoveAtEnd n b)" by (rule w(1))
  show "phys_end (b_RemoveAtEnd n b) \<le> phys_end b" unfolding w(2) v(2) by auto
  define m where "m = a + c + t - unat n"
  have len: "length (b_bytes bs b) - unat n = m"
    unfolding v(3) m_def using s by (subst length_view_bytes) simp_all
  have mt: "m \<le> a + c + t" by (simp add: m_def)
  consider "a + c < m" | "m \<le> a + c" "a < m" | "m \<le> a" by linarith
  then show "b_bytes bs (b_RemoveAtEnd n b) = take (length (b_bytes bs b) - unat n) (b_bytes bs b)"
    unfolding len unfolding w(3) v(3) m_def [symmetric]
  proof cases
    case 1
    then have "min c (m - a) = c" "min a m = a" by simp_all
    with 1 show "view_bytes bs s (s + min a m) (s + min a m + min c (m - a))
      (s + min a m + min c (m - a) + (m - (a + c))) = take m (view_bytes bs s (s + a) (s + a + c) (s + a + c + t))"
      using view_take_end [of s a t bs "m - (a + c)" c] s mt by simp
  next
    case 2
    then have "min c (m - a) = m - a" "min a m = a" by simp_all
    with 2 show "view_bytes bs s (s + min a m) (s + min a m + min c (m - a))
      (s + min a m + min c (m - a) + (m - (a + c))) = take m (view_bytes bs s (s + a) (s + a + c) (s + a + c + t))"
      using view_take_zero [of s a t bs "m - a" c] s by simp
  next
    case 3
    then have "min a m = m" "m - a = 0" by simp_all
    with 3 show "view_bytes bs s (s + min a m) (s + min a m + min c (m - a))
      (s + min a m + min c (m - a) + (m - (a + c))) = take m (view_bytes bs s (s + a) (s + a + c) (s + a + c + t))"
      using view_take_start [of s a t bs m c] s by simp
  qed
qed

end
