(* ===== verification/Buffer_Access.thy ===== *)
theory Buffer_Access
  imports Buffer_View
begin

text \<open>
  Where an iterator's bytes are stored, and what its reads and writes do to the storage there.
\<close>

section \<open>Contiguous ranges\<close>

text \<open>
  The \<open>n\<close> bytes from the iterator's position are stored together, at \<open>p\<close>: they end before
  the zero area or begin behind it.
\<close>

definition it_at :: "iterator \<Rightarrow> nat \<Rightarrow> nat \<Rightarrow> bool" where
  "it_at it n p \<longleftrightarrow>
     it_dataStart it \<le> it_current it \<and> it_zeroStart it \<le> it_zeroEnd it \<and>
     it_zeroEnd it \<le> it_dataEnd it \<and>
     (unat (it_current it) + n \<le> unat (it_zeroStart it) \<and> p = unat (it_current it) \<or>
      it_zeroEnd it \<le> it_current it \<and> unat (it_current it) + n \<le> unat (it_dataEnd it) \<and>
      p + unat (it_zeroEnd it) = unat (it_current it) + unat (it_zeroStart it))"

lemma it_at_bound:
  assumes "it_at it n p"
  shows "unat (it_current it) + n \<le> unat (it_dataEnd it)" "unat (it_current it) + n < 2 ^ 32"
proof -
  show le: "unat (it_current it) + n \<le> unat (it_dataEnd it)"
    using assms by (auto simp: it_at_def word_le_nat_alt)
  show "unat (it_current it) + n < 2 ^ 32"
    by (rule le_less_trans [OF le]) (use unsigned_less [of "it_dataEnd it"] in simp)
qed

lemma it_at_skip:
  assumes "it_at it (m + n) p"
  shows "it_at (it_skip (of_nat m) it) n (p + m)"
proof -
  have m: "m < 2 ^ 32" using it_at_bound(2) [OF assms] by simp
  then have um: "unat (of_nat m :: u32) = m" by (simp add: unsigned_of_nat take_bit_nat_eq_self)
  then have "unat (it_current it + of_nat m) = unat (it_current it) + m"
    using it_at_bound(2) [OF assms] by (subst unat_add_no_wrap) simp_all
  then show ?thesis using assms by (auto simp: it_at_def word_le_nat_alt)
qed

lemma it_at_mono: "it_at it n p \<Longrightarrow> m \<le> n \<Longrightarrow> it_at it m p"
  by (auto simp: it_at_def)

lemma it_at_where:
  assumes "it_at it n p"
  shows "it_zeroEnd it \<le> it_current it \<Longrightarrow> unat (it_current it - zero_len it) = p"
    "\<not> it_zeroEnd it \<le> it_current it \<Longrightarrow> p = unat (it_current it) \<and> p + n \<le> unat (it_zeroStart it)"
    "it_zeroStart it = it_current it \<Longrightarrow> n \<noteq> 0 \<Longrightarrow> it_zeroEnd it = it_current it"
proof -
  show "it_zeroStart it = it_current it \<Longrightarrow> n \<noteq> 0 \<Longrightarrow> it_zeroEnd it = it_current it"
    using assms by (auto simp: it_at_def word_unat_eq_iff word_le_nat_alt)
  show "\<not> it_zeroEnd it \<le> it_current it \<Longrightarrow> p = unat (it_current it) \<and> p + n \<le> unat (it_zeroStart it)"
    using assms by (auto simp: it_at_def)
  assume c: "it_zeroEnd it \<le> it_current it"
  have z: "unat (zero_len it) = unat (it_zeroEnd it) - unat (it_zeroStart it)"
    using assms by (intro unat_sub) (simp add: it_at_def)
  have "zero_len it \<le> it_current it" using z c by (simp add: word_le_nat_alt)
  then have "unat (it_current it - zero_len it) = unat (it_current it) - unat (zero_len it)"
    by (rule unat_sub)
  then show "unat (it_current it - zero_len it) = p"
    using assms c z by (auto simp: it_at_def word_le_nat_alt)
qed

lemma it_at_begin:
  assumes "at_offsets b s a c t" and "n \<le> a"
  shows "it_at (b_Begin b) n s"
  using assms by (simp add: it_at_def b_Begin_def at_offsets_def word_le_nat_alt)

lemma it_at_end:
  assumes o: "at_offsets b s a c t" and n: "unat n \<le> t"
  shows "\<exists>it. it_Prev n (b_End b) = Some it \<and> it_data it = b_data b \<and>
    it_at it (unat n) (s + a + t - unat n)"
proof -
  have u: "unat (b_start b) = s" "unat (b_zeroAreaStart b) = s + a"
     "unat (b_zeroAreaEnd b) = s + a + c" "unat (b_end b) = s + a + c + t"
    using o by (simp_all add: at_offsets_def)
  then have "unat (b_end b - n) = s + a + c + t - unat n"
    using n by (intro trans [OF unat_sub]) (simp_all add: word_le_nat_alt)
  then show ?thesis
    using u n by (auto simp: it_Prev_def b_End_def it_at_def word_le_nat_alt)
qed

section \<open>Writing\<close>

definition put :: "u8 list \<Rightarrow> nat \<Rightarrow> u8 list \<Rightarrow> u8 list" where
  "put bs p xs = take p bs @ xs @ drop (p + length xs) bs"

lemma length_put [simp]: "p + length xs \<le> length bs \<Longrightarrow> length (put bs p xs) = length bs"
  by (simp add: put_def)

lemma take_put: "k \<le> p \<Longrightarrow> p \<le> length bs \<Longrightarrow> take k (put bs p xs) = take k bs"
  by (simp add: put_def min_def)

lemma drop_put: "p + length xs \<le> k \<Longrightarrow> p \<le> length bs \<Longrightarrow> drop k (put bs p xs) = drop k bs"
  by (simp add: put_def min_def)

lemma slice_put: "p \<le> length bs \<Longrightarrow> take (length xs) (drop p (put bs p xs)) = xs"
  by (simp add: put_def min_def)

lemma put_Nil [simp]: "put bs p [] = bs"
  by (simp add: put_def)

lemma put_Cons:
  "p < length bs \<Longrightarrow> put (put bs p [x]) (Suc p) xs = put bs p (x # xs)"
  by (simp add: put_def min_def take_Suc_conv_app_nth add.commute)

lemma mem_put_at: "unat i = p \<Longrightarrow> p + length xs \<le> length bs \<Longrightarrow> mem_put bs i xs = Some (put bs p xs)"
  by (simp add: mem_put_def put_def)

lemma WriteU8_at:
  assumes at: "it_at it (Suc n) p" and p: "p < length bs"
  shows "it_WriteU8 x (bs, it) = Some (put bs p [x], it_skip 1 it)"
proof -
  note w = it_at_where [OF at]
  have "it_Check it (it_current it)"
    using at by (auto simp: it_Check_def it_at_def word_le_nat_alt word_less_nat_alt)
  moreover have "it_current it < it_zeroStart it \<Longrightarrow> unat (it_current it) = p"
    using w(2) at by (auto simp: it_at_def word_le_nat_alt word_less_nat_alt)
  moreover have "\<not> it_current it < it_zeroStart it \<Longrightarrow> it_zeroEnd it \<le> it_current it"
    using w(2) by (force simp: word_le_nat_alt word_less_nat_alt)
  ultimately show ?thesis
    using w(1) p mem_put_at [of _ p "[x]" bs] by (simp add: it_WriteU8_def option_simps)
qed

lemma WriteBytes_at:
  "it_at it (length xs) p \<Longrightarrow> p + length xs \<le> length bs \<Longrightarrow>
   it_WriteBytes xs (bs, it) = Some (put bs p xs, it_skip (of_nat (length xs)) it)"
proof (induction xs arbitrary: bs it p)
  case Nil
  then show ?case by simp
next
  case (Cons x xs)
  have "it_at (it_skip (of_nat 1) it) (length xs) (p + 1)"
    using Cons.prems(1) by (intro it_at_skip) simp
  then have "it_WriteBytes xs (put bs p [x], it_skip 1 it) =
      Some (put (put bs p [x]) (p + 1) xs, it_skip (of_nat (length xs)) (it_skip 1 it))"
    using Cons.prems(2) by (intro Cons.IH) simp_all
  then show ?case
    using WriteU8_at [of it "length xs" p bs x] Cons.prems put_Cons [of p bs x xs]
    by (simp add: algebra_simps)
qed

lemma CheckNoZero_at:
  assumes at: "it_at it n p" and n: "unat k = unat (it_current it) + n \<or> unat k = n"
  shows "it_CheckNoZero it (it_current it) k"
  using assms it_at_bound(1) [OF at] by (auto simp: it_CheckNoZero_def it_at_def word_le_nat_alt word_less_nat_alt)

lemma current_add_at:
  "it_at it (unat n) p \<Longrightarrow> unat (it_current it + n) = unat (it_current it) + unat n"
  using it_at_bound(2) by (subst unat_add_no_wrap) simp_all

lemma put_at:
  assumes at: "it_at it n p" and p: "p + length xs \<le> length bs" and "length xs = n"
  shows "it_current it \<le> it_zeroStart it \<Longrightarrow> mem_put bs (it_current it) xs = Some (put bs p xs)"
    "\<not> it_current it \<le> it_zeroStart it \<Longrightarrow> mem_put bs (it_current it - zero_len it) xs = Some (put bs p xs)"
proof -
  note w = it_at_where [OF at]
  show "mem_put bs (it_current it) xs = Some (put bs p xs)" if "it_current it \<le> it_zeroStart it"
  proof (cases "n = 0")
    case True
    then show ?thesis using assms(3) by (simp add: mem_put_def)
  next
    case False
    have "unat (it_current it) = p"
      using at that False by (auto simp: it_at_def word_le_nat_alt)
    then show ?thesis using p by (rule mem_put_at)
  qed
  assume "\<not> it_current it \<le> it_zeroStart it"
  then have "it_zeroEnd it \<le> it_current it" using at by (auto simp: it_at_def word_le_nat_alt)
  then show "mem_put bs (it_current it - zero_len it) xs = Some (put bs p xs)"
    using w(1) p by (intro mem_put_at) simp_all
qed

lemma Write_at:
  assumes at: "it_at it (unat n) p" and p: "p + unat n \<le> length bs" and n: "unat n = length xs"
  shows "it_Write xs n (bs, it) = Some (put bs p xs, it_skip n it)"
proof -
  have "mem_slice xs 0 n = Some xs" using n by (auto simp: mem_slice_def unat_eq_0 [symmetric])
  moreover have "it_CheckNoZero it (it_current it) n" by (rule CheckNoZero_at [OF at]) simp
  moreover have p': "p + length xs \<le> length bs" using p n by simp
  ultimately show ?thesis
    using put_at [OF at p' n [symmetric]] by (simp add: it_Write_def option_simps)
qed

lemma FillU8_at:
  assumes at: "it_at it (unat n) p" and p: "p + unat n \<le> length bs"
  shows "it_FillU8 x n (bs, it) = Some (put bs p (replicate (unat n) x), it_skip n it)"
proof -
  have "it_CheckNoZero it (it_current it) (it_current it + n)"
    using current_add_at [OF at] by (intro CheckNoZero_at [OF at]) simp
  then show ?thesis
    using put_at [OF at, of "replicate (unat n) x" bs] p by (simp add: it_FillU8_def option_simps)
qed

section \<open>Reading\<close>

lemma PeekU8_at:
  assumes at: "it_at it (Suc n) p" and p: "p < length bs"
  shows "it_PeekU8 bs it = Some (bs ! p)"
proof -
  note w = it_at_where [OF at]
  have "it_current it \<ge> it_dataStart it" "it_current it < it_dataEnd it"
    using at it_at_bound(1) [OF at] by (auto simp: it_at_def word_less_nat_alt)
  moreover have "it_current it < it_zeroStart it \<Longrightarrow> unat (it_current it) = p"
    using w(2) at by (auto simp: it_at_def word_le_nat_alt word_less_nat_alt)
  moreover have "\<not> it_current it < it_zeroStart it \<Longrightarrow> it_zeroEnd it \<le> it_current it"
    using w(2) by (force simp: word_le_nat_alt word_less_nat_alt)
  ultimately show ?thesis
    using w(1) p by (simp add: it_PeekU8_def option_simps mem_get_def leD)
qed

lemma ReadBytes_at:
  "it_at it n p \<Longrightarrow> p + n \<le> length bs \<Longrightarrow>
   it_ReadBytes bs n it = Some (take n (drop p bs), it_skip (of_nat n) it)"
proof (induction n arbitrary: it p)
  case 0
  then show ?case by simp
next
  case (Suc n)
  have "it_at (it_skip (of_nat 1) it) n (p + 1)"
    using Suc.prems(1) by (intro it_at_skip) simp
  then have "it_ReadBytes bs n (it_skip 1 it) = Some (take n (drop (p + 1) bs), it_skip (of_nat n) (it_skip 1 it))"
    using Suc.prems(2) by (intro Suc.IH) simp_all
  moreover have "take (Suc n) (drop p bs) = bs ! p # take n (drop (p + 1) bs)"
    using Suc.prems(2) by (simp add: Cons_nth_drop_Suc [symmetric])
  ultimately show ?case
    using PeekU8_at [OF Suc.prems(1), of bs] Suc.prems(2) by (simp add: it_ReadU8_def algebra_simps)
qed

lemma mem_slice_at:
  assumes at: "it_at it (unat n) p" and p: "p + unat n \<le> length bs"
  shows "it_current it + n \<le> it_zeroStart it \<Longrightarrow> mem_slice bs (it_current it) n = Some (take (unat n) (drop p bs))"
    "it_current it \<ge> it_zeroEnd it \<Longrightarrow> mem_slice bs (it_current it - zero_len it) n = Some (take (unat n) (drop p bs))"
proof -
  note w = it_at_where [OF at]
  show "mem_slice bs (it_current it - zero_len it) n = Some (take (unat n) (drop p bs))"
    if "it_current it \<ge> it_zeroEnd it"
    using w(1) [OF that] p by (auto simp: mem_slice_def)
  assume "it_current it + n \<le> it_zeroStart it"
  then have "unat (it_current it) = p \<or> n = 0"
    using at current_add_at [OF at] by (auto simp: it_at_def word_le_nat_alt unat_eq_0 [symmetric])
  then show "mem_slice bs (it_current it) n = Some (take (unat n) (drop p bs))"
    using p by (auto simp: mem_slice_def)
qed

lemma ReadNtohU16_at:
  assumes "it_at it 2 p" and "p + 2 \<le> length bs"
  shows "it_ReadNtohU16 bs it = Some (big_endian (take 2 (drop p bs)), it_skip 2 it)"
proof -
  have "it_at it (unat (2 :: u32)) p" "p + unat (2 :: u32) \<le> length bs" using assms by simp_all
  note m = mem_slice_at [OF this]
  show ?thesis
    using m ReadBytes_at [OF assms] by (simp add: it_ReadNtohU16_def it_SlowReadNtohU16_def)
qed

lemma ReadNtohU32_at:
  assumes "it_at it 4 p" and "p + 4 \<le> length bs"
  shows "it_ReadNtohU32 bs it = Some (big_endian (take 4 (drop p bs)), it_skip 4 it)"
proof -
  have "it_at it (unat (4 :: u32)) p" "p + unat (4 :: u32) \<le> length bs" using assms by simp_all
  note m = mem_slice_at [OF this]
  show ?thesis
    using m ReadBytes_at [OF assms] by (simp add: it_ReadNtohU32_def it_SlowReadNtohU32_def)
qed

section \<open>Byte orders\<close>

lemma bit_shift_in [bit_simps]:
  fixes w :: "'a::len word"
  shows "bit (shift_in w x) n \<longleftrightarrow> n < LENGTH('a) \<and> (if n < 8 then bit x n else bit w (n - 8))"
  by (auto simp: shift_in_def bit_simps dest: bit_imp_le_length)

lemma and_0xff: "w AND 0xff = take_bit 8 (w :: 'a::len word)"
  by (simp add: take_bit_eq_mask mask_eq_decr_exp)

text \<open>Shifting in the byte at \<open>k\<close> completes the value from bit \<open>k\<close> on.\<close>

lemma shift_in_byte:
  fixes w :: "'a::len word"
  assumes "j = k + 8"
  shows "shift_in (drop_bit j w) (ucast (drop_bit k w AND 0xff) :: u8) = drop_bit k w"
  by (rule bit_word_eqI) (use assms in \<open>auto simp: and_0xff bit_simps add.commute\<close>)

lemma first_byte:
  fixes w :: "'a::len word"
  assumes "k + 8 = LENGTH('a)"
  shows "ucast (ucast (drop_bit k w AND 0xff) :: u8) = drop_bit k w"
  by (rule bit_word_eqI) (use assms in \<open>auto simp: and_0xff bit_simps dest: bit_imp_le_length\<close>)

lemmas shift_in_bytes =
  shift_in_byte [of 8 0, simplified] shift_in_byte [of 16 8, simplified] shift_in_byte [of 24 16, simplified]
  shift_in_byte [of 32 24, simplified] shift_in_byte [of 40 32, simplified] shift_in_byte [of 48 40, simplified]
  shift_in_byte [of 56 48, simplified]

lemmas first_bytes =
  first_byte [where 'a = 16 and k = 8, simplified] first_byte [where 'a = 32 and k = 24, simplified]
  first_byte [where 'a = 64 and k = 56, simplified]

lemmas byte_orders = little_endian_def big_endian_def shift_in_bytes first_bytes

text \<open>What a value is written as at a contiguous place is read back there.\<close>

definition reads_back ::
  "('a \<Rightarrow> u8 list \<times> iterator \<Rightarrow> (u8 list \<times> iterator) option) \<Rightarrow>
   (u8 list \<Rightarrow> iterator \<Rightarrow> ('a \<times> iterator) option) \<Rightarrow> u32 \<Rightarrow> u8 list \<times> iterator \<Rightarrow> bool" where
  "reads_back wr rd n = (\<lambda>(bs, it). \<forall>w. \<exists>bs'. wr w (bs, it) = Some (bs', it_skip n it) \<and>
     length bs' = length bs \<and> rd bs' it = Some (w, it_skip n it))"

primrec bytes_le :: "nat \<Rightarrow> 'a::len word \<Rightarrow> u8 list" where
  "bytes_le 0 w = []"
| "bytes_le (Suc n) w = ucast (w AND 0xff) # bytes_le n (drop_bit 8 w)"

lemma length_bytes_le [simp]: "length (bytes_le n w) = n"
  by (induction n arbitrary: w) simp_all

lemma bytes_le_eqs:
  "bytes_le 2 w = [ucast (w AND 0xff), ucast (drop_bit 8 w AND 0xff)]"
  "bytes_le 4 w = [ucast (w AND 0xff), ucast (drop_bit 8 w AND 0xff), ucast (drop_bit 16 w AND 0xff),
     ucast (drop_bit 24 w AND 0xff)]"
  "bytes_le 8 w = [ucast (w AND 0xff), ucast (drop_bit 8 w AND 0xff), ucast (drop_bit 16 w AND 0xff),
     ucast (drop_bit 24 w AND 0xff), ucast (drop_bit 32 w AND 0xff), ucast (drop_bit 40 w AND 0xff),
     ucast (drop_bit 48 w AND 0xff), ucast (drop_bit 56 w AND 0xff)]"
  by (simp_all add: eval_nat_numeral)

lemma endian_bytes:
  "little_endian (bytes_le 2 w) = (w :: u16)" "big_endian (rev (bytes_le 2 w)) = (w :: u16)"
  "little_endian (bytes_le 4 x) = (x :: u32)" "big_endian (rev (bytes_le 4 x)) = (x :: u32)"
  "little_endian (bytes_le 8 y) = (y :: u64)" "big_endian (rev (bytes_le 8 y)) = (y :: u64)"
  by (simp_all add: bytes_le_eqs byte_orders)

lemma reads_backI:
  assumes at: "it_at it (unat n) p" and p: "p + unat n \<le> length bs"
    and w: "\<And>w. wr w (bs, it) = Some (put bs p (enc w), it_skip n it)" "\<And>w. length (enc w) = unat n"
    and r: "\<And>bs'. length bs' = length bs \<Longrightarrow> rd bs' it = Some (dec (take (unat n) (drop p bs')), it_skip n it)"
    and inv: "\<And>w. dec (enc w) = w"
  shows "reads_back wr rd n (bs, it)"
proof -
  have "take (unat n) (drop p (put bs p (enc w))) = enc w" for w
    using slice_put [of p bs "enc w"] p w(2) by simp
  moreover have "length (put bs p (enc w)) = length bs" for w using p w(2) by simp
  ultimately show ?thesis using w(1) r inv by (simp add: reads_back_def)
qed

lemma WriteBytes_le:
  assumes at: "it_at it (unat n) p" and p: "p + unat n \<le> length bs" and xs: "length xs = unat n"
  shows "it_WriteBytes xs (bs, it) = Some (put bs p xs, it_skip n it)"
  using WriteBytes_at [of it xs p bs] at p xs by simp

lemma WriteHton_at:
  assumes at: "it_at it (unat n) p" and p: "p + unat n \<le> length bs" and xs: "length xs = unat n" "n \<noteq> 0"
  shows "it_CheckNoZero it (it_current it) (it_current it + n) \<and>
    mem_put bs (if it_current it + n \<le> it_zeroStart it then it_current it else it_current it - zero_len it) xs =
      Some (put bs p xs)"
proof
  show "it_CheckNoZero it (it_current it) (it_current it + n)"
    using current_add_at [OF at] by (intro CheckNoZero_at [OF at]) simp
  have "(it_current it + n \<le> it_zeroStart it \<longrightarrow> unat (it_current it) = p)"
    "\<not> it_current it + n \<le> it_zeroStart it \<longrightarrow> it_zeroEnd it \<le> it_current it"
    using at current_add_at [OF at] xs(2) unfolding it_at_def
    by (auto simp: word_le_nat_alt unat_eq_0 [symmetric])
  then show "mem_put bs (if it_current it + n \<le> it_zeroStart it then it_current it else it_current it - zero_len it) xs =
      Some (put bs p xs)"
    using it_at_where(1) [OF at] p xs by (auto intro!: mem_put_at)
qed

lemmas write_defs =
  it_WriteU16_def it_WriteU32_def it_WriteU64_def it_WriteHtolsbU16_def it_WriteHtolsbU32_def
  it_WriteHtolsbU64_def it_WriteHtonU64_def

text \<open>What each writer writes.\<close>

lemma write_bytes_le:
  "it_WriteU16 w = it_WriteBytes (bytes_le 2 w)" "it_WriteHtolsbU16 w = it_WriteBytes (bytes_le 2 w)"
  "it_WriteU32 x = it_WriteBytes (bytes_le 4 x)" "it_WriteHtolsbU32 x = it_WriteBytes (bytes_le 4 x)"
  "it_WriteU64 y = it_WriteBytes (bytes_le 8 y)" "it_WriteHtolsbU64 y = it_WriteBytes (bytes_le 8 y)"
  "it_WriteHtonU64 y = it_WriteBytes (rev (bytes_le 8 y))"
  by (simp_all add: write_defs bytes_le_eqs Let_def del: it_WriteBytes.simps)

lemma WriteHtonU16_at:
  assumes "it_at it (unat (2::u32)) p" "p + unat (2::u32) \<le> length bs"
  shows "it_WriteHtonU16 w (bs, it) = Some (put bs p (rev (bytes_le 2 w)), it_skip 2 it)"
  using WriteHton_at [OF assms, of "rev (bytes_le 2 w)"]
  by (simp add: it_WriteHtonU16_def option_simps bytes_le_eqs cong: if_cong)

lemma WriteHtonU32_at:
  assumes "it_at it (unat (4::u32)) p" "p + unat (4::u32) \<le> length bs"
  shows "it_WriteHtonU32 w (bs, it) = Some (put bs p (rev (bytes_le 4 w)), it_skip 4 it)"
  using WriteHton_at [OF assms, of "rev (bytes_le 4 w)"]
  by (simp add: it_WriteHtonU32_def option_simps bytes_le_eqs cong: if_cong)

lemma read_U16:
  "it_ReadU16 bs it = do { (xs, it') \<leftarrow> it_ReadBytes bs 2 it; Some (little_endian xs, it') }"
  by (simp add: it_ReadU16_def eval_nat_numeral little_endian_def split: option.splits bind_split prod.splits)

lemma reads_back_bytes:
  assumes at: "it_at it (unat n) p" and p: "p + unat n \<le> length bs"
    and r: "\<And>bs' xs. it_ReadBytes bs' (unat n) it = Some (xs, it_skip n it) \<Longrightarrow> rd bs' it = Some (dec xs, it_skip n it)"
    and w: "\<And>w. wr w = it_WriteBytes (enc w)" "\<And>w. length (enc w) = unat n"
    and inv: "\<And>w. dec (enc w) = w"
  shows "reads_back wr rd n (bs, it)"
proof (rule reads_backI [OF at p _ w(2) _ inv])
  show "wr w (bs, it) = Some (put bs p (enc w), it_skip n it)" for w
    unfolding w(1) by (rule WriteBytes_le [OF at p w(2)])
  fix bs' :: "u8 list" assume "length bs' = length bs"
  then have "it_ReadBytes bs' (unat n) it = Some (take (unat n) (drop p bs'), it_skip n it)"
    using ReadBytes_at [OF at, of bs'] p by simp
  then show "rd bs' it = Some (dec (take (unat n) (drop p bs')), it_skip n it)" by (rule r)
qed


text \<open>A buffer of 24 bytes in storage, 8 before and 8 behind a zero area of 100 bytes.\<close>

definition sample_iterator :: iterator where
  "sample_iterator = \<lparr>it_zeroStart = 12, it_zeroEnd = 112, it_dataStart = 4, it_dataEnd = 120,
     it_current = 4, it_data = 0\<rparr>"

definition sample_bytes :: "u8 list" where
  "sample_bytes = [0, 1, 2, 3, 4, 5, 6, 7, 8, 9, 10, 11, 12, 13, 14, 15, 16, 17, 18, 19, 20, 21, 22, 23]"


section \<open>The fast paths\<close>

text \<open>Where the slow path succeeds, the bytes are in the buffer.\<close>

lemma PeekU8_SomeD:
  assumes "it_PeekU8 bs it = Some x" and "it_zeroStart it \<le> it_zeroEnd it" "it_zeroEnd it \<le> it_dataEnd it"
  shows "it_dataStart it \<le> it_current it" "it_current it < it_dataEnd it"
    "it_at it 1 p \<Longrightarrow> p < length bs"
proof -
  show b: "it_dataStart it \<le> it_current it" "it_current it < it_dataEnd it"
    using assms(1) by (auto simp: it_PeekU8_def option_simps split: if_splits)
  assume at: "it_at it 1 p"
  have "it_current it < it_zeroStart it \<Longrightarrow> p = unat (it_current it)"
    "\<not> it_current it < it_zeroStart it \<Longrightarrow> it_zeroEnd it \<le> it_current it"
    using at by (auto simp: it_at_def word_less_nat_alt word_le_nat_alt)
  then show "p < length bs"
    using assms(1) it_at_where(1) [OF at] b
    by (auto simp: it_PeekU8_def option_simps mem_get_def leD split: if_splits)
qed

lemma ReadBytes_SomeD:
  assumes "it_ReadBytes bs n it = Some r" "n \<noteq> 0" "it_zeroStart it \<le> it_zeroEnd it" "it_zeroEnd it \<le> it_dataEnd it"
  shows "it_dataStart it \<le> it_current it \<and> unat (it_current it) + n \<le> unat (it_dataEnd it) \<and>
    (\<forall>p. it_at it n p \<longrightarrow> p + n \<le> length bs)"
  using assms
proof (induction n arbitrary: it r)
  case (Suc n)
  from Suc.prems(1) obtain x r' where x: "it_PeekU8 bs it = Some x" and
    r': "it_ReadBytes bs n (it_skip 1 it) = Some r'"
    by (auto simp: it_ReadU8_def bind_eq_Some_conv)
  note b = PeekU8_SomeD [OF x Suc.prems(3,4)]
  have c: "unat (it_current it + 1) = unat (it_current it) + 1"
    by (rule unat_succ_no_wrap) (use b(2) unat_bounds(3) [of "it_dataEnd it"] in \<open>auto simp: word_less_nat_alt\<close>)
  have p: "p < length bs" if "it_at it (Suc n) p" for p
    by (rule b(3), rule it_at_mono [OF that]) simp
  show ?case
  proof (cases "n = 0")
    case True
    then show ?thesis using b(1,2) p by (auto simp: word_less_nat_alt Suc_le_eq)
  next
    case False
    have "unat (it_current it + 1) + n \<le> unat (it_dataEnd it) \<and>
      (\<forall>p. it_at (it_skip 1 it) n p \<longrightarrow> p + n \<le> length bs)"
      using Suc.IH [OF r' False] Suc.prems(3,4) by simp
    moreover have "it_at (it_skip 1 it) n (p + 1)" if "it_at it (Suc n) p" for p
      using it_at_skip [of it 1 n p] that by simp
    ultimately show ?thesis using b(1) c by fastforce
  qed
qed simp

lemma fast_slices:
  assumes r: "it_ReadBytes bs (unat n) it = Some (xs, it')" and n: "unat n \<noteq> 0"
    and z: "it_zeroStart it \<le> it_zeroEnd it" "it_zeroEnd it \<le> it_dataEnd it"
  shows "it_current it + n \<le> it_zeroStart it \<Longrightarrow> mem_slice bs (it_current it) n = Some xs \<and> it' = it_skip n it"
    "it_current it \<ge> it_zeroEnd it \<Longrightarrow> mem_slice bs (it_current it - zero_len it) n = Some xs \<and> it' = it_skip n it"
proof -
  note b = ReadBytes_SomeD [OF r n z]
  have at_slice: "xs = take (unat n) (drop p bs) \<and> it' = it_skip n it" if "it_at it (unat n) p" for p
    using ReadBytes_at [OF that, of bs] b r that by simp
  have c: "unat (it_current it + n) = unat (it_current it) + unat n"
    using b unat_bounds(3) [of "it_dataEnd it"] by (intro unat_add_no_wrap) auto
  show "mem_slice bs (it_current it) n = Some xs \<and> it' = it_skip n it" if "it_current it + n \<le> it_zeroStart it"
  proof -
    have at: "it_at it (unat n) (unat (it_current it))"
      using that c b z by (simp add: it_at_def word_le_nat_alt)
    then show ?thesis using at_slice [OF at] mem_slice_at(1) [OF at, of bs] b that by simp
  qed
  assume e: "it_current it \<ge> it_zeroEnd it"
  have "unat (zero_len it) = unat (it_zeroEnd it) - unat (it_zeroStart it)"
    using z(1) by (rule unat_sub)
  then have at: "it_at it (unat n) (unat (it_current it) - (unat (it_zeroEnd it) - unat (it_zeroStart it)))"
    using e b z by (auto simp: it_at_def word_le_nat_alt)
  show "mem_slice bs (it_current it - zero_len it) n = Some xs \<and> it' = it_skip n it"
    using at_slice [OF at] mem_slice_at(2) [OF at, of bs] b e at by simp
qed

text \<open>
  \<open>ReadNtohU16\<close> and \<open>ReadNtohU32\<close>, which read the bytes straight from the storage when
  they lie before or behind the zero area, return what the bytewise \<open>SlowReadNtoh\<close> functions
  return wherever these succeed: before, inside, across and behind the zero area.
\<close>

lemma ReadNtoh_fast_is_slow:
  assumes "it_zeroStart it \<le> it_zeroEnd it" and "it_zeroEnd it \<le> it_dataEnd it"
  shows "(it_SlowReadNtohU16 bs it = Some v \<longrightarrow> it_ReadNtohU16 bs it = Some v) \<and>
    (it_SlowReadNtohU32 bs it = Some w \<longrightarrow> it_ReadNtohU32 bs it = Some w)"
proof -
  have "it_ReadNtohU16 bs it = Some v" if s: "it_SlowReadNtohU16 bs it = Some v"
  proof -
    from s obtain xs it' where r: "it_ReadBytes bs (unat (2 :: u32)) it = Some (xs, it')"
      and v: "v = (big_endian xs, it')" by (auto simp: it_SlowReadNtohU16_def bind_eq_Some_conv)
    show ?thesis using fast_slices [OF r _ assms] s v by (simp add: it_ReadNtohU16_def)
  qed
  moreover have "it_ReadNtohU32 bs it = Some w" if s: "it_SlowReadNtohU32 bs it = Some w"
  proof -
    from s obtain xs it' where r: "it_ReadBytes bs (unat (4 :: u32)) it = Some (xs, it')"
      and v: "w = (big_endian xs, it')" by (auto simp: it_SlowReadNtohU32_def bind_eq_Some_conv)
    show ?thesis using fast_slices [OF r _ assms] s v by (simp add: it_ReadNtohU32_def)
  qed
  ultimately show ?thesis by blast
qed

section \<open>Accesses the checks let pass\<close>


end
