(* ===== verification/Buffer_Checksum.thy ===== *)
theory Buffer_Checksum
  imports Buffer_Access
begin

text \<open>
  \<open>Buffer::Iterator::CalculateIpChecksum\<close>: its value as a function of the bytes, and that a
  header whose checksum field holds it sums to zero.
\<close>

section \<open>The IP checksum\<close>

text \<open>The sum of the 16-bit words of a byte string, an odd last byte counting as a low byte.\<close>

fun half_sum :: "u8 list \<Rightarrow> nat" where
  "half_sum [] = 0"
| "half_sum [x] = unat x"
| "half_sum (x # y # zs) = unat x + 256 * unat y + half_sum zs"

lemma byte_le: "unat (x :: u8) \<le> 255"
  using unat_bounds(1) [of x] by simp

lemma half_sum_le: "half_sum xs \<le> 65535 * ((length xs + 1) div 2)"
proof (induction xs rule: half_sum.induct)
  case (2 x) then show ?case using byte_le [of x] by simp
next
  case (3 x y zs)
  have "(length (x # y # zs) + 1) div 2 = (length zs + 1) div 2 + 1" by simp
  then show ?case using 3 byte_le [of x] byte_le [of y] by (simp add: distrib_left)
qed simp

lemma half_sum_append: "even (length xs) \<Longrightarrow> half_sum (xs @ ys) = half_sum xs + half_sum ys"
  by (induction xs rule: half_sum.induct) simp_all

lemma unat_word_le: "unat (little_endian [x, y] :: u16) = unat x + 256 * unat y"
proof -
  have "(little_endian [x, y] :: u16) = ucast x + push_bit 8 (ucast y)"
  proof -
    have "push_bit 8 (ucast y :: u16) AND ucast x = 0"
      by (rule bit_word_eqI) (auto simp: bit_simps dest: bit_imp_le_length)
    then have "push_bit 8 (ucast y :: u16) OR ucast x = push_bit 8 (ucast y) + ucast x"
      by (simp add: disjunctive_add_eq_or)
    then show ?thesis by (simp add: little_endian_def shift_in_def add.commute)
  qed
  moreover have "unat (push_bit 8 (ucast y :: u16)) = 256 * unat y"
    using byte_le [of y] by (simp add: push_bit_eq_mult unat_mult_no_wrap unat_ucast_up)
  ultimately show ?thesis
    using byte_le [of x] byte_le [of y] by (simp add: unat_add_no_wrap unat_ucast_up)
qed

lemma sum_words_at:
  "it_at it (2 * n) p \<Longrightarrow> p + 2 * n \<le> length bs \<Longrightarrow>
   sum_words bs n it acc =
     Some (acc + of_nat (half_sum (take (2 * n) (drop p bs))), it_skip (of_nat (2 * n)) it)"
proof (induction n arbitrary: it p acc)
  case (Suc n)
  have at: "it_at it 2 p" by (rule it_at_mono [OF Suc.prems(1)]) simp
  have "it_at it (2 + 2 * n) p" using Suc.prems(1) by simp
  from it_at_skip [OF this] have at': "it_at (it_skip 2 it) (2 * n) (p + 2)" by simp
  define x y where "x = bs ! p" and "y = bs ! Suc p"
  have d: "drop p bs = x # y # drop (p + 2) bs"
    using Suc.prems(2) by (simp add: x_def y_def Cons_nth_drop_Suc)
  have "it_ReadU16 bs it = Some (little_endian [x, y], it_skip 2 it)"
    unfolding read_U16 using ReadBytes_at [OF at, of bs] Suc.prems(2) d by (simp add: eval_nat_numeral)
  moreover have "(ucast (little_endian [x, y] :: u16) :: u32) = of_nat (unat x + 256 * unat y)"
    unfolding unat_word_le [symmetric]
    using unat_bounds(2) [of "little_endian [x, y]"]
    by (simp only: word_unat_eq_iff unat_ucast_up) (simp add: unsigned_of_nat take_bit_nat_eq_self unat_ucast_up)
  moreover have "half_sum (take (2 * Suc n) (drop p bs)) = unat x + 256 * unat y + half_sum (take (2 * n) (drop (p + 2) bs))"
    unfolding d by simp
  ultimately show ?case
    using Suc.IH [OF at', of "acc + of_nat (unat x + 256 * unat y)"] Suc.prems(2)
    by (simp add: algebra_simps)
qed simp

text \<open>The end-around carry is the remainder modulo \<open>2\<^sup>1\<^sup>6 - 1\<close>, with no zero but zero.\<close>

lemma unat_fold_carry: "unat (fold_carry x) = (if unat x = 0 then 0 else (unat x - 1) mod 65535 + 1)"
proof (induction x rule: fold_carry.induct)
  case (1 x)
  let ?y = "(x AND 0xffff) + drop_bit 16 x"
  define q r where "q = unat x div 65536" and "r = unat x mod 65536"
  have x: "unat x = 65536 * q + r" "r < 65536" by (simp_all add: q_def r_def)
  have d: "unat (drop_bit 16 x) = q" by (simp add: drop_bit_eq_div unat_div q_def)
  have "x AND 0xffff = take_bit 16 x" by (simp add: take_bit_eq_mask mask_eq_decr_exp)
  then have a: "unat (x AND 0xffff) = r" by (simp add: take_bit_eq_mod unat_mod r_def)
  have y: "unat ?y = r + q"
    using x unat_bounds(3) [of x] by (subst unat_add_no_wrap) (simp_all add: a d)
  show ?case
  proof (cases "drop_bit 16 x = 0")
    case True
    then have "q = 0" using d by simp
    with True x show ?thesis by (subst fold_carry.simps) simp
  next
    case False
    then have q: "q \<noteq> 0" using d by (metis unat_eq_zero)
    have "unat x - 1 = (r + q - 1) + 65535 * q" using x q by simp
    then have m: "(unat x - 1) mod 65535 = (r + q - 1) mod 65535" by (simp only: mod_mult_self2)
    have nz: "unat x \<noteq> 0" "unat ?y \<noteq> 0" using x y q by simp_all
    have "fold_carry x = fold_carry ?y" using False by (subst fold_carry.simps) simp
    then show ?thesis using 1 [OF False] y m nz by simp
  qed
qed

lemma CalculateIpChecksum_at:
  assumes at: "it_at it (unat n) p" and p: "p + unat n \<le> length bs"
  shows "it_CalculateIpChecksum bs n ini it =
    Some (ucast (NOT (fold_carry (ini + of_nat (half_sum (take (unat n) (drop p bs)))))),
      it_skip (of_nat (unat n)) it)"
proof -
  let ?k = "unat n div 2" and ?xs = "take (unat n) (drop p bs)"
  have at2: "it_at it (2 * ?k + unat n mod 2) p" using at by simp
  have s: "sum_words bs ?k it ini =
      Some (ini + of_nat (half_sum (take (2 * ?k) (drop p bs))), it_skip (of_nat (2 * ?k)) it)"
    by (rule sum_words_at) (use p in \<open>auto intro: it_at_mono [OF at]\<close>)
  show ?thesis
  proof (cases "odd (unat n)")
    case False
    then have "2 * ?k = unat n" by simp
    with False s show ?thesis by (simp add: it_CalculateIpChecksum_def)
  next
    case True
    then have n: "unat n = 2 * ?k + 1" by simp
    have at1: "it_at (it_skip (of_nat (2 * ?k)) it) (Suc 0) (p + 2 * ?k)"
      using it_at_skip [OF at2] True by (simp add: odd_iff_mod_2_eq_one)
    have r: "it_ReadU8 bs (it_skip (of_nat (2 * ?k)) it) =
        Some (bs ! (p + 2 * ?k), it_skip 1 (it_skip (of_nat (2 * ?k)) it))"
      using PeekU8_at [OF at1, of bs] p n by (simp add: it_ReadU8_def)
    have "take (2 * ?k + 1) (drop p bs) = take (2 * ?k) (drop p bs) @ [bs ! (p + 2 * ?k)]"
      using p n by (subst take_Suc_conv_app_nth [of "2 * ?k", simplified Suc_eq_plus1]) simp_all
    then have xs: "?xs = take (2 * ?k) (drop p bs) @ [bs ! (p + 2 * ?k)]" using n by simp
    have "even (length (take (2 * ?k) (drop p bs)))" using p n by simp
    then have "half_sum ?xs = half_sum (take (2 * ?k) (drop p bs)) + unat (bs ! (p + 2 * ?k))"
      unfolding xs by (subst half_sum_append) simp_all
    moreover have "of_nat (unat n) = (1 + of_nat (2 * ?k) :: u32)" using n by (metis add.commute of_nat_1 of_nat_add)
    ultimately show ?thesis
      using True s r by (simp add: it_CalculateIpChecksum_def algebra_simps)
  qed
qed

lemma unat_not_half:
  assumes "unat f \<le> 65535"
  shows "unat (ucast (NOT (f :: u32)) :: u16) = 65535 - unat f"
proof -
  have "NOT f = - 1 - f" by (simp add: not_eq_complement)
  moreover have "unat (- 1 - f) = unat (- 1 :: u32) - unat f" by (rule unat_sub) simp
  moreover have "unat (- 1 :: u32) = 4294967295" by (simp add: unsigned_minus_1_eq_mask mask_eq_exp_minus_1)
  ultimately have "unat (NOT f) = 4294967295 - unat f" by simp
  then have "unat (ucast (NOT f) :: u16) = (4294967295 - unat f) mod 65536" by (simp add: unat_ucast_mod)
  also have "4294967295 - unat f = (65535 - unat f) + 65535 * 65536" using assms by simp
  also have "\<dots> mod 65536 = (65535 - unat f) mod 65536" by (rule mod_mult_self1)
  finally show ?thesis by simp
qed

lemma fold_carry_le: "unat (fold_carry x) \<le> 65535"
  unfolding unat_fold_carry using mod_less_divisor [of 65535 "unat x - 1"] by (simp add: Suc_le_eq)

lemma put_slice:
  assumes "j + length xs \<le> n" and "p + n \<le> length bs"
  shows "take n (drop p (put bs (p + j) xs)) = put (take n (drop p bs)) j xs"
proof -
  define A D B where "A = take p bs" and "D = take n (drop p bs)" and "B = drop (p + n) bs"
  have bs: "bs = A @ D @ B" by (simp add: A_def D_def B_def add.commute flip: drop_drop)
  have l: "length A = p" "length D = n" using assms(2) by (simp_all add: A_def D_def)
  have "put (A @ D @ B) (p + j) xs = A @ put D j xs @ B"
    using l assms(1) by (simp add: put_def)
  then show ?thesis using l assms(1) by (simp add: bs)
qed

lemma half_sum_put:
  assumes j: "even j" "j + 2 \<le> length ds" and z: "ds ! j = 0" "ds ! (j + 1) = 0"
  shows "half_sum (put ds j [x, y]) = half_sum ds + unat x + 256 * unat y"
proof -
  have d: "put ds j [u, v] = take j ds @ (u # v # drop (j + 2) ds)" for u v by (simp add: put_def)
  have "put ds j [0, 0] = ds"
    unfolding d using j(2) z by (metis (no_types) One_nat_def add.right_neutral add_2_eq_Suc' add_Suc_right
        append_take_drop_id Cons_nth_drop_Suc Suc_le_eq less_SucI not_less_eq_eq)
  then have "half_sum ds = half_sum (take j ds @ (0 # 0 # drop (j + 2) ds))" unfolding d by simp
  moreover have "even (length (take j ds))" using j by simp
  ultimately show ?thesis unfolding d by (simp add: half_sum_append)
qed

text \<open>
  C12: A checksum computed by \<open>CalculateIpChecksum\<close> over a range whose checksum field is zero,
  written to the field with \<open>WriteU16\<close>, makes the checksum of the range zero, which is how a
  receiver recognises an intact header; for ranges of any length, the field at any even
  offset, and any initial sum a pseudo header can contribute.
\<close>

theorem ip_checksum_verifies:
  assumes at: "it_at it (unat n) p" and p: "p + unat n \<le> length bs"
    and j: "even (unat j)" "unat j + 2 \<le> unat n"
    and zero: "bs ! (p + unat j) = 0" "bs ! (p + unat j + 1) = 0"
    and ini: "unat ini \<le> 2 ^ 31"
  shows "\<exists>c it1 bs' it2. it_CalculateIpChecksum bs n ini it = Some (c, it1) \<and>
    it_WriteU16 c (bs, it_skip j it) = Some (bs', it2) \<and>
    it_CalculateIpChecksum bs' n ini it = Some (0, it1)"
proof -
  define ds where "ds = take (unat n) (drop p bs)"
  define S where "S = unat ini + half_sum ds"
  define f where "f = fold_carry (ini + of_nat (half_sum ds))"
  define c :: u16 where "c = ucast (NOT f)"
  have len: "length ds = unat n" using p by (simp add: ds_def)
  have small: "half_sum xs \<le> 2147450880" if "length xs = unat n" for xs
    using half_sum_le [of xs] unat_bounds(2) [of n] that by simp
  have S: "unat (ini + of_nat (half_sum xs)) = unat ini + half_sum xs" if "length xs = unat n" for xs
    using small [OF that] ini
    by (subst unat_add_no_wrap) (simp_all add: unsigned_of_nat take_bit_nat_eq_self)
  have f: "unat f = (if S = 0 then 0 else (S - 1) mod 65535 + 1)"
    unfolding f_def unat_fold_carry S [OF len] S_def ..
  have f_le: "unat f \<le> 65535" unfolding f_def by (rule fold_carry_le)
  have c: "unat c = 65535 - unat f" unfolding c_def by (rule unat_not_half [OF f_le])
  have c1: "it_CalculateIpChecksum bs n ini it = Some (c, it_skip (of_nat (unat n)) it)"
    unfolding CalculateIpChecksum_at [OF at p] ds_def [symmetric] f_def [symmetric] c_def ..
  have "it_at it (unat j + 2) p" by (rule it_at_mono [OF at j(2)])
  from it_at_skip [OF this] have atj: "it_at (it_skip j it) (unat (2 :: u32)) (p + unat j)" by simp
  define bs' where "bs' = put bs (p + unat j) (bytes_le 2 c)"
  have w: "it_WriteU16 c (bs, it_skip j it) = Some (bs', it_skip 2 (it_skip j it))"
    unfolding write_bytes_le bs'_def by (rule WriteBytes_le [OF atj]) (use j p in simp_all)
  obtain x y where xy: "bytes_le 2 c = [x, y]" by (simp add: bytes_le_eqs)
  have cw: "unat c = unat x + 256 * unat y"
    using unat_word_le [of x y] endian_bytes(1) [of c] xy by simp
  have len': "length bs' = length bs" using j p by (simp add: bs'_def)
  have "take (unat n) (drop p bs') = put ds (unat j) [x, y]"
    unfolding bs'_def ds_def xy by (rule put_slice) (use j p in simp_all)
  moreover have "ds ! unat j = 0" "ds ! (unat j + 1) = 0" using j p zero by (simp_all add: ds_def add.assoc)
  ultimately have h: "half_sum (take (unat n) (drop p bs')) = half_sum ds + unat c"
    using half_sum_put [of "unat j" ds x y] j len cw by simp
  have l: "length (take (unat n) (drop p bs')) = unat n" using p len' by simp
  have "(S + unat c - 1) mod 65535 = 65534"
  proof (cases "S = 0")
    case True
    then show ?thesis using c f by simp
  next
    case False
    define q r where "q = (S - 1) div 65535" and "r = (S - 1) mod 65535"
    have "S = 65535 * q + r + 1" "r < 65535" using False by (simp_all add: q_def r_def)
    moreover have "unat c = 65534 - r" using False c f by (simp add: r_def)
    ultimately have "S + unat c - 1 = 65534 + q * 65535" by simp
    then show ?thesis by (simp only: mod_mult_self1) simp
  qed
  moreover have "S + unat c \<noteq> 0" using c f by auto
  moreover have s': "unat (ini + of_nat (half_sum (take (unat n) (drop p bs')))) = S + unat c"
    unfolding S [OF l] unfolding h S_def by simp
  ultimately have "unat (fold_carry (ini + of_nat (half_sum (take (unat n) (drop p bs'))))) = 65535"
    unfolding unat_fold_carry s' by simp
  then have "unat (ucast (NOT (fold_carry (ini + of_nat (half_sum (take (unat n) (drop p bs')))))) :: u16) = 0"
    by (subst unat_not_half) simp_all
  then have "it_CalculateIpChecksum bs' n ini it = Some (0, it_skip (of_nat (unat n)) it)"
    unfolding CalculateIpChecksum_at [OF at, of bs', unfolded len', OF p] by (simp add: unat_eq_0)
  with c1 w show ?thesis by blast
qed

text \<open>The IPv4 header of RFC 1071's usual example; the field is at offset 10.\<close>

definition ipv4_header :: "u8 list" where
  "ipv4_header = [0x45, 0x00, 0x00, 0x73, 0x00, 0x00, 0x40, 0x00, 0x40, 0x11, 0x00, 0x00,
     0xc0, 0xa8, 0x00, 0x01, 0xc0, 0xa8, 0x00, 0xc7]"

definition header_iterator :: iterator where
  "header_iterator = \<lparr>it_zeroStart = 20, it_zeroEnd = 1020, it_dataStart = 0, it_dataEnd = 1020,
     it_current = 0, it_data = 0\<rparr>"

theorem ip_checksum_verifies_witness:
  "\<exists>c it1 bs' it2. it_CalculateIpChecksum ipv4_header 20 0 header_iterator = Some (c, it1) \<and>
    it_WriteU16 c (ipv4_header, it_skip 10 header_iterator) = Some (bs', it2) \<and>
    it_CalculateIpChecksum bs' 20 0 header_iterator = Some (0, it1)"
proof -
  have "it_at header_iterator (unat (20 :: u16)) 0" by (simp add: it_at_def header_iterator_def)
  moreover have "0 + unat (20 :: u16) \<le> length ipv4_header" by (simp add: ipv4_header_def)
  moreover have "even (unat (10 :: u32))" "unat (10 :: u32) + 2 \<le> unat (20 :: u16)" by simp_all
  moreover have "ipv4_header ! (0 + unat (10 :: u32)) = 0" "ipv4_header ! (0 + unat (10 :: u32) + 1) = 0"
    by (simp_all add: ipv4_header_def)
  moreover have "unat (0 :: u32) \<le> 2 ^ 31" by simp
  ultimately show ?thesis by (rule ip_checksum_verifies)
qed

text \<open>The checksum of the example is \<open>b861\<close> on the wire.\<close>

lemma ipv4_header_checksum:
  "map_option fst (it_CalculateIpChecksum ipv4_header 20 0 header_iterator) = Some 0x61b8"
  by code_simp

end
