(* ===== verification/Buffer_Store.thy ===== *)
theory Buffer_Store
  imports Buffer_View "HOL-Library.Multiset"
begin

text \<open>
  The invariant of the shared storage, and that the operations of the store (creation, reference
  counts, recycling, moving) keep it.
\<close>

section \<open>The invariant\<close>

text \<open>
  \<open>store_ok st M X\<close>: \<open>M\<close> are the live buffers, \<open>X\<close> further references held by an
  operation in progress. Each \<open>Data\<close> counts its references; its dirty area includes all its
  views. Offsets behind the zero area are virtual, so that the area's end is compared by
  \<open>m_end\<close> while the storage ends at \<open>phys_end\<close>: the views that reach the dirty end
  end at the same place of the storage, and no view ends behind it.
\<close>

definition view_ok :: "buf_data \<Rightarrow> buffer \<Rightarrow> bool" where
  "view_ok d b \<longleftrightarrow> b_ok b \<and> phys_end b \<le> unat (d_size d) \<and> d_dirtyStart d \<le> b_start b \<and>
     b_end b \<le> d_dirtyEnd d"

definition dirty_end_ok :: "buf_data \<Rightarrow> buffer set \<Rightarrow> bool" where
  "dirty_end_ok d B \<longleftrightarrow>
     (\<exists>P. \<forall>b\<in>B. phys_end b \<le> P \<and> (b_end b = d_dirtyEnd d \<longrightarrow> phys_end b = P))"

definition views :: "buffer multiset \<Rightarrow> data_ref \<Rightarrow> buffer set" where
  "views M r = {b. b \<in># M \<and> b_data b = r}"

abbreviation holders :: "buffer multiset \<Rightarrow> data_ref multiset \<Rightarrow> data_ref multiset" where
  "holders M X \<equiv> image_mset b_data M + X"

definition data_ok :: "store \<Rightarrow> buffer multiset \<Rightarrow> data_ref multiset \<Rightarrow> data_ref \<Rightarrow> buf_data \<Rightarrow> bool" where
  "data_ok st M X r d \<longleftrightarrow> length (d_bytes d) = unat (d_size d) \<and> unat (d_size d) \<le> 2 ^ 30 + 101 \<and>
     unat (d_count d) = count (holders M X) r \<and> r < st_next st \<and> dirty_end_ok d (views M r)"

definition free_ok :: "store \<Rightarrow> bool" where
  "free_ok st \<longleftrightarrow>
     (case st_free st of
        Uninitialized \<Rightarrow> (\<forall>r. st_data st r = None)
      | Destroyed \<Rightarrow> True
      | Initialized fs \<Rightarrow> distinct fs \<and> (\<forall>r\<in>set fs. \<exists>d. st_data st r = Some d \<and> d_count d = 0))"

definition store_ok :: "store \<Rightarrow> buffer multiset \<Rightarrow> data_ref multiset \<Rightarrow> bool" where
  "store_ok st M X \<longleftrightarrow>
     (\<forall>b\<in>#M. \<exists>d. st_data st (b_data b) = Some d \<and> view_ok d b) \<and>
     (\<forall>r\<in>#X. st_data st r \<noteq> None) \<and>
     (\<forall>r d. st_data st r = Some d \<longrightarrow> data_ok st M X r d) \<and> free_ok st"

definition contents :: "store \<Rightarrow> buffer \<Rightarrow> u8 list" where
  "contents st b = (case st_data st (b_data b) of None \<Rightarrow> [] | Some d \<Rightarrow> b_bytes (d_bytes d) b)"

text \<open>The storage of \<open>Q\<close> is as before, up to reference counts.\<close>

definition same_storage :: "store \<Rightarrow> store \<Rightarrow> data_ref set \<Rightarrow> bool" where
  "same_storage st st' Q \<longleftrightarrow>
     (\<forall>q\<in>Q. \<exists>d c. st_data st q = Some d \<and> st_data st' q = Some (d\<lparr>d_count := c\<rparr>))"

lemma store_ok_cong:
  "st_data st' = st_data st \<Longrightarrow> st_next st' = st_next st \<Longrightarrow> st_free st' = st_free st \<Longrightarrow>
   store_ok st' M X = store_ok st M X"
  by (simp add: store_ok_def data_ok_def free_ok_def cong del: free_list.case_cong_weak)

lemma store_okD:
  assumes "store_ok st M X"
  shows "b \<in># M \<Longrightarrow> \<exists>d. st_data st (b_data b) = Some d \<and> view_ok d b"
    "st_data st r = Some d \<Longrightarrow> data_ok st M X r d" "free_ok st"
    "r \<in># holders M X \<Longrightarrow> \<exists>d. st_data st r = Some d \<and> data_ok st M X r d \<and> d_count d \<noteq> 0"
proof -
  have bufs: "b \<in># M \<Longrightarrow> \<exists>d. st_data st (b_data b) = Some d \<and> view_ok d b" for b
    using assms by (simp add: store_ok_def)
  then show "b \<in># M \<Longrightarrow> \<exists>d. st_data st (b_data b) = Some d \<and> view_ok d b" .
  show d: "st_data st r = Some d \<Longrightarrow> data_ok st M X r d" for r d
    using assms by (simp add: store_ok_def)
  show "free_ok st" using assms by (simp add: store_ok_def)
  assume r: "r \<in># holders M X"
  then have "st_data st r \<noteq> None"
    using assms bufs by (fastforce simp: store_ok_def)
  then obtain x where x: "st_data st r = Some x" by auto
  then have "data_ok st M X r x" by (rule d)
  moreover have "count (holders M X) r \<noteq> 0" using r by (simp only: not_in_iff [symmetric] simp_thms)
  with calculation have "d_count x \<noteq> 0" by (metis data_ok_def unat_0)
  ultimately show "\<exists>d. st_data st r = Some d \<and> data_ok st M X r d \<and> d_count d \<noteq> 0" using x by blast
qed

lemma same_storage_refl: "\<forall>q\<in>Q. st_data st q \<noteq> None \<Longrightarrow> same_storage st st Q"
  unfolding same_storage_def
proof
  fix q assume "\<forall>q\<in>Q. st_data st q \<noteq> None" "q \<in> Q"
  then obtain d where "st_data st q = Some d" by blast
  then show "\<exists>d c. st_data st q = Some d \<and> st_data st q = Some (d\<lparr>d_count := c\<rparr>)"
    by (intro exI [of _ d] exI [of _ "d_count d"]) simp
qed

lemma same_storage_trans:
  "same_storage st1 st2 Q \<Longrightarrow> same_storage st2 st3 Q \<Longrightarrow> same_storage st1 st3 Q"
  unfolding same_storage_def
proof
  fix q
  assume a: "\<forall>q\<in>Q. \<exists>d c. st_data st1 q = Some d \<and> st_data st2 q = Some (d\<lparr>d_count := c\<rparr>)"
    "\<forall>q\<in>Q. \<exists>d c. st_data st2 q = Some d \<and> st_data st3 q = Some (d\<lparr>d_count := c\<rparr>)" "q \<in> Q"
  then obtain d c c' where "st_data st1 q = Some d" "st_data st2 q = Some (d\<lparr>d_count := c\<rparr>)"
    "st_data st3 q = Some (d\<lparr>d_count := c, d_count := c'\<rparr>)" by fastforce
  then show "\<exists>d c. st_data st1 q = Some d \<and> st_data st3 q = Some (d\<lparr>d_count := c\<rparr>)" by auto
qed

lemma same_storage_mono: "same_storage st st' Q \<Longrightarrow> R \<subseteq> Q \<Longrightarrow> same_storage st st' R"
  by (auto simp: same_storage_def)

lemma same_storage_contents:
  "same_storage st st' Q \<Longrightarrow> b_data b \<in> Q \<Longrightarrow> contents st' b = contents st b"
  by (fastforce simp: same_storage_def contents_def)

section \<open>Allocation\<close>

text \<open>What the operations of the store promise: the holders' storage is kept.\<close>

lemma Allocate_ok:
  assumes ok: "store_ok st M X" and init: "st_free st \<noteq> Uninitialized" and n: "unat n \<le> 2 ^ 30"
    and al: "st_Allocate n st = (r, st')"
  shows "store_ok st' M (add_mset r X) \<and> r \<notin># holders M X \<and> same_storage st st' (set_mset (holders M X)) \<and>
    (\<exists>d. st_data st' r = Some d \<and> unat n \<le> unat (d_size d))"
proof -
  let ?n = "(if n = 0 then 1 else n) + 100"
  let ?d = "\<lparr>d_count = 1, d_size = ?n, d_dirtyStart = 0, d_dirtyEnd = 0,
    d_bytes = map (st_junk st r) [0..<unat ?n]\<rparr>"
  have r: "r = st_next st" and st': "st' = (set_data r ?d st)\<lparr>st_next := r + 1\<rparr>"
    using al by (auto simp: st_Allocate_def Let_def)
  have none: "st_data st r = None"
    using store_okD(2) [OF ok, of r] by (cases "st_data st r") (auto simp: r data_ok_def)
  then have fresh: "r \<notin># holders M X" using store_okD(4) [OF ok] by fastforce
  have sz: "unat n \<le> unat ?n" "unat ?n \<le> 2 ^ 30 + 101"
    using n by (cases "n = 0"; simp add: unat_add_no_wrap)+
  have "views M r = {}" using fresh by (auto simp: views_def)
  moreover have "count (holders M X) r = 0" using fresh by (simp only: not_in_iff)
  ultimately have dr: "data_ok st' M (add_mset r X) r ?d"
    using sz(2) by (simp add: data_ok_def st' dirty_end_ok_def)
  have other: "data_ok st' M (add_mset r X) q d" if "st_data st q = Some d" "q \<noteq> r" for q d
    using store_okD(2) [OF ok that(1)] that(2) by (simp add: data_ok_def st' r)
  have "free_ok st'"
    using store_okD(3) [OF ok] init none by (auto simp: free_ok_def st' split: free_list.splits)
  moreover have "\<forall>b\<in>#M. \<exists>d. st_data st' (b_data b) = Some d \<and> view_ok d b"
    using store_okD(1) [OF ok] none by (fastforce simp: st')
  moreover have "\<forall>q\<in>#add_mset r X. st_data st' q \<noteq> None"
    using ok by (auto simp: store_ok_def st')
  ultimately have "store_ok st' M (add_mset r X)"
    unfolding store_ok_def using dr other by (auto simp: st')
  moreover have "same_storage st st' (set_mset (holders M X))"
    unfolding same_storage_def
  proof
    fix q assume q: "q \<in># holders M X"
    then obtain d where "st_data st q = Some d" using store_okD(4) [OF ok] by blast
    moreover have "q \<noteq> r" using q fresh by auto
    ultimately show "\<exists>d c. st_data st q = Some d \<and> st_data st' q = Some (d\<lparr>d_count := c\<rparr>)"
      by (intro exI [of _ d] exI [of _ "d_count d"]) (simp add: st')
  qed
  ultimately show ?thesis using fresh sz by (simp add: st')
qed

text \<open>Changing what a reference nobody holds stands for.\<close>

lemma store_ok_update:
  assumes ok: "store_ok st M X" and r: "r \<notin># holders M X"
    and st': "st' = st\<lparr>st_data := (st_data st)(r := x), st_free := f\<rparr>"
    and X': "X' = X \<or> (X' = add_mset r X \<and> x \<noteq> None)"
    and d: "\<And>d. x = Some d \<Longrightarrow> data_ok st' M X' r d" and free: "free_ok st'"
  shows "store_ok st' M X' \<and> same_storage st st' (set_mset (holders M X))"
proof
  have other: "data_ok st' M X' q d" if "st_data st q = Some d" "q \<noteq> r" for q d
    using store_okD(2) [OF ok that(1)] that(2) X' by (auto simp: data_ok_def st')
  have "\<forall>b\<in>#M. \<exists>d. st_data st' (b_data b) = Some d \<and> view_ok d b"
    using store_okD(1) [OF ok] r by (fastforce simp: st')
  moreover have "\<forall>q\<in>#X'. st_data st' q \<noteq> None"
    using ok X' r by (auto simp: store_ok_def st')
  ultimately show "store_ok st' M X'"
    unfolding store_ok_def using d other free by (auto simp: st')
  show "same_storage st st' (set_mset (holders M X))"
    unfolding same_storage_def
  proof
    fix q assume q: "q \<in># holders M X"
    then obtain d where "st_data st q = Some d" using store_okD(4) [OF ok] by blast
    moreover have "q \<noteq> r" using q r by auto
    ultimately show "\<exists>d c. st_data st q = Some d \<and> st_data st' q = Some (d\<lparr>d_count := c\<rparr>)"
      by (intro exI [of _ d] exI [of _ "d_count d"]) (simp add: st')
  qed
qed

lemma unheld:
  assumes "store_ok st M X" and "st_data st r = Some d" and "d_count d = 0"
  shows "r \<notin># holders M X"
  using store_okD(4) [OF assms(1)] assms(2,3) by fastforce

lemma views_unheld: "r \<notin># holders M X \<Longrightarrow> views M r = {}"
  by (auto simp: views_def)

lemma count_unheld: "r \<notin># holders M X \<Longrightarrow> count (holders M X) r = 0"
  by (simp only: not_in_iff)

definition got :: "store \<Rightarrow> u32 \<Rightarrow> buffer multiset \<Rightarrow> data_ref multiset \<Rightarrow> data_ref \<Rightarrow> store \<Rightarrow> bool" where
  "got st n M X r st' \<longleftrightarrow> store_ok st' M (add_mset r X) \<and> r \<notin># holders M X \<and>
     same_storage st st' (set_mset (holders M X)) \<and>
     (\<exists>d. st_data st' r = Some d \<and> unat n \<le> unat (d_size d))"

lemma take_free_ok:
  assumes "store_ok (st\<lparr>st_free := Initialized (rev fs)\<rparr>) M X"
  shows "\<exists>found st'. take_free n fs st = Some (found, st') \<and>
    (case found of
       None \<Rightarrow> store_ok st' M X \<and> st_free st' = Initialized [] \<and>
         same_storage st st' (set_mset (holders M X))
     | Some r \<Rightarrow> got st n M X r st')"
  using assms
proof (induction fs arbitrary: st)
  case Nil
  let ?st = "st\<lparr>st_free := Initialized []\<rparr>"
  have ok: "store_ok ?st M X" using Nil by simp
  have "\<forall>q\<in>#holders M X. st_data ?st q \<noteq> None" using store_okD(4) [OF ok] by blast
  then have "same_storage ?st ?st (set_mset (holders M X))" by (rule same_storage_refl)
  then have "same_storage st ?st (set_mset (holders M X))" by (simp add: same_storage_def)
  then show ?case using ok by simp
next
  case (Cons r fs)
  let ?st = "st\<lparr>st_free := Initialized (rev (r # fs))\<rparr>"
  from store_okD(3) [OF Cons.prems] obtain d where d: "st_data st r = Some d" "d_count d = 0"
    and dist: "r \<notin> set fs" "distinct fs" and free: "\<forall>q\<in>set fs. \<exists>d. st_data st q = Some d \<and> d_count d = 0"
    by (auto simp: free_ok_def)
  have r: "r \<notin># holders M X" by (rule unheld [OF Cons.prems]) (use d in simp_all)
  have same: "same_storage st st' Q = same_storage ?st st' Q" for st' Q by (simp add: same_storage_def)
  have len: "length (d_bytes d) = unat (d_size d)" "r < st_next st" "unat (d_size d) \<le> 2 ^ 30 + 101"
    using store_okD(2) [OF Cons.prems, of r d] d by (simp_all add: data_ok_def)
  show ?case
  proof (cases "d_size d \<ge> n")
    case True
    let ?st' = "set_data r (d\<lparr>d_count := 1\<rparr>) (st\<lparr>st_free := Initialized (rev fs)\<rparr>)"
    have "data_ok ?st' M (add_mset r X) r (d\<lparr>d_count := 1\<rparr>)"
      using len views_unheld [OF r] count_unheld [OF r] by (simp add: data_ok_def dirty_end_ok_def)
    moreover have "free_ok ?st'" using dist free by (auto simp: free_ok_def)
    ultimately have "store_ok ?st' M (add_mset r X) \<and> same_storage ?st ?st' (set_mset (holders M X))"
      by (intro store_ok_update [OF Cons.prems r, where x = "Some (d\<lparr>d_count := 1\<rparr>)"
            and f = "Initialized (rev fs)"]) auto
    with True d r show ?thesis
      by (simp add: got_def same word_le_nat_alt)
  next
    case False
    let ?st' = "st\<lparr>st_data := (st_data st)(r := None)\<rparr>"
    let ?s = "?st'\<lparr>st_free := Initialized (rev fs)\<rparr>"
    have "free_ok ?s" using dist free by (auto simp: free_ok_def)
    then have s: "store_ok ?s M X \<and> same_storage ?st ?s (set_mset (holders M X))"
      by (intro store_ok_update [OF Cons.prems r, where x = None and f = "Initialized (rev fs)"]) auto
    have step: "same_storage st st' (set_mset (holders M X))"
      if "same_storage ?st' st' (set_mset (holders M X))" for st'
    proof (rule same_storage_trans [OF _ that])
      show "same_storage st ?st' (set_mset (holders M X))"
        using conjunct2 [OF s] by (simp add: same_storage_def)
    qed
    from Cons.IH [OF conjunct1 [OF s]] obtain found st' where
      "take_free n fs ?st' = Some (found, st')"
      "case found of None \<Rightarrow> store_ok st' M X \<and> st_free st' = Initialized [] \<and>
           same_storage ?st' st' (set_mset (holders M X))
         | Some r \<Rightarrow> got ?st' n M X r st'" by blast
    with False d step show ?thesis
      by (auto simp: st_Deallocate_def got_def split: option.splits)
  qed
qed

lemma Create_ok:
  assumes ok: "store_ok st M X" and n: "unat n \<le> 2 ^ 30"
  shows "\<exists>r st'. st_Create n st = Some (r, st') \<and> got st n M X r st' \<and> st_free st' \<noteq> Uninitialized"
proof -
  have al: "got st n M X r st' \<and> st_free st' \<noteq> Uninitialized"
    if "store_ok s M X" "st_free s \<noteq> Uninitialized" "same_storage st s (set_mset (holders M X))"
      "st_Allocate n s = (r, st')" for s r st'
    using Allocate_ok [OF that(1,2) n that(4)] same_storage_trans [OF that(3)] that(2,4)
    by (auto simp: got_def st_Allocate_def Let_def)
  have refl: "same_storage st st (set_mset (holders M X))"
    using store_okD(4) [OF ok] by (intro same_storage_refl) blast
  show ?thesis
  proof (cases "st_free st")
    case Uninitialized
    let ?s = "st\<lparr>st_free := Initialized []\<rparr>"
    have "store_ok ?s M X"
      using ok by (simp add: store_ok_def data_ok_def free_ok_def)
    moreover have "same_storage st ?s (set_mset (holders M X))" using refl by (simp add: same_storage_def)
    ultimately show ?thesis
      using al [of ?s] Uninitialized by (cases "st_Allocate n ?s") (auto simp: st_Create_def)
  next
    case Destroyed
    then show ?thesis
      using al [OF ok _ refl] by (cases "st_Allocate n st") (auto simp: st_Create_def)
  next
    case (Initialized fs)
    then have "st\<lparr>st_free := Initialized (rev (rev fs))\<rparr> = st" by (cases st) simp
    then have "store_ok (st\<lparr>st_free := Initialized (rev (rev fs))\<rparr>) M X" using ok by simp
    from take_free_ok [OF this, of n] obtain found st' where
      t: "take_free n (rev fs) st = Some (found, st')"
      "case found of None \<Rightarrow> store_ok st' M X \<and> st_free st' = Initialized [] \<and>
           same_storage st st' (set_mset (holders M X))
         | Some r \<Rightarrow> got st n M X r st'" by blast
    show ?thesis
    proof (cases found)
      case None
      with t al [of st'] Initialized show ?thesis
        by (cases "st_Allocate n st'") (auto simp: st_Create_def)
    next
      case (Some r)
      with t(2) have g: "got st n M X r st'" by simp
      then have "\<exists>d. st_data st' r = Some d" by (auto simp: got_def)
      moreover have "free_ok st'" using g store_okD(3) by (auto simp: got_def)
      ultimately have "st_free st' \<noteq> Uninitialized" by (auto simp: free_ok_def)
      with g t(1) Some Initialized show ?thesis by (auto simp: st_Create_def)
    qed
  qed
qed

section \<open>Reference counts\<close>

lemma store_ok_set_count:
  assumes ok: "store_ok st M X" and d: "st_data st r = Some d" and c: "unat c = count (holders M X') r"
    and X': "\<And>q. q \<noteq> r \<Longrightarrow> count X' q = count X q" and nz: "d_count d \<noteq> 0"
  shows "store_ok (set_data r (d\<lparr>d_count := c\<rparr>) st) M X' \<and>
    same_storage st (set_data r (d\<lparr>d_count := c\<rparr>) st) (set_mset (holders M X))"
proof
  let ?st = "set_data r (d\<lparr>d_count := c\<rparr>) st"
  have "data_ok ?st M X' q x" if q: "st_data ?st q = Some x" for q x
  proof (cases "q = r")
    case True
    with q store_okD(2) [OF ok d] c show ?thesis by (auto simp: data_ok_def dirty_end_ok_def)
  next
    case False
    with q store_okD(2) [OF ok, of q x] X' [OF False] show ?thesis by (simp add: data_ok_def)
  qed
  moreover have "\<forall>b\<in>#M. \<exists>x. st_data ?st (b_data b) = Some x \<and> view_ok x b"
    using store_okD(1) [OF ok] d by (fastforce simp: view_ok_def)
  moreover have "st_data ?st q \<noteq> None" if q: "q \<in># X'" for q
  proof (cases "q = r")
    case False
    then have "q \<in># X" using q X' [OF False] by (metis count_eq_zero_iff)
    then show ?thesis using ok False by (simp add: store_ok_def)
  qed simp
  moreover have "free_ok ?st"
    using store_okD(3) [OF ok] d nz by (fastforce simp: free_ok_def split: free_list.splits)
  ultimately show "store_ok ?st M X'" unfolding store_ok_def by blast
  show "same_storage st ?st (set_mset (holders M X))"
    unfolding same_storage_def
  proof
    fix q assume "q \<in># holders M X"
    then obtain x where "st_data st q = Some x" using store_okD(4) [OF ok] by blast
    then show "\<exists>x c'. st_data st q = Some x \<and> st_data ?st q = Some (x\<lparr>d_count := c'\<rparr>)"
      using d by (cases "q = r") (auto intro: exI [of _ "d_count x"])
  qed
qed

lemma release_ok:
  assumes ok: "store_ok st M (add_mset r X)"
  shows "\<exists>st'. st_release r st = Some st' \<and> store_ok st' M X \<and>
    same_storage st st' (set_mset (holders M X))"
proof -
  obtain d where d: "st_data st r = Some d" "d_count d \<noteq> 0"
    "unat (d_count d) = count (holders M (add_mset r X)) r" "length (d_bytes d) = unat (d_size d)"
    using store_okD(4) [OF ok, of r] by (auto simp: data_ok_def)
  let ?d = "d\<lparr>d_count := d_count d - 1\<rparr>"
  let ?st = "set_data r ?d st"
  have "unat (d_count d - 1) = count (holders M X) r"
    using d(2,3) by (simp add: unat_minus_one)
  then have "store_ok ?st M X \<and> same_storage st ?st (set_mset (holders M (add_mset r X)))"
    by (intro store_ok_set_count [OF ok d(1)]) (use d(2) in simp_all)
  then have s: "store_ok ?st M X" "same_storage st ?st (set_mset (holders M X))"
    by (auto elim: same_storage_mono)
  show ?thesis
  proof (cases "d_count d - 1 = 0")
    case False
    with s d(1) show ?thesis by (simp add: st_release_def Let_def)
  next
    case True
    then have r: "r \<notin># holders M X" by (intro unheld [OF s(1), of _ ?d]) simp_all
    let ?m = "max (st_maxSize st) (d_size d)"
    have fin: "st_Recycle r ?st = Some st' \<Longrightarrow> store_ok st' M X \<and>
        same_storage ?st st' (set_mset (holders M X)) \<Longrightarrow> ?thesis" for st'
      using True d(1) same_storage_trans [OF s(2)] by (auto simp: st_release_def Let_def)
    have ni: "st_free st \<noteq> Uninitialized"
      using store_okD(3) [OF ok] d(1) by (auto simp: free_ok_def)
    have upd: "store_ok (?st\<lparr>st_data := (st_data ?st)(r := x), st_free := f, st_maxSize := ?m\<rparr>) M X \<and>
        same_storage ?st (?st\<lparr>st_data := (st_data ?st)(r := x), st_free := f, st_maxSize := ?m\<rparr>)
          (set_mset (holders M X))"
      if "x = None \<or> x = Some ?d" "free_ok (?st\<lparr>st_data := (st_data ?st)(r := x), st_free := f\<rparr>)" for x f
    proof -
      let ?s = "?st\<lparr>st_data := (st_data ?st)(r := x), st_free := f\<rparr>"
      have "data_ok ?st M X r ?d" by (rule store_okD(2) [OF s(1)]) simp
      then have "x = Some e \<Longrightarrow> data_ok ?s M X r e" for e using that(1) by (auto simp: data_ok_def)
      then have "store_ok ?s M X \<and> same_storage ?st ?s (set_mset (holders M X))"
        by (intro store_ok_update [OF s(1) r, where X' = X and x = x and f = f]) (use that in auto)
      then show ?thesis
        by (simp add: same_storage_def store_ok_def data_ok_def free_ok_def
            cong del: free_list.case_cong_weak)
    qed
    have dealloc: "free_ok (?st\<lparr>st_data := (st_data ?st)(r := None), st_free := f\<rparr>)"
      if "f = Destroyed \<or> (\<exists>fs. f = Initialized fs \<and> st_free st = Initialized fs)" for f
    proof -
      have "r \<notin> set fs" if "st_free st = Initialized fs" for fs
        using store_okD(3) [OF ok] d(1,2) that by (auto simp: free_ok_def)
      then show ?thesis using that store_okD(3) [OF ok] by (auto simp: free_ok_def)
    qed
    show ?thesis
    proof (cases "st_free st")
      case Uninitialized with ni show ?thesis by simp
    next
      case Destroyed
      have "st_Recycle r ?st = Some (?st\<lparr>st_data := (st_data ?st)(r := None), st_free := Destroyed, st_maxSize := ?m\<rparr>)"
        using Destroyed True by (cases st) (simp add: st_Recycle_def st_Deallocate_def Let_def)
      from fin [OF this] upd [OF _ dealloc] show ?thesis by blast
    next
      case (Initialized fs)
      have nin: "r \<notin> set fs" using store_okD(3) [OF ok] d(1,2) Initialized by (auto simp: free_ok_def)
      show ?thesis
      proof (cases "d_size d < ?m \<or> length fs > 1000")
        case big: True
        have "st_Recycle r ?st = Some (?st\<lparr>st_data := (st_data ?st)(r := None),
            st_free := Initialized fs, st_maxSize := ?m\<rparr>)"
          using Initialized True big by (cases st) (auto simp: st_Recycle_def st_Deallocate_def Let_def)
        from fin [OF this] upd [OF _ dealloc] Initialized show ?thesis by blast
      next
        case small: False
        have "st_Recycle r ?st = Some (?st\<lparr>st_data := (st_data ?st)(r := Some ?d),
            st_free := Initialized (fs @ [r]), st_maxSize := ?m\<rparr>)"
          using Initialized True small by (cases st) (auto simp: st_Recycle_def Let_def)
        moreover have "free_ok (?st\<lparr>st_data := (st_data ?st)(r := Some ?d), st_free := Initialized (fs @ [r])\<rparr>)"
          using store_okD(3) [OF ok] nin True Initialized by (auto simp: free_ok_def)
        ultimately show ?thesis using fin upd by blast
      qed
    qed
  qed
qed

lemma views_add: "views (add_mset b M) r = (if b_data b = r then insert b (views M r) else views M r)"
  by (auto simp: views_def)

lemma dirty_end_ok_mono: "dirty_end_ok d B \<Longrightarrow> C \<subseteq> B \<Longrightarrow> dirty_end_ok d C"
  unfolding dirty_end_ok_def by blast

lemma drop_view:
  assumes ok: "store_ok st (add_mset b M) X"
  shows "store_ok st M (add_mset (b_data b) X)"
proof -
  have "data_ok st M (add_mset (b_data b) X) r d" if "st_data st r = Some d" for r d
  proof -
    have "views M r \<subseteq> views (add_mset b M) r" by (auto simp: views_def)
    with store_okD(2) [OF ok that] show ?thesis
      by (auto simp: data_ok_def elim: dirty_end_ok_mono)
  qed
  moreover have "st_data st (b_data b) \<noteq> None" using store_okD(1) [OF ok, of b] by auto
  ultimately show ?thesis using ok unfolding store_ok_def by auto
qed

lemma add_view:
  assumes ok: "store_ok st M (add_mset (b_data b) X)" and d: "st_data st (b_data b) = Some d"
    and v: "view_ok d b" and e: "dirty_end_ok d (insert b (views M (b_data b)))"
  shows "store_ok st (add_mset b M) X"
proof -
  have "data_ok st (add_mset b M) X r x" if "st_data st r = Some x" for r x
    using store_okD(2) [OF ok that] d e that by (auto simp: data_ok_def views_add)
  then show ?thesis using ok d v unfolding store_ok_def by auto
qed


section \<open>Changing the data of live buffers\<close>

lemma store_ok_set_data:
  assumes ok: "store_ok st M X" and d: "st_data st r = Some d"
    and len: "length (d_bytes d') = unat (d_size d')" "d_size d' = d_size d"
    and c: "d_count d' = d_count d"
    and v: "\<And>b. b \<in> views M r \<Longrightarrow> view_ok d' b" and e: "dirty_end_ok d' (views M r)"
  shows "store_ok (set_data r d' st) M X"
proof -
  have "data_ok (set_data r d' st) M X q x" if "st_data (set_data r d' st) q = Some x" for q x
    using store_okD(2) [OF ok, of q] d that len c e by (cases "q = r") (auto simp: data_ok_def)
  moreover have "\<forall>b\<in>#M. \<exists>x. st_data (set_data r d' st) (b_data b) = Some x \<and> view_ok x b"
  proof
    fix b assume "b \<in># M"
    then show "\<exists>x. st_data (set_data r d' st) (b_data b) = Some x \<and> view_ok x b"
      using store_okD(1) [OF ok, of b] v [of b] by (cases "b_data b = r") (auto simp: views_def)
  qed
  moreover have "free_ok (set_data r d' st)"
    using store_okD(3) [OF ok] d c by (fastforce simp: free_ok_def split: free_list.splits)
  ultimately show ?thesis using ok unfolding store_ok_def by auto
qed

definition same_bytes :: "store \<Rightarrow> store \<Rightarrow> data_ref set \<Rightarrow> bool" where
  "same_bytes st st' Q \<longleftrightarrow>
     (\<forall>q\<in>Q. \<exists>d d'. st_data st q = Some d \<and> st_data st' q = Some d' \<and> d_bytes d' = d_bytes d)"

lemma same_storage_bytes: "same_storage st st' Q \<Longrightarrow> same_bytes st st' Q"
  unfolding same_storage_def same_bytes_def by fastforce

lemma same_bytes_trans: "same_bytes st1 st2 Q \<Longrightarrow> same_bytes st2 st3 Q \<Longrightarrow> same_bytes st1 st3 Q"
  unfolding same_bytes_def by fastforce

lemma same_bytes_mono: "same_bytes st st' Q \<Longrightarrow> R \<subseteq> Q \<Longrightarrow> same_bytes st st' R"
  by (auto simp: same_bytes_def)

lemma same_bytes_contents:
  "same_bytes st st' Q \<Longrightarrow> b_data b \<in> Q \<Longrightarrow> contents st' b = contents st b"
  by (fastforce simp: same_bytes_def contents_def)

lemma same_bytes_set_data:
  "\<forall>q\<in>Q. st_data st q \<noteq> None \<Longrightarrow> (r \<in> Q \<Longrightarrow> st_data st r = Some d \<and> d_bytes d' = d_bytes d) \<Longrightarrow>
   same_bytes st (set_data r d' st) Q"
  by (fastforce simp: same_bytes_def)

lemma holders_data: "store_ok st M X \<Longrightarrow> \<forall>q\<in>#holders M X. st_data st q \<noteq> None"
  using store_okD(4) by blast

text \<open>Copying the bytes of a view to other storage.\<close>

lemma length_mem_put: "mem_put bs i xs = Some bs' \<Longrightarrow> length bs' = length bs"
  by (auto simp: mem_put_def split: if_splits)

lemma mem_put_get:
  "unat i + length xs \<le> length bs \<Longrightarrow>
   \<exists>bs'. mem_put bs i xs = Some bs' \<and> take (length xs) (drop (unat i) bs') = xs \<and>
     take (unat i) bs' = take (unat i) bs \<and> drop (unat i + length xs) bs' = drop (unat i + length xs) bs"
  by (auto simp: mem_put_def)

lemma GetInternalSize_offsets: "at_offsets b s a c t \<Longrightarrow> unat (b_GetInternalSize b) = a + t"
proof -
  assume "at_offsets b s a c t"
  then have u: "unat (b_start b) = s" "unat (b_zeroAreaStart b) = s + a"
     "unat (b_zeroAreaEnd b) = s + a + c" "unat (b_end b) = s + a + c + t"
    by (simp_all add: at_offsets_def)
  have d: "unat (b_zeroAreaStart b - b_start b) = a" "unat (b_end b - b_zeroAreaEnd b) = t"
    using u by (simp_all add: unat_sub word_le_nat_alt)
  have "unat (b_end b) < 2 ^ 32" using unsigned_less [of "b_end b"] by simp
  then have "unat ((b_zeroAreaStart b - b_start b) + (b_end b - b_zeroAreaEnd b)) = a + t"
    using d u by (subst unat_add_no_wrap) simp_all
  then show ?thesis by (simp add: b_GetInternalSize_def algebra_simps)
qed

lemma move_ok:
  assumes ok: "store_ok st (add_mset b R) X" and o: "at_offsets b s a c t"
    and n: "unat at + a + t \<le> unat n" "unat n \<le> 2 ^ 30" and d: "st_data st (b_data b) = Some d"
  shows "\<exists>r st' d'. b_move n at b st = Some (r, st') \<and> store_ok st' R (add_mset r X) \<and>
    r \<notin># holders R X \<and> same_storage st st' (set_mset (holders R X)) \<and> st_data st' r = Some d' \<and>
    unat n \<le> unat (d_size d') \<and> length (d_bytes d') = unat (d_size d') \<and>
    take (a + t) (drop (unat at) (d_bytes d')) = take (a + t) (drop s (d_bytes d))"
proof -
  let ?M = "add_mset b R"
  from Create_ok [OF ok n(2)] obtain r st1 where
    c1: "st_Create n st = Some (r, st1)" "got st n ?M X r st1" by blast
  then have ok1: "store_ok st1 ?M (add_mset r X)" and r: "r \<notin># holders ?M X"
    and s1: "same_storage st st1 (set_mset (holders ?M X))"
    by (auto simp: got_def)
  obtain d1 where d1: "st_data st1 r = Some d1" "unat n \<le> unat (d_size d1)"
    using c1(2) by (auto simp: got_def)
  have rb: "b_data b \<noteq> r" using r by auto
  obtain cnt where d2: "st_data st1 (b_data b) = Some (d\<lparr>d_count := cnt\<rparr>)"
    using s1 d unfolding same_storage_def by fastforce
  have len: "length (d_bytes d1) = unat (d_size d1)"
    using store_okD(2) [OF ok1 d1(1)] by (simp add: data_ok_def)
  have sd: "s + a + t \<le> length (d_bytes d)"
    using store_okD(1) [OF ok, of b] store_okD(2) [OF ok d] d at_offsets_view(2) [OF o]
    by (auto simp: view_ok_def data_ok_def)
  let ?xs = "take (a + t) (drop s (d_bytes d))"
  have isz: "unat (b_GetInternalSize b) = a + t" by (rule GetInternalSize_offsets [OF o])
  have us: "unat (b_start b) = s" using o by (simp add: at_offsets_def)
  have xs: "mem_slice (d_bytes d) (b_start b) (b_GetInternalSize b) = Some ?xs"
    using sd isz us by (auto simp: mem_slice_def unat_eq_0 [symmetric])
  have lxs: "length ?xs = a + t" using sd by simp
  obtain bs where bs: "mem_put (d_bytes d1) at ?xs = Some bs" "take (a + t) (drop (unat at) bs) = ?xs"
    using mem_put_get [of at ?xs "d_bytes d1"] n(1) d1(2) len lxs by auto
  let ?d1 = "d1\<lparr>d_bytes := bs\<rparr>"
  let ?st = "set_data r ?d1 st1"
  have rv: "views ?M r = {}" using r by (rule views_unheld)
  have ok2: "store_ok ?st ?M (add_mset r X)"
    by (rule store_ok_set_data [OF ok1 d1(1)])
      (use len length_mem_put [OF bs(1)] in \<open>simp_all add: rv dirty_end_ok_def\<close>)
  have "store_ok ?st R (add_mset (b_data b) (add_mset r X))" by (rule drop_view [OF ok2])
  from release_ok [OF this] obtain st2 where st2: "st_release (b_data b) ?st = Some st2"
    "store_ok st2 R (add_mset r X)" "same_storage ?st st2 (set_mset (holders R (add_mset r X)))" by blast
  obtain cnt' where "st_data st2 r = Some (?d1\<lparr>d_count := cnt'\<rparr>)"
    using st2(3) unfolding same_storage_def by fastforce
  moreover have "same_storage st st2 (set_mset (holders R X))"
  proof (rule same_storage_trans)
    show "same_storage st ?st (set_mset (holders R X))"
      using s1 r unfolding same_storage_def by auto
    show "same_storage ?st st2 (set_mset (holders R X))"
      using st2(3) by (rule same_storage_mono) auto
  qed
  moreover have "b_move n at b st = Some (r, st2)"
    using c1(1) d1(1) d2 xs bs(1) st2(1) by (simp add: b_move_def)
  moreover have "r \<notin># holders R X" using r by auto
  ultimately show ?thesis
    using st2(2) d1(2) len length_mem_put [OF bs(1)] bs(2)
    by (intro exI [of _ r] exI [of _ st2] exI [of _ "?d1\<lparr>d_count := cnt'\<rparr>"]) simp
qed

end
