(* ===== verification/Buffer_Ops.thy ===== *)
theory Buffer_Ops
  imports Buffer_Store
begin

text \<open>
  The operations of \<open>Buffer\<close> on the shared storage: each keeps the invariant, does to the
  bytes of its buffer what its name says and changes the bytes of no other live buffer.
\<close>

section \<open>Growing a buffer\<close>

lemma view_data:
  assumes ok: "store_ok st (add_mset b R) X"
  obtains d s a c t where "st_data st (b_data b) = Some d" "at_offsets b s a c t"
    "s + a + t \<le> length (d_bytes d)" "length (d_bytes d) = unat (d_size d)"
    "unat (d_dirtyStart d) \<le> s" "s + a + c + t \<le> unat (d_dirtyEnd d)" "d_count d \<noteq> 0"
    "contents st b = view_bytes (d_bytes d) s (s + a) (s + a + c) (s + a + c + t)"
    "length (contents st b) = a + c + t" "unat (d_size d) \<le> 2 ^ 30 + 101"
proof -
  obtain d where d: "st_data st (b_data b) = Some d" "view_ok d b"
    using store_okD(1) [OF ok, of b] by auto
  then obtain s a c t where o: "at_offsets b s a c t" using b_ok_offsets by (auto simp: view_ok_def)
  note v = at_offsets_view [OF o]
  have "d_count d \<noteq> 0" using store_okD(4) [OF ok, of "b_data b"] d(1) by auto
  moreover have l: "length (d_bytes d) = unat (d_size d)" "unat (d_size d) \<le> 2 ^ 30 + 101"
    using store_okD(2) [OF ok d(1)] by (simp_all add: data_ok_def)
  moreover have "contents st b = view_bytes (d_bytes d) s (s + a) (s + a + c) (s + a + c + t)"
    using d(1) v(3) by (simp add: contents_def)
  moreover from this have "length (contents st b) = a + c + t"
    using d(2) v(2) l by (simp add: length_view_bytes view_ok_def)
  ultimately show ?thesis
    using that [OF d(1) o] d(2) v(2) o
    by (simp add: view_ok_def at_offsets_def word_le_nat_alt)
qed

lemma sole_view:
  assumes "store_ok st (add_mset b R) X" and "st_data st (b_data b) = Some d" and "d_count d = 1"
  shows "views R (b_data b) = {}"
proof -
  have "count (holders (add_mset b R) X) (b_data b) = 1"
    using store_okD(2) [OF assms(1,2)] assms(3) by (simp add: data_ok_def)
  then have "count (image_mset b_data R) (b_data b) = 0" by simp
  then have "b_data b \<notin># image_mset b_data R" by (simp only: not_in_iff)
  then show ?thesis by (intro views_unheld [where X = "{#}"]) simp
qed

text \<open>Adopting new storage after a move.\<close>

lemma adopt_ok:
  assumes ok: "store_ok st R (add_mset r X)" and r: "r \<notin># holders R X" and d: "st_data st r = Some d"
    and b: "b_data b = r" "at_offsets b s a c t" "s + a + t \<le> unat (d_size d)"
  shows "\<exists>st'. set_dirty b st = Some st' \<and> store_ok st' (add_mset b R) X \<and>
    same_storage st st' (set_mset (holders R X)) \<and>
    contents st' b = view_bytes (d_bytes d) s (s + a) (s + a + c) (s + a + c + t)"
proof -
  let ?d = "d\<lparr>d_dirtyStart := b_start b, d_dirtyEnd := b_end b\<rparr>"
  let ?st = "set_data r ?d st"
  have v: "views R r = {}" by (rule views_unheld [OF r])
  have "length (d_bytes d) = unat (d_size d)" using store_okD(2) [OF ok d] by (simp add: data_ok_def)
  then have s: "store_ok ?st R (add_mset r X)"
    by (intro store_ok_set_data [OF ok d]) (simp_all add: v dirty_end_ok_def)
  have "store_ok ?st (add_mset b R) X"
    by (rule add_view [where d = ?d])
      (use s b at_offsets_view [OF b(2)] v in \<open>simp_all add: view_ok_def dirty_end_ok_def\<close>)
  moreover have "same_storage st ?st (set_mset (holders R X))"
    using same_storage_refl [OF holders_data [OF ok]] r unfolding same_storage_def by auto
  moreover have "contents ?st b = view_bytes (d_bytes d) s (s + a) (s + a + c) (s + a + c + t)"
    using b(1) at_offsets_view(3) [OF b(2)] by (simp add: contents_def)
  ultimately show ?thesis using d b(1) by (simp add: set_dirty_def)
qed

lemma view_bytes_shift:
  assumes "take (a + t) (drop p bs') = take (a + t) (drop s bs)"
  shows "view_bytes bs' p (p + a) (p + a + c) (p + a + c + t) = view_bytes bs s (s + a) (s + a + c) (s + a + c + t)"
proof -
  have "take a (drop p bs') = take a (drop s bs)"
    using arg_cong [OF assms, of "take a"] by (simp add: min_def)
  moreover have "take t (drop (p + a) bs') = take t (drop (s + a) bs)"
    using arg_cong [OF assms, of "drop a"] by (simp add: drop_take add.commute)
  ultimately show ?thesis unfolding view_parts by simp
qed

lemma view_grow_start:
  "n \<le> s \<Longrightarrow> s \<le> length bs \<Longrightarrow>
   view_bytes bs (s - n) (s + a) (s + a + c) (s + a + c + t) =
     take n (drop (s - n) bs) @ view_bytes bs s (s + a) (s + a + c) (s + a + c + t)"
proof -
  assume a: "n \<le> s" "s \<le> length bs"
  have "take (a + n) (drop (s - n) bs) = take n (drop (s - n) bs) @ take a (drop s bs)"
    using a take_add [of n a "drop (s - n) bs"] by (simp add: add.commute)
  with a show ?thesis by (simp add: view_bytes_def)
qed

lemma view_grow_end:
  "s + a + t + n \<le> length bs \<Longrightarrow>
   view_bytes bs s (s + a) (s + a + c) (s + a + c + (t + n)) =
     view_bytes bs s (s + a) (s + a + c) (s + a + c + t) @ take n (drop (s + a + t) bs)"
proof -
  have "take (t + n) (drop (s + a) bs) = take t (drop (s + a) bs) @ take n (drop (s + a + t) bs)"
    unfolding take_add drop_drop by (simp add: add.commute)
  then show ?thesis unfolding view_parts by simp
qed

definition fresh_start :: "buffer multiset \<Rightarrow> buffer \<Rightarrow> nat \<Rightarrow> bool" where
  "fresh_start R b n \<longleftrightarrow> (\<forall>c\<in>views R (b_data b). unat (b_start b) + n \<le> unat (b_start c))"

definition fresh_end :: "buffer multiset \<Rightarrow> buffer \<Rightarrow> nat \<Rightarrow> bool" where
  "fresh_end R b n \<longleftrightarrow> (\<forall>c\<in>views R (b_data b). phys_end c + n \<le> phys_end b)"

lemma at_offsets_note: "at_offsets (b\<lparr>b_maxZeroAreaStart := m\<rparr>) = at_offsets b"
  by (intro ext) (simp add: at_offsets_def)

text \<open>The recorded maximum of the zero area's start plays no role.\<close>

lemma view_ok_note [simp]: "view_ok d (b\<lparr>b_maxZeroAreaStart := m\<rparr>) = view_ok d b"
  by (simp add: view_ok_def b_ok_def phys_end_def)

lemma phys_end_note [simp]: "phys_end (b\<lparr>b_maxZeroAreaStart := m\<rparr>) = phys_end b"
  by (simp add: phys_end_def)

lemma b_bytes_note [simp]: "b_bytes bs (b\<lparr>b_maxZeroAreaStart := m\<rparr>) = b_bytes bs b"
  by (simp add: b_bytes_def)

lemma contents_note [simp]: "contents st (b\<lparr>b_maxZeroAreaStart := m\<rparr>) = contents st b"
  by (simp add: contents_def split: option.splits)

lemma fresh_note [simp]:
  "fresh_start R (b\<lparr>b_maxZeroAreaStart := m\<rparr>) n = fresh_start R b n"
  "fresh_end R (b\<lparr>b_maxZeroAreaStart := m\<rparr>) n = fresh_end R b n"
  by (simp_all add: fresh_start_def fresh_end_def)

lemma store_ok_note:
  assumes "store_ok st (add_mset b R) X"
  shows "store_ok st (add_mset (b\<lparr>b_maxZeroAreaStart := m\<rparr>) R) X"
proof -
  have "dirty_end_ok d (views (add_mset (b\<lparr>b_maxZeroAreaStart := m\<rparr>) R) r) =
      dirty_end_ok d (views (add_mset b R) r)" for d r
    by (simp add: views_add dirty_end_ok_def)
  with assms show ?thesis by (simp add: store_ok_def data_ok_def)
qed


lemma AddAtStart_ok:
  assumes ok: "store_ok st (add_mset b R) X" and n: "length (contents st b) + unat n \<le> 2 ^ 30"
  shows "\<exists>b' st' xs. b_AddAtStart n b st = Some (b', st') \<and> store_ok st' (add_mset b' R) X \<and>
    contents st' b' = xs @ contents st b \<and> length xs = unat n \<and>
    same_bytes st st' (set_mset (holders R X)) \<and> fresh_start R b' (unat n) \<and>
    (b_data b' = b_data b \<or> b_data b' \<notin># holders R X) \<and>
    (\<forall>s a c t. at_offsets b s a c t \<longrightarrow> (\<exists>s'. at_offsets b' s' (unat n + a) c t))"
proof -
  obtain d s a c t where d: "st_data st (b_data b) = Some d" and o: "at_offsets b s a c t"
    and len: "s + a + t \<le> length (d_bytes d)" "length (d_bytes d) = unat (d_size d)"
    and dirty: "unat (d_dirtyStart d) \<le> s" "s + a + c + t \<le> unat (d_dirtyEnd d)"
    and nz: "d_count d \<noteq> 0" and con: "contents st b = view_bytes (d_bytes d) s (s + a) (s + a + c) (s + a + c + t)"
      "length (contents st b) = a + c + t"
    by (rule view_data [OF ok])
  have u: "unat (b_start b) = s" "unat (b_zeroAreaStart b) = s + a"
     "unat (b_zeroAreaEnd b) = s + a + c" "unat (b_end b) = s + a + c + t"
    using o by (simp_all add: at_offsets_def)
  have uniq: "\<forall>s' a' c' t'. at_offsets b s' a' c' t' \<longrightarrow> s' = s \<and> a' = a \<and> c' = c \<and> t' = t"
    using u by (simp add: at_offsets_def)
  let ?M = "add_mset b R"
  let ?dirty = "d_count d > 1 \<and> b_start b > d_dirtyStart d"
  have one: "d_count d = 1 \<or> d_count d > 1"
    using nz by (simp add: word_less_nat_alt word_unat_eq_iff) (metis One_nat_def less_one nat_neq_iff unat_0_iff)
  have "\<exists>b' st' xs. (b_AddAtStart n b st = Some (note_zero_start b', st')) \<and> store_ok st' (add_mset b' R) X \<and>
    contents st' b' = xs @ contents st b \<and> length xs = unat n \<and>
    same_bytes st st' (set_mset (holders R X)) \<and> fresh_start R b' (unat n) \<and>
    (b_data b' = b_data b \<or> b_data b' \<notin># holders R X) \<and>
    (\<exists>s'. at_offsets b' s' (unat n + a) c t)"
  proof (cases "b_start b \<ge> n \<and> \<not> ?dirty")
    case True
    then have ns: "unat n \<le> s" "unat (b_start b - n) = s - unat n"
      using u by (simp_all add: word_le_nat_alt unat_sub)
    have assert: "d_count d = 1 \<or> b_start b = d_dirtyStart d"
      using True one dirty(1) u(1) by (auto simp: word_less_nat_alt word_unat_eq_iff)
    let ?b = "b\<lparr>b_start := b_start b - n\<rparr>"
    let ?d = "d\<lparr>d_dirtyStart := b_start ?b\<rparr>"
    let ?st = "set_data (b_data b) ?d st"
    have o': "at_offsets ?b (s - unat n) (unat n + a) c t"
      using u ns by (simp add: at_offsets_def)
    have others: "unat (b_start ?b) + unat n \<le> unat (b_start x)" "view_ok ?d x"
      if x: "x \<in> views R (b_data b)" for x
    proof -
      have xv: "view_ok d x"
        using store_okD(1) [OF ok, of x] x d by (auto simp: views_def)
      have "views R (b_data b) \<noteq> {}" using x by auto
      then have "d_count d \<noteq> 1" using sole_view [OF ok d] by auto
      then have eq: "b_start b = d_dirtyStart d" using assert by simp
      then show "unat (b_start ?b) + unat n \<le> unat (b_start x)"
        using xv u ns by (simp add: view_ok_def word_le_nat_alt)
      then show "view_ok ?d x" using xv by (simp add: view_ok_def word_le_nat_alt)
    qed
    have ok1: "store_ok st R (add_mset (b_data b) X)" by (rule drop_view [OF ok])
    have e: "dirty_end_ok d (insert b (views R (b_data b)))"
      using store_okD(2) [OF ok d] by (simp add: data_ok_def views_add)
    then have e': "dirty_end_ok ?d (insert ?b (views R (b_data b)))"
      by (simp add: dirty_end_ok_def phys_end_def)
    have "store_ok ?st R (add_mset (b_data b) X)"
      by (rule store_ok_set_data [OF ok1 d])
        (use len others e in \<open>auto simp: dirty_end_ok_def\<close>)
    then have "store_ok ?st (add_mset ?b R) X"
    proof (rule add_view [of _ _ ?b, simplified])
      show "view_ok ?d ?b"
        using o' at_offsets_view [OF o'] len dirty(2) u ns(1) by (simp add: view_ok_def word_le_nat_alt)
    qed (use e' in simp_all)
    moreover have "contents ?st ?b = take (unat n) (drop (s - unat n) (d_bytes d)) @ contents st b"
      using at_offsets_view(3) [OF o'] view_grow_start [of "unat n" s "d_bytes d" a c t] ns(1) len(1) con(1)
      by (simp add: contents_def)
    moreover have "same_bytes st ?st (set_mset (holders R X))"
      using d holders_data [OF ok] by (intro same_bytes_set_data) auto
    moreover have "fresh_start R ?b (unat n)" using others(1) by (simp add: fresh_start_def)
    moreover have "b_AddAtStart n b st = Some (note_zero_start ?b, ?st)"
      using True assert d by (auto simp: b_AddAtStart_def Let_def option_simps)
    moreover have "length (take (unat n) (drop (s - unat n) (d_bytes d))) = unat n"
      using ns(1) len(1) by simp
    moreover have "b_data ?b = b_data b" by simp
    ultimately show ?thesis using o' by blast
  next
    case False
    have isz: "unat (b_GetInternalSize b) = a + t" by (rule GetInternalSize_offsets [OF o])
    have un: "unat (b_GetInternalSize b + n) = a + t + unat n"
      using n con(2) isz by (subst unat_add_no_wrap) simp_all
    have mv: "unat n + a + t \<le> unat (b_GetInternalSize b + n)" "unat (b_GetInternalSize b + n) \<le> 2 ^ 30"
      using un n con(2) by simp_all
    from move_ok [OF ok o mv d] obtain r st1 d1 where
      m: "b_move (b_GetInternalSize b + n) n b st = Some (r, st1)" "store_ok st1 R (add_mset r X)"
      "r \<notin># holders R X" "same_storage st st1 (set_mset (holders R X))" "st_data st1 r = Some d1"
      "unat (b_GetInternalSize b + n) \<le> unat (d_size d1)" "length (d_bytes d1) = unat (d_size d1)"
      "take (a + t) (drop (unat n) (d_bytes d1)) = take (a + t) (drop s (d_bytes d))" by blast
    let ?delta = "n - b_start b"
    let ?b = "b\<lparr>b_data := r, b_start := b_start b + ?delta - n,
                b_zeroAreaStart := b_zeroAreaStart b + ?delta,
                b_zeroAreaEnd := b_zeroAreaEnd b + ?delta, b_end := b_end b + ?delta\<rparr>"
    have diff: "unat (x + ?delta) = unat n + k" if "unat x = s + k" "k \<le> a + c + t" for x k
    proof -
      have "x + ?delta = n + (x - b_start b)" by simp
      moreover have "unat (x - b_start b) = k" using that(1) u(1) by (simp add: unat_sub word_le_nat_alt)
      moreover from this have "unat (n + (x - b_start b)) = unat n + k"
        using that(2) n con(2) by (subst unat_add_no_wrap) simp_all
      ultimately show ?thesis by (simp only:)
    qed
    have o': "at_offsets ?b 0 (unat n + a) c t"
      using diff [of "b_zeroAreaStart b" a] diff [of "b_zeroAreaEnd b" "a + c"]
        diff [of "b_end b" "a + c + t"] u by (simp add: at_offsets_def)
    have fit: "0 + (unat n + a) + t \<le> unat (d_size d1)" using m(6) un by simp
    from adopt_ok [OF m(2,3,5) _ o' fit] obtain st2 where
      a: "set_dirty ?b st1 = Some st2" "store_ok st2 (add_mset ?b R) X"
      "same_storage st1 st2 (set_mset (holders R X))"
      "contents st2 ?b = view_bytes (d_bytes d1) 0 (unat n + a) (unat n + a + c) (unat n + a + c + t)"
      by (auto simp: add.commute)
    have "contents st2 ?b = take (unat n) (d_bytes d1) @ contents st b"
      using view_grow_start [of "unat n" "unat n" "d_bytes d1" a c t] view_bytes_shift [OF m(8), of c]
        a(4) fit m(7) con(1) by simp
    moreover have "same_bytes st st2 (set_mset (holders R X))"
      using same_storage_bytes [OF same_storage_trans [OF m(4) a(3)]] .
    moreover have "fresh_start R ?b (unat n)"
      using views_unheld [OF m(3)] by (simp add: fresh_start_def)
    moreover have "b_AddAtStart n b st = Some (note_zero_start ?b, st2)"
      using False d m(1) a(1) by (auto simp: b_AddAtStart_def Let_def option_simps)
    moreover have "length (take (unat n) (d_bytes d1)) = unat n" using fit m(7) by simp
    moreover have "b_data ?b \<notin># holders R X" using m(3) by simp
    ultimately show ?thesis using a(2) o' by blast
  qed
  then obtain b' st' xs s' where r: "b_AddAtStart n b st = Some (note_zero_start b', st')"
    "store_ok st' (add_mset b' R) X" "contents st' b' = xs @ contents st b" "length xs = unat n"
    "same_bytes st st' (set_mset (holders R X))" "fresh_start R b' (unat n)"
    "b_data b' = b_data b \<or> b_data b' \<notin># holders R X" "at_offsets b' s' (unat n + a) c t" by blast
  from store_ok_note [OF r(2)] r show ?thesis
    using uniq by (intro exI [of _ "note_zero_start b'"] exI [of _ st'] exI [of _ xs])
      (auto simp: at_offsets_note)
qed


lemma AddAtEnd_ok:
  assumes ok: "store_ok st (add_mset b R) X" and n: "length (contents st b) + unat n \<le> 2 ^ 30"
  shows "\<exists>b' st' xs. b_AddAtEnd n b st = Some (b', st') \<and> store_ok st' (add_mset b' R) X \<and>
    contents st' b' = contents st b @ xs \<and> length xs = unat n \<and>
    same_bytes st st' (set_mset (holders R X)) \<and> fresh_end R b' (unat n) \<and>
    (b_data b' = b_data b \<or> b_data b' \<notin># holders R X) \<and>
    (\<forall>s a c t. at_offsets b s a c t \<longrightarrow> (\<exists>s'. at_offsets b' s' a c (t + unat n)))"
proof -
  obtain d s a c t where d: "st_data st (b_data b) = Some d" and o: "at_offsets b s a c t"
    and len: "s + a + t \<le> length (d_bytes d)" "length (d_bytes d) = unat (d_size d)"
    and dirty: "unat (d_dirtyStart d) \<le> s" "s + a + c + t \<le> unat (d_dirtyEnd d)"
    and nz: "d_count d \<noteq> 0" and con: "contents st b = view_bytes (d_bytes d) s (s + a) (s + a + c) (s + a + c + t)"
      "length (contents st b) = a + c + t" and small: "unat (d_size d) \<le> 2 ^ 30 + 101"
    by (rule view_data [OF ok])
  have u: "unat (b_start b) = s" "unat (b_zeroAreaStart b) = s + a"
     "unat (b_zeroAreaEnd b) = s + a + c" "unat (b_end b) = s + a + c + t"
    using o by (simp_all add: at_offsets_def)
  have room: "unat (b_end b) + unat n < 2 ^ 32"
    using u(4) len small n con(2) by simp
  have uniq: "\<forall>s' a' c' t'. at_offsets b s' a' c' t' \<longrightarrow> s' = s \<and> a' = a \<and> c' = c \<and> t' = t"
    using u by (simp add: at_offsets_def)
  let ?dirty = "d_count d > 1 \<and> b_end b < d_dirtyEnd d"
  have one: "d_count d = 1 \<or> d_count d > 1"
    using nz by (simp add: word_less_nat_alt word_unat_eq_iff) (metis One_nat_def less_one nat_neq_iff unat_0_iff)
  have zl: "unat (b_zeroAreaEnd b - b_zeroAreaStart b) = c"
    using u by (simp add: unat_sub word_le_nat_alt)
  have ie: "unat (b_GetInternalEnd b) = s + a + t"
    unfolding b_GetInternalEnd_def using u zl by (subst unat_sub) (simp_all add: word_le_nat_alt)
  have iend: "unat (b_GetInternalEnd b + n) = s + a + t + unat n"
    using ie room u(4) by (subst unat_add_no_wrap) simp_all
  have nend: "unat (b_end b + n) = s + a + c + t + unat n"
    using u(4) room by (subst unat_add_no_wrap) simp_all
  have "\<exists>b' st' xs. (b_AddAtEnd n b st = Some (note_zero_start b', st')) \<and> store_ok st' (add_mset b' R) X \<and>
    contents st' b' = contents st b @ xs \<and> length xs = unat n \<and>
    same_bytes st st' (set_mset (holders R X)) \<and> fresh_end R b' (unat n) \<and>
    (b_data b' = b_data b \<or> b_data b' \<notin># holders R X) \<and>
    (\<exists>s'. at_offsets b' s' a c (t + unat n))"
  proof (cases "b_GetInternalEnd b + n \<le> d_size d \<and> \<not> ?dirty")
    case True
    then have fits: "s + a + t + unat n \<le> unat (d_size d)"
      using iend by (simp add: word_le_nat_alt)
    have assert: "d_count d = 1 \<or> b_end b = d_dirtyEnd d"
      using True one dirty(2) u(4) by (auto simp: word_less_nat_alt word_unat_eq_iff)
    let ?b = "b\<lparr>b_end := b_end b + n\<rparr>"
    let ?d = "d\<lparr>d_dirtyEnd := b_end ?b\<rparr>"
    let ?st = "set_data (b_data b) ?d st"
    have o': "at_offsets ?b s a c (t + unat n)"
      using u nend by (simp add: at_offsets_def)
    obtain P where P: "\<forall>x\<in>insert b (views R (b_data b)). phys_end x \<le> P \<and> (b_end x = d_dirtyEnd d \<longrightarrow> phys_end x = P)"
      using store_okD(2) [OF ok d] by (auto simp: data_ok_def views_add dirty_end_ok_def)
    have others: "phys_end x + unat n \<le> phys_end ?b" "view_ok ?d x"
      "b_end x = b_end ?b \<longrightarrow> phys_end x = phys_end ?b"
      if x: "x \<in> views R (b_data b)" for x
    proof -
      have xv: "view_ok d x"
        using store_okD(1) [OF ok, of x] x d by (auto simp: views_def)
      have "views R (b_data b) \<noteq> {}" using x by auto
      then have "d_count d \<noteq> 1" using sole_view [OF ok d] by auto
      then have eq: "b_end b = d_dirtyEnd d" using assert by simp
      then have "phys_end x \<le> phys_end b" using P x by auto
      then show f: "phys_end x + unat n \<le> phys_end ?b"
        using at_offsets_view(2) [OF o'] at_offsets_view(2) [OF o] by simp
      have xe: "unat (b_end x) \<le> s + a + c + t"
        using xv eq u(4) by (simp add: view_ok_def word_le_nat_alt)
      then show "view_ok ?d x" using xv nend by (simp add: view_ok_def word_le_nat_alt)
      show "b_end x = b_end ?b \<longrightarrow> phys_end x = phys_end ?b"
      proof
        assume same: "b_end x = b_end ?b"
        then have "unat n = 0" using xe nend by simp
        then have n0: "n = 0" by (simp add: unat_eq_0)
        with same eq P x have "phys_end x = P" by auto
        moreover have "phys_end b = P" using P eq by auto
        ultimately show "phys_end x = phys_end ?b" using n0 by simp
      qed
    qed
    have ok1: "store_ok st R (add_mset (b_data b) X)" by (rule drop_view [OF ok])
    have e': "dirty_end_ok ?d (insert ?b (views R (b_data b)))"
      unfolding dirty_end_ok_def
      by (rule exI [of _ "phys_end ?b"]) (use others in fastforce)
    have "store_ok ?st R (add_mset (b_data b) X)"
      by (rule store_ok_set_data [OF ok1 d])
        (use len others e' in \<open>auto elim: dirty_end_ok_mono\<close>)
    then have "store_ok ?st (add_mset ?b R) X"
    proof (rule add_view [of _ _ ?b, simplified])
      show "view_ok ?d ?b"
        using at_offsets_view [OF o'] fits dirty(1) u(1) by (simp add: view_ok_def word_le_nat_alt)
    qed (use e' in simp_all)
    moreover have "contents ?st ?b = contents st b @ take (unat n) (drop (s + a + t) (d_bytes d))"
      using at_offsets_view(3) [OF o'] view_grow_end [of s a t "unat n" "d_bytes d" c] fits len(2) con(1)
      by (simp add: contents_def add.assoc)
    moreover have "same_bytes st ?st (set_mset (holders R X))"
      using d holders_data [OF ok] by (intro same_bytes_set_data) auto
    moreover have "fresh_end R ?b (unat n)" using others(1) by (simp add: fresh_end_def)
    moreover have "b_AddAtEnd n b st = Some (note_zero_start ?b, ?st)"
      using True assert d by (auto simp: b_AddAtEnd_def Let_def option_simps)
    moreover have "length (take (unat n) (drop (s + a + t) (d_bytes d))) = unat n"
      using fits len(2) by simp
    moreover have "b_data ?b = b_data b" by simp
    ultimately show ?thesis using o' by blast
  next
    case False
    have isz: "unat (b_GetInternalSize b) = a + t" by (rule GetInternalSize_offsets [OF o])
    have un: "unat (b_GetInternalSize b + n) = a + t + unat n"
      using n con(2) isz by (subst unat_add_no_wrap) simp_all
    have mv: "unat (0 :: u32) + a + t \<le> unat (b_GetInternalSize b + n)"
      "unat (b_GetInternalSize b + n) \<le> 2 ^ 30"
      using un n con(2) by simp_all
    from move_ok [OF ok o mv d] obtain r st1 d1 where
      m: "b_move (b_GetInternalSize b + n) 0 b st = Some (r, st1)" "store_ok st1 R (add_mset r X)"
      "r \<notin># holders R X" "same_storage st st1 (set_mset (holders R X))" "st_data st1 r = Some d1"
      "unat (b_GetInternalSize b + n) \<le> unat (d_size d1)" "length (d_bytes d1) = unat (d_size d1)"
      "take (a + t) (drop 0 (d_bytes d1)) = take (a + t) (drop s (d_bytes d))" by auto
    let ?delta = "- b_start b"
    let ?b = "b\<lparr>b_data := r, b_start := b_start b + ?delta,
                b_zeroAreaStart := b_zeroAreaStart b + ?delta,
                b_zeroAreaEnd := b_zeroAreaEnd b + ?delta, b_end := b_end b + ?delta + n\<rparr>"
    have diff: "unat (x + ?delta) = k" if "unat x = s + k" for x k
      using that u(1) by (simp add: unat_sub word_le_nat_alt)
    have de: "unat (b_end b + ?delta) = a + c + t" using diff u(4) by (simp add: add.assoc)
    have "unat (b_end b + ?delta + n) = a + c + t + unat n"
      using de n con(2) by (subst unat_add_no_wrap) simp_all
    then have o': "at_offsets ?b 0 a c (t + unat n)"
      using diff [of "b_zeroAreaStart b" a] diff [of "b_zeroAreaEnd b" "a + c"] u
      by (simp add: at_offsets_def)
    have fit: "0 + a + (t + unat n) \<le> unat (d_size d1)" using m(6) un by simp
    from adopt_ok [OF m(2,3,5) _ o' fit] obtain st2 where
      a: "set_dirty ?b st1 = Some st2" "store_ok st2 (add_mset ?b R) X"
      "same_storage st1 st2 (set_mset (holders R X))"
      "contents st2 ?b = view_bytes (d_bytes d1) 0 (0 + a) (0 + a + c) (0 + a + c + (t + unat n))"
      by auto
    have "contents st2 ?b = contents st b @ take (unat n) (drop (a + t) (d_bytes d1))"
      unfolding a(4) con(1) view_bytes_shift [OF m(8), of c, symmetric]
      by (subst view_grow_end) (use fit m(7) in simp_all)
    moreover have "same_bytes st st2 (set_mset (holders R X))"
      using same_storage_bytes [OF same_storage_trans [OF m(4) a(3)]] .
    moreover have "fresh_end R ?b (unat n)"
      using views_unheld [OF m(3)] by (simp add: fresh_end_def)
    moreover have "b_AddAtEnd n b st = Some (note_zero_start ?b, st2)"
      using False d m(1) a(1) by (auto simp: b_AddAtEnd_def Let_def option_simps)
    moreover have "length (take (unat n) (drop (a + t) (d_bytes d1))) = unat n" using fit m(7) by simp
    moreover have "b_data ?b \<notin># holders R X" using m(3) by simp
    ultimately show ?thesis using a(2) o' by blast
  qed
  then obtain b' st' xs s' where r: "b_AddAtEnd n b st = Some (note_zero_start b', st')"
    "store_ok st' (add_mset b' R) X" "contents st' b' = contents st b @ xs" "length xs = unat n"
    "same_bytes st st' (set_mset (holders R X))" "fresh_end R b' (unat n)"
    "b_data b' = b_data b \<or> b_data b' \<notin># holders R X" "at_offsets b' s' a c (t + unat n)" by blast
  from store_ok_note [OF r(2)] r show ?thesis
    using uniq by (intro exI [of _ "note_zero_start b'"] exI [of _ st'] exI [of _ xs])
      (auto simp: at_offsets_note)
qed

section \<open>Shrinking, copying and destroying\<close>

lemma shrink_ok:
  assumes ok: "store_ok st (add_mset b R) X" and r: "b_data b' = b_data b" and b: "b_ok b'"
    and s: "unat (b_start b) \<le> unat (b_start b')" and e: "unat (b_end b') \<le> unat (b_end b)"
    and p: "phys_end b' \<le> phys_end b" and same: "b_end b' = b_end b \<Longrightarrow> phys_end b' = phys_end b"
  shows "store_ok st (add_mset b' R) X"
proof -
  obtain d where d: "st_data st (b_data b) = Some d" "view_ok d b"
    using store_okD(1) [OF ok, of b] by auto
  obtain P where P: "\<forall>x\<in>insert b (views R (b_data b)). phys_end x \<le> P \<and> (b_end x = d_dirtyEnd d \<longrightarrow> phys_end x = P)"
    using store_okD(2) [OF ok d(1)] by (auto simp: data_ok_def views_add dirty_end_ok_def)
  have v: "view_ok d b'"
    using d(2) b s e p by (auto simp: view_ok_def word_le_nat_alt)
  have "b_end b' = d_dirtyEnd d \<longrightarrow> phys_end b' = P"
  proof
    assume q: "b_end b' = d_dirtyEnd d"
    with d(2) e have "b_end b' = b_end b" by (simp add: view_ok_def word_le_nat_alt word_unat_eq_iff)
    with same q P show "phys_end b' = P" by auto
  qed
  then have "dirty_end_ok d (insert b' (views R (b_data b)))"
    unfolding dirty_end_ok_def by (intro exI [of _ P]) (use P p in fastforce)
  then show ?thesis
    using drop_view [OF ok] d(1) v by (intro add_view [where d = d]) (simp_all add: r)
qed

lemma RemoveAtStart_ok:
  assumes ok: "store_ok st (add_mset b R) X" and n: "unat n \<le> 2 ^ 30"
  shows "store_ok st (add_mset (b_RemoveAtStart n b) R) X \<and>
    contents st (b_RemoveAtStart n b) = drop (unat n) (contents st b)"
proof -
  obtain d s a c t where d: "st_data st (b_data b) = Some d" and o: "at_offsets b s a c t"
    and len: "s + a + t \<le> length (d_bytes d)" "length (d_bytes d) = unat (d_size d)"
    and small: "unat (d_size d) \<le> 2 ^ 30 + 101" by (rule view_data [OF ok])
  have u: "unat (b_start b) = s" "unat (b_end b) = s + a + c + t" using o by (simp_all add: at_offsets_def)
  have sn: "s + unat n < 2 ^ 32" using len small n by simp
  note v = at_offsets_view [OF o]
  have r: "b_data (b_RemoveAtStart n b) = b_data b" by (simp add: b_RemoveAtStart_def Let_def)
  note o' = RemoveAtStart_offsets [OF o sn]
  have pl: "phys_end b \<le> length (d_bytes d)" using v(2) len by simp
  note rb = RemoveAtStart_bytes [OF v(1) pl, of n]
  have u': "unat (b_start b) + unat n < 2 ^ 32" using sn u by simp
  have "unat (b_start b) \<le> unat (b_start (b_RemoveAtStart n b))"
    "unat (b_end (b_RemoveAtStart n b)) \<le> unat (b_end b)"
    using o' u unfolding at_offsets_def by (auto split: if_splits)
  then have "store_ok st (add_mset (b_RemoveAtStart n b) R) X"
    using rb(2,3) [OF u'] by (intro shrink_ok [OF ok r]) simp_all
  moreover have "contents st (b_RemoveAtStart n b) = drop (unat n) (contents st b)"
    using d r rb(1) [OF u'] by (simp add: contents_def)
  ultimately show ?thesis by blast
qed

lemma RemoveAtEnd_ok:
  assumes ok: "store_ok st (add_mset b R) X"
  shows "store_ok st (add_mset (b_RemoveAtEnd n b) R) X \<and>
    contents st (b_RemoveAtEnd n b) = take (length (contents st b) - unat n) (contents st b)"
proof -
  obtain d s a c t where d: "st_data st (b_data b) = Some d" and o: "at_offsets b s a c t"
    and len: "s + a + t \<le> length (d_bytes d)" "length (d_bytes d) = unat (d_size d)"
    by (rule view_data [OF ok])
  have u: "unat (b_start b) = s" "unat (b_end b) = s + a + c + t" using o by (simp_all add: at_offsets_def)
  note v = at_offsets_view [OF o]
  have r: "b_data (b_RemoveAtEnd n b) = b_data b" by (simp add: b_RemoveAtEnd_def Let_def)
  note o' = RemoveAtEnd_offsets [OF o refl, of n]
  have pl: "phys_end b \<le> length (d_bytes d)" using v(2) len by simp
  note rb = RemoveAtEnd_bytes [OF v(1) pl, of n]
  have "b_end (b_RemoveAtEnd n b) = b_end b \<Longrightarrow> phys_end (b_RemoveAtEnd n b) = phys_end b"
  proof -
    assume "b_end (b_RemoveAtEnd n b) = b_end b"
    then have "s + min a (a + c + t - unat n) + min c (a + c + t - unat n - a) + (a + c + t - unat n - (a + c)) =
        s + a + c + t"
      using o' u unfolding at_offsets_def by simp
    then have "unat n = 0 \<or> a + c + t = 0" by (auto simp: min_def split: if_splits)
    then show "phys_end (b_RemoveAtEnd n b) = phys_end b"
      unfolding at_offsets_view(2) [OF o'] v(2) by auto
  qed
  moreover have "unat (b_start b) \<le> unat (b_start (b_RemoveAtEnd n b))"
    "unat (b_end (b_RemoveAtEnd n b)) \<le> unat (b_end b)"
    using o' u unfolding at_offsets_def by (auto simp: min_def)
  ultimately have "store_ok st (add_mset (b_RemoveAtEnd n b) R) X"
    using rb(2,3) by (intro shrink_ok [OF ok r]) simp_all
  moreover have "contents st (b_RemoveAtEnd n b) = take (length (contents st b) - unat n) (contents st b)"
    using d r rb(1) by (simp add: contents_def)
  ultimately show ?thesis by blast
qed

lemma copy_ok:
  assumes ok: "store_ok st (add_mset b R) X" and few: "size (holders (add_mset b R) X) + 1 < 2 ^ 32"
  shows "\<exists>b' st'. b_copy b st = Some (b', st') \<and> store_ok st' (add_mset b' (add_mset b R)) X \<and>
    same_storage st st' (set_mset (holders (add_mset b R) X)) \<and> contents st' b' = contents st b \<and>
    b_data b' = b_data b"
proof -
  let ?M = "add_mset b R" and ?r = "b_data b" and ?b = "b\<lparr>b_maxZeroAreaStart := b_zeroAreaStart b\<rparr>"
  obtain d where d: "st_data st ?r = Some d" "view_ok d b"
    using store_okD(1) [OF ok, of b] by auto
  have dok: "data_ok st ?M X ?r d" by (rule store_okD(2) [OF ok d(1)])
  have nz: "d_count d \<noteq> 0" using store_okD(4) [OF ok, of ?r] d(1) by auto
  have "count (holders ?M X) ?r \<le> size (holders ?M X)" by (rule count_le_size)
  then have "unat (d_count d) + 1 < 2 ^ 32" using dok few unfolding data_ok_def by linarith
  then have "unat (d_count d + 1) = unat (d_count d) + 1" by (subst unat_succ_no_wrap) simp_all
  then have c: "unat (d_count d + 1) = count (holders ?M (add_mset ?r X)) ?r"
    using dok by (simp add: data_ok_def)
  let ?d = "d\<lparr>d_count := d_count d + 1\<rparr>" and ?st = "set_data ?r (d\<lparr>d_count := d_count d + 1\<rparr>) st"
  have s: "store_ok ?st ?M (add_mset ?r X) \<and> same_storage st ?st (set_mset (holders ?M X))"
    by (rule store_ok_set_count [OF ok d(1) c]) (use nz in simp_all)
  have "dirty_end_ok d (views ?M ?r)" using dok by (simp add: data_ok_def)
  then obtain P where P: "\<forall>x\<in>views ?M ?r. phys_end x \<le> P \<and> (b_end x = d_dirtyEnd d \<longrightarrow> phys_end x = P)"
    unfolding dirty_end_ok_def by blast
  then have "dirty_end_ok ?d (insert ?b (views ?M ?r))"
    unfolding dirty_end_ok_def by (intro exI [of _ P]) (auto simp: views_add phys_end_def)
  then have "store_ok ?st (add_mset ?b ?M) X"
    using s d(2) by (intro add_view [of ?st ?M ?b X ?d]) (simp_all add: view_ok_def b_ok_def phys_end_def)
  moreover have "contents ?st ?b = contents st b" using d(1) by (simp add: contents_def)
  ultimately show ?thesis using s d(1) by (simp add: b_copy_def)
qed

lemma recommended_ok [simp]: "store_ok (st\<lparr>st_recommendedStart := x\<rparr>) M X = store_ok st M X"
  by (rule store_ok_cong) simp_all

lemma same_storage_recommended [simp]:
  "same_storage (st\<lparr>st_recommendedStart := x\<rparr>) st' Q = same_storage st st' Q"
  "same_storage st (st'\<lparr>st_recommendedStart := x\<rparr>) Q = same_storage st st' Q"
  by (simp_all add: same_storage_def)

lemma contents_recommended [simp]: "contents (st\<lparr>st_recommendedStart := x\<rparr>) b = contents st b"
  by (simp add: contents_def)

lemma destroy_ok:
  assumes "store_ok st (add_mset b R) X"
  shows "\<exists>st'. b_destroy b st = Some st' \<and> store_ok st' R X \<and>
    same_storage st st' (set_mset (holders R X))"
  using release_ok [of "st\<lparr>st_recommendedStart := max (st_recommendedStart st) (b_maxZeroAreaStart b)\<rparr>" R "b_data b" X]
    drop_view [OF assms] by (simp add: b_destroy_def)

text \<open>Assigning another live buffer \<open>o'\<close> makes \<open>b\<close> a second copy of it.\<close>

lemma assign_ok:
  assumes ok: "store_ok st (add_mset b (add_mset o' R)) X"
    and few: "size (holders (add_mset b (add_mset o' R)) X) + 1 < 2 ^ 32"
  shows "\<exists>st'. b_assign b o' st = Some (o', st') \<and> store_ok st' (add_mset o' (add_mset o' R)) X \<and>
    same_storage st st' (set_mset (holders (add_mset o' R) X))"
proof (cases "b_data b = b_data o'")
  case True
  have "store_ok st (add_mset o' R) (add_mset (b_data o') X)"
    using drop_view [OF ok] True by simp
  moreover obtain d where d: "st_data st (b_data o') = Some d" "view_ok d o'"
    using store_okD(1) [OF ok, of o'] by auto
  moreover have "dirty_end_ok d (views (add_mset o' R) (b_data o'))"
    using store_okD(2) [OF ok d(1)] by (auto simp: data_ok_def views_add elim: dirty_end_ok_mono)
  ultimately have "store_ok st (add_mset o' (add_mset o' R)) X"
    by (intro add_view [of st "add_mset o' R" o' X d]) (simp_all add: views_add)
  moreover have "same_storage st st (set_mset (holders (add_mset o' R) X))"
    using holders_data [OF ok] by (intro same_storage_refl) auto
  ultimately show ?thesis using True by (simp add: b_assign_def)
next
  case False
  have "store_ok st (add_mset o' R) (add_mset (b_data b) X)" by (rule drop_view [OF ok])
  from release_ok [OF this] obtain st1 where st1: "st_release (b_data b) st = Some st1"
    "store_ok st1 (add_mset o' R) X" "same_storage st st1 (set_mset (holders (add_mset o' R) X))" by blast
  from copy_ok [OF st1(2)] few obtain st2 b' where c: "b_copy o' st1 = Some (b', st2)"
    "store_ok st2 (add_mset b' (add_mset o' R)) X"
    "same_storage st1 st2 (set_mset (holders (add_mset o' R) X))" by auto
  then have "st_data st1 (b_data o') \<noteq> None" by (auto simp: b_copy_def bind_eq_Some_conv)
  then obtain d where d: "st_data st1 (b_data o') = Some d" by auto
  with c(1) have st2: "st2 = set_data (b_data o') (d\<lparr>d_count := d_count d + 1\<rparr>) st1"
    and b': "b' = o'\<lparr>b_maxZeroAreaStart := b_zeroAreaStart o'\<rparr>" by (auto simp: b_copy_def)
  have "store_ok st2 (add_mset (b'\<lparr>b_maxZeroAreaStart := b_maxZeroAreaStart o'\<rparr>) (add_mset o' R)) X"
    by (rule store_ok_note [OF c(2)])
  moreover have "b'\<lparr>b_maxZeroAreaStart := b_maxZeroAreaStart o'\<rparr> = o'" by (simp add: b')
  ultimately show ?thesis
    using False st1(1) d st2 same_storage_trans [OF st1(3) c(3)] by (simp add: b_assign_def)
qed

end
