(* ===== verification/Buffer_Refinement.thy ===== *)
theory Buffer_Refinement
  imports Buffer_Ops Buffer_Access
begin

text \<open>
  Buffers as values: writing through an iterator, the operations that copy bytes, and the
  refinement of a list of byte strings by the live buffers, which share their storage.
\<close>

section \<open>Writing to a live buffer\<close>

definition keeps :: "store \<Rightarrow> store \<Rightarrow> buffer multiset \<Rightarrow> bool" where
  "keeps st st' R \<longleftrightarrow> (\<forall>b\<in>#R. contents st' b = contents st b)"

lemma keeps_refl [simp]: "keeps st st R"
  by (simp add: keeps_def)

lemma keeps_trans: "keeps st1 st2 R \<Longrightarrow> keeps st2 st3 R \<Longrightarrow> keeps st1 st3 R"
  by (simp add: keeps_def)

lemma keeps_add [simp]: "keeps st st' (add_mset b R) \<longleftrightarrow> contents st' b = contents st b \<and> keeps st st' R"
  by (simp add: keeps_def)

lemma same_bytes_keeps: "same_bytes st st' (set_mset (holders R X)) \<Longrightarrow> keeps st st' R"
  unfolding keeps_def by (auto intro: same_bytes_contents)

lemma same_storage_keeps: "same_storage st st' (set_mset (holders R X)) \<Longrightarrow> keeps st st' R"
  by (intro same_bytes_keeps same_storage_bytes)

lemma view_below:
  assumes "b_ok b" and "phys_end b \<le> k" and "take k bs' = take k bs"
  shows "b_bytes bs' b = b_bytes bs b"
proof -
  obtain s a c t where o: "at_offsets b s a c t" using assms(1) b_ok_offsets by blast
  note v = at_offsets_view [OF o]
  have "take (a + t) (drop s (take k bs')) = take (a + t) (drop s (take k bs))" using assms(3) by simp
  then have "take (a + t) (drop s bs') = take (a + t) (drop s bs)"
    using assms(2) v(2) by (simp add: drop_take min_absorb1)
  then show ?thesis unfolding v(3) by (rule view_bytes_shift)
qed

lemma view_above:
  assumes "b_ok b" and "k \<le> unat (b_start b)" and "drop k bs' = drop k bs"
  shows "b_bytes bs' b = b_bytes bs b"
proof -
  obtain s a c t where o: "at_offsets b s a c t" using assms(1) b_ok_offsets by blast
  note v = at_offsets_view [OF o]
  have s: "unat (b_start b) = s" using o by (simp add: at_offsets_def)
  have "drop (s - k) (drop k bs') = drop (s - k) (drop k bs)" using assms(3) by simp
  then have "drop s bs' = drop s bs" using assms(2) s by simp
  then show ?thesis unfolding v(3) by (intro view_bytes_shift) simp
qed

lemma write_bytes_ok:
  assumes ok: "store_ok st (add_mset b R) X" and d: "st_data st (b_data b) = Some d"
    and len: "length bs' = length (d_bytes d)"
    and same: "\<And>x. x \<in> views R (b_data b) \<Longrightarrow> b_ok x \<Longrightarrow> b_bytes bs' x = b_bytes (d_bytes d) x"
  shows "store_ok (set_data (b_data b) (d\<lparr>d_bytes := bs'\<rparr>) st) (add_mset b R) X \<and>
    keeps st (set_data (b_data b) (d\<lparr>d_bytes := bs'\<rparr>) st) R"
proof
  have l: "length (d_bytes d) = unat (d_size d)" using store_okD(2) [OF ok d] by (simp add: data_ok_def)
  have v: "view_ok d x" if "x \<in> views (add_mset b R) (b_data b)" for x
    using store_okD(1) [OF ok, of x] that d by (auto simp: views_def)
  have "dirty_end_ok d (views (add_mset b R) (b_data b))"
    using store_okD(2) [OF ok d] by (simp add: data_ok_def)
  then show "store_ok (set_data (b_data b) (d\<lparr>d_bytes := bs'\<rparr>) st) (add_mset b R) X"
    by (intro store_ok_set_data [OF ok d]) (use v l len in \<open>auto simp: view_ok_def dirty_end_ok_def\<close>)
  show "keeps st (set_data (b_data b) (d\<lparr>d_bytes := bs'\<rparr>) st) R"
    unfolding keeps_def
  proof
    fix x assume x: "x \<in># R"
    show "contents (set_data (b_data b) (d\<lparr>d_bytes := bs'\<rparr>) st) x = contents st x"
    proof (cases "b_data x = b_data b")
      case True
      then have "x \<in> views R (b_data b)" using x by (simp add: views_def)
      moreover from this have "b_ok x" using v by (auto simp: views_def view_ok_def)
      ultimately show ?thesis using True d same by (simp add: contents_def)
    qed (simp add: contents_def)
  qed
qed

lemma split_at:
  assumes "p + n \<le> length bs"
  obtains A B C where "bs = A @ B @ C" "length A = p" "length B = n"
  using that [of "take p bs" "take n (drop p bs)" "drop (p + n) bs"] assms
  by (simp add: add.commute flip: drop_drop)

lemma put_split: "length A = p \<Longrightarrow> length B = length xs \<Longrightarrow> put (A @ B @ C) p xs = A @ xs @ C"
  by (simp add: put_def)

lemma put_start_view:
  assumes "s + n \<le> length bs" "length xs = n" "n \<le> a"
  shows "view_bytes (put bs s xs) s (s + a) (s + a + c) (s + a + c + t) =
    xs @ drop n (view_bytes bs s (s + a) (s + a + c) (s + a + c + t))"
proof -
  obtain A B C where bs: "bs = A @ B @ C" "length A = s" "length B = n" using assms(1) by (rule split_at)
  have "put bs s xs = A @ xs @ C" unfolding bs(1) using bs assms by (intro put_split) simp_all
  then show ?thesis using assms(2,3) bs unfolding view_parts by simp
qed

lemma put_end_view:
  assumes "s + a + t \<le> length bs" "length xs = n" "n \<le> t"
  shows "view_bytes (put bs (s + a + t - n) xs) s (s + a) (s + a + c) (s + a + c + t) =
    take (a + c + t - n) (view_bytes bs s (s + a) (s + a + c) (s + a + c + t)) @ xs"
proof -
  obtain u where t: "t = u + n" using assms(3) by (metis add.commute le_Suc_ex)
  have "(s + a + u) + n \<le> length bs" using assms(1) t by simp
  then obtain A B C where bs: "bs = A @ B @ C" "length A = s + a + u" "length B = n" by (rule split_at)
  have "put bs (s + a + t - n) xs = A @ xs @ C"
    unfolding bs(1) using bs assms t by (intro put_split) simp_all
  then show ?thesis using assms(2) bs t unfolding view_parts by simp
qed

text \<open>
  Writing to the bytes that \<open>AddAtStart\<close> or \<open>AddAtEnd\<close> added: no other buffer uses them.
\<close>

lemma write_start_ok:
  assumes ok: "store_ok st (add_mset b R) X" and o: "at_offsets b s a c t" and n: "length xs \<le> a"
    and fresh: "fresh_start R b (length xs)" and it: "it_data it = b_data b"
    and w: "\<And>bs. s + length xs \<le> length bs \<Longrightarrow> \<exists>it'. w (bs, it) = Some (put bs s xs, it')"
  shows "\<exists>st'. write_at it w st = Some st' \<and> store_ok st' (add_mset b R) X \<and>
    contents st' b = xs @ drop (length xs) (contents st b) \<and> keeps st st' R"
proof -
  obtain d where d: "st_data st (b_data b) = Some d" "view_ok d b" "length (d_bytes d) = unat (d_size d)"
    using store_okD(1) [OF ok, of b] store_okD(2) [OF ok] by (auto simp: data_ok_def)
  have room: "s + a + t \<le> length (d_bytes d)" using d at_offsets_view(2) [OF o] by (simp add: view_ok_def)
  then obtain it' where w': "w (d_bytes d, it) = Some (put (d_bytes d) s xs, it')" using w [of "d_bytes d"] n by auto
  let ?st = "set_data (b_data b) (d\<lparr>d_bytes := put (d_bytes d) s xs\<rparr>) st"
  have "b_bytes (put (d_bytes d) s xs) x = b_bytes (d_bytes d) x" if "x \<in> views R (b_data b)" "b_ok x" for x
  proof (rule view_above [OF that(2)])
    show "s + length xs \<le> unat (b_start x)" using fresh that(1) o by (simp add: fresh_start_def at_offsets_def)
    show "drop (s + length xs) (put (d_bytes d) s xs) = drop (s + length xs) (d_bytes d)"
      using room by (intro drop_put) simp_all
  qed
  then have s: "store_ok ?st (add_mset b R) X \<and> keeps st ?st R"
    using room n by (intro write_bytes_ok [OF ok d(1)]) simp_all
  moreover have "contents ?st b = xs @ drop (length xs) (contents st b)"
    using put_start_view [of s "length xs" "d_bytes d" xs a c t] room n d(1) at_offsets_view(3) [OF o]
    by (simp add: contents_def)
  moreover have "write_at it w st = Some ?st" using d(1) it w' by (simp add: write_at_def)
  ultimately show ?thesis by blast
qed

lemma write_end_ok:
  assumes ok: "store_ok st (add_mset b R) X" and o: "at_offsets b s a c t" and n: "length xs \<le> t"
    and fresh: "fresh_end R b (length xs)" and it: "it_data it = b_data b"
    and w: "\<And>bs. s + a + t \<le> length bs \<Longrightarrow> \<exists>it'. w (bs, it) = Some (put bs (s + a + t - length xs) xs, it')"
  shows "\<exists>st'. write_at it w st = Some st' \<and> store_ok st' (add_mset b R) X \<and>
    contents st' b = take (length (contents st b) - length xs) (contents st b) @ xs \<and> keeps st st' R"
proof -
  obtain d where d: "st_data st (b_data b) = Some d" "view_ok d b" "length (d_bytes d) = unat (d_size d)"
    using store_okD(1) [OF ok, of b] store_okD(2) [OF ok] by (auto simp: data_ok_def)
  have pe: "phys_end b = s + a + t" by (rule at_offsets_view(2) [OF o])
  have room: "s + a + t \<le> length (d_bytes d)" using d pe by (simp add: view_ok_def)
  let ?p = "s + a + t - length xs"
  obtain it' where w': "w (d_bytes d, it) = Some (put (d_bytes d) ?p xs, it')" using w [OF room] by blast
  let ?st = "set_data (b_data b) (d\<lparr>d_bytes := put (d_bytes d) ?p xs\<rparr>) st"
  have "b_bytes (put (d_bytes d) ?p xs) x = b_bytes (d_bytes d) x" if "x \<in> views R (b_data b)" "b_ok x" for x
  proof (rule view_below [OF that(2)])
    show "phys_end x \<le> ?p" using fresh that(1) pe by (auto simp: fresh_end_def)
    show "take ?p (put (d_bytes d) ?p xs) = take ?p (d_bytes d)"
      using room by (intro take_put) simp_all
  qed
  then have s: "store_ok ?st (add_mset b R) X \<and> keeps st ?st R"
    using room n by (intro write_bytes_ok [OF ok d(1)]) simp_all
  have con: "contents st b = view_bytes (d_bytes d) s (s + a) (s + a + c) (s + a + c + t)"
    using d(1) at_offsets_view(3) [OF o] by (simp add: contents_def)
  then have "length (contents st b) = a + c + t" using room by (simp add: length_view_bytes)
  then have "contents ?st b = take (length (contents st b) - length xs) (contents st b) @ xs"
    using put_end_view [of s a t "d_bytes d" xs "length xs" c] room n con at_offsets_view(3) [OF o]
    by (simp add: contents_def)
  moreover have "write_at it w st = Some ?st" using d(1) it w' by (simp add: write_at_def)
  ultimately show ?thesis using s by blast
qed

text \<open>A writer that stores \<open>xs\<close> wherever the iterator's bytes lie together.\<close>

definition stores :: "(u8 list \<times> iterator \<Rightarrow> (u8 list \<times> iterator) option) \<Rightarrow> u8 list \<Rightarrow> bool" where
  "stores w xs \<longleftrightarrow> (\<forall>bs it p. it_at it (length xs) p \<longrightarrow> p + length xs \<le> length bs \<longrightarrow>
     (\<exists>it'. w (bs, it) = Some (put bs p xs, it')))"

lemma stores_Write: "length xs = unat n \<Longrightarrow> stores (it_Write xs n) xs"
  by (auto simp: stores_def Write_at)

lemma stores_FillU8: "stores (it_FillU8 x n) (replicate (unat n) x)"
  by (auto simp: stores_def FillU8_at)

lemma stores_WriteBytes: "stores (it_WriteBytes xs) xs"
  by (auto simp: stores_def WriteBytes_at)

lemma add_write_start:
  assumes ok: "store_ok st (add_mset b R) X" and len: "length (contents st b) + unat n \<le> 2 ^ 30"
    and xs: "length xs = unat n" "stores w xs"
  shows "\<exists>b' st1 st2. b_AddAtStart n b st = Some (b', st1) \<and> write_at (b_Begin b') w st1 = Some st2 \<and>
    (b_data b' = b_data b \<or> b_data b' \<notin># holders R X) \<and>
    store_ok st1 (add_mset b' R) X \<and> keeps st st1 R \<and>
    store_ok st2 (add_mset b' R) X \<and> keeps st st2 R \<and> contents st2 b' = xs @ contents st b \<and>
    (\<forall>s a c t. at_offsets b s a c t \<longrightarrow> (\<exists>s'. at_offsets b' s' (unat n + a) c t))"
proof -
  from AddAtStart_ok [OF ok len] obtain b' st1 ys where 1: "b_AddAtStart n b st = Some (b', st1)"
    "store_ok st1 (add_mset b' R) X" "contents st1 b' = ys @ contents st b" "length ys = unat n"
    "same_bytes st st1 (set_mset (holders R X))" "fresh_start R b' (unat n)" "b_data b' = b_data b \<or> b_data b' \<notin># holders R X"
    "\<forall>s a c t. at_offsets b s a c t \<longrightarrow> (\<exists>s'. at_offsets b' s' (unat n + a) c t)" by blast
  obtain s a c t where "at_offsets b s a c t" using view_data [OF ok] by metis
  with 1(8) obtain s' where o: "at_offsets b' s' (unat n + a) c t" by blast
  have "\<exists>st2. write_at (b_Begin b') w st1 = Some st2 \<and> store_ok st2 (add_mset b' R) X \<and>
    contents st2 b' = xs @ drop (length xs) (contents st1 b') \<and> keeps st1 st2 R"
  proof (rule write_start_ok [OF 1(2) o])
    show "\<exists>it'. w (bs, b_Begin b') = Some (put bs s' xs, it')" if "s' + length xs \<le> length bs" for bs
      using xs that it_at_begin [OF o, of "length xs"] by (simp add: stores_def)
  qed (use xs 1(6) in \<open>simp_all add: b_Begin_def\<close>)
  then obtain st2 where "write_at (b_Begin b') w st1 = Some st2" "store_ok st2 (add_mset b' R) X"
    "contents st2 b' = xs @ contents st b" "keeps st1 st2 R" using 1(3,4) xs(1) by auto
  moreover have k: "keeps st st1 R" by (rule same_bytes_keeps [OF 1(5)])
  ultimately show ?thesis using 1(1,2,7,8) keeps_trans [OF k] by blast
qed

lemma add_write_end:
  assumes ok: "store_ok st (add_mset b R) X" and len: "length (contents st b) + unat n \<le> 2 ^ 30"
    and xs: "length xs = unat n" "stores w xs"
  shows "\<exists>b' st1 it st2. b_AddAtEnd n b st = Some (b', st1) \<and> it_Prev n (b_End b') = Some it \<and>
    write_at it w st1 = Some st2 \<and> it_data it = b_data b' \<and>
    (b_data b' = b_data b \<or> b_data b' \<notin># holders R X) \<and>
    store_ok st1 (add_mset b' R) X \<and> keeps st st1 R \<and>
    store_ok st2 (add_mset b' R) X \<and> keeps st st2 R \<and> contents st2 b' = contents st b @ xs \<and>
    (\<forall>s a c t. at_offsets b s a c t \<longrightarrow> (\<exists>s'. at_offsets b' s' a c (t + unat n)))"
proof -
  from AddAtEnd_ok [OF ok len] obtain b' st1 ys where 1: "b_AddAtEnd n b st = Some (b', st1)"
    "store_ok st1 (add_mset b' R) X" "contents st1 b' = contents st b @ ys" "length ys = unat n"
    "same_bytes st st1 (set_mset (holders R X))" "fresh_end R b' (unat n)" "b_data b' = b_data b \<or> b_data b' \<notin># holders R X"
    "\<forall>s a c t. at_offsets b s a c t \<longrightarrow> (\<exists>s'. at_offsets b' s' a c (t + unat n))" by blast
  obtain s a c t where "at_offsets b s a c t" using view_data [OF ok] by metis
  with 1(8) obtain s' where o: "at_offsets b' s' a c (t + unat n)" by blast
  obtain it where it: "it_Prev n (b_End b') = Some it" "it_data it = b_data b'"
    "it_at it (unat n) (s' + a + (t + unat n) - unat n)" using it_at_end [OF o, of n] by auto
  have "\<exists>st2. write_at it w st1 = Some st2 \<and> store_ok st2 (add_mset b' R) X \<and>
    contents st2 b' = take (length (contents st1 b') - length xs) (contents st1 b') @ xs \<and> keeps st1 st2 R"
    by (rule write_end_ok [OF 1(2) o]) (use xs 1(6) it in \<open>auto simp: stores_def\<close>)
  then obtain st2 where "write_at it w st1 = Some st2" "store_ok st2 (add_mset b' R) X"
    "contents st2 b' = contents st b @ xs" "keeps st1 st2 R" using 1(3,4) xs(1) by auto
  moreover have k: "keeps st st1 R" by (rule same_bytes_keeps [OF 1(5)])
  ultimately show ?thesis using 1(1,2,7,8) it(1,2) keeps_trans [OF k] by blast
qed

section \<open>Creating and copying the bytes\<close>

lemma Initialize_ok:
  assumes ok: "store_ok st M X" and z: "unat zs \<le> 2 ^ 30"
  shows "\<exists>b st' s. b_Initialize zs st = Some (b, st') \<and> store_ok st' (add_mset b M) X \<and>
    keeps st st' M \<and> contents st' b = replicate (unat zs) 0 \<and> at_offsets b s 0 (unat zs) 0 \<and>
    b_data b \<notin># holders M X"
proof -
  from Create_ok [OF ok, of 0] obtain r st1 where c: "st_Create 0 st = Some (r, st1)" "got st 0 M X r st1"
    by auto
  then have ok1: "store_ok st1 M (add_mset r X)" and r: "r \<notin># holders M X"
    and s1: "same_storage st st1 (set_mset (holders M X))" by (auto simp: got_def)
  obtain d where d: "st_data st1 r = Some d" using c(2) by (auto simp: got_def)
  have sz: "unat (d_size d) \<le> 2 ^ 30 + 101" using store_okD(2) [OF ok1 d] by (simp add: data_ok_def)
  let ?s = "min (d_size d) (st_recommendedStart st1)"
  have s: "unat ?s \<le> unat (d_size d)" by (simp add: min_def word_le_nat_alt)
  have e: "unat (?s + zs) = unat ?s + unat zs" using s sz z by (subst unat_add_no_wrap) simp_all
  let ?b = "\<lparr>b_data = r, b_maxZeroAreaStart = ?s, b_zeroAreaStart = ?s, b_zeroAreaEnd = ?s + zs,
    b_start = ?s, b_end = ?s + zs\<rparr>"
  have o: "at_offsets ?b (unat ?s) 0 (unat zs) 0" using e by (simp add: at_offsets_def)
  from adopt_ok [OF ok1 r d _ o] s obtain st2 where a: "set_dirty ?b st1 = Some st2"
    "store_ok st2 (add_mset ?b M) X" "same_storage st1 st2 (set_mset (holders M X))"
    "contents st2 ?b = view_bytes (d_bytes d) (unat ?s) (unat ?s) (unat ?s + unat zs) (unat ?s + unat zs)"
    by auto
  have "b_Initialize zs st = Some (?b, st2)"
    using c(1) d a(1) by (simp add: b_Initialize_def set_dirty_def Let_def)
  moreover have "keeps st st2 M" using same_storage_trans [OF s1 a(3)] by (rule same_storage_keeps)
  moreover have "contents st2 ?b = replicate (unat zs) 0" unfolding a(4) by (simp add: view_bytes_def)
  moreover have "b_data ?b \<notin># holders M X" using r by simp
  ultimately show ?thesis using a(2) o by blast
qed

text \<open>What lies in the storage of a live buffer.\<close>

lemma slices_of_contents:
  assumes ok: "store_ok st (add_mset b R) X" and o: "at_offsets b s a c t"
  shows "\<exists>d. st_data st (b_data b) = Some d \<and>
    mem_slice (d_bytes d) (b_start b) (b_zeroAreaStart b - b_start b) = Some (take a (contents st b)) \<and>
    mem_slice (d_bytes d) (b_zeroAreaStart b) (b_end b - b_zeroAreaEnd b) = Some (drop (a + c) (contents st b)) \<and>
    length (contents st b) = a + c + t \<and> take c (drop a (contents st b)) = replicate c 0"
proof -
  obtain d s' a' c' t' where d: "st_data st (b_data b) = Some d" "at_offsets b s' a' c' t'"
    "s' + a' + t' \<le> length (d_bytes d)"
    "contents st b = view_bytes (d_bytes d) s' (s' + a') (s' + a' + c') (s' + a' + c' + t')"
    "length (contents st b) = a' + c' + t'" by (rule view_data [OF ok])
  have eq: "s' = s" "a' = a" "c' = c" "t' = t" using o d(2) by (simp_all add: at_offsets_def)
  have u: "unat (b_start b) = s" "unat (b_zeroAreaStart b) = s + a"
     "unat (b_zeroAreaEnd b) = s + a + c" "unat (b_end b) = s + a + c + t"
    using o by (simp_all add: at_offsets_def)
  have l: "unat (b_zeroAreaStart b - b_start b) = a" "unat (b_end b - b_zeroAreaEnd b) = t"
    using u by (simp_all add: unat_sub word_le_nat_alt)
  have con: "contents st b = take a (drop s (d_bytes d)) @ replicate c 0 @ take t (drop (s + a) (d_bytes d))"
    unfolding d(4) eq view_parts ..
  have "length (take a (drop s (d_bytes d))) = a" using d(3) eq by simp
  then have "take a (contents st b) = take a (drop s (d_bytes d))"
    "drop (a + c) (contents st b) = take t (drop (s + a) (d_bytes d))"
    "take c (drop a (contents st b)) = replicate c 0" unfolding con by simp_all
  moreover have "mem_slice (d_bytes d) (b_start b) (b_zeroAreaStart b - b_start b) = Some (take a (drop s (d_bytes d)))"
    using d(3) eq u l by (auto simp: mem_slice_def unat_eq_0 [symmetric])
  moreover have "mem_slice (d_bytes d) (b_zeroAreaStart b) (b_end b - b_zeroAreaEnd b) =
      Some (take t (drop (s + a) (d_bytes d)))"
    using d(3) eq u l by (auto simp: mem_slice_def unat_eq_0 [symmetric])
  ultimately show ?thesis using d(1,5) eq by simp
qed

lemma CreateFullCopy_ok:
  assumes ok: "store_ok st (add_mset b R) X" and few: "size (holders (add_mset b R) X) + 1 < 2 ^ 32"
    and len: "length (contents st b) \<le> 2 ^ 30"
  shows "\<exists>b' st'. b_CreateFullCopy b st = Some (b', st') \<and> store_ok st' (add_mset b' (add_mset b R)) X \<and>
    keeps st st' (add_mset b R) \<and> contents st' b' = contents st b \<and> (\<exists>s a t. at_offsets b' s a 0 t) \<and>
    (b_data b' = b_data b \<or> b_data b' \<notin># holders (add_mset b R) X)"
proof -
  obtain s a c t where o: "at_offsets b s a c t" using view_data [OF ok] by metis
  have u: "unat (b_start b) = s" "unat (b_zeroAreaStart b) = s + a"
     "unat (b_zeroAreaEnd b) = s + a + c" "unat (b_end b) = s + a + c + t"
    using o by (simp_all add: at_offsets_def)
  let ?zl = "b_zeroAreaEnd b - b_zeroAreaStart b" and ?al = "b_zeroAreaStart b - b_start b"
    and ?tl = "b_end b - b_zeroAreaEnd b"
  have l: "unat ?zl = c" "unat ?al = a" "unat ?tl = t"
    using u by (simp_all add: unat_sub word_le_nat_alt)
  show ?thesis
  proof (cases "?zl = 0")
    case True
    then have c: "c = 0" using l(1) by simp
    from copy_ok [OF ok few] obtain b' st' where 1: "b_copy b st = Some (b', st')"
      "store_ok st' (add_mset b' (add_mset b R)) X"
      "same_storage st st' (set_mset (holders (add_mset b R) X))" "contents st' b' = contents st b"
      "b_data b' = b_data b" by blast
    have "at_offsets b' s a 0 t" using 1(1) o c by (auto simp: b_copy_def bind_eq_Some_conv at_offsets_def)
    then show ?thesis using 1 True same_storage_keeps [OF 1(3)] by (auto simp: b_CreateFullCopy_def)
  next
    case False
    let ?M = "add_mset b R" and ?xs = "contents st b"
    have xs: "length ?xs = a + c + t" "take c (drop a ?xs) = replicate c 0"
      using slices_of_contents [OF ok o] by auto
    have slices: "mem_slice (d_bytes d) (b_start b) ?al = Some (take a ?xs) \<and>
        mem_slice (d_bytes d) (b_zeroAreaStart b) ?tl = Some (drop (a + c) ?xs)"
      if "store_ok st' (add_mset b' ?M) X" "keeps st st' ?M" "st_data st' (b_data b) = Some d" for st' b' d
    proof -
      have "store_ok st' (add_mset b (add_mset b' R)) X" using that(1) by (simp add: add_mset_commute)
      from slices_of_contents [OF this o] that(2,3) show ?thesis by simp
    qed
    have data: "\<exists>d. st_data st' (b_data b) = Some d" if "store_ok st' (add_mset b' ?M) X" for st' b'
      using store_okD(1) [OF that, of b] by auto
    from Initialize_ok [OF ok, of 0] obtain t1 s1 p1 where 1: "b_Initialize 0 st = Some (t1, s1)"
      "store_ok s1 (add_mset t1 ?M) X" "keeps st s1 ?M" "contents s1 t1 = []" "at_offsets t1 p1 0 0 0"
      "b_data t1 \<notin># holders ?M X" by auto
    have lz: "length (contents s1 t1) + unat ?zl \<le> 2 ^ 30" "length (replicate (unat ?zl) (0 :: u8)) = unat ?zl"
      using len xs(1) l(1) by (simp_all add: 1(4))
    from add_write_start [OF 1(2) lz stores_FillU8, unfolded l] obtain t2 s2 s3 where 2: "b_AddAtStart ?zl t1 s1 = Some (t2, s2)"
      "write_at (b_Begin t2) (it_FillU8 0 ?zl) s2 = Some s3" "store_ok s3 (add_mset t2 ?M) X"
      "keeps s1 s3 ?M" "contents s3 t2 = replicate c 0 @ contents s1 t1"
      "\<forall>s a c' t. at_offsets t1 s a c' t \<longrightarrow> (\<exists>s'. at_offsets t2 s' (c + a) c' t)"
      "b_data t2 = b_data t1 \<or> b_data t2 \<notin># holders ?M X" by blast
    from 2(6) 1(5) obtain p2 where o2: "at_offsets t2 p2 c 0 0" by fastforce
    have la: "length (contents s3 t2) + unat ?al \<le> 2 ^ 30" "length (take a ?xs) = unat ?al"
      using len xs(1) l(2) by (simp_all add: 2(5) 1(4))
    from add_write_start [OF 2(3) la stores_Write [OF la(2)], unfolded l] obtain t3 s4 s5 where 3: "b_AddAtStart ?al t2 s3 = Some (t3, s4)"
      "write_at (b_Begin t3) (it_Write (take a ?xs) ?al) s4 = Some s5" "store_ok s4 (add_mset t3 ?M) X"
      "keeps s3 s4 ?M" "store_ok s5 (add_mset t3 ?M) X" "keeps s3 s5 ?M"
      "contents s5 t3 = take a ?xs @ contents s3 t2"
      "\<forall>s a' c t. at_offsets t2 s a' c t \<longrightarrow> (\<exists>s'. at_offsets t3 s' (a + a') c t)"
      "b_data t3 = b_data t2 \<or> b_data t3 \<notin># holders ?M X" by blast
    from 3(8) o2 obtain p3 where o3: "at_offsets t3 p3 (a + c) 0 0" by fastforce
    have k3: "keeps st s3 ?M" "keeps st s4 ?M" "keeps st s5 ?M"
      using keeps_trans [OF 1(3) 2(4)] keeps_trans [OF keeps_trans [OF 1(3) 2(4)]] 3(4,6) by blast+
    have lt: "length (contents s5 t3) + unat ?tl \<le> 2 ^ 30" "length (drop (a + c) ?xs) = unat ?tl"
      using len xs(1) l(3) by (simp_all add: 3(7) 2(5) 1(4))
    from add_write_end [OF 3(5) lt stores_Write [OF lt(2)], unfolded l] obtain t4 s6 i s7 where 4: "b_AddAtEnd ?tl t3 s5 = Some (t4, s6)" "it_Prev ?tl (b_End t4) = Some i"
      "write_at i (it_Write (drop (a + c) ?xs) ?tl) s6 = Some s7" "store_ok s6 (add_mset t4 ?M) X"
      "keeps s5 s6 ?M" "store_ok s7 (add_mset t4 ?M) X" "keeps s5 s7 ?M"
      "contents s7 t4 = contents s5 t3 @ drop (a + c) ?xs"
      "\<forall>s a c t'. at_offsets t3 s a c t' \<longrightarrow> (\<exists>s'. at_offsets t4 s' a c (t' + t))"
      "b_data t4 = b_data t3 \<or> b_data t4 \<notin># holders ?M X" by blast
    from 4(9) o3 obtain p4 where o4: "at_offsets t4 p4 (a + c) 0 t" by fastforce
    have k4: "keeps st s6 ?M" "keeps st s7 ?M" using keeps_trans [OF k3(3)] 4(5,7) by blast+
    obtain d4 d6 where d: "st_data s4 (b_data b) = Some d4" "st_data s6 (b_data b) = Some d6"
      using data [OF 3(3)] data [OF 4(4)] by auto
    have "b_CreateFullCopy b st = Some (t4, s7)"
      using False 1(1) 2(1,2) 3(1,2) 4(1,2,3) d slices [OF 3(3) k3(2) d(1)] slices [OF 4(4) k4(1) d(2)]
      by (simp add: b_CreateFullCopy_def Let_def)
    moreover have "contents s7 t4 = ?xs"
      unfolding 4(8) 3(7) 2(5) 1(4) using xs(2) append_take_drop_id [of a ?xs] append_take_drop_id [of c "drop a ?xs"]
      by (simp add: add.commute)
    moreover have "b_data t4 \<notin># holders ?M X" using 1(6) 2(7) 3(9) 4(10) by metis
    ultimately show ?thesis using 4(6) k4(2) o4 by blast
  qed
qed

lemma TransformIntoRealBuffer_ok:
  assumes ok: "store_ok st (add_mset b R) X" and few: "size (holders (add_mset b R) X) + 2 < 2 ^ 32"
    and len: "length (contents st b) \<le> 2 ^ 30"
  shows "\<exists>b' st'. b_TransformIntoRealBuffer b st = Some (b', st') \<and> store_ok st' (add_mset b' R) X \<and>
    keeps st st' R \<and> contents st' b' = contents st b \<and> (\<exists>s a t. at_offsets b' s a 0 t) \<and>
    (b_data b' = b_data b \<or> b_data b' \<notin># holders (add_mset b R) X)"
proof -
  have "size (holders (add_mset b R) X) + 1 < 2 ^ 32" using few by simp
  from CreateFullCopy_ok [OF ok this len] obtain t st1 where 0: "b_CreateFullCopy b st = Some (t, st1)"
    "store_ok st1 (add_mset t (add_mset b R)) X" "keeps st st1 (add_mset b R)" "contents st1 t = contents st b"
    "\<exists>s a u. at_offsets t s a 0 u" and fr: "b_data t = b_data b \<or> b_data t \<notin># holders (add_mset b R) X" by blast
  then have 1: "b_CreateFullCopy b st = Some (t, st1)" "store_ok st1 (add_mset b (add_mset t R)) X"
    "keeps st st1 (add_mset b R)" "contents st1 t = contents st b" "\<exists>s a u. at_offsets t s a 0 u"
    by (simp_all add: add_mset_commute)
  from assign_ok [OF 1(2)] few obtain st2 where 2: "b_assign b t st1 = Some (t, st2)"
    "store_ok st2 (add_mset t (add_mset t R)) X" "same_storage st1 st2 (set_mset (holders (add_mset t R) X))"
    by auto
  from destroy_ok [OF 2(2)] obtain st3 where 3: "b_destroy t st2 = Some st3" "store_ok st3 (add_mset t R) X"
    "same_storage st2 st3 (set_mset (holders (add_mset t R) X))" by blast
  have "keeps st1 st3 (add_mset t R)"
    using keeps_trans [OF same_storage_keeps [OF 2(3)] same_storage_keeps [OF 3(3)]] .
  then have "contents st3 t = contents st b" "keeps st st3 R"
    using 1(3,4) keeps_trans [of st st1 R st3] by simp_all
  moreover have "b_TransformIntoRealBuffer b st = Some (t, st3)"
    using 1(1) 2(1) 3(1) by (simp add: b_TransformIntoRealBuffer_def)
  ultimately show ?thesis using 1(5) 3(2) fr by blast
qed

section \<open>Copying the bytes out\<close>

lemma zeroes_out_eq: "zeroes_out n = replicate (unat n) 0"
proof (induction n rule: zeroes_out.induct)
  case (1 n)
  show ?case
  proof (cases "n > 0")
    case True
    have m: "min n 1000 \<le> n" "unat (min n 1000) \<le> unat n" by (simp_all add: min_def word_le_nat_alt)
    have "zeroes_out n = replicate (unat (min n 1000)) 0 @ replicate (unat (n - min n 1000)) 0"
      using True 1 by (subst zeroes_out.simps) (simp add: Let_def)
    also have "\<dots> = replicate (unat n) 0" using m by (simp add: unat_sub flip: replicate_add)
    finally show ?thesis .
  next
    case False
    then show ?thesis by (subst zeroes_out.simps) (simp add: word_gt_0)
  qed
qed

lemma mem_sliceI:
  "unat i + unat n \<le> length bs \<Longrightarrow> mem_slice bs i n = Some (take (unat n) (drop (unat i) bs))"
  by (simp add: mem_slice_def)

lemma CopyData_ok:
  assumes ok: "store_ok st (add_mset b R) X"
  shows "\<exists>k. b_CopyData n b st = Some (take (unat n) (contents st b), k) \<and>
    unat k = min (unat n) (length (contents st b))"
proof -
  obtain d s a c t where d: "st_data st (b_data b) = Some d" "at_offsets b s a c t"
    "s + a + t \<le> length (d_bytes d)"
    "contents st b = view_bytes (d_bytes d) s (s + a) (s + a + c) (s + a + c + t)" by (rule view_data [OF ok])
  have u: "unat (b_start b) = s" "unat (b_zeroAreaStart b) = s + a"
     "unat (b_zeroAreaEnd b) = s + a + c" "unat (b_end b) = s + a + c + t"
    using d(2) by (simp_all add: at_offsets_def)
  have l: "unat (b_zeroAreaStart b - b_start b) = a" "unat (b_zeroAreaEnd b - b_zeroAreaStart b) = c"
    "unat (b_end b - b_zeroAreaEnd b) = t"
    using u by (simp_all add: unat_sub word_le_nat_alt)
  define A T where "A = take a (drop s (d_bytes d))" and "T = take t (drop (s + a) (d_bytes d))"
  have con: "contents st b = A @ replicate c 0 @ T" unfolding d(4) view_parts A_def T_def ..
  have len: "length A = a" "length T = t" using d(3) by (simp_all add: A_def T_def)
  have umin: "unat (min x y) = min (unat x) (unat y)" for x y :: u32 by (simp add: min_def word_le_nat_alt)
  have usub: "unat (x - min y x) = unat x - min (unat y) (unat x)" for x y :: u32
    by (subst unat_sub) (simp_all add: umin)
  show ?thesis
  proof (cases "n > 0")
    case False
    then show ?thesis using d(1) by (simp add: b_CopyData_def word_gt_0)
  next
    case True
    let ?t1 = "min (b_zeroAreaStart b - b_start b) n"
    have t1: "unat ?t1 = min a (unat n)" by (simp add: umin l)
    have x: "mem_slice (d_bytes d) (b_start b) ?t1 = Some (take (unat n) A)"
      using d(3) by (subst mem_sliceI) (simp_all add: u(1) t1 A_def min.commute [of a])
    let ?n1 = "n - ?t1"
    have n1: "unat ?n1 = unat n - min a (unat n)" by (simp add: usub l)
    let ?t2 = "min (b_zeroAreaEnd b - b_zeroAreaStart b) ?n1"
    let ?n2 = "?n1 - ?t2"
    have t2: "unat ?t2 = min c (unat ?n1)" and n2: "unat ?n2 = unat ?n1 - min c (unat ?n1)"
      using l by (simp_all add: umin usub)
    let ?t3 = "min (b_end b - b_zeroAreaEnd b) ?n2"
    have t3: "unat ?t3 = min t (unat ?n2)" by (simp add: umin l)
    have z: "mem_slice (d_bytes d) (b_zeroAreaStart b) ?t3 = Some (take (unat ?n2) T)"
      using d(3) by (subst mem_sliceI) (simp_all add: u(2) t3 T_def min.commute [of t])
    have n3: "unat (?n2 - ?t3) = unat ?n2 - min t (unat ?n2)" by (simp only: usub l)
    have le: "?n1 \<le> n" "?n2 \<le> n" "?n2 - ?t3 \<le> n"
      unfolding word_le_nat_alt n3 unfolding n2 n1 by linarith+
    note k = unat_sub [OF le(1)] unat_sub [OF le(2)] unat_sub [OF le(3), unfolded n3]
    consider "?n1 = 0" | "?n1 \<noteq> 0" "?n2 = 0" | "?n1 \<noteq> 0" "?n2 \<noteq> 0" by blast
    then show ?thesis
    proof cases
      case 1
      have "b_CopyData n b st = Some (take (unat n) A, n - ?n1)"
        using True d(1) x 1 by (simp add: b_CopyData_def Let_def)
      moreover have "unat n \<le> a" using n1 1 by (simp add: unat_eq_0)
      ultimately show ?thesis using con len k(1) n1 by simp
    next
      case 2
      have "b_CopyData n b st = Some (take (unat n) A @ zeroes_out ?t2, n - ?n2)"
        using True d(1) x 2 by (simp add: b_CopyData_def Let_def word_gt_0)
      moreover have "unat ?n1 \<noteq> 0" "unat ?n2 = 0" using 2 by (simp_all add: unat_eq_0)
      then have "unat n \<le> a + c" "a < unat n" using n1 n2 by linarith+
      moreover from this have "unat ?t2 = unat n - a" "min (unat n - a) c = unat n - a"
        unfolding t2 n1 by simp_all
      ultimately show ?thesis using con len k(2) \<open>unat ?n2 = 0\<close> by (simp add: zeroes_out_eq)
    next
      case 3
      have r: "b_CopyData n b st = Some (take (unat n) A @ zeroes_out ?t2 @ take (unat ?n2) T, n - (?n2 - ?t3))"
        using True d(1) x z 3 by (simp add: b_CopyData_def Let_def word_gt_0)
      have "unat ?n2 \<noteq> 0" using 3 by (simp add: unat_eq_0)
      then have g: "a + c < unat n" using n1 n2 by linarith
      then have e: "unat ?n2 = unat n - (a + c)" "unat ?t2 = c" unfolding t2 n2 n1 by simp_all
      then have "take (unat n) A @ zeroes_out ?t2 @ take (unat ?n2) T = take (unat n) (contents st b)"
        using g len unfolding con zeroes_out_eq e by simp
      moreover have "unat (n - (?n2 - ?t3)) = min (unat n) (length (contents st b))"
        using g len unfolding con k(3) e by simp
      ultimately show ?thesis unfolding r by blast
    qed
  qed
qed

lemma GetSize_ok:
  assumes ok: "store_ok st (add_mset b R) X"
  shows "unat (b_GetSize b) = length (contents st b)"
proof -
  obtain s a c t where o: "at_offsets b s a c t" "length (contents st b) = a + c + t"
    using view_data [OF ok] by metis
  then have "unat (b_end b - b_start b) = a + c + t"
    by (subst unat_sub) (simp_all add: at_offsets_def word_le_nat_alt)
  then show ?thesis using o(2) by (simp add: b_GetSize_def)
qed

lemma CreateFragment_ok:
  assumes ok: "store_ok st (add_mset b R) X" and few: "size (holders (add_mset b R) X) + 1 < 2 ^ 32"
    and len: "length (contents st b) \<le> 2 ^ 30" and r: "unat i + unat n \<le> length (contents st b)"
  shows "\<exists>b' st'. b_CreateFragment i n b st = Some (b', st') \<and> store_ok st' (add_mset b' (add_mset b R)) X \<and>
    keeps st st' (add_mset b R) \<and> contents st' b' = take (unat n) (drop (unat i) (contents st b))"
proof -
  from copy_ok [OF ok few] obtain t st' where 1: "b_copy b st = Some (t, st')"
    "store_ok st' (add_mset t (add_mset b R)) X"
    "same_storage st st' (set_mset (holders (add_mset b R) X))" "contents st' t = contents st b" by blast
  have "unat i \<le> 2 ^ 30" using r len by simp
  from RemoveAtStart_ok [OF 1(2) this] have 2: "store_ok st' (add_mset (b_RemoveAtStart i t) (add_mset b R)) X"
    "contents st' (b_RemoveAtStart i t) = drop (unat i) (contents st b)" using 1(4) by simp_all
  have "unat (i + n) = unat i + unat n" using r len by (subst unat_add_no_wrap) simp_all
  then have "unat (b_GetSize b - (i + n)) = length (contents st b) - (unat i + unat n)"
    using GetSize_ok [OF ok] r by (subst unat_sub) (simp_all add: word_le_nat_alt)
  then have 3: "store_ok st' (add_mset (b_RemoveAtEnd (b_GetSize b - (i + n)) (b_RemoveAtStart i t)) (add_mset b R)) X"
    "contents st' (b_RemoveAtEnd (b_GetSize b - (i + n)) (b_RemoveAtStart i t)) =
      take (unat n) (drop (unat i) (contents st b))"
    using RemoveAtEnd_ok [OF 2(1)] 2(2) r by simp_all
  have "b_CreateFragment i n b st = Some (b_RemoveAtEnd (b_GetSize b - (i + n)) (b_RemoveAtStart i t), st')"
    using 1(1) by (simp add: b_CreateFragment_def)
  with 3 same_storage_keeps [OF 1(3)] show ?thesis by blast
qed

section \<open>Live buffers refine byte strings\<close>

text \<open>
  What a client does with its buffers, numbered in the order of their creation: \<open>Prepend\<close>
  and \<open>Append\<close> are \<open>AddAtStart\<close> and \<open>AddAtEnd\<close> followed by a \<open>Write\<close> of the new bytes,
  as for headers, trailers and payload.
\<close>

datatype buf_op =
    New u32
  | Copy nat
  | Assign nat nat
  | Destroy nat
  | Prepend nat "u8 list"
  | Append nat "u8 list"
  | Cut_start nat u32
  | Cut_end nat u32
  | Fragment nat u32 u32
  | Make_real nat

definition on_buffer ::
  "nat \<Rightarrow> (buffer \<Rightarrow> store \<Rightarrow> (buffer \<times> store) option) \<Rightarrow> buffer list \<times> store \<Rightarrow> (buffer list \<times> store) option" where
  "on_buffer i f = (\<lambda>(bs, st). if i < length bs
     then do { (b, st') \<leftarrow> f (bs ! i) st; Some (bs[i := b], st') } else None)"

definition new_buffer ::
  "nat \<Rightarrow> (buffer \<Rightarrow> store \<Rightarrow> (buffer \<times> store) option) \<Rightarrow> buffer list \<times> store \<Rightarrow> (buffer list \<times> store) option" where
  "new_buffer i f = (\<lambda>(bs, st). if i < length bs
     then do { (b, st') \<leftarrow> f (bs ! i) st; Some (bs @ [b], st') } else None)"

definition prepend :: "u8 list \<Rightarrow> buffer \<Rightarrow> store \<Rightarrow> (buffer \<times> store) option" where
  "prepend xs b st = do {
     (b', st1) \<leftarrow> b_AddAtStart (of_nat (length xs)) b st;
     st2 \<leftarrow> write_at (b_Begin b') (it_Write xs (of_nat (length xs))) st1;
     Some (b', st2) }"

definition append_bytes :: "u8 list \<Rightarrow> buffer \<Rightarrow> store \<Rightarrow> (buffer \<times> store) option" where
  "append_bytes xs b st = do {
     (b', st1) \<leftarrow> b_AddAtEnd (of_nat (length xs)) b st;
     it \<leftarrow> it_Prev (of_nat (length xs)) (b_End b');
     st2 \<leftarrow> write_at it (it_Write xs (of_nat (length xs))) st1;
     Some (b', st2) }"

fun buf_step :: "buf_op \<Rightarrow> buffer list \<times> store \<Rightarrow> (buffer list \<times> store) option" where
  "buf_step (New n) (bs, st) = do { (b, st') \<leftarrow> b_Initialize n st; Some (bs @ [b], st') }"
| "buf_step (Copy i) s = new_buffer i b_copy s"
| "buf_step (Assign i j) (bs, st) =
     (if j < length bs then on_buffer i (\<lambda>b. b_assign b (bs ! j)) (bs, st) else None)"
| "buf_step (Destroy i) (bs, st) =
     (if i < length bs
      then do { st' \<leftarrow> b_destroy (bs ! i) st; Some (take i bs @ drop (Suc i) bs, st') } else None)"
| "buf_step (Prepend i xs) s = on_buffer i (prepend xs) s"
| "buf_step (Append i xs) s = on_buffer i (append_bytes xs) s"
| "buf_step (Cut_start i n) s = on_buffer i (\<lambda>b st. Some (b_RemoveAtStart n b, st)) s"
| "buf_step (Cut_end i n) s = on_buffer i (\<lambda>b st. Some (b_RemoveAtEnd n b, st)) s"
| "buf_step (Fragment i m n) s = new_buffer i (b_CreateFragment m n) s"
| "buf_step (Make_real i) s = on_buffer i b_TransformIntoRealBuffer s"

text \<open>
  The same on values. \<open>None\<close> is a call outside of the contract: a buffer that does not exist or
  grows beyond \<open>2 ^ 30\<close> bytes, a fragment that exceeds its buffer, too many buffers for a
  reference count.
\<close>

definition on_value :: "nat \<Rightarrow> bool \<Rightarrow> (u8 list \<Rightarrow> u8 list) \<Rightarrow> u8 list list \<Rightarrow> u8 list list option" where
  "on_value i legal f vs = (if i < length vs \<and> legal then Some (vs[i := f (vs ! i)]) else None)"

definition new_value :: "nat \<Rightarrow> bool \<Rightarrow> (u8 list \<Rightarrow> u8 list) \<Rightarrow> u8 list list \<Rightarrow> u8 list list option" where
  "new_value i legal f vs = (if i < length vs \<and> legal then Some (vs @ [f (vs ! i)]) else None)"

definition may_grow :: "u8 list list \<Rightarrow> nat \<Rightarrow> nat \<Rightarrow> bool" where
  "may_grow vs i n \<longleftrightarrow> length (vs ! i) + n \<le> 2 ^ 30"

fun val_step :: "buf_op \<Rightarrow> u8 list list \<Rightarrow> u8 list list option" where
  "val_step (New n) vs = (if unat n \<le> 2 ^ 30 then Some (vs @ [replicate (unat n) 0]) else None)"
| "val_step (Copy i) vs = new_value i True id vs"
| "val_step (Assign i j) vs = on_value i (j < length vs) (\<lambda>_. vs ! j) vs"
| "val_step (Destroy i) vs = (if i < length vs then Some (take i vs @ drop (Suc i) vs) else None)"
| "val_step (Prepend i xs) vs = on_value i (may_grow vs i (length xs)) (\<lambda>v. xs @ v) vs"
| "val_step (Append i xs) vs = on_value i (may_grow vs i (length xs)) (\<lambda>v. v @ xs) vs"
| "val_step (Cut_start i n) vs = on_value i (unat n \<le> 2 ^ 30) (drop (unat n)) vs"
| "val_step (Cut_end i n) vs = on_value i True (\<lambda>v. take (length v - unat n) v) vs"
| "val_step (Fragment i m n) vs =
     new_value i (may_grow vs i 0 \<and> unat m + unat n \<le> length (vs ! i)) (\<lambda>v. take (unat n) (drop (unat m) v)) vs"
| "val_step (Make_real i) vs = on_value i (may_grow vs i 0) id vs"

fun buf_run :: "buf_op list \<Rightarrow> buffer list \<times> store \<Rightarrow> (buffer list \<times> store) option" where
  "buf_run [] s = Some s"
| "buf_run (p # ps) s = do { s' \<leftarrow> buf_step p s; buf_run ps s' }"

fun val_run :: "buf_op list \<Rightarrow> u8 list list \<Rightarrow> u8 list list option" where
  "val_run [] vs = Some vs"
| "val_run (p # ps) vs =
     (if length vs + 2 < 2 ^ 32 then do { vs' \<leftarrow> val_step p vs; val_run ps vs' } else None)"

definition stands_for :: "buffer list \<times> store \<Rightarrow> u8 list list \<Rightarrow> bool" where
  "stands_for = (\<lambda>(bs, st) vs. store_ok st (mset bs) {#} \<and> map (contents st) bs = vs)"

lemma buffer_at:
  assumes "i < length bs"
  obtains R where "mset bs = add_mset (bs ! i) R" "\<And>b'. mset (bs[i := b']) = add_mset b' R"
    "mset (take i bs @ drop (Suc i) bs) = R"
    "\<And>st st' b'. keeps st st' R \<Longrightarrow>
       map (contents st') (bs[i := b']) = (map (contents st) bs)[i := contents st' b'] \<and>
       map (contents st') (take i bs @ drop (Suc i) bs) = map (contents st) (take i bs @ drop (Suc i) bs)"
proof
  let ?R = "mset (take i bs) + mset (drop (Suc i) bs)"
  have bs: "bs = take i bs @ bs ! i # drop (Suc i) bs" by (rule id_take_nth_drop [OF assms])
  have upd: "bs[i := b'] = take i bs @ b' # drop (Suc i) bs" for b' by (rule upd_conv_take_nth_drop [OF assms])
  show "mset bs = add_mset (bs ! i) ?R" by (subst bs) simp
  show "mset (bs[i := b']) = add_mset b' ?R" for b' by (simp add: upd)
  show "mset (take i bs @ drop (Suc i) bs) = ?R" by simp
  show "map (contents st') (bs[i := b']) = (map (contents st) bs)[i := contents st' b'] \<and>
       map (contents st') (take i bs @ drop (Suc i) bs) = map (contents st) (take i bs @ drop (Suc i) bs)"
    if "keeps st st' ?R" for st st' b'
  proof -
    have "map (contents st') (take i bs) = map (contents st) (take i bs)"
      "map (contents st') (drop (Suc i) bs) = map (contents st) (drop (Suc i) bs)"
      using that by (auto simp: keeps_def)
    then show ?thesis
      using assms by (simp add: upd upd_conv_take_nth_drop take_map drop_map)
  qed
qed

lemma on_buffer_refines:
  assumes s: "stands_for (bs, st) vs" and i: "i < length vs"
    and f: "\<And>R. store_ok st (add_mset (bs ! i) R) {#} \<Longrightarrow> mset bs = add_mset (bs ! i) R \<Longrightarrow>
      contents st (bs ! i) = vs ! i \<Longrightarrow>
      \<exists>b' st'. f (bs ! i) st = Some (b', st') \<and> store_ok st' (add_mset b' R) {#} \<and> keeps st st' R \<and>
        contents st' b' = g (vs ! i)"
  shows "\<exists>s'. on_buffer i f (bs, st) = Some s' \<and> stands_for s' (vs[i := g (vs ! i)])"
proof -
  have ok: "store_ok st (mset bs) {#}" and vs: "vs = map (contents st) bs" using s by (auto simp: stands_for_def)
  have ib: "i < length bs" using i vs by simp
  obtain R where R: "mset bs = add_mset (bs ! i) R" "\<And>b'. mset (bs[i := b']) = add_mset b' R"
    "\<And>st st' b'. keeps st st' R \<Longrightarrow> map (contents st') (bs[i := b']) = (map (contents st) bs)[i := contents st' b']"
    using buffer_at [OF ib] by metis
  have c: "contents st (bs ! i) = vs ! i" using ib vs by simp
  from f [OF ok [unfolded R(1)] R(1) c] obtain b' st' where 1: "f (bs ! i) st = Some (b', st')"
    "store_ok st' (add_mset b' R) {#}" "keeps st st' R" "contents st' b' = g (vs ! i)" by blast
  then show ?thesis using ib R(2) R(3) [OF 1(3)] vs by (simp add: on_buffer_def stands_for_def)
qed

lemma new_buffer_refines:
  assumes s: "stands_for (bs, st) vs"
    and f: "store_ok st (mset bs) {#} \<Longrightarrow>
      \<exists>b' st'. f st = Some (b', st') \<and> store_ok st' (add_mset b' (mset bs)) {#} \<and>
        keeps st st' (mset bs) \<and> contents st' b' = v"
  shows "\<exists>b' st'. f st = Some (b', st') \<and> stands_for (bs @ [b'], st') (vs @ [v])"
proof -
  have ok: "store_ok st (mset bs) {#}" and vs: "vs = map (contents st) bs" using s by (auto simp: stands_for_def)
  from f [OF ok] obtain b' st' where 1: "f st = Some (b', st')" "store_ok st' (add_mset b' (mset bs)) {#}"
    "keeps st st' (mset bs)" "contents st' b' = v" by blast
  then have "map (contents st') bs = vs" unfolding vs keeps_def by simp
  with 1 show ?thesis by (simp add: stands_for_def)
qed

lemma prepend_ok:
  assumes ok: "store_ok st (add_mset b R) X" and len: "length (contents st b) + length xs \<le> 2 ^ 30"
  shows "\<exists>b' st'. prepend xs b st = Some (b', st') \<and> store_ok st' (add_mset b' R) X \<and> keeps st st' R \<and>
    contents st' b' = xs @ contents st b"
proof -
  let ?n = "of_nat (length xs) :: u32"
  have n: "length xs = unat ?n" using len by (simp add: unsigned_of_nat take_bit_nat_eq_self)
  from add_write_start [OF ok _ n stores_Write [OF n]] len n show ?thesis
    by (fastforce simp: prepend_def)
qed

lemma append_ok:
  assumes ok: "store_ok st (add_mset b R) X" and len: "length (contents st b) + length xs \<le> 2 ^ 30"
  shows "\<exists>b' st'. append_bytes xs b st = Some (b', st') \<and> store_ok st' (add_mset b' R) X \<and> keeps st st' R \<and>
    contents st' b' = contents st b @ xs"
proof -
  let ?n = "of_nat (length xs) :: u32"
  have n: "length xs = unat ?n" using len by (simp add: unsigned_of_nat take_bit_nat_eq_self)
  from add_write_end [OF ok _ n stores_Write [OF n]] len n show ?thesis
    by (fastforce simp: append_bytes_def)
qed

lemma copy_keeps:
  assumes "store_ok st (add_mset b R) X" and "size (holders (add_mset b R) X) + 1 < 2 ^ 32"
  shows "\<exists>b' st'. b_copy b st = Some (b', st') \<and> store_ok st' (add_mset b' (add_mset b R)) X \<and>
    keeps st st' (add_mset b R) \<and> contents st' b' = contents st b"
  using copy_ok [OF assms] same_storage_keeps by blast

lemma buf_step_refines:
  assumes s: "stands_for (bs, st) vs" and few: "length vs + 2 < 2 ^ 32" and v: "val_step p vs = Some vs'"
  shows "\<exists>s'. buf_step p (bs, st) = Some s' \<and> stands_for s' vs'"
proof -
  have ok: "store_ok st (mset bs) {#}" and vs: "vs = map (contents st) bs" using s by (auto simp: stands_for_def)
  have lb: "length bs = length vs" by (simp add: vs)
  have sz: "size (holders (add_mset b R) {#}) = length vs" if "mset bs = add_mset b R" for b R
    using arg_cong [OF that, of size] lb by simp
  show ?thesis
  proof (cases p)
    case (New n)
    then have n: "unat n \<le> 2 ^ 30" "vs' = vs @ [replicate (unat n) 0]" using v by (auto split: if_splits)
    have "\<exists>b' st'. b_Initialize n st = Some (b', st') \<and> stands_for (bs @ [b'], st') (vs @ [replicate (unat n) 0])"
      by (rule new_buffer_refines [OF s]) (use Initialize_ok [OF _ n(1)] in blast)
    then show ?thesis using New n by auto
  next
    case (Copy i)
    then have i: "i < length bs" "vs' = vs @ [vs ! i]" using v lb by (auto simp: new_value_def split: if_splits)
    obtain R where R: "mset bs = add_mset (bs ! i) R" using buffer_at [OF i(1)] by metis
    have "\<exists>b' st'. b_copy (bs ! i) st = Some (b', st') \<and> stands_for (bs @ [b'], st') (vs @ [vs ! i])"
      by (rule new_buffer_refines [OF s])
        (use copy_keeps [of st "bs ! i" R "{#}"] sz [OF R] few R i vs in simp)
    then show ?thesis using Copy i by (auto simp: new_buffer_def)
  next
    case (Prepend i xs)
    then have i: "i < length vs" "length (vs ! i) + length xs \<le> 2 ^ 30" "vs' = vs[i := xs @ vs ! i]"
      using v by (auto simp: on_value_def may_grow_def split: if_splits)
    have "\<exists>s'. on_buffer i (prepend xs) (bs, st) = Some s' \<and> stands_for s' (vs[i := xs @ vs ! i])"
      by (rule on_buffer_refines [OF s i(1)]) (use prepend_ok i(2) in fastforce)
    then show ?thesis using Prepend i by simp
  next
    case (Append i xs)
    then have i: "i < length vs" "length (vs ! i) + length xs \<le> 2 ^ 30" "vs' = vs[i := vs ! i @ xs]"
      using v by (auto simp: on_value_def may_grow_def split: if_splits)
    have "\<exists>s'. on_buffer i (append_bytes xs) (bs, st) = Some s' \<and> stands_for s' (vs[i := vs ! i @ xs])"
      by (rule on_buffer_refines [OF s i(1)]) (use append_ok i(2) in fastforce)
    then show ?thesis using Append i by simp
  next
    case (Cut_start i n)
    then have i: "i < length vs" "unat n \<le> 2 ^ 30" "vs' = vs[i := drop (unat n) (vs ! i)]"
      using v by (auto simp: on_value_def split: if_splits)
    have "\<exists>s'. on_buffer i (\<lambda>b st. Some (b_RemoveAtStart n b, st)) (bs, st) = Some s' \<and>
        stands_for s' (vs[i := drop (unat n) (vs ! i)])"
      by (rule on_buffer_refines [OF s i(1)]) (use RemoveAtStart_ok i(2) in fastforce)
    then show ?thesis using Cut_start i by simp
  next
    case (Cut_end i n)
    then have i: "i < length vs" "vs' = vs[i := take (length (vs ! i) - unat n) (vs ! i)]"
      using v by (auto simp: on_value_def split: if_splits)
    have "\<exists>s'. on_buffer i (\<lambda>b st. Some (b_RemoveAtEnd n b, st)) (bs, st) = Some s' \<and>
        stands_for s' (vs[i := (\<lambda>v. take (length v - unat n) v) (vs ! i)])"
      by (rule on_buffer_refines [OF s i(1)]) (use RemoveAtEnd_ok in fastforce)
    then show ?thesis using Cut_end i by simp
  next
    case (Fragment i m n)
    then have i: "i < length bs" "length (vs ! i) \<le> 2 ^ 30" "unat m + unat n \<le> length (vs ! i)"
      "vs' = vs @ [take (unat n) (drop (unat m) (vs ! i))]"
      using v lb by (auto simp: new_value_def may_grow_def split: if_splits)
    obtain R where R: "mset bs = add_mset (bs ! i) R" using buffer_at [OF i(1)] by metis
    have c: "contents st (bs ! i) = vs ! i" using i vs by simp
    have "\<exists>b' st'. b_CreateFragment m n (bs ! i) st = Some (b', st') \<and>
        stands_for (bs @ [b'], st') (vs @ [take (unat n) (drop (unat m) (vs ! i))])"
      by (rule new_buffer_refines [OF s])
        (use CreateFragment_ok [of st "bs ! i" R "{#}" m n] sz [OF R] few R i c in simp)
    then show ?thesis using Fragment i by (auto simp: new_buffer_def)
  next
    case (Make_real i)
    then have i: "i < length vs" "length (vs ! i) \<le> 2 ^ 30" "vs' = vs[i := vs ! i]"
      using v by (auto simp: on_value_def may_grow_def split: if_splits)
    have "\<exists>s'. on_buffer i b_TransformIntoRealBuffer (bs, st) = Some s' \<and> stands_for s' (vs[i := id (vs ! i)])"
    proof (rule on_buffer_refines [OF s i(1)])
      fix R assume o: "store_ok st (add_mset (bs ! i) R) {#}" "mset bs = add_mset (bs ! i) R"
        "contents st (bs ! i) = vs ! i"
      show "\<exists>b' st'. b_TransformIntoRealBuffer (bs ! i) st = Some (b', st') \<and>
          store_ok st' (add_mset b' R) {#} \<and> keeps st st' R \<and> contents st' b' = id (vs ! i)"
        using TransformIntoRealBuffer_ok [OF o(1)] sz [OF o(2)] few i(2) o(3) by fastforce
    qed
    then show ?thesis using Make_real i by simp
  next
    case (Destroy i)
    then have i: "i < length bs" "vs' = take i vs @ drop (Suc i) vs" using v lb by (auto split: if_splits)
    obtain R where R: "mset bs = add_mset (bs ! i) R" "mset (take i bs @ drop (Suc i) bs) = R"
      "\<And>st st'. keeps st st' R \<Longrightarrow>
        map (contents st') (take i bs @ drop (Suc i) bs) = map (contents st) (take i bs @ drop (Suc i) bs)"
      using buffer_at [OF i(1)] by metis
    from destroy_ok [OF ok [unfolded R(1)]] obtain st' where 1: "b_destroy (bs ! i) st = Some st'"
      "store_ok st' R {#}" "same_storage st st' (set_mset (holders R {#}))" by blast
    have "map (contents st') (take i bs @ drop (Suc i) bs) = vs'"
      using R(3) [OF same_storage_keeps [OF 1(3)]] i(2) by (simp add: vs take_map drop_map)
    then have "stands_for (take i bs @ drop (Suc i) bs, st') vs'"
      using 1(2) R(2) by (simp add: stands_for_def)
    then show ?thesis using Destroy i(1) 1(1) by simp
  next
    case (Assign i j)
    then have i: "i < length vs" "j < length vs" "vs' = vs[i := vs ! j]"
      using v by (auto simp: on_value_def split: if_splits)
    have "\<exists>s'. on_buffer i (\<lambda>b. b_assign b (bs ! j)) (bs, st) = Some s' \<and>
        stands_for s' (vs[i := (\<lambda>_. vs ! j) (vs ! i)])"
    proof (rule on_buffer_refines [OF s i(1)])
      fix R assume o: "store_ok st (add_mset (bs ! i) R) {#}" "mset bs = add_mset (bs ! i) R"
      have c: "contents st (bs ! j) = vs ! j" using i vs by simp
      show "\<exists>b' st'. b_assign (bs ! i) (bs ! j) st = Some (b', st') \<and> store_ok st' (add_mset b' R) {#} \<and>
          keeps st st' R \<and> contents st' b' = (\<lambda>_. vs ! j) (vs ! i)"
      proof (cases "bs ! j = bs ! i")
        case True
        then show ?thesis using o(1) c by (auto simp: b_assign_def keeps_def)
      next
        case False
        have "bs ! j \<in># mset bs" using i lb by simp
        then have "bs ! j \<in># R" using False by (simp add: o(2))
        then obtain R' where R': "R = add_mset (bs ! j) R'" by (blast dest: multi_member_split)
        from assign_ok [OF o(1) [unfolded R']] sz [OF o(2)] few R'
        obtain st' where 1: "b_assign (bs ! i) (bs ! j) st = Some (bs ! j, st')"
          "store_ok st' (add_mset (bs ! j) R) {#}" "same_storage st st' (set_mset (holders R {#}))" by auto
        moreover have k: "keeps st st' R" by (rule same_storage_keeps [OF 1(3)])
        moreover have "contents st' (bs ! j) = vs ! j" using k c by (simp add: R')
        ultimately show ?thesis by blast
      qed
    qed
    then show ?thesis using Assign i lb by simp
  qed
qed

lemma buf_run_refines:
  "stands_for s vs \<Longrightarrow> val_run ps vs = Some vs' \<Longrightarrow> \<exists>s'. buf_run ps s = Some s' \<and> stands_for s' vs'"
proof (induction ps arbitrary: s vs)
  case Nil
  then show ?case by simp
next
  case (Cons p ps)
  from Cons.prems(2) obtain w where few: "length vs + 2 < 2 ^ 32" and w: "val_step p vs = Some w" "val_run ps w = Some vs'"
    by (auto simp: bind_eq_Some_conv split: if_splits)
  obtain bs st where s: "s = (bs, st)" by (cases s)
  from buf_step_refines [OF Cons.prems(1) [unfolded s] few w(1)] obtain s' where
    s': "buf_step p (bs, st) = Some s'" "stands_for s' w" by blast
  from Cons.IH [OF s'(2) w(2)] s' show ?case by (auto simp: s)
qed

lemma initial_stands_for: "stands_for ([], initial_store junk) []"
  by (simp add: stands_for_def store_ok_def initial_store_def free_ok_def)

text \<open>What can be read of a live buffer.\<close>

lemma stands_for_read:
  assumes "stands_for (bs, st) vs"
  shows "map (\<lambda>b. b_CopyData (b_GetSize b) b st) bs = map (\<lambda>v. Some (v, of_nat (length v))) vs"
proof (rule nth_equalityI)
  have ok: "store_ok st (mset bs) {#}" and vs: "vs = map (contents st) bs"
    using assms by (auto simp: stands_for_def)
  show "length (map (\<lambda>b. b_CopyData (b_GetSize b) b st) bs) = length (map (\<lambda>v. Some (v, of_nat (length v) :: u32)) vs)"
    by (simp add: vs)
  fix i assume "i < length (map (\<lambda>b. b_CopyData (b_GetSize b) b st) bs)"
  then have i: "i < length bs" by simp
  obtain R where R: "mset bs = add_mset (bs ! i) R" using buffer_at [OF i] by metis
  note okb = ok [unfolded R]
  from CopyData_ok [OF okb, of "b_GetSize (bs ! i)"] obtain k where
    k: "b_CopyData (b_GetSize (bs ! i)) (bs ! i) st = Some (vs ! i, k)" "unat k = length (vs ! i)"
    using i GetSize_ok [OF okb] by (auto simp: vs)
  moreover from k(2) have "k = of_nat (length (vs ! i))" by (metis of_nat_unat ucast_id)
  ultimately show "map (\<lambda>b. b_CopyData (b_GetSize b) b st) bs ! i = map (\<lambda>v. Some (v, of_nat (length v))) vs ! i"
    using i by (simp add: vs)
qed

text \<open>
  C2: Buffers are values. From the initial state of the program, any sequence of creating,
  copying, assigning, destroying and fragmenting buffers and of adding, writing and removing bytes
  at their ends that stays within the limits runs without failing an assertion, leaving the
  storage or using freed storage, whatever fresh memory holds, and \<open>CopyData\<close> of each buffer
  then returns the bytes that the same operations give on separate byte strings: neither the
  sharing of storage nor its recycling, nor the virtual zero area can be observed.
\<close>

theorem buffers_refine_byte_strings:
  assumes "val_run ps [] = Some vs"
  shows "\<exists>bs st. buf_run ps ([], initial_store junk) = Some (bs, st) \<and>
    map (\<lambda>b. b_CopyData (b_GetSize b) b st) bs = map (\<lambda>v. Some (v, of_nat (length v))) vs"
proof -
  from buf_run_refines [OF initial_stands_for [of junk] assms] obtain bs st where
    "buf_run ps ([], initial_store junk) = Some (bs, st)" "stands_for (bs, st) vs" by auto
  then show ?thesis using stands_for_read by blast
qed

text \<open>A packet of two zero bytes with a header, its copy with another one, and a fragment.\<close>

definition sample_client :: "buf_op list" where
  "sample_client = [New 2, Prepend 0 [1, 2], Copy 0, Prepend 0 [3], Append 1 [9], Prepend 1 [4],
     Fragment 1 2 3, Destroy 0, Make_real 0]"

lemma sample_client_run: "val_run sample_client [] = Some [[4, 1, 2, 0, 0, 9], [2, 0, 0]]"
proof -
  have two: "replicate 2 (0 :: u8) = [0, 0]" by (simp add: numeral_2_eq_2)
  show ?thesis by (simp add: sample_client_def on_value_def new_value_def may_grow_def two)
qed

theorem buffers_refine_byte_strings_witness:
  "\<exists>bs st. buf_run sample_client ([], initial_store (\<lambda>_ _. 0xff)) = Some (bs, st) \<and>
    map (\<lambda>b. b_CopyData (b_GetSize b) b st) bs = [Some ([4, 1, 2, 0, 0, 9], 6), Some ([2, 0, 0], 3)]"
  using buffers_refine_byte_strings [OF sample_client_run] by simp

lemma CheckInternalState_ok:
  assumes ok: "store_ok st (add_mset b R) X"
  shows "b_CheckInternalState b st"
proof -
  obtain d where d: "st_data st (b_data b) = Some d" "view_ok d b"
    using store_okD(1) [OF ok, of b] by auto
  have "d_count d \<noteq> 0" using store_okD(4) [OF ok, of "b_data b"] d(1) by auto
  moreover obtain s a c t where o: "at_offsets b s a c t" using d(2) b_ok_offsets by (auto simp: view_ok_def)
  have zl: "unat (b_zeroAreaEnd b - b_zeroAreaStart b) = c"
    using o by (simp add: unat_sub at_offsets_def word_le_nat_alt)
  have "unat (b_end b - (b_zeroAreaEnd b - b_zeroAreaStart b)) = s + a + t"
    using o zl by (subst unat_sub) (simp_all add: at_offsets_def word_le_nat_alt)
  ultimately show ?thesis
    using d o at_offsets_view(2) [OF o]
    by (simp add: b_CheckInternalState_def view_ok_def b_ok_def word_le_nat_alt at_offsets_def word_gt_0)
qed

text \<open>
  C18: The check that \<open>CheckInternalState\<close> keeps disabled would hold for every live buffer after
  every such sequence: its data is referenced, its offsets are ordered, it lies within the dirty
  area and within the storage.
\<close>

theorem buffer_internal_state_holds:
  assumes "val_run ps [] = Some vs"
  shows "\<exists>bs st. buf_run ps ([], initial_store junk) = Some (bs, st) \<and>
    list_all (\<lambda>b. b_CheckInternalState b st) bs"
proof -
  from buf_run_refines [OF initial_stands_for [of junk] assms] obtain bs st where
    1: "buf_run ps ([], initial_store junk) = Some (bs, st)" "stands_for (bs, st) vs" by auto
  have "b_CheckInternalState b st" if "b \<in> set bs" for b
  proof -
    have "b \<in># mset bs" using that by simp
    then obtain R where R: "mset bs = add_mset b R" by (blast dest: multi_member_split)
    have "store_ok st (mset bs) {#}" using 1(2) by (simp add: stands_for_def)
    then show ?thesis unfolding R by (rule CheckInternalState_ok)
  qed
  with 1(1) show ?thesis by (auto simp: list_all_iff)
qed

theorem buffer_internal_state_holds_witness:
  "\<exists>bs st. buf_run sample_client ([], initial_store (\<lambda>_ _. 0)) = Some (bs, st) \<and>
    list_all (\<lambda>b. b_CheckInternalState b st) bs"
  by (rule buffer_internal_state_holds [OF sample_client_run])

end
