(* ===== verification/Buffer_Serialization.thy ===== *)
theory Buffer_Serialization
  imports Buffer_Refinement
begin

text \<open>
  \<open>Buffer::Serialize\<close> and \<open>Deserialize\<close>: what is written and read, and the round trip.
\<close>

section \<open>Words in the caller's memory\<close>

lemma slice_put_other:
  assumes "q + n \<le> p \<or> p + length xs \<le> q" and "p + length xs \<le> length bs"
  shows "take n (drop q (put bs p xs)) = take n (drop q bs)"
proof -
  obtain A B C where bs: "bs = A @ B @ C" "length A = p" "length B = length xs"
    using split_at [OF assms(2)] by blast
  have "put bs p xs = A @ xs @ C" unfolding bs(1) using bs by (intro put_split) simp_all
  then show ?thesis using assms(1) bs by (auto simp: drop_Cons')
qed

lemma host_bytes_le: "host_bytes w = bytes_le 4 w"
proof -
  have "(ucast v :: u8) = ucast (v AND 0xff)" for v :: u32
    by (rule bit_word_eqI) (auto simp: and_0xff bit_simps)
  then show ?thesis by (simp add: host_bytes_def bytes_le_eqs)
qed

lemma length_host_bytes [simp]: "length (host_bytes w) = 4"
  by (simp add: host_bytes_def)

lemma little_endian_host [simp]: "little_endian (host_bytes w) = w"
  by (simp add: host_bytes_le endian_bytes)

lemma unat_pad4:
  assumes "unat n + 3 < 2 ^ 32"
  shows "unat (pad4 n) = 4 * ((unat n + 3) div 4)"
proof -
  have "x AND NOT (mask k) = push_bit k (drop_bit k x)" for x :: u32 and k
    by (rule bit_word_eqI) (auto simp: bit_simps)
  moreover have "mask 2 = (3 :: u32)" by (simp add: mask_eq_decr_exp)
  ultimately have "pad4 n = push_bit 2 (drop_bit 2 (n + 3))" by (metis pad4_def)
  moreover have "unat (n + 3) = unat n + 3" using assms by (subst unat_add_no_wrap) simp_all
  then have d: "unat (drop_bit 2 (n + 3)) = (unat n + 3) div 4" by (simp add: drop_bit_eq_div unat_div)
  have "unat (push_bit 2 (drop_bit 2 (n + 3))) = 4 * ((unat n + 3) div 4)"
    using assms d unfolding push_bit_eq_mult by (subst unat_mult_no_wrap) simp_all
  ultimately show ?thesis by simp
qed

section \<open>Serializing\<close>

text \<open>
  The layout: the length of the zero area; the length of the data before it and these bytes; the
  length of the data behind it and these bytes, both padded to whole words.
\<close>

definition serialized :: "u8 list \<Rightarrow> nat \<Rightarrow> u8 list \<Rightarrow> u8 list \<Rightarrow> bool" where
  "serialized A c T out \<longleftrightarrow> (let p = 4 * ((length A + 3) div 4) in
     take 4 out = host_bytes (of_nat c) \<and> take 4 (drop 4 out) = host_bytes (of_nat (length A)) \<and>
     take (length A) (drop 8 out) = A \<and>
     take 4 (drop (8 + p) out) = host_bytes (of_nat (length T)) \<and>
     take (length T) (drop (12 + p) out) = T \<and> 12 + p + length T \<le> length out)"

lemma GetSerializedSize_ok:
  assumes o: "at_offsets b s a c t" and len: "a + c + t \<le> 2 ^ 30"
  shows "unat (b_GetSerializedSize b) = 12 + 4 * ((a + 3) div 4) + 4 * ((t + 3) div 4)"
proof -
  have l: "unat (b_zeroAreaStart b - b_start b) = a" "unat (b_end b - b_zeroAreaEnd b) = t"
    using o by (simp_all add: at_offsets_def unat_sub word_le_nat_alt)
  have p: "unat (pad4 (b_zeroAreaStart b - b_start b)) = 4 * ((a + 3) div 4)"
    "unat (pad4 (b_end b - b_zeroAreaEnd b)) = 4 * ((t + 3) div 4)"
    using l len by (simp_all add: unat_pad4)
  have b: "4 * ((a + 3) div 4) \<le> a + 3" "4 * ((t + 3) div 4) \<le> t + 3" by simp_all
  have "unat (4 + 4 + pad4 (b_zeroAreaStart b - b_start b)) = 8 + 4 * ((a + 3) div 4)"
    using p(1) b(1) len by (subst unat_add_no_wrap) simp_all
  then have "unat (4 + 4 + pad4 (b_zeroAreaStart b - b_start b) + 4) = 12 + 4 * ((a + 3) div 4)"
    using b(1) len by (subst unat_add_no_wrap) simp_all
  then have "unat (4 + 4 + pad4 (b_zeroAreaStart b - b_start b) + 4 + pad4 (b_end b - b_zeroAreaEnd b)) =
      12 + 4 * ((a + 3) div 4) + 4 * ((t + 3) div 4)"
    using p(2) b len by (subst unat_add_no_wrap) simp_all
  then show ?thesis by (simp add: b_GetSerializedSize_def)
qed

lemma slice_put_same: "n = length xs \<Longrightarrow> p \<le> length bs \<Longrightarrow> take n (drop p (put bs p xs)) = xs"
  by (simp add: slice_put)

lemma serialized_puts:
  assumes p: "p = 4 * ((length A + 3) div 4)" and l: "12 + p + length T \<le> length out"
  shows "serialized A c T
    (put (put (put (put (put out 0 (host_bytes (of_nat c))) 4 (host_bytes (of_nat (length A)))) 8 A)
      (8 + p) (host_bytes (of_nat (length T)))) (12 + p) T)"
proof -
  have ap: "length A \<le> p" unfolding p by simp
  have "take 4 (put (put (put (put (put out 0 (host_bytes (of_nat c))) 4 (host_bytes (of_nat (length A)))) 8 A)
      (8 + p) (host_bytes (of_nat (length T)))) (12 + p) T) = host_bytes (of_nat c)"
    using l ap slice_put_same [of 4 "host_bytes (of_nat c)" 0 out] by (simp add: take_put)
  moreover have "take 4 (drop 4 (put (put (put (put (put out 0 (host_bytes (of_nat c))) 4 (host_bytes (of_nat (length A)))) 8 A)
      (8 + p) (host_bytes (of_nat (length T)))) (12 + p) T)) = host_bytes (of_nat (length A))"
    using l ap by (simp add: slice_put_other slice_put_same)
  ultimately show ?thesis
    using l ap unfolding serialized_def Let_def p [symmetric] by (simp add: slice_put_other slice_put_same)
qed

lemma Serialize_ok:
  assumes ok: "store_ok st (add_mset b R) X" and len: "length (contents st b) \<le> 2 ^ 30"
    and out: "unat (b_GetSerializedSize b) \<le> length out" and mx: "b_GetSerializedSize b \<le> maxSize"
  shows "\<exists>A c T out'. b_Serialize out maxSize b st = Some (1, out') \<and> contents st b = A @ replicate c 0 @ T \<and>
    serialized A c T out' \<and>
    unat (b_GetSerializedSize b) = 12 + 4 * ((length A + 3) div 4) + 4 * ((length T + 3) div 4)"
proof -
  obtain s a c t where o: "at_offsets b s a c t" using view_data [OF ok] by metis
  from slices_of_contents [OF ok o] obtain d where d: "st_data st (b_data b) = Some d"
    "mem_slice (d_bytes d) (b_start b) (b_zeroAreaStart b - b_start b) = Some (take a (contents st b))"
    "mem_slice (d_bytes d) (b_zeroAreaStart b) (b_end b - b_zeroAreaEnd b) = Some (drop (a + c) (contents st b))"
    "length (contents st b) = a + c + t" "take c (drop a (contents st b)) = replicate c 0" by blast
  define A T p where "A = take a (contents st b)" and "T = drop (a + c) (contents st b)"
    and "p = 4 * ((a + 3) div 4)"
  have lA: "length A = a" "length T = t" using d(4) by (simp_all add: A_def T_def)
  have con: "contents st b = A @ replicate c 0 @ T"
    using d(5) append_take_drop_id [of a "contents st b"] append_take_drop_id [of c "drop a (contents st b)"]
    by (simp add: A_def T_def add.commute)
  have act: "a + c + t \<le> 2 ^ 30" using d(4) len by simp
  note sz = GetSerializedSize_ok [OF o act]
  let ?n1 = "b_zeroAreaStart b - b_start b" and ?n2 = "b_end b - b_zeroAreaEnd b"
    and ?c = "b_zeroAreaEnd b - b_zeroAreaStart b"
  have u: "unat ?n1 = a" "unat ?n2 = t" "unat ?c = c"
    using o by (simp_all add: at_offsets_def unat_sub word_le_nat_alt)
  have w: "?n1 = of_nat a" "?n2 = of_nat t" "?c = of_nat c"
    unfolding u [symmetric] by simp_all
  have pads: "unat (pad4 ?n1) = p" "unat (pad4 ?n2) = 4 * ((t + 3) div 4)"
    using act u by (simp_all add: unat_pad4 p_def)
  have bounds: "p \<le> a + 3" "4 * ((t + 3) div 4) \<le> t + 3" "t \<le> 4 * ((t + 3) div 4)" "a \<le> p"
    by (simp_all add: p_def)
  have s2: "unat (8 + pad4 ?n1) = 8 + p"
    using bounds(1) act pads(1) by (subst unat_add_no_wrap) simp_all
  have s3: "unat (12 + pad4 ?n1) = 12 + p"
    using bounds(1) act pads(1) by (subst unat_add_no_wrap) simp_all
  have s4: "unat (12 + pad4 ?n1 + pad4 ?n2) = 12 + p + 4 * ((t + 3) div 4)"
    using s3 bounds act pads by (subst unat_add_no_wrap) simp_all
  have mxn: "12 + p + 4 * ((t + 3) div 4) \<le> unat maxSize"
    using mx sz by (simp add: word_le_nat_alt p_def)
  have le: "4 \<le> maxSize" "8 \<le> maxSize" "8 + pad4 ?n1 \<le> maxSize" "12 + pad4 ?n1 \<le> maxSize"
    "12 + pad4 ?n1 + pad4 ?n2 \<le> maxSize"
    using mxn s2 s3 s4 by (simp_all add: word_le_nat_alt)
  have lo: "12 + p + t \<le> length out" using out sz bounds(3) by (simp add: p_def)
  define o1 o2 o3 o4 o5 where "o1 = put out 0 (host_bytes ?c)" and "o2 = put o1 4 (host_bytes ?n1)"
    and "o3 = put o2 8 A" and "o4 = put o3 (8 + p) (host_bytes ?n2)" and "o5 = put o4 (12 + p) T"
  have l: "length o1 = length out" "length o2 = length out" "length o3 = length out" "length o4 = length out"
    using lo bounds(4) lA by (simp_all add: o1_def o2_def o3_def o4_def)
  have m: "mem_put out 0 (host_bytes ?c) = Some o1" "mem_put o1 4 (host_bytes ?n1) = Some o2"
    "mem_put o2 8 A = Some o3" "mem_put o3 (8 + pad4 ?n1) (host_bytes ?n2) = Some o4"
    "mem_put o4 (12 + pad4 ?n1) T = Some o5"
    using lo l bounds(4) lA s2 s3 unfolding o1_def o2_def o3_def o4_def o5_def
    by (auto intro!: mem_put_at)
  have "b_Serialize out maxSize b st = Some (1, o5)"
    using le m d(1-3) by (simp add: b_Serialize_def Let_def A_def T_def leD not_less add.commute add.left_commute)
  moreover have "serialized A c T o5"
    unfolding o5_def o4_def o3_def o2_def o1_def w
    using serialized_puts [of p A T out c] lo lA by (simp add: p_def)
  ultimately show ?thesis using con sz lA p_def by blast
qed

section \<open>Deserializing\<close>

lemma Deserialize_ok:
  assumes ok: "store_ok st M X" and s: "serialized A c T buf" and len: "length A + c + length T \<le> 2 ^ 30"
    and sz: "unat sz = 16 + 4 * ((length A + 3) div 4) + 4 * ((length T + 3) div 4)"
  shows "\<exists>b st'. b_Deserialize buf sz st = Some (1, b, st') \<and> store_ok st' (add_mset b M) X \<and>
    keeps st st' M \<and> contents st' b = A @ replicate c 0 @ T"
proof -
  define p q where "p = 4 * ((length A + 3) div 4)" and "q = 4 * ((length T + 3) div 4)"
  have bounds: "length A \<le> p" "p \<le> length A + 3" "length T \<le> q" "q \<le> length T + 3"
    by (simp_all add: p_def q_def)
  let ?c = "of_nat c :: u32" and ?a = "of_nat (length A) :: u32" and ?t = "of_nat (length T) :: u32"
  have u: "unat ?c = c" "unat ?a = length A" "unat ?t = length T"
    using len by (simp_all add: unsigned_of_nat take_bit_nat_eq_self)
  have pads: "unat (pad4 ?a) = p" "unat (pad4 ?t) = q"
    using len u bounds by (simp_all add: unat_pad4 p_def q_def)
  have w: "take 4 buf = host_bytes ?c" "take 4 (drop 4 buf) = host_bytes ?a" "take (length A) (drop 8 buf) = A"
    "take 4 (drop (8 + p) buf) = host_bytes ?t" "take (length T) (drop (12 + p) buf) = T"
    "12 + p + length T \<le> length buf"
    using s by (simp_all add: serialized_def Let_def p_def)
  have at: "unat (8 + pad4 ?a) = 8 + p" "unat (12 + pad4 ?a) = 12 + p"
    using bounds len pads by (subst unat_add_no_wrap; simp)+
  have m: "mem_slice buf 0 4 = Some (host_bytes ?c)" "mem_slice buf 4 4 = Some (host_bytes ?a)"
    "mem_slice buf 8 ?a = Some A" "mem_slice buf (8 + pad4 ?a) 4 = Some (host_bytes ?t)"
    "mem_slice buf (12 + pad4 ?a) ?t = Some T"
    using w at u bounds by (simp_all add: mem_sliceI)
  have szn: "unat sz = 16 + p + q" using sz by (simp add: p_def q_def)
  have c0: "unat (sz - 4) = 12 + p + q" using szn by (simp add: unat_sub word_le_nat_alt)
  have c1: "unat (sz - 4 - 4) = 8 + p + q" using c0 by (subst unat_sub) (simp_all add: word_le_nat_alt)
  have c2: "unat (sz - 4 - 4 - 4) = 4 + p + q" using c1 by (subst unat_sub) (simp_all add: word_le_nat_alt)
  have c3: "unat (sz - 4 - 4 - 4 - pad4 ?a) = 4 + q" using c2 pads by (subst unat_sub) (simp_all add: word_le_nat_alt)
  have c4: "unat (sz - 4 - 4 - 4 - pad4 ?a - 4) = q" using c3 by (subst unat_sub) (simp_all add: word_le_nat_alt)
  have "sz - 4 - 4 - 4 - pad4 ?a - 4 = pad4 ?t" by (simp only: word_unat_eq_iff c4 pads(2))
  then have c5: "sz - 4 - 4 - 4 - pad4 ?a - 4 - pad4 ?t = 0" by (simp only: diff_self)
  have checks: "sz - 4 \<ge> 4" "sz - 4 - 4 \<ge> 4" "sz - 4 - 4 - 4 \<ge> ?a" "sz - 4 - 4 - 4 - pad4 ?a \<ge> 4"
    "sz - 4 - 4 - 4 - pad4 ?a - 4 \<ge> ?t"
    using c0 c1 c2 c3 c4 u bounds by (simp_all add: word_le_nat_alt)
  from Initialize_ok [OF ok, of ?c] len u obtain b1 s1 where 1: "b_Initialize ?c st = Some (b1, s1)"
    "store_ok s1 (add_mset b1 M) X" "keeps st s1 M" "contents s1 b1 = replicate c 0" by auto
  have l1: "length (contents s1 b1) + unat ?a \<le> 2 ^ 30" "length A = unat ?a" using 1(4) len u by simp_all
  from add_write_start [OF 1(2) l1 stores_Write [OF l1(2)]] obtain b2 s2 s3 where
    2: "b_AddAtStart ?a b1 s1 = Some (b2, s2)" "write_at (b_Begin b2) (it_Write A ?a) s2 = Some s3"
    "store_ok s3 (add_mset b2 M) X" "keeps s1 s3 M" "contents s3 b2 = A @ contents s1 b1" by blast
  have l2: "length (contents s3 b2) + unat ?t \<le> 2 ^ 30" "length T = unat ?t" using 1(4) 2(5) len u by simp_all
  from add_write_end [OF 2(3) l2 stores_Write [OF l2(2)]] obtain b3 s4 it s5 where
    3: "b_AddAtEnd ?t b2 s3 = Some (b3, s4)" "it_Prev ?t (b_End b3) = Some it"
    "write_at it (it_Write T ?t) s4 = Some s5" "store_ok s5 (add_mset b3 M) X" "keeps s3 s5 M"
    "contents s5 b3 = contents s3 b2 @ T" by blast
  have "b_Deserialize buf sz st = Some (1, b3, s5)"
    using checks c5 m 1(1) 2(1,2) 3(1,2,3) by (simp add: b_Deserialize_def Let_def option_simps)
  moreover have "keeps st s5 M" using keeps_trans [OF keeps_trans [OF 1(3) 2(4)] 3(5)] .
  ultimately show ?thesis using 3(4,6) 2(5) 1(4) by simp
qed

section \<open>The round trip\<close>

definition bounded :: "u8 list list \<Rightarrow> bool" where
  "bounded vs \<longleftrightarrow> (\<forall>v\<in>set vs. length v \<le> 2 ^ 30)"

lemma bounded_update: "bounded vs \<Longrightarrow> length v \<le> 2 ^ 30 \<Longrightarrow> bounded (vs[i := v])"
  unfolding bounded_def using set_update_subset_insert [of vs i v] by blast

lemma bounded_append: "bounded (vs @ [v]) \<longleftrightarrow> bounded vs \<and> length v \<le> 2 ^ 30"
  by (auto simp: bounded_def)

lemma bounded_nth: "bounded vs \<Longrightarrow> i < length vs \<Longrightarrow> length (vs ! i) \<le> 2 ^ 30"
  by (simp add: bounded_def)

lemma val_step_bounded:
  assumes b: "bounded vs" and v: "val_step p vs = Some vs'"
  shows "bounded vs'"
proof (cases p)
  case (Destroy i)
  then have "vs' = take i vs @ drop (Suc i) vs" using v by (auto split: if_splits)
  then show ?thesis using b unfolding bounded_def
    by (metis Un_iff in_set_dropD in_set_takeD set_append)
next
  case (Cut_start i n)
  then show ?thesis using assms bounded_nth [OF b, of i]
    by (auto simp: on_value_def split: if_splits intro!: bounded_update)
next
  case (Cut_end i n)
  then show ?thesis using assms bounded_nth [OF b, of i]
    by (auto simp: on_value_def split: if_splits intro!: bounded_update)
next
  case (Assign i j)
  then show ?thesis using assms bounded_nth [OF b, of j]
    by (auto simp: on_value_def split: if_splits intro!: bounded_update)
next
  case (Fragment i m n)
  then show ?thesis using assms
    by (auto simp: new_value_def may_grow_def bounded_append split: if_splits)
next
  case (Copy i)
  then show ?thesis using assms bounded_nth [OF b, of i]
    by (auto simp: new_value_def bounded_append split: if_splits)
qed (use assms in \<open>auto simp: on_value_def may_grow_def bounded_append split: if_splits
    intro!: bounded_update\<close>)

lemma val_run_bounded: "bounded vs \<Longrightarrow> val_run ps vs = Some vs' \<Longrightarrow> bounded vs'"
  by (induction ps arbitrary: vs)
    (auto simp: bind_eq_Some_conv split: if_splits dest: val_step_bounded)

text \<open>
  C35: Serializing any live buffer after any sequence of operations into memory of
  \<open>GetSerializedSize\<close> bytes succeeds, and deserializing the result, with the size that includes
  the length field of the packet format, succeeds and gives a new buffer with the same bytes,
  whatever the memory held before.
\<close>

theorem serialize_round_trip:
  assumes "val_run ps [] = Some vs" and "i < length vs"
  shows "\<exists>bs st. buf_run ps ([], initial_store junk) = Some (bs, st) \<and>
    (\<forall>out. length out = unat (b_GetSerializedSize (bs ! i)) \<longrightarrow>
      (\<exists>out' b' st'. b_Serialize out (b_GetSerializedSize (bs ! i)) (bs ! i) st = Some (1, out') \<and>
        b_Deserialize out' (b_GetSerializedSize (bs ! i) + 4) st = Some (1, b', st') \<and>
        b_CopyData (b_GetSize b') b' st' = Some (vs ! i, of_nat (length (vs ! i)))))"
proof -
  from buf_run_refines [OF initial_stands_for [of junk] assms(1)] obtain bs st where
    run: "buf_run ps ([], initial_store junk) = Some (bs, st)" and s: "stands_for (bs, st) vs" by auto
  then have ok: "store_ok st (mset bs) {#}" and vs: "vs = map (contents st) bs" by (auto simp: stands_for_def)
  have i: "i < length bs" using assms(2) vs by simp
  obtain R where R: "mset bs = add_mset (bs ! i) R" using buffer_at [OF i] by metis
  have con: "contents st (bs ! i) = vs ! i" using i vs by simp
  have len: "length (contents st (bs ! i)) \<le> 2 ^ 30"
    using bounded_nth [OF val_run_bounded [OF _ assms(1)] assms(2)] con by (simp add: bounded_def)
  let ?n = "b_GetSerializedSize (bs ! i)"
  have "\<exists>out' b' st'. b_Serialize out ?n (bs ! i) st = Some (1, out') \<and>
      b_Deserialize out' (?n + 4) st = Some (1, b', st') \<and>
      b_CopyData (b_GetSize b') b' st' = Some (vs ! i, of_nat (length (vs ! i)))"
    if out: "length out = unat ?n" for out
  proof -
    from Serialize_ok [OF ok [unfolded R] len, of out ?n] out obtain A c T out' where
      1: "b_Serialize out ?n (bs ! i) st = Some (1, out')" "vs ! i = A @ replicate c 0 @ T"
      "serialized A c T out'" "unat ?n = 12 + 4 * ((length A + 3) div 4) + 4 * ((length T + 3) div 4)"
      using con by auto
    have act: "length A + c + length T \<le> 2 ^ 30" using len con 1(2) by simp
    have "4 * ((length A + 3) div 4) \<le> length A + 3" "4 * ((length T + 3) div 4) \<le> length T + 3" by simp_all
    then have "unat (?n + 4) = 16 + 4 * ((length A + 3) div 4) + 4 * ((length T + 3) div 4)"
      using 1(4) act by (subst unat_add_no_wrap) simp_all
    from Deserialize_ok [OF ok 1(3) act this] obtain b' st' where
      2: "b_Deserialize out' (?n + 4) st = Some (1, b', st')" "store_ok st' (add_mset b' (mset bs)) {#}"
      "contents st' b' = vs ! i" using 1(2) by auto
    have "stands_for ([b'] @ bs, st') (map (contents st') ([b'] @ bs))" using 2(2) by (simp add: stands_for_def)
    from stands_for_read [OF this] have
      "b_CopyData (b_GetSize b') b' st' = Some (vs ! i, of_nat (length (vs ! i)))" using 2(3) by simp
    with 1(1) 2(1) show ?thesis by blast
  qed
  with run show ?thesis by blast
qed

theorem serialize_round_trip_witness:
  "\<exists>bs st out' b' st'. buf_run sample_client ([], initial_store (\<lambda>_ _. 7)) = Some (bs, st) \<and>
    b_Serialize (replicate (unat (b_GetSerializedSize (bs ! 1))) 9) (b_GetSerializedSize (bs ! 1)) (bs ! 1) st =
      Some (1, out') \<and>
    b_Deserialize out' (b_GetSerializedSize (bs ! 1) + 4) st = Some (1, b', st') \<and>
    b_CopyData (b_GetSize b') b' st' = Some ([2, 0, 0], 3)"
proof -
  have "(1 :: nat) < length [[4, 1, 2, 0, 0, 9], [2, 0, 0 :: u8]]" by simp
  from serialize_round_trip [OF sample_client_run this, of "\<lambda>_ _. 7"] show ?thesis by fastforce
qed

end
