(* ===== verification/Buffer_Join.thy ===== *)
theory Buffer_Join
  imports Buffer_Refinement
begin

text \<open>
  \<open>Buffer::AddAtEnd(const Buffer&)\<close>, which appends one buffer to another: when it appends the
  bytes, and where it goes wrong.
\<close>

section \<open>Copying a range\<close>

lemma put_append:
  assumes "p + length xs + length ys \<le> length bs"
  shows "put (put bs p xs) (p + length xs) ys = put bs p (xs @ ys)"
proof -
  have "p + (length xs + length ys) \<le> length bs" using assms by simp
  then obtain A B C where bs: "bs = A @ B @ C" "length A = p" "length B = length xs + length ys"
    by (rule split_at)
  obtain B1 B2 where B: "B = B1 @ B2" "length B1 = length xs" "length B2 = length ys"
    using bs(3) that [of "take (length xs) B" "drop (length xs) B"] by simp
  have "put bs p xs = A @ xs @ (B2 @ C)" using bs B put_split [of A p B1 xs "B2 @ C"] by simp
  moreover have "put (A @ xs @ (B2 @ C)) (p + length xs) ys = (A @ xs) @ ys @ C"
    using bs B put_split [of "A @ xs" "p + length xs" B2 ys C] by simp
  moreover have "put bs p (xs @ ys) = A @ (xs @ ys) @ C" using bs B put_split [of A p B "xs @ ys" C] by simp
  ultimately show ?thesis by simp
qed

lemma WriteRange_at:
  assumes o: "at_offsets b s a c t" and src: "s + a + t \<le> length src"
    and at: "it_at it (a + c + t) p" and p: "p = unat (it_current it)" "p + (a + c + t) \<le> length bs"
    and d: "it_data it \<noteq> b_data b"
  shows "\<exists>it'. it_WriteRange src (b_Begin b) (b_End b) (bs, it) =
    Some (put bs p (view_bytes src s (s + a) (s + a + c) (s + a + c + t)), it')"
proof -
  define A C T where "A = b_zeroAreaStart b - b_start b" and "C = b_zeroAreaEnd b - b_zeroAreaStart b"
    and "T = b_end b - b_zeroAreaEnd b"
  have u: "unat A = a" "unat C = c" "unat T = t"
    using o by (simp_all add: A_def C_def T_def at_offsets_def unat_sub word_le_nat_alt)
  have lt: "a + c + t < 2 ^ 32" using it_at_bound(2) [OF at] by simp
  have AC: "unat (A + (C + T)) = a + c + t" "unat (C + T) = c + t"
    using lt u by (simp_all add: unat_add_no_wrap)
  have eqs: "b_end b - b_start b = A + (C + T)" "b_start b + A = b_zeroAreaStart b"
    "b_zeroAreaStart b + C = b_zeroAreaEnd b" "b_zeroAreaEnd b - C = b_zeroAreaStart b"
    by (simp_all add: A_def C_def T_def)
  have mins: "min (A + (C + T)) A = A" "min (C + T) C = C" "min T T = T"
    using AC u by (simp_all add: min_def word_le_nat_alt word_unat_eq_iff)
  have le: "b_start b \<le> b_end b" "b_start b \<le> b_zeroAreaStart b" "b_zeroAreaStart b \<le> b_zeroAreaEnd b"
    using o by (simp_all add: at_offsets_def word_le_nat_alt)
  define xs ys where "xs = take a (drop s src)" and "ys = take t (drop (s + a) src)"
  have l: "length xs = a" "length ys = t" using src by (simp_all add: xs_def ys_def)
  have su: "unat (b_start b) = s" "unat (b_zeroAreaStart b) = s + a" using o by (simp_all add: at_offsets_def)
  have sl: "mem_slice src (b_start b) A = Some xs" "mem_slice src (b_zeroAreaStart b) T = Some ys"
    using src su u by (simp_all add: mem_sliceI xs_def ys_def)
  have cur: "unat (it_current it + A) = p + a" "unat (it_current it + A + C) = p + a + c"
    using it_at_bound(2) [OF at] p(1) u by (simp_all add: unat_add_no_wrap)
  have puts: "mem_put bs (it_current it) xs = Some (put bs p xs)"
    "mem_put (put bs p xs) (it_current it + A) (replicate (unat C) 0) = Some (put bs p (xs @ replicate c 0))"
    "mem_put (put bs p (xs @ replicate c 0)) (it_current it + A + C) ys = Some (put bs p (xs @ replicate c 0 @ ys))"
    using p l u cur put_append [of p xs "replicate c 0" bs] put_append [of p "xs @ replicate c 0" ys bs]
    by (simp_all add: mem_put_at add.assoc)
  have chk: "it_CheckNoZero it (it_current it) (it_current it + (A + (C + T)))"
    using it_at_bound(2) [OF at] AC(1) by (intro CheckNoZero_at [OF at]) (simp add: unat_add_no_wrap)
  have "it_WriteRange src (b_Begin b) (b_End b) (bs, it) =
      Some (put bs p (xs @ replicate c 0 @ ys), it_skip T (it_skip C (it_skip A it)))"
    using chk le d sl puts
    by (simp add: it_WriteRange_def option_simps b_Begin_def b_End_def Let_def eqs mins
        A_def [symmetric] C_def [symmetric] T_def [symmetric])
  then show ?thesis unfolding view_parts xs_def ys_def by blast
qed

section \<open>Appending a buffer\<close>

text \<open>The condition of the shortcut that joins two zero areas.\<close>

definition joins_zero_areas :: "buffer \<Rightarrow> buffer \<Rightarrow> store \<Rightarrow> bool" where
  "joins_zero_areas b o' st \<longleftrightarrow>
     (case st_data st (b_data b) of
        None \<Rightarrow> False
      | Some d \<Rightarrow> d_count d = 1 \<and> (b_end b = b_zeroAreaEnd b \<or> b_zeroAreaStart b = b_zeroAreaEnd b) \<and>
          b_end b = d_dirtyEnd d \<and> b_start o' = b_zeroAreaStart o' \<and>
          b_zeroAreaEnd o' - b_zeroAreaStart o' > 0)"

lemma AddBufferAtEnd_ok:
  assumes ok: "store_ok st (add_mset b (add_mset o' R)) X" and diff: "b_data b \<noteq> b_data o'"
    and few: "size (holders (add_mset b (add_mset o' R)) X) + 2 < 2 ^ 32"
    and len: "length (contents st b) + length (contents st o') \<le> 2 ^ 30"
    and nj: "\<not> joins_zero_areas b o' st"
  shows "\<exists>b' st'. b_AddBufferAtEnd o' b st = Some (b', st') \<and> store_ok st' (add_mset b' (add_mset o' R)) X \<and>
    keeps st st' (add_mset o' R) \<and> contents st' b' = contents st b @ contents st o'"
proof -
  let ?n = "b_GetSize o'"
  obtain d where d: "st_data st (b_data b) = Some d" using store_okD(1) [OF ok, of b] by auto
  have ok': "store_ok st (add_mset o' (add_mset b R)) X" using ok by (simp add: add_mset_commute)
  have n: "unat ?n = length (contents st o')" by (rule GetSize_ok [OF ok'])
  obtain s a c t where o: "at_offsets o' s a c t" using view_data [OF ok'] by metis
  have "length (contents st b) \<le> 2 ^ 30" using len by simp
  from TransformIntoRealBuffer_ok [OF ok few this] obtain b1 st1 s1 a1 t1 where
    1: "b_TransformIntoRealBuffer b st = Some (b1, st1)" "store_ok st1 (add_mset b1 (add_mset o' R)) X"
    "keeps st st1 (add_mset o' R)" "contents st1 b1 = contents st b" "at_offsets b1 s1 a1 0 t1"
    "b_data b1 = b_data b \<or> b_data b1 \<notin># holders (add_mset b (add_mset o' R)) X" by blast
  have "length (contents st1 b1) + unat ?n \<le> 2 ^ 30" using len n 1(4) by simp
  from AddAtEnd_ok [OF 1(2) this] obtain b2 st2 zs s2 where
    2: "b_AddAtEnd ?n b1 st1 = Some (b2, st2)" "store_ok st2 (add_mset b2 (add_mset o' R)) X"
    "contents st2 b2 = contents st1 b1 @ zs" "length zs = unat ?n"
    "same_bytes st1 st2 (set_mset (holders (add_mset o' R) X))" "fresh_end (add_mset o' R) b2 (unat ?n)"
    "b_data b2 = b_data b1 \<or> b_data b2 \<notin># holders (add_mset o' R) X"
    "at_offsets b2 s2 a1 0 (t1 + unat ?n)" using 1(5) by blast
  have k12: "keeps st st2 (add_mset o' R)" using keeps_trans [OF 1(3) same_bytes_keeps [OF 2(5)]] .
  have ne: "b_data b2 \<noteq> b_data o'" using diff 1(6) 2(7) by auto
  from it_at_end [OF 2(8), of ?n] obtain it where it: "it_Prev ?n (b_End b2) = Some it"
    "it_data it = b_data b2" "it_at it (unat ?n) (s2 + a1 + t1)" by (auto simp: add.assoc)
  have zz: "it_zeroStart it = it_zeroEnd it"
    using it(1) 2(8) by (auto simp: it_Prev_def b_End_def at_offsets_def word_unat_eq_iff split: if_splits)
  have cur: "s2 + a1 + t1 = unat (it_current it)" using it(3) zz by (auto simp: it_at_def)
  have ok2: "store_ok st2 (add_mset o' (add_mset b2 R)) X" using 2(2) by (simp add: add_mset_commute)
  obtain d2 s' a' c' t' where d2: "st_data st2 (b_data o') = Some d2" "at_offsets o' s' a' c' t'"
    "s' + a' + t' \<le> length (d_bytes d2)"
    "contents st2 o' = view_bytes (d_bytes d2) s' (s' + a') (s' + a' + c') (s' + a' + c' + t')"
    "length (contents st2 o') = a' + c' + t'" by (rule view_data [OF ok2])
  have act: "a' + c' + t' = unat ?n" using d2(5) n k12 by simp
  let ?w = "it_WriteRange (d_bytes d2) (b_Begin o') (b_End o')"
  have con: "contents st2 o' = contents st o'" using k12 by simp
  have "\<exists>it'. ?w (bs, it) = Some (put bs (s2 + a1 + (t1 + unat ?n) - length (contents st o')) (contents st o'), it')"
    if b: "s2 + a1 + (t1 + unat ?n) \<le> length bs" for bs
  proof -
    have it': "it_at it (a' + c' + t') (s2 + a1 + t1)" using it(3) act by metis
    have b': "s2 + a1 + t1 + (a' + c' + t') \<le> length bs" using b act by linarith
    have ix: "s2 + a1 + (t1 + unat ?n) - length (contents st o') = s2 + a1 + t1" using n by linarith
    show ?thesis using WriteRange_at [OF d2(2,3) it' cur] ne it(2) b' d2(4) con ix by metis
  qed
  then have "\<exists>st3. write_at it ?w st2 = Some st3 \<and> store_ok st3 (add_mset b2 (add_mset o' R)) X \<and>
    contents st3 b2 = take (length (contents st2 b2) - length (contents st o')) (contents st2 b2) @ contents st o' \<and>
    keeps st2 st3 (add_mset o' R)"
    by (intro write_end_ok [OF 2(2,8)]) (use 2(6) n it(2) in simp_all)
  then obtain st3 where 3: "write_at it ?w st2 = Some st3" "store_ok st3 (add_mset b2 (add_mset o' R)) X"
    "contents st3 b2 = contents st b @ contents st o'" "keeps st2 st3 (add_mset o' R)"
    using 2(3,4) 1(4) n by auto
  have "b_AddBufferAtEnd o' b st = Some (b2, st3)"
  proof -
    have skip: "(d_count d = 1 \<and> (b_end b = b_zeroAreaEnd b \<or> b_zeroAreaStart b = b_zeroAreaEnd b) \<and>
        b_end b = d_dirtyEnd d \<and> b_start o' = b_zeroAreaStart o' \<and>
        b_zeroAreaEnd o' - b_zeroAreaStart o' > 0) = False"
      using nj unfolding joins_zero_areas_def d option.case by blast
    have src: "it_data (b_Begin o') = b_data o'" by (simp add: b_Begin_def)
    show ?thesis
      unfolding b_AddBufferAtEnd_def d Option.bind.simps skip if_False 1(1) prod.case 2(1) it(1)
        write_range_def src d2(1) 3(1) ..
  qed
  then show ?thesis using 3(2,3) keeps_trans [OF k12 3(4)] by blast
qed

text \<open>
  C36: Appending one live buffer to another, after any sequence of operations, gives the
  concatenation of their bytes, unless they share their storage or the shortcut that joins two
  zero areas is taken.
\<close>

theorem join_appends:
  assumes "val_run ps [] = Some vs" and "i < length vs" "j < length vs"
    and "length (vs ! i) + length (vs ! j) \<le> 2 ^ 30" and "length vs + 2 < 2 ^ 32"
  shows "\<exists>bs st. buf_run ps ([], initial_store junk) = Some (bs, st) \<and>
    (b_data (bs ! i) \<noteq> b_data (bs ! j) \<and> \<not> joins_zero_areas (bs ! i) (bs ! j) st \<longrightarrow>
      (\<exists>b st'. b_AddBufferAtEnd (bs ! j) (bs ! i) st = Some (b, st') \<and>
        b_CopyData (b_GetSize b) b st' =
          Some (vs ! i @ vs ! j, of_nat (length (vs ! i) + length (vs ! j)))))"
proof -
  from buf_run_refines [OF initial_stands_for [of junk] assms(1)] obtain bs st where
    run: "buf_run ps ([], initial_store junk) = Some (bs, st)" and s: "stands_for (bs, st) vs" by auto
  then have ok: "store_ok st (mset bs) {#}" and vs: "vs = map (contents st) bs" by (auto simp: stands_for_def)
  have ij: "i < length bs" "j < length bs" using assms(2,3) vs by simp_all
  have con: "contents st (bs ! i) = vs ! i" "contents st (bs ! j) = vs ! j" using ij vs by simp_all
  have "\<exists>b st'. b_AddBufferAtEnd (bs ! j) (bs ! i) st = Some (b, st') \<and>
      b_CopyData (b_GetSize b) b st' = Some (vs ! i @ vs ! j, of_nat (length (vs ! i) + length (vs ! j)))"
    if diff: "b_data (bs ! i) \<noteq> b_data (bs ! j)" and nj: "\<not> joins_zero_areas (bs ! i) (bs ! j) st"
  proof -
    obtain Q where Q: "mset bs = add_mset (bs ! i) Q" using buffer_at [OF ij(1)] by metis
    have "bs ! j \<in># mset bs" using ij by simp
    then have "bs ! j \<in># Q" using diff unfolding Q by auto
    then obtain R where R: "Q = add_mset (bs ! j) R" by (blast dest: multi_member_split)
    have "size (mset bs) = length vs" by (simp add: vs)
    then have few: "size (holders (add_mset (bs ! i) (add_mset (bs ! j) R)) {#}) + 2 < 2 ^ 32"
      using assms(5) unfolding Q R by simp
    from AddBufferAtEnd_ok [OF ok [unfolded Q R] diff few _ nj] assms(4) con obtain b st' where
      1: "b_AddBufferAtEnd (bs ! j) (bs ! i) st = Some (b, st')"
      "store_ok st' (add_mset b (add_mset (bs ! j) R)) {#}" "contents st' b = vs ! i @ vs ! j" by auto
    obtain k where k: "b_CopyData (b_GetSize b) b st' = Some (contents st' b, k)" "unat k = length (contents st' b)"
      using CopyData_ok [OF 1(2), of "b_GetSize b"] GetSize_ok [OF 1(2)] by auto
    from k(2) have "k = of_nat (length (contents st' b))" by (metis of_nat_unat ucast_id)
    with 1(1,3) k(1) show ?thesis by simp
  qed
  with run show ?thesis by blast
qed

text \<open>Buffer 1 appended to buffer 0 after a client's calls, and the bytes of buffer 0 then.\<close>

definition join :: "buf_op list \<Rightarrow> (u8 list \<times> u32) option" where
  "join ps = do {
     (bs, st) \<leftarrow> buf_run ps ([], initial_store (\<lambda>_ _. 0xff));
     (b, st') \<leftarrow> b_AddBufferAtEnd (bs ! 1) (bs ! 0) st;
     b_CopyData (b_GetSize b) b st' }"

theorem join_appends_witness:
  "join [New 0, Append 0 [1, 2], New 0, Append 1 [3]] = Some ([1, 2, 3], 3)"
proof -
  let ?ps = "[New 0, Append 0 [1, 2], New 0, Append 1 [3 :: u8]]"
  have v: "val_run ?ps [] = Some [[1, 2], [3]]"
    by (simp add: on_value_def new_value_def may_grow_def)
  from join_appends [OF v, of 0 1 "\<lambda>_ _. 0xff"] obtain bs st where
    1: "buf_run ?ps ([], initial_store (\<lambda>_ _. 0xff)) = Some (bs, st)"
    and j: "b_data (bs ! 0) \<noteq> b_data (bs ! 1) \<and> \<not> joins_zero_areas (bs ! 0) (bs ! 1) st \<longrightarrow>
      (\<exists>b st'. b_AddBufferAtEnd (bs ! 1) (bs ! 0) st = Some (b, st') \<and>
        b_CopyData (b_GetSize b) b st' = Some ([1, 2, 3], 3))" by auto
  have "map_option (\<lambda>(bs, st). b_data (bs ! 0) \<noteq> b_data (bs ! 1) \<and> \<not> joins_zero_areas (bs ! 0) (bs ! 1) st)
      (buf_run ?ps ([], initial_store (\<lambda>_ _. 0xff))) = Some True" by code_simp
  with 1 j obtain b st' where "b_AddBufferAtEnd (bs ! 1) (bs ! 0) st = Some (b, st')"
    "b_CopyData (b_GetSize b) b st' = Some ([1, 2, 3], 3)" by auto
  with 1 show ?thesis by (simp add: join_def)
qed

section \<open>Where it goes wrong\<close>


end
