(* ===== verification/Type_Id.thy ===== *)
theory Type_Id
  imports Prelude "HOL-Library.Char_ord" "HOL-Library.List_Lexorder"
begin

unbundle bit_operations_syntax

text \<open>
  \<open>ns3::IidManager\<close> and the lookups of \<open>ns3::TypeId\<close> (src/src/core/model/type-id.cc): the registry
  of types, indexed by name and by a hash of the name, whose upper bit tells two names with the same
  hash apart. The hash function (Murmur3 over the name) is a parameter. A \<open>std::map\<close> is a map. \<open>None\<close> is a failed
  assertion or a fatal error. What attributes and trace sources do is not modelled: their values, accessors
  and checkers are numbers.
\<close>

section \<open>The registry\<close>

datatype support_level = SUPPORTED | DEPRECATED | OBSOLETE

text \<open>Objects that the registry only keeps pointers to: initial values, accessors, checkers, callbacks.\<close>

type_synonym object_ptr = nat

record attribute_information =
  ai_name :: string
  ai_help :: string
  ai_flags :: u32
  ai_originalInitialValue :: object_ptr
  ai_initialValue :: object_ptr
  ai_accessor :: object_ptr
  ai_checker :: object_ptr
  ai_supportLevel :: support_level
  ai_supportMsg :: string

record trace_source_information =
  ti_name :: string
  ti_help :: string
  ti_callback :: string
  ti_accessor :: object_ptr
  ti_supportLevel :: support_level
  ti_supportMsg :: string

text \<open>\<open>hasConstructor\<close> and \<open>constructor\<close> are one option.\<close>

record iid_information =
  ii_name :: string
  ii_deprecatedName :: string
  ii_hash :: u32
  ii_parent :: u16
  ii_groupName :: string
  ii_size :: u64
  ii_constructor :: "object_ptr option"
  ii_hide :: bool
  ii_attributes :: "attribute_information list"
  ii_traceSources :: "trace_source_information list"
  ii_supportLevel :: support_level
  ii_supportMsg :: string

record iid_manager =
  im_information :: "iid_information list"
  im_namemap :: "string \<rightharpoonup> u16"
  im_hashmap :: "u32 \<rightharpoonup> u16"

definition HashChainFlag :: u32 where
  "HashChainFlag = 0x80000000"

definition iid_empty :: iid_manager where
  "iid_empty = \<lparr>im_information = [], im_namemap = Map.empty, im_hashmap = Map.empty\<rparr>"

definition LookupInformation :: "u16 \<Rightarrow> iid_manager \<Rightarrow> iid_information option" where
  "LookupInformation uid im = do {
     ns_assert (unat uid \<le> length (im_information im) \<and> uid \<noteq> 0);
     Some (im_information im ! (unat uid - 1)) }"

text \<open>\<open>information->... = ...\<close> through the pointer that \<open>LookupInformation\<close> returns.\<close>

definition UpdateInformation ::
  "u16 \<Rightarrow> (iid_information \<Rightarrow> iid_information) \<Rightarrow> iid_manager \<Rightarrow> iid_manager option" where
  "UpdateInformation uid f im = do {
     i \<leftarrow> LookupInformation uid im;
     Some (im\<lparr>im_information := (im_information im)[unat uid - 1 := f i]\<rparr>) }"

definition GetUid_name :: "string \<Rightarrow> iid_manager \<Rightarrow> u16" where
  "GetUid_name name im = (case im_namemap im name of Some uid \<Rightarrow> uid | None \<Rightarrow> 0)"

definition GetUid_hash :: "u32 \<Rightarrow> iid_manager \<Rightarrow> u16" where
  "GetUid_hash hash im = (case im_hashmap im hash of Some uid \<Rightarrow> uid | None \<Rightarrow> 0)"

text \<open>\<open>insert\<close> of a \<open>std::map\<close> keeps an entry that is already there.\<close>

definition map_insert :: "'a \<Rightarrow> 'b \<Rightarrow> ('a \<rightharpoonup> 'b) \<Rightarrow> ('a \<rightharpoonup> 'b)" where
  "map_insert k v m = (if m k = None then m(k \<mapsto> v) else m)"

text \<open>The second name with a hash: the one that comes later in the alphabet gets the flag.\<close>

definition chain_hash :: "string \<Rightarrow> u32 \<Rightarrow> iid_manager \<Rightarrow> (u32 \<times> iid_manager) option" where
  "chain_hash name hash im =
     (if im_hashmap im hash = None then Some (hash, im)
      else do {
        ns_assert (im_hashmap im (hash OR HashChainFlag) = None);
        let uid = GetUid_hash hash im;
        hinfo \<leftarrow> LookupInformation uid im;
        (if name > ii_name hinfo then Some (hash OR HashChainFlag, im)
         else do {
           let oldUid = GetUid_hash (ii_hash hinfo) im;
           ns_assert (im_hashmap im (ii_hash hinfo) \<noteq> None);
           im1 \<leftarrow> UpdateInformation uid (\<lambda>i. i\<lparr>ii_hash := hash OR HashChainFlag\<rparr>)
             (im\<lparr>im_hashmap := (im_hashmap im)(ii_hash hinfo := None)\<rparr>);
           Some (hash, im1\<lparr>im_hashmap := map_insert (hash OR HashChainFlag) oldUid (im_hashmap im1)\<rparr>) }) })"

definition AllocateUid :: "(string \<Rightarrow> u32) \<Rightarrow> string \<Rightarrow> iid_manager \<Rightarrow> (u16 \<times> iid_manager) option" where
  "AllocateUid Hasher name im = do {
     ns_assert (im_namemap im name = None);
     (hash, im1) \<leftarrow> chain_hash name (Hasher name AND NOT HashChainFlag) im;
     let information = \<lparr>ii_name = name, ii_deprecatedName = '''', ii_hash = hash, ii_parent = 0,
       ii_groupName = '''', ii_size = -1, ii_constructor = None, ii_hide = False, ii_attributes = [],
       ii_traceSources = [], ii_supportLevel = SUPPORTED, ii_supportMsg = ''''\<rparr>;
     let im2 = im1\<lparr>im_information := im_information im1 @ [information]\<rparr>;
     let tuid = length (im_information im2);
     ns_assert (tuid \<le> 0xffff);
     let uid = of_nat tuid;
     Some (uid, im2\<lparr>im_namemap := map_insert name uid (im_namemap im2),
                    im_hashmap := map_insert hash uid (im_hashmap im2)\<rparr>) }"

definition AddDeprecatedName :: "u16 \<Rightarrow> string \<Rightarrow> iid_manager \<Rightarrow> iid_manager option" where
  "AddDeprecatedName uid name im = do {
     info \<leftarrow> LookupInformation uid im;
     ns_assert (ii_deprecatedName info = '''');
     ns_assert (im_namemap im name = None);
     UpdateInformation uid (\<lambda>i. i\<lparr>ii_deprecatedName := name\<rparr>) (im\<lparr>im_namemap := map_insert name uid (im_namemap im)\<rparr>) }"

definition SetParent :: "u16 \<Rightarrow> u16 \<Rightarrow> iid_manager \<Rightarrow> iid_manager option" where
  "SetParent uid parent im = do {
     ns_assert (unat parent \<le> length (im_information im));
     UpdateInformation uid (\<lambda>i. i\<lparr>ii_parent := parent\<rparr>) im }"

definition SetGroupName :: "u16 \<Rightarrow> string \<Rightarrow> iid_manager \<Rightarrow> iid_manager option" where
  "SetGroupName uid groupName = UpdateInformation uid (\<lambda>i. i\<lparr>ii_groupName := groupName\<rparr>)"

definition SetSize :: "u16 \<Rightarrow> u64 \<Rightarrow> iid_manager \<Rightarrow> iid_manager option" where
  "SetSize uid n = UpdateInformation uid (\<lambda>i. i\<lparr>ii_size := n\<rparr>)"

definition HideFromDocumentation :: "u16 \<Rightarrow> iid_manager \<Rightarrow> iid_manager option" where
  "HideFromDocumentation uid = UpdateInformation uid (\<lambda>i. i\<lparr>ii_hide := True\<rparr>)"

definition AddConstructor :: "u16 \<Rightarrow> object_ptr \<Rightarrow> iid_manager \<Rightarrow> iid_manager option" where
  "AddConstructor uid callback im = do {
     information \<leftarrow> LookupInformation uid im;
     ns_assert (ii_constructor information = None);
     UpdateInformation uid (\<lambda>i. i\<lparr>ii_constructor := Some callback\<rparr>) im }"

definition GetName :: "u16 \<Rightarrow> iid_manager \<Rightarrow> string option" where
  "GetName uid im = map_option ii_name (LookupInformation uid im)"

definition GetDeprecatedName :: "u16 \<Rightarrow> iid_manager \<Rightarrow> string option" where
  "GetDeprecatedName uid im = map_option ii_deprecatedName (LookupInformation uid im)"

definition GetHash :: "u16 \<Rightarrow> iid_manager \<Rightarrow> u32 option" where
  "GetHash uid im = map_option ii_hash (LookupInformation uid im)"

definition GetParent :: "u16 \<Rightarrow> iid_manager \<Rightarrow> u16 option" where
  "GetParent uid im = map_option ii_parent (LookupInformation uid im)"

definition GetGroupName :: "u16 \<Rightarrow> iid_manager \<Rightarrow> string option" where
  "GetGroupName uid im = map_option ii_groupName (LookupInformation uid im)"

definition GetSize_tid :: "u16 \<Rightarrow> iid_manager \<Rightarrow> u64 option" where
  "GetSize_tid uid im = map_option ii_size (LookupInformation uid im)"

definition GetConstructor :: "u16 \<Rightarrow> iid_manager \<Rightarrow> object_ptr option" where
  "GetConstructor uid im = do { information \<leftarrow> LookupInformation uid im; ii_constructor information }"

definition HasConstructor :: "u16 \<Rightarrow> iid_manager \<Rightarrow> bool option" where
  "HasConstructor uid im = map_option (\<lambda>i. ii_constructor i \<noteq> None) (LookupInformation uid im)"

definition MustHideFromDocumentation :: "u16 \<Rightarrow> iid_manager \<Rightarrow> bool option" where
  "MustHideFromDocumentation uid im = map_option ii_hide (LookupInformation uid im)"

definition GetRegisteredN :: "iid_manager \<Rightarrow> u16" where
  "GetRegisteredN im = of_nat (length (im_information im))"

definition GetRegistered :: "u16 \<Rightarrow> u16" where
  "GetRegistered i = i + 1"

text \<open>
  Attributes and trace sources: the loops go up the parents to a type that is its own parent. The
  pointers \<open>parent\<close> and \<open>information\<close> are equal exactly if the ids are.
\<close>

partial_function (option) HasAttribute :: "u16 \<Rightarrow> string \<Rightarrow> iid_manager \<Rightarrow> bool option" where
  "HasAttribute uid name im = do {
     information \<leftarrow> LookupInformation uid im;
     (if name \<in> ai_name ` set (ii_attributes information) then Some True
      else do {
        _ \<leftarrow> LookupInformation (ii_parent information) im;
        (if ii_parent information = uid then Some False else HasAttribute (ii_parent information) name im) }) }"

definition AddAttribute :: "u16 \<Rightarrow> string \<Rightarrow> string \<Rightarrow> u32 \<Rightarrow> object_ptr \<Rightarrow> object_ptr \<Rightarrow> object_ptr \<Rightarrow>
    support_level \<Rightarrow> string \<Rightarrow> iid_manager \<Rightarrow> iid_manager option" where
  "AddAttribute uid name help flags initialValue accessor checker supportLevel supportMsg im = do {
     _ \<leftarrow> LookupInformation uid im;
     ns_assert (CHR '' '' \<notin> set name);
     found \<leftarrow> HasAttribute uid name im;
     ns_assert (\<not> found);
     let info = \<lparr>ai_name = name, ai_help = help, ai_flags = flags, ai_originalInitialValue = initialValue,
       ai_initialValue = initialValue, ai_accessor = accessor, ai_checker = checker,
       ai_supportLevel = supportLevel, ai_supportMsg = supportMsg\<rparr>;
     UpdateInformation uid (\<lambda>i. i\<lparr>ii_attributes := ii_attributes i @ [info]\<rparr>) im }"

definition SetAttributeInitialValue :: "u16 \<Rightarrow> nat \<Rightarrow> object_ptr \<Rightarrow> iid_manager \<Rightarrow> iid_manager option" where
  "SetAttributeInitialValue uid i initialValue im = do {
     information \<leftarrow> LookupInformation uid im;
     ns_assert (i < length (ii_attributes information));
     UpdateInformation uid (\<lambda>inf. inf\<lparr>ii_attributes :=
       (ii_attributes inf)[i := (ii_attributes inf ! i)\<lparr>ai_initialValue := initialValue\<rparr>]\<rparr>) im }"

definition GetAttributeN :: "u16 \<Rightarrow> iid_manager \<Rightarrow> nat option" where
  "GetAttributeN uid im = map_option (length \<circ> ii_attributes) (LookupInformation uid im)"

definition GetAttribute :: "u16 \<Rightarrow> nat \<Rightarrow> iid_manager \<Rightarrow> attribute_information option" where
  "GetAttribute uid i im = do {
     information \<leftarrow> LookupInformation uid im;
     ns_assert (i < length (ii_attributes information));
     Some (ii_attributes information ! i) }"

partial_function (option) HasTraceSource :: "u16 \<Rightarrow> string \<Rightarrow> iid_manager \<Rightarrow> bool option" where
  "HasTraceSource uid name im = do {
     information \<leftarrow> LookupInformation uid im;
     (if name \<in> ti_name ` set (ii_traceSources information) then Some True
      else do {
        _ \<leftarrow> LookupInformation (ii_parent information) im;
        (if ii_parent information = uid then Some False else HasTraceSource (ii_parent information) name im) }) }"

definition AddTraceSource :: "u16 \<Rightarrow> string \<Rightarrow> string \<Rightarrow> object_ptr \<Rightarrow> string \<Rightarrow> support_level \<Rightarrow> string \<Rightarrow>
    iid_manager \<Rightarrow> iid_manager option" where
  "AddTraceSource uid name help accessor callback supportLevel supportMsg im = do {
     _ \<leftarrow> LookupInformation uid im;
     found \<leftarrow> HasTraceSource uid name im;
     ns_assert (\<not> found);
     let source = \<lparr>ti_name = name, ti_help = help, ti_callback = callback, ti_accessor = accessor,
       ti_supportLevel = supportLevel, ti_supportMsg = supportMsg\<rparr>;
     UpdateInformation uid (\<lambda>i. i\<lparr>ii_traceSources := ii_traceSources i @ [source]\<rparr>) im }"

definition GetTraceSourceN :: "u16 \<Rightarrow> iid_manager \<Rightarrow> nat option" where
  "GetTraceSourceN uid im = map_option (length \<circ> ii_traceSources) (LookupInformation uid im)"

definition GetTraceSource :: "u16 \<Rightarrow> nat \<Rightarrow> iid_manager \<Rightarrow> trace_source_information option" where
  "GetTraceSource uid i im = do {
     information \<leftarrow> LookupInformation uid im;
     ns_assert (i < length (ii_traceSources information));
     Some (ii_traceSources information ! i) }"

section \<open>\<open>TypeId\<close>\<close>

definition LookupByName :: "string \<Rightarrow> iid_manager \<Rightarrow> u16 option" where
  "LookupByName name im = do {
     let uid = GetUid_name name im;
     ns_assert (uid \<noteq> 0);
     _ \<leftarrow> GetDeprecatedName uid im;
     Some uid }"

definition LookupByHash :: "u32 \<Rightarrow> iid_manager \<Rightarrow> u16 option" where
  "LookupByHash hash im = do { let uid = GetUid_hash hash im; ns_assert (uid \<noteq> 0); Some uid }"

definition LookupByHashFailSafe :: "u32 \<Rightarrow> iid_manager \<Rightarrow> u16 option" where
  "LookupByHashFailSafe hash im = (let uid = GetUid_hash hash im in if uid = 0 then None else Some uid)"

text \<open>\<open>IsChildOf\<close>: the loop follows the parents up to the type or to one that is its own parent.\<close>

partial_function (option) parent_loop :: "u16 \<Rightarrow> u16 \<Rightarrow> iid_manager \<Rightarrow> u16 option" where
  "parent_loop tmp other im =
     (if tmp = other then Some tmp
      else do { p \<leftarrow> GetParent tmp im; if tmp = p then Some tmp else parent_loop p other im })"

definition IsChildOf :: "u16 \<Rightarrow> u16 \<Rightarrow> iid_manager \<Rightarrow> bool option" where
  "IsChildOf tid other im = do { tmp \<leftarrow> parent_loop tid other im; Some (tmp = other \<and> tid \<noteq> other) }"

definition LookupByNameFailSafe :: "string \<Rightarrow> iid_manager \<Rightarrow> u16 option option" where
  "LookupByNameFailSafe name im = do {
     let uid = GetUid_name name im;
     (if uid = 0 then Some None else do { _ \<leftarrow> GetDeprecatedName uid im; Some (Some uid) }) }"

definition HasParent :: "u16 \<Rightarrow> iid_manager \<Rightarrow> bool option" where
  "HasParent tid im = map_option (\<lambda>parent. parent \<noteq> tid) (GetParent tid im)"

text \<open>The attribute with the type that has it; \<open>Some None\<close> when there is none.\<close>

partial_function (option) FindAttribute :: "u16 \<Rightarrow> string \<Rightarrow> iid_manager \<Rightarrow> (u16 \<times> attribute_information) option option" where
  "FindAttribute currentTid name im = do {
     information \<leftarrow> LookupInformation currentTid im;
     (case find (\<lambda>a. ai_name a = name) (ii_attributes information) of
       Some attributeInfo \<Rightarrow> Some (Some (currentTid, attributeInfo))
     | None \<Rightarrow> do {
         parentTid \<leftarrow> GetParent currentTid im;
         (if parentTid = currentTid then Some None else FindAttribute parentTid name im) }) }"

definition LookupAttributeByName :: "u16 \<Rightarrow> string \<Rightarrow> iid_manager \<Rightarrow> attribute_information option option" where
  "LookupAttributeByName tid name im = do {
     found \<leftarrow> FindAttribute tid name im;
     (case found of
       Some (_, attribute) \<Rightarrow> (if ai_supportLevel attribute = OBSOLETE then None else Some (Some attribute))
     | None \<Rightarrow> Some None) }"

partial_function (option) LookupTraceSourceByName ::
  "u16 \<Rightarrow> string \<Rightarrow> iid_manager \<Rightarrow> trace_source_information option option" where
  "LookupTraceSourceByName tid name im = do {
     information \<leftarrow> LookupInformation tid im;
     (case find (\<lambda>a. ti_name a = name) (ii_traceSources information) of
       Some tmp \<Rightarrow> (if ti_supportLevel tmp = OBSOLETE then None else Some (Some tmp))
     | None \<Rightarrow> do {
         nextTid \<leftarrow> GetParent tid im;
         (if nextTid = tid then Some None else LookupTraceSourceByName nextTid name im) }) }"

definition GetAttributeFullName :: "u16 \<Rightarrow> nat \<Rightarrow> iid_manager \<Rightarrow> string option" where
  "GetAttributeFullName tid i im = do {
     info \<leftarrow> GetAttribute tid i im;
     name \<leftarrow> GetName tid im;
     Some (name @ ''::'' @ ai_name info) }"

section \<open>Registering types\<close>

fun register_types :: "(string \<Rightarrow> u32) \<Rightarrow> string list \<Rightarrow> iid_manager \<Rightarrow> iid_manager option" where
  "register_types H [] im = Some im"
| "register_types H (n # ns) im = do { (_, im1) \<leftarrow> AllocateUid H n im; register_types H ns im1 }"

text \<open>The hash of a name among the names registered: whether another one is before it.\<close>

abbreviation base_hash :: "(string \<Rightarrow> u32) \<Rightarrow> string \<Rightarrow> u32" where
  "base_hash H n \<equiv> H n AND NOT HashChainFlag"

definition hash_among :: "(string \<Rightarrow> u32) \<Rightarrow> string set \<Rightarrow> string \<Rightarrow> u32" where
  "hash_among H S n =
     (if \<exists>m\<in>S. base_hash H m = base_hash H n \<and> m < n then base_hash H n OR HashChainFlag else base_hash H n)"

definition at_most_two :: "(string \<Rightarrow> u32) \<Rightarrow> string set \<Rightarrow> bool" where
  "at_most_two H S \<longleftrightarrow> (\<forall>x\<in>S. \<forall>y\<in>S. \<forall>z\<in>S.
     base_hash H x = base_hash H y \<longrightarrow> base_hash H y = base_hash H z \<longrightarrow> x = y \<or> y = z \<or> x = z)"

lemma flag_bits:
  "(base_hash H n OR HashChainFlag) AND NOT HashChainFlag = base_hash H n"
  "base_hash H n AND NOT HashChainFlag = base_hash H n"
  "base_hash H m \<noteq> base_hash H n OR HashChainFlag"
proof -
  show "(base_hash H n OR HashChainFlag) AND NOT HashChainFlag = base_hash H n" "base_hash H n AND NOT HashChainFlag = base_hash H n"
    by (rule bit_word_eqI; auto simp: bit_simps)+
  have "\<not> bit (base_hash H m) 31" "bit (base_hash H n OR HashChainFlag) 31" by (simp_all add: HashChainFlag_def bit_simps)
  then show "base_hash H m \<noteq> base_hash H n OR HashChainFlag" by metis
qed

lemma hash_among_base: "hash_among H S n AND NOT HashChainFlag = base_hash H n"
  by (simp add: hash_among_def flag_bits)

lemma hash_among_inj:
  assumes "at_most_two H S" and "m \<in> S" and "n \<in> S" and "hash_among H S m = hash_among H S n"
  shows "m = n"
proof (rule ccontr)
  assume ne: "m \<noteq> n"
  have b: "base_hash H m = base_hash H n" using assms(4) hash_among_base by metis
  have two: "k = m \<or> k = n" if "k \<in> S" "base_hash H k = base_hash H n" for k
    using assms(1-3) that b ne unfolding at_most_two_def by metis
  have eq: "(\<exists>k\<in>S. base_hash H k = base_hash H n \<and> k < m) \<longleftrightarrow> (\<exists>k\<in>S. base_hash H k = base_hash H n \<and> k < n)"
    using assms(4) b flag_bits(3) [of H n n] unfolding hash_among_def b by (metis (no_types))
  consider "m < n" | "n < m" using ne by (rule linorder_neqE)
  then show False
    using eq two assms(2,3) b by cases (metis less_asym less_irrefl)+
qed

lemma hash_among_insert:
  assumes "n \<notin> S" and "k \<in> S"
  shows "hash_among H (insert n S) k = (if base_hash H n = base_hash H k \<and> n < k then base_hash H k OR HashChainFlag else hash_among H S k)"
  by (auto simp: hash_among_def)

definition uid_at :: "nat \<Rightarrow> u16" where
  "uid_at i = of_nat (Suc i)"

lemma unat_uid_at: "i < 0xffff \<Longrightarrow> unat (uid_at i) = Suc i"
  unfolding uid_at_def unsigned_of_nat of_nat_id by (rule take_bit_nat_eq_self) simp

definition registered :: "(string \<Rightarrow> u32) \<Rightarrow> string list \<Rightarrow> iid_manager \<Rightarrow> bool" where
  "registered H ns im \<longleftrightarrow> distinct ns \<and> length ns \<le> 0xffff \<and> at_most_two H (set ns) \<and>
     map ii_name (im_information im) = ns \<and> map ii_hash (im_information im) = map (hash_among H (set ns)) ns \<and>
     (\<forall>n u. im_namemap im n = Some u \<longleftrightarrow> (\<exists>i<length ns. n = ns ! i \<and> u = uid_at i)) \<and>
     (\<forall>h u. im_hashmap im h = Some u \<longleftrightarrow> (\<exists>i<length ns. h = hash_among H (set ns) (ns ! i) \<and> u = uid_at i))"

lemma registered_lookup:
  assumes "registered H ns im" and "i < length ns"
  shows "LookupInformation (uid_at i) im = Some (im_information im ! i)" and "ii_name (im_information im ! i) = ns ! i"
    and "ii_hash (im_information im ! i) = hash_among H (set ns) (ns ! i)" and "im_namemap im (ns ! i) = Some (uid_at i)"
    and "im_hashmap im (hash_among H (set ns) (ns ! i)) = Some (uid_at i)"
    and "i < length (im_information im)" and "unat (uid_at i) = Suc i" and "uid_at i \<noteq> 0"
proof -
  have len: "length (im_information im) = length ns" and l: "i < 0xffff"
    using assms by (auto simp: registered_def dest: arg_cong [where f = length])
  show u: "unat (uid_at i) = Suc i" using l by (rule unat_uid_at)
  then show nz: "uid_at i \<noteq> 0" by auto
  show "i < length (im_information im)" using len assms(2) by simp
  show "LookupInformation (uid_at i) im = Some (im_information im ! i)"
    using u nz len assms(2) by (simp add: LookupInformation_def)
  have "map ii_name (im_information im) ! i = ns ! i" "map ii_hash (im_information im) ! i = map (hash_among H (set ns)) ns ! i"
    using assms(1) by (simp_all add: registered_def)
  then show "ii_name (im_information im ! i) = ns ! i" "ii_hash (im_information im ! i) = hash_among H (set ns) (ns ! i)"
    using len assms(2) by simp_all
  show "im_namemap im (ns ! i) = Some (uid_at i)" "im_hashmap im (hash_among H (set ns) (ns ! i)) = Some (uid_at i)"
    using assms unfolding registered_def by blast+
qed

lemma namemap_free: "registered H ns im \<Longrightarrow> im_namemap im n = None \<longleftrightarrow> n \<notin> set ns"
  unfolding registered_def in_set_conv_nth by (metis not_Some_eq)

lemma hashmap_free: "registered H ns im \<Longrightarrow> im_hashmap im h = None \<longleftrightarrow> h \<notin> hash_among H (set ns) ` set ns"
  unfolding registered_def image_iff Bex_def in_set_conv_nth by (metis not_Some_eq)

text \<open>The least name with a hash has it unchanged.\<close>

lemma base_taken:
  assumes "finite S"
  shows "base_hash H n \<in> hash_among H S ` S \<longleftrightarrow> (\<exists>m\<in>S. base_hash H m = base_hash H n)"
proof
  assume "base_hash H n \<in> hash_among H S ` S"
  then obtain m where "m \<in> S" "hash_among H S m = base_hash H n" by auto
  then have "base_hash H m = base_hash H n" by (metis hash_among_base flag_bits(2))
  with \<open>m \<in> S\<close> show "\<exists>m\<in>S. base_hash H m = base_hash H n" by blast
next
  assume "\<exists>m\<in>S. base_hash H m = base_hash H n"
  let ?T = "{m \<in> S. base_hash H m = base_hash H n}"
  have T: "finite ?T" "?T \<noteq> {}" using assms \<open>\<exists>m\<in>S. _\<close> by auto
  obtain x where x: "x \<in> S" "base_hash H x = base_hash H n" "\<not> (\<exists>k\<in>S. base_hash H k = base_hash H x \<and> k < x)"
  proof
    show "Min ?T \<in> S" "base_hash H (Min ?T) = base_hash H n" using Min_in [OF T] by auto
    show "\<not> (\<exists>k\<in>S. base_hash H k = base_hash H (Min ?T) \<and> k < Min ?T)"
    proof
      assume "\<exists>k\<in>S. base_hash H k = base_hash H (Min ?T) \<and> k < Min ?T"
      then obtain k where "k \<in> ?T" "k < Min ?T" using Min_in [OF T] by auto
      with Min_le [OF T(1)] show False by (meson leD)
    qed
  qed
  from x(3) have "hash_among H S x = base_hash H x" unfolding hash_among_def by (rule if_not_P)
  with x(1,2) show "base_hash H n \<in> hash_among H S ` S" by (metis imageI)
qed

lemma flag_taken:
  "base_hash H n OR HashChainFlag \<in> hash_among H S ` S \<longleftrightarrow>
   (\<exists>m\<in>S. \<exists>k\<in>S. base_hash H m = base_hash H n \<and> base_hash H k = base_hash H n \<and> k < m)"
proof
  assume "base_hash H n OR HashChainFlag \<in> hash_among H S ` S"
  then obtain m where m: "m \<in> S" "hash_among H S m = base_hash H n OR HashChainFlag" by auto
  then have "base_hash H m = base_hash H n" by (metis hash_among_base flag_bits(1))
  moreover from this m have "\<exists>k\<in>S. base_hash H k = base_hash H m \<and> k < m"
    using flag_bits(3) [of H m n] by (auto simp: hash_among_def split: if_splits)
  ultimately show "\<exists>m\<in>S. \<exists>k\<in>S. base_hash H m = base_hash H n \<and> base_hash H k = base_hash H n \<and> k < m"
    using m(1) by metis
next
  assume "\<exists>m\<in>S. \<exists>k\<in>S. base_hash H m = base_hash H n \<and> base_hash H k = base_hash H n \<and> k < m"
  then obtain m k where m: "m \<in> S" "k \<in> S" "base_hash H m = base_hash H n" "base_hash H k = base_hash H m" "k < m" by metis
  then have "hash_among H S m = base_hash H n OR HashChainFlag" unfolding hash_among_def by metis
  with m(1) show "base_hash H n OR HashChainFlag \<in> hash_among H S ` S" by (metis imageI)
qed

lemma nth_snoc: "i < length (ns @ [n]) \<Longrightarrow> (ns @ [n]) ! i = (if i < length ns then ns ! i else n)"
  by (auto simp: nth_append)

text \<open>One registration: the three cases of the hash.\<close>

lemma registered_snoc:
  assumes ok: "registered H ns im" and n: "n \<notin> set ns" and len: "length ns < 0xffff" and two: "at_most_two H (insert n (set ns))"
    and info: "map ii_name (im_information im') = ns" "map ii_hash (im_information im') = map (hash_among H (insert n (set ns))) ns"
    and name: "im_namemap im' = im_namemap im"
    and hash: "\<And>h u. im_hashmap im' h = Some u \<longleftrightarrow> (\<exists>i<length ns. h = hash_among H (insert n (set ns)) (ns ! i) \<and> u = uid_at i)"
    and new: "ii_name information = n" "ii_hash information = hash_among H (insert n (set ns)) n"
  shows "registered H (ns @ [n]) (im'\<lparr>im_information := im_information im' @ [information],
     im_namemap := map_insert n (uid_at (length ns)) (im_namemap im'),
     im_hashmap := map_insert (hash_among H (insert n (set ns)) n) (uid_at (length ns)) (im_hashmap im')\<rparr>)"
proof -
  let ?S = "insert n (set ns)" and ?N = "length ns"
  have S: "set (ns @ [n]) = ?S" by simp
  have all: "(\<exists>i<length (ns @ [n]). P i ((ns @ [n]) ! i)) \<longleftrightarrow> P ?N n \<or> (\<exists>i<?N. P i (ns ! i))" for P :: "nat \<Rightarrow> string \<Rightarrow> bool"
  proof -
    have e: "(ns @ [n]) ! ?N = n" "\<And>i. i < ?N \<Longrightarrow> (ns @ [n]) ! i = ns ! i" by (simp_all add: nth_append)
    have "(\<exists>i<length (ns @ [n]). P i ((ns @ [n]) ! i)) \<longleftrightarrow> P ?N ((ns @ [n]) ! ?N) \<or> (\<exists>i<?N. P i ((ns @ [n]) ! i))"
      by (simp only: length_append length_Cons list.size add_0_right add_Suc_right less_Suc_eq) blast
    also have "\<dots> \<longleftrightarrow> P ?N n \<or> (\<exists>i<?N. P i (ns ! i))" using e by metis
    finally show ?thesis .
  qed
  have nn: "im_namemap im' n = None" using namemap_free [OF ok] n name by metis
  have hn: "im_hashmap im' (hash_among H ?S n) = None"
  proof (rule ccontr)
    assume "\<not> ?thesis"
    then obtain u where "im_hashmap im' (hash_among H ?S n) = Some u" by blast
    then obtain i where i: "i < ?N" "hash_among H ?S n = hash_among H ?S (ns ! i)" unfolding hash by blast
    then have "n = ns ! i" by (intro hash_among_inj [OF two]) simp_all
    with i(1) n show False by simp
  qed
  have names: "map_insert n (uid_at ?N) (im_namemap im') m = Some u \<longleftrightarrow> (\<exists>i<length (ns @ [n]). m = (ns @ [n]) ! i \<and> u = uid_at i)" for m u
  proof -
    have "im_namemap im' m = Some u \<longleftrightarrow> (\<exists>i<?N. m = ns ! i \<and> u = uid_at i)"
      using ok unfolding registered_def name by blast
    then show ?thesis unfolding all [of "\<lambda>i k. m = k \<and> u = uid_at i"] using nn n
      by (auto simp: map_insert_def)
  qed
  have hashes: "map_insert (hash_among H ?S n) (uid_at ?N) (im_hashmap im') h = Some u \<longleftrightarrow>
      (\<exists>i<length (ns @ [n]). h = hash_among H ?S ((ns @ [n]) ! i) \<and> u = uid_at i)" for h u
    unfolding all [of "\<lambda>i k. h = hash_among H ?S k \<and> u = uid_at i"] using hn hash [of h u]
    by (auto simp: map_insert_def)
  show ?thesis unfolding registered_def S using ok n len two info new names hashes
    by (simp add: registered_def)
qed

lemma chain_hash_ok:
  assumes ok: "registered H ns im" and n: "n \<notin> set ns" and two: "at_most_two H (insert n (set ns))"
  shows "\<exists>im'. chain_hash n (base_hash H n) im = Some (hash_among H (insert n (set ns)) n, im') \<and>
    map ii_name (im_information im') = ns \<and> map ii_hash (im_information im') = map (hash_among H (insert n (set ns))) ns \<and>
    im_namemap im' = im_namemap im \<and>
    (\<forall>h u. im_hashmap im' h = Some u \<longleftrightarrow> (\<exists>i<length ns. h = hash_among H (insert n (set ns)) (ns ! i) \<and> u = uid_at i))"
proof -
  let ?S = "insert n (set ns)" and ?b = "base_hash H n"
  note reg = ok [unfolded registered_def]
  have old: "map ii_name (im_information im) = ns" "map ii_hash (im_information im) = map (hash_among H (set ns)) ns"
    and hm: "\<And>h u. im_hashmap im h = Some u \<longleftrightarrow> (\<exists>i<length ns. h = hash_among H (set ns) (ns ! i) \<and> u = uid_at i)"
    using reg by blast+
  have keep: ?thesis if run: "chain_hash n ?b im = Some (hash_among H ?S n, im)"
    and same: "\<And>k. k \<in> set ns \<Longrightarrow> hash_among H ?S k = hash_among H (set ns) k"
  proof -
    have "map (hash_among H ?S) ns = map (hash_among H (set ns)) ns" using same by (simp cong: map_cong)
    moreover have "(\<exists>i<length ns. h = hash_among H ?S (ns ! i) \<and> u = uid_at i) \<longleftrightarrow> im_hashmap im h = Some u" for h u
      unfolding hm using same by (metis nth_mem)
    ultimately show ?thesis using run old by (intro exI [of _ im]) simp
  qed
  show ?thesis
  proof (cases "\<exists>m\<in>set ns. base_hash H m = ?b")
    case False
    then have "im_hashmap im ?b = None" unfolding hashmap_free [OF ok] base_taken [OF finite_set] .
    moreover have "hash_among H ?S n = ?b" using False by (auto simp: hash_among_def)
    moreover have "hash_among H ?S k = hash_among H (set ns) k" if "k \<in> set ns" for k
      using hash_among_insert [OF n that] False that by metis
    ultimately show ?thesis by (intro keep) (simp_all add: chain_hash_def)
  next
    case True
    then obtain m where m: "m \<in> set ns" "base_hash H m = ?b" by blast
    have only: "k = m" if "k \<in> set ns" "base_hash H k = ?b" for k
      using two [unfolded at_most_two_def, rule_format, of n m k] m that n by auto
    have noflag: "im_hashmap im (?b OR HashChainFlag) = None"
      unfolding hashmap_free [OF ok] flag_taken using only by (metis less_irrefl)
    have taken: "im_hashmap im ?b \<noteq> None" unfolding hashmap_free [OF ok] base_taken [OF finite_set] using True by simp
    have hashm: "hash_among H (set ns) m = ?b"
      using only m(2) unfolding hash_among_def by (metis less_irrefl)
    obtain i where i: "i < length ns" "m = ns ! i" using m(1) by (metis in_set_conv_nth)
    note l = registered_lookup [OF ok i(1), folded i(2)]
    have uid: "GetUid_hash ?b im = uid_at i" using l(5) hashm by (simp add: GetUid_hash_def)
    have ne: "m \<noteq> n" using m(1) n by blast
    show ?thesis
    proof (cases "n > m")
      case True
      then have "chain_hash n ?b im = Some (?b OR HashChainFlag, im)"
        using taken noflag uid l(1,2) by (auto simp: chain_hash_def)
      moreover have "hash_among H ?S n = ?b OR HashChainFlag"
        using True m unfolding hash_among_def by (metis insertCI)
      moreover have "hash_among H ?S k = hash_among H (set ns) k" if "k \<in> set ns" for k
        using hash_among_insert [OF n that, of H] only [OF that] True by (metis order_less_asym)
      ultimately show ?thesis by (intro keep) simp_all
    next
      case False
      let ?f = "?b OR HashChainFlag"
      let ?infos = "(im_information im)[i := (im_information im ! i)\<lparr>ii_hash := ?f\<rparr>]"
      let ?im = "im\<lparr>im_information := ?infos, im_hashmap := (im_hashmap im)(?b := None, ?f \<mapsto> uid_at i)\<rparr>"
      have up: "UpdateInformation (uid_at i) (\<lambda>i. i\<lparr>ii_hash := ?f\<rparr>) (im\<lparr>im_hashmap := X\<rparr>) =
          Some (im\<lparr>im_hashmap := X, im_information := ?infos\<rparr>)" for X
        using l(1,7) by (simp add: UpdateInformation_def LookupInformation_def)
      have ins: "map_insert ?f (uid_at i) ((im_hashmap im)(?b := None)) = (im_hashmap im)(?b := None, ?f \<mapsto> uid_at i)"
        using noflag flag_bits(3) [of H n n] by (simp add: map_insert_def)
      have hi: "ii_hash (im_information im ! i) = ?b" using l(3) hashm by simp
      have "chain_hash n ?b im = Some (?b, ?im)"
        using False taken noflag uid l(1,2) hi up ins by (auto simp: chain_hash_def)
      moreover have n1: "hash_among H ?S n = ?b"
        using False only ne unfolding hash_among_def by (metis insertE less_irrefl)
      moreover have hk: "hash_among H ?S k = (if k = m then ?f else hash_among H (set ns) k)" if "k \<in> set ns" for k
      proof -
        have "n < m" using False ne by simp
        note ins' = hash_among_insert [OF n that, of H]
        show ?thesis
        proof (cases "k = m")
          case True
          then show ?thesis using ins' m(2) \<open>n < m\<close> by (simp only: simp_thms if_True)
        next
          case False
          then have "?b \<noteq> base_hash H k" using only [OF that] by metis
          then show ?thesis using ins' False by (simp only: simp_thms if_False)
        qed
      qed
      moreover have "map ii_name ?infos = ns"
      proof -
        have "map ii_name ?infos = (map ii_name (im_information im))[i := ii_name (im_information im ! i)]"
          by (simp add: map_update)
        then show ?thesis unfolding old(1) l(2) i(2) by simp
      qed
      moreover have "map ii_hash ?infos = map (hash_among H ?S) ns"
      proof (rule nth_equalityI)
        show "length (map ii_hash ?infos) = length (map (hash_among H ?S) ns)" using old(1) by (metis length_list_update length_map)
        fix j assume j: "j < length (map ii_hash ?infos)"
        have len: "length (im_information im) = length ns" using old(1) by (metis length_map)
        then have j': "j < length ns" using j by simp
        have "ns ! j = m \<longleftrightarrow> j = i" using reg i j' by (metis nth_eq_iff_index_eq)
        moreover have "ii_hash (im_information im ! j) = hash_among H (set ns) (ns ! j)" by (rule registered_lookup [OF ok j'])
        ultimately show "map ii_hash ?infos ! j = map (hash_among H ?S) ns ! j"
          using hk [of "ns ! j"] j' len by (simp add: nth_list_update)
      qed
      moreover have "im_hashmap ?im h = Some u \<longleftrightarrow> (\<exists>j<length ns. h = hash_among H ?S (ns ! j) \<and> u = uid_at j)" for h u
      proof -
        have idx: "ns ! j = m \<longleftrightarrow> j = i" if "j < length ns" for j using reg i that by (metis nth_eq_iff_index_eq)
        have nf: "hash_among H (set ns) k \<noteq> ?f" if "k \<in> set ns" for k
          using noflag hashmap_free [OF ok] that by (metis imageI)
        have nb: "hash_among H (set ns) k \<noteq> ?b" if "k \<in> set ns" "k \<noteq> m" for k
          using only [OF that(1)] that(2) by (metis hash_among_base flag_bits(2))
        show ?thesis
        proof (cases "h = ?f \<or> h = ?b")
          case True
          have "(\<exists>j<length ns. ?f = hash_among H ?S (ns ! j) \<and> u = uid_at j) \<longleftrightarrow> u = uid_at i"
            using hk nf idx i by (metis nth_mem)
          moreover have "\<not> (\<exists>j<length ns. ?b = hash_among H ?S (ns ! j) \<and> u = uid_at j)"
            using hk nb flag_bits(3) [of H n n] by (metis nth_mem)
          ultimately show ?thesis using True flag_bits(3) [of H n n] by auto
        next
          case False
          have "(\<exists>j<length ns. h = hash_among H ?S (ns ! j) \<and> u = uid_at j) \<longleftrightarrow>
              (\<exists>j<length ns. h = hash_among H (set ns) (ns ! j) \<and> u = uid_at j)"
            using hk False hashm by (metis nth_mem)
          then show ?thesis using False hm [of h u] by simp
        qed
      qed
      ultimately show ?thesis by (intro exI [of _ ?im]) simp
    qed
  qed
qed

lemma AllocateUid_ok:
  assumes ok: "registered H ns im" and n: "n \<notin> set ns" and len: "length ns < 0xffff" and two: "at_most_two H (insert n (set ns))"
  shows "\<exists>im'. AllocateUid H n im = Some (uid_at (length ns), im') \<and> registered H (ns @ [n]) im'"
proof -
  from chain_hash_ok [OF ok n two] obtain im1 where c:
    "chain_hash n (base_hash H n) im = Some (hash_among H (insert n (set ns)) n, im1)" "map ii_name (im_information im1) = ns"
    "map ii_hash (im_information im1) = map (hash_among H (insert n (set ns))) ns" "im_namemap im1 = im_namemap im"
    "\<And>h u. im_hashmap im1 h = Some u \<longleftrightarrow> (\<exists>i<length ns. h = hash_among H (insert n (set ns)) (ns ! i) \<and> u = uid_at i)" by blast
  have l: "length (im_information im1) = length ns" using c(2) by (metis length_map)
  have free: "im_namemap im n = None" using namemap_free [OF ok] n by metis
  show ?thesis
    using registered_snoc [OF ok n len two c(2-5)] c(1) free len l by (simp add: AllocateUid_def uid_at_def Let_def)
qed

lemma AllocateUid_fails:
  assumes ok: "registered H ns im" and bad: "\<not> (n \<notin> set ns \<and> length ns < 0xffff \<and> at_most_two H (insert n (set ns)))"
  shows "AllocateUid H n im = None"
proof (cases "n \<in> set ns")
  case True
  then show ?thesis using namemap_free [OF ok, of n] by (auto simp: AllocateUid_def)
next
  case n: False
  show ?thesis
  proof (cases "at_most_two H (insert n (set ns))")
    case True
    from chain_hash_ok [OF ok n True] obtain im1 h where
      c: "chain_hash n (base_hash H n) im = Some (h, im1)" "map ii_name (im_information im1) = ns" by blast
    have "\<not> length (im_information im1) < 0xffff" using bad n True c(2) by (metis length_map)
    then show ?thesis using c(1) by (simp add: AllocateUid_def option_simps Let_def)
  next
    case False
    have "at_most_two H (set ns)" using ok by (simp add: registered_def)
    with False obtain x y where xy: "x \<in> set ns" "y \<in> set ns" "x \<noteq> y" "base_hash H x = base_hash H n" "base_hash H y = base_hash H n"
      unfolding at_most_two_def by (metis insertE)
    then have "base_hash H n \<in> hash_among H (set ns) ` set ns" "base_hash H n OR HashChainFlag \<in> hash_among H (set ns) ` set ns"
      unfolding base_taken [OF finite_set] flag_taken by (metis linorder_neqE)+
    then have "im_hashmap im (base_hash H n) \<noteq> None" "im_hashmap im (base_hash H n OR HashChainFlag) \<noteq> None"
      unfolding hashmap_free [OF ok] by blast+
    then have "chain_hash n (base_hash H n) im = None" by (auto simp: chain_hash_def option_simps)
    then show ?thesis by (simp add: AllocateUid_def option_simps)
  qed
qed

lemma at_most_two_subset: "at_most_two H T \<Longrightarrow> S \<subseteq> T \<Longrightarrow> at_most_two H S"
  unfolding at_most_two_def by blast

definition registrable :: "(string \<Rightarrow> u32) \<Rightarrow> string list \<Rightarrow> bool" where
  "registrable H ns \<longleftrightarrow> distinct ns \<and> length ns \<le> 0xffff \<and> at_most_two H (set ns)"

lemma register_types_run:
  "registered H ms im \<Longrightarrow>
   (if registrable H (ms @ ns) then \<exists>im'. register_types H ns im = Some im' \<and> registered H (ms @ ns) im'
    else register_types H ns im = None)"
proof (induction ns arbitrary: ms im)
  case Nil
  then show ?case by (simp add: registered_def registrable_def)
next
  case (Cons n ns)
  show ?case
  proof (cases "n \<notin> set ms \<and> length ms < 0xffff \<and> at_most_two H (insert n (set ms))")
    case True
    with AllocateUid_ok [OF Cons.prems, of n] obtain im1 where
      im1: "AllocateUid H n im = Some (uid_at (length ms), im1)" "registered H (ms @ [n]) im1" by blast
    from Cons.IH [OF im1(2), unfolded append_assoc append_Cons append_Nil] im1(1) show ?thesis
      by (simp split: if_splits)
  next
    case False
    have "\<not> registrable H (ms @ n # ns)"
    proof
      assume r: "registrable H (ms @ n # ns)"
      have "insert n (set ms) \<subseteq> set (ms @ n # ns)" by auto
      with r have "at_most_two H (insert n (set ms))" unfolding registrable_def by (blast intro: at_most_two_subset)
      with False r show False by (simp add: registrable_def)
    qed
    with AllocateUid_fails [OF Cons.prems, of n] False show ?thesis by simp
  qed
qed

lemma registered_empty: "registered H [] iid_empty"
  by (simp add: registered_def iid_empty_def at_most_two_def)

text \<open>
  C19: Registering types succeeds exactly if their names are different, there are at most 65535 and
  no three share a hash. Each type is then found by its name and by its hash, and the hash of a
  name depends on the set of the names only, not on the order of registration.
\<close>

theorem type_registration_exact:
  "(register_types H ns iid_empty \<noteq> None \<longleftrightarrow> registrable H ns) \<and>
   (\<forall>im i. register_types H ns iid_empty = Some im \<longrightarrow> i < length ns \<longrightarrow>
      LookupByName (ns ! i) im = Some (uid_at i) \<and> GetName (uid_at i) im = Some (ns ! i) \<and>
      GetHash (uid_at i) im = Some (hash_among H (set ns) (ns ! i)) \<and>
      LookupByHash (hash_among H (set ns) (ns ! i)) im = Some (uid_at i))"
proof -
  note run = register_types_run [OF registered_empty, of H ns, unfolded append_Nil]
  have look: "LookupByName (ns ! i) im = Some (uid_at i) \<and> GetName (uid_at i) im = Some (ns ! i) \<and>
      GetHash (uid_at i) im = Some (hash_among H (set ns) (ns ! i)) \<and>
      LookupByHash (hash_among H (set ns) (ns ! i)) im = Some (uid_at i)"
    if "register_types H ns iid_empty = Some im" "i < length ns" for im i
  proof -
    have "registered H ns im" using run that(1) by (auto split: if_splits)
    from registered_lookup [OF this that(2)] show ?thesis
      by (simp add: LookupByName_def LookupByHash_def GetUid_name_def GetUid_hash_def GetName_def GetHash_def
          GetDeprecatedName_def Let_def)
  qed
  show ?thesis using run look by (auto split: if_splits)
qed

text \<open>Two names with the same hash, in both orders.\<close>

theorem type_registration_exact_witness:
  "\<exists>im im'. register_types (\<lambda>_. 7) [''ns3::A'', ''ns3::B''] iid_empty = Some im \<and>
     register_types (\<lambda>_. 7) [''ns3::B'', ''ns3::A''] iid_empty = Some im' \<and>
     GetHash 2 im = Some 0x80000007 \<and> GetHash 1 im' = Some 0x80000007 \<and> LookupByHash 0x80000007 im' = Some 1"
proof -
  let ?H = "\<lambda>_ :: string. 7 :: u32" and ?A = "''ns3::A''" and ?B = "''ns3::B''"
  have r: "registrable ?H [?A, ?B]" "registrable ?H [?B, ?A]"
    by (auto simp: registrable_def at_most_two_def)
  have h: "hash_among ?H {?A, ?B} ?B = 0x80000007" "hash_among ?H {?B, ?A} ?B = 0x80000007"
    by (simp_all add: hash_among_def HashChainFlag_def less_char_def)
  have u: "uid_at 0 = 1" "uid_at 1 = 2" by (simp_all add: uid_at_def)
  from type_registration_exact [of ?H "[?A, ?B]"] r(1) obtain im where im: "register_types ?H [?A, ?B] iid_empty = Some im"
    "GetHash (uid_at 1) im = Some (hash_among ?H {?A, ?B} ?B)" by fastforce
  from type_registration_exact [of ?H "[?B, ?A]"] r(2) obtain im' where im': "register_types ?H [?B, ?A] iid_empty = Some im'"
    "GetHash (uid_at 0) im' = Some (hash_among ?H {?B, ?A} ?B)" "LookupByHash (hash_among ?H {?B, ?A} ?B) im' = Some (uid_at 0)"
    by fastforce
  from im im' show ?thesis unfolding h u by blast
qed

end
