(* ===== verification/Tag_Buffer.thy ===== *)
theory Tag_Buffer
  imports Buffer_Access
begin

text \<open>
  \<open>ns3::TagBuffer\<close> (src/src/network/model/tag-buffer.h, tag-buffer.cc): the cursor through which
  the subclasses of \<open>Tag\<close> write and read their fields. The memory is the list of the bytes of the
  object the buffer points into; \<open>m_current\<close> and \<open>m_end\<close> are offsets into it. \<open>None\<close> is a failed
  assertion or an access outside of the memory.
\<close>

record tag_buffer =
  tb_mem :: "u8 list"
  tb_current :: nat
  tb_end :: nat

definition TagBuffer :: "u8 list \<Rightarrow> nat \<Rightarrow> nat \<Rightarrow> tag_buffer" where
  "TagBuffer mem start end' = \<lparr>tb_mem = mem, tb_current = start, tb_end = end'\<rparr>"

section \<open>Writing\<close>

definition tb_WriteU8 :: "u8 \<Rightarrow> tag_buffer \<Rightarrow> tag_buffer option" where
  "tb_WriteU8 v b = do {
     ns_assert (tb_current b + 1 \<le> tb_end b);
     ns_assert (tb_current b < length (tb_mem b));
     Some (b\<lparr>tb_mem := (tb_mem b)[tb_current b := v], tb_current := tb_current b + 1\<rparr>) }"

definition tb_WriteU16 :: "u16 \<Rightarrow> tag_buffer \<Rightarrow> tag_buffer option" where
  "tb_WriteU16 w b = do {
     b1 \<leftarrow> tb_WriteU8 (ucast (w AND 0xff)) b;
     tb_WriteU8 (ucast (drop_bit 8 w AND 0xff)) b1 }"

definition tb_WriteU32 :: "u32 \<Rightarrow> tag_buffer \<Rightarrow> tag_buffer option" where
  "tb_WriteU32 w b = do {
     b1 \<leftarrow> tb_WriteU8 (ucast (w AND 0xff)) b;
     b2 \<leftarrow> tb_WriteU8 (ucast (drop_bit 8 w AND 0xff)) b1;
     b3 \<leftarrow> tb_WriteU8 (ucast (drop_bit 16 w AND 0xff)) b2;
     tb_WriteU8 (ucast (drop_bit 24 w AND 0xff)) b3 }"

definition tb_WriteU64 :: "u64 \<Rightarrow> tag_buffer \<Rightarrow> tag_buffer option" where
  "tb_WriteU64 w b = do {
     b1 \<leftarrow> tb_WriteU8 (ucast (w AND 0xff)) b;
     b2 \<leftarrow> tb_WriteU8 (ucast (drop_bit 8 w AND 0xff)) b1;
     b3 \<leftarrow> tb_WriteU8 (ucast (drop_bit 16 w AND 0xff)) b2;
     b4 \<leftarrow> tb_WriteU8 (ucast (drop_bit 24 w AND 0xff)) b3;
     b5 \<leftarrow> tb_WriteU8 (ucast (drop_bit 32 w AND 0xff)) b4;
     b6 \<leftarrow> tb_WriteU8 (ucast (drop_bit 40 w AND 0xff)) b5;
     b7 \<leftarrow> tb_WriteU8 (ucast (drop_bit 48 w AND 0xff)) b6;
     tb_WriteU8 (ucast (drop_bit 56 w AND 0xff)) b7 }"

text \<open>\<open>Write(const uint8_t*, uint32_t)\<close>, and \<open>WriteDouble\<close>, which writes the bytes of the number.\<close>

fun tb_Write :: "u8 list \<Rightarrow> tag_buffer \<Rightarrow> tag_buffer option" where
  "tb_Write [] b = Some b"
| "tb_Write (x # xs) b = do { b1 \<leftarrow> tb_WriteU8 x b; tb_Write xs b1 }"

section \<open>Reading\<close>

definition tb_ReadU8 :: "tag_buffer \<Rightarrow> (u8 \<times> tag_buffer) option" where
  "tb_ReadU8 b = do {
     ns_assert (tb_current b + 1 \<le> tb_end b);
     ns_assert (tb_current b < length (tb_mem b));
     Some (tb_mem b ! tb_current b, b\<lparr>tb_current := tb_current b + 1\<rparr>) }"

text \<open>\<open>n\<close> calls of \<open>ReadU8\<close>; \<open>ReadDouble\<close> copies eight of them into the number.\<close>

fun tb_ReadBytes :: "nat \<Rightarrow> tag_buffer \<Rightarrow> (u8 list \<times> tag_buffer) option" where
  "tb_ReadBytes 0 b = Some ([], b)"
| "tb_ReadBytes (Suc n) b = do {
     (x, b1) \<leftarrow> tb_ReadU8 b;
     (xs, b2) \<leftarrow> tb_ReadBytes n b1;
     Some (x # xs, b2) }"

definition tb_ReadU16 :: "tag_buffer \<Rightarrow> (u16 \<times> tag_buffer) option" where
  "tb_ReadU16 b = do { (xs, b') \<leftarrow> tb_ReadBytes 2 b; Some (little_endian xs, b') }"

definition tb_ReadU32 :: "tag_buffer \<Rightarrow> (u32 \<times> tag_buffer) option" where
  "tb_ReadU32 b = do { (xs, b') \<leftarrow> tb_ReadBytes 4 b; Some (little_endian xs, b') }"

definition tb_ReadU64 :: "tag_buffer \<Rightarrow> (u64 \<times> tag_buffer) option" where
  "tb_ReadU64 b = do { (xs, b') \<leftarrow> tb_ReadBytes 8 b; Some (little_endian xs, b') }"

text \<open>\<open>Read\<close> copies first and compares with the end afterwards.\<close>

definition tb_Read :: "u32 \<Rightarrow> tag_buffer \<Rightarrow> (u8 list \<times> tag_buffer) option" where
  "tb_Read n b = do {
     xs \<leftarrow> (if n = 0 then Some []
            else if tb_current b + unat n \<le> length (tb_mem b)
            then Some (take (unat n) (drop (tb_current b) (tb_mem b))) else None);
     let current = tb_current b + unat n;
     ns_assert (current \<le> tb_end b);
     Some (xs, b\<lparr>tb_current := current\<rparr>) }"

section \<open>Moving the end, copying\<close>

definition tb_TrimAtEnd :: "u32 \<Rightarrow> tag_buffer \<Rightarrow> tag_buffer option" where
  "tb_TrimAtEnd trim b = do {
     ns_assert (unat trim \<le> tb_end b \<and> tb_current b \<le> tb_end b - unat trim);
     Some (b\<lparr>tb_end := tb_end b - unat trim\<rparr>) }"

definition tb_CopyFrom :: "tag_buffer \<Rightarrow> tag_buffer \<Rightarrow> tag_buffer option" where
  "tb_CopyFrom src b = do {
     ns_assert (tb_end src \<ge> tb_current src);
     ns_assert (tb_end b \<ge> tb_current b);
     let n = tb_end src - tb_current src;
     ns_assert (n \<le> tb_end b - tb_current b);
     ns_assert (n = 0 \<or> tb_end src \<le> length (tb_mem src) \<and> tb_current b + n \<le> length (tb_mem b));
     Some (b\<lparr>tb_mem := put (tb_mem b) (tb_current b) (take n (drop (tb_current src) (tb_mem src))),
            tb_current := tb_current b + n\<rparr>) }"

section \<open>What is written is read back\<close>

lemma tb_Write_at:
  "tb_current b + length xs \<le> tb_end b \<Longrightarrow> tb_end b \<le> length (tb_mem b) \<Longrightarrow>
   tb_Write xs b = Some (b\<lparr>tb_mem := put (tb_mem b) (tb_current b) xs, tb_current := tb_current b + length xs\<rparr>)"
proof (induction xs arbitrary: b)
  case (Cons x xs)
  let ?b = "b\<lparr>tb_mem := (tb_mem b)[tb_current b := x], tb_current := tb_current b + 1\<rparr>"
  have w: "tb_WriteU8 x b = Some ?b" using Cons.prems by (simp add: tb_WriteU8_def)
  have "tb_Write xs ?b = Some (?b\<lparr>tb_mem := put (tb_mem ?b) (tb_current ?b) xs, tb_current := tb_current ?b + length xs\<rparr>)"
    using Cons.prems by (intro Cons.IH) simp_all
  moreover have "put ((tb_mem b)[tb_current b := x]) (tb_current b + 1) xs = put (tb_mem b) (tb_current b) (x # xs)"
    using Cons.prems by (simp add: put_def upd_conv_take_nth_drop take_Cons' add.commute)
  ultimately show ?case using w by simp
qed simp

lemma tb_Write_append: "tb_Write (xs @ ys) b = (tb_Write xs b \<bind> tb_Write ys)"
proof (induction xs arbitrary: b)
  case (Cons x xs)
  then show ?case by (cases "tb_WriteU8 x b") simp_all
qed simp

lemma tb_Write_unapplied:
  "tb_Write [] = Some" "tb_Write [x] = tb_WriteU8 x" "tb_Write (x # y # ys) = (\<lambda>b. tb_WriteU8 x b \<bind> tb_Write (y # ys))"
proof -
  show "tb_Write [] = Some" by (rule ext) simp
  show "tb_Write [x] = tb_WriteU8 x"
  proof (rule ext)
    fix b show "tb_Write [x] b = tb_WriteU8 x b" by (cases "tb_WriteU8 x b") simp_all
  qed
  show "tb_Write (x # y # ys) = (\<lambda>b. tb_WriteU8 x b \<bind> tb_Write (y # ys))"
  proof (rule ext)
    fix b show "tb_Write (x # y # ys) b = tb_WriteU8 x b \<bind> tb_Write (y # ys)"
      by (cases "tb_WriteU8 x b") simp_all
  qed
qed

lemma tb_Write_fails:
  "tb_current b \<le> tb_end b \<Longrightarrow> tb_end b < tb_current b + length xs \<Longrightarrow> tb_Write xs b = None"
proof (induction xs arbitrary: b)
  case (Cons x xs)
  show ?case
  proof (cases "tb_WriteU8 x b")
    case (Some b1)
    then have "tb_current b1 = tb_current b + 1" "tb_end b1 = tb_end b" "tb_current b + 1 \<le> tb_end b"
      by (auto simp: tb_WriteU8_def option_simps split: if_splits)
    then have "tb_Write xs b1 = None" using Cons.prems by (intro Cons.IH) simp_all
    then show ?thesis using Some by simp
  qed simp
qed simp

lemma tb_Write_bytes_le:
  "tb_WriteU8 v = tb_Write [v]" "tb_WriteU16 w = tb_Write (bytes_le 2 w)"
  "tb_WriteU32 x = tb_Write (bytes_le 4 x)" "tb_WriteU64 y = tb_Write (bytes_le 8 y)"
  by (simp_all add: fun_eq_iff bytes_le_eqs tb_WriteU16_def tb_WriteU32_def tb_WriteU64_def tb_Write_unapplied
      del: tb_Write.simps)

lemma tb_ReadBytes_at:
  "tb_current b + n \<le> tb_end b \<Longrightarrow> tb_end b \<le> length (tb_mem b) \<Longrightarrow>
   tb_ReadBytes n b = Some (take n (drop (tb_current b) (tb_mem b)), b\<lparr>tb_current := tb_current b + n\<rparr>)"
proof (induction n arbitrary: b)
  case (Suc n)
  let ?b = "b\<lparr>tb_current := tb_current b + 1\<rparr>"
  have r: "tb_ReadU8 b = Some (tb_mem b ! tb_current b, ?b)" using Suc.prems by (simp add: tb_ReadU8_def)
  have "tb_ReadBytes n ?b = Some (take n (drop (tb_current ?b) (tb_mem ?b)), ?b\<lparr>tb_current := tb_current ?b + n\<rparr>)"
    using Suc.prems by (intro Suc.IH) simp_all
  moreover have "drop (tb_current b) (tb_mem b) = tb_mem b ! tb_current b # drop (Suc (tb_current b)) (tb_mem b)"
    using Suc.prems by (simp add: Cons_nth_drop_Suc)
  ultimately show ?case using r by simp
qed simp

end
