(* ===== verification/Packet_Tag_List.thy ===== *)
theory Packet_Tag_List
  imports Tag_Buffer
begin

text \<open>
  \<open>ns3::PacketTagList\<close> (src/src/network/model/packet-tag-list.h, packet-tag-list.cc): the tags of a
  packet, a singly linked list of \<open>TagData\<close> nodes whose tails are shared by the lists that were
  copied from each other. The nodes live in an explicit store, a map from addresses to nodes;
  \<open>None\<close> is a failed assertion or an access to memory that is not allocated.

  A tag is what the list asks of a subclass of \<open>Tag\<close>: its type id, the size it announces and the
  calls of \<open>TagBuffer\<close> by which it writes itself. What \<open>Tag::Deserialize\<close> makes of the bytes of a
  node is left to the caller: operations that find a tag return its bytes.
\<close>

section \<open>Tags\<close>

datatype tag_field = FieldU8 u8 | FieldU16 u16 | FieldU32 u32 | FieldU64 u64 | FieldBytes "u8 list"

record tag =
  tag_tid :: u16
  tag_size :: u32
  tag_fields :: "tag_field list"

fun write_field :: "tag_field \<Rightarrow> tag_buffer \<Rightarrow> tag_buffer option" where
  "write_field (FieldU8 v) = tb_WriteU8 v"
| "write_field (FieldU16 v) = tb_WriteU16 v"
| "write_field (FieldU32 v) = tb_WriteU32 v"
| "write_field (FieldU64 v) = tb_WriteU64 v"
| "write_field (FieldBytes xs) = tb_Write xs"

fun write_fields :: "tag_field list \<Rightarrow> tag_buffer \<Rightarrow> tag_buffer option" where
  "write_fields [] b = Some b"
| "write_fields (f # fs) b = do { b1 \<leftarrow> write_field f b; write_fields fs b1 }"

section \<open>The store\<close>

text \<open>\<open>ts_malloc a\<close> are the bytes that the memory allocated at address \<open>a\<close> happens to hold.\<close>

record tag_data =
  td_next :: "nat option"
  td_count :: u32
  td_tid :: u16
  td_size :: u32
  td_data :: "u8 list"

record tag_store =
  ts_heap :: "nat \<rightharpoonup> tag_data"
  ts_fresh :: nat
  ts_malloc :: "nat \<Rightarrow> nat \<Rightarrow> u8"

definition ts_put :: "nat \<Rightarrow> tag_data \<Rightarrow> tag_store \<Rightarrow> tag_store option" where
  "ts_put a d st =
     (if ts_heap st a = None then None else Some (st\<lparr>ts_heap := (ts_heap st)(a \<mapsto> d)\<rparr>))"

definition ts_free :: "nat \<Rightarrow> tag_store \<Rightarrow> tag_store option" where
  "ts_free a st =
     (if ts_heap st a = None then None else Some (st\<lparr>ts_heap := (ts_heap st)(a := None)\<rparr>))"

definition CreateTagData :: "u32 \<Rightarrow> tag_store \<Rightarrow> (nat \<times> tag_store) option" where
  "CreateTagData dataSize st = do {
     ns_assert (dataSize < 0xffffffff);
     let a = ts_fresh st;
     let d = \<lparr>td_next = None, td_count = 0, td_tid = 0, td_size = dataSize,
              td_data = map (ts_malloc st a) [0..<unat dataSize]\<rparr>;
     Some (a, st\<lparr>ts_heap := (ts_heap st)(a \<mapsto> d), ts_fresh := a + 1\<rparr>) }"

text \<open>\<open>p->count++\<close>, which dereferences \<open>p\<close>.\<close>

definition ts_inc :: "nat option \<Rightarrow> tag_store \<Rightarrow> tag_store option" where
  "ts_inc p st = do { a \<leftarrow> p; d \<leftarrow> ts_heap st a; ts_put a (d\<lparr>td_count := td_count d + 1\<rparr>) st }"

definition ts_dec :: "nat \<Rightarrow> tag_store \<Rightarrow> tag_store option" where
  "ts_dec a st = do { d \<leftarrow> ts_heap st a; ts_put a (d\<lparr>td_count := td_count d - 1\<rparr>) st }"

text \<open>\<open>tag.Serialize (TagBuffer (d->data, d->data + d->size))\<close>.\<close>

definition serialize_into :: "tag \<Rightarrow> nat \<Rightarrow> tag_store \<Rightarrow> tag_store option" where
  "serialize_into t a st = do {
     d \<leftarrow> ts_heap st a;
     b \<leftarrow> write_fields (tag_fields t) (TagBuffer (td_data d) 0 (unat (td_size d)));
     ts_put a (d\<lparr>td_data := tb_mem b\<rparr>) st }"

section \<open>Copying and clearing\<close>

text \<open>
  A list object is its member \<open>m_next\<close>. The constructors, the assignment and the destructor
  return the new \<open>m_next\<close> and the store.
\<close>

definition PacketTagList :: "nat option" where
  "PacketTagList = None"

definition tl_copy :: "nat option \<Rightarrow> tag_store \<Rightarrow> (nat option \<times> tag_store) option" where
  "tl_copy m st = do { st1 \<leftarrow> (if m \<noteq> None then ts_inc m st else Some st); Some (m, st1) }"

definition free_prev :: "nat option \<Rightarrow> tag_store \<Rightarrow> tag_store option" where
  "free_prev prev st = (case prev of None \<Rightarrow> Some st | Some a \<Rightarrow> ts_free a st)"

partial_function (option) remove_all_loop :: "nat option \<Rightarrow> nat option \<Rightarrow> tag_store \<Rightarrow> tag_store option" where
  "remove_all_loop prev cur st =
     (case cur of
        None \<Rightarrow> free_prev prev st
      | Some a \<Rightarrow> do {
          st1 \<leftarrow> ts_dec a st;
          d \<leftarrow> ts_heap st1 a;
          (if td_count d > 0 then free_prev prev st1
           else do {
             st2 \<leftarrow> free_prev prev st1;
             d2 \<leftarrow> ts_heap st2 a;
             remove_all_loop (Some a) (td_next d2) st2 }) })"

definition tl_RemoveAll :: "nat option \<Rightarrow> tag_store \<Rightarrow> (nat option \<times> tag_store) option" where
  "tl_RemoveAll m st = do { st1 \<leftarrow> remove_all_loop None m st; Some (None, st1) }"

definition tl_assign :: "nat option \<Rightarrow> nat option \<Rightarrow> tag_store \<Rightarrow> (nat option \<times> tag_store) option" where
  "tl_assign o_next m st =
     (if m = o_next then Some (m, st)
      else do {
        (_, st1) \<leftarrow> tl_RemoveAll m st;
        tl_copy o_next st1 })"

section \<open>Finding a tag\<close>

text \<open>The loops of \<open>Add\<close> and \<open>Peek\<close>, and the one of \<open>COWTraverse\<close> that makes sure the tag exists.\<close>

partial_function (option) find_tid :: "u16 \<Rightarrow> nat option \<Rightarrow> tag_store \<Rightarrow> nat option option" where
  "find_tid tid p st =
     (case p of
        None \<Rightarrow> Some None
      | Some a \<Rightarrow> do {
          d \<leftarrow> ts_heap st a;
          (if td_tid d = tid then Some (Some a) else find_tid tid (td_next d) st) })"

definition tl_Add :: "tag \<Rightarrow> nat option \<Rightarrow> tag_store \<Rightarrow> (nat option \<times> tag_store) option" where
  "tl_Add t m st = do {
     found \<leftarrow> find_tid (tag_tid t) m st;
     ns_assert (found = None);
     (head, st1) \<leftarrow> CreateTagData (tag_size t) st;
     d \<leftarrow> ts_heap st1 head;
     st2 \<leftarrow> ts_put head (d\<lparr>td_count := 1, td_tid := tag_tid t, td_next := m\<rparr>) st1;
     st3 \<leftarrow> serialize_into t head st2;
     Some (Some head, st3) }"

definition tl_Peek :: "u16 \<Rightarrow> nat option \<Rightarrow> tag_store \<Rightarrow> u8 list option option" where
  "tl_Peek tid m st = do {
     found \<leftarrow> find_tid tid m st;
     (case found of
        None \<Rightarrow> Some None
      | Some a \<Rightarrow> do { d \<leftarrow> ts_heap st a; Some (Some (take (unat (td_size d)) (td_data d))) }) }"

section \<open>Copy on write\<close>

text \<open>
  \<open>prevNext\<close> points to the list's \<open>m_next\<close> or to the \<open>next\<close> of a node. The list and the store are
  threaded as a pair.
\<close>

datatype slot = ListNext | NodeNext nat

definition set_slot :: "slot \<Rightarrow> nat option \<Rightarrow> nat option \<times> tag_store \<Rightarrow> (nat option \<times> tag_store) option" where
  "set_slot sl p = (\<lambda>(m, st). (case sl of
       ListNext \<Rightarrow> Some (p, st)
     | NodeNext a \<Rightarrow> do {
         d \<leftarrow> ts_heap st a;
         st1 \<leftarrow> ts_put a (d\<lparr>td_next := p\<rparr>) st;
         Some (m, st1) }))"

text \<open>
  The search for the tag or the first node with several incoming pointers: where \<open>prevNext\<close> and
  \<open>cur\<close> point when it ends, and whether it ends at the tag.
\<close>

partial_function (option) cow_search ::
  "u16 \<Rightarrow> slot \<Rightarrow> nat option \<Rightarrow> tag_store \<Rightarrow> (slot \<times> nat option \<times> bool) option" where
  "cow_search tid prevNext cur st =
     (case cur of
        None \<Rightarrow> Some (prevNext, None, False)
      | Some a \<Rightarrow> do {
          d \<leftarrow> ts_heap st a;
          (if td_count d > 1 then Some (prevNext, Some a, False)
           else if td_tid d = tid then Some (prevNext, Some a, True)
           else cow_search tid (NodeNext a) (td_next d) st) })"

text \<open>One round of the loop that copies the shared nodes before the tag: the copy and what follows.\<close>

definition cow_copy ::
  "slot \<Rightarrow> nat \<Rightarrow> nat option \<times> tag_store \<Rightarrow> (nat \<times> nat \<times> nat option \<times> tag_store) option" where
  "cow_copy prevNext cur = (\<lambda>(m, st). do {
     d \<leftarrow> ts_heap st cur;
     ns_assert (td_count d > 1);
     st1 \<leftarrow> ts_dec cur st;
     (copy, st2) \<leftarrow> CreateTagData (td_size d) st1;
     c \<leftarrow> ts_heap st2 copy;
     st3 \<leftarrow> ts_put copy (c\<lparr>td_tid := td_tid d, td_count := 1, td_size := td_size d,
        td_data := take (unat (td_size d)) (td_data d), td_next := td_next d\<rparr>) st2;
     st4 \<leftarrow> ts_inc (td_next d) st3;
     (m1, st5) \<leftarrow> set_slot prevNext (Some copy) (m, st4);
     next \<leftarrow> td_next d;
     Some (copy, next, m1, st5) })"

partial_function (option) cow_copy_loop ::
  "u16 \<Rightarrow> slot \<Rightarrow> nat \<Rightarrow> nat option \<times> tag_store \<Rightarrow> (slot \<times> nat \<times> nat option \<times> tag_store) option" where
  "cow_copy_loop tid prevNext cur s = do {
     d \<leftarrow> ts_heap (snd s) cur;
     (if td_tid d = tid then do { ns_assert (td_count d > 1); Some (prevNext, cur, s) }
      else do {
        (copy, next, s1) \<leftarrow> cow_copy prevNext cur s;
        cow_copy_loop tid (NodeNext copy) next s1 }) }"

text \<open>A writer is called with \<open>preMerge\<close>, \<open>cur\<close> and \<open>prevNext\<close>.\<close>

type_synonym 'r cow_writer =
  "bool \<Rightarrow> nat \<Rightarrow> slot \<Rightarrow> nat option \<times> tag_store \<Rightarrow> ('r \<times> nat option \<times> tag_store) option"

definition found_result :: "('r \<times> nat option \<times> tag_store) option \<Rightarrow> ('r option \<times> nat option \<times> tag_store) option" where
  "found_result = map_option (\<lambda>(r, s). (Some r, s))"

definition COWTraverse ::
  "u16 \<Rightarrow> 'r cow_writer \<Rightarrow> nat option \<times> tag_store \<Rightarrow> ('r option \<times> nat option \<times> tag_store) option" where
  "COWTraverse tid Writer s = do {
     (prevNext, cur, hit) \<leftarrow> cow_search tid ListNext (fst s) (snd s);
     (case cur of
        None \<Rightarrow> Some (None, s)
      | Some a \<Rightarrow>
          if hit then found_result (Writer True a prevNext s)
          else do {
            it \<leftarrow> find_tid tid cur (snd s);
            (if it = None then Some (None, s)
             else do {
               d \<leftarrow> ts_heap (snd s) a;
               ns_assert (td_count d > 1);
               (prevNext1, cur1, s1) \<leftarrow> cow_copy_loop tid prevNext a s;
               found_result (Writer False cur1 prevNext1 s1) }) }) }"

definition RemoveWriter :: "u8 list cow_writer" where
  "RemoveWriter preMerge cur prevNext s = do {
     d \<leftarrow> ts_heap (snd s) cur;
     let bytes = take (unat (td_size d)) (td_data d);
     (m, st1) \<leftarrow> set_slot prevNext (td_next d) s;
     st2 \<leftarrow>
       (if preMerge then ts_free cur st1
        else do {
          st2 \<leftarrow> ts_dec cur st1;
          (if td_next d \<noteq> None then ts_inc (td_next d) st2 else Some st2) });
     Some (bytes, m, st2) }"

definition ReplaceWriter :: "tag \<Rightarrow> unit cow_writer" where
  "ReplaceWriter t preMerge cur prevNext s =
     (if preMerge then do { st1 \<leftarrow> serialize_into t cur (snd s); Some ((), fst s, st1) }
      else do {
        d \<leftarrow> ts_heap (snd s) cur;
        st1 \<leftarrow> ts_dec cur (snd s);
        (copy, st2) \<leftarrow> CreateTagData (tag_size t) st1;
        c \<leftarrow> ts_heap st2 copy;
        st3 \<leftarrow> ts_put copy (c\<lparr>td_tid := tag_tid t, td_count := 1\<rparr>) st2;
        st4 \<leftarrow> serialize_into t copy st3;
        c1 \<leftarrow> ts_heap st4 copy;
        st5 \<leftarrow> ts_put copy (c1\<lparr>td_next := td_next d\<rparr>) st4;
        st6 \<leftarrow> (if td_next d \<noteq> None then ts_inc (td_next d) st5 else Some st5);
        (m, st7) \<leftarrow> set_slot prevNext (Some copy) (fst s, st6);
        Some ((), m, st7) })"

definition tl_Remove :: "u16 \<Rightarrow> nat option \<times> tag_store \<Rightarrow> (u8 list option \<times> nat option \<times> tag_store) option" where
  "tl_Remove tid = COWTraverse tid RemoveWriter"

definition tl_Replace :: "tag \<Rightarrow> nat option \<times> tag_store \<Rightarrow> (bool \<times> nat option \<times> tag_store) option" where
  "tl_Replace t s = do {
     (found, m, st) \<leftarrow> COWTraverse (tag_tid t) (ReplaceWriter t) s;
     (if found \<noteq> None then Some (True, m, st)
      else do { (m1, st1) \<leftarrow> tl_Add t m st; Some (False, m1, st1) }) }"

end
