(* ===== verification/Packet_Tag_Store.thy ===== *)
theory Packet_Tag_Store
  imports Packet_Tag_List
begin

text \<open>
  The invariant of the store of \<open>PacketTagList\<close> and the rules by which it is preserved. A state is a
  heap of nodes and the multiset of the pointers into it that list objects hold. Every node counts
  its incoming pointers, and owning the only pointer to a node means owning the node: it can then
  be taken out of the heap in exchange for the pointer it holds, and put back.
\<close>

section \<open>What a pointer leads to\<close>

type_synonym tag_list = "(u16 \<times> u8 list) list"

definition node_ok :: "tag_data \<Rightarrow> bool" where
  "node_ok d \<longleftrightarrow> length (td_data d) = unat (td_size d) \<and> td_size d < 0xffffffff"

primrec leads :: "(nat \<rightharpoonup> tag_data) \<Rightarrow> nat option \<Rightarrow> tag_list \<Rightarrow> bool" where
  "leads h p [] \<longleftrightarrow> p = None"
| "leads h p (x # xs) \<longleftrightarrow>
     (\<exists>a d. p = Some a \<and> h a = Some d \<and> node_ok d \<and> x = (td_tid d, td_data d) \<and> leads h (td_next d) xs)"

lemma leads_None [simp]: "leads h None xs \<longleftrightarrow> xs = []"
  by (cases xs) simp_all

lemma leads_Some:
  "leads h (Some a) xs \<longleftrightarrow> (\<exists>d ys. h a = Some d \<and> node_ok d \<and> xs = (td_tid d, td_data d) # ys \<and> leads h (td_next d) ys)"
  by (cases xs) auto

lemma leads_unique: "leads h p xs \<Longrightarrow> leads h p ys \<Longrightarrow> xs = ys"
proof (induction xs arbitrary: p ys)
  case (Cons x xs)
  then show ?case by (cases p) (auto simp: leads_Some)
qed simp

text \<open>The counts do not matter for what a pointer leads to.\<close>

definition same_nodes :: "(nat \<rightharpoonup> tag_data) \<Rightarrow> (nat \<rightharpoonup> tag_data) \<Rightarrow> bool" where
  "same_nodes h h' \<longleftrightarrow> (\<forall>a. map_option (\<lambda>d. d\<lparr>td_count := 0\<rparr>) (h a) = map_option (\<lambda>d. d\<lparr>td_count := 0\<rparr>) (h' a))"

lemma same_nodesD:
  assumes "same_nodes h h'" and "h a = Some d"
  shows "\<exists>c. h' a = Some (d\<lparr>td_count := c\<rparr>)"
proof -
  have "map_option (\<lambda>d. d\<lparr>td_count := 0\<rparr>) (h' a) = Some (d\<lparr>td_count := 0\<rparr>)"
    using assms unfolding same_nodes_def by (metis option.map(2))
  then obtain e where e: "h' a = Some e" "e\<lparr>td_count := 0\<rparr> = d\<lparr>td_count := 0\<rparr>" by auto
  then have "e = d\<lparr>td_count := td_count e\<rparr>" by (cases d; cases e) simp
  then have "Some e = Some (d\<lparr>td_count := td_count e\<rparr>)" by (rule arg_cong)
  with e(1) have "h' a = Some (d\<lparr>td_count := td_count e\<rparr>)" by (rule trans)
  then show ?thesis ..
qed

lemma same_nodes_sym: "same_nodes h h' \<Longrightarrow> same_nodes h' h"
  by (simp add: same_nodes_def)

lemma same_nodes_dom:
  assumes "same_nodes h h'"
  shows "dom h = dom h'"
proof -
  have "h a = None \<longleftrightarrow> h' a = None" for a using assms by (metis same_nodes_def option.map_disc_iff)
  then show ?thesis by (simp add: dom_def)
qed

lemma same_nodes_leads:
  assumes "same_nodes h h'"
  shows "leads h p xs \<Longrightarrow> leads h' p xs"
proof (induction xs arbitrary: p)
  case (Cons x xs)
  then obtain a d where d: "p = Some a" "h a = Some d" "node_ok d" "x = (td_tid d, td_data d)" "leads h (td_next d) xs"
    by auto
  from same_nodesD [OF assms d(2)] obtain c where "h' a = Some (d\<lparr>td_count := c\<rparr>)" ..
  with d Cons.IH [OF d(5)] show ?case by (simp add: node_ok_def)
qed simp

lemma same_nodes_count: "h a = Some d \<Longrightarrow> same_nodes h (h(a \<mapsto> d\<lparr>td_count := c\<rparr>))"
  by (simp add: same_nodes_def)

lemma same_nodes_trans: "same_nodes h h' \<Longrightarrow> same_nodes h' h'' \<Longrightarrow> same_nodes h h''"
  by (simp add: same_nodes_def)

section \<open>The pointers and their number\<close>

definition links :: "(nat \<rightharpoonup> tag_data) \<Rightarrow> nat option multiset" where
  "links h = image_mset (\<lambda>a. td_next (the (h a))) (mset_set (dom h))"

lemma same_nodes_links:
  assumes "same_nodes h h'" shows "links h = links h'"
proof -
  have "td_next (the (h a)) = td_next (the (h' a))" if "a \<in># mset_set (dom h)" for a
    using that same_nodesD [OF assms] by (cases "finite (dom h)") fastforce+
  then show ?thesis unfolding links_def same_nodes_dom [OF assms, symmetric] by (rule image_mset_cong)
qed

lemma links_insert:
  assumes "finite (dom h)" and "h a = None"
  shows "links (h(a \<mapsto> d)) = add_mset (td_next d) (links h)"
proof -
  have "image_mset (\<lambda>b. td_next (the ((h(a \<mapsto> d)) b))) (mset_set (dom h)) = image_mset (\<lambda>b. td_next (the (h b))) (mset_set (dom h))"
    using assms by (intro image_mset_cong) auto
  with assms show ?thesis by (simp add: links_def mset_set.insert domIff)
qed

lemma links_update:
  assumes "finite (dom h)" and "h a = Some d"
  shows "links h = add_mset (td_next d) (links (h(a := None)))"
proof -
  have "h = (h(a := None))(a \<mapsto> d)" using assms(2) by auto
  with links_insert [of "h(a := None)" a d] assms(1) show ?thesis by simp
qed

lemma Some_in_links: "finite (dom h) \<Longrightarrow> p \<in># links h \<longleftrightarrow> (\<exists>b d. h b = Some d \<and> td_next d = p)"
  by (force simp: links_def)

definition tags_inv :: "nat option multiset \<Rightarrow> (nat \<rightharpoonup> tag_data) \<Rightarrow> bool" where
  "tags_inv R h \<longleftrightarrow> finite (dom h) \<and>
     (\<forall>p. p \<in># R + links h \<longrightarrow> (\<exists>xs. leads h p xs)) \<and>
     (\<forall>a d. h a = Some d \<longrightarrow> node_ok d \<and> Some a \<in># R + links h \<and> unat (td_count d) = count (R + links h) (Some a))"

lemma tags_inv_leads: "tags_inv R h \<Longrightarrow> p \<in># R \<Longrightarrow> \<exists>xs. leads h p xs"
  by (simp add: tags_inv_def)

lemma tags_inv_node:
  assumes "tags_inv R h" and "h a = Some d"
  shows "\<exists>xs. leads h (Some a) xs"
  using assms unfolding tags_inv_def by blast

lemma tags_inv_null [simp]: "tags_inv (add_mset None R) h \<longleftrightarrow> tags_inv R h"
  by (auto simp: tags_inv_def)

text \<open>The bound of the counts: at most one more than there are pointers from outside.\<close>

lemma sum_count_le: "finite A \<Longrightarrow> (\<Sum>a\<in>A. count M (Some a)) \<le> size M"
proof (induction A arbitrary: M rule: finite_induct)
  case (insert a A)
  let ?N = "filter_mset (\<lambda>p. p \<noteq> Some a) M"
  have "(\<Sum>b\<in>A. count M (Some b)) = (\<Sum>b\<in>A. count ?N (Some b))" using insert by (intro sum.cong) auto
  also have "\<dots> \<le> size ?N" by (rule insert.IH)
  finally have "(\<Sum>b\<in>insert a A. count M (Some b)) \<le> count M (Some a) + size ?N" using insert by simp
  moreover have "size M = size ?N + count M (Some a)"
  proof -
    have "filter_mset (\<lambda>p. \<not> p \<noteq> Some a) M = replicate_mset (count M (Some a)) (Some a)"
      by (simp add: filter_eq_replicate_mset)
    then have "size (filter_mset (\<lambda>p. \<not> p \<noteq> Some a) M) = count M (Some a)" by simp
    moreover have "size M = size (?N + filter_mset (\<lambda>p. \<not> p \<noteq> Some a) M)"
      using multiset_partition [of M "\<lambda>p. p \<noteq> Some a"] by (rule arg_cong)
    ultimately show ?thesis by (simp only: size_union)
  qed
  ultimately show ?case by simp
qed simp

lemma count_bound:
  assumes "tags_inv R h" and "h a = Some d"
  shows "unat (td_count d) \<le> size R + 1"
proof -
  have f: "finite (dom h)" and c: "\<And>b e. h b = Some e \<Longrightarrow> 0 < count (R + links h) (Some b)"
    using assms(1) unfolding tags_inv_def count_greater_zero_iff by blast+
  have "card (dom h - {a}) \<le> (\<Sum>b\<in>dom h - {a}. count (R + links h) (Some b))"
    unfolding card_eq_sum using c by (intro sum_mono) (auto simp: Suc_le_eq)
  moreover have "(\<Sum>b\<in>dom h. count (R + links h) (Some b)) = count (R + links h) (Some a) + (\<Sum>b\<in>dom h - {a}. count (R + links h) (Some b))"
    using assms(2) f by (intro sum.remove) auto
  moreover have "(\<Sum>b\<in>dom h. count (R + links h) (Some b)) \<le> size (R + links h)" by (rule sum_count_le [OF f])
  moreover have "size (links h) = card (dom h)" by (simp add: links_def)
  moreover have "card (dom h) = Suc (card (dom h - {a}))" using f assms(2) by (intro card.remove) auto
  ultimately have "count (R + links h) (Some a) \<le> size R + 1" by simp
  then show ?thesis using assms by (simp add: tags_inv_def)
qed


section \<open>Rules\<close>

text \<open>What other pointers lead to is kept.\<close>

definition keeps :: "nat option multiset \<Rightarrow> (nat \<rightharpoonup> tag_data) \<Rightarrow> (nat \<rightharpoonup> tag_data) \<Rightarrow> bool" where
  "keeps R h h' \<longleftrightarrow> (\<forall>p xs. p \<in># R \<longrightarrow> leads h p xs \<longrightarrow> leads h' p xs)"

lemma keepsI: "(\<And>p xs. p \<in># R \<Longrightarrow> leads h p xs \<Longrightarrow> leads h' p xs) \<Longrightarrow> keeps R h h'"
  by (simp add: keeps_def)

lemma keepsD: "keeps R h h' \<Longrightarrow> p \<in># R \<Longrightarrow> leads h p xs \<Longrightarrow> leads h' p xs"
  by (simp add: keeps_def)

lemma tags_kept_refl [simp]: "keeps R h h"
  by (simp add: keeps_def)

lemma tags_kept_trans: "keeps R h h' \<Longrightarrow> keeps R h' h'' \<Longrightarrow> keeps R h h''"
  by (simp add: keeps_def)

lemma keeps_add_mset [simp]: "keeps (add_mset p R) h h' \<longleftrightarrow> keeps R h h' \<and> (\<forall>xs. leads h p xs \<longrightarrow> leads h' p xs)"
  by (auto simp: keeps_def)

lemma same_nodes_keeps: "same_nodes h h' \<Longrightarrow> keeps R h h'"
  by (rule keepsI) (rule same_nodes_leads)

text \<open>One more pointer to a node, and one less while there are others.\<close>

lemma recount:
  assumes inv: "tags_inv R h" and a: "h a = Some d"
    and c: "\<And>b. b \<noteq> a \<Longrightarrow> count R' (Some b) = count R (Some b)"
    and n: "Some a \<in># R' + links h" "unat n = count (R' + links h) (Some a)"
    and s: "\<And>p. p \<in># R' \<Longrightarrow> p \<in># R \<or> p = Some a \<or> p = None"
  shows "tags_inv R' (h(a \<mapsto> d\<lparr>td_count := n\<rparr>))"
proof -
  let ?h = "h(a \<mapsto> d\<lparr>td_count := n\<rparr>)"
  have same: "same_nodes h ?h" using a by (rule same_nodes_count)
  have l: "links ?h = links h" using same_nodes_links [OF same] ..
  have f: "finite (dom h)" using inv by (simp add: tags_inv_def)
  show ?thesis unfolding tags_inv_def l
  proof (intro conjI allI impI)
    show "finite (dom ?h)" using f by simp
    fix p assume "p \<in># R' + links h"
    then have "p \<in># R + links h \<or> p = Some a \<or> p = None" using s by auto
    then have "\<exists>xs. leads h p xs" using inv tags_inv_node [OF inv a] unfolding tags_inv_def by auto
    then show "\<exists>xs. leads ?h p xs" using same_nodes_leads [OF same] by blast
  next
    fix b e assume b: "?h b = Some e"
    show "node_ok e" using b a inv by (auto simp: tags_inv_def node_ok_def split: if_splits)
    have other: "Some b \<in># R' + links h \<longleftrightarrow> Some b \<in># R + links h" "count (R' + links h) (Some b) = count (R + links h) (Some b)"
      if "b \<noteq> a" using c [OF that] by (simp_all flip: count_greater_zero_iff)
    show "Some b \<in># R' + links h" "unat (td_count e) = count (R' + links h) (Some b)"
      using b other inv n by (auto simp: tags_inv_def split: if_splits)
  qed
qed

lemma tags_dup:
  assumes inv: "tags_inv (add_mset (Some a) R) h" and a: "h a = Some d" and n: "size R < 2 ^ 32 - 3"
  shows "tags_inv (add_mset (Some a) (add_mset (Some a) R)) (h(a \<mapsto> d\<lparr>td_count := td_count d + 1\<rparr>))"
proof (rule recount [OF inv a])
  have "unat (td_count d) \<le> size R + 2" using count_bound [OF inv a] by simp
  then have "unat (td_count d + 1) = unat (td_count d) + 1" using n by (intro unat_succ_no_wrap) simp
  moreover have "unat (td_count d) = count (add_mset (Some a) R + links h) (Some a)"
    using inv a unfolding tags_inv_def by blast
  ultimately show "unat (td_count d + 1) = count (add_mset (Some a) (add_mset (Some a) R) + links h) (Some a)" by simp
qed auto

text \<open>The same for a pointer held by a node.\<close>

lemma tags_dup_link:
  assumes inv: "tags_inv R h" and a: "h a = Some d" and n: "size R < 2 ^ 32 - 3"
  shows "tags_inv (add_mset (Some a) R) (h(a \<mapsto> d\<lparr>td_count := td_count d + 1\<rparr>))"
proof (rule recount [OF inv a])
  have "unat (td_count d) \<le> size R + 1" using count_bound [OF inv a] by simp
  then have "unat (td_count d + 1) = unat (td_count d) + 1" using n by (intro unat_succ_no_wrap) simp
  moreover have "unat (td_count d) = count (R + links h) (Some a)" using inv a unfolding tags_inv_def by blast
  ultimately show "unat (td_count d + 1) = count (add_mset (Some a) R + links h) (Some a)" by simp
qed auto

lemma tags_drop:
  assumes inv: "tags_inv (add_mset (Some a) R) h" and a: "h a = Some d" and n: "td_count d > 1"
  shows "tags_inv R (h(a \<mapsto> d\<lparr>td_count := td_count d - 1\<rparr>))"
proof (rule recount [OF inv a])
  have c: "unat (td_count d) = count (add_mset (Some a) R + links h) (Some a)"
    using inv a unfolding tags_inv_def by blast
  have "1 < unat (td_count d)" using n by (simp add: word_less_nat_alt)
  moreover from this have "unat (td_count d - 1) = unat (td_count d) - 1" by (subst unat_sub) (simp_all add: word_le_nat_alt)
  ultimately show "unat (td_count d - 1) = count (R + links h) (Some a)" "Some a \<in># R + links h"
    using c by (auto simp flip: count_greater_zero_iff)
qed auto

text \<open>Taking a node out, and putting one in.\<close>

lemma leads_without:
  assumes "p \<noteq> Some a" "\<And>b e. h b = Some e \<Longrightarrow> td_next e \<noteq> Some a"
  shows "leads h p xs \<Longrightarrow> leads (h(a := None)) p xs"
  using assms(1) by (induction xs arbitrary: p) (use assms(2) in auto)

lemma leads_dom: "leads h (Some a) xs \<Longrightarrow> a \<in> dom h"
  by (auto simp: leads_Some)

lemma leads_with: "h a = None \<Longrightarrow> leads h p xs \<Longrightarrow> leads (h(a \<mapsto> d)) p xs"
  by (induction xs arbitrary: p) auto

lemma tags_pop:
  assumes inv: "tags_inv (add_mset (Some a) R) h" and a: "h a = Some d" and n: "td_count d = 1"
  shows "tags_inv (add_mset (td_next d) R) (h(a := None))"
    and "keeps (add_mset (td_next d) R) h (h(a := None))"
    and "td_next d \<noteq> Some a" and "\<And>b e. h b = Some e \<Longrightarrow> td_next e \<noteq> Some a"
proof -
  let ?h = "h(a := None)"
  have f: "finite (dom h)" using inv by (simp add: tags_inv_def)
  have l: "links h = add_mset (td_next d) (links ?h)" by (rule links_update [OF f a])
  have "unat (td_count d) = count (add_mset (Some a) R + links h) (Some a)" using inv a unfolding tags_inv_def by blast
  then have "count (R + links h) (Some a) = 0" using n by simp
  then have no: "Some a \<notin># R" "Some a \<notin># links h" by (simp_all flip: count_greater_zero_iff)
  then show link: "\<And>b e. h b = Some e \<Longrightarrow> td_next e \<noteq> Some a" using Some_in_links [OF f] by metis
  then show "td_next d \<noteq> Some a" using a by blast
  have lead: "leads ?h p xs" if "leads h p xs" "p \<in># add_mset (td_next d) R + links ?h" for p xs
  proof (rule leads_without [OF _ link that(1)])
    show "p \<noteq> Some a" using that(2) no by (auto simp: l)
  qed
  then show "keeps (add_mset (td_next d) R) h ?h" by (intro keepsI) auto
  have sub: "add_mset (td_next d) R + links ?h = R + links h" by (simp add: l)
  show "tags_inv (add_mset (td_next d) R) ?h" unfolding tags_inv_def
  proof (intro conjI allI impI)
    show "finite (dom ?h)" using f by simp
    fix p assume p: "p \<in># add_mset (td_next d) R + links ?h"
    then have "p \<in># add_mset (Some a) R + links h" unfolding sub by auto
    with inv obtain xs where "leads h p xs" unfolding tags_inv_def by blast
    with lead p show "\<exists>xs. leads ?h p xs" by blast
  next
    fix b e assume b: "?h b = Some e"
    then have e: "h b = Some e" "b \<noteq> a" by (auto split: if_splits)
    with inv show "node_ok e" unfolding tags_inv_def by blast
    show "Some b \<in># add_mset (td_next d) R + links ?h" "unat (td_count e) = count (add_mset (td_next d) R + links ?h) (Some b)"
      unfolding sub using inv e by (auto simp: tags_inv_def)
  qed
qed

lemma tags_push:
  assumes inv: "tags_inv (add_mset (td_next d) R) h" and a: "h a = None" and d: "node_ok d" "td_count d = 1"
  shows "tags_inv (add_mset (Some a) R) (h(a \<mapsto> d))" and "keeps R h (h(a \<mapsto> d))"
    and "leads h (td_next d) xs \<Longrightarrow> leads (h(a \<mapsto> d)) (Some a) ((td_tid d, td_data d) # xs)"
proof -
  let ?h = "h(a \<mapsto> d)"
  have f: "finite (dom h)" using inv by (simp add: tags_inv_def)
  have l: "links ?h = add_mset (td_next d) (links h)" by (rule links_insert [OF f a])
  have old: "\<exists>xs. leads h p xs" if "p \<in># add_mset (td_next d) R + links h" for p
    using inv that unfolding tags_inv_def by blast
  have no: "Some a \<notin># add_mset (td_next d) R + links h" using old leads_dom a by blast
  show kept: "keeps R h ?h" by (intro keepsI leads_with [of h a, OF a])
  show head: "leads ?h (Some a) ((td_tid d, td_data d) # xs)" if "leads h (td_next d) xs" for xs
    using leads_with [of h a, OF a that, of d] d(1) by simp
  show "tags_inv (add_mset (Some a) R) ?h" unfolding tags_inv_def
  proof (intro conjI allI impI)
    show "finite (dom ?h)" using f by simp
    fix p assume p: "p \<in># add_mset (Some a) R + links ?h"
    show "\<exists>xs. leads ?h p xs"
    proof (cases "p = Some a")
      case True
      have "\<exists>xs. leads h (td_next d) xs" by (rule old) simp
      with True head show ?thesis by blast
    next
      case False
      then have "\<exists>xs. leads h p xs" using p by (intro old) (auto simp: l)
      then show ?thesis using leads_with [of h a, OF a] by blast
    qed
  next
    fix b e assume b: "?h b = Some e"
    show "node_ok e" using b d inv unfolding tags_inv_def by (auto split: if_splits)
    show "Some b \<in># add_mset (Some a) R + links ?h" "unat (td_count e) = count (add_mset (Some a) R + links ?h) (Some b)"
      using b d no inv by (auto simp: tags_inv_def l split: if_splits)
         (auto simp flip: count_greater_zero_iff)
  qed
qed

end
