(* ===== verification/Packet_Tag_Segments.thy ===== *)
theory Packet_Tag_Segments
  imports Packet_Tag_Store
begin

text \<open>
  The nodes at the beginning of a tag list that belong to this list alone, up to the pointer that
  \<open>prevNext\<close> points to: taking them out of the heap and putting them back in front of another
  pointer.
\<close>

section \<open>Segments\<close>

primrec seg :: "(nat \<rightharpoonup> tag_data) \<Rightarrow> nat option \<Rightarrow> nat list \<Rightarrow> nat option \<Rightarrow> bool" where
  "seg h p [] q \<longleftrightarrow> p = q"
| "seg h p (a # us) q \<longleftrightarrow> p = Some a \<and> (\<exists>d. h a = Some d \<and> td_count d = 1 \<and> seg h (td_next d) us q)"

definition tags_of :: "(nat \<rightharpoonup> tag_data) \<Rightarrow> nat list \<Rightarrow> tag_list" where
  "tags_of h us = map (\<lambda>a. (td_tid (the (h a)), td_data (the (h a)))) us"

lemma tags_of_simps [simp]:
  "tags_of h [] = []"
  "tags_of h (a # us) = (td_tid (the (h a)), td_data (the (h a))) # tags_of h us"
  "tags_of h (us @ vs) = tags_of h us @ tags_of h vs"
  by (simp_all add: tags_of_def)

lemma tags_of_cong: "(\<And>a. a \<in> set us \<Longrightarrow> h a = h' a) \<Longrightarrow> tags_of h us = tags_of h' us"
  by (simp add: tags_of_def)

lemma seg_append: "seg h p (us @ vs) q \<longleftrightarrow> (\<exists>r. seg h p us r \<and> seg h r vs q)"
  by (induction us arbitrary: p) auto

lemma seg_cong: "(\<And>a. a \<in> set us \<Longrightarrow> h a = h' a) \<Longrightarrow> seg h p us q \<Longrightarrow> seg h' p us q"
  by (induction us arbitrary: p) auto

lemma leads_seg: "leads h p xs \<Longrightarrow> seg h p us q \<Longrightarrow> \<exists>ys. xs = tags_of h us @ ys \<and> leads h q ys"
proof (induction us arbitrary: p xs)
  case (Cons a us)
  then obtain d zs where d: "p = Some a" "h a = Some d" "seg h (td_next d) us q"
    "xs = (td_tid d, td_data d) # zs" "leads h (td_next d) zs" by (auto simp: leads_Some)
  from Cons.IH [OF d(5,3)] d show ?case by simp
qed simp

definition first :: "nat list \<Rightarrow> nat option \<Rightarrow> nat option" where
  "first us q = (case us of [] \<Rightarrow> q | a # _ \<Rightarrow> Some a)"

lemma first_simps [simp]: "first [] q = q" "first (a # us) q = Some a" "us \<noteq> [] \<Longrightarrow> first (us @ vs) q = first us q"
  by (auto simp: first_def split: list.splits)

lemma seg_first: "seg h p us q \<Longrightarrow> p = first us q"
  by (cases us) auto

text \<open>Taking them out.\<close>

lemma seg_avoid:
  assumes "\<And>b e. h b = Some e \<Longrightarrow> td_next e \<noteq> Some a"
  shows "p \<noteq> Some a \<Longrightarrow> seg h p us q \<Longrightarrow> a \<notin> set us \<and> seg (h(a := None)) p us q"
  by (induction us arbitrary: p) (use assms in auto)

lemma pop_seg:
  assumes "tags_inv (add_mset p R) h" and "seg h p us q"
  shows "distinct us \<and> tags_inv (add_mset q R) (h |` (- set us)) \<and> keeps (add_mset q R) h (h |` (- set us)) \<and>
    (\<forall>a\<in>set us. \<exists>d. h a = Some d \<and> node_ok d \<and> td_count d = 1)"
  using assms
proof (induction us arbitrary: p h)
  case (Cons a us)
  then obtain d where d: "p = Some a" "h a = Some d" "td_count d = 1" "seg h (td_next d) us q" by auto
  note pop = tags_pop [OF Cons.prems(1) [unfolded d(1)] d(2,3)]
  have s: "a \<notin> set us" "seg (h(a := None)) (td_next d) us q"
    using seg_avoid [of h a, OF pop(4) pop(3) d(4)] by simp_all
  have r: "h(a := None) |` (- set us) = h |` (- set (a # us))" by (auto simp: restrict_map_def fun_eq_iff)
  note IH = Cons.IH [OF pop(1) s(2), unfolded r]
  have "keeps (add_mset q R) h (h |` (- set (a # us)))"
  proof (rule keepsI)
    fix p' xs assume p': "p' \<in># add_mset q R" "leads h p' xs"
    have "leads (h(a := None)) p' xs"
    proof (rule leads_without [OF _ pop(4) p'(2)])
      have "Some a \<notin># add_mset q R"
        using IH tags_inv_leads [of "add_mset q R" "h |` (- set (a # us))" "Some a"] leads_dom by fastforce
      then show "p' \<noteq> Some a" using p'(1) by blast
    qed
    with IH p'(1) show "leads (h |` (- set (a # us))) p' xs" by (blast dest: keepsD)
  qed
  moreover have "node_ok d" using Cons.prems(1) d(2) unfolding tags_inv_def by blast
  ultimately show ?case using IH s(1) d(2,3) by (auto split: if_splits)
qed (simp add: restrict_map_def)

text \<open>Putting them back.\<close>

primrec relink :: "(nat \<rightharpoonup> tag_data) \<Rightarrow> nat list \<Rightarrow> nat option \<Rightarrow> (nat \<rightharpoonup> tag_data) \<Rightarrow> (nat \<rightharpoonup> tag_data)" where
  "relink h [] q g = g"
| "relink h (a # us) q g = (relink h us q g)(a \<mapsto> (the (h a))\<lparr>td_next := first us q\<rparr>)"

lemma relink_other [simp]: "a \<notin> set us \<Longrightarrow> relink h us q g a = g a"
  by (induction us) auto

lemma relink_update: "a \<notin> set us \<Longrightarrow> (relink h us q g)(a := v) = relink h us q (g(a := v))"
  by (induction us) (auto simp: fun_upd_twist)

lemma relink_same:
  "distinct us \<Longrightarrow> seg h p us q \<Longrightarrow> relink h us q (h |` (- set us)) = h"
proof (induction us arbitrary: p)
  case (Cons a us)
  then obtain d where d: "h a = Some d" "seg h (td_next d) us q" by auto
  have n: "td_next d = first us q" using seg_first [OF d(2)] .
  have "h |` (- set (a # us)) = (h |` (- set us))(a := None)" by (auto simp: restrict_map_def fun_eq_iff)
  then have "relink h us q (h |` (- set (a # us))) = relink h us q ((h |` (- set us))(a := None))" by (rule arg_cong)
  also have "\<dots> = (relink h us q (h |` (- set us)))(a := None)"
    by (rule relink_update [symmetric]) (use Cons.prems(1) in simp)
  also have "relink h us q (h |` (- set us)) = h" using Cons.IH [OF _ d(2)] Cons.prems(1) by simp
  finally have "relink h us q (h |` (- set (a # us))) = h(a := None)" .
  moreover have "d\<lparr>td_next := first us q\<rparr> = d" unfolding n [symmetric] by simp
  ultimately show ?case using d(1) by auto
qed (simp add: restrict_map_def)

lemma push_seg:
  assumes "tags_inv (add_mset q R) g" and "leads g q xs" and "distinct us" and "\<forall>a\<in>set us. g a = None"
    and "\<forall>a\<in>set us. \<exists>d. h a = Some d \<and> node_ok d \<and> td_count d = 1"
  shows "tags_inv (add_mset (first us q) R) (relink h us q g) \<and> keeps R g (relink h us q g) \<and>
    leads (relink h us q g) (first us q) (tags_of h us @ xs) \<and> seg (relink h us q g) (first us q) us q"
  using assms
proof (induction us)
  case (Cons a us)
  then obtain d where d: "h a = Some d" "node_ok d" "td_count d = 1" by auto
  let ?g = "relink h us q g" and ?d = "d\<lparr>td_next := first us q\<rparr>"
  have IH: "tags_inv (add_mset (first us q) R) ?g" "keeps R g ?g" "leads ?g (first us q) (tags_of h us @ xs)"
    "seg ?g (first us q) us q" using Cons by auto
  have a: "?g a = None" using Cons.prems by simp
  have inv: "tags_inv (add_mset (td_next ?d) R) ?g" and l: "leads ?g (td_next ?d) (tags_of h us @ xs)" using IH by simp_all
  have nd: "node_ok ?d" "td_count ?d = 1" using d by (simp_all add: node_ok_def)
  note push = tags_push(1,2) [OF inv a nd] tags_push(3) [OF inv a nd l]
  have "seg (?g(a \<mapsto> ?d)) (first us q) us q" by (rule seg_cong [OF _ IH(4)]) (use Cons.prems(3) in auto)
  then have "seg (?g(a \<mapsto> ?d)) (Some a) (a # us) q" using nd by (simp add: fun_upd_same del: fun_upd_apply)
  moreover have "keeps R g (?g(a \<mapsto> ?d))" by (rule tags_kept_trans [OF IH(2) push(2)])
  ultimately show ?case using push(1,3) d by (simp del: fun_upd_apply seg.simps leads.simps)
qed simp

section \<open>The pointer to the next\<close>

definition slot_of :: "nat list \<Rightarrow> slot" where
  "slot_of us = (if us = [] then ListNext else NodeNext (last us))"

lemma slot_of_snoc [simp]: "slot_of (us @ [c]) = NodeNext c"
  by (simp add: slot_of_def)

lemma relink_last:
  "distinct us \<Longrightarrow> us \<noteq> [] \<Longrightarrow>
   relink h us q g (last us) = Some ((the (h (last us)))\<lparr>td_next := q\<rparr>) \<and>
   (relink h us q g)(last us \<mapsto> (the (h (last us)))\<lparr>td_next := q'\<rparr>) = relink h us q' g"
proof (induction us)
  case (Cons a us)
  show ?case
  proof (cases "us = []")
    case False
    then have "last us \<noteq> a" using Cons.prems(1) by auto
    moreover have "first us q = first us q'" using False by (cases us) auto
    moreover have "(relink h us q g)(last us \<mapsto> (the (h (last us)))\<lparr>td_next := q'\<rparr>) = relink h us q' g"
      "relink h us q g (last us) = Some ((the (h (last us)))\<lparr>td_next := q\<rparr>)"
      using Cons.IH [OF _ False] Cons.prems(1) by (simp_all del: fun_upd_apply)
    moreover have "(f(a \<mapsto> y))(last us \<mapsto> x) = (f(last us \<mapsto> x))(a \<mapsto> y)" for f :: "nat \<rightharpoonup> tag_data" and x y
      using \<open>last us \<noteq> a\<close> by (intro fun_upd_twist) simp
    ultimately show ?thesis using False by (simp add: fun_upd_other del: fun_upd_apply)
  qed (simp add: fun_eq_iff)
qed simp

lemma set_slot_relink:
  assumes "ts_heap st = relink h us q g" and "distinct us" and "m = first us q"
  shows "set_slot (slot_of us) q' (m, st) = Some (first us q', st\<lparr>ts_heap := relink h us q' g\<rparr>)"
proof (cases us)
  case Nil
  then show ?thesis using assms by (simp add: set_slot_def slot_of_def)
next
  case (Cons a vs)
  note l = relink_last [OF assms(2), of h q g q']
  have "us \<noteq> []" using Cons by simp
  with l have l1: "ts_heap st (last us) = Some ((the (h (last us)))\<lparr>td_next := q\<rparr>)"
    and l2: "(ts_heap st)(last us \<mapsto> (the (h (last us)))\<lparr>td_next := q'\<rparr>) = relink h us q' g"
    using assms(1) by simp_all
  have "m = first us q'" using Cons assms(3) by simp
  then show ?thesis using \<open>us \<noteq> []\<close> l1 l2 by (simp add: set_slot_def slot_of_def ts_put_def)
qed

end
