(* ===== verification/Packet_Tag_Ops.thy ===== *)
theory Packet_Tag_Ops
  imports Packet_Tag_Segments
begin

text \<open>
  The operations of \<open>PacketTagList\<close> one by one: each does to the tags of its list what its name
  says, keeps the tags of all other lists, keeps the invariant of the store and never fails.
\<close>

section \<open>Stores\<close>

definition store_ok :: "nat option multiset \<Rightarrow> tag_store \<Rightarrow> bool" where
  "store_ok R st \<longleftrightarrow> tags_inv R (ts_heap st) \<and> (\<forall>a\<in>dom (ts_heap st). a < ts_fresh st)"

abbreviation has_tags :: "tag_store \<Rightarrow> nat option \<Rightarrow> tag_list \<Rightarrow> bool" where
  "has_tags st m xs \<equiv> leads (ts_heap st) m xs"

abbreviation keeps_tags :: "nat option multiset \<Rightarrow> tag_store \<Rightarrow> tag_store \<Rightarrow> bool" where
  "keeps_tags R st st' \<equiv> keeps R (ts_heap st) (ts_heap st')"

lemma store_ok_inv: "store_ok R st \<Longrightarrow> tags_inv R (ts_heap st)"
  by (simp add: store_ok_def)

lemma store_ok_null [simp]: "store_ok (add_mset None R) st \<longleftrightarrow> store_ok R st"
  by (simp add: store_ok_def)

lemma store_ok_tags: "store_ok R st \<Longrightarrow> p \<in># R \<Longrightarrow> \<exists>xs. has_tags st p xs"
  unfolding store_ok_def using tags_inv_leads by blast

lemma tags_inv_count: "tags_inv R h \<Longrightarrow> h a = Some d \<Longrightarrow> 0 < unat (td_count d)"
  unfolding tags_inv_def count_greater_zero_iff [symmetric] by metis

lemma tags_inv_ok: "tags_inv R h \<Longrightarrow> h a = Some d \<Longrightarrow> node_ok d"
  unfolding tags_inv_def by blast

lemma tags_inv_next: "tags_inv R h \<Longrightarrow> h a = Some d \<Longrightarrow> \<exists>xs. leads h (td_next d) xs"
  using tags_inv_node [of R h a] by (auto simp: leads_Some)

definition small :: "nat option multiset \<Rightarrow> bool" where
  "small R \<longleftrightarrow> size R < 2 ^ 32 - 4"

section \<open>Copies and clearing\<close>

lemma ts_inc_eq: "ts_heap st a = Some d \<Longrightarrow>
  ts_inc (Some a) st = Some (st\<lparr>ts_heap := (ts_heap st)(a \<mapsto> d\<lparr>td_count := td_count d + 1\<rparr>)\<rparr>)"
  by (simp add: ts_inc_def ts_put_def)

lemma ts_dec_eq: "ts_heap st a = Some d \<Longrightarrow>
  ts_dec a st = Some (st\<lparr>ts_heap := (ts_heap st)(a \<mapsto> d\<lparr>td_count := td_count d - 1\<rparr>)\<rparr>)"
  by (simp add: ts_dec_def ts_put_def)

lemma tl_copy_ok:
  assumes "store_ok (add_mset m R) st" and "has_tags st m xs" and "small R"
  shows "\<exists>st'. tl_copy m st = Some (m, st') \<and> store_ok (add_mset m (add_mset m R)) st' \<and>
    keeps_tags (add_mset m R) st st'"
proof (cases m)
  case (Some a)
  then obtain d where d: "ts_heap st a = Some d" using assms(2) by (auto simp: leads_Some)
  have "tags_inv (add_mset (Some a) (add_mset (Some a) R)) ((ts_heap st)(a \<mapsto> d\<lparr>td_count := td_count d + 1\<rparr>))"
    using assms(1,3) d Some by (intro tags_dup) (simp_all add: store_ok_def small_def)
  moreover have "keeps (add_mset m R) (ts_heap st) ((ts_heap st)(a \<mapsto> d\<lparr>td_count := td_count d + 1\<rparr>))"
    using same_nodes_keeps [OF same_nodes_count [of "ts_heap st" a, OF d]] .
  ultimately show ?thesis using assms(1) d Some
    by (auto simp: tl_copy_def ts_inc_eq store_ok_def simp del: fun_upd_apply keeps_add_mset)
qed (use assms in \<open>simp add: tl_copy_def\<close>)

text \<open>
  The loop of \<open>RemoveAll\<close> frees each node one round after it has left it: \<open>prev\<close> is a node that
  is not part of the heap any more.
\<close>

definition cut_prev :: "nat option \<Rightarrow> (nat \<rightharpoonup> tag_data) \<Rightarrow> (nat \<rightharpoonup> tag_data)" where
  "cut_prev prev h = (case prev of None \<Rightarrow> h | Some b \<Rightarrow> h(b := None))"

lemma free_prev_cut:
  "(\<forall>b. prev = Some b \<longrightarrow> ts_heap st b \<noteq> None) \<Longrightarrow> free_prev prev st = Some (st\<lparr>ts_heap := cut_prev prev (ts_heap st)\<rparr>)"
  by (auto simp: free_prev_def ts_free_def cut_prev_def split: option.splits)

lemma cut_update: "(\<forall>b. prev = Some b \<longrightarrow> b \<noteq> a) \<Longrightarrow> cut_prev prev (h(a := v)) = (cut_prev prev h)(a := v)"
  by (auto simp: cut_prev_def fun_upd_twist split: option.splits)

lemma cut_apply: "cut_prev prev h a = (if prev = Some a then None else h a)"
  by (simp add: cut_prev_def split: option.splits)

lemma remove_all_loop_ok:
  assumes "tags_inv (add_mset p R) (cut_prev prev (ts_heap st))" and "leads (cut_prev prev (ts_heap st)) p xs"
    and "\<forall>b. prev = Some b \<longrightarrow> ts_heap st b \<noteq> None"
  shows "\<exists>st'. remove_all_loop prev p st = Some st' \<and> tags_inv R (ts_heap st') \<and>
    keeps R (cut_prev prev (ts_heap st)) (ts_heap st') \<and> dom (ts_heap st') \<subseteq> dom (ts_heap st) \<and>
    ts_fresh st' = ts_fresh st \<and> ts_malloc st' = ts_malloc st"
  using assms
proof (induction xs arbitrary: p prev st)
  case Nil
  then have "remove_all_loop prev p st = Some (st\<lparr>ts_heap := cut_prev prev (ts_heap st)\<rparr>)"
    by (simp add: remove_all_loop.simps free_prev_cut)
  moreover have "dom (cut_prev prev (ts_heap st)) \<subseteq> dom (ts_heap st)" by (auto simp: cut_prev_def split: option.splits)
  ultimately show ?case using Nil by simp
next
  case (Cons x xs)
  let ?h = "ts_heap st" and ?g = "cut_prev prev (ts_heap st)"
  from Cons.prems(2) obtain a d where d: "p = Some a" "?g a = Some d" "leads ?g (td_next d) xs" by auto
  have a: "prev \<noteq> Some a" "?h a = Some d" using d(2) by (auto simp: cut_apply split: if_splits)
  let ?d = "d\<lparr>td_count := td_count d - 1\<rparr>"
  let ?st1 = "st\<lparr>ts_heap := ?h(a \<mapsto> ?d)\<rparr>" and ?st2 = "st\<lparr>ts_heap := ?g(a \<mapsto> ?d)\<rparr>"
  have fp: "free_prev prev ?st1 = Some ?st2"
  proof -
    have "\<forall>b. prev = Some b \<longrightarrow> b \<noteq> a" using a(1) by blast
    from cut_update [OF this] show ?thesis using Cons.prems(3) by (subst free_prev_cut) auto
  qed
  have step: "remove_all_loop prev p st =
      (if td_count ?d > 0 then Some ?st2 else remove_all_loop (Some a) (td_next d) ?st2)"
    unfolding remove_all_loop.simps [of prev p] using a d(1) fp by (simp add: ts_dec_eq)
  have pos: "0 < unat (td_count d)" using tags_inv_count [OF Cons.prems(1) d(2)] .
  have sub: "dom ?g \<subseteq> dom ?h" by (auto simp: cut_apply split: if_splits)
  show ?case
  proof (cases "td_count ?d > 0")
    case True
    have "td_count d \<noteq> 1" using True by auto
    then have "unat (td_count d) \<noteq> unat (1 :: u32)" by (metis word_unat_eq_iff)
    then have "td_count d > 1" using pos by (simp add: word_less_nat_alt)
    from tags_drop [OF Cons.prems(1) [unfolded d(1)] d(2) this]
    have "tags_inv R (?g(a \<mapsto> ?d))" .
    moreover have "keeps R ?g (?g(a \<mapsto> ?d))" using same_nodes_keeps [OF same_nodes_count [of ?g a, OF d(2)]] .
    moreover have "dom (?g(a \<mapsto> ?d)) \<subseteq> dom ?h" using sub a(2) by auto
    ultimately show ?thesis using step True by (simp del: fun_upd_apply)
  next
    case False
    then have "td_count d - 1 = 0" by (simp add: word_gt_0)
    then have "td_count d = 1" by (simp only: right_minus_eq)
    note pop = tags_pop(1,2) [OF Cons.prems(1) [unfolded d(1)] d(2) this]
    have c: "cut_prev (Some a) (ts_heap ?st2) = ?g(a := None)" by (simp add: cut_prev_def)
    have l: "leads (?g(a := None)) (td_next d) xs" using pop(2) d(3) by simp
    have "\<forall>b. Some a = Some b \<longrightarrow> ts_heap ?st2 b \<noteq> None" by simp
    from Cons.IH [of "td_next d" "Some a" ?st2, unfolded c, OF pop(1) l this] obtain st' where st':
      "remove_all_loop (Some a) (td_next d) ?st2 = Some st'" "tags_inv R (ts_heap st')"
      "keeps R (?g(a := None)) (ts_heap st')" "dom (ts_heap st') \<subseteq> dom (ts_heap ?st2)"
      "ts_fresh st' = ts_fresh st" "ts_malloc st' = ts_malloc st" by (auto simp del: fun_upd_apply)
    have "dom (ts_heap ?st2) \<subseteq> dom ?h" using sub a(2) by (auto simp: dom_def)
    moreover have "keeps R ?g (ts_heap st')" using pop(2) st'(3) by (auto intro: tags_kept_trans)
    ultimately show ?thesis using step False st' by auto
  qed
qed

lemma tl_RemoveAll_ok:
  assumes "store_ok (add_mset m R) st"
  shows "\<exists>st'. tl_RemoveAll m st = Some (None, st') \<and> store_ok R st' \<and> keeps_tags R st st'"
proof -
  obtain xs where xs: "has_tags st m xs" using store_ok_tags [OF assms, of m] by auto
  have "tags_inv (add_mset m R) (cut_prev None (ts_heap st))" "leads (cut_prev None (ts_heap st)) m xs"
    using assms xs by (simp_all add: store_ok_def cut_prev_def)
  from remove_all_loop_ok [OF this] obtain st' where st': "remove_all_loop None m st = Some st'"
    "tags_inv R (ts_heap st')" "keeps R (ts_heap st) (ts_heap st')" "dom (ts_heap st') \<subseteq> dom (ts_heap st)"
    "ts_fresh st' = ts_fresh st" by (auto simp: cut_prev_def)
  then show ?thesis using assms by (auto simp: tl_RemoveAll_def store_ok_def)
qed

lemma tl_assign_ok:
  assumes "store_ok (add_mset m (add_mset n R)) st" and "small R"
  shows "\<exists>st'. tl_assign n m st = Some (n, st') \<and> store_ok (add_mset n (add_mset n R)) st' \<and>
    keeps_tags (add_mset n R) st st'"
proof (cases "m = n")
  case False
  from tl_RemoveAll_ok [OF assms(1)] obtain st1 where st1: "tl_RemoveAll m st = Some (None, st1)"
    "store_ok (add_mset n R) st1" "keeps_tags (add_mset n R) st st1" by blast
  obtain xs where "has_tags st1 n xs" using store_ok_tags [OF st1(2), of n] by auto
  from tl_copy_ok [OF st1(2) this assms(2)] obtain st2 where "tl_copy n st1 = Some (n, st2)"
    "store_ok (add_mset n (add_mset n R)) st2" "keeps_tags (add_mset n R) st1 st2" by blast
  with st1 False show ?thesis by (auto simp: tl_assign_def simp del: keeps_add_mset intro: tags_kept_trans)
qed (use assms in \<open>simp add: tl_assign_def\<close>)

end
