(* ===== verification/Packet_Tag_Cow.thy ===== *)
theory Packet_Tag_Cow
  imports Packet_Tag_Ops
begin

text \<open>
  \<open>Add\<close>, \<open>Peek\<close>, \<open>Remove\<close> and \<open>Replace\<close> of \<open>PacketTagList\<close>, with the traversal that copies
  shared nodes before it writes. What a writer promises to the traversal is a locale.
\<close>

section \<open>The bytes of a tag\<close>

fun field_bytes :: "tag_field \<Rightarrow> u8 list" where
  "field_bytes (FieldU8 v) = [v]"
| "field_bytes (FieldU16 v) = bytes_le 2 v"
| "field_bytes (FieldU32 v) = bytes_le 4 v"
| "field_bytes (FieldU64 v) = bytes_le 8 v"
| "field_bytes (FieldBytes xs) = xs"

definition tag_bytes :: "tag \<Rightarrow> u8 list" where
  "tag_bytes t = concat (map field_bytes (tag_fields t))"

text \<open>\<open>GetSerializedSize\<close> announces what \<open>Serialize\<close> writes.\<close>

definition tag_ok :: "tag \<Rightarrow> bool" where
  "tag_ok t \<longleftrightarrow> length (tag_bytes t) = unat (tag_size t) \<and> tag_size t < 0xffffffff"

lemma write_field_bytes: "write_field f = tb_Write (field_bytes f)"
  by (cases f) (simp_all add: tb_Write_bytes_le del: tb_Write.simps)

lemma write_fields_bytes: "write_fields fs b = tb_Write (concat (map field_bytes fs)) b"
proof (induction fs arbitrary: b)
  case (Cons f fs)
  then show ?case by (cases "tb_Write (field_bytes f) b") (simp_all add: write_field_bytes tb_Write_append)
qed simp

lemma serialize_into_eq:
  assumes "ts_heap st a = Some d" and "node_ok d" and "unat (td_size d) = length (tag_bytes t)"
  shows "serialize_into t a st = Some (st\<lparr>ts_heap := (ts_heap st)(a \<mapsto> d\<lparr>td_data := tag_bytes t\<rparr>)\<rparr>)"
proof -
  have "length (td_data d) = length (tag_bytes t)" using assms by (simp add: node_ok_def)
  then have "tb_Write (tag_bytes t) (TagBuffer (td_data d) 0 (length (tag_bytes t))) =
      Some (TagBuffer (tag_bytes t) (length (tag_bytes t)) (length (tag_bytes t)))"
    by (subst tb_Write_at) (simp_all add: TagBuffer_def put_def)
  then show ?thesis using assms
    by (simp add: serialize_into_def write_fields_bytes ts_put_def TagBuffer_def flip: tag_bytes_def)
qed

lemma CreateTagData_eq:
  "n < 0xffffffff \<Longrightarrow> CreateTagData n st = Some (ts_fresh st, st\<lparr>ts_heap := (ts_heap st)(ts_fresh st \<mapsto>
     \<lparr>td_next = None, td_count = 0, td_tid = 0, td_size = n, td_data = map (ts_malloc st (ts_fresh st)) [0..<unat n]\<rparr>),
     ts_fresh := ts_fresh st + 1\<rparr>)"
  by (simp add: CreateTagData_def Let_def)

section \<open>Adding and finding\<close>

lemma find_tid_ok:
  "has_tags st p xs \<Longrightarrow> (if tid \<in> fst ` set xs
     then (\<exists>a d. find_tid tid p st = Some (Some a) \<and> ts_heap st a = Some d \<and> node_ok d \<and> map_of xs tid = Some (td_data d))
     else find_tid tid p st = Some None)"
proof (induction xs arbitrary: p)
  case Nil
  then show ?case by (simp add: find_tid.simps)
next
  case (Cons x xs)
  then obtain a d where d: "p = Some a" "ts_heap st a = Some d" "node_ok d" "x = (td_tid d, td_data d)" "has_tags st (td_next d) xs"
    by auto
  have step: "find_tid tid p st = (if td_tid d = tid then Some (Some a) else find_tid tid (td_next d) st)"
    using d by (simp add: find_tid.simps)
  show ?case
  proof (cases "td_tid d \<noteq> tid \<and> tid \<in> fst ` set xs")
    case True
    with Cons.IH [OF d(5)] obtain b e where "find_tid tid (td_next d) st = Some (Some b)" "ts_heap st b = Some e"
      "node_ok e" "map_of xs tid = Some (td_data e)" by (auto split: if_splits)
    with True step d show ?thesis by (simp, metis)
  next
    case False
    with Cons.IH [OF d(5)] step d show ?thesis by (auto split: if_splits)
  qed
qed

lemma find_tid_None: "has_tags st p xs \<Longrightarrow> find_tid tid p st = Some None \<longleftrightarrow> tid \<notin> fst ` set xs"
  using find_tid_ok [of st p xs tid] by (auto split: if_splits)

lemma tl_Peek_ok:
  assumes "has_tags st m xs"
  shows "tl_Peek tid m st = Some (map_of xs tid)"
proof (cases "tid \<in> fst ` set xs")
  case True
  with find_tid_ok [OF assms, of tid] show ?thesis by (auto simp: tl_Peek_def node_ok_def)
next
  case False
  with find_tid_ok [OF assms, of tid] show ?thesis by (simp add: tl_Peek_def map_of_eq_None_iff [THEN iffD2])
qed

lemma store_ok_push:
  assumes ok: "store_ok (add_mset q R) st" and d: "node_ok d" "td_count d = 1" "td_next d = q" and xs: "has_tags st q xs"
  defines "st' \<equiv> st\<lparr>ts_heap := (ts_heap st)(ts_fresh st \<mapsto> d), ts_fresh := ts_fresh st + 1\<rparr>"
  shows "store_ok (add_mset (Some (ts_fresh st)) R) st'" and "keeps_tags R st st'"
    and "has_tags st' (Some (ts_fresh st)) ((td_tid d, td_data d) # xs)"
proof -
  have new: "ts_heap st (ts_fresh st) = None" using ok by (force simp: store_ok_def dom_def)
  have inv: "tags_inv (add_mset (td_next d) R) (ts_heap st)" using ok d by (simp add: store_ok_def)
  note push = tags_push [OF inv new d(1,2)]
  show "store_ok (add_mset (Some (ts_fresh st)) R) st'"
    using push(1) ok by (auto simp: store_ok_def st'_def less_Suc_eq simp del: fun_upd_apply)
  show "keeps_tags R st st'" using push(2) by (simp add: st'_def)
  show "has_tags st' (Some (ts_fresh st)) ((td_tid d, td_data d) # xs)" using push(3) xs d(3) by (simp add: st'_def)
qed

lemma tl_Add_ok:
  assumes ok: "store_ok (add_mset m R) st" and xs: "has_tags st m xs" and t: "tag_ok t" "tag_tid t \<notin> fst ` set xs"
  shows "\<exists>m' st'. tl_Add t m st = Some (m', st') \<and> store_ok (add_mset m' R) st' \<and> keeps_tags R st st' \<and>
    has_tags st' m' ((tag_tid t, tag_bytes t) # xs)"
proof -
  let ?a = "ts_fresh st" and ?h = "ts_heap st"
  let ?d = "\<lparr>td_next = m, td_count = 1, td_tid = tag_tid t, td_size = tag_size t, td_data = tag_bytes t\<rparr>"
  have f: "find_tid (tag_tid t) m st = Some None" using find_tid_None [OF xs] t(2) by simp
  have c: "tag_size t < 0xffffffff" "unat (tag_size t) = length (tag_bytes t)" using t(1) by (simp_all add: tag_ok_def)
  have "tl_Add t m st = Some (Some ?a, st\<lparr>ts_heap := ?h(?a \<mapsto> ?d), ts_fresh := ?a + 1\<rparr>)"
    using f c by (simp add: tl_Add_def CreateTagData_eq ts_put_def serialize_into_eq node_ok_def)
  moreover have "node_ok ?d" using c by (simp add: node_ok_def)
  ultimately show ?thesis using store_ok_push [OF ok, of ?d, OF _ _ _ xs] by auto
qed

lemma tl_Add_twice:
  assumes "has_tags st m xs" and "tag_tid t \<in> fst ` set xs"
  shows "tl_Add t m st = None"
proof -
  from find_tid_ok [OF assms(1), of "tag_tid t"] assms(2) obtain a where "find_tid (tag_tid t) m st = Some (Some a)" by auto
  then show ?thesis by (simp add: tl_Add_def)
qed

section \<open>A store seen from behind the own nodes\<close>

text \<open>The heap as own nodes \<open>us\<close>, which \<open>prevNext\<close> ends, in front of the rest.\<close>

lemma view_get: "ts_heap st = relink h us q g \<Longrightarrow> a \<notin> set us \<Longrightarrow> ts_heap st a = g a"
  by simp

lemma view_put:
  "ts_heap st = relink h us q g \<Longrightarrow> a \<notin> set us \<Longrightarrow> g a \<noteq> None \<Longrightarrow>
   ts_put a d st = Some (st\<lparr>ts_heap := relink h us q (g(a \<mapsto> d))\<rparr>)"
  by (simp add: ts_put_def relink_update)

lemma view_dec:
  "ts_heap st = relink h us q g \<Longrightarrow> a \<notin> set us \<Longrightarrow> g a = Some d \<Longrightarrow>
   ts_dec a st = Some (st\<lparr>ts_heap := relink h us q (g(a \<mapsto> d\<lparr>td_count := td_count d - 1\<rparr>))\<rparr>)"
  by (simp add: ts_dec_def view_put)

lemma view_inc:
  "ts_heap st = relink h us q g \<Longrightarrow> a \<notin> set us \<Longrightarrow> g a = Some d \<Longrightarrow>
   ts_inc (Some a) st = Some (st\<lparr>ts_heap := relink h us q (g(a \<mapsto> d\<lparr>td_count := td_count d + 1\<rparr>))\<rparr>)"
  by (simp add: ts_inc_def view_put)

lemma view_free:
  "ts_heap st = relink h us q g \<Longrightarrow> a \<notin> set us \<Longrightarrow> g a \<noteq> None \<Longrightarrow>
   ts_free a st = Some (st\<lparr>ts_heap := relink h us q (g(a := None))\<rparr>)"
  by (simp add: ts_free_def relink_update)

lemma leads_relink:
  "\<forall>a\<in>set us. g a = None \<Longrightarrow> distinct us \<Longrightarrow> leads g p xs \<Longrightarrow> leads (relink h us q g) p xs"
proof (induction us)
  case (Cons a us)
  then have "leads (relink h us q g) p xs" "relink h us q g a = None" by simp_all
  then show ?case using leads_with by (simp del: fun_upd_apply)
qed simp

lemma dom_relink: "dom (relink h us q g) = set us \<union> dom g"
proof (induction us)
  case (Cons a us)
  have "dom (relink h (a # us) q g) = insert a (dom (relink h us q g))" by simp
  then show ?case by (simp only: Cons.IH list.set Un_insert_left)
qed simp

lemma tags_of_relink: "distinct us \<Longrightarrow> tags_of (relink h us q g) us = tags_of h us"
proof (induction us)
  case (Cons a us)
  have "tags_of (relink h (a # us) q g) us = tags_of (relink h us q g) us"
    by (rule tags_of_cong) (use Cons.prems in auto)
  then have "tags_of (relink h (a # us) q g) us = tags_of h us" using Cons by simp
  then show ?case by (simp del: fun_upd_apply relink.simps) simp
qed simp

text \<open>What is known at the place where the traversal has arrived.\<close>

lemma at_slot:
  assumes ok: "store_ok (add_mset m R) st" and seg: "seg (ts_heap st) m us q" and ys: "has_tags st q ys"
  defines "g \<equiv> ts_heap st |` (- set us)"
  shows "distinct us" and "\<forall>a\<in>set us. g a = None" and "\<forall>a\<in>set us. \<exists>d. ts_heap st a = Some d \<and> node_ok d \<and> td_count d = 1"
    and "tags_inv (add_mset q R) g" and "keeps R (ts_heap st) g" and "leads g q ys"
    and "ts_heap st = relink (ts_heap st) us q g" and "m = first us q"
proof -
  note p = pop_seg [OF store_ok_inv [OF ok] seg]
  show d: "distinct us" "tags_inv (add_mset q R) g" "keeps R (ts_heap st) g" "leads g q ys"
    "\<forall>a\<in>set us. \<exists>d. ts_heap st a = Some d \<and> node_ok d \<and> td_count d = 1"
    using p ys by (auto simp: g_def)
  show "\<forall>a\<in>set us. g a = None" by (simp add: g_def)
  show "ts_heap st = relink (ts_heap st) us q g" using relink_same [OF d(1) seg] by (simp add: g_def)
  show "m = first us q" by (rule seg_first [OF seg])
qed

text \<open>
  The end of an operation: \<open>prevNext\<close> is set to \<open>q'\<close> in front of a rest that is well-formed with
  this pointer in the place of the list.
\<close>

lemma at_slot_done:
  assumes ok: "store_ok (add_mset m R) st" and seg: "seg (ts_heap st) m us q" and ys: "has_tags st q ys"
    and inv: "tags_inv (add_mset q' R) g'" and k: "keeps R (ts_heap st |` (- set us)) g'" and zs: "leads g' q' zs"
    and none: "\<forall>a\<in>set us. g' a = None" and h': "ts_heap st' = relink (ts_heap st) us q' g'"
    and fresh: "\<forall>a\<in>dom g'. a < ts_fresh st'" "ts_fresh st \<le> ts_fresh st'"
  shows "store_ok (add_mset (first us q') R) st' \<and> keeps_tags R st st' \<and>
    has_tags st' (first us q') (tags_of (ts_heap st) us @ zs) \<and> seg (ts_heap st') (first us q') us q' \<and>
    tags_of (ts_heap st') us = tags_of (ts_heap st) us"
proof -
  note s = at_slot [OF ok seg ys]
  note p = push_seg [OF inv zs s(1) none s(3)]
  have "\<forall>a\<in>set us. a < ts_fresh st'" using s(3) ok fresh(2) by (force simp: store_ok_def dom_def)
  then have "store_ok (add_mset (first us q') R) st'" using p fresh(1) by (auto simp: store_ok_def h' dom_relink)
  moreover have "keeps_tags R st st'" using p s(5) k by (auto simp: h' intro: tags_kept_trans)
  ultimately show ?thesis using p tags_of_relink [OF s(1)] by (simp add: h')
qed

end
