(* ===== verification/Packet_Tag_Traverse.thy ===== *)
theory Packet_Tag_Traverse
  imports Packet_Tag_Cow
begin

text \<open>
  \<open>COWTraverse\<close> of \<open>PacketTagList\<close>: the search in the nodes the list owns, the copies of shared
  nodes, and the two writers.
\<close>

section \<open>Removing and replacing in a list\<close>

primrec remove_tag :: "u16 \<Rightarrow> tag_list \<Rightarrow> tag_list" where
  "remove_tag tid [] = []"
| "remove_tag tid (x # xs) = (if fst x = tid then xs else x # remove_tag tid xs)"

primrec replace_tag :: "u16 \<Rightarrow> u8 list \<Rightarrow> tag_list \<Rightarrow> tag_list" where
  "replace_tag tid v [] = []"
| "replace_tag tid v (x # xs) = (if fst x = tid then (tid, v) # xs else x # replace_tag tid v xs)"

lemma split_tags: "tid \<in> fst ` set xs \<Longrightarrow>
  \<exists>us v ys. xs = us @ (tid, v) # ys \<and> tid \<notin> fst ` set us"
proof (induction xs)
  case (Cons x xs)
  show ?case
  proof (cases "fst x = tid")
    case True
    then have "x # xs = [] @ (tid, snd x) # xs" by (cases x) simp
    then show ?thesis by fastforce
  next
    case False
    with Cons obtain us v ys where "xs = us @ (tid, v) # ys" "tid \<notin> fst ` set us" by auto
    with False have "x # xs = (x # us) @ (tid, v) # ys" "tid \<notin> fst ` set (x # us)" by auto
    then show ?thesis by blast
  qed
qed simp

lemma at_tag [simp]:
  assumes "tid \<notin> fst ` set us"
  shows "map_of (us @ (tid, v) # ys) tid = Some v" "remove_tag tid (us @ (tid, v) # ys) = us @ ys"
    "replace_tag tid w (us @ (tid, v) # ys) = us @ (tid, w) # ys"
  using assms by (induction us) (auto simp: rev_image_eqI)

lemma split_at_tag:
  "us @ (tid, v) # ys = vs @ zs \<Longrightarrow> tid \<notin> fst ` set vs \<Longrightarrow> \<exists>ws. us = vs @ ws \<and> zs = ws @ (tid, v) # ys"
proof (induction vs arbitrary: us)
  case (Cons x vs)
  then show ?case by (cases us) auto
qed simp

lemma remove_tag_absent: "tid \<notin> fst ` set xs \<Longrightarrow> remove_tag tid xs = xs"
  by (induction xs) auto

section \<open>The search\<close>

lemma cow_search_ok:
  assumes count: "\<forall>a d. ts_heap st a = Some d \<longrightarrow> 0 < unat (td_count d)"
  shows "has_tags st p xs \<Longrightarrow> \<exists>us cur hit. cow_search tid sl p st = Some (if us = [] then sl else NodeNext (last us), cur, hit) \<and>
    seg (ts_heap st) p us cur \<and> tid \<notin> fst ` set (tags_of (ts_heap st) us) \<and>
    (\<forall>a. cur = Some a \<longrightarrow> (\<exists>d. ts_heap st a = Some d \<and>
       (if hit then td_count d = 1 \<and> td_tid d = tid else 1 < td_count d)))"
proof (induction xs arbitrary: p sl)
  case Nil
  then show ?case
    by (intro exI [of _ "[]"] exI [of _ "None :: nat option"] exI [of _ False]) (simp add: cow_search.simps)
next
  case (Cons x xs)
  then obtain a d where d: "p = Some a" "ts_heap st a = Some d" "has_tags st (td_next d) xs" by auto
  have step: "cow_search tid sl p st = (if td_count d > 1 then Some (sl, Some a, False)
      else if td_tid d = tid then Some (sl, Some a, True) else cow_search tid (NodeNext a) (td_next d) st)"
    using d by (simp add: cow_search.simps)
  have pos: "0 < unat (td_count d)" using count d(2) by blast
  show ?case
  proof (cases "td_count d > 1 \<or> td_tid d = tid")
    case True
    have "td_count d = 1" if "\<not> td_count d > 1"
      using that pos by (simp add: word_less_nat_alt word_unat_eq_iff)
    with True step d show ?thesis by (intro exI [of _ "[]"]) auto
  next
    case False
    have c: "td_count d = 1"
      using False pos by (simp add: word_less_nat_alt word_unat_eq_iff)
    from Cons.IH [OF d(3), of "NodeNext a"] obtain us cur hit where IH:
      "cow_search tid (NodeNext a) (td_next d) st = Some (if us = [] then NodeNext a else NodeNext (last us), cur, hit)"
      "seg (ts_heap st) (td_next d) us cur" "tid \<notin> fst ` set (tags_of (ts_heap st) us)"
      "\<forall>a. cur = Some a \<longrightarrow> (\<exists>d. ts_heap st a = Some d \<and>
        (if hit then td_count d = 1 \<and> td_tid d = tid else 1 < td_count d))" by blast
    have "cow_search tid sl p st = Some (if a # us = [] then sl else NodeNext (last (a # us)), cur, hit)"
      using step False IH(1) by auto
    moreover have "seg (ts_heap st) p (a # us) cur" using d c IH(2) by simp
    moreover have "tid \<notin> fst ` set (tags_of (ts_heap st) (a # us))" using IH(3) False d(2) by auto
    ultimately show ?thesis using IH(4) by blast
  qed
qed

section \<open>Copying\<close>

lemma cow_copy_ok:
  assumes ok: "store_ok (add_mset m R) st" and small: "small R" and seg: "seg (ts_heap st) m us (Some a)"
    and a: "ts_heap st a = Some d" "1 < td_count d" and ys: "has_tags st (Some a) ((td_tid d, td_data d) # y # ys)"
  shows "\<exists>c b m' st'. cow_copy (slot_of us) a (m, st) = Some (c, b, m', st') \<and> store_ok (add_mset m' R) st' \<and>
    keeps_tags R st st' \<and> seg (ts_heap st') m' (us @ [c]) (Some b) \<and> has_tags st' (Some b) (y # ys) \<and>
    tags_of (ts_heap st') (us @ [c]) = tags_of (ts_heap st) us @ [(td_tid d, td_data d)] \<and>
    (\<exists>e. ts_heap st' b = Some e \<and> 1 < td_count e)"
proof -
  let ?h = "ts_heap st" and ?c = "ts_fresh st"
  define g where "g = ?h |` (- set us)"
  note s = at_slot [OF ok seg ys, folded g_def]
  have ga: "g a = Some d" "a \<notin> set us" using s(2,6) a(1) by (auto simp: leads_Some g_def restrict_map_def split: if_splits)
  have c: "?h ?c = None" "?c \<notin> set us" "g ?c = None"
    using ok s(3) by (force simp: store_ok_def dom_def g_def restrict_map_def)+
  have nd: "node_ok d" "leads g (td_next d) (y # ys)" using s(6) ga(1) by simp_all
  then obtain b where b: "td_next d = Some b" by auto
  define g1 where "g1 = g(a \<mapsto> d\<lparr>td_count := td_count d - 1\<rparr>)"
  have same1: "same_nodes g g1" unfolding g1_def by (rule same_nodes_count [of g a, OF ga(1)])
  have inv1: "tags_inv R g1" unfolding g1_def by (rule tags_drop [OF s(4) ga(1) a(2)])
  have l1: "leads g1 (Some b) (y # ys)" using same_nodes_leads [OF same1 nd(2)] b by simp
  then obtain e where e: "g1 b = Some e" by auto
  define g2 where "g2 = g1(b \<mapsto> e\<lparr>td_count := td_count e + 1\<rparr>)"
  have same2: "same_nodes g1 g2" unfolding g2_def by (rule same_nodes_count [of g1 b, OF e])
  have "size R < 2 ^ 32 - 3" using small by (simp add: small_def)
  from tags_dup_link [OF inv1 e this] have inv2: "tags_inv (add_mset (Some b) R) g2" by (simp add: g2_def)
  have l2: "leads g2 (Some b) (y # ys)" using same_nodes_leads [OF same2 l1] .
  define cd where "cd = \<lparr>td_next = Some b, td_count = 1, td_tid = td_tid d, td_size = td_size d, td_data = td_data d\<rparr>"
  have nodes: "node_ok cd" "td_count cd = 1" "td_next cd = Some b" using nd(1) by (simp_all add: cd_def node_ok_def)
  have g2c: "g2 ?c = None" using c(3) ga(1) e by (auto simp: g2_def g1_def split: if_splits)
  note push = tags_push [OF inv2 [folded nodes(3)] g2c nodes(1,2)]
  define g3 where "g3 = g2(?c \<mapsto> cd)"
  have none: "\<forall>a\<in>set us. g3 a = None"
    using s(2) ga(2) c(2) e by (auto simp: g3_def g2_def g1_def split: if_splits)
  have bn: "b \<notin> set us" "b \<noteq> ?c" using none e s(2) ga c by (auto simp: g1_def split: if_splits)
  have g13: "g1(?c \<mapsto> cd, b \<mapsto> e\<lparr>td_count := td_count e + 1\<rparr>) = g3"
    using bn(2) by (simp add: g3_def g2_def fun_upd_twist)
  let ?st = "\<lambda>q g. st\<lparr>ts_heap := relink ?h us q g, ts_fresh := ?c + 1\<rparr>"
  define st' where "st' = ?st (Some ?c) g3"
  have run: "cow_copy (slot_of us) a (m, st) = Some (?c, b, first us (Some ?c), st')"
  proof -
    have sz: "td_size d < 0xffffffff" using nd(1) by (simp add: node_ok_def)
    let ?st1 = "st\<lparr>ts_heap := relink ?h us (Some a) g1\<rparr>"
    let ?j = "\<lparr>td_next = None, td_count = 0, td_tid = 0, td_size = td_size d, td_data = map (ts_malloc st ?c) [0..<unat (td_size d)]\<rparr>"
    have dec: "ts_dec a st = Some ?st1" unfolding g1_def by (rule view_dec [OF s(7) ga(2,1)])
    have cr: "CreateTagData (td_size d) ?st1 = Some (?c, ?st (Some a) (g1(?c \<mapsto> ?j)))"
      using sz c(2) by (simp add: CreateTagData_eq relink_update)
    have put: "ts_put ?c cd (?st (Some a) (g1(?c \<mapsto> ?j))) = Some (?st (Some a) (g1(?c \<mapsto> cd)))"
      using c(2) by (subst view_put [of _ ?h us "Some a" "g1(?c \<mapsto> ?j)"]) simp_all
    have inc: "ts_inc (td_next d) (?st (Some a) (g1(?c \<mapsto> cd))) = Some (?st (Some a) g3)"
      unfolding b using bn e by (subst view_inc [of _ ?h us "Some a" "g1(?c \<mapsto> cd)" b e]) (simp_all add: g13 fun_upd_other del: fun_upd_apply)
    have set: "set_slot (slot_of us) (Some ?c) (m, ?st (Some a) g3) = Some (first us (Some ?c), st')"
      using s(1,8) by (subst set_slot_relink [of _ ?h us "Some a" g3]) (simp_all add: st'_def)
    have cd: "?j\<lparr>td_tid := td_tid d, td_count := 1, td_size := td_size d, td_data := take (unat (td_size d)) (td_data d), td_next := td_next d\<rparr> = cd"
      using nd(1) b by (simp add: cd_def node_ok_def)
    have getc: "ts_heap (?st (Some a) (g1(?c \<mapsto> ?j))) ?c = Some ?j" using c(2) by simp
    show ?thesis unfolding cow_copy_def prod.case a(1) Option.bind.simps
      using a(2) dec cr getc cd put inc set b by (simp del: fun_upd_apply)
  qed
  have k: "keeps R g g3"
    using same_nodes_keeps [OF same1] same_nodes_keeps [OF same2] push(2) unfolding g3_def by (blast intro: tags_kept_trans)
  have l3: "leads g3 (Some ?c) ((td_tid d, td_data d) # y # ys)"
  proof -
    have "td_tid cd = td_tid d" "td_data cd = td_data d" by (simp_all add: cd_def)
    with push(3) [OF l2 [folded nodes(3)]] show ?thesis unfolding g3_def by (simp only:)
  qed
  have fresh: "\<forall>a\<in>dom g3. a < ts_fresh st'"
  proof -
    have "dom g3 \<subseteq> insert ?c (dom ?h)" using ga(1) e
      by (auto simp: g3_def g2_def g1_def g_def restrict_map_def split: if_splits)
    then show ?thesis using ok by (auto simp: store_ok_def st'_def less_Suc_eq)
  qed
  have h': "ts_heap st' = relink ?h us (Some ?c) g3" by (simp add: st'_def)
  have "ts_fresh st \<le> ts_fresh st'" by (simp add: st'_def)
  note fin = at_slot_done [OF ok seg ys push(1) [folded g3_def] k [unfolded g_def] l3 none h' fresh this]
  have hc: "ts_heap st' ?c = Some cd" using c(2) by (simp add: h' g3_def)
  have hb: "ts_heap st' b = Some (e\<lparr>td_count := td_count e + 1\<rparr>)" using bn by (simp add: h' g3_def g2_def)
  have "seg (ts_heap st') (first us (Some ?c)) (us @ [?c]) (Some b)"
    using fin hc nodes by (simp add: seg_append)
  moreover have "has_tags st' (Some b) (y # ys)"
    unfolding h' using leads_with [of g2 ?c, OF g2c l2, of cd] by (intro leads_relink none s(1)) (simp add: g3_def)
  moreover have "tags_of (ts_heap st') (us @ [?c]) = tags_of ?h us @ [(td_tid d, td_data d)]"
    using fin hc by (simp add: cd_def)
  moreover have "1 < td_count e + 1"
  proof -
    have "unat (td_count e + 1) = unat (td_count e) + 1"
      using count_bound [OF inv1 e] small by (intro unat_succ_no_wrap) (simp add: small_def)
    then show ?thesis using tags_inv_count [OF inv1 e] by (simp add: word_less_nat_alt)
  qed
  ultimately show ?thesis using run fin hb by fastforce
qed

lemma cow_copy_loop_ok:
  assumes "store_ok (add_mset m R) st" and small: "small R" and "seg (ts_heap st) m us (Some a)"
    and "\<exists>d. ts_heap st a = Some d \<and> 1 < td_count d" and "has_tags st (Some a) (xs @ (tid, v) # ys)" and "tid \<notin> fst ` set xs"
  shows "\<exists>us' a' m' st'. cow_copy_loop tid (slot_of us) a (m, st) = Some (slot_of us', a', m', st') \<and>
    store_ok (add_mset m' R) st' \<and> keeps_tags R st st' \<and> seg (ts_heap st') m' us' (Some a') \<and>
    has_tags st' (Some a') ((tid, v) # ys) \<and> tags_of (ts_heap st') us' = tags_of (ts_heap st) us @ xs \<and>
    (\<exists>d. ts_heap st' a' = Some d \<and> td_tid d = tid \<and> 1 < td_count d)"
  using assms(1,3-)
proof (induction xs arbitrary: m st us a)
  case Nil
  then obtain d where d: "ts_heap st a = Some d" "1 < td_count d" by auto
  then have "td_tid d = tid" using Nil.prems(4) by simp
  with d have "cow_copy_loop tid (slot_of us) a (m, st) = Some (slot_of us, a, m, st)"
    by (simp add: cow_copy_loop.simps)
  with Nil.prems d \<open>td_tid d = tid\<close> show ?case by fastforce
next
  case (Cons x xs)
  then obtain d where d: "ts_heap st a = Some d" "1 < td_count d" by auto
  have x: "x = (td_tid d, td_data d)" "td_tid d \<noteq> tid" "tid \<notin> fst ` set xs" using Cons.prems(4,5) d(1) by auto
  obtain z zs where z: "xs @ (tid, v) # ys = z # zs" by (cases xs) simp_all
  have "has_tags st (Some a) ((td_tid d, td_data d) # z # zs)" using Cons.prems(4) x(1) z by simp
  from cow_copy_ok [OF Cons.prems(1) small Cons.prems(2) d this] obtain c b m1 st1 where c:
    "cow_copy (slot_of us) a (m, st) = Some (c, b, m1, st1)" "store_ok (add_mset m1 R) st1" "keeps_tags R st st1"
    "seg (ts_heap st1) m1 (us @ [c]) (Some b)" "has_tags st1 (Some b) (z # zs)"
    "tags_of (ts_heap st1) (us @ [c]) = tags_of (ts_heap st) us @ [(td_tid d, td_data d)]"
    "\<exists>e. ts_heap st1 b = Some e \<and> 1 < td_count e" by blast
  have step: "cow_copy_loop tid (slot_of us) a (m, st) = cow_copy_loop tid (slot_of (us @ [c])) b (m1, st1)"
    unfolding cow_copy_loop.simps [of tid "slot_of us"] using d(1) x(2) c(1) by simp
  from Cons.IH [OF c(2,4,7) c(5) [folded z] x(3)] c(3,6) x(1) show ?case unfolding step
    by (fastforce intro: tags_kept_trans)
qed

section \<open>Writers\<close>

text \<open>
  What \<open>COWTraverse\<close> relies on when it calls a writer at the tag: \<open>after v ys\<close> takes the place of
  the tag, with value \<open>v\<close>, and the tags \<open>ys\<close> behind it.
\<close>

locale cow_writer =
  fixes Writer :: "'r cow_writer" and tid :: u16 and fits :: "u8 list \<Rightarrow> bool"
    and result :: "u8 list \<Rightarrow> 'r" and after :: "u8 list \<Rightarrow> tag_list \<Rightarrow> tag_list"
  assumes writes: "\<lbrakk>store_ok (add_mset m R) st; small R; seg (ts_heap st) m us (Some a); ts_heap st a = Some d;
      td_tid d = tid; has_tags st (Some a) ((tid, v) # ys); fits v; if preMerge then td_count d = 1 else 1 < td_count d\<rbrakk> \<Longrightarrow>
    \<exists>m' st'. Writer preMerge a (slot_of us) (m, st) = Some (result v, m', st') \<and> store_ok (add_mset m' R) st' \<and>
      keeps_tags R st st' \<and> has_tags st' m' (tags_of (ts_heap st) us @ after v ys)"
begin

lemma absent:
  assumes "store_ok (add_mset m R) st" and "has_tags st m xs" and "tid \<notin> fst ` set xs"
  shows "COWTraverse tid Writer (m, st) = Some (None, m, st)"
proof -
  have "\<forall>a d. ts_heap st a = Some d \<longrightarrow> 0 < unat (td_count d)"
    using tags_inv_count [OF store_ok_inv [OF assms(1)]] by blast
  from cow_search_ok [of st, OF this assms(2), where tid = tid and sl = ListNext] obtain us cur hit where s:
    "cow_search tid ListNext m st = Some (slot_of us, cur, hit)" "seg (ts_heap st) m us cur"
    "\<forall>a. cur = Some a \<longrightarrow> (\<exists>d. ts_heap st a = Some d \<and> (if hit then td_count d = 1 \<and> td_tid d = tid else 1 < td_count d))"
    unfolding slot_of_def by blast
  from leads_seg [OF assms(2) s(2)] obtain ys where ys: "xs = tags_of (ts_heap st) us @ ys" "has_tags st cur ys" by blast
  show ?thesis
  proof (cases cur)
    case None
    then show ?thesis using s(1) by (simp add: COWTraverse_def)
  next
    case (Some a)
    then obtain d where d: "ts_heap st a = Some d" "ys = (td_tid d, td_data d) # tl ys"
      using ys(2) by (auto simp: leads_Some)
    then have "td_tid d \<in> fst ` set xs" using ys(1) by (metis fst_conv image_eqI in_set_conv_decomp)
    moreover have "hit \<longrightarrow> td_tid d = tid" using s(3) Some d(1) by auto
    ultimately have "\<not> hit" using assms(3) by blast
    moreover have "find_tid tid cur st = Some None" using find_tid_None [OF ys(2)] ys(1) assms(3) by auto
    ultimately show ?thesis using s(1) Some by (simp add: COWTraverse_def)
  qed
qed

lemma present:
  assumes ok: "store_ok (add_mset m R) st" and small: "small R"
    and xs: "has_tags st m (us @ (tid, v) # ys)" and us: "tid \<notin> fst ` set us" and v: "fits v"
  shows "\<exists>m' st'. COWTraverse tid Writer (m, st) = Some (Some (result v), m', st') \<and> store_ok (add_mset m' R) st' \<and>
    keeps_tags R st st' \<and> has_tags st' m' (us @ after v ys)"
proof -
  have "\<forall>a d. ts_heap st a = Some d \<longrightarrow> 0 < unat (td_count d)"
    using tags_inv_count [OF store_ok_inv [OF ok]] by blast
  from cow_search_ok [of st, OF this xs, where tid = tid and sl = ListNext] obtain vs cur hit where s:
    "cow_search tid ListNext m st = Some (slot_of vs, cur, hit)" "seg (ts_heap st) m vs cur"
    "tid \<notin> fst ` set (tags_of (ts_heap st) vs)"
    "\<forall>a. cur = Some a \<longrightarrow> (\<exists>d. ts_heap st a = Some d \<and> (if hit then td_count d = 1 \<and> td_tid d = tid else 1 < td_count d))"
    unfolding slot_of_def by blast
  from leads_seg [OF xs s(2)] obtain zs where zs: "us @ (tid, v) # ys = tags_of (ts_heap st) vs @ zs" "has_tags st cur zs" by blast
  from zs(1) s(3) us obtain ws where ws: "us = tags_of (ts_heap st) vs @ ws" "zs = ws @ (tid, v) # ys"
    by (metis split_at_tag)
  then obtain a where a: "cur = Some a" using zs(2) by (cases cur) auto
  then obtain d where d: "ts_heap st a = Some d" "if hit then td_count d = 1 \<and> td_tid d = tid else 1 < td_count d"
    using s(4) by blast
  show ?thesis
  proof (cases hit)
    case True
    have "ws = []"
    proof (cases ws)
      case (Cons w ws')
      then have "fst w = td_tid d" using zs(2) ws(2) a d(1) by (auto simp: leads_Some)
      then show ?thesis using Cons ws(1) us d(2) True by auto
    qed simp
    with writes [OF ok small s(2) [unfolded a] d(1) _ _ v, of ys True] zs(2) ws a d(2) True
    obtain m' st' where "Writer True a (slot_of vs) (m, st) = Some (result v, m', st')" "store_ok (add_mset m' R) st'"
      "keeps_tags R st st'" "has_tags st' m' (tags_of (ts_heap st) vs @ after v ys)" by auto
    then show ?thesis using s(1) a True ws(1) \<open>ws = []\<close> by (auto simp: COWTraverse_def found_result_def)
  next
    case False
    have f: "\<exists>b. find_tid tid cur st = Some (Some b)"
      using find_tid_ok [OF zs(2), of tid] ws(2) by (auto split: if_splits)
    have ct: "\<exists>d. ts_heap st a = Some d \<and> 1 < td_count d" using d False by simp
    have "tid \<notin> fst ` set ws" using us ws(1) by auto
    from cow_copy_loop_ok [OF ok small s(2) [unfolded a] ct zs(2) [unfolded a ws(2)] this] obtain vs' a' m1 st1 d' where l:
      "cow_copy_loop tid (slot_of vs) a (m, st) = Some (slot_of vs', a', m1, st1)" "store_ok (add_mset m1 R) st1"
      "keeps_tags R st st1" "seg (ts_heap st1) m1 vs' (Some a')" "has_tags st1 (Some a') ((tid, v) # ys)"
      "tags_of (ts_heap st1) vs' = us" "ts_heap st1 a' = Some d'" "td_tid d' = tid" "1 < td_count d'"
      unfolding ws(1) by blast
    from writes [OF l(2) small l(4,7,8,5) v, of False] l(9) obtain m' st' where w:
      "Writer False a' (slot_of vs') (m1, st1) = Some (result v, m', st')" "store_ok (add_mset m' R) st'"
      "keeps_tags R st1 st'" "has_tags st' m' (us @ after v ys)" unfolding l(6) by auto
    have "COWTraverse tid Writer (m, st) = Some (Some (result v), m', st')"
      using s(1) a False f ct l(1) w(1) by (auto simp: COWTraverse_def found_result_def)
    with w l(3) show ?thesis by (blast intro: tags_kept_trans)
  qed
qed

end

end
