(* ===== verification/Packet_Tag_Writers.thy ===== *)
theory Packet_Tag_Writers
  imports Packet_Tag_Traverse
begin

text \<open>
  \<open>RemoveWriter\<close> and \<open>ReplaceWriter\<close> keep the promise of the locale \<open>cow_writer\<close>, and with it
  \<open>Remove\<close> and \<open>Replace\<close> of \<open>PacketTagList\<close>.
\<close>

section \<open>The node of the tag\<close>

lemma at_node:
  assumes ok: "store_ok (add_mset m R) st" and seg: "seg (ts_heap st) m us (Some a)" and a: "ts_heap st a = Some d"
    and ys: "has_tags st (Some a) (x # ys)"
  defines "g \<equiv> ts_heap st |` (- set us)"
  shows "g a = Some d" and "a \<notin> set us" and "node_ok d" and "leads g (td_next d) ys" and "x = (td_tid d, td_data d)"
    and "ts_heap st (ts_fresh st) = None" and "g (ts_fresh st) = None" and "ts_fresh st \<notin> set us"
    and "dom g \<subseteq> dom (ts_heap st)"
proof -
  note s = at_slot [OF ok seg ys, folded g_def]
  show g: "g a = Some d" "a \<notin> set us"
    using s(2,6) a by (auto simp: leads_Some g_def restrict_map_def split: if_splits)
  show "node_ok d" "leads g (td_next d) ys" "x = (td_tid d, td_data d)" using s(6) g(1) by (cases x; simp)+
  show f: "ts_heap st (ts_fresh st) = None" using ok by (force simp: store_ok_def dom_def)
  then show "g (ts_fresh st) = None" "ts_fresh st \<notin> set us" using s(3) by (force simp: g_def restrict_map_def)+
  show "dom g \<subseteq> dom (ts_heap st)" by (auto simp: g_def restrict_map_def split: if_splits)
qed

text \<open>Moving a pointer from a shared node to the next one.\<close>

lemma tags_move:
  assumes inv: "tags_inv (add_mset (Some a) R) g" and a: "g a = Some d" "1 < td_count d" and small: "small R"
  obtains g1 where "g1 = g(a \<mapsto> d\<lparr>td_count := td_count d - 1\<rparr>)" "td_next d = None" "tags_inv R g1" "same_nodes g g1"
  | g1 b e where "g1 = g(a \<mapsto> d\<lparr>td_count := td_count d - 1\<rparr>)" "td_next d = Some b" "g1 b = Some e"
      "tags_inv (add_mset (Some b) R) (g1(b \<mapsto> e\<lparr>td_count := td_count e + 1\<rparr>))" "same_nodes g (g1(b \<mapsto> e\<lparr>td_count := td_count e + 1\<rparr>))"
proof -
  define g1 where "g1 = g(a \<mapsto> d\<lparr>td_count := td_count d - 1\<rparr>)"
  have same: "same_nodes g g1" unfolding g1_def by (rule same_nodes_count [of g a, OF a(1)])
  have inv1: "tags_inv R g1" unfolding g1_def by (rule tags_drop [OF inv a])
  show thesis
  proof (cases "td_next d")
    case None
    with that(1) [OF g1_def] inv1 same show thesis by blast
  next
    case (Some b)
    obtain xs where "leads g (Some b) xs" using tags_inv_next [OF inv a(1)] Some by auto
    with same_nodes_leads [OF same] obtain e where e: "g1 b = Some e" by (fastforce simp: leads_Some)
    have "tags_inv (add_mset (Some b) R) (g1(b \<mapsto> e\<lparr>td_count := td_count e + 1\<rparr>))"
      using tags_dup_link [OF inv1 e] small by (simp add: small_def)
    moreover have "same_nodes g (g1(b \<mapsto> e\<lparr>td_count := td_count e + 1\<rparr>))"
      using same_nodes_trans [OF same same_nodes_count [of g1 b, OF e]] .
    ultimately show thesis using that(2) [OF g1_def Some e] by blast
  qed
qed

section \<open>Remove\<close>

lemma RemoveWriter_own:
  assumes ok: "store_ok (add_mset m R) st" and seg: "seg (ts_heap st) m us (Some a)" and a: "ts_heap st a = Some d" "td_count d = 1"
    and ys: "has_tags st (Some a) ((tid, v) # ys)"
  shows "\<exists>m' st'. RemoveWriter True a (slot_of us) (m, st) = Some (v, m', st') \<and> store_ok (add_mset m' R) st' \<and>
    keeps_tags R st st' \<and> has_tags st' m' (tags_of (ts_heap st) us @ ys)"
proof -
  let ?h = "ts_heap st"
  define g where "g = ?h |` (- set us)"
  note s = at_slot [OF ok seg ys, folded g_def]
  note n = at_node [OF ok seg a(1) ys, folded g_def]
  note pop = tags_pop(1,2) [OF s(4) n(1) a(2)]
  let ?g = "g(a := None)" and ?q = "td_next d"
  define st' where "st' = st\<lparr>ts_heap := relink ?h us ?q ?g\<rparr>"
  have "take (unat (td_size d)) (td_data d) = v" using n(3,5) by (simp add: node_ok_def)
  moreover have "set_slot (slot_of us) ?q (m, st) = Some (first us ?q, st\<lparr>ts_heap := relink ?h us ?q g\<rparr>)"
    by (rule set_slot_relink [OF s(7,1,8)])
  moreover have "ts_free a (st\<lparr>ts_heap := relink ?h us ?q g\<rparr>) = Some st'"
    using n(1,2) by (subst view_free [of _ ?h us ?q g]) (simp_all add: st'_def)
  ultimately have run: "RemoveWriter True a (slot_of us) (m, st) = Some (v, first us ?q, st')"
    using a(1) by (simp add: RemoveWriter_def)
  have k: "keeps R (?h |` (- set us)) ?g" using pop(2) by (simp add: g_def)
  have zs: "leads ?g ?q ys" using pop(2) n(4) by simp
  have none: "\<forall>b\<in>set us. ?g b = None" using s(2) by simp
  have f: "\<forall>b\<in>dom ?g. b < ts_fresh st'" using n(9) ok by (auto simp: store_ok_def st'_def)
  have h': "ts_heap st' = relink ?h us ?q ?g" and le: "ts_fresh st \<le> ts_fresh st'" by (simp_all add: st'_def)
  from run at_slot_done [OF ok seg ys pop(1) k zs none h' f le] show ?thesis by blast
qed

lemma RemoveWriter_shared:
  assumes ok: "store_ok (add_mset m R) st" and small: "small R" and seg: "seg (ts_heap st) m us (Some a)"
    and a: "ts_heap st a = Some d" "1 < td_count d" and ys: "has_tags st (Some a) ((tid, v) # ys)"
  shows "\<exists>m' st'. RemoveWriter False a (slot_of us) (m, st) = Some (v, m', st') \<and> store_ok (add_mset m' R) st' \<and>
    keeps_tags R st st' \<and> has_tags st' m' (tags_of (ts_heap st) us @ ys)"
proof -
  let ?h = "ts_heap st"
  define g where "g = ?h |` (- set us)"
  note s = at_slot [OF ok seg ys, folded g_def]
  note n = at_node [OF ok seg a(1) ys, folded g_def]
  let ?q = "td_next d"
  have v: "take (unat (td_size d)) (td_data d) = v" using n(3,5) by (simp add: node_ok_def)
  let ?st = "\<lambda>g. st\<lparr>ts_heap := relink ?h us ?q g\<rparr>"
  have slot: "set_slot (slot_of us) ?q (m, st) = Some (first us ?q, ?st g)" by (rule set_slot_relink [OF s(7,1,8)])
  have dec: "ts_dec a (?st g) = Some (?st (g(a \<mapsto> d\<lparr>td_count := td_count d - 1\<rparr>)))"
    using n(1,2) by (subst view_dec [of _ ?h us ?q g a d]) simp_all
  have finish: ?thesis
    if run: "RemoveWriter False a (slot_of us) (m, st) = Some (v, first us ?q, ?st g')"
      and inv: "tags_inv (add_mset ?q R) g'" and same: "same_nodes g g'" for g'
  proof -
    have d: "dom g' = dom g" using same_nodes_dom [OF same] ..
    have k: "keeps R (?h |` (- set us)) g'" using same_nodes_keeps [OF same] by (simp add: g_def)
    have none: "\<forall>b\<in>set us. g' b = None" using s(2) d by (metis domIff)
    have f: "\<forall>b\<in>dom g'. b < ts_fresh (?st g')" using n(9) ok by (auto simp: store_ok_def d)
    have h': "ts_heap (?st g') = relink ?h us ?q g'" and le: "ts_fresh st \<le> ts_fresh (?st g')" by simp_all
    from run at_slot_done [OF ok seg ys inv k same_nodes_leads [OF same n(4)] none h' f le] show ?thesis by blast
  qed
  show ?thesis
  proof (rule tags_move [OF s(4) n(1) a(2) small])
    fix g1 assume g1: "g1 = g(a \<mapsto> d\<lparr>td_count := td_count d - 1\<rparr>)" "?q = None" "tags_inv R g1" "same_nodes g g1"
    have "RemoveWriter False a (slot_of us) (m, st) = Some (v, first us ?q, ?st g1)"
      using a(1) v slot dec g1(1,2) by (simp add: RemoveWriter_def del: fun_upd_apply)
    then show ?thesis using g1(3,4) by (intro finish) (simp_all add: g1(2))
  next
    fix g1 b e assume g1: "g1 = g(a \<mapsto> d\<lparr>td_count := td_count d - 1\<rparr>)" "?q = Some b" "g1 b = Some e"
      "tags_inv (add_mset (Some b) R) (g1(b \<mapsto> e\<lparr>td_count := td_count e + 1\<rparr>))"
      "same_nodes g (g1(b \<mapsto> e\<lparr>td_count := td_count e + 1\<rparr>))"
    have b: "b \<notin> set us" using g1(1,3) s(2) n(2) by (auto split: if_splits)
    have "ts_inc ?q (?st g1) = Some (?st (g1(b \<mapsto> e\<lparr>td_count := td_count e + 1\<rparr>)))"
      unfolding g1(2) using b g1(3) by (subst view_inc [of _ ?h us "Some b" g1 b e]) simp_all
    then have "RemoveWriter False a (slot_of us) (m, st) = Some (v, first us ?q, ?st (g1(b \<mapsto> e\<lparr>td_count := td_count e + 1\<rparr>)))"
      using a(1) v slot dec g1(1,2) by (simp add: RemoveWriter_def del: fun_upd_apply)
    then show ?thesis using g1(4,5) by (intro finish) (simp_all add: g1(2) del: fun_upd_apply)
  qed
qed

interpretation remove_writer: cow_writer RemoveWriter tid "\<lambda>_. True" "\<lambda>v. v" "\<lambda>_ ys. ys" for tid
proof (unfold_locales, goal_cases)
  case (1 m R st us a d v ys preMerge)
  show ?case
  proof (cases preMerge)
    case True
    then have "td_count d = 1" using 1(8) by simp
    from RemoveWriter_own [OF 1(1,3,4) this 1(6)] show ?thesis using True by simp
  next
    case False
    then have "1 < td_count d" using 1(8) by simp
    from RemoveWriter_shared [OF 1(1,2,3,4) this 1(6)] show ?thesis using False by simp
  qed
qed

lemma tl_Remove_ok:
  assumes "store_ok (add_mset m R) st" and "has_tags st m xs" and "small R"
  shows "\<exists>m' st'. tl_Remove tid (m, st) = Some (map_of xs tid, m', st') \<and> store_ok (add_mset m' R) st' \<and>
    keeps_tags R st st' \<and> has_tags st' m' (remove_tag tid xs)"
proof (cases "tid \<in> fst ` set xs")
  case True
  from split_tags [OF this] obtain us v ys where xs: "xs = us @ (tid, v) # ys" "tid \<notin> fst ` set us" by blast
  have e: "map_of xs tid = Some v" "remove_tag tid xs = us @ ys" unfolding xs(1) by (rule at_tag [OF xs(2)])+
  show ?thesis unfolding e tl_Remove_def
    by (rule remove_writer.present [OF assms(1,3) assms(2) [unfolded xs(1)] xs(2) TrueI])
next
  case False
  with remove_writer.absent [OF assms(1,2)] assms show ?thesis
    by (simp add: tl_Remove_def remove_tag_absent map_of_eq_None_iff [THEN iffD2])
qed

section \<open>Replace\<close>

lemma ReplaceWriter_own:
  assumes ok: "store_ok (add_mset m R) st" and seg: "seg (ts_heap st) m us (Some a)" and a: "ts_heap st a = Some d" "td_count d = 1"
    and ys: "has_tags st (Some a) ((tag_tid t, v) # ys)" and t: "tag_ok t" "length v = unat (tag_size t)"
  shows "\<exists>m' st'. ReplaceWriter t True a (slot_of us) (m, st) = Some ((), m', st') \<and> store_ok (add_mset m' R) st' \<and>
    keeps_tags R st st' \<and> has_tags st' m' (tags_of (ts_heap st) us @ (tag_tid t, tag_bytes t) # ys)"
proof -
  let ?h = "ts_heap st" and ?d = "d\<lparr>td_data := tag_bytes t\<rparr>"
  define g where "g = ?h |` (- set us)"
  note s = at_slot [OF ok seg ys, folded g_def]
  note n = at_node [OF ok seg a(1) ys, folded g_def]
  define g' where "g' = g(a \<mapsto> ?d)"
  define st' where "st' = st\<lparr>ts_heap := relink ?h us (Some a) g'\<rparr>"
  have size: "unat (td_size d) = length (tag_bytes t)" using n(3,5) t by (simp add: node_ok_def tag_ok_def)
  have "?h(a \<mapsto> ?d) = relink ?h us (Some a) g'"
    using relink_update [OF n(2), of ?h "Some a" g "Some ?d"] s(7) by (simp add: g'_def)
  then have run: "ReplaceWriter t True a (slot_of us) (m, st) = Some ((), first us (Some a), st')"
    using serialize_into_eq [OF a(1) n(3) size] s(8) by (simp add: ReplaceWriter_def st'_def)
  note pop = tags_pop(1,2) [OF s(4) n(1) a(2)]
  have inv: "tags_inv (add_mset (td_next ?d) R) (g(a := None))" and ok': "node_ok ?d" "td_count ?d = 1"
    using pop(1) n(3) size a(2) by (simp_all add: node_ok_def)
  have new: "(g(a := None)) a = None" and upd: "(g(a := None))(a \<mapsto> ?d) = g'" by (simp_all add: g'_def)
  note push = tags_push [OF inv new ok', unfolded upd]
  have "leads (g(a := None)) (td_next ?d) ys" using pop(2) n(4) by simp
  from push(3) [OF this] n(5) have zs: "leads g' (Some a) ((tag_tid t, tag_bytes t) # ys)" by simp
  have k: "keeps R (?h |` (- set us)) g'" using tags_kept_trans [OF _ push(2), of g] pop(2) by (simp add: g_def)
  have none: "\<forall>b\<in>set us. g' b = None" using s(2) n(2) by (auto simp: g'_def)
  have "dom g' = dom g" using n(1) by (auto simp: g'_def)
  then have f: "\<forall>b\<in>dom g'. b < ts_fresh st'" using n(9) ok by (auto simp: store_ok_def st'_def)
  have h': "ts_heap st' = relink ?h us (Some a) g'" and le: "ts_fresh st \<le> ts_fresh st'" by (simp_all add: st'_def)
  from run at_slot_done [OF ok seg ys push(1) k zs none h' f le] show ?thesis by blast
qed

lemma ReplaceWriter_shared:
  assumes ok: "store_ok (add_mset m R) st" and small: "small R" and seg: "seg (ts_heap st) m us (Some a)"
    and a: "ts_heap st a = Some d" "1 < td_count d" and ys: "has_tags st (Some a) ((tag_tid t, v) # ys)" and t: "tag_ok t"
  shows "\<exists>m' st'. ReplaceWriter t False a (slot_of us) (m, st) = Some ((), m', st') \<and> store_ok (add_mset m' R) st' \<and>
    keeps_tags R st st' \<and> has_tags st' m' (tags_of (ts_heap st) us @ (tag_tid t, tag_bytes t) # ys)"
proof -
  let ?h = "ts_heap st" and ?c = "ts_fresh st" and ?q = "td_next d"
  define g where "g = ?h |` (- set us)"
  note s = at_slot [OF ok seg ys, folded g_def]
  note n = at_node [OF ok seg a(1) ys, folded g_def]
  have size: "tag_size t < 0xffffffff" "unat (tag_size t) = length (tag_bytes t)" using t by (simp_all add: tag_ok_def)
  let ?g1 = "g(a \<mapsto> d\<lparr>td_count := td_count d - 1\<rparr>)"
  let ?da = "\<lparr>td_next = None, td_count = 0, td_tid = 0, td_size = tag_size t, td_data = map (ts_malloc st ?c) [0..<unat (tag_size t)]\<rparr>"
  let ?db = "?da\<lparr>td_tid := tag_tid t, td_count := 1\<rparr>" and ?dc = "?da\<lparr>td_tid := tag_tid t, td_count := 1, td_data := tag_bytes t\<rparr>"
  define cd where "cd = ?dc\<lparr>td_next := ?q\<rparr>"
  let ?st = "\<lambda>g. st\<lparr>ts_heap := relink ?h us (Some a) g, ts_fresh := ?c + 1\<rparr>"
  have g1c: "?g1 ?c = None" using n(1,7) by auto
  have dec: "ts_dec a st = Some (st\<lparr>ts_heap := relink ?h us (Some a) ?g1\<rparr>)" by (rule view_dec [OF s(7) n(2,1)])
  have cr: "CreateTagData (tag_size t) (st\<lparr>ts_heap := relink ?h us (Some a) ?g1\<rparr>) = Some (?c, ?st (?g1(?c \<mapsto> ?da)))"
    using size(1) n(8) by (simp add: CreateTagData_eq relink_update)
  have put: "ts_put ?c d' (?st (?g1(?c \<mapsto> e))) = Some (?st (?g1(?c \<mapsto> d')))" for d' e
    using n(8) by (subst view_put [of _ ?h us "Some a" "?g1(?c \<mapsto> e)"]) simp_all
  have get: "ts_heap (?st (?g1(?c \<mapsto> e))) ?c = Some e" for e using n(8) by simp
  have "node_ok ?db" "unat (td_size ?db) = length (tag_bytes t)" using size by (simp_all add: node_ok_def)
  from serialize_into_eq [OF get this]
  have ser: "serialize_into t ?c (?st (?g1(?c \<mapsto> ?db))) = Some (?st (?g1(?c \<mapsto> ?dc)))"
    using relink_update [OF n(8), of ?h "Some a" "?g1(?c \<mapsto> ?db)" "Some ?dc"] by simp
  have slot: "set_slot (slot_of us) (Some ?c) (m, ?st g') = Some (first us (Some ?c), st\<lparr>ts_heap := relink ?h us (Some ?c) g', ts_fresh := ?c + 1\<rparr>)" for g'
    using s(1,8) by (subst set_slot_relink [of _ ?h us "Some a" g']) simp_all
  have cd: "node_ok cd" "td_count cd = 1" "td_next cd = ?q" "td_tid cd = tag_tid t" "td_data cd = tag_bytes t"
    using size by (simp_all add: cd_def node_ok_def)
  have finish: ?thesis
    if inc: "?q = None \<and> g' = ?g1 \<or> (\<exists>b. ?q = Some b \<and> ts_inc (Some b) (?st (?g1(?c \<mapsto> cd))) = Some (?st (g'(?c \<mapsto> cd))))"
      and inv: "tags_inv (add_mset ?q R) g'" and same: "same_nodes g g'" for g'
  proof -
    define st' where "st' = st\<lparr>ts_heap := relink ?h us (Some ?c) (g'(?c \<mapsto> cd)), ts_fresh := ?c + 1\<rparr>"
    have run: "ReplaceWriter t False a (slot_of us) (m, st) = Some ((), first us (Some ?c), st')"
      using inc
    proof (elim disjE conjE exE)
      assume "?q = None" "g' = ?g1"
      then show ?thesis unfolding ReplaceWriter_def using a(1) dec cr get put ser slot
        by (simp add: st'_def cd_def del: fun_upd_apply)
    next
      fix b assume "?q = Some b" "ts_inc (Some b) (?st (?g1(?c \<mapsto> cd))) = Some (?st (g'(?c \<mapsto> cd)))"
      then show ?thesis unfolding ReplaceWriter_def using a(1) dec cr get put ser slot
        by (simp add: st'_def cd_def del: fun_upd_apply)
    qed
    have d: "dom g' = dom g" using same_nodes_dom [OF same] ..
    have "g' ?c = None" using n(7) d by (metis domIff)
    note push = tags_push [OF inv [folded cd(3)] this cd(1,2)]
    have zs: "leads (g'(?c \<mapsto> cd)) (Some ?c) ((tag_tid t, tag_bytes t) # ys)"
      using push(3) [of ys] same_nodes_leads [OF same n(4)] unfolding cd by blast
    have k: "keeps R (?h |` (- set us)) (g'(?c \<mapsto> cd))"
      using tags_kept_trans [OF same_nodes_keeps [OF same] push(2)] by (simp add: g_def)
    have none: "\<forall>b\<in>set us. (g'(?c \<mapsto> cd)) b = None" using s(2) d n(8) by (auto simp: domIff)
    have f: "\<forall>b\<in>dom (g'(?c \<mapsto> cd)). b < ts_fresh st'" using n(9) ok d by (auto simp: store_ok_def st'_def less_Suc_eq)
    have h': "ts_heap st' = relink ?h us (Some ?c) (g'(?c \<mapsto> cd))" and le: "ts_fresh st \<le> ts_fresh st'" by (simp_all add: st'_def)
    from run at_slot_done [OF ok seg ys push(1) k zs none h' f le] show ?thesis by blast
  qed
  show ?thesis
  proof (rule tags_move [OF s(4) n(1) a(2) small])
    fix g1 assume g1: "g1 = ?g1" "?q = None" "tags_inv R g1" "same_nodes g g1"
    then show ?thesis by (intro finish [of g1]) simp_all
  next
    fix g1 b e assume g1: "g1 = ?g1" "?q = Some b" "g1 b = Some e"
      "tags_inv (add_mset (Some b) R) (g1(b \<mapsto> e\<lparr>td_count := td_count e + 1\<rparr>))"
      "same_nodes g (g1(b \<mapsto> e\<lparr>td_count := td_count e + 1\<rparr>))"
    have b: "b \<notin> set us" "b \<noteq> ?c" using g1(1,3) s(2) n(2) g1c by (auto split: if_splits)
    have "(g1(?c \<mapsto> cd)) b = Some e" using b(2) g1(3) by simp
    then have "ts_inc (Some b) (?st (g1(?c \<mapsto> cd))) = Some (?st (g1(?c \<mapsto> cd, b \<mapsto> e\<lparr>td_count := td_count e + 1\<rparr>)))"
      using b(1) by (subst view_inc [of _ ?h us "Some a" "g1(?c \<mapsto> cd)" b e]) (simp_all del: fun_upd_apply)
    moreover have "g1(?c \<mapsto> cd, b \<mapsto> e\<lparr>td_count := td_count e + 1\<rparr>) = g1(b \<mapsto> e\<lparr>td_count := td_count e + 1\<rparr>, ?c \<mapsto> cd)"
      using b(2) by (intro fun_upd_twist) simp
    ultimately show ?thesis using g1 by (intro finish [of "g1(b \<mapsto> e\<lparr>td_count := td_count e + 1\<rparr>)"]) (simp_all del: fun_upd_apply)
  qed
qed

interpretation replace_writer: cow_writer "ReplaceWriter t" "tag_tid t" "\<lambda>v. tag_ok t \<and> length v = unat (tag_size t)"
  "\<lambda>_. ()" "\<lambda>_ ys. (tag_tid t, tag_bytes t) # ys" for t
proof (unfold_locales, goal_cases)
  case (1 m R st us a d v ys preMerge)
  have t: "tag_ok t" "length v = unat (tag_size t)" using 1(7) by simp_all
  show ?case
  proof (cases preMerge)
    case True
    then have "td_count d = 1" using 1(8) by simp
    from ReplaceWriter_own [OF 1(1,3,4) this 1(6) t] show ?thesis using True by simp
  next
    case False
    then have "1 < td_count d" using 1(8) by simp
    from ReplaceWriter_shared [OF 1(1,2,3,4) this 1(6) t(1)] show ?thesis using False by simp
  qed
qed

lemma tl_Replace_ok:
  assumes "store_ok (add_mset m R) st" and "has_tags st m xs" and "small R" and "tag_ok t"
    and "\<forall>v. map_of xs (tag_tid t) = Some v \<longrightarrow> length v = unat (tag_size t)"
  shows "\<exists>m' st'. tl_Replace t (m, st) = Some (tag_tid t \<in> fst ` set xs, m', st') \<and> store_ok (add_mset m' R) st' \<and>
    keeps_tags R st st' \<and> has_tags st' m'
      (if tag_tid t \<in> fst ` set xs then replace_tag (tag_tid t) (tag_bytes t) xs else (tag_tid t, tag_bytes t) # xs)"
proof (cases "tag_tid t \<in> fst ` set xs")
  case True
  from split_tags [OF this] obtain us v ys where xs: "xs = us @ (tag_tid t, v) # ys" "tag_tid t \<notin> fst ` set us" by blast
  have "map_of xs (tag_tid t) = Some v" unfolding xs(1) by (rule at_tag [OF xs(2)])
  then have "tag_ok t \<and> length v = unat (tag_size t)" using assms(4,5) by blast
  from replace_writer.present [OF assms(1,3) assms(2) [unfolded xs(1)] xs(2) this] obtain m' st' where
    "COWTraverse (tag_tid t) (ReplaceWriter t) (m, st) = Some (Some (), m', st')" "store_ok (add_mset m' R) st'"
    "keeps_tags R st st'" "has_tags st' m' (us @ (tag_tid t, tag_bytes t) # ys)" by blast
  moreover have "replace_tag (tag_tid t) (tag_bytes t) xs = us @ (tag_tid t, tag_bytes t) # ys"
    unfolding xs(1) by (rule at_tag [OF xs(2)])
  ultimately show ?thesis using True by (auto simp: tl_Replace_def)
next
  case False
  from tl_Add_ok [OF assms(1,2,4) False] replace_writer.absent [OF assms(1,2) False] False
  show ?thesis by (auto simp: tl_Replace_def)
qed

end
