(* ===== verification/Packet_Tag_Refinement.thy ===== *)
theory Packet_Tag_Refinement
  imports Packet_Tag_Writers
begin

text \<open>
  Any number of \<open>PacketTagList\<close> objects over one store, against separate lists of tags: the sharing
  of nodes cannot be observed, no node is freed too early, and none is forgotten.
\<close>

section \<open>Operations on named lists\<close>

datatype tag_op =
    NewList nat
  | CopyList nat nat
  | AssignList nat nat
  | DestroyList nat
  | AddTag nat tag
  | RemoveTag nat u16
  | ReplaceTag nat tag
  | PeekTag nat u16
  | RemoveAllTags nat

datatype tag_answer = Done | Found bool | Bytes "u8 list option"

type_synonym tag_world = "(nat \<rightharpoonup> nat option) \<times> tag_store"

fun tag_exec :: "tag_op \<Rightarrow> tag_world \<Rightarrow> (tag_answer \<times> tag_world) option" where
  "tag_exec (NewList l) (L, st) = (if L l = None then Some (Done, L(l \<mapsto> PacketTagList), st) else None)"
| "tag_exec (CopyList l k) (L, st) =
     (if L l = None then do { p \<leftarrow> L k; (m, st1) \<leftarrow> tl_copy p st; Some (Done, L(l \<mapsto> m), st1) } else None)"
| "tag_exec (AssignList l k) (L, st) =
     do { m \<leftarrow> L l; p \<leftarrow> L k; (m1, st1) \<leftarrow> tl_assign p m st; Some (Done, L(l \<mapsto> m1), st1) }"
| "tag_exec (DestroyList l) (L, st) =
     do { m \<leftarrow> L l; (_, st1) \<leftarrow> tl_RemoveAll m st; Some (Done, L(l := None), st1) }"
| "tag_exec (AddTag l t) (L, st) = do { m \<leftarrow> L l; (m1, st1) \<leftarrow> tl_Add t m st; Some (Done, L(l \<mapsto> m1), st1) }"
| "tag_exec (RemoveTag l tid) (L, st) =
     do { m \<leftarrow> L l; (r, m1, st1) \<leftarrow> tl_Remove tid (m, st); Some (Bytes r, L(l \<mapsto> m1), st1) }"
| "tag_exec (ReplaceTag l t) (L, st) =
     do { m \<leftarrow> L l; (b, m1, st1) \<leftarrow> tl_Replace t (m, st); Some (Found b, L(l \<mapsto> m1), st1) }"
| "tag_exec (PeekTag l tid) (L, st) = do { m \<leftarrow> L l; r \<leftarrow> tl_Peek tid m st; Some (Bytes r, L, st) }"
| "tag_exec (RemoveAllTags l) (L, st) =
     do { m \<leftarrow> L l; (m1, st1) \<leftarrow> tl_RemoveAll m st; Some (Done, L(l \<mapsto> m1), st1) }"

text \<open>
  The same on separate lists. A program may add a tag of a type only once, tags write as many bytes
  as they announce, a tag that replaces another has the same size, and there are fewer than
  \<open>2 ^ 32 - 6\<close> lists at a time.
\<close>

type_synonym tag_spec = "nat \<rightharpoonup> tag_list"

definition max_lists :: nat where
  "max_lists = 2 ^ 32 - 6"

fun tag_spec_step :: "tag_op \<Rightarrow> tag_spec \<Rightarrow> (tag_answer \<times> tag_spec) option" where
  "tag_spec_step (NewList l) S = (if S l = None \<and> card (dom S) < max_lists then Some (Done, S(l \<mapsto> [])) else None)"
| "tag_spec_step (CopyList l k) S =
     (if S l = None \<and> card (dom S) < max_lists then do { xs \<leftarrow> S k; Some (Done, S(l \<mapsto> xs)) } else None)"
| "tag_spec_step (AssignList l k) S = do { _ \<leftarrow> S l; xs \<leftarrow> S k; Some (Done, S(l \<mapsto> xs)) }"
| "tag_spec_step (DestroyList l) S = do { _ \<leftarrow> S l; Some (Done, S(l := None)) }"
| "tag_spec_step (AddTag l t) S = do {
     xs \<leftarrow> S l;
     if tag_ok t \<and> map_of xs (tag_tid t) = None then Some (Done, S(l \<mapsto> (tag_tid t, tag_bytes t) # xs)) else None }"
| "tag_spec_step (RemoveTag l tid) S = do { xs \<leftarrow> S l; Some (Bytes (map_of xs tid), S(l \<mapsto> remove_tag tid xs)) }"
| "tag_spec_step (ReplaceTag l t) S = do {
     xs \<leftarrow> S l;
     if tag_ok t then
       (case map_of xs (tag_tid t) of
          None \<Rightarrow> Some (Found False, S(l \<mapsto> (tag_tid t, tag_bytes t) # xs))
        | Some v \<Rightarrow> if length v = unat (tag_size t)
            then Some (Found True, S(l \<mapsto> replace_tag (tag_tid t) (tag_bytes t) xs)) else None)
     else None }"
| "tag_spec_step (PeekTag l tid) S = do { xs \<leftarrow> S l; Some (Bytes (map_of xs tid), S) }"
| "tag_spec_step (RemoveAllTags l) S = do { _ \<leftarrow> S l; Some (Done, S(l \<mapsto> [])) }"

fun tag_execs :: "tag_op list \<Rightarrow> tag_world \<Rightarrow> (tag_answer list \<times> tag_world) option" where
  "tag_execs [] w = Some ([], w)"
| "tag_execs (x # xs) w = do { (a, w1) \<leftarrow> tag_exec x w; (as, w2) \<leftarrow> tag_execs xs w1; Some (a # as, w2) }"

fun tag_spec_steps :: "tag_op list \<Rightarrow> tag_spec \<Rightarrow> (tag_answer list \<times> tag_spec) option" where
  "tag_spec_steps [] S = Some ([], S)"
| "tag_spec_steps (x # xs) S = do { (a, S1) \<leftarrow> tag_spec_step x S; (as, S2) \<leftarrow> tag_spec_steps xs S1; Some (a # as, S2) }"

definition no_tags :: "(nat \<Rightarrow> nat \<Rightarrow> u8) \<Rightarrow> tag_world" where
  "no_tags mem = (Map.empty, \<lparr>ts_heap = Map.empty, ts_fresh = 0, ts_malloc = mem\<rparr>)"

section \<open>The pointers of the lists\<close>

definition heads :: "(nat \<rightharpoonup> nat option) \<Rightarrow> nat option multiset" where
  "heads L = image_mset (\<lambda>l. the (L l)) (mset_set (dom L))"

lemma heads_empty [simp]: "heads Map.empty = {#}"
  by (simp add: heads_def)

lemma heads_insert:
  assumes "finite (dom L)" and "L l = None"
  shows "heads (L(l \<mapsto> p)) = add_mset p (heads L)"
proof -
  have "image_mset (\<lambda>k. the ((L(l \<mapsto> p)) k)) (mset_set (dom L)) = image_mset (\<lambda>k. the (L k)) (mset_set (dom L))"
    using assms by (intro image_mset_cong) auto
  with assms show ?thesis by (simp add: heads_def mset_set.insert domIff)
qed

lemma heads_remove:
  assumes "finite (dom L)" and "L l = Some p"
  shows "heads L = add_mset p (heads (L(l := None)))"
proof -
  have "L = (L(l := None))(l \<mapsto> p)" using assms(2) by auto
  with heads_insert [of "L(l := None)" l p] assms(1) show ?thesis by simp
qed

lemma heads_update:
  assumes "finite (dom L)"
  shows "heads (L(l \<mapsto> q)) = add_mset q (heads (L(l := None)))"
  using heads_insert [of "L(l := None)" l q] assms by simp

lemma in_heads: "finite (dom L) \<Longrightarrow> L l = Some p \<Longrightarrow> p \<in># heads L"
  by (force simp: heads_def)

lemma size_heads: "size (heads L) = card (dom L)"
  by (simp add: heads_def)

section \<open>The refinement\<close>

definition world_ok :: "tag_world \<Rightarrow> tag_spec \<Rightarrow> bool" where
  "world_ok w S \<longleftrightarrow> (case w of (L, st) \<Rightarrow> finite (dom L) \<and> dom L = dom S \<and> card (dom L) \<le> max_lists \<and>
     store_ok (heads L) st \<and> (\<forall>l p xs. L l = Some p \<longrightarrow> S l = Some xs \<longrightarrow> has_tags st p xs))"

lemma world_card:
  assumes "world_ok (L, st) S"
  shows "card (dom (L(l := None))) \<le> max_lists"
proof -
  have "finite (dom L)" "card (dom L) \<le> max_lists" using assms by (auto simp: world_ok_def)
  moreover have "dom (L(l := None)) \<subseteq> dom L" by auto
  ultimately show ?thesis using card_mono [of "dom L" "dom (L(l := None))"] by simp
qed

lemma world_list:
  assumes "world_ok (L, st) S" and "S l = Some xs"
  obtains m where "L l = Some m" "store_ok (add_mset m (heads (L(l := None)))) st" "has_tags st m xs" "small (heads (L(l := None)))"
proof -
  have f: "finite (dom L)" using assms(1) by (auto simp: world_ok_def)
  have "l \<in> dom L" using assms by (auto simp: world_ok_def)
  then obtain m where m: "L l = Some m" by blast
  have "small (heads (L(l := None)))"
    using world_card [OF assms(1), of l] unfolding small_def size_heads max_lists_def by simp
  with that [OF m] heads_remove [OF f m] assms m show thesis by (auto simp: world_ok_def)
qed

lemma world_update:
  assumes w: "world_ok (L, st) S" and S: "S l = Some ys" and ok: "store_ok (add_mset m (heads (L(l := None)))) st'"
    and k: "keeps_tags (heads (L(l := None))) st st'" and xs: "has_tags st' m xs"
  shows "world_ok (L(l \<mapsto> m), st') (S(l \<mapsto> xs))"
proof -
  have f: "finite (dom L)" and d: "dom L = dom S" using w by (auto simp: world_ok_def)
  have l: "insert l (dom L) = dom L" using S d by auto
  have "has_tags st' p zs" if "k \<noteq> l" "L k = Some p" "S k = Some zs" for k p zs
  proof -
    have "p \<in># heads (L(l := None))" using that f by (intro in_heads [of _ k]) auto
    moreover have "has_tags st p zs" using w that by (auto simp: world_ok_def)
    ultimately show ?thesis by (rule keepsD [OF k])
  qed
  then show ?thesis using w ok xs f d l by (auto simp: world_ok_def heads_update)
qed

lemma world_remove:
  assumes w: "world_ok (L, st) S" and ok: "store_ok (heads (L(l := None))) st'"
    and k: "keeps_tags (heads (L(l := None))) st st'"
  shows "world_ok (L(l := None), st') (S(l := None))"
proof -
  have f: "finite (dom L)" and d: "dom L = dom S" using w by (auto simp: world_ok_def)
  have "has_tags st' p zs" if "k \<noteq> l" "L k = Some p" "S k = Some zs" for k p zs
  proof -
    have "p \<in># heads (L(l := None))" using that f by (intro in_heads [of _ k]) auto
    moreover have "has_tags st p zs" using w that by (auto simp: world_ok_def)
    ultimately show ?thesis by (rule keepsD [OF k])
  qed
  moreover note world_card [OF w, of l]
  ultimately show ?thesis using w ok f d by (auto simp: world_ok_def)
qed

lemma world_insert:
  assumes w: "world_ok (L, st) S" and S: "S l = None" "card (dom S) < max_lists" and ok: "store_ok (add_mset m (heads L)) st'"
    and k: "keeps_tags (heads L) st st'" and xs: "has_tags st' m xs"
  shows "world_ok (L(l \<mapsto> m), st') (S(l \<mapsto> xs))"
proof -
  have f: "finite (dom L)" and d: "dom L = dom S" using w by (auto simp: world_ok_def)
  have l: "L l = None" using S(1) d by (metis domIff)
  have "has_tags st' p zs" if "L k = Some p" "S k = Some zs" for k p zs
    using keepsD [OF k in_heads [OF f that(1)]] w that by (auto simp: world_ok_def)
  moreover have "card (insert l (dom L)) \<le> max_lists" using f l S(2) d by (simp add: card_insert_if)
  ultimately show ?thesis using w ok xs f d l by (auto simp: world_ok_def heads_insert)
qed

lemma tag_step_ok:
  assumes w: "world_ok (L, st) S" and S: "tag_spec_step x S = Some (a, S')"
  shows "\<exists>L' st'. tag_exec x (L, st) = Some (a, L', st') \<and> world_ok (L', st') S'"
proof (cases x)
  case (NewList l)
  then have a: "S l = None" "card (dom S) < max_lists" "a = Done" "S' = S(l \<mapsto> [])" using S by (auto split: if_splits)
  have "L l = None" using w a(1) by (auto simp: world_ok_def)
  moreover have "world_ok (L(l \<mapsto> None), st) (S(l \<mapsto> []))"
    using w by (intro world_insert [OF w a(1,2)]) (simp_all add: world_ok_def)
  ultimately show ?thesis using a NewList by (simp add: PacketTagList_def)
next
  case (CopyList l k)
  then obtain xs where a: "S l = None" "card (dom S) < max_lists" "S k = Some xs" "a = Done" "S' = S(l \<mapsto> xs)"
    using S by (auto split: if_splits simp: Option.bind_eq_Some_conv)
  have f: "finite (dom L)" and l: "L l = None" using w a(1) by (auto simp: world_ok_def)
  from world_list [OF w a(3)] obtain p where p: "L k = Some p" "store_ok (add_mset p (heads (L(k := None)))) st"
    "has_tags st p xs" "small (heads (L(k := None)))" by blast
  from tl_copy_ok [OF p(2,3,4)] obtain st1 where c: "tl_copy p st = Some (p, st1)"
    "store_ok (add_mset p (heads L)) st1" "keeps_tags (heads L) st st1" unfolding heads_remove [OF f p(1), symmetric] by blast
  have "has_tags st1 p xs" using keepsD [OF c(3) in_heads [OF f p(1)] p(3)] .
  from world_insert [OF w a(1,2) c(2,3) this] show ?thesis using c(1) p(1) a l CopyList by simp
next
  case (AssignList l k)
  then obtain zs xs where a: "S l = Some zs" "S k = Some xs" "a = Done" "S' = S(l \<mapsto> xs)"
    using S by (auto simp: Option.bind_eq_Some_conv)
  have f: "finite (dom L)" using w by (auto simp: world_ok_def)
  from world_list [OF w a(2)] obtain p where p: "L k = Some p" "has_tags st p xs" by blast
  from world_list [OF w a(1)] obtain m where m: "L l = Some m" "store_ok (add_mset m (heads (L(l := None)))) st"
    "has_tags st m zs" "small (heads (L(l := None)))" by blast
  show ?thesis
  proof (cases "k = l")
    case True
    then have "tag_exec x (L, st) = Some (a, L, st)" "S' = S" using AssignList a m(1) p by (auto simp: tl_assign_def)
    with w show ?thesis by simp
  next
    case False
    let ?R = "heads (L(l := None, k := None))"
    have R: "heads (L(l := None)) = add_mset p ?R" using False f p(1) by (intro heads_remove) auto
    have sm: "small ?R" using m(4) by (simp add: R small_def)
    from tl_assign_ok [OF m(2) [unfolded R] sm] obtain st1 where
      c: "tl_assign p m st = Some (p, st1)" "store_ok (add_mset p (heads (L(l := None)))) st1"
      "keeps_tags (heads (L(l := None))) st st1" unfolding R by blast
    have "has_tags st1 p xs" using c(3) p(2) unfolding R by simp
    from world_update [OF w a(1) c(2,3) this] show ?thesis using c(1) m(1) p(1) a AssignList by simp
  qed
next
  case (DestroyList l)
  then obtain zs where a: "S l = Some zs" "a = Done" "S' = S(l := None)" using S by (auto simp: Option.bind_eq_Some_conv)
  from world_list [OF w a(1)] obtain m where m: "L l = Some m" "store_ok (add_mset m (heads (L(l := None)))) st" by blast
  from tl_RemoveAll_ok [OF m(2)] obtain st1 where c: "tl_RemoveAll m st = Some (None, st1)"
    "store_ok (heads (L(l := None))) st1" "keeps_tags (heads (L(l := None))) st st1" by blast
  from world_remove [OF w c(2,3)] show ?thesis using c(1) m(1) a DestroyList by simp
next
  case (AddTag l t)
  then obtain xs where a: "S l = Some xs" "tag_ok t" "map_of xs (tag_tid t) = None" "a = Done"
    "S' = S(l \<mapsto> (tag_tid t, tag_bytes t) # xs)" using S by (auto simp: Option.bind_eq_Some_conv split: if_splits)
  from world_list [OF w a(1)] obtain m where m: "L l = Some m" "store_ok (add_mset m (heads (L(l := None)))) st" "has_tags st m xs" by blast
  have "tag_tid t \<notin> fst ` set xs" using a(3) by (simp add: map_of_eq_None_iff)
  from tl_Add_ok [OF m(2,3) a(2) this] obtain m1 st1 where c: "tl_Add t m st = Some (m1, st1)"
    "store_ok (add_mset m1 (heads (L(l := None)))) st1" "keeps_tags (heads (L(l := None))) st st1"
    "has_tags st1 m1 ((tag_tid t, tag_bytes t) # xs)" by blast
  from world_update [OF w a(1) c(2,3,4)] show ?thesis using c(1) m(1) a(4,5) AddTag by simp
next
  case (RemoveTag l tid)
  then obtain xs where a: "S l = Some xs" "a = Bytes (map_of xs tid)" "S' = S(l \<mapsto> remove_tag tid xs)"
    using S by (auto simp: Option.bind_eq_Some_conv)
  from world_list [OF w a(1)] obtain m where m: "L l = Some m" "store_ok (add_mset m (heads (L(l := None)))) st"
    "has_tags st m xs" "small (heads (L(l := None)))" by blast
  from tl_Remove_ok [OF m(2,3,4), of tid] obtain m1 st1 where c: "tl_Remove tid (m, st) = Some (map_of xs tid, m1, st1)"
    "store_ok (add_mset m1 (heads (L(l := None)))) st1" "keeps_tags (heads (L(l := None))) st st1"
    "has_tags st1 m1 (remove_tag tid xs)" by blast
  from world_update [OF w a(1) c(2,3,4)] show ?thesis using c(1) m(1) a(2,3) RemoveTag by simp
next
  case (ReplaceTag l t)
  then obtain xs where a: "S l = Some xs" "tag_ok t" "\<forall>v. map_of xs (tag_tid t) = Some v \<longrightarrow> length v = unat (tag_size t)"
    "a = Found (tag_tid t \<in> fst ` set xs)" "S' = S(l \<mapsto>
       (if tag_tid t \<in> fst ` set xs then replace_tag (tag_tid t) (tag_bytes t) xs else (tag_tid t, tag_bytes t) # xs))"
  proof -
    from S ReplaceTag obtain xs where xs: "S l = Some xs" "tag_ok t" by (auto simp: Option.bind_eq_Some_conv split: if_splits)
    show thesis
    proof (cases "map_of xs (tag_tid t)")
      case None
      then have "tag_tid t \<notin> fst ` set xs" by (simp add: map_of_eq_None_iff)
      with None that [OF xs] S xs ReplaceTag show thesis by simp
    next
      case (Some v)
      then have "tag_tid t \<in> fst ` set xs" by (metis map_of_eq_None_iff option.distinct(1))
      with Some that [OF xs] S xs ReplaceTag show thesis by (simp split: if_splits)
    qed
  qed
  from world_list [OF w a(1)] obtain m where m: "L l = Some m" "store_ok (add_mset m (heads (L(l := None)))) st"
    "has_tags st m xs" "small (heads (L(l := None)))" by blast
  from tl_Replace_ok [OF m(2,3,4) a(2,3)] obtain m1 st1 where
    c: "tl_Replace t (m, st) = Some (tag_tid t \<in> fst ` set xs, m1, st1)"
    "store_ok (add_mset m1 (heads (L(l := None)))) st1" "keeps_tags (heads (L(l := None))) st st1"
    "has_tags st1 m1 (if tag_tid t \<in> fst ` set xs then replace_tag (tag_tid t) (tag_bytes t) xs else (tag_tid t, tag_bytes t) # xs)"
    by blast
  have "tag_exec x (L, st) = Some (a, L(l \<mapsto> m1), st1)" using c(1) m(1) a(4) ReplaceTag by simp
  with world_update [OF w a(1) c(2,3,4)] show ?thesis unfolding a(5) by blast
next
  case (PeekTag l tid)
  then obtain xs where a: "S l = Some xs" "a = Bytes (map_of xs tid)" "S' = S" using S by (auto simp: Option.bind_eq_Some_conv)
  from world_list [OF w a(1)] obtain m where m: "L l = Some m" "has_tags st m xs" by blast
  with tl_Peek_ok [OF m(2)] a w show ?thesis using PeekTag by simp
next
  case (RemoveAllTags l)
  then obtain zs where a: "S l = Some zs" "a = Done" "S' = S(l \<mapsto> [])" using S by (auto simp: Option.bind_eq_Some_conv)
  from world_list [OF w a(1)] obtain m where m: "L l = Some m" "store_ok (add_mset m (heads (L(l := None)))) st" by blast
  from tl_RemoveAll_ok [OF m(2)] obtain st1 where c: "tl_RemoveAll m st = Some (None, st1)"
    "store_ok (add_mset None (heads (L(l := None)))) st1" "keeps_tags (heads (L(l := None))) st st1" by auto
  have "has_tags st1 None []" by simp
  from world_update [OF w a(1) c(2,3) this] show ?thesis using c(1) m(1) a RemoveAllTags by simp
qed

lemma tag_run_ok:
  "world_ok w S \<Longrightarrow> tag_spec_steps xs S = Some (as, S') \<Longrightarrow> \<exists>w'. tag_execs xs w = Some (as, w') \<and> world_ok w' S'"
proof (induction xs arbitrary: w S as)
  case (Cons x xs)
  obtain L st where w: "w = (L, st)" by fastforce
  from Cons.prems(2) obtain a S1 bs where s: "tag_spec_step x S = Some (a, S1)" "tag_spec_steps xs S1 = Some (bs, S')" "as = a # bs"
    by (auto simp: Option.bind_eq_Some_conv)
  from tag_step_ok [OF Cons.prems(1) [unfolded w] s(1)] obtain w1 where
    w1: "tag_exec x w = Some (a, w1)" "world_ok w1 S1" unfolding w by blast
  from Cons.IH [OF w1(2) s(2)] w1(1) s(3) show ?case by auto
qed simp

lemma no_tags_ok: "world_ok (no_tags mem) Map.empty"
  by (simp add: world_ok_def no_tags_def store_ok_def tags_inv_def links_def max_lists_def)


section \<open>No node is forgotten\<close>

definition next_rel :: "(nat \<rightharpoonup> tag_data) \<Rightarrow> (nat \<times> nat) set" where
  "next_rel h = {(a, b). \<exists>d. h a = Some d \<and> td_next d = Some b}"

lemma reached:
  assumes inv: "tags_inv R h" and a: "h a = Some d"
  shows "\<exists>b. Some b \<in># R \<and> (b, a) \<in> (next_rel h)\<^sup>*"
proof (rule ccontr)
  assume none: "\<not> ?thesis"
  let ?U = "{a \<in> dom h. \<not> (\<exists>b. Some b \<in># R \<and> (b, a) \<in> (next_rel h)\<^sup>*)}"
  let ?f = "\<lambda>a. length (SOME xs. leads h (Some a) xs)"
  have f: "?f a = length xs" if "leads h (Some a) xs" for a xs
    using leads_unique [OF that someI [of "leads h (Some a)", OF that]] by simp
  have fin: "finite (dom h)" using inv by (simp add: tags_inv_def)
  then have "finite ?U" "?U \<noteq> {}" using none a by auto
  from finite_has_maximal [of "?f ` ?U"] this obtain u where u: "u \<in> ?U" "\<forall>v\<in>?U. ?f u \<le> ?f v \<longrightarrow> ?f u = ?f v" by auto
  then obtain e where e: "h u = Some e" by auto
  have "Some u \<in># R + links h" using inv e unfolding tags_inv_def by blast
  moreover have "Some u \<notin># R" using u(1) by blast
  ultimately obtain v g where v: "h v = Some g" "td_next g = Some u" using Some_in_links [OF fin] by auto
  obtain xs where xs: "leads h (Some u) xs" using tags_inv_node [OF inv e] by blast
  have "node_ok g" using inv v(1) unfolding tags_inv_def by blast
  with v xs have "leads h (Some v) ((td_tid g, td_data g) # xs)" by simp
  from f [OF this] have len: "?f v = Suc (?f u)" by (simp only: f [OF xs] list.size)
  have "(v, u) \<in> next_rel h" using v by (simp add: next_rel_def)
  then have "v \<in> ?U" using u(1) v(1) by (auto intro: rtrancl.rtrancl_into_rtrancl)
  with u(2) len show False by fastforce
qed

lemma count_links: "count (links h) p = card {b. \<exists>e. h b = Some e \<and> td_next e = p}" if "finite (dom h)"
proof -
  have "count (links h) p = card ((\<lambda>a. td_next (the (h a))) -` {p} \<inter> dom h)"
    using that by (simp add: links_def count_image_mset)
  also have "(\<lambda>a. td_next (the (h a))) -` {p} \<inter> dom h = {b. \<exists>e. h b = Some e \<and> td_next e = p}" by force
  finally show ?thesis .
qed

lemma count_heads: "count (heads L) p = card {l. L l = Some p}" if "finite (dom L)"
proof -
  have "count (heads L) p = card ((\<lambda>a. the (L a)) -` {p} \<inter> dom L)"
    using that by (simp add: heads_def count_image_mset)
  also have "(\<lambda>a. the (L a)) -` {p} \<inter> dom L = {l. L l = Some p}" by force
  finally show ?thesis .
qed

text \<open>
  C14: After any such program every allocated node counts its incoming pointers exactly, those of
  list objects and those of other nodes, and is reached from a list object: nothing is leaked.
  In particular nothing is allocated any more when all lists have been destroyed.
\<close>

theorem tag_store_exact:
  assumes "tag_spec_steps ops Map.empty = Some (as, S)"
  shows "\<exists>L st. tag_execs ops (no_tags mem) = Some (as, L, st) \<and>
    (\<forall>a d. ts_heap st a = Some d \<longrightarrow>
       unat (td_count d) = card {l. L l = Some (Some a)} + card {b. \<exists>e. ts_heap st b = Some e \<and> td_next e = Some a} \<and>
       (\<exists>l b. L l = Some (Some b) \<and> (b, a) \<in> (next_rel (ts_heap st))\<^sup>*)) \<and>
    (S = Map.empty \<longrightarrow> ts_heap st = Map.empty)"
proof -
  from tag_run_ok [OF no_tags_ok assms] obtain L st where
    run: "tag_execs ops (no_tags mem) = Some (as, L, st)" and w: "world_ok (L, st) S" by fastforce
  have fin: "finite (dom L)" and d: "dom L = dom S" and inv: "tags_inv (heads L) (ts_heap st)"
    using w by (auto simp: world_ok_def store_ok_def)
  have fh: "finite (dom (ts_heap st))" using inv by (simp add: tags_inv_def)
  have node: "unat (td_count d) = card {l. L l = Some (Some a)} + card {b. \<exists>e. ts_heap st b = Some e \<and> td_next e = Some a} \<and>
      (\<exists>l b. L l = Some (Some b) \<and> (b, a) \<in> (next_rel (ts_heap st))\<^sup>*)" if a: "ts_heap st a = Some d" for a d
  proof
    have "unat (td_count d) = count (heads L + links (ts_heap st)) (Some a)" using inv a unfolding tags_inv_def by blast
    then show "unat (td_count d) = card {l. L l = Some (Some a)} + card {b. \<exists>e. ts_heap st b = Some e \<and> td_next e = Some a}"
      by (simp add: count_heads [OF fin] count_links [OF fh])
    from reached [OF inv a] obtain b where b: "Some b \<in># heads L" "(b, a) \<in> (next_rel (ts_heap st))\<^sup>*" by blast
    from b(1) fin obtain l where "L l = Some (Some b)" by (force simp: heads_def)
    with b(2) show "\<exists>l b. L l = Some (Some b) \<and> (b, a) \<in> (next_rel (ts_heap st))\<^sup>*" by blast
  qed
  have "ts_heap st = Map.empty" if "S = Map.empty"
  proof (rule ext)
    fix a
    have "L = Map.empty" using d that by simp
    then show "ts_heap st a = None" using node [of a] by (cases "ts_heap st a") auto
  qed
  with run node show ?thesis by blast
qed

section \<open>Examples\<close>

declare remove_all_loop.simps [code] find_tid.simps [code] cow_search.simps [code] cow_copy_loop.simps [code]

definition byte_tag :: "u16 \<Rightarrow> u8 list \<Rightarrow> tag" where
  "byte_tag tid xs = \<lparr>tag_tid = tid, tag_size = of_nat (length xs), tag_fields = map FieldU8 xs\<rparr>"

text \<open>A copy shares three nodes; the middle one is removed from it and the last one replaced.\<close>

definition example_ops :: "tag_op list" where
  "example_ops = [NewList 0, AddTag 0 (byte_tag 1 [10]), AddTag 0 (byte_tag 2 [20]), AddTag 0 (byte_tag 3 [30]),
     CopyList 1 0, RemoveTag 1 2, ReplaceTag 1 (byte_tag 1 [11]), PeekTag 0 2, PeekTag 0 1, PeekTag 1 1]"

definition example_answers :: "tag_answer list" where
  "example_answers = [Done, Done, Done, Done, Done, Bytes (Some [20]), Found True, Bytes (Some [20]), Bytes (Some [10]), Bytes (Some [11])]"

lemma example_spec:
  "tag_spec_steps example_ops Map.empty =
     Some (example_answers, [0 \<mapsto> [(3, [30]), (2, [20]), (1, [10])], 1 \<mapsto> [(3, [30]), (1, [11])]])"
  by (simp add: example_ops_def example_answers_def byte_tag_def tag_ok_def tag_bytes_def max_lists_def)


theorem tag_store_exact_witness:
  "\<exists>L st. tag_execs (example_ops @ [DestroyList 0, DestroyList 1]) (no_tags (\<lambda>_ _. 0)) =
     Some (example_answers @ [Done, Done], L, st) \<and> ts_heap st = Map.empty"
proof -
  have "tag_spec_steps (example_ops @ [DestroyList 0, DestroyList 1]) Map.empty = Some (example_answers @ [Done, Done], Map.empty)"
    by (simp add: example_ops_def example_answers_def byte_tag_def tag_ok_def tag_bytes_def max_lists_def fun_eq_iff)
  from tag_store_exact [OF this, of "\<lambda>_ _. 0"] show ?thesis by blast
qed


end
