(* ===== verification/Packet_Tag_Serialization.thy ===== *)
theory Packet_Tag_Serialization
  imports Buffer_Serialization Type_Id Packet_Tag_Refinement
begin

text \<open>
  \<open>PacketTagList::GetSerializedSize\<close>, \<open>Serialize\<close> and \<open>Deserialize\<close>
  (src/src/network/model/packet-tag-list.cc): the tags of a list as an array of words in the
  caller's memory. A type is written as its hash, which the registry of types translates back.
\<close>

section \<open>The operations\<close>

partial_function (option) serialized_size_loop :: "nat option \<Rightarrow> u32 \<Rightarrow> tag_store \<Rightarrow> u32 option" where
  "serialized_size_loop cur sz st =
     (case cur of
        None \<Rightarrow> Some sz
      | Some a \<Rightarrow> do {
          d \<leftarrow> ts_heap st a;
          let sz = sz + 4;
          let hashSize = pad4 4;
          let sz = sz + hashSize;
          let tagWordSize = pad4 (td_size d);
          serialized_size_loop (td_next d) (sz + tagWordSize) st })"

definition tl_GetSerializedSize :: "nat option \<Rightarrow> tag_store \<Rightarrow> u32 option" where
  "tl_GetSerializedSize m st = serialized_size_loop m 4 st"

text \<open>\<open>p\<close> is the offset of the pointer in bytes, \<open>out\<close> the caller's memory; the number of tags is at its beginning.\<close>

partial_function (option) serialize_loop ::
  "iid_manager \<Rightarrow> u32 \<Rightarrow> nat option \<Rightarrow> u32 \<Rightarrow> u32 \<Rightarrow> u8 list \<Rightarrow> tag_store \<Rightarrow> (u32 \<times> u8 list) option" where
  "serialize_loop im maxSize cur p sz out st =
     (case cur of
        None \<Rightarrow> Some (1, out)
      | Some a \<Rightarrow> do {
          d \<leftarrow> ts_heap st a;
          let sz = sz + 4;
          (if sz > maxSize then Some (0, out) else do {
             out1 \<leftarrow> mem_put out p (host_bytes (td_size d));
             let p = p + 4;
             let hashSize = pad4 4;
             let sz = sz + hashSize;
             (if sz > maxSize then Some (0, out1) else do {
                tid \<leftarrow> GetHash (td_tid d) im;
                out2 \<leftarrow> mem_put out1 p (host_bytes tid);
                let p = p + hashSize;
                let tagWordSize = pad4 (td_size d);
                let sz = sz + tagWordSize;
                (if sz > maxSize then Some (0, out2) else do {
                   xs \<leftarrow> mem_slice (td_data d) 0 (td_size d);
                   out3 \<leftarrow> mem_put out2 p xs;
                   let p = p + tagWordSize;
                   n \<leftarrow> mem_slice out3 0 4;
                   out4 \<leftarrow> mem_put out3 0 (host_bytes (little_endian n + 1));
                   serialize_loop im maxSize (td_next d) p sz out4 st }) }) }) })"

definition tl_Serialize :: "iid_manager \<Rightarrow> u8 list \<Rightarrow> u32 \<Rightarrow> nat option \<Rightarrow> tag_store \<Rightarrow> (u32 \<times> u8 list) option" where
  "tl_Serialize im out maxSize m st =
     (let sz = 4 in
      if sz > maxSize then Some (0, out)
      else do {
        out1 \<leftarrow> mem_put out 0 (host_bytes 0);
        serialize_loop im maxSize m 4 sz out1 st })"

text \<open>
  The loop over the tags with the number of those left; \<open>prevTag\<close> is \<open>nullptr\<close> at the first one
  only. The result has the part of the size that was not consumed.
\<close>

fun deserialize_loop :: "iid_manager \<Rightarrow> u8 list \<Rightarrow> nat \<Rightarrow> nat option \<Rightarrow> u32 \<Rightarrow> u32 \<Rightarrow> nat option \<times> tag_store \<Rightarrow>
    (u32 \<times> nat option \<times> tag_store) option" where
  "deserialize_loop im buf 0 prevTag p sizeCheck (m, st) = Some (sizeCheck, m, st)"
| "deserialize_loop im buf (Suc n) prevTag p sizeCheck (m, st) = do {
     ns_assert (sizeCheck \<ge> 4);
     ws \<leftarrow> mem_slice buf p 4;
     let tagSize = little_endian ws;
     let p = p + 4;
     let sizeCheck = sizeCheck - 4;
     let hashSize = pad4 4;
     ns_assert (sizeCheck \<ge> hashSize);
     ws \<leftarrow> mem_slice buf p 4;
     let hash = little_endian ws;
     let p = p + hashSize;
     let sizeCheck = sizeCheck - hashSize;
     tid \<leftarrow> LookupByHash hash im;
     (newTag, st1) \<leftarrow> CreateTagData tagSize st;
     d \<leftarrow> ts_heap st1 newTag;
     ns_assert (sizeCheck \<ge> tagSize);
     xs \<leftarrow> mem_slice buf p tagSize;
     st2 \<leftarrow> ts_put newTag (d\<lparr>td_count := 1, td_next := None, td_tid := tid, td_data := xs\<rparr>) st1;
     let tagWordSize = pad4 tagSize;
     let p = p + tagWordSize;
     let sizeCheck = sizeCheck - tagWordSize;
     s3 \<leftarrow> set_slot (case prevTag of None \<Rightarrow> ListNext | Some b \<Rightarrow> NodeNext b) (Some newTag) (m, st2);
     deserialize_loop im buf n (Some newTag) p sizeCheck s3 }"

definition tl_Deserialize :: "iid_manager \<Rightarrow> u8 list \<Rightarrow> u32 \<Rightarrow> nat option \<Rightarrow> tag_store \<Rightarrow> (u32 \<times> nat option \<times> tag_store) option" where
  "tl_Deserialize im buf sz m st = do {
     let sizeCheck = sz - 4;
     ns_assert (sizeCheck \<ge> 4);
     ws \<leftarrow> mem_slice buf 0 4;
     let numberOfTags = (little_endian ws :: u32);
     let sizeCheck = sizeCheck - 4;
     (sizeCheck, m1, st1) \<leftarrow> deserialize_loop im buf (unat numberOfTags) None 4 sizeCheck (m, st);
     ns_assert (sizeCheck = 0);
     Some (if sizeCheck \<noteq> 0 then 0 else 1, m1, st1) }"

section \<open>What is written\<close>

definition padded :: "u8 list \<Rightarrow> nat" where
  "padded v = 4 * ((length v + 3) div 4)"

primrec tags_size :: "tag_list \<Rightarrow> nat" where
  "tags_size [] = 0"
| "tags_size (x # xs) = 8 + padded (snd x) + tags_size xs"

primrec tags_at :: "(u16 \<Rightarrow> u32) \<Rightarrow> u8 list \<Rightarrow> nat \<Rightarrow> tag_list \<Rightarrow> bool" where
  "tags_at hash out p [] \<longleftrightarrow> True"
| "tags_at hash out p (x # xs) \<longleftrightarrow>
     take 4 (drop p out) = host_bytes (of_nat (length (snd x))) \<and>
     take 4 (drop (p + 4) out) = host_bytes (hash (fst x)) \<and>
     p + 8 + length (snd x) \<le> length out \<and> take (length (snd x)) (drop (p + 8) out) = snd x \<and>
     tags_at hash out (p + 8 + padded (snd x)) xs"

lemma padded_bounds: "length v \<le> padded v" "padded v \<le> length v + 3"
  by (simp_all add: padded_def)

lemma pad4_4 [simp]: "pad4 4 = 4"
  by (simp add: pad4_def)

lemma unat_pad4_length: "unat n = length v \<Longrightarrow> length v + 3 < 2 ^ 32 \<Longrightarrow> unat (pad4 n) = padded v"
  by (simp add: unat_pad4 padded_def)

lemma serialized_size_loop_ok:
  "has_tags st m xs \<Longrightarrow> unat sz + tags_size xs < 2 ^ 32 \<Longrightarrow>
   \<exists>sz'. serialized_size_loop m sz st = Some sz' \<and> unat sz' = unat sz + tags_size xs"
proof (induction xs arbitrary: m sz)
  case Nil
  then show ?case by (simp add: serialized_size_loop.simps)
next
  case (Cons x xs)
  then obtain a d where d: "m = Some a" "ts_heap st a = Some d" "node_ok d" "x = (td_tid d, td_data d)"
    "has_tags st (td_next d) xs" by auto
  have p: "unat (pad4 (td_size d)) = padded (td_data d)"
    using d(3,4) Cons.prems(2) padded_bounds [of "td_data d"] by (intro unat_pad4_length) (simp_all add: node_ok_def)
  have s1: "unat (sz + 4 + 4) = unat sz + 8"
    using Cons.prems(2) unat_add_no_wrap [of sz 8] by (simp add: add.assoc)
  have s2: "unat (sz + 4 + 4 + pad4 (td_size d)) = unat sz + 8 + padded (td_data d)"
    using Cons.prems(2) p s1 d(4) by (subst unat_add_no_wrap) simp_all
  have "unat (sz + 4 + 4 + pad4 (td_size d)) + tags_size xs < 2 ^ 32" using Cons.prems(2) s2 d(4) by simp
  from Cons.IH [OF d(5) this] show ?case
    using d(1,2,4) s2 by (auto simp: serialized_size_loop.simps [of "Some a"] Let_def add.assoc)
qed

lemma mem_slice_word: "unat i = p \<Longrightarrow> unat n = k \<Longrightarrow> p + k \<le> length bs \<Longrightarrow> mem_slice bs i n = Some (take k (drop p bs))"
  by (cases "n = 0") (auto simp: mem_slice_def)

lemma mem_slice_all: "unat n = length v \<Longrightarrow> mem_slice v 0 n = Some v"
  by (simp add: mem_slice_word)

text \<open>The four writes of one tag.\<close>

lemma tag_puts:
  fixes out v :: "u8 list" and s h n :: u32
  assumes q: "4 \<le> q" "q + 8 + length v \<le> length out"
  defines "out4 \<equiv> put (put (put (put out q (host_bytes s)) (q + 4) (host_bytes h)) (q + 8) v) 0 (host_bytes n)"
  shows "length out4 = length out" and "take 4 out4 = host_bytes n" and "take 4 (drop q out4) = host_bytes s"
    and "take 4 (drop (q + 4) out4) = host_bytes h" and "take (length v) (drop (q + 8) out4) = v"
    and "4 \<le> i \<Longrightarrow> i + k \<le> q \<Longrightarrow> take k (drop i out4) = take k (drop i out)"
proof -
  show "length out4 = length out" using q by (simp add: out4_def)
  show "take 4 out4 = host_bytes n"
    unfolding out4_def by (rule slice_put_same [of 4 "host_bytes n" 0, unfolded drop_0]) simp_all
  show "take 4 (drop q out4) = host_bytes s" using q by (simp add: out4_def slice_put_other slice_put_same)
  show "take 4 (drop (q + 4) out4) = host_bytes h" using q by (simp add: out4_def slice_put_other slice_put_same)
  show "take (length v) (drop (q + 8) out4) = v" using q by (simp add: out4_def slice_put_other slice_put_same)
  show "4 \<le> i \<Longrightarrow> i + k \<le> q \<Longrightarrow> take k (drop i out4) = take k (drop i out)"
    using q by (simp add: out4_def slice_put_other)
qed

lemma serialize_loop_ok:
  "has_tags st cur xs \<Longrightarrow> \<forall>x\<in>set xs. GetHash (fst x) im = Some (hash (fst x)) \<Longrightarrow> unat p = q \<Longrightarrow> unat sz = q \<Longrightarrow>
   4 \<le> q \<Longrightarrow> q + tags_size xs < 2 ^ 32 \<Longrightarrow> unat maxSize \<le> length out \<Longrightarrow> take 4 out = host_bytes (of_nat n) \<Longrightarrow>
   q \<le> unat maxSize \<Longrightarrow>
   \<exists>out'. serialize_loop im maxSize cur p sz out st = Some (if q + tags_size xs \<le> unat maxSize then 1 else 0, out') \<and>
     length out' = length out \<and> (\<forall>i k. 4 \<le> i \<longrightarrow> i + k \<le> q \<longrightarrow> take k (drop i out') = take k (drop i out)) \<and>
     (q + tags_size xs \<le> unat maxSize \<longrightarrow> tags_at hash out' q xs \<and> take 4 out' = host_bytes (of_nat (n + length xs)))"
proof (induction xs arbitrary: cur p q sz out n)
  case Nil
  then show ?case by (simp add: serialize_loop.simps)
next
  case (Cons x xs)
  obtain a d where d: "cur = Some a" "ts_heap st a = Some d" "node_ok d" "x = (td_tid d, td_data d)" "has_tags st (td_next d) xs"
    using Cons.prems(1) by auto
  let ?v = "td_data d"
  have len: "unat (td_size d) = length ?v" using d(3) by (simp add: node_ok_def)
  have total: "q + 8 + padded ?v + tags_size xs < 2 ^ 32" using Cons.prems(6) d(4) by simp
  have pv: "unat (pad4 (td_size d)) = padded ?v" using total padded_bounds [of ?v] by (intro unat_pad4_length len) simp
  have h: "GetHash (td_tid d) im = Some (hash (td_tid d))" using Cons.prems(2) d(4) by simp
  have s: "unat (sz + 4) = q + 4" "unat (sz + 8) = q + 8" "unat (sz + 8 + pad4 (td_size d)) = q + 8 + padded ?v"
    "unat (p + 4) = q + 4" "unat (p + 8) = q + 8" "unat (p + 8 + pad4 (td_size d)) = q + 8 + padded ?v"
  proof -
    show s1: "unat (sz + 4) = q + 4" "unat (sz + 8) = q + 8" "unat (p + 4) = q + 4" "unat (p + 8) = q + 8"
      using Cons.prems(3,4) total by (simp_all add: unat_add_no_wrap)
    show "unat (sz + 8 + pad4 (td_size d)) = q + 8 + padded ?v" "unat (p + 8 + pad4 (td_size d)) = q + 8 + padded ?v"
      using s1(2,4) pv total by (simp_all add: unat_add_no_wrap)
  qed
  note run = serialize_loop.simps [of im maxSize "Some a"]
  let ?M = "unat maxSize"
  have gt: "maxSize < w \<longleftrightarrow> ?M < unat w" for w :: u32 by (rule word_less_nat_alt)
  let ?o1 = "put out q (host_bytes (td_size d))"
  let ?o2 = "put ?o1 (q + 4) (host_bytes (hash (td_tid d)))"
  have w1: "mem_put out p (host_bytes (td_size d)) = Some ?o1" "length ?o1 = length out"
    "4 \<le> i \<longrightarrow> i + k \<le> q \<longrightarrow> take k (drop i ?o1) = take k (drop i out)" if "q + 4 \<le> ?M" for i k
    using that Cons.prems(3,7) by (simp_all add: mem_put_at slice_put_other)
  have w2: "mem_put ?o1 (p + 4) (host_bytes (hash (td_tid d))) = Some ?o2" "length ?o2 = length out"
    "4 \<le> i \<longrightarrow> i + k \<le> q \<longrightarrow> take k (drop i ?o2) = take k (drop i out)" if "q + 8 \<le> ?M" for i k
    using that Cons.prems(7) s(4) by (simp_all add: mem_put_at slice_put_other)
  consider "?M < q + 4" | "q + 4 \<le> ?M" "?M < q + 8" | "q + 8 \<le> ?M" "?M < q + 8 + padded ?v" | "q + 8 + padded ?v \<le> ?M" by linarith
  then show ?case
  proof cases
    case 1
    then have "serialize_loop im maxSize cur p sz out st = Some (0, out)" using d(1,2) s(1) by (simp add: run gt)
    then show ?thesis using 1 d(4) by simp
  next
    case 2
    then have "serialize_loop im maxSize cur p sz out st = Some (0, ?o1)"
      using d(1,2) s(1,2) w1(1) by (simp add: run gt add.assoc)
    then show ?thesis using 2 d(4) w1 by simp
  next
    case 3
    then have "serialize_loop im maxSize cur p sz out st = Some (0, ?o2)"
      using d(1,2) s(1-3) w1(1) w2(1) h by (simp add: run gt add.assoc)
    then show ?thesis using 3 d(4) w2 by simp
  next
    case 4
    let ?o3 = "put ?o2 (q + 8) ?v"
    define o4 where "o4 = put ?o3 0 (host_bytes (of_nat (Suc n)))"
    have room: "q + 8 + length ?v \<le> length out" using 4 Cons.prems(7) padded_bounds [of ?v] by simp
    note o4 = tag_puts [where s = "td_size d" and h = "hash (td_tid d)" and n = "of_nat (Suc n)", OF Cons.prems(5) room, folded o4_def]
    have w3: "mem_slice ?v 0 (td_size d) = Some ?v" "mem_put ?o2 (p + 8) ?v = Some ?o3"
      using 4 s(5) room w2(2) mem_slice_all [OF len] by (simp_all add: mem_put_at)
    have "take 4 ?o3 = host_bytes (of_nat n)" using Cons.prems(5,8) room by (simp add: take_put)
    then have "mem_slice ?o3 0 4 = Some (host_bytes (of_nat n))" using room Cons.prems(5) by (simp add: mem_slice_def)
    moreover have "mem_put ?o3 0 (host_bytes (of_nat n + 1)) = Some o4" using room by (simp add: mem_put_at o4_def add.commute)
    ultimately have step: "serialize_loop im maxSize cur p sz out st =
        serialize_loop im maxSize (td_next d) (p + 8 + pad4 (td_size d)) (sz + 8 + pad4 (td_size d)) o4 st"
      using 4 d(1,2) s(1-3) w1(1) w2(1) w3 h by (simp add: run gt add.assoc Let_def)
    have "\<exists>out'. serialize_loop im maxSize (td_next d) (p + 8 + pad4 (td_size d)) (sz + 8 + pad4 (td_size d)) o4 st =
        Some (if q + 8 + padded ?v + tags_size xs \<le> ?M then 1 else 0, out') \<and> length out' = length o4 \<and>
      (\<forall>i k. 4 \<le> i \<longrightarrow> i + k \<le> q + 8 + padded ?v \<longrightarrow> take k (drop i out') = take k (drop i o4)) \<and>
      (q + 8 + padded ?v + tags_size xs \<le> ?M \<longrightarrow> tags_at hash out' (q + 8 + padded ?v) xs \<and>
         take 4 out' = host_bytes (of_nat (Suc n + length xs)))"
      using Cons.prems(2,5,7) s total o4(1,2) 4 by (intro Cons.IH [OF d(5)]) simp_all
    then obtain out' where r: "serialize_loop im maxSize cur p sz out st = Some (if q + 8 + padded ?v + tags_size xs \<le> ?M then 1 else 0, out')"
      "length out' = length out" "\<And>i k. 4 \<le> i \<Longrightarrow> i + k \<le> q + 8 + padded ?v \<Longrightarrow> take k (drop i out') = take k (drop i o4)"
      "q + 8 + padded ?v + tags_size xs \<le> ?M \<Longrightarrow> tags_at hash out' (q + 8 + padded ?v) xs"
      "q + 8 + padded ?v + tags_size xs \<le> ?M \<Longrightarrow> take 4 out' = host_bytes (of_nat (Suc n + length xs))"
      unfolding step o4(1) by blast
    have keep: "take k (drop i out') = take k (drop i out)" if "4 \<le> i" "i + k \<le> q" for i k
      using r(3) [of i k] o4(6) [of i k] that by simp
    have "take 4 (drop q out') = host_bytes (td_size d)" "take 4 (drop (q + 4) out') = host_bytes (hash (td_tid d))"
      "take (length ?v) (drop (q + 8) out') = ?v"
      using r(3) o4(3-5) Cons.prems(5) padded_bounds [of ?v] by simp_all
    moreover have "td_size d = of_nat (length ?v)" unfolding len [symmetric] by simp
    ultimately have "q + tags_size (x # xs) \<le> ?M \<Longrightarrow> tags_at hash out' q (x # xs)"
      using d(4) r(2,4) room by (simp add: add.assoc)
    then show ?thesis using r(1,2,5) keep d(4) by (intro exI [of _ out']) (simp add: add.assoc)
  qed
qed

section \<open>The list that is built\<close>

lemma relink_snoc: "relink h (us @ [c]) q g = relink h us (Some c) (g(c \<mapsto> (the (h c))\<lparr>td_next := q\<rparr>))"
proof (induction us)
  case (Cons a us)
  have "first (us @ [c]) q = first us (Some c)" by (cases us) simp_all
  with Cons show ?case by simp
qed simp

lemma relink_cong: "(\<And>a. a \<in> set us \<Longrightarrow> h a = h' a) \<Longrightarrow> relink h us q g = relink h' us q g"
  by (induction us) simp_all

text \<open>The heap is \<open>g\<close> and the new nodes \<open>us\<close>, which are linked in this order.\<close>

definition built :: "(nat \<rightharpoonup> tag_data) \<Rightarrow> (nat \<rightharpoonup> tag_data) \<Rightarrow> nat list \<Rightarrow> nat option \<Rightarrow> tag_store \<Rightarrow> bool" where
  "built g h us m st \<longleftrightarrow> ts_heap st = relink h us None g \<and> m = first us None \<and> distinct us \<and>
     (\<forall>a\<in>set us. g a = None \<and> a < ts_fresh st) \<and> (\<forall>a\<in>dom g. a < ts_fresh st) \<and>
     (\<forall>a\<in>set us. \<exists>d. h a = Some d \<and> node_ok d \<and> td_count d = 1)"

lemma built_step:
  assumes b: "built g h us m st" and d: "node_ok d" "td_count d = 1" "td_next d = None"
  shows "\<exists>m' st'. set_slot (slot_of us) (Some (ts_fresh st))
       (m, st\<lparr>ts_heap := (ts_heap st)(ts_fresh st \<mapsto> d), ts_fresh := ts_fresh st + 1\<rparr>) = Some (m', st') \<and>
     built g (h(ts_fresh st \<mapsto> d)) (us @ [ts_fresh st]) m' st'"
proof -
  let ?c = "ts_fresh st"
  let ?st = "st\<lparr>ts_heap := (ts_heap st)(?c \<mapsto> d), ts_fresh := ?c + 1\<rparr>"
  have c: "?c \<notin> set us" "g ?c = None" using b by (force simp: built_def)+
  have hp: "ts_heap ?st = relink h us None (g(?c \<mapsto> d))" using b c(1) by (simp add: built_def relink_update)
  have m: "m = first us None" and dis: "distinct us" using b by (simp_all add: built_def)
  note set = set_slot_relink [OF hp dis m, of "Some ?c"]
  have dn: "(the ((h(?c \<mapsto> d)) ?c))\<lparr>td_next := None\<rparr> = d" using d(3) by simp
  have "relink (h(?c \<mapsto> d)) (us @ [?c]) None g = relink h us (Some ?c) (g(?c \<mapsto> d))"
    unfolding relink_snoc dn using c(1) by (intro relink_cong) auto
  then have "built g (h(?c \<mapsto> d)) (us @ [?c]) (first us (Some ?c)) (?st\<lparr>ts_heap := relink h us (Some ?c) (g(?c \<mapsto> d))\<rparr>)"
    using b c d dis by (cases us) (auto simp: built_def less_Suc_eq simp del: relink.simps)
  with set show ?thesis by blast
qed

lemma deserialize_loop_ok:
  "tags_at hash buf q xs \<Longrightarrow> \<forall>x\<in>set xs. LookupByHash (hash (fst x)) im = Some (fst x) \<Longrightarrow> unat p = q \<Longrightarrow>
   unat chk = tags_size xs \<Longrightarrow> q + tags_size xs < 2 ^ 32 \<Longrightarrow> built g h us m st \<Longrightarrow>
   prev = (if us = [] then None else Some (last us)) \<Longrightarrow>
   \<exists>m' st' h' vs. deserialize_loop im buf (length xs) prev p chk (m, st) = Some (0, m', st') \<and>
     built g h' (us @ vs) m' st' \<and> tags_of h' (us @ vs) = tags_of h us @ xs"
proof (induction xs arbitrary: q p chk h us m st prev)
  case Nil
  then have "deserialize_loop im buf (length []) prev p chk (m, st) = Some (0, m, st)" by (simp add: unat_eq_0)
  with Nil.prems(6) show ?case by (intro exI [of _ m] exI [of _ st] exI [of _ h] exI [of _ "[]"]) simp
next
  case (Cons x xs)
  obtain tid v where x: "x = (tid, v)" by fastforce
  let ?n = "of_nat (length v) :: u32"
  have total: "q + 8 + padded v + tags_size xs < 2 ^ 32" and chk: "unat chk = 8 + padded v + tags_size xs"
    using Cons.prems(4,5) x by simp_all
  note pb = padded_bounds [of v]
  have t: "take 4 (drop q buf) = host_bytes ?n" "take 4 (drop (q + 4) buf) = host_bytes (hash tid)"
    "q + 8 + length v \<le> length buf" "take (length v) (drop (q + 8) buf) = v" "tags_at hash buf (q + 8 + padded v) xs"
    using Cons.prems(1) x by simp_all
  have lk: "LookupByHash (hash tid) im = Some tid" using Cons.prems(2) x by simp
  have n: "unat ?n = length v" using total pb by (simp add: unsigned_of_nat take_bit_nat_eq_self)
  have pn: "unat (pad4 ?n) = padded v" using total pb by (intro unat_pad4_length n) simp
  have p: "unat (p + 4) = q + 4" "unat (p + 8) = q + 8" "unat (p + 8 + pad4 ?n) = q + 8 + padded v"
  proof -
    show p1: "unat (p + 4) = q + 4" "unat (p + 8) = q + 8" using Cons.prems(3) total by (simp_all add: unat_add_no_wrap)
    show "unat (p + 8 + pad4 ?n) = q + 8 + padded v" using p1(2) pn total by (simp add: unat_add_no_wrap)
  qed
  have c: "4 \<le> chk" "unat (chk - 4) = 4 + padded v + tags_size xs" "4 \<le> chk - 4"
    "unat (chk - 4 - 4) = padded v + tags_size xs" "?n \<le> chk - 4 - 4" "unat (chk - 4 - 4 - pad4 ?n) = tags_size xs"
  proof -
    show c1: "4 \<le> chk" using chk by (simp add: word_le_nat_alt)
    then show c2: "unat (chk - 4) = 4 + padded v + tags_size xs" using chk by (simp add: unat_sub)
    then show c3: "4 \<le> chk - 4" by (simp add: word_le_nat_alt)
    then show c4: "unat (chk - 4 - 4) = padded v + tags_size xs" using unat_sub [OF c3] c2 by simp
    then show "?n \<le> chk - 4 - 4" using n pb by (simp add: word_le_nat_alt)
    show "unat (chk - 4 - 4 - pad4 ?n) = tags_size xs" using c4 pn by (simp add: unat_sub word_le_nat_alt)
  qed
  have "length v < 0xffffffff" using total pb by simp
  then have small: "?n < 0xffffffff" using n by (simp add: word_less_nat_alt)
  define d where "d = \<lparr>td_next = None, td_count = 1, td_tid = tid, td_size = ?n, td_data = v\<rparr>"
  have dok: "node_ok d" "td_count d = 1" "td_next d = None" using n small by (simp_all add: d_def node_ok_def)
  from built_step [OF Cons.prems(6) dok] obtain m1 st1 where
    st1: "set_slot (slot_of us) (Some (ts_fresh st)) (m, st\<lparr>ts_heap := (ts_heap st)(ts_fresh st \<mapsto> d), ts_fresh := ts_fresh st + 1\<rparr>) = Some (m1, st1)"
      "built g (h(ts_fresh st \<mapsto> d)) (us @ [ts_fresh st]) m1 st1" by blast
  have slot: "(case prev of None \<Rightarrow> ListNext | Some b \<Rightarrow> NodeNext b) = slot_of us" using Cons.prems(7) by (simp add: slot_of_def)
  have reads: "mem_slice buf p 4 = Some (host_bytes ?n)" "mem_slice buf (p + 4) 4 = Some (host_bytes (hash tid))"
    "mem_slice buf (p + 8) ?n = Some v"
    using t Cons.prems(3) p n by (simp_all add: mem_slice_word)
  have swap: "st\<lparr>ts_fresh := f, ts_heap := k\<rparr> = st\<lparr>ts_heap := k, ts_fresh := f\<rparr>" for f k by simp
  have step: "deserialize_loop im buf (length (x # xs)) prev p chk (m, st) =
      deserialize_loop im buf (length xs) (Some (ts_fresh st)) (p + 8 + pad4 ?n) (chk - 4 - 4 - pad4 ?n) (m1, st1)"
    using reads lk c(1,3,5) small st1(1) slot
    by (simp add: Let_def option_simps CreateTagData_eq ts_put_def add.assoc d_def fun_upd_same swap del: fun_upd_apply)
  have fresh: "ts_fresh st \<notin> set us" using Cons.prems(6) by (force simp: built_def)
  have "tags_of (h(ts_fresh st \<mapsto> d)) us = tags_of h us" by (rule tags_of_cong) (use fresh in auto)
  then have tg: "tags_of (h(ts_fresh st \<mapsto> d)) (us @ [ts_fresh st]) = tags_of h us @ [x]" by (simp add: d_def x)
  have "\<exists>m' st' h' vs. deserialize_loop im buf (length xs) (Some (ts_fresh st)) (p + 8 + pad4 ?n) (chk - 4 - 4 - pad4 ?n) (m1, st1) =
      Some (0, m', st') \<and> built g h' ((us @ [ts_fresh st]) @ vs) m' st' \<and>
      tags_of h' ((us @ [ts_fresh st]) @ vs) = tags_of (h(ts_fresh st \<mapsto> d)) (us @ [ts_fresh st]) @ xs"
    using Cons.prems(2) p c total by (intro Cons.IH [OF t(5) _ _ _ _ st1(2)]) simp_all
  then obtain m' st' h' vs where "deserialize_loop im buf (length (x # xs)) prev p chk (m, st) = Some (0, m', st')"
    "built g h' ((us @ [ts_fresh st]) @ vs) m' st'" "tags_of h' ((us @ [ts_fresh st]) @ vs) = tags_of h us @ x # xs"
    unfolding step tg by auto
  then show ?case by (intro exI [of _ m'] exI [of _ st'] exI [of _ h'] exI [of _ "ts_fresh st # vs"]) simp
qed

section \<open>The round trip\<close>

lemma tags_size_bound: "8 * length xs \<le> tags_size xs"
  by (induction xs) simp_all

lemma tl_GetSerializedSize_ok:
  assumes "has_tags st m xs" and "4 + tags_size xs < 2 ^ 32"
  shows "tl_GetSerializedSize m st = Some (of_nat (4 + tags_size xs))"
proof -
  from serialized_size_loop_ok [OF assms(1), of 4] assms(2) obtain sz where
    sz: "serialized_size_loop m 4 st = Some sz" "unat sz = 4 + tags_size xs" by auto
  have "sz = of_nat (4 + tags_size xs)" unfolding sz(2) [symmetric] by simp
  with sz(1) show ?thesis by (simp add: tl_GetSerializedSize_def)
qed

lemma tl_Serialize_ok:
  assumes xs: "has_tags st m xs" and hash: "\<forall>x\<in>set xs. GetHash (fst x) im = Some (hash (fst x))"
    and bound: "4 + tags_size xs < 2 ^ 32" and room: "unat maxSize \<le> length out"
  shows "\<exists>out'. tl_Serialize im out maxSize m st = Some (if 4 + tags_size xs \<le> unat maxSize then 1 else 0, out') \<and>
    length out' = length out \<and>
    (4 + tags_size xs \<le> unat maxSize \<longrightarrow> tags_at hash out' 4 xs \<and> take 4 out' = host_bytes (of_nat (length xs)))"
proof (cases "4 \<le> maxSize")
  case False
  then have "unat maxSize < 4" "maxSize < 4" by (simp_all add: word_le_nat_alt word_less_nat_alt)
  then show ?thesis by (simp add: tl_Serialize_def)
next
  case True
  then have m: "4 \<le> unat maxSize" by (simp add: word_le_nat_alt)
  let ?o = "put out 0 (host_bytes 0)"
  have o: "mem_put out 0 (host_bytes 0) = Some ?o" "take 4 ?o = host_bytes (of_nat 0)" "length ?o = length out"
    using m room slice_put_same [of 4 "host_bytes 0" 0 out] by (simp_all add: mem_put_at)
  have "\<exists>out'. serialize_loop im maxSize m 4 4 ?o st = Some (if 4 + tags_size xs \<le> unat maxSize then 1 else 0, out') \<and>
     length out' = length ?o \<and> (\<forall>i k. 4 \<le> i \<longrightarrow> i + k \<le> 4 \<longrightarrow> take k (drop i out') = take k (drop i ?o)) \<and>
     (4 + tags_size xs \<le> unat maxSize \<longrightarrow> tags_at hash out' 4 xs \<and> take 4 out' = host_bytes (of_nat (0 + length xs)))"
    by (rule serialize_loop_ok [OF xs hash _ _ _ bound _ o(2) m]) (use room o(3) in simp_all)
  then show ?thesis using True o(1,3) by (auto simp: tl_Serialize_def Let_def)
qed

lemma tl_Deserialize_ok:
  assumes t: "tags_at hash buf 4 xs" "take 4 buf = host_bytes (of_nat (length xs))" "4 \<le> length buf"
    and lk: "\<forall>x\<in>set xs. LookupByHash (hash (fst x)) im = Some (fst x)" and bound: "8 + tags_size xs < 2 ^ 32"
    and ok: "store_ok R st"
  shows "\<exists>m' st'. tl_Deserialize im buf (of_nat (8 + tags_size xs)) None st = Some (1, m', st') \<and>
    store_ok (add_mset m' R) st' \<and> keeps_tags R st st' \<and> has_tags st' m' xs"
proof -
  let ?sz = "of_nat (8 + tags_size xs) :: u32"
  have sz: "unat ?sz = 8 + tags_size xs" using bound unfolding unsigned_of_nat of_nat_id by (intro take_bit_nat_eq_self) simp
  then have s1: "4 \<le> ?sz" by (simp add: word_le_nat_alt)
  then have s2: "unat (?sz - 4) = 4 + tags_size xs" using sz by (simp only: unat_sub) simp
  then have s3: "4 \<le> ?sz - 4" by (simp add: word_le_nat_alt)
  then have s4: "unat (?sz - 4 - 4) = tags_size xs" using s2 by (simp only: unat_sub) simp
  have n: "unat (of_nat (length xs) :: u32) = length xs" using tags_size_bound [of xs] bound
    unfolding unsigned_of_nat of_nat_id by (intro take_bit_nat_eq_self) simp
  have b: "built (ts_heap st) Map.empty [] None st" using ok by (auto simp: built_def store_ok_def)
  from deserialize_loop_ok [OF t(1) lk _ s4 _ b, of 4 None] bound obtain m' st' h us where
    d: "deserialize_loop im buf (length xs) None 4 (?sz - 4 - 4) (None, st) = Some (0, m', st')"
      "built (ts_heap st) h us m' st'" "tags_of h us = xs" by (auto simp del: of_nat_add)
  have w: "mem_slice buf 0 4 = Some (host_bytes (of_nat (length xs)))" using t(2,3) by (simp add: mem_slice_word)
  have "tl_Deserialize im buf ?sz None st = Some (1, m', st')"
    using s3 w n d(1) by (simp add: tl_Deserialize_def Let_def option_simps del: of_nat_add)
  have inv: "tags_inv (add_mset None R) (ts_heap st)" "leads (ts_heap st) None []" using ok by (simp_all add: store_ok_def)
  from push_seg [OF inv, of us h] d(2,3) have "store_ok (add_mset m' R) st'" "keeps_tags R st st'" "has_tags st' m' xs"
    by (auto simp: built_def store_ok_def dom_relink)
  with \<open>tl_Deserialize im buf ?sz None st = Some (1, m', st')\<close> show ?thesis by blast
qed

lemma registered_types:
  assumes "register_types H ns iid_empty = Some im" and "i < length ns"
  shows "\<exists>h. GetHash (uid_at i) im = Some h \<and> LookupByHash h im = Some (uid_at i)"
proof -
  have "registered H ns im"
    using register_types_run [OF registered_empty, of H ns] assms(1) by (auto split: if_splits)
  from registered_lookup [OF this assms(2)] show ?thesis
    by (simp add: GetHash_def LookupByHash_def GetUid_hash_def Let_def)
qed

text \<open>
  C20: After any program on tag lists, when the types of the tags of a list are registered:
  \<open>GetSerializedSize\<close> is the size that \<open>Serialize\<close> writes, \<open>Serialize\<close> returns 1 exactly if this
  fits into the size it is given, and never writes behind it; and \<open>Deserialize\<close> of what it wrote
  gives a list with the same tags, in the same order, that shares nothing with the others: any
  further program works on it as on a list of its own.
\<close>

theorem tag_list_serialization:
  assumes "tag_spec_steps ops Map.empty = Some (as, S)" and "S l = Some xs" and "S k = None" and "card (dom S) < max_lists"
    and "register_types H ns iid_empty = Some im" and "\<forall>x\<in>set xs. \<exists>i<length ns. fst x = uid_at i"
    and "8 + tags_size xs < 2 ^ 32" and "length out = unat maxSize"
  shows "\<exists>L st m out'. tag_execs ops (no_tags mem) = Some (as, L, st) \<and> L l = Some m \<and>
    tl_GetSerializedSize m st = Some (of_nat (4 + tags_size xs)) \<and>
    tl_Serialize im out maxSize m st = Some (if 4 + tags_size xs \<le> unat maxSize then 1 else 0, out') \<and>
    (4 + tags_size xs \<le> unat maxSize \<longrightarrow>
      (\<exists>m' st'. tl_Deserialize im out' (of_nat (8 + tags_size xs)) PacketTagList st = Some (1, m', st') \<and> has_tags st' m' xs \<and>
        (\<forall>ops' as' S'. tag_spec_steps ops' (S(k \<mapsto> xs)) = Some (as', S') \<longrightarrow>
           (\<exists>w. tag_execs ops' (L(k \<mapsto> m'), st') = Some (as', w)))))"
proof -
  from tag_run_ok [OF no_tags_ok assms(1)] obtain L st where
    run: "tag_execs ops (no_tags mem) = Some (as, L, st)" and w: "world_ok (L, st) S" by fastforce
  from world_list [OF w assms(2)] obtain m where m: "L l = Some m" "has_tags st m xs" by blast
  have ok: "store_ok (heads L) st" using w by (simp add: world_ok_def)
  define hash where "hash = (\<lambda>tid. the (GetHash tid im))"
  have h: "\<forall>x\<in>set xs. GetHash (fst x) im = Some (hash (fst x))" "\<forall>x\<in>set xs. LookupByHash (hash (fst x)) im = Some (fst x)"
    using assms(6) registered_types [OF assms(5)] unfolding hash_def by (metis option.sel)+
  have b: "4 + tags_size xs < 2 ^ 32" using assms(7) by simp
  from tl_Serialize_ok [OF m(2) h(1) b, of maxSize out] assms(8) obtain out' where
    s: "tl_Serialize im out maxSize m st = Some (if 4 + tags_size xs \<le> unat maxSize then 1 else 0, out')" "length out' = length out"
      "4 + tags_size xs \<le> unat maxSize \<longrightarrow> tags_at hash out' 4 xs \<and> take 4 out' = host_bytes (of_nat (length xs))" by auto
  have "\<exists>m' st'. tl_Deserialize im out' (of_nat (8 + tags_size xs)) PacketTagList st = Some (1, m', st') \<and> has_tags st' m' xs \<and>
        (\<forall>ops' as' S'. tag_spec_steps ops' (S(k \<mapsto> xs)) = Some (as', S') \<longrightarrow>
           (\<exists>w. tag_execs ops' (L(k \<mapsto> m'), st') = Some (as', w)))" if fits: "4 + tags_size xs \<le> unat maxSize"
  proof -
    have "4 \<le> length out'" using fits s(2) assms(8) by simp
    from tl_Deserialize_ok [OF _ _ this h(2) assms(7) ok] s(3) fits obtain m' st' where
      d: "tl_Deserialize im out' (of_nat (8 + tags_size xs)) None st = Some (1, m', st')"
        "store_ok (add_mset m' (heads L)) st'" "keeps_tags (heads L) st st'" "has_tags st' m' xs" by blast
    have "world_ok (L(k \<mapsto> m'), st') (S(k \<mapsto> xs))" by (rule world_insert [OF w assms(3,4) d(2-4)])
    then have "\<exists>w. tag_execs ops' (L(k \<mapsto> m'), st') = Some (as', w)"
      if "tag_spec_steps ops' (S(k \<mapsto> xs)) = Some (as', S')" for ops' as' S'
      using tag_run_ok that by blast
    with d(1,4) show ?thesis by (auto simp: PacketTagList_def)
  qed
  with run m(1) tl_GetSerializedSize_ok [OF m(2) b] s(1) show ?thesis by blast
qed

text \<open>Two tags of a copied list in 36 bytes.\<close>

definition two_tags :: "tag_op list" where
  "two_tags = [NewList 0, AddTag 0 \<lparr>tag_tid = 1, tag_size = 5, tag_fields = [FieldU8 7, FieldU32 8]\<rparr>, CopyList 1 0,
     AddTag 1 \<lparr>tag_tid = 2, tag_size = 4, tag_fields = [FieldU32 9]\<rparr>]"

theorem tag_list_serialization_witness:
  "\<exists>im L st m out' m' st'. register_types (\<lambda>_. 7) [''ns3::A'', ''ns3::B''] iid_empty = Some im \<and>
     tag_execs two_tags (no_tags (\<lambda>_ _. 0)) = Some ([Done, Done, Done, Done], L, st) \<and> L 1 = Some m \<and>
     tl_GetSerializedSize m st = Some 32 \<and> tl_Serialize im (replicate 36 0) 36 m st = Some (1, out') \<and>
     tl_Deserialize im out' 36 PacketTagList st = Some (1, m', st') \<and>
     has_tags st' m' [(2, [9, 0, 0, 0]), (1, [7, 8, 0, 0, 0])]"
proof -
  let ?ns = "[''ns3::A'', ''ns3::B'']" and ?xs = "[(2, [9, 0, 0, 0]), (1, [7, 8, 0, 0, 0])] :: tag_list"
  have "registrable (\<lambda>_. 7) ?ns" by (auto simp: registrable_def at_most_two_def)
  then obtain im where im: "register_types (\<lambda>_. 7) ?ns iid_empty = Some im"
    using register_types_run [OF registered_empty, of "\<lambda>_. 7" ?ns] by auto
  define S :: tag_spec where "S = [0 \<mapsto> [(1, [7, 8, 0, 0, 0])], 1 \<mapsto> ?xs]"
  have spec: "tag_spec_steps two_tags Map.empty = Some ([Done, Done, Done, Done], S)"
    by (simp add: two_tags_def S_def max_lists_def tag_ok_def tag_bytes_def bytes_le_eqs)
  have pre: "S 1 = Some ?xs" "S 2 = None" "card (dom S) < max_lists" "8 + tags_size ?xs < 2 ^ 32"
    "length (replicate 36 0 :: u8 list) = unat (36 :: u32)"
    by (simp_all add: S_def max_lists_def padded_def)
  have "\<exists>i<length ?ns. (2 :: u16) = uid_at i" by (rule exI [of _ 1]) (simp add: uid_at_def)
  moreover have "\<exists>i<length ?ns. (1 :: u16) = uid_at i" by (rule exI [of _ 0]) (simp add: uid_at_def)
  ultimately have reg: "\<forall>x\<in>set ?xs. \<exists>i<length ?ns. fst x = uid_at i" by simp
  from tag_list_serialization [OF spec pre(1,2,3) im reg pre(4,5), of "\<lambda>_ _. 0"] obtain L st m out' m' st' where
    "tag_execs two_tags (no_tags (\<lambda>_ _. 0)) = Some ([Done, Done, Done, Done], L, st)" "L 1 = Some m"
    "tl_GetSerializedSize m st = Some (of_nat (4 + tags_size ?xs))"
    "tl_Serialize im (replicate 36 0) 36 m st = Some (if 4 + tags_size ?xs \<le> unat (36 :: u32) then 1 else 0, out')"
    "tl_Deserialize im out' (of_nat (8 + tags_size ?xs)) PacketTagList st = Some (1, m', st')" "has_tags st' m' ?xs"
    by (fastforce simp: padded_def simp del: leads.simps)
  moreover have "tags_size ?xs = 28" by (simp add: padded_def)
  ultimately show ?thesis using im by (simp del: leads.simps tags_size.simps)
qed

end
