(* ===== verification/Rlc_Sequence_Number.thy ===== *)
theory Rlc_Sequence_Number
  imports Prelude "HOL-Library.Signed_Division"
begin

text \<open>
  \<open>ns3::SequenceNumber10\<close> (src/src/lte/model/lte-rlc-sequence-number.h): the sequence numbers
  of RLC, 10 bits in a \<open>uint16_t\<close>, compared relative to a modulus base, and the lemma that the
  comparisons are those of unbounded positions within a window of 1024.
\<close>

record sn10 =
  sn_value :: u16
  sn_modulusBase :: u16

section \<open>Operations\<close>

definition sn_of :: "u16 \<Rightarrow> sn10" where
  "sn_of v = \<lparr>sn_value = v mod 1024, sn_modulusBase = 0\<rparr>"

definition sn_assign :: "u16 \<Rightarrow> sn10 \<Rightarrow> sn10" where
  "sn_assign v a = a\<lparr>sn_value := v mod 1024\<rparr>"

definition sn_SetModulusBase :: "sn10 \<Rightarrow> sn10 \<Rightarrow> sn10" where
  "sn_SetModulusBase base a = a\<lparr>sn_modulusBase := sn_value base\<rparr>"

definition sn_SetModulusBase16 :: "u16 \<Rightarrow> sn10 \<Rightarrow> sn10" where
  "sn_SetModulusBase16 base a = a\<lparr>sn_modulusBase := base\<rparr>"

text \<open>
  \<open>operator++(int)\<close>: the old number and the new one. The operands of \<open>%\<close> are \<open>int\<close> in the other
  operators, so that the remainder is negative when they are and wraps to a \<open>uint16_t\<close>.
\<close>

definition sn_inc :: "sn10 \<Rightarrow> sn10 \<times> sn10" where
  "sn_inc a =
     (sn_SetModulusBase16 (sn_modulusBase a) (sn_of (sn_value a)),
      a\<lparr>sn_value := ucast ((ucast (sn_value a) + 1 :: u32) mod 1024)\<rparr>)"

definition sn_plus :: "sn10 \<Rightarrow> u16 \<Rightarrow> sn10" where
  "sn_plus a d =
     sn_SetModulusBase16 (sn_modulusBase a) (sn_of (word_of_int ((uint (sn_value a) + uint d) smod 1024)))"

definition sn_minus :: "sn10 \<Rightarrow> u16 \<Rightarrow> sn10" where
  "sn_minus a d =
     sn_SetModulusBase16 (sn_modulusBase a) (sn_of (word_of_int ((uint (sn_value a) - uint d) smod 1024)))"

definition sn_diff :: "sn10 \<Rightarrow> sn10 \<Rightarrow> u16" where
  "sn_diff a b = sn_value a - sn_value b"

definition sn_relative :: "sn10 \<Rightarrow> u16" where
  "sn_relative a = word_of_int ((uint (sn_value a) - uint (sn_modulusBase a)) smod 1024)"

definition sn_gt :: "sn10 \<Rightarrow> sn10 \<Rightarrow> bool option" where
  "sn_gt a b = do {
     ns_assert (sn_modulusBase a = sn_modulusBase b);
     Some (sn_relative a > sn_relative b) }"

definition sn_eq :: "sn10 \<Rightarrow> sn10 \<Rightarrow> bool" where
  "sn_eq a b \<longleftrightarrow> sn_value a = sn_value b"

definition sn_neq :: "sn10 \<Rightarrow> sn10 \<Rightarrow> bool" where
  "sn_neq a b \<longleftrightarrow> sn_value a \<noteq> sn_value b"

definition sn_le :: "sn10 \<Rightarrow> sn10 \<Rightarrow> bool option" where
  "sn_le a b = do { g \<leftarrow> sn_gt a b; Some (\<not> g) }"

definition sn_ge :: "sn10 \<Rightarrow> sn10 \<Rightarrow> bool option" where
  "sn_ge a b = do { g \<leftarrow> sn_gt a b; Some (g \<or> sn_eq a b) }"

definition sn_lt :: "sn10 \<Rightarrow> sn10 \<Rightarrow> bool option" where
  "sn_lt a b = do { g \<leftarrow> sn_gt a b; Some (\<not> g \<and> sn_value a \<noteq> sn_value b) }"

section \<open>Positions\<close>

text \<open>
  The number of a position in the unbounded sequence, and the base from which a comparison
  reads the positions from \<open>h - 512\<close> to \<open>h + 511\<close> in their order.
\<close>

definition pos_value :: "nat \<Rightarrow> u16" where
  "pos_value i = of_nat (i mod 1024)"

definition window_base :: "nat \<Rightarrow> u16" where
  "window_base h = pos_value (h + 512)"

definition sn_at :: "nat \<Rightarrow> u16 \<Rightarrow> sn10" where
  "sn_at i base = \<lparr>sn_value = pos_value i, sn_modulusBase = base\<rparr>"

lemma unat_pos_value [simp]: "unat (pos_value i) = i mod 1024"
proof -
  have "i mod 1024 < 2 ^ 16" by (rule less_trans [of _ 1024]) simp_all
  then show ?thesis by (simp add: pos_value_def unsigned_of_nat take_bit_nat_eq_self)
qed

lemma uint_pos_value: "uint (pos_value i) = int (i mod 1024)"
  by (metis unat_pos_value uint_nat)

lemma pos_value_eq_iff: "pos_value i = pos_value j \<longleftrightarrow> i mod 1024 = j mod 1024"
  by (simp add: word_unat_eq_iff)

lemma pos_value_mod [simp]: "pos_value i mod 1024 = pos_value i"
  by (simp add: word_unat_eq_iff unat_mod)

lemma pos_value_cong: "i mod 1024 = j mod 1024 \<Longrightarrow> pos_value i = pos_value j"
  by (simp add: pos_value_eq_iff)

lemma pos_value_inj:
  assumes "pos_value i = pos_value j" and "i < j + 1024" and "j < i + 1024"
  shows "i = j"
proof -
  have "i mod 1024 = j mod 1024" using assms(1) by (simp add: pos_value_eq_iff)
  then obtain p q where "i + 1024 * p = j + 1024 * q" by (auto simp: nat_mod_eq_iff)
  with assms(2,3) show ?thesis by (cases p q rule: linorder_cases) simp_all
qed

lemma smod_small: "\<bar>k\<bar> < 1024 \<Longrightarrow> k smod 1024 = k" for k :: int
  by (simp add: signed_modulo_int_def signed_divide_int_def sgn_mult_abs)

lemma smod_nonneg: "0 \<le> k \<Longrightarrow> k smod 1024 = k mod 1024" for k :: int
  by (cases "k = 0") (simp_all add: signed_modulo_int_def signed_divide_int_def minus_div_mult_eq_mod)

lemma uint_u16_of_int: "uint (word_of_int k :: u16) = k mod 65536"
  by (simp add: unsigned_of_int take_bit_eq_mod)

lemma sn_at_sel [simp]: "sn_value (sn_at i b) = pos_value i" "sn_modulusBase (sn_at i b) = b"
  by (simp_all add: sn_at_def)

lemma sn_at_base [simp]:
  "sn_SetModulusBase (sn_at j c) (sn_at i b) = sn_at i (pos_value j)"
  "sn_SetModulusBase16 d (sn_at i b) = sn_at i d"
  by (simp_all add: sn_SetModulusBase_def sn_SetModulusBase16_def sn_at_def)

lemma sn_assign_at: "v mod 1024 = pos_value j \<Longrightarrow> sn_assign v (sn_at i b) = sn_at j b"
  by (simp add: sn_assign_def sn_at_def)

lemma sn_of_pos [simp]: "sn_of (pos_value i) = sn_at i 0"
  by (simp add: sn_of_def sn_at_def)

lemma sn_inc_at [simp]: "sn_inc (sn_at i b) = (sn_at i b, sn_at (Suc i) b)"
proof -
  have "i mod 1024 < 1024" by simp
  then have "unat (ucast (pos_value i) + 1 :: u32) = Suc (i mod 1024)"
    by (subst unat_add_no_wrap) (simp_all add: unat_ucast_up)
  then have "ucast ((ucast (pos_value i) + 1 :: u32) mod 1024) = pos_value (Suc i)"
    by (simp add: word_unat_eq_iff unat_mod unat_ucast_mod mod_Suc_eq)
  then show ?thesis by (simp add: sn_inc_def sn_at_def sn_of_def sn_SetModulusBase16_def)
qed

lemma sn_plus_at [simp]:
  "sn_plus (sn_at i b) d = sn_at (i + unat d) b"
proof -
  have "(uint (pos_value i) + uint d) smod 1024 = (int (i mod 1024) + int (unat d)) mod 1024"
    by (simp only: uint_pos_value uint_nat) (simp add: smod_nonneg)
  also have "\<dots> = int ((i mod 1024 + unat d) mod 1024)" by (simp add: zmod_int)
  also have "(i mod 1024 + unat d) mod 1024 = (i + unat d) mod 1024" by (rule mod_add_left_eq)
  finally have "word_of_int ((uint (pos_value i) + uint d) smod 1024) = pos_value (i + unat d)"
    by (simp only: pos_value_def of_int_of_nat_eq)
  then show ?thesis by (simp only: sn_plus_def sn_at_sel sn_of_pos sn_at_base)
qed

lemma sn_minus_512_at [simp]: "sn_minus (sn_at i b) 512 = sn_at (i + 512) b"
proof -
  have u: "uint (512 :: u16) = 512" by simp
  have "i mod 1024 < 1024" by simp
  then have e: "(uint (pos_value i) - 512) smod 1024 = int (i mod 1024) - 512"
    by (subst smod_small) (auto simp: uint_pos_value)
  have "uint (word_of_int (int (i mod 1024) - 512) mod 1024 :: u16) = uint (pos_value (i + 512))"
  proof -
    have "uint (word_of_int (int (i mod 1024) - 512) mod 1024 :: u16) =
        (int (i mod 1024) - 512) mod 65536 mod 1024"
      by (simp only: uint_mod uint_u16_of_int) simp
    also have "\<dots> = (int (i mod 1024) - 512) mod 1024" by (rule mod_mod_cancel) simp
    also have "\<dots> = (int (i mod 1024) - 512 + 1024) mod 1024" by (simp only: mod_add_self2)
    also have "\<dots> = (int (i mod 1024) + 512) mod 1024" by (simp add: add.commute)
    also have "\<dots> = int ((i + 512) mod 1024)" by (simp add: zmod_int mod_add_left_eq)
    finally show ?thesis by (simp only: uint_pos_value)
  qed
  then have "word_of_int (int (i mod 1024) - 512) mod 1024 = pos_value (i + 512)"
    by (simp only: word_uint_eq_iff)
  then have "sn_of (word_of_int (int (i mod 1024) - 512)) = sn_at (i + 512) 0"
    by (simp only: sn_of_def) (simp add: sn_at_def)
  then show ?thesis by (simp only: sn_minus_def sn_at_sel u e sn_at_base)
qed

lemma unat_of_nat_small: "k < 2 ^ 16 \<Longrightarrow> unat (of_nat k :: u16) = k"
  by (simp add: unsigned_of_nat take_bit_nat_eq_self)

section \<open>Comparison\<close>

text \<open>Both numbers lie in the window of 1024 positions that starts 512 below \<open>h\<close>.\<close>

definition in_reach :: "nat \<Rightarrow> nat \<Rightarrow> bool" where
  "in_reach h i \<longleftrightarrow> h \<le> i + 512 \<and> i < h + 512"

lemma relative_at:
  assumes "in_reach h i"
  shows "unat (sn_relative (sn_at i (window_base h))) =
    (if (h + 512) mod 1024 + (i + 512 - h) < 1024 then i + 512 - h else 64512 + (i + 512 - h))"
proof -
  define B where "B = (h + 512) mod 1024"
  define r where "r = i + 512 - h"
  have r: "r < 1024" and i: "i + 512 = h + r" using assms by (auto simp: r_def in_reach_def)
  have B: "B < 1024" by (simp add: B_def)
  have x: "i mod 1024 = (B + r) mod 1024"
  proof -
    have "i mod 1024 = (i + 1024) mod 1024" by simp
    also have "i + 1024 = (h + 512) + r" using i by simp
    finally show ?thesis by (simp add: B_def mod_add_left_eq)
  qed
  have b: "\<bar>int (i mod 1024) - int B\<bar> < 1024" using B by simp
  have rel: "sn_relative (sn_at i (window_base h)) = word_of_int (int (i mod 1024) - int B)"
    using smod_small [OF b] by (simp add: sn_relative_def window_base_def uint_pos_value B_def)
  show ?thesis
  proof (cases "B + r < 1024")
    case True
    then have "int (i mod 1024) - int B = int r" using x by simp
    moreover have "r < 2 ^ 16" using r by simp
    ultimately show ?thesis using True rel
      by (simp add: unsigned_of_nat take_bit_nat_eq_self flip: B_def r_def)
  next
    case False
    then have "(B + r) mod 1024 = B + r - 1024" using B r by (simp add: mod_if)
    then have "int (i mod 1024) - int B = int r - 1024" using x False by simp
    moreover have "(word_of_int (int r - 1024) :: u16) = of_nat (64512 + r)"
    proof -
      have "(word_of_int (int r - 1024) :: u16) = word_of_int (int (64512 + r))"
        unfolding word_uint_eq_iff uint_u16_of_int using mod_add_self2 [of "int r - 1024" 65536] by simp
      then show ?thesis by (simp only: of_int_of_nat_eq)
    qed
    moreover have "64512 + r < 2 ^ 16" using r by simp
    then have "unat (of_nat (64512 + r) :: u16) = 64512 + r"
      by (rule unat_of_nat_small)
    ultimately have "unat (sn_relative (sn_at i (window_base h))) = 64512 + r" unfolding rel by (simp only:)
    then show ?thesis using False by (simp flip: B_def r_def)
  qed
qed

lemma sn_gt_at:
  assumes "in_reach h i" "in_reach h j"
  shows "sn_gt (sn_at i (window_base h)) (sn_at j (window_base h)) = Some (i > j)"
proof -
  have "(sn_relative (sn_at i (window_base h)) > sn_relative (sn_at j (window_base h))) \<longleftrightarrow> i > j"
    unfolding word_less_nat_alt relative_at [OF assms(1)] relative_at [OF assms(2)]
    using assms by (auto simp: in_reach_def)
  then show ?thesis by (simp add: sn_gt_def)
qed

lemma sn_eq_at:
  assumes "in_reach h i" "in_reach h j"
  shows "sn_eq (sn_at i b) (sn_at j c) \<longleftrightarrow> i = j"
  using assms pos_value_inj [of i j] by (auto simp: sn_eq_def in_reach_def)

lemma sn_neq_at:
  assumes "in_reach h i" "in_reach h j"
  shows "sn_neq (sn_at i b) (sn_at j c) \<longleftrightarrow> i \<noteq> j"
  using assms pos_value_inj [of i j] by (auto simp: sn_neq_def in_reach_def)

lemma sn_compare_at:
  assumes "in_reach h i" "in_reach h j"
  shows "sn_le (sn_at i (window_base h)) (sn_at j (window_base h)) = Some (i \<le> j)"
    and "sn_ge (sn_at i (window_base h)) (sn_at j (window_base h)) = Some (i \<ge> j)"
    and "sn_lt (sn_at i (window_base h)) (sn_at j (window_base h)) = Some (i < j)"
proof -
  have "pos_value i = pos_value j \<longleftrightarrow> i = j" using sn_eq_at [OF assms] by (simp add: sn_eq_def)
  with sn_gt_at [OF assms] sn_eq_at [OF assms]
  show "sn_le (sn_at i (window_base h)) (sn_at j (window_base h)) = Some (i \<le> j)"
    "sn_ge (sn_at i (window_base h)) (sn_at j (window_base h)) = Some (i \<ge> j)"
    "sn_lt (sn_at i (window_base h)) (sn_at j (window_base h)) = Some (i < j)"
    by (auto simp: sn_le_def sn_ge_def sn_lt_def)
qed

end
