(* ===== verification/Rlc_Header.thy ===== *)
theory Rlc_Header
  imports Rlc_Sequence_Number
begin

unbundle bit_operations_syntax

text \<open>
  \<open>ns3::LteRlcHeader\<close> (src/src/lte/model/lte-rlc-header.h, lte-rlc-header.cc): the header of
  UM and AM data, with its extension bits and length indicators, its serialization and
  deserialization, and the round trip. A buffer read or written from its beginning is the list
  of the bytes; integer promotions go to 32 bits.
\<close>

record rlc_header =
  rh_headerLength :: u16
  rh_framingInfo :: u8
  rh_sequenceNumber :: sn10
  rh_extensionBits :: "u8 list"
  rh_lengthIndicators :: "u16 list"

definition DATA_FIELD_FOLLOWS :: u8 where "DATA_FIELD_FOLLOWS = 0"
definition E_LI_FIELDS_FOLLOWS :: u8 where "E_LI_FIELDS_FOLLOWS = 1"
definition FIRST_BYTE :: u8 where "FIRST_BYTE = 0x00"
definition NO_FIRST_BYTE :: u8 where "NO_FIRST_BYTE = 0x02"
definition LAST_BYTE :: u8 where "LAST_BYTE = 0x00"
definition NO_LAST_BYTE :: u8 where "NO_LAST_BYTE = 0x01"

section \<open>Construction\<close>

definition rlc_header0 :: rlc_header where
  "rlc_header0 = \<lparr>rh_headerLength = 0, rh_framingInfo = 0xff, rh_sequenceNumber = sn_of 0xfffa,
     rh_extensionBits = [], rh_lengthIndicators = []\<rparr>"

definition rlc_SetFramingInfo :: "u8 \<Rightarrow> rlc_header \<Rightarrow> rlc_header" where
  "rlc_SetFramingInfo fi h = h\<lparr>rh_framingInfo := fi AND 0x03\<rparr>"

definition rlc_SetSequenceNumber :: "sn10 \<Rightarrow> rlc_header \<Rightarrow> rlc_header" where
  "rlc_SetSequenceNumber sn h = h\<lparr>rh_sequenceNumber := sn\<rparr>"

definition rlc_PushExtensionBit :: "u8 \<Rightarrow> rlc_header \<Rightarrow> rlc_header" where
  "rlc_PushExtensionBit e h =
     (let h1 = h\<lparr>rh_extensionBits := rh_extensionBits h @ [e]\<rparr> in
      if length (rh_extensionBits h1) = 1 then h1\<lparr>rh_headerLength := 2\<rparr>
      else if length (rh_extensionBits h1) mod 2 \<noteq> 0 then h1\<lparr>rh_headerLength := rh_headerLength h + 1\<rparr>
      else h1\<lparr>rh_headerLength := rh_headerLength h + 2\<rparr>)"

definition rlc_PushLengthIndicator :: "u16 \<Rightarrow> rlc_header \<Rightarrow> rlc_header" where
  "rlc_PushLengthIndicator li h = h\<lparr>rh_lengthIndicators := rh_lengthIndicators h @ [li]\<rparr>"

text \<open>\<open>front\<close> of an empty list is undefined.\<close>

definition rlc_PopExtensionBit :: "rlc_header \<Rightarrow> (u8 \<times> rlc_header) option" where
  "rlc_PopExtensionBit h =
     (case rh_extensionBits h of
        [] \<Rightarrow> None
      | e # es \<Rightarrow> Some (e, h\<lparr>rh_extensionBits := es\<rparr>))"

definition rlc_PopLengthIndicator :: "rlc_header \<Rightarrow> (u16 \<times> rlc_header) option" where
  "rlc_PopLengthIndicator h =
     (case rh_lengthIndicators h of
        [] \<Rightarrow> None
      | l # ls \<Rightarrow> Some (l, h\<lparr>rh_lengthIndicators := ls\<rparr>))"

definition rlc_GetSerializedSize :: "rlc_header \<Rightarrow> u32" where
  "rlc_GetSerializedSize h = ucast (rh_headerLength h)"

section \<open>Serialization\<close>

definition fixed_byte :: "u8 \<Rightarrow> u8 \<Rightarrow> u16 \<Rightarrow> u8" where
  "fixed_byte fi e sn =
     ucast ((push_bit 3 (ucast fi :: u32) AND 0x18) OR (push_bit 2 (ucast e) AND 0x04) OR
       (drop_bit 8 (ucast sn) AND 0x0003))"

definition odd_byte1 :: "u8 \<Rightarrow> u16 \<Rightarrow> u8" where
  "odd_byte1 oddE oddLi =
     ucast ((push_bit 7 (ucast oddE :: u32) AND 0x80) OR (drop_bit 4 (ucast oddLi) AND 0x007F))"

definition middle_byte :: "u16 \<Rightarrow> u8 \<Rightarrow> u16 \<Rightarrow> u8" where
  "middle_byte oddLi evenE evenLi =
     ucast ((push_bit 4 (ucast oddLi :: u32) AND 0x00F0) OR (push_bit 3 (ucast evenE) AND 0x08) OR
       (drop_bit 8 (ucast evenLi) AND 0x0007))"

definition last_byte :: "u16 \<Rightarrow> u8" where
  "last_byte oddLi = ucast (push_bit 4 (ucast oddLi :: u32) AND 0x00F0)"

definition low_byte :: "u16 \<Rightarrow> u8" where
  "low_byte v = ucast ((ucast v :: u32) AND 0x00FF)"

fun serialize_fields :: "u8 list \<Rightarrow> u16 list \<Rightarrow> u8 list" where
  "serialize_fields (oddE # evenE # es) (oddLi # evenLi # ls) =
     odd_byte1 oddE oddLi #
     middle_byte oddLi evenE evenLi # low_byte evenLi # serialize_fields es ls"
| "serialize_fields (oddE # es) (oddLi # ls) =
     [odd_byte1 oddE oddLi, last_byte oddLi]"
| "serialize_fields _ _ = []"

definition rlc_Serialize :: "rlc_header \<Rightarrow> u8 list option" where
  "rlc_Serialize h =
     (case rh_extensionBits h of
        [] \<Rightarrow> None
      | e # es \<Rightarrow>
          Some (fixed_byte (rh_framingInfo h) e (sn_value (rh_sequenceNumber h)) #
            low_byte (sn_value (rh_sequenceNumber h)) #
            serialize_fields es (rh_lengthIndicators h)))"

definition read_fi :: "u8 \<Rightarrow> u8" where "read_fi b1 = drop_bit 3 (b1 AND 0x18)"
definition read_e :: "u8 \<Rightarrow> u8" where "read_e b1 = drop_bit 2 (b1 AND 0x04)"
definition read_sn :: "u8 \<Rightarrow> u8 \<Rightarrow> u16" where
  "read_sn b1 b2 = ucast (push_bit 8 (ucast b1 AND 0x03 :: u32) OR ucast b2)"
definition read_oddE :: "u8 \<Rightarrow> u8" where "read_oddE b1 = drop_bit 7 (b1 AND 0x80)"
definition read_oddLi :: "u8 \<Rightarrow> u8 \<Rightarrow> u16" where
  "read_oddLi b1 b2 = ucast (push_bit 4 (ucast b1 AND 0x7F :: u32) OR drop_bit 4 (ucast b2 AND 0xF0))"
definition read_evenE :: "u8 \<Rightarrow> u8" where "read_evenE b2 = drop_bit 3 (b2 AND 0x08)"
definition read_evenLi :: "u8 \<Rightarrow> u8 \<Rightarrow> u16" where
  "read_evenLi b2 b3 = ucast (push_bit 8 (ucast b2 AND 0x07 :: u32) OR (ucast b3 AND 0xFF))"

text \<open>The loop of \<open>Deserialize\<close> over the bytes behind the fixed part; reading past the end fails.\<close>

fun deserialize_fields :: "u8 list \<Rightarrow> rlc_header \<Rightarrow> rlc_header option" where
  "deserialize_fields (b1 # b2 # bs) h =
     (let oddE = read_oddE b1;
          oddLi = read_oddLi b1 b2;
          h1 = h\<lparr>rh_extensionBits := rh_extensionBits h @ [oddE],
                 rh_lengthIndicators := rh_lengthIndicators h @ [oddLi],
                 rh_headerLength := rh_headerLength h + 2\<rparr> in
      if oddE = E_LI_FIELDS_FOLLOWS then
        (case bs of
           [] \<Rightarrow> None
         | b3 # bs' \<Rightarrow>
             let evenE = read_evenE b2;
                 evenLi = read_evenLi b2 b3;
                 h2 = h1\<lparr>rh_extensionBits := rh_extensionBits h1 @ [evenE],
                         rh_lengthIndicators := rh_lengthIndicators h1 @ [evenLi],
                         rh_headerLength := rh_headerLength h1 + 1\<rparr> in
             if evenE = E_LI_FIELDS_FOLLOWS then deserialize_fields bs' h2 else Some h2)
      else Some h1)"
| "deserialize_fields _ h = None"

definition rlc_Deserialize :: "u8 list \<Rightarrow> rlc_header \<Rightarrow> (rlc_header \<times> u32) option" where
  "rlc_Deserialize bytes h =
     (case bytes of
        b1 # b2 # bs \<Rightarrow>
          let e = read_e b1;
              h1 = h\<lparr>rh_headerLength := 2, rh_framingInfo := read_fi b1,
                     rh_sequenceNumber := sn_assign (read_sn b1 b2) (rh_sequenceNumber h),
                     rh_extensionBits := rh_extensionBits h @ [e]\<rparr> in
          if e = DATA_FIELD_FOLLOWS then Some (h1, rlc_GetSerializedSize h1)
          else do {
            h2 \<leftarrow> (if e = E_LI_FIELDS_FOLLOWS then deserialize_fields bs h1 else Some h1);
            Some (h2, rlc_GetSerializedSize h2) }
      | _ \<Rightarrow> None)"

section \<open>Packets\<close>

text \<open>
  \<open>Packet::AddHeader\<close> reserves \<open>GetSerializedSize\<close> bytes and lets the header write them. A header
  that writes another number leaves junk or overwrites the data: \<open>None\<close>.
\<close>

definition rlc_AddHeader :: "rlc_header \<Rightarrow> u8 list \<Rightarrow> u8 list option" where
  "rlc_AddHeader h bytes = do {
     bs \<leftarrow> rlc_Serialize h;
     ns_assert (length bs = unat (rlc_GetSerializedSize h));
     Some (bs @ bytes) }"

definition rlc_PeekHeader :: "u8 list \<Rightarrow> rlc_header \<Rightarrow> rlc_header option" where
  "rlc_PeekHeader bytes h = map_option fst (rlc_Deserialize bytes h)"

definition rlc_RemoveHeader :: "u8 list \<Rightarrow> rlc_header \<Rightarrow> (u8 list \<times> rlc_header) option" where
  "rlc_RemoveHeader bytes h = do {
     (h', deserialized) \<leftarrow> rlc_Deserialize bytes h;
     Some (drop (unat deserialized) bytes, h') }"

section \<open>The round trip\<close>

text \<open>A header with \<open>n\<close> length indicators, all of 11 bits, and the bits that announce them.\<close>

definition header_length :: "nat \<Rightarrow> nat" where
  "header_length n = 2 + (3 * n + 1) div 2"

definition header_bits :: "nat \<Rightarrow> u8 list" where
  "header_bits n = replicate n E_LI_FIELDS_FOLLOWS @ [DATA_FIELD_FOLLOWS]"

definition header_ok :: "rlc_header \<Rightarrow> bool" where
  "header_ok h \<longleftrightarrow>
     (let n = length (rh_lengthIndicators h) in
      rh_extensionBits h = header_bits n \<and> rh_headerLength h = of_nat (header_length n) \<and>
      (\<forall>l\<in>set (rh_lengthIndicators h). l < 2048) \<and> rh_framingInfo h < 4 \<and>
      sn_value (rh_sequenceNumber h) < 1024)"

text \<open>Bytes and half words bit by bit.\<close>

lemma u8_eqI:
  fixes x y :: u8
  assumes "list_all (\<lambda>k. bit x k = bit y k) [0, 1, 2, 3, 4, 5, 6, 7]"
  shows "x = y"
proof (rule bit_word_eqI)
  fix n :: nat
  assume "n < LENGTH(8)"
  then have "n \<in> set [0..<8]" by simp
  moreover have "list_all (\<lambda>k. bit x k = bit y k) [0..<8]" using assms by (simp add: upt_rec numeral_eq_Suc)
  ultimately show "bit x n = bit y n" by (simp only: list_all_iff)
qed

lemma u16_eqI:
  fixes x y :: u16
  assumes "list_all (\<lambda>k. bit x k = bit y k) [0, 1, 2, 3, 4, 5, 6, 7, 8, 9, 10, 11, 12, 13, 14, 15]"
  shows "x = y"
proof (rule bit_word_eqI)
  fix n :: nat
  assume "n < LENGTH(16)"
  then have "n \<in> set [0..<16]" by simp
  moreover have "list_all (\<lambda>k. bit x k = bit y k) [0..<16]" using assms by (simp add: upt_rec numeral_eq_Suc)
  ultimately show "bit x n = bit y n" by (simp only: list_all_iff)
qed

lemma bit_above:
  fixes x :: "'a::len word"
  assumes "unat x < 2 ^ k" and "k \<le> n"
  shows "\<not> bit x n"
proof -
  have "take_bit k x = x"
    using assms(1) by (simp add: word_unat_eq_iff unsigned_take_bit_eq take_bit_nat_eq_self)
  then show ?thesis using assms(2) by (metis bit_take_bit_iff not_le)
qed

lemma below_bits:
  "li < (2048 :: u16) \<Longrightarrow> 11 \<le> n \<Longrightarrow> \<not> bit li n" "e < (2 :: u8) \<Longrightarrow> 1 \<le> n \<Longrightarrow> \<not> bit e n"
  "f < (4 :: u8) \<Longrightarrow> 2 \<le> n \<Longrightarrow> \<not> bit f n" "sn < (1024 :: u16) \<Longrightarrow> 10 \<le> n \<Longrightarrow> \<not> bit sn n"
  using bit_above [of li 11 n] bit_above [of e 1 n] bit_above [of f 2 n] bit_above [of sn 10 n]
  by (simp_all add: word_less_nat_alt)

lemma fixed_field:
  assumes "fi < 4" "e < 2" "sn < 1024"
  shows "read_fi (fixed_byte fi e sn) = fi" and "read_e (fixed_byte fi e sn) = e"
    and "read_sn (fixed_byte fi e sn) (low_byte sn) = sn"
proof -
  note below = below_bits(2) [OF assms(2)] below_bits(3) [OF assms(1)] below_bits(4) [OF assms(3)]
  note bits = fixed_byte_def low_byte_def bit_simps below
  show "read_fi (fixed_byte fi e sn) = fi" by (rule u8_eqI) (simp add: bits read_fi_def)
  show "read_e (fixed_byte fi e sn) = e" by (rule u8_eqI) (simp add: bits read_e_def)
  show "read_sn (fixed_byte fi e sn) (low_byte sn) = sn" by (rule u16_eqI) (simp add: bits read_sn_def)
qed

lemma li_fields:
  assumes "li < 2048" "e < 2"
  shows "read_oddE (odd_byte1 e li) = e" and "read_oddLi (odd_byte1 e li) (last_byte li) = li"
    and "read_oddLi (odd_byte1 e li) (middle_byte li e' li') = li"
    and "read_evenE (middle_byte li' e li) = e" and "read_evenLi (middle_byte li' e li) (low_byte li) = li"
proof -
  note bits = odd_byte1_def last_byte_def middle_byte_def low_byte_def bit_simps
    below_bits(1) [OF assms(1)] below_bits(2) [OF assms(2)]
  show "read_oddE (odd_byte1 e li) = e" by (rule u8_eqI) (simp add: bits read_oddE_def)
  show "read_oddLi (odd_byte1 e li) (last_byte li) = li" by (rule u16_eqI) (simp add: bits read_oddLi_def)
  show "read_oddLi (odd_byte1 e li) (middle_byte li e' li') = li"
    by (rule u16_eqI) (simp add: bits read_oddLi_def)
  show "read_evenE (middle_byte li' e li) = e" by (rule u8_eqI) (simp add: bits read_evenE_def)
  show "read_evenLi (middle_byte li' e li) (low_byte li) = li"
    by (rule u16_eqI) (simp add: bits read_evenLi_def)
qed

lemma header_length_simps [simp]:
  "header_length 0 = 2" "header_length (Suc 0) = 4" "header_length (Suc (Suc n)) = header_length n + 3"
  by (simp_all add: header_length_def)

lemma header_length_Suc: "header_length (Suc n) = header_length n + (if n mod 2 = 0 then 2 else 1)"
  by (simp add: header_length_def) presburger

lemma length_serialize_fields:
  assumes "length es = length ls"
  shows "length (serialize_fields es ls) + 2 = header_length (length ls)"
  using assms by (induction es ls rule: serialize_fields.induct) (auto simp: length_Suc_conv)

text \<open>Reading back the bits that follow a set extension bit, and the indicators.\<close>

lemma deserialize_serialize_fields:
  assumes "\<forall>l\<in>set ls. l < 2048" and "ls \<noteq> []"
  shows "deserialize_fields (serialize_fields (tl (header_bits (length ls))) ls @ rest) h =
    Some (h\<lparr>rh_extensionBits := rh_extensionBits h @ tl (header_bits (length ls)),
      rh_lengthIndicators := rh_lengthIndicators h @ ls,
      rh_headerLength := rh_headerLength h + of_nat (header_length (length ls)) - 2\<rparr>)"
  using assms
proof (induction "length ls" arbitrary: ls h rule: less_induct)
  case less
  then obtain a ls1 where ls: "ls = a # ls1" by (cases ls) auto
  show ?case
  proof (cases ls1)
    case Nil
    with less.prems show ?thesis
      by (simp add: ls header_bits_def li_fields DATA_FIELD_FOLLOWS_def E_LI_FIELDS_FOLLOWS_def Let_def)
  next
    case (Cons b ls2)
    show ?thesis
    proof (cases ls2)
      case Nil
      with less.prems Cons show ?thesis
        by (simp add: ls header_bits_def DATA_FIELD_FOLLOWS_def E_LI_FIELDS_FOLLOWS_def Let_def
            li_fields)
    next
      case (Cons c ls3)
      have IH: "deserialize_fields (serialize_fields (tl (header_bits (length ls2))) ls2 @ rest) h' =
        Some (h'\<lparr>rh_extensionBits := rh_extensionBits h' @ tl (header_bits (length ls2)),
          rh_lengthIndicators := rh_lengthIndicators h' @ ls2,
          rh_headerLength := rh_headerLength h' + of_nat (header_length (length ls2)) - 2\<rparr>)" for h'
        by (rule less.hyps) (use less.prems ls \<open>ls1 = b # ls2\<close> Cons in auto)
      have tl: "tl (header_bits (length ls)) = E_LI_FIELDS_FOLLOWS # E_LI_FIELDS_FOLLOWS # tl (header_bits (length ls2))"
        using ls \<open>ls1 = b # ls2\<close> Cons by (simp add: header_bits_def)
      from less.prems ls \<open>ls1 = b # ls2\<close> show ?thesis unfolding tl
        by (simp add: IH E_LI_FIELDS_FOLLOWS_def Let_def li_fields add_ac)
    qed
  qed
qed

text \<open>What \<open>Deserialize\<close> returns for a header: its fields, with the modulus base unset.\<close>

definition received :: "rlc_header \<Rightarrow> rlc_header" where
  "received h = h\<lparr>rh_sequenceNumber := sn_of (sn_value (rh_sequenceNumber h))\<rparr>"

lemma header_size:
  assumes "header_ok h" and "header_length (length (rh_lengthIndicators h)) < 2 ^ 16"
  shows "unat (rlc_GetSerializedSize h) = header_length (length (rh_lengthIndicators h))"
  using assms by (simp add: header_ok_def Let_def rlc_GetSerializedSize_def unat_ucast_up unat_of_nat_small)

lemma serialize_deserialize:
  assumes "header_ok h"
  shows "\<exists>bs. rlc_Serialize h = Some bs \<and> length bs = header_length (length (rh_lengthIndicators h)) \<and>
    rlc_Deserialize (bs @ bytes) rlc_header0 = Some (received h, rlc_GetSerializedSize h)"
proof -
  let ?ls = "rh_lengthIndicators h" and ?sn = "sn_value (rh_sequenceNumber h)" and ?fi = "rh_framingInfo h"
  define e :: u8 where "e = (if ?ls = [] then DATA_FIELD_FOLLOWS else E_LI_FIELDS_FOLLOWS)"
  have bits: "rh_extensionBits h = e # tl (header_bits (length ?ls))"
    using assms by (cases ?ls) (simp_all add: header_ok_def e_def header_bits_def)
  have e: "e < 2" by (simp add: e_def DATA_FIELD_FOLLOWS_def E_LI_FIELDS_FOLLOWS_def)
  have h: "\<forall>l\<in>set ?ls. l < 2048" "?fi < 4" "?sn < 1024" "rh_headerLength h = of_nat (header_length (length ?ls))"
    using assms by (auto simp: header_ok_def Let_def)
  note fields = fixed_field [OF h(2) e h(3)]
  let ?rest = "serialize_fields (tl (header_bits (length ?ls))) ?ls"
  have s: "rlc_Serialize h = Some (fixed_byte ?fi e ?sn # low_byte ?sn # ?rest)"
    by (simp add: rlc_Serialize_def bits)
  have l: "length (fixed_byte ?fi e ?sn # low_byte ?sn # ?rest) = header_length (length ?ls)"
    using length_serialize_fields [of "tl (header_bits (length ?ls))" ?ls] by (simp add: header_bits_def)
  have sn: "sn_assign ?sn (sn_of 0xfffa) = sn_of ?sn" by (simp add: sn_assign_def sn_of_def)
  have z: "rh_sequenceNumber rlc_header0 = sn_of 0xfffa" "rh_extensionBits rlc_header0 = []"
    by (simp_all add: rlc_header0_def)
  let ?h1 = "rlc_header0\<lparr>rh_headerLength := 2, rh_framingInfo := ?fi, rh_sequenceNumber := sn_of ?sn,
    rh_extensionBits := [e]\<rparr>"
  have d: "rlc_Deserialize (fixed_byte ?fi e ?sn # low_byte ?sn # bs) rlc_header0 =
      (if e = DATA_FIELD_FOLLOWS then Some (?h1, rlc_GetSerializedSize ?h1)
       else do {
         h2 \<leftarrow> (if e = E_LI_FIELDS_FOLLOWS then deserialize_fields bs ?h1 else Some ?h1);
         Some (h2, rlc_GetSerializedSize h2) })" for bs
    by (simp only: rlc_Deserialize_def list.case Let_def fields z sn append_Nil)
  have "rlc_Deserialize (fixed_byte ?fi e ?sn # low_byte ?sn # ?rest @ bytes) rlc_header0 =
      Some (received h, rlc_GetSerializedSize h)"
  proof (cases "?ls = []")
    case True
    then have "e = DATA_FIELD_FOLLOWS" by (simp add: e_def)
    moreover have "?h1 = received h"
      using bits h(4) True by (simp add: rlc_header0_def received_def header_bits_def)
    moreover have "rlc_GetSerializedSize (received h) = rlc_GetSerializedSize h"
      by (simp add: received_def rlc_GetSerializedSize_def)
    ultimately show ?thesis unfolding d by simp
  next
    case False
    then have e1: "e = E_LI_FIELDS_FOLLOWS" "E_LI_FIELDS_FOLLOWS \<noteq> DATA_FIELD_FOLLOWS"
      by (simp_all add: e_def E_LI_FIELDS_FOLLOWS_def DATA_FIELD_FOLLOWS_def)
    have "deserialize_fields (?rest @ bytes) ?h1 = Some (received h)"
      unfolding deserialize_serialize_fields [OF h(1) False]
      using bits h(4) by (simp add: received_def rlc_header0_def)
    moreover have "rlc_GetSerializedSize (received h) = rlc_GetSerializedSize h"
      by (simp add: received_def rlc_GetSerializedSize_def)
    ultimately show ?thesis unfolding d unfolding e1(1) using e1(2) by simp
  qed
  then show ?thesis using s l by simp
qed

text \<open>The header that the calls of \<open>DoNotifyTxOpportunity\<close> build for given length indicators.\<close>

definition push_li :: "u16 \<Rightarrow> rlc_header \<Rightarrow> rlc_header" where
  "push_li li h = rlc_PushLengthIndicator li (rlc_PushExtensionBit E_LI_FIELDS_FOLLOWS h)"

definition built_header :: "u8 \<Rightarrow> sn10 \<Rightarrow> u16 list \<Rightarrow> rlc_header" where
  "built_header fi sn lis =
     rlc_SetFramingInfo fi (rlc_SetSequenceNumber sn (rlc_PushExtensionBit DATA_FIELD_FOLLOWS
       (fold push_li lis rlc_header0)))"

lemma pushed_bits:
  "fold push_li lis rlc_header0 =
   rlc_header0\<lparr>rh_extensionBits := replicate (length lis) E_LI_FIELDS_FOLLOWS, rh_lengthIndicators := lis,
     rh_headerLength := (if lis = [] then 0 else of_nat (header_length (length lis - 1)))\<rparr>"
proof (induction lis rule: rev_induct)
  case Nil
  show ?case by (simp add: rlc_header0_def)
next
  case (snoc li lis)
  show ?case
    using snoc by (cases lis rule: rev_cases)
      (auto simp: push_li_def rlc_PushExtensionBit_def rlc_PushLengthIndicator_def Let_def rlc_header0_def header_length_Suc
        replicate_append_same mod_Suc)
qed

lemma built_header_sel [simp]:
  "rh_framingInfo (built_header fi sn lis) = fi AND 0x03" "rh_sequenceNumber (built_header fi sn lis) = sn"
  "rh_lengthIndicators (built_header fi sn lis) = lis"
  "rh_extensionBits (built_header fi sn lis) = header_bits (length lis)"
  unfolding built_header_def pushed_bits
  by (simp_all add: rlc_SetFramingInfo_def rlc_SetSequenceNumber_def rlc_PushExtensionBit_def Let_def header_bits_def)

lemma built_header_length: "rh_headerLength (built_header fi sn lis) = of_nat (header_length (length lis))"
  unfolding built_header_def pushed_bits
  by (cases lis) (auto simp: rlc_SetFramingInfo_def rlc_SetSequenceNumber_def rlc_PushExtensionBit_def Let_def
      header_length_Suc mod_Suc)

lemma built_header_ok:
  assumes "\<forall>li\<in>set lis. li < 2048" and "sn_value sn < 1024"
  shows "header_ok (built_header fi sn lis)"
proof -
  have "fi AND 0x03 = take_bit 2 fi" by (rule u8_eqI) (simp add: bit_simps)
  then have "unat (fi AND 0x03) < 4"
    using take_bit_nat_less_exp [of 2 "unat fi"] by (simp add: unsigned_take_bit_eq)
  then show ?thesis using assms by (simp add: header_ok_def Let_def built_header_length word_less_nat_alt)
qed

lemma add_remove_header:
  assumes "header_ok h" and "header_length (length (rh_lengthIndicators h)) < 2 ^ 16"
  shows "\<exists>p. rlc_AddHeader h bytes = Some p \<and>
    length p = header_length (length (rh_lengthIndicators h)) + length bytes \<and>
    rlc_PeekHeader p rlc_header0 = Some (received h) \<and>
    rlc_RemoveHeader p rlc_header0 = Some (bytes, received h)"
  using serialize_deserialize [OF assms(1), of bytes] header_size [OF assms]
  by (auto simp: rlc_AddHeader_def rlc_PeekHeader_def rlc_RemoveHeader_def)



end
