(* ===== verification/Rlc_Um.thy ===== *)
theory Rlc_Um
  imports Rlc_Header
begin

text \<open>
  \<open>ns3::LteRlcUm\<close> (src/src/lte/model/lte-rlc-um.h, lte-rlc-um.cc), the unacknowledged mode of
  LTE's radio link control: segmentation and concatenation of SDUs into PDUs when the MAC offers
  a transmission, the reordering window of the receiver, reassembly and the two timers.

  A packet of the transmission buffer is its bytes and its \<open>LteRlcSduStatusTag\<close>, a PDU its bytes
  and the time stamp of its \<open>RlcTag\<close>, an SDU delivered by the receiver its bytes. The calls to
  the MAC and to PDCP and the traces are recorded in the order the code makes them. Times are
  nanoseconds; a timer is the time at which its event is due, \<open>None\<close> when it is not pending.
\<close>

section \<open>Data\<close>

datatype sdu_status = FULL_SDU | FIRST_SEGMENT | MIDDLE_SEGMENT | LAST_SEGMENT | ANY_SEGMENT

record tx_packet =
  pk_bytes :: "u8 list"
  pk_status :: "sdu_status option"

record tx_pdu =
  tp_pdu :: tx_packet
  tp_waitingSince :: int

record rlc_pdu =
  pdu_bytes :: "u8 list"
  pdu_stamp :: "int option"

datatype reassembling_state = NONE | WAITING_S0_FULL | WAITING_SI_SF

record tx_opportunity =
  op_bytes :: u32
  op_layer :: u8
  op_harqId :: u8
  op_componentCarrierId :: u8

record transmit_params =
  tr_pdu :: rlc_pdu
  tr_rnti :: u16
  tr_lcid :: u8
  tr_layer :: u8
  tr_harqProcessId :: u8
  tr_componentCarrierId :: u8

record buffer_status =
  bs_rnti :: u16
  bs_lcid :: u8
  bs_txQueueSize :: u32
  bs_txQueueHolDelay :: u16
  bs_retxQueueSize :: u32
  bs_retxQueueHolDelay :: u16
  bs_statusPduSize :: u16

datatype rlc_out =
    TxDropTrace "u8 list"
  | TxPduTrace u16 u8 u32
  | RxPduTrace u16 u8 u32 u64
  | TransmitPdu transmit_params
  | ReportBufferStatus buffer_status
  | ReceivePdcpPdu "u8 list"

record rlc_um =
  um_rnti :: u16
  um_lcid :: u8
  um_packetDelayBudgetMs :: u16
  um_maxTxBufferSize :: u32
  um_txBufferSize :: u32
  um_txBuffer :: "tx_pdu list"
  um_rxBuffer :: "(u16 \<times> rlc_pdu) list"
  um_sdusBuffer :: "u8 list list"
  um_sequenceNumber :: sn10
  um_vrUr :: sn10
  um_vrUx :: sn10
  um_vrUh :: sn10
  um_windowSize :: u16
  um_reorderingTimerValue :: int
  um_reorderingTimer :: "int option"
  um_rbsTimer :: "int option"
  um_enablePdcpDiscarding :: bool
  um_discardTimerMs :: u32
  um_reassemblingState :: reassembling_state
  um_keepS0 :: "u8 list option"
  um_expectedSeqNumber :: sn10
  um_out :: "rlc_out list"

definition LteRlcUm :: "u16 \<Rightarrow> u8 \<Rightarrow> u16 \<Rightarrow> rlc_um" where
  "LteRlcUm rnti lcid delayBudget =
     \<lparr>um_rnti = rnti, um_lcid = lcid, um_packetDelayBudgetMs = delayBudget,
      um_maxTxBufferSize = 10 * 1024, um_txBufferSize = 0, um_txBuffer = [], um_rxBuffer = [],
      um_sdusBuffer = [], um_sequenceNumber = sn_of 0, um_vrUr = sn_of 0, um_vrUx = sn_of 0,
      um_vrUh = sn_of 0, um_windowSize = 512, um_reorderingTimerValue = 100000000,
      um_reorderingTimer = None, um_rbsTimer = None, um_enablePdcpDiscarding = True,
      um_discardTimerMs = 0, um_reassemblingState = WAITING_S0_FULL, um_keepS0 = None,
      um_expectedSeqNumber = sn_of 0, um_out = []\<rparr>"

definition um_emit :: "rlc_out \<Rightarrow> rlc_um \<Rightarrow> rlc_um" where
  "um_emit x s = s\<lparr>um_out := um_out s @ [x]\<rparr>"

definition um_DoDispose :: "rlc_um \<Rightarrow> rlc_um" where
  "um_DoDispose s = s\<lparr>um_reorderingTimer := None, um_rbsTimer := None\<rparr>"

text \<open>\<open>Time::GetMilliSeconds\<close>, and the size of a packet.\<close>

definition to_ms :: "int \<Rightarrow> int" where
  "to_ms t = t sdiv 1000000"

definition u32_size :: "u8 list \<Rightarrow> u32" where
  "u32_size bytes = of_nat (length bytes)"

text \<open>
  \<open>AddPacketTag\<close> asserts that there is no such tag yet; reading a status that
  \<open>RemovePacketTag\<close> did not find is undefined, as the tag is uninitialized.
\<close>

definition pk_AddTag :: "sdu_status \<Rightarrow> tx_packet \<Rightarrow> tx_packet option" where
  "pk_AddTag t p = do { ns_assert (pk_status p = None); Some (p\<lparr>pk_status := Some t\<rparr>) }"

definition pk_RemoveTag :: "tx_packet \<Rightarrow> (sdu_status \<times> tx_packet) option" where
  "pk_RemoveTag p = do { t \<leftarrow> pk_status p; Some (t, p\<lparr>pk_status := None\<rparr>) }"

definition CreateFragment0 :: "u32 \<Rightarrow> u8 list \<Rightarrow> u8 list option" where
  "CreateFragment0 n bytes = do { ns_assert (u32_size bytes \<ge> n); Some (take (unat n) bytes) }"

section \<open>Transmission\<close>

definition um_DoReportBufferStatus :: "int \<Rightarrow> rlc_um \<Rightarrow> rlc_um" where
  "um_DoReportBufferStatus now s =
     (let (holDelay, queueSize) =
        (case um_txBuffer s of
           [] \<Rightarrow> (0, 0)
         | front # _ \<Rightarrow> (now - tp_waitingSince front,
             um_txBufferSize s + 2 * of_nat (length (um_txBuffer s)))) in
      um_emit (ReportBufferStatus
        \<lparr>bs_rnti = um_rnti s, bs_lcid = um_lcid s, bs_txQueueSize = queueSize,
         bs_txQueueHolDelay = word_of_int (to_ms holDelay), bs_retxQueueSize = 0,
         bs_retxQueueHolDelay = 0, bs_statusPduSize = 0\<rparr>) s)"

text \<open>The check of the head-of-line delay, which reports the SDU to the drop trace.\<close>

definition um_check_delay :: "int \<Rightarrow> u8 list \<Rightarrow> rlc_um \<Rightarrow> rlc_um" where
  "um_check_delay now p s =
     (if um_enablePdcpDiscarding s then
        let discardTimerMs = (if um_discardTimerMs s > 0 then um_discardTimerMs s
                              else ucast (um_packetDelayBudgetMs s));
            headOfLineDelayInMs = (case um_txBuffer s of
                [] \<Rightarrow> 0
              | front # _ \<Rightarrow> (word_of_int (to_ms (now - tp_waitingSince front)) :: u32)) in
        if headOfLineDelayInMs > discardTimerMs then um_emit (TxDropTrace p) s else s
      else s)"

definition um_DoTransmitPdcpPdu :: "int \<Rightarrow> tx_packet \<Rightarrow> rlc_um \<Rightarrow> rlc_um option" where
  "um_DoTransmitPdcpPdu now p s = do {
     s1 \<leftarrow>
       (if um_txBufferSize s + u32_size (pk_bytes p) \<le> um_maxTxBufferSize s
        then do {
          let s0 = um_check_delay now (pk_bytes p) s;
          p' \<leftarrow> pk_AddTag FULL_SDU p;
          Some (s0\<lparr>um_txBuffer := um_txBuffer s0 @ [\<lparr>tp_pdu = p', tp_waitingSince = now\<rparr>],
                   um_txBufferSize := um_txBufferSize s0 + u32_size (pk_bytes p)\<rparr>) }
        else Some (um_emit (TxDropTrace (pk_bytes p)) s));
     Some ((um_DoReportBufferStatus now s1)\<lparr>um_rbsTimer := None\<rparr>) }"

text \<open>
  The first branch of the loop of \<open>DoNotifyTxOpportunity\<close>: a segment of \<open>size\<close> bytes is cut off,
  the rest given back to the front of the buffer, and both get their status.
\<close>

definition um_segment :: "tx_packet \<Rightarrow> int \<Rightarrow> u32 \<Rightarrow> rlc_um \<Rightarrow> (tx_packet \<times> rlc_um) option" where
  "um_segment firstSegment since currSegmentSize s = do {
     bytes \<leftarrow> CreateFragment0 currSegmentSize (pk_bytes firstSegment);
     (oldTag, rest) \<leftarrow> pk_RemoveTag firstSegment;
     (newTag, newSegment) \<leftarrow> pk_RemoveTag (firstSegment\<lparr>pk_bytes := bytes\<rparr>);
     let (newTag1, oldTag1) =
       (if oldTag = FULL_SDU then (FIRST_SEGMENT, LAST_SEGMENT)
        else if oldTag = LAST_SEGMENT then (MIDDLE_SEGMENT, oldTag)
        else (newTag, oldTag));
     let rest1 = rest\<lparr>pk_bytes := drop (unat currSegmentSize) (pk_bytes rest)\<rparr>;
     (newTag2, s1) \<leftarrow>
       (if u32_size (pk_bytes rest1) > 0
        then do {
          rest2 \<leftarrow> pk_AddTag oldTag1 rest1;
          Some (newTag1,
            s\<lparr>um_txBuffer := \<lparr>tp_pdu = rest2, tp_waitingSince = since\<rparr> # um_txBuffer s,
              um_txBufferSize := um_txBufferSize s + u32_size (pk_bytes rest2)\<rparr>) }
        else Some
          (if newTag1 = FIRST_SEGMENT then FULL_SDU
           else if newTag1 = MIDDLE_SEGMENT then LAST_SEGMENT
           else newTag1, s));
     newSegment1 \<leftarrow> pk_AddTag newTag2 newSegment;
     Some (newSegment1, s1) }"

text \<open>
  The loop. Its first two branches clear \<open>firstSegment\<close>, which ends it. The result is the data
  field, the header and the state.
\<close>

function um_tx_loop ::
  "tx_packet \<Rightarrow> int \<Rightarrow> u32 \<Rightarrow> u32 \<Rightarrow> tx_packet list \<Rightarrow> rlc_header \<Rightarrow> rlc_um \<Rightarrow>
   (tx_packet list \<times> rlc_header \<times> rlc_um) option" where
  "um_tx_loop firstSegment since nextSegmentSize nextSegmentId dataField rlcHeader s =
     (let size = u32_size (pk_bytes firstSegment) in
      if size > 0 \<and> nextSegmentSize > 0 then
        if size > nextSegmentSize \<or> size > 2047 then do {
          (newSegment, s1) \<leftarrow> um_segment firstSegment since (min size nextSegmentSize) s;
          Some (dataField @ [newSegment], rlc_PushExtensionBit DATA_FIELD_FOLLOWS rlcHeader, s1) }
        else (case um_txBuffer s of
            [] \<Rightarrow> Some (dataField @ [firstSegment], rlc_PushExtensionBit DATA_FIELD_FOLLOWS rlcHeader, s)
          | front # txBuffer \<Rightarrow>
              if nextSegmentSize - size \<le> 2
              then Some (dataField @ [firstSegment], rlc_PushExtensionBit DATA_FIELD_FOLLOWS rlcHeader, s)
              else um_tx_loop (tp_pdu front) (tp_waitingSince front)
                (nextSegmentSize - ((if nextSegmentId mod 2 \<noteq> 0 then 2 else 1) + size)) (nextSegmentId + 1)
                (dataField @ [firstSegment])
                (rlc_PushLengthIndicator (ucast size) (rlc_PushExtensionBit E_LI_FIELDS_FOLLOWS rlcHeader))
                (s\<lparr>um_txBufferSize := um_txBufferSize s - u32_size (pk_bytes (tp_pdu front)),
                   um_txBuffer := txBuffer\<rparr>))
      else Some (dataField, rlcHeader, s))"
  by pat_completeness auto
termination by (relation "measure (\<lambda>(_, _, _, _, _, _, s). length (um_txBuffer s))") auto

text \<open>The loop that joins the segments into one packet: its bytes and the status of the last one.\<close>

fun um_join :: "u8 list \<Rightarrow> sdu_status \<Rightarrow> tx_packet list \<Rightarrow> (u8 list \<times> sdu_status) option" where
  "um_join packet tag [] = Some (packet, tag)"
| "um_join packet tag (x # xs) = do {
     (t, x') \<leftarrow> pk_RemoveTag x;
     um_join (if length packet > 0 then packet @ pk_bytes x' else pk_bytes x') t xs }"

definition um_DoNotifyTxOpportunity :: "int \<Rightarrow> tx_opportunity \<Rightarrow> rlc_um \<Rightarrow> rlc_um option" where
  "um_DoNotifyTxOpportunity now txOp s =
     (if op_bytes txOp \<le> 2 then Some s
      else (case um_txBuffer s of
          [] \<Rightarrow> Some s
        | front # txBuffer \<Rightarrow> do {
            let s1 = s\<lparr>um_txBufferSize := um_txBufferSize s - u32_size (pk_bytes (tp_pdu front)),
                       um_txBuffer := txBuffer\<rparr>;
            (dataField, h, s2) \<leftarrow> um_tx_loop (tp_pdu front) (tp_waitingSince front) (op_bytes txOp - 2) 1 [] rlc_header0 s1;
            let (sn, next) = sn_inc (um_sequenceNumber s2);
            let s3 = s2\<lparr>um_sequenceNumber := next\<rparr>;
            let h1 = rlc_SetSequenceNumber sn h;
            tag \<leftarrow> (case dataField of [] \<Rightarrow> None | x # _ \<Rightarrow> pk_status x);
            let framingInfo = (if tag = FULL_SDU \<or> tag = FIRST_SEGMENT then FIRST_BYTE else NO_FIRST_BYTE);
            (packet, tag1) \<leftarrow> um_join [] tag dataField;
            let framingInfo1 = framingInfo OR
              (if tag1 = FULL_SDU \<or> tag1 = LAST_SEGMENT then LAST_BYTE else NO_LAST_BYTE);
            bytes \<leftarrow> rlc_AddHeader (rlc_SetFramingInfo framingInfo1 h1) packet;
            let s4 = um_emit (TxPduTrace (um_rnti s3) (um_lcid s3) (u32_size bytes)) s3;
            let s5 = um_emit (TransmitPdu
              \<lparr>tr_pdu = \<lparr>pdu_bytes = bytes, pdu_stamp = Some now\<rparr>, tr_rnti = um_rnti s4,
               tr_lcid = um_lcid s4, tr_layer = op_layer txOp, tr_harqProcessId = op_harqId txOp,
               tr_componentCarrierId = op_componentCarrierId txOp\<rparr>) s4;
            Some (if um_txBuffer s5 \<noteq> [] then s5\<lparr>um_rbsTimer := Some (now + 10000000)\<rparr> else s5) }))"

definition um_DoNotifyHarqDeliveryFailure :: "rlc_um \<Rightarrow> rlc_um" where
  "um_DoNotifyHarqDeliveryFailure s = s"

definition um_ExpireRbsTimer :: "int \<Rightarrow> rlc_um \<Rightarrow> rlc_um" where
  "um_ExpireRbsTimer now s =
     (if um_txBuffer s \<noteq> []
      then (um_DoReportBufferStatus now s)\<lparr>um_rbsTimer := Some (now + 10000000)\<rparr> else s)"

section \<open>Reassembly\<close>

text \<open>
  The loop of \<open>ReassembleAndDeliver\<close> that appends the SDUs of a packet to \<open>m_sdusBuffer\<close>,
  while the extension bits are 1.
\<close>

partial_function (option) um_split_sdus ::
  "rlc_header \<Rightarrow> u8 list \<Rightarrow> u8 list list \<Rightarrow> u8 list list option" where
  "um_split_sdus rlcHeader packet sdusBuffer = do {
     (extensionBit, h1) \<leftarrow> rlc_PopExtensionBit rlcHeader;
     (if extensionBit = 0 then Some (sdusBuffer @ [packet])
      else do {
        (lengthIndicator, h2) \<leftarrow> rlc_PopLengthIndicator h1;
        data_field \<leftarrow> CreateFragment0 (ucast lengthIndicator) packet;
        (if extensionBit = 1
         then um_split_sdus h2 (drop (unat lengthIndicator) packet) (sdusBuffer @ [data_field])
         else Some (sdusBuffer @ [data_field])) }) }"

definition um_deliver :: "u8 list \<Rightarrow> rlc_um \<Rightarrow> rlc_um" where
  "um_deliver sdu s = um_emit (ReceivePdcpPdu sdu) s"

text \<open>
  \<open>Deliver zero, one or multiple PDUs\<close>: the loops that run until \<open>m_sdusBuffer\<close> is empty, and
  those that run while it has more than one element.
\<close>

definition um_deliver_all :: "rlc_um \<Rightarrow> rlc_um" where
  "um_deliver_all s = (fold um_deliver (um_sdusBuffer s) s)\<lparr>um_sdusBuffer := []\<rparr>"

definition um_deliver_but_last :: "rlc_um \<Rightarrow> rlc_um" where
  "um_deliver_but_last s =
     (fold um_deliver (butlast (um_sdusBuffer s)) s)
       \<lparr>um_sdusBuffer := drop (length (um_sdusBuffer s) - 1) (um_sdusBuffer s)\<rparr>"

definition um_pop_front :: "rlc_um \<Rightarrow> (u8 list \<times> rlc_um) option" where
  "um_pop_front s =
     (case um_sdusBuffer s of [] \<Rightarrow> None | x # xs \<Rightarrow> Some (x, s\<lparr>um_sdusBuffer := xs\<rparr>))"

definition um_discard_front :: "rlc_um \<Rightarrow> rlc_um option" where
  "um_discard_front s = map_option snd (um_pop_front s)"

definition um_keep_front :: "rlc_um \<Rightarrow> rlc_um option" where
  "um_keep_front s = do { (x, s1) \<leftarrow> um_pop_front s; Some (s1\<lparr>um_keepS0 := Some x\<rparr>) }"

text \<open>\<open>m_keepS0->AddAtEnd (m_sdusBuffer.front ())\<close>, which dereferences the kept packet.\<close>

definition um_append_kept :: "rlc_um \<Rightarrow> (u8 list \<times> rlc_um) option" where
  "um_append_kept s = do {
     kept \<leftarrow> um_keepS0 s;
     (x, s1) \<leftarrow> um_pop_front s;
     Some (kept @ x, s1\<lparr>um_keepS0 := Some (kept @ x)\<rparr>) }"

text \<open>\<open>Discard SI or SN\<close> of a packet without first and last byte, and what follows it.\<close>

definition um_discard_middle :: "rlc_um \<Rightarrow> rlc_um option" where
  "um_discard_middle s = do {
     let s1 = s\<lparr>um_reassemblingState :=
       (if length (um_sdusBuffer s) = 1 then WAITING_S0_FULL else WAITING_SI_SF)\<rparr>;
     s2 \<leftarrow> um_discard_front s1;
     (if um_sdusBuffer s2 \<noteq> [] then um_keep_front (um_deliver_but_last s2) else Some s2) }"

text \<open>The four cases of the framing information, without losses and with losses.\<close>

definition um_no_loss_S0 :: "u8 \<Rightarrow> rlc_um \<Rightarrow> rlc_um option" where
  "um_no_loss_S0 framingInfo s =
     (if framingInfo = FIRST_BYTE OR LAST_BYTE then
        Some (um_deliver_all (s\<lparr>um_reassemblingState := WAITING_S0_FULL\<rparr>))
      else if framingInfo = FIRST_BYTE OR NO_LAST_BYTE then
        um_keep_front (um_deliver_but_last (s\<lparr>um_reassemblingState := WAITING_SI_SF\<rparr>))
      else if framingInfo = NO_FIRST_BYTE OR LAST_BYTE then
        map_option um_deliver_all (um_discard_front (s\<lparr>um_reassemblingState := WAITING_S0_FULL\<rparr>))
      else if framingInfo = NO_FIRST_BYTE OR NO_LAST_BYTE then um_discard_middle s
      else Some s)"

definition um_no_loss_SI :: "u8 \<Rightarrow> rlc_um \<Rightarrow> rlc_um option" where
  "um_no_loss_SI framingInfo s =
     (if framingInfo = NO_FIRST_BYTE OR LAST_BYTE then do {
        (sdu, s1) \<leftarrow> um_append_kept (s\<lparr>um_reassemblingState := WAITING_S0_FULL\<rparr>);
        Some (um_deliver_all (um_deliver sdu s1)) }
      else if framingInfo = NO_FIRST_BYTE OR NO_LAST_BYTE then
        (let s0 = s\<lparr>um_reassemblingState := WAITING_SI_SF\<rparr> in
         if length (um_sdusBuffer s0) = 1 then map_option snd (um_append_kept s0)
         else do {
           (sdu, s1) \<leftarrow> um_append_kept s0;
           um_keep_front (um_deliver_but_last (um_deliver sdu s1)) })
      else Some s)"

definition um_loss_S0 :: "u8 \<Rightarrow> rlc_um \<Rightarrow> rlc_um option" where
  "um_loss_S0 framingInfo s =
     (if framingInfo = FIRST_BYTE OR LAST_BYTE then
        Some (um_deliver_all (s\<lparr>um_reassemblingState := WAITING_S0_FULL\<rparr>))
      else if framingInfo = FIRST_BYTE OR NO_LAST_BYTE then
        um_keep_front (um_deliver_but_last (s\<lparr>um_reassemblingState := WAITING_SI_SF\<rparr>))
      else if framingInfo = NO_FIRST_BYTE OR LAST_BYTE then
        map_option um_deliver_all (um_discard_front (s\<lparr>um_reassemblingState := WAITING_S0_FULL\<rparr>))
      else if framingInfo = NO_FIRST_BYTE OR NO_LAST_BYTE then um_discard_middle s
      else Some s)"

definition um_loss_SI :: "u8 \<Rightarrow> rlc_um \<Rightarrow> rlc_um option" where
  "um_loss_SI framingInfo s =
     (if framingInfo = FIRST_BYTE OR LAST_BYTE then
        Some (um_deliver_all (s\<lparr>um_reassemblingState := WAITING_S0_FULL, um_keepS0 := None\<rparr>))
      else if framingInfo = FIRST_BYTE OR NO_LAST_BYTE then
        um_keep_front (um_deliver_but_last (s\<lparr>um_reassemblingState := WAITING_SI_SF, um_keepS0 := None\<rparr>))
      else if framingInfo = NO_FIRST_BYTE OR LAST_BYTE then
        map_option um_deliver_all
          (um_discard_front (s\<lparr>um_reassemblingState := WAITING_S0_FULL, um_keepS0 := None\<rparr>))
      else if framingInfo = NO_FIRST_BYTE OR NO_LAST_BYTE then um_discard_middle (s\<lparr>um_keepS0 := None\<rparr>)
      else Some s)"

definition um_reassemble :: "bool \<Rightarrow> u8 \<Rightarrow> rlc_um \<Rightarrow> rlc_um option" where
  "um_reassemble expectedSnLost framingInfo s =
     (case um_reassemblingState s of
        WAITING_S0_FULL \<Rightarrow> if expectedSnLost then um_loss_S0 framingInfo s else um_no_loss_S0 framingInfo s
      | WAITING_SI_SF \<Rightarrow> if expectedSnLost then um_loss_SI framingInfo s else um_no_loss_SI framingInfo s
      | NONE \<Rightarrow> Some s)"

definition um_ReassembleAndDeliver :: "rlc_pdu \<Rightarrow> rlc_um \<Rightarrow> rlc_um option" where
  "um_ReassembleAndDeliver p s = do {
     (packet, rlcHeader) \<leftarrow> rlc_RemoveHeader (pdu_bytes p) rlc_header0;
     let currSeqNumber = rh_sequenceNumber rlcHeader;
     let expectedSnLost = sn_neq currSeqNumber (um_expectedSeqNumber s);
     let s1 = s\<lparr>um_expectedSeqNumber :=
       (if expectedSnLost then sn_plus currSeqNumber 1 else snd (sn_inc (um_expectedSeqNumber s)))\<rparr>;
     sdus \<leftarrow> um_split_sdus rlcHeader packet (um_sdusBuffer s1);
     um_reassemble expectedSnLost (rh_framingInfo rlcHeader) (s1\<lparr>um_sdusBuffer := sdus\<rparr>) }"

section \<open>The reordering window\<close>

text \<open>\<open>m_rxBuffer[key] = value\<close> and \<open>erase\<close> of a \<open>std::map\<close>, a list in the order of its keys.\<close>

fun map_assign :: "u16 \<Rightarrow> 'a \<Rightarrow> (u16 \<times> 'a) list \<Rightarrow> (u16 \<times> 'a) list" where
  "map_assign k v [] = [(k, v)]"
| "map_assign k v ((l, w) # xs) =
     (if k < l then (k, v) # (l, w) # xs
      else if k = l then (k, v) # xs
      else (l, w) # map_assign k v xs)"

definition map_erase :: "u16 \<Rightarrow> (u16 \<times> 'a) list \<Rightarrow> (u16 \<times> 'a) list" where
  "map_erase k xs = filter (\<lambda>(l, _). l \<noteq> k) xs"

definition um_IsInsideReorderingWindow :: "sn10 \<Rightarrow> rlc_um \<Rightarrow> (bool \<times> rlc_um) option" where
  "um_IsInsideReorderingWindow seqNumber s = do {
     let s1 = s\<lparr>um_vrUh := sn_SetModulusBase (sn_minus (um_vrUh s) (um_windowSize s)) (um_vrUh s)\<rparr>;
     let seqNumber1 = sn_SetModulusBase (sn_minus (um_vrUh s1) (um_windowSize s1)) seqNumber;
     low \<leftarrow> sn_le (sn_minus (um_vrUh s1) (um_windowSize s1)) seqNumber1;
     high \<leftarrow> (if low then sn_lt seqNumber1 (um_vrUh s1) else Some False);
     Some (high, s1) }"

text \<open>The iteration from \<open>m_rxBuffer.begin ()\<close>, over the entries that are left.\<close>

fun um_outside_loop :: "(u16 \<times> rlc_pdu) list \<Rightarrow> rlc_um \<Rightarrow> rlc_um option" where
  "um_outside_loop [] s = Some s"
| "um_outside_loop ((k, p) # xs) s = do {
     (inside, s1) \<leftarrow> um_IsInsideReorderingWindow (sn_of k) s;
     (if inside then Some s1
      else do {
        s2 \<leftarrow> um_ReassembleAndDeliver p s1;
        um_outside_loop xs (s2\<lparr>um_rxBuffer := map_erase k (um_rxBuffer s2)\<rparr>) }) }"

definition um_ReassembleOutsideWindow :: "rlc_um \<Rightarrow> rlc_um option" where
  "um_ReassembleOutsideWindow s = um_outside_loop (um_rxBuffer s) s"

partial_function (option) um_ReassembleSnInterval :: "sn10 \<Rightarrow> sn10 \<Rightarrow> rlc_um \<Rightarrow> rlc_um option" where
  "um_ReassembleSnInterval reassembleSn highSeqNumber s = do {
     less \<leftarrow> sn_lt reassembleSn highSeqNumber;
     (if less then do {
        s1 \<leftarrow> (case map_of (um_rxBuffer s) (sn_value reassembleSn) of
             None \<Rightarrow> Some s
           | Some p \<Rightarrow> do {
               s' \<leftarrow> um_ReassembleAndDeliver p s;
               Some (s'\<lparr>um_rxBuffer := map_erase (sn_value reassembleSn) (um_rxBuffer s')\<rparr>) });
        um_ReassembleSnInterval (snd (sn_inc reassembleSn)) highSeqNumber s1 }
      else Some s) }"

text \<open>The loops that look for the first sequence number not received.\<close>

partial_function (option) um_first_missing :: "u16 \<Rightarrow> (u16 \<times> rlc_pdu) list \<Rightarrow> u16 option" where
  "um_first_missing newVrUr rxBuffer =
     (if map_of rxBuffer newVrUr \<noteq> None then um_first_missing (newVrUr + 1) rxBuffer else Some newVrUr)"

partial_function (option) um_first_missing_sn :: "sn10 \<Rightarrow> (u16 \<times> rlc_pdu) list \<Rightarrow> sn10 option" where
  "um_first_missing_sn newVrUr rxBuffer =
     (if map_of rxBuffer (sn_value newVrUr) \<noteq> None then um_first_missing_sn (snd (sn_inc newVrUr)) rxBuffer
      else Some newVrUr)"

declare um_split_sdus.simps [code] um_ReassembleSnInterval.simps [code] um_first_missing.simps [code]
  um_first_missing_sn.simps [code]

definition um_start_reordering :: "int \<Rightarrow> rlc_um \<Rightarrow> rlc_um" where
  "um_start_reordering now s =
     s\<lparr>um_reorderingTimer := Some (now + um_reorderingTimerValue s), um_vrUx := um_vrUh s\<rparr>"

definition um_ExpireReorderingTimer :: "int \<Rightarrow> rlc_um \<Rightarrow> rlc_um option" where
  "um_ExpireReorderingTimer now s = do {
     newVrUr \<leftarrow> um_first_missing_sn (um_vrUx s) (um_rxBuffer s);
     let oldVrUr = um_vrUr s;
     s1 \<leftarrow> um_ReassembleSnInterval oldVrUr newVrUr (s\<lparr>um_vrUr := newVrUr\<rparr>);
     more \<leftarrow> sn_gt (um_vrUh s1) (um_vrUr s1);
     Some (if more then um_start_reordering now s1 else s1) }"

text \<open>The test of 5.1.2.2.2: whether the PDU is discarded.\<close>

definition um_discards :: "sn10 \<Rightarrow> rlc_um \<Rightarrow> bool option" where
  "um_discards seqNumber s = do {
     a \<leftarrow> sn_lt (um_vrUr s) seqNumber;
     b \<leftarrow> (if a then sn_lt seqNumber (um_vrUh s) else Some False);
     (if b \<and> map_of (um_rxBuffer s) (sn_value seqNumber) \<noteq> None then Some True
      else do {
        c \<leftarrow> sn_le (sn_minus (um_vrUh s) (um_windowSize s)) seqNumber;
        (if c then sn_lt seqNumber (um_vrUr s) else Some False) }) }"

text \<open>The steps of 5.1.2.2.3: outside of the window, at the lower edge, and the timer.\<close>

definition um_advance_window :: "sn10 \<Rightarrow> rlc_um \<Rightarrow> rlc_um option" where
  "um_advance_window seqNumber s = do {
     (inside, s1) \<leftarrow> um_IsInsideReorderingWindow seqNumber s;
     (if \<not> inside then do {
        s2 \<leftarrow> um_ReassembleOutsideWindow (s1\<lparr>um_vrUh := sn_plus seqNumber 1\<rparr>);
        (inside', s3) \<leftarrow> um_IsInsideReorderingWindow (um_vrUr s2) s2;
        Some (if \<not> inside' then s3\<lparr>um_vrUr := sn_minus (um_vrUh s3) (um_windowSize s3)\<rparr> else s3) }
      else Some s1) }"

definition um_advance_lower :: "rlc_um \<Rightarrow> rlc_um option" where
  "um_advance_lower s =
     (if map_of (um_rxBuffer s) (sn_value (um_vrUr s)) \<noteq> None then do {
        let oldVrUr = um_vrUr s;
        newVrUr \<leftarrow> um_first_missing (sn_value (um_vrUr s) + 1) (um_rxBuffer s);
        let s1 = s\<lparr>um_vrUr := sn_assign newVrUr (um_vrUr s)\<rparr>;
        um_ReassembleSnInterval oldVrUr (um_vrUr s1) s1 }
      else Some s)"

definition um_set_bases :: "rlc_um \<Rightarrow> rlc_um" where
  "um_set_bases s =
     (let base = sn_minus (um_vrUh s) (um_windowSize s) in
      s\<lparr>um_vrUr := sn_SetModulusBase base (um_vrUr s), um_vrUx := sn_SetModulusBase base (um_vrUx s),
        um_vrUh := sn_SetModulusBase base (um_vrUh s)\<rparr>)"

definition um_stop_reordering :: "rlc_um \<Rightarrow> rlc_um option" where
  "um_stop_reordering s =
     (if um_reorderingTimer s \<noteq> None then do {
        le \<leftarrow> sn_le (um_vrUx s) (um_vrUr s);
        (if le then Some (s\<lparr>um_reorderingTimer := None\<rparr>)
         else do {
           (inside, s1) \<leftarrow> um_IsInsideReorderingWindow (um_vrUx s) s;
           Some (if \<not> inside \<and> sn_neq (um_vrUx s1) (um_vrUh s1) then s1\<lparr>um_reorderingTimer := None\<rparr> else s1) }) }
      else Some s)"

definition um_update_timer :: "int \<Rightarrow> rlc_um \<Rightarrow> rlc_um option" where
  "um_update_timer now s = do {
     s1 \<leftarrow> um_stop_reordering (um_set_bases s);
     (if um_reorderingTimer s1 = None then do {
        more \<leftarrow> sn_gt (um_vrUh s1) (um_vrUr s1);
        Some (if more then um_start_reordering now s1 else s1) }
      else Some s1) }"

text \<open>\<open>DoReceivePdu\<close> once the modulus bases are set.\<close>

definition um_receive :: "int \<Rightarrow> sn10 \<Rightarrow> rlc_pdu \<Rightarrow> rlc_um \<Rightarrow> rlc_um option" where
  "um_receive now seqNumber p s = do {
     discarded \<leftarrow> um_discards seqNumber s;
     (if discarded then Some s
      else do {
        let s1 = s\<lparr>um_rxBuffer := map_assign (sn_value seqNumber) p (um_rxBuffer s)\<rparr>;
        s2 \<leftarrow> um_advance_window seqNumber s1;
        s3 \<leftarrow> um_advance_lower s2;
        um_update_timer now s3 }) }"

definition um_DoReceivePdu :: "int \<Rightarrow> rlc_pdu \<Rightarrow> rlc_um \<Rightarrow> rlc_um option" where
  "um_DoReceivePdu now p s = do {
     stamp \<leftarrow> pdu_stamp p;
     let s0 = um_emit (RxPduTrace (um_rnti s) (um_lcid s) (u32_size (pdu_bytes p)) (word_of_int (now - stamp))) s;
     rlcHeader \<leftarrow> rlc_PeekHeader (pdu_bytes p) rlc_header0;
     let base = sn_minus (um_vrUh s0) (um_windowSize s0);
     let s1 = s0\<lparr>um_vrUr := sn_SetModulusBase base (um_vrUr s0), um_vrUh := sn_SetModulusBase base (um_vrUh s0)\<rparr>;
     let seqNumber = sn_SetModulusBase (sn_minus (um_vrUh s1) (um_windowSize s1)) (rh_sequenceNumber rlcHeader);
     um_receive now seqNumber p s1 }"

end
