(* ===== verification/Rlc_Um_Tx.thy ===== *)
theory Rlc_Um_Tx
  imports Rlc_Um
begin

text \<open>
  The transmitter of RLC UM: what a transmission opportunity takes from the buffer, the frames it
  sends, and that the frames sent so far and the buffer together hold exactly the SDUs that were
  accepted, in their order.
\<close>

section \<open>Frames\<close>

text \<open>
  The content of a PDU: whether its first segment begins an SDU, its segments, and whether its
  last segment ends an SDU. Every boundary between two segments is one between SDUs.
\<close>

type_synonym frame = "bool \<times> u8 list list \<times> bool"

definition frame_fi :: "bool \<Rightarrow> bool \<Rightarrow> u8" where
  "frame_fi begins ends = (if begins then FIRST_BYTE else NO_FIRST_BYTE) OR (if ends then LAST_BYTE else NO_LAST_BYTE)"

definition frame_header :: "frame \<Rightarrow> sn10 \<Rightarrow> rlc_header" where
  "frame_header f sn =
     (case f of (begins, segs, ends) \<Rightarrow>
        built_header (frame_fi begins ends) sn (map (\<lambda>x. ucast (u32_size x)) (butlast segs)))"

definition frame_ok :: "frame \<Rightarrow> bool" where
  "frame_ok f \<longleftrightarrow>
     (case f of (begins, segs, ends) \<Rightarrow>
        segs \<noteq> [] \<and> (\<forall>x\<in>set segs. x \<noteq> []) \<and> (\<forall>x\<in>set (butlast segs). length x \<le> 2047) \<and>
        (\<Sum>x\<leftarrow>segs. length x) < 2 ^ 32 \<and> header_length (length segs - 1) < 2 ^ 16)"

text \<open>A PDU with the given number carries a frame.\<close>

definition carries :: "nat \<Rightarrow> frame \<Rightarrow> rlc_pdu \<Rightarrow> bool" where
  "carries k f p \<longleftrightarrow> frame_ok f \<and> pdu_stamp p \<noteq> None \<and>
     (\<exists>b. rlc_AddHeader (frame_header f (sn_at k b)) (concat (fst (snd f))) = Some (pdu_bytes p))"

text \<open>
  What the frames in their order amount to: the SDUs they complete, and the beginning of an SDU
  left open by the last one.
\<close>

fun feed :: "frame \<Rightarrow> u8 list option \<times> u8 list list \<Rightarrow> u8 list option \<times> u8 list list" where
  "feed (begins, segs, ends) (kept, sdus) =
     (let segs' = (case kept of None \<Rightarrow> segs | Some k \<Rightarrow> (k @ hd segs) # tl segs) in
      if ends then (None, sdus @ segs') else (Some (last segs'), sdus @ butlast segs'))"

definition content :: "frame list \<Rightarrow> u8 list option \<times> u8 list list" where
  "content fs = fold feed fs (None, [])"

text \<open>A frame begins an SDU exactly when the ones before it left none open.\<close>

definition linked :: "frame list \<Rightarrow> bool" where
  "linked fs \<longleftrightarrow> (\<forall>k<length fs. fst (fs ! k) \<longleftrightarrow> fst (content (take k fs)) = None)"

lemma content_snoc: "content (fs @ [f]) = feed f (content fs)"
  by (simp add: content_def)

lemma content_Nil [simp]: "content [] = (None, [])"
  by (simp add: content_def)

lemma linked_snoc: "linked (fs @ [f]) \<longleftrightarrow> linked fs \<and> (fst f \<longleftrightarrow> fst (content fs) = None)"
  by (auto simp: linked_def nth_append less_Suc_eq)

section \<open>What an opportunity takes\<close>

text \<open>
  From the items \<open>cs\<close> the segments are taken and \<open>left\<close> remains; the last segment ends its item,
  or it is a proper beginning of it.
\<close>

fun takes :: "'a list list \<Rightarrow> 'a list list \<Rightarrow> bool \<Rightarrow> 'a list list \<Rightarrow> bool" where
  "takes cs segs True left \<longleftrightarrow> segs \<noteq> [] \<and> cs = segs @ left"
| "takes cs segs False left \<longleftrightarrow>
     (\<exists>ss x y l. segs = ss @ [x] \<and> left = y # l \<and> cs = ss @ (x @ y) # l \<and> x \<noteq> [] \<and> y \<noteq> [])"

lemma takes_Cons:
  assumes "takes cs segs ends left"
  shows "takes (c # cs) (c # segs) ends left"
proof (cases ends)
  case False
  with assms obtain ss x y l where
    "segs = ss @ [x]" "left = y # l" "cs = ss @ (x @ y) # l" "x \<noteq> []" "y \<noteq> []" by auto
  then have "c # segs = (c # ss) @ [x] \<and> left = y # l \<and> c # cs = (c # ss) @ (x @ y) # l \<and> x \<noteq> [] \<and> y \<noteq> []"
    by simp
  with False show ?thesis by (simp only: takes.simps) blast
qed (use assms in simp)

lemma takes_not_Nil: "takes cs segs ends left \<Longrightarrow> segs \<noteq> []"
  by (cases ends) auto

lemma takes_total:
  "takes cs segs ends left \<Longrightarrow> (\<Sum>x\<leftarrow>cs. length x) = (\<Sum>x\<leftarrow>segs. length x) + (\<Sum>x\<leftarrow>left. length x)"
  by (cases ends) auto

lemma takes_nonempty:
  assumes "takes cs segs ends left" and "\<forall>c\<in>set cs. c \<noteq> []"
  shows "(\<forall>x\<in>set segs. x \<noteq> []) \<and> (\<forall>x\<in>set left. x \<noteq> [])"
  using assms by (cases ends) auto

text \<open>Status tags: a segment's tag says where it lies in its SDU.\<close>

definition starts :: "sdu_status \<Rightarrow> bool" where
  "starts t \<longleftrightarrow> t = FULL_SDU \<or> t = FIRST_SEGMENT"

definition finishes :: "sdu_status \<Rightarrow> bool" where
  "finishes t \<longleftrightarrow> t = FULL_SDU \<or> t = LAST_SEGMENT"

abbreviation tp_bytes :: "tx_pdu \<Rightarrow> u8 list" where
  "tp_bytes x \<equiv> pk_bytes (tp_pdu x)"

text \<open>Entries of the buffer: full SDUs but for the first, which may be the rest of one.\<close>

definition full_entries :: "tx_pdu list \<Rightarrow> bool" where
  "full_entries xs \<longleftrightarrow> (\<forall>x\<in>set xs. pk_status (tp_pdu x) = Some FULL_SDU \<and> tp_bytes x \<noteq> [])"

fun entries_ok :: "bool \<Rightarrow> tx_pdu list \<Rightarrow> bool" where
  "entries_ok True xs \<longleftrightarrow> full_entries xs"
| "entries_ok False [] \<longleftrightarrow> False"
| "entries_ok False (x # xs) \<longleftrightarrow>
     pk_status (tp_pdu x) = Some LAST_SEGMENT \<and> tp_bytes x \<noteq> [] \<and> full_entries xs"

definition total_bytes :: "tx_pdu list \<Rightarrow> nat" where
  "total_bytes xs = (\<Sum>x\<leftarrow>xs. length (tp_bytes x))"

lemma total_bytes_simps [simp]:
  "total_bytes [] = 0" "total_bytes (x # xs) = length (tp_bytes x) + total_bytes xs"
  "total_bytes (xs @ ys) = total_bytes xs + total_bytes ys"
  by (simp_all add: total_bytes_def)

lemma u32_size_simps:
  assumes "length x < 2 ^ 32"
  shows "unat (u32_size x) = length x" and "u32_size x > 0 \<longleftrightarrow> x \<noteq> []"
proof -
  show u: "unat (u32_size x) = length x"
    using assms by (simp add: u32_size_def unsigned_of_nat take_bit_nat_eq_self)
  then show "u32_size x > 0 \<longleftrightarrow> x \<noteq> []" by (simp add: word_less_nat_alt)
qed

text \<open>One call of the segmentation: a proper beginning of the packet, or the packet.\<close>

lemma um_segment_cut:
  assumes st: "pk_status f = Some st" "st = FULL_SDU \<or> st = LAST_SEGMENT"
    and n: "0 < unat n" "unat n < length (pk_bytes f)" and len: "length (pk_bytes f) < 2 ^ 32"
  shows "um_segment f since n s =
    Some (\<lparr>pk_bytes = take (unat n) (pk_bytes f),
           pk_status = Some (if st = FULL_SDU then FIRST_SEGMENT else MIDDLE_SEGMENT)\<rparr>,
      s\<lparr>um_txBuffer := \<lparr>tp_pdu = \<lparr>pk_bytes = drop (unat n) (pk_bytes f), pk_status = Some LAST_SEGMENT\<rparr>,
                        tp_waitingSince = since\<rparr> # um_txBuffer s,
        um_txBufferSize := um_txBufferSize s + of_nat (length (pk_bytes f) - unat n)\<rparr>)"
proof -
  have 1: "n \<le> u32_size (pk_bytes f)" using n by (simp add: word_le_nat_alt u32_size_simps [OF len])
  have 2: "u32_size (drop (unat n) (pk_bytes f)) > 0"
    using n len by (subst u32_size_simps(2)) simp_all
  then have 3: "u32_size (drop (unat n) (pk_bytes f)) \<noteq> 0" by simp
  have 4: "u32_size (drop (unat n) x) = of_nat (length x - unat n)" for x
    by (simp add: u32_size_def)
  show ?thesis
    using st 1 2 3 by (cases f) (auto simp: um_segment_def CreateFragment0_def pk_RemoveTag_def pk_AddTag_def
        Let_def 4 split: prod.splits)
qed

lemma um_segment_whole:
  assumes st: "pk_status f = Some st" "st = FULL_SDU \<or> st = LAST_SEGMENT"
    and n: "unat n = length (pk_bytes f)"
  shows "um_segment f since n s = Some (f, s)"
proof -
  have len: "length (pk_bytes f) < 2 ^ 32" using unat_bounds(3) [of n] n by simp
  have 1: "n \<le> u32_size (pk_bytes f)" using n by (simp add: word_le_nat_alt u32_size_simps [OF len])
  have 2: "u32_size [] = 0" by (simp add: u32_size_def)
  show ?thesis
    using st 1 n by (cases f) (auto simp: um_segment_def CreateFragment0_def pk_RemoveTag_def pk_AddTag_def Let_def 2)
qed

text \<open>The length indicators: for the segments that are not the last one.\<close>

abbreviation indicators :: "u8 list list \<Rightarrow> u16 list" where
  "indicators segs \<equiv> map (\<lambda>x. ucast (u32_size x)) (butlast segs)"

text \<open>The result of the loop, for a buffer of \<open>n\<close> length indicators so far and \<open>room\<close> bytes left.\<close>

definition loop_result ::
  "tx_packet \<Rightarrow> tx_packet list \<Rightarrow> rlc_header \<Rightarrow> rlc_um \<Rightarrow> nat \<Rightarrow> nat \<Rightarrow>
   tx_packet list \<times> rlc_header \<times> rlc_um \<Rightarrow> bool" where
  "loop_result f df h s n room r \<longleftrightarrow>
     (\<exists>segs ends buf.
        r = (df @ segs, rlc_PushExtensionBit DATA_FIELD_FOLLOWS (fold push_li (indicators (map pk_bytes segs)) h),
             s\<lparr>um_txBuffer := buf, um_txBufferSize := of_nat (total_bytes buf)\<rparr>) \<and>
        takes (pk_bytes f # map tp_bytes (um_txBuffer s)) (map pk_bytes segs) ends (map tp_bytes buf) \<and>
        (\<forall>x\<in>set segs. pk_status x \<noteq> None) \<and>
        starts (the (pk_status (hd segs))) = starts (the (pk_status f)) \<and>
        finishes (the (pk_status (last segs))) = ends \<and> entries_ok ends buf \<and>
        (\<forall>x\<in>set (butlast segs). length (pk_bytes x) \<le> 2047) \<and>
        header_length (n + (length segs - 1)) + (\<Sum>x\<leftarrow>segs. length (pk_bytes x)) \<le> header_length n + room)"

lemma loop_result_Cons:
  assumes "loop_result (tp_pdu x) (df @ [f]) (push_li (ucast (u32_size (pk_bytes f))) h)
      (s\<lparr>um_txBufferSize := z, um_txBuffer := xs\<rparr>) (Suc n) room' r"
    and "um_txBuffer s = x # xs" and "pk_status f = Some st" and "length (pk_bytes f) \<le> 2047"
    and "header_length (Suc n) + room' + length (pk_bytes f) \<le> header_length n + room"
  shows "loop_result f df h s n room r"
proof -
  from assms(1) obtain segs ends buf where
    r: "r = (df @ f # segs, rlc_PushExtensionBit DATA_FIELD_FOLLOWS
          (fold push_li (indicators (map pk_bytes segs)) (push_li (ucast (u32_size (pk_bytes f))) h)),
        s\<lparr>um_txBuffer := buf, um_txBufferSize := of_nat (total_bytes buf)\<rparr>)"
    and t: "takes (tp_bytes x # map tp_bytes xs) (map pk_bytes segs) ends (map tp_bytes buf)"
    and rest: "\<forall>x\<in>set segs. pk_status x \<noteq> None" "finishes (the (pk_status (last segs))) = ends"
      "entries_ok ends buf" "\<forall>x\<in>set (butlast segs). length (pk_bytes x) \<le> 2047"
      "header_length (Suc n + (length segs - 1)) + (\<Sum>x\<leftarrow>segs. length (pk_bytes x)) \<le> header_length (Suc n) + room'"
    unfolding loop_result_def by auto
  from takes_not_Nil [OF t] obtain y ys where segs: "segs = y # ys" by (cases segs) auto
  show ?thesis
    unfolding loop_result_def
  proof (intro exI conjI)
    show "r = (df @ f # segs, rlc_PushExtensionBit DATA_FIELD_FOLLOWS
        (fold push_li (indicators (map pk_bytes (f # segs))) h),
        s\<lparr>um_txBuffer := buf, um_txBufferSize := of_nat (total_bytes buf)\<rparr>)"
      using r by (simp add: segs)
    show "takes (pk_bytes f # map tp_bytes (um_txBuffer s)) (map pk_bytes (f # segs)) ends (map tp_bytes buf)"
      using takes_Cons [OF t, of "pk_bytes f"] assms(2) by (simp only: list.map)
    show "header_length (n + (length (f # segs) - 1)) + (\<Sum>x\<leftarrow>f # segs. length (pk_bytes x)) \<le> header_length n + room"
      using rest(5) assms(5) by (simp add: segs)
    show "\<forall>x\<in>set (butlast (f # segs)). length (pk_bytes x) \<le> 2047"
      using rest(4) assms(4) by (simp add: segs)
  qed (use rest segs assms(3) in auto)
qed

lemma um_tx_loop_ok:
  assumes "pk_status f = Some st" "st = FULL_SDU \<or> st = LAST_SEGMENT" "pk_bytes f \<noteq> []"
    and "full_entries (um_txBuffer s)" "um_txBufferSize s = of_nat (total_bytes (um_txBuffer s))"
    and "length (pk_bytes f) + total_bytes (um_txBuffer s) < 2 ^ 32"
    and "0 < unat room" "(unat i) mod 2 = Suc n mod 2"
  shows "\<exists>r. um_tx_loop f since room i df h s = Some r \<and> loop_result f df h s n (unat room) r"
  using assms
proof (induction f since room i df h s arbitrary: st n rule: um_tx_loop.induct)
  case (1 f since room i df h s)
  let ?b = "pk_bytes f"
  have len: "length ?b < 2 ^ 32" using "1.prems"(6) by simp
  note size = u32_size_simps [OF len]
  have pos: "u32_size ?b > 0 \<and> room > 0" using size(2) "1.prems"(3,7) by (simp add: word_less_nat_alt)
  show ?case
  proof (cases "u32_size ?b > room \<or> u32_size ?b > 2047")
    case cut: True
    let ?n = "min (u32_size ?b) room"
    show ?thesis
    proof (cases "unat room < length ?b")
      case True
      then have n: "?n = room" using size(1) by (simp add: min_def word_le_nat_alt)
      let ?r = "(df @ [\<lparr>pk_bytes = take (unat room) ?b,
           pk_status = Some (if st = FULL_SDU then FIRST_SEGMENT else MIDDLE_SEGMENT)\<rparr>],
         rlc_PushExtensionBit DATA_FIELD_FOLLOWS h,
         s\<lparr>um_txBuffer := \<lparr>tp_pdu = \<lparr>pk_bytes = drop (unat room) ?b, pk_status = Some LAST_SEGMENT\<rparr>,
                          tp_waitingSince = since\<rparr> # um_txBuffer s,
           um_txBufferSize := um_txBufferSize s + of_nat (length ?b - unat room)\<rparr>)"
      have "um_tx_loop f since room i df h s = Some ?r"
        using pos cut by (subst um_tx_loop.simps)
          (simp add: n um_segment_cut [OF "1.prems"(1,2) _ _ len] "1.prems"(7) True Let_def)
      moreover have "loop_result f df h s n (unat room) ?r"
        unfolding loop_result_def using "1.prems" True
        by (intro exI [of _ "[\<lparr>pk_bytes = take (unat room) ?b,
            pk_status = Some (if st = FULL_SDU then FIRST_SEGMENT else MIDDLE_SEGMENT)\<rparr>]"] exI [of _ False]
            exI [of _ "\<lparr>tp_pdu = \<lparr>pk_bytes = drop (unat room) ?b, pk_status = Some LAST_SEGMENT\<rparr>,
                          tp_waitingSince = since\<rparr> # um_txBuffer s"])
          (auto simp: starts_def finishes_def add.commute)
      ultimately show ?thesis by blast
    next
      case False
      then have n: "?n = u32_size ?b" using size(1) by (simp add: min_def word_le_nat_alt)
      let ?r = "(df @ [f], rlc_PushExtensionBit DATA_FIELD_FOLLOWS h, s)"
      have "um_tx_loop f since room i df h s = Some ?r"
        using pos cut by (subst um_tx_loop.simps)
          (simp add: n um_segment_whole [OF "1.prems"(1,2)] size(1) Let_def)
      moreover have "loop_result f df h s n (unat room) ?r"
        unfolding loop_result_def using "1.prems" False
        by (intro exI [of _ "[f]"] exI [of _ True] exI [of _ "um_txBuffer s"])
          (auto simp: starts_def finishes_def)
      ultimately show ?thesis by blast
    qed
  next
    case fits: False
    have small: "length ?b \<le> 2047" "length ?b \<le> unat room"
      using fits size(1) by (simp_all add: word_less_nat_alt not_less)
    show ?thesis
    proof (cases "um_txBuffer s = [] \<or> room - u32_size ?b \<le> 2")
      case True
      let ?r = "(df @ [f], rlc_PushExtensionBit DATA_FIELD_FOLLOWS h, s)"
      have "um_tx_loop f since room i df h s = Some ?r"
      proof (cases "um_txBuffer s")
        case Nil
        show ?thesis
          by (subst um_tx_loop.simps) (simp only: Let_def pos fits Nil if_True if_False list.case simp_thms)
      next
        case (Cons x xs)
        with True have le: "room - u32_size ?b \<le> 2" by simp
        show ?thesis
          by (subst um_tx_loop.simps) (simp only: Let_def pos fits Cons le if_True if_False list.case simp_thms)
      qed
      moreover have "loop_result f df h s n (unat room) ?r"
        unfolding loop_result_def using "1.prems" small
        by (intro exI [of _ "[f]"] exI [of _ True] exI [of _ "um_txBuffer s"])
          (auto simp: starts_def finishes_def)
      ultimately show ?thesis by blast
    next
      case False
      then obtain x xs where buf: "um_txBuffer s = x # xs" by (cases "um_txBuffer s") auto
      have left: "unat (room - u32_size ?b) = unat room - length ?b"
        using small(2) size(1) by (subst unat_sub) (simp_all add: word_le_nat_alt)
      have more: "unat room > length ?b + 2"
        using False left by (simp add: word_le_nat_alt) linarith
      let ?cost = "(if i mod 2 \<noteq> 0 then 2 else 1) :: u32"
      let ?room = "room - (?cost + u32_size ?b)"
      let ?s = "s\<lparr>um_txBufferSize := um_txBufferSize s - u32_size (tp_bytes x), um_txBuffer := xs\<rparr>"
      let ?h = "push_li (ucast (u32_size ?b)) h"
      have cost: "unat ?cost = header_length (Suc n) - header_length n" "header_length n \<le> header_length (Suc n)"
        "unat ?cost \<le> 2" "unat ((i + 1) :: u32) mod 2 = Suc (Suc n) mod 2"
      proof -
        have "i mod 2 \<noteq> 0 \<longleftrightarrow> n mod 2 = 0"
          using "1.prems"(8) by (simp add: word_unat_eq_iff unat_mod) presburger
        then show "unat ?cost = header_length (Suc n) - header_length n"
          by (simp add: header_length_Suc)
        show "header_length n \<le> header_length (Suc n)" by (simp add: header_length_Suc)
        show "unat ?cost \<le> 2" by simp
        have "unat (i + 1) mod 2 = (unat i + 1) mod 2" by (simp add: unat_word_ariths mod_mod_cancel)
        also have "\<dots> = Suc (Suc n) mod 2" using "1.prems"(8) by presburger
        finally show "unat (i + 1) mod 2 = Suc (Suc n) mod 2" .
      qed
      have "unat (?cost + u32_size ?b) = unat ?cost + length ?b"
        using cost(3) small(1) size(1) by (subst unat_add_no_wrap) simp_all
      then have room: "unat ?room = unat room - (unat ?cost + length ?b)"
        using more cost(3) by (subst unat_sub) (simp_all add: word_le_nat_alt)
      have IH: "\<exists>r. um_tx_loop (tp_pdu x) (tp_waitingSince x) ?room (i + 1) (df @ [f]) ?h ?s = Some r \<and>
          loop_result (tp_pdu x) (df @ [f]) ?h ?s (Suc n) (unat ?room) r"
      proof -
        have "x \<in> set (um_txBuffer s)" by (simp add: buf)
        then have x: "pk_status (tp_pdu x) = Some FULL_SDU" "tp_bytes x \<noteq> []"
          using "1.prems"(4) by (simp_all add: full_entries_def)
        have full: "full_entries (um_txBuffer ?s)" using "1.prems"(4) by (simp add: full_entries_def buf)
        have sz: "um_txBufferSize ?s = of_nat (total_bytes (um_txBuffer ?s))"
          using "1.prems"(5) by (simp add: buf u32_size_def)
        have tot: "length (tp_bytes x) + total_bytes (um_txBuffer ?s) < 2 ^ 32"
          using "1.prems"(6) by (simp add: buf)
        have pos': "0 < unat ?room" using room more cost(3) by simp
        have le: "\<not> room - u32_size ?b \<le> 2" using False buf by simp
        have hh: "rlc_PushLengthIndicator (ucast (u32_size ?b)) (rlc_PushExtensionBit E_LI_FIELDS_FOLLOWS h) = ?h"
          by (simp add: push_li_def)
        show ?thesis
          by (rule "1.IH" [OF refl pos fits buf le, unfolded hh, OF x(1) _ x(2) full sz tot pos' cost(4)]) simp
      qed
      then obtain r where r: "um_tx_loop (tp_pdu x) (tp_waitingSince x) ?room (i + 1) (df @ [f]) ?h ?s = Some r"
        and lr: "loop_result (tp_pdu x) (df @ [f]) ?h ?s (Suc n) (unat ?room) r" by blast
      have le: "(room - u32_size ?b \<le> 2) = False" using False buf by simp
      have "um_tx_loop f since room i df h s = Some r"
        using r by (subst um_tx_loop.simps)
          (simp only: Let_def pos fits buf le push_li_def if_True if_False list.case simp_thms)
      moreover have "loop_result f df h s n (unat room) r"
        using lr loop_result_Cons [OF _ buf "1.prems"(1) small(1)] cost room more by simp
      ultimately show ?thesis by blast
    qed
  qed
qed

section \<open>Transmission opportunities\<close>

lemma um_join_ok:
  assumes "\<forall>x\<in>set xs. pk_status x \<noteq> None"
  shows "um_join packet t xs =
    Some (packet @ concat (map pk_bytes xs), if xs = [] then t else the (pk_status (last xs)))"
  using assms by (induction xs arbitrary: packet t) (auto simp: pk_RemoveTag_def)

definition transmitted :: "rlc_um \<Rightarrow> rlc_pdu list" where
  "transmitted s = concat (map (\<lambda>x. case x of TransmitPdu t \<Rightarrow> [tr_pdu t] | _ \<Rightarrow> []) (um_out s))"

text \<open>The SDUs that are still to be completed, given what the frames left open.\<close>

definition pending :: "u8 list option \<Rightarrow> u8 list list \<Rightarrow> u8 list list" where
  "pending kept items = (case kept of None \<Rightarrow> items | Some k \<Rightarrow> (k @ hd items) # tl items)"

text \<open>
  The invariant: the PDUs sent carry linked frames, numbered in order; what they hold and what is
  in the buffer are the SDUs accepted.
\<close>

definition tx_inv :: "frame list \<Rightarrow> u8 list list \<Rightarrow> rlc_um \<Rightarrow> bool" where
  "tx_inv fs sdus s \<longleftrightarrow>
     linked fs \<and> length (transmitted s) = length fs \<and>
     (\<forall>k<length fs. carries k (fs ! k) (transmitted s ! k)) \<and>
     um_sequenceNumber s = sn_at (length fs) 0 \<and>
     entries_ok (fst (content fs) = None) (um_txBuffer s) \<and>
     sdus = snd (content fs) @ pending (fst (content fs)) (map tp_bytes (um_txBuffer s)) \<and>
     um_txBufferSize s = of_nat (total_bytes (um_txBuffer s)) \<and>
     total_bytes (um_txBuffer s) \<le> unat (um_maxTxBufferSize s) \<and> um_maxTxBufferSize s \<le> 2 ^ 31"

lemma feed_takes:
  assumes "takes cs segs ends left" "cs \<noteq> []" and "feed (begins, segs, ends) (kept, out) = (kept', out')"
  shows "out' @ pending kept' left = out @ pending kept cs \<and> (kept' = None \<longleftrightarrow> ends)"
proof (cases ends)
  case True
  then have "segs \<noteq> []" "cs = segs @ left" using assms(1) by auto
  with True assms(3) show ?thesis by (auto simp: pending_def Let_def split: option.splits)
next
  case False
  with assms(1) obtain ss x y l where
    "segs = ss @ [x]" "left = y # l" "cs = ss @ (x @ y) # l" "x \<noteq> []" "y \<noteq> []" by auto
  with False assms(3) show ?thesis
    by (cases ss) (auto simp: pending_def Let_def split: option.splits)
qed

lemma transmitted_simps [simp]:
  "transmitted (um_emit x s) = transmitted s @ (case x of TransmitPdu t \<Rightarrow> [tr_pdu t] | _ \<Rightarrow> [])"
  "transmitted (s\<lparr>um_txBuffer := buf\<rparr>) = transmitted s"
  "transmitted (s\<lparr>um_txBufferSize := z\<rparr>) = transmitted s"
  "transmitted (s\<lparr>um_sequenceNumber := sn\<rparr>) = transmitted s"
  "transmitted (s\<lparr>um_rbsTimer := r\<rparr>) = transmitted s"
  by (simp_all add: transmitted_def um_emit_def)

lemma um_emit_sel [simp]:
  "um_txBuffer (um_emit x s) = um_txBuffer s" "um_txBufferSize (um_emit x s) = um_txBufferSize s"
  "um_sequenceNumber (um_emit x s) = um_sequenceNumber s" "um_maxTxBufferSize (um_emit x s) = um_maxTxBufferSize s"
  "um_rnti (um_emit x s) = um_rnti s" "um_lcid (um_emit x s) = um_lcid s"
  by (simp_all add: um_emit_def)

lemma add_header_size:
  assumes "rlc_AddHeader (built_header fi sn lis) bytes = Some p"
    and "\<forall>li\<in>set lis. li < 2048" "sn_value sn < 1024" "header_length (length lis) < 2 ^ 16"
  shows "length p = header_length (length lis) + length bytes"
  using add_remove_header [OF built_header_ok [OF assms(2,3), of fi], of bytes] assms(1,4) by auto

lemma indicator_below:
  assumes "length x \<le> 2047"
  shows "ucast (u32_size x) < (2048 :: u16)"
proof -
  have "unat (u32_size x) = length x" using assms by (simp add: u32_size_simps)
  with assms show ?thesis by (simp add: word_less_nat_alt unat_ucast_mod)
qed

text \<open>Putting the PDU together from the segments of the loop.\<close>

lemma frame_pdu:
  assumes "segs \<noteq> []" "\<forall>x\<in>set segs. x \<noteq> []" "\<forall>x\<in>set (butlast segs). length x \<le> 2047"
    and "header_length (length segs - 1) + (\<Sum>x\<leftarrow>segs. length x) \<le> room" "room < 2 ^ 16"
  shows "\<exists>bytes. rlc_AddHeader (frame_header (begins, segs, ends) (sn_at k b)) (concat segs) = Some bytes \<and>
    length bytes \<le> room \<and> frame_ok (begins, segs, ends)"
proof -
  have lis: "\<forall>li\<in>set (indicators segs). li < 2048" using assms(3) indicator_below by auto
  have n: "length (indicators segs) = length segs - 1" by simp
  have sn: "sn_value (sn_at k b) < 1024" by (simp add: word_less_nat_alt)
  have h: "header_length (length (indicators segs)) < 2 ^ 16" using assms(4,5) n by simp
  have f: "frame_header (begins, segs, ends) (sn_at k b) = built_header (frame_fi begins ends) (sn_at k b) (indicators segs)"
    by (simp add: frame_header_def)
  obtain bytes where
    b: "rlc_AddHeader (built_header (frame_fi begins ends) (sn_at k b) (indicators segs)) (concat segs) = Some bytes"
    "length bytes = header_length (length (indicators segs)) + length (concat segs)"
    using add_remove_header [OF built_header_ok [OF lis sn, of "frame_fi begins ends"], of "concat segs"] h by auto
  have "frame_ok (begins, segs, ends)" using assms by (simp add: frame_ok_def)
  then show ?thesis using b assms(4) n unfolding f by (simp add: length_concat)
qed

lemma um_DoNotifyTxOpportunity_ok:
  assumes inv: "tx_inv fs sdus s" and bytes: "unat (op_bytes txOp) < 2 ^ 16"
    and go: "op_bytes txOp > 2" "um_txBuffer s \<noteq> []"
  shows "\<exists>s' f p. um_DoNotifyTxOpportunity now txOp s = Some s' \<and> tx_inv (fs @ [f]) sdus s' \<and>
    um_maxTxBufferSize s' = um_maxTxBufferSize s \<and>
    transmitted s' = transmitted s @ [p] \<and> length (pdu_bytes p) \<le> unat (op_bytes txOp)"
proof -
  from go(2) obtain front rest where buf: "um_txBuffer s = front # rest" by (cases "um_txBuffer s") auto
  obtain kept out where c: "content fs = (kept, out)" by force
  let ?begins = "kept = None" and ?f = "tp_pdu front" and ?room = "op_bytes txOp - 2"
  let ?s1 = "s\<lparr>um_txBufferSize := um_txBufferSize s - u32_size (tp_bytes front), um_txBuffer := rest\<rparr>"
  note inv = inv [unfolded tx_inv_def c fst_conv snd_conv]
  have entries: "entries_ok ?begins (front # rest)" using inv buf by auto
  define st where "st = (if ?begins then FULL_SDU else LAST_SEGMENT)"
  have st: "pk_status ?f = Some st" "st = FULL_SDU \<or> st = LAST_SEGMENT" "pk_bytes ?f \<noteq> []"
    "full_entries rest" "starts st = ?begins"
    using entries by (cases kept; auto simp: st_def full_entries_def starts_def)+
  have tot: "total_bytes (front # rest) < 2 ^ 32"
    using inv buf by (simp add: word_le_nat_alt)
  have sz: "um_txBufferSize ?s1 = of_nat (total_bytes (um_txBuffer ?s1))"
    using inv buf by (simp add: u32_size_def)
  have room: "unat ?room = unat (op_bytes txOp) - 2" "0 < unat ?room"
  proof -
    show "unat ?room = unat (op_bytes txOp) - 2"
      using go(1) by (subst unat_sub) (simp_all add: word_le_nat_alt word_less_nat_alt)
    then show "0 < unat ?room" using go(1) by (simp add: word_less_nat_alt)
  qed
  have "\<exists>r. um_tx_loop ?f (tp_waitingSince front) ?room 1 [] rlc_header0 ?s1 = Some r \<and>
      loop_result ?f [] rlc_header0 ?s1 0 (unat ?room) r"
    by (rule um_tx_loop_ok [OF st(1,2,3)]) (use st(4) sz tot room in simp_all)
  then obtain segs ends left where
    loop: "um_tx_loop ?f (tp_waitingSince front) ?room 1 [] rlc_header0 ?s1 =
      Some (segs, rlc_PushExtensionBit DATA_FIELD_FOLLOWS (fold push_li (indicators (map pk_bytes segs)) rlc_header0),
        ?s1\<lparr>um_txBuffer := left, um_txBufferSize := of_nat (total_bytes left)\<rparr>)"
    and t: "takes (map tp_bytes (front # rest)) (map pk_bytes segs) ends (map tp_bytes left)"
    and tags: "\<forall>x\<in>set segs. pk_status x \<noteq> None" "starts (the (pk_status (hd segs))) = ?begins"
      "finishes (the (pk_status (last segs))) = ends" "entries_ok ends left"
    and small: "\<forall>x\<in>set (butlast segs). length (pk_bytes x) \<le> 2047"
    and total': "header_length (length segs - 1) + (\<Sum>x\<leftarrow>segs. length (pk_bytes x)) \<le> 2 + unat ?room"
    unfolding loop_result_def using st(1,5) by auto
  let ?segs = "map pk_bytes segs"
  have nn: "segs \<noteq> []" using takes_not_Nil [OF t] by simp
  have "\<forall>c\<in>set (map tp_bytes (front # rest)). c \<noteq> []" using st(3,4) by (auto simp: full_entries_def)
  from takes_nonempty [OF t this] have ne: "\<forall>x\<in>set ?segs. x \<noteq> []" "\<forall>x\<in>set (map tp_bytes left). x \<noteq> []" by auto
  let ?frame = "(?begins, ?segs, ends)"
  have sm: "\<forall>x\<in>set (butlast ?segs). length x \<le> 2047" using small by (simp add: map_butlast [symmetric])
  have tl: "header_length (length ?segs - 1) + (\<Sum>x\<leftarrow>?segs. length x) \<le> unat (op_bytes txOp)"
    using total' room by (simp add: comp_def)
  from frame_pdu [OF _ ne(1) sm tl bytes, of ?begins ends "length fs" 0] nn obtain pbytes where
    pb: "rlc_AddHeader (frame_header ?frame (sn_at (length fs) 0)) (concat ?segs) = Some pbytes"
      "length pbytes \<le> unat (op_bytes txOp)" "frame_ok ?frame" by auto
  obtain x xs where x: "segs = x # xs" using nn by (cases segs) auto
  obtain tag where tag: "pk_status x = Some tag" using tags(1) x by auto
  let ?last = "the (pk_status (last segs))"
  have fi: "(if tag = FULL_SDU \<or> tag = FIRST_SEGMENT then FIRST_BYTE else NO_FIRST_BYTE) OR
      (if ?last = FULL_SDU \<or> ?last = LAST_SEGMENT then LAST_BYTE else NO_LAST_BYTE) = frame_fi ?begins ends"
    using tags(2,3) tag by (simp add: frame_fi_def x starts_def finishes_def)
  have h: "rlc_SetFramingInfo (frame_fi ?begins ends) (rlc_SetSequenceNumber sn
      (rlc_PushExtensionBit DATA_FIELD_FOLLOWS (fold push_li (indicators ?segs) rlc_header0))) = frame_header ?frame sn" for sn
    by (simp add: frame_header_def built_header_def)
  define s3 where "s3 = ?s1\<lparr>um_txBuffer := left, um_txBufferSize := of_nat (total_bytes left),
    um_sequenceNumber := sn_at (Suc (length fs)) 0\<rparr>"
  define p where "p = \<lparr>pdu_bytes = pbytes, pdu_stamp = Some now\<rparr>"
  define s5 where "s5 = um_emit (TransmitPdu \<lparr>tr_pdu = p, tr_rnti = um_rnti s, tr_lcid = um_lcid s,
      tr_layer = op_layer txOp, tr_harqProcessId = op_harqId txOp,
      tr_componentCarrierId = op_componentCarrierId txOp\<rparr>)
    (um_emit (TxPduTrace (um_rnti s) (um_lcid s) (u32_size pbytes)) s3)"
  define s' where "s' = (if um_txBuffer s5 \<noteq> [] then s5\<lparr>um_rbsTimer := Some (now + 10000000)\<rparr> else s5)"
  have seq: "um_sequenceNumber s = sn_at (length fs) 0" using inv by simp
  have "um_DoNotifyTxOpportunity now txOp s = Some s'"
  proof -
    have le: "(op_bytes txOp \<le> 2) = False" using go(1) by simp
    have join: "um_join [] tag segs = Some (concat ?segs, ?last)"
      using um_join_ok [OF tags(1), of "[]" tag] nn by simp
    have first: "(case segs of [] \<Rightarrow> None | x # _ \<Rightarrow> pk_status x) = Some tag" by (simp add: x tag)
    have seq': "um_sequenceNumber (?s1\<lparr>um_txBuffer := left, um_txBufferSize := of_nat (total_bytes left)\<rparr>) = sn_at (length fs) 0"
      by (simp add: seq)
    show ?thesis
      unfolding um_DoNotifyTxOpportunity_def buf list.case le if_False Let_def loop Option.bind.simps prod.case
        seq' sn_inc_at first join fi h pb(1)
      by (simp add: s'_def s5_def s3_def p_def)
  qed
  moreover have "transmitted s' = transmitted s @ [p]"
    by (simp add: s'_def s5_def s3_def)
  moreover have "tx_inv (fs @ [?frame]) sdus s'"
  proof -
    obtain kept' out' where c': "feed ?frame (kept, out) = (kept', out')" by force
    then have content: "content (fs @ [?frame]) = (kept', out')" by (simp only: content_snoc c)
    from feed_takes [OF t _ c'] have ft:
      "out' @ pending kept' (map tp_bytes left) = out @ pending kept (map tp_bytes (um_txBuffer s))"
      "kept' = None \<longleftrightarrow> ends" by (simp_all add: buf)
    have lk: "linked (fs @ [?frame])" using inv by (simp add: linked_snoc c)
    have tr: "transmitted s' = transmitted s @ [p]" by (simp add: s'_def s5_def s3_def)
    have cp: "carries (length fs) ?frame p"
      using pb by (auto simp: carries_def p_def)
    have sel: "um_txBuffer s' = left" "um_txBufferSize s' = of_nat (total_bytes left)"
      "um_sequenceNumber s' = sn_at (Suc (length fs)) 0" "um_maxTxBufferSize s' = um_maxTxBufferSize s"
      by (simp_all add: s'_def s5_def s3_def)
    have "total_bytes left \<le> total_bytes (um_txBuffer s)"
      using takes_total [OF t] by (simp add: buf total_bytes_def comp_def)
    then show ?thesis
      unfolding tx_inv_def content fst_conv snd_conv sel
      using inv lk tr cp ft tags(4) by (auto simp: nth_append less_Suc_eq)
  qed
  moreover have "um_maxTxBufferSize s' = um_maxTxBufferSize s" by (simp add: s'_def s5_def s3_def)
  moreover have "length (pdu_bytes p) \<le> unat (op_bytes txOp)" using pb(2) by (simp add: p_def)
  ultimately show ?thesis by blast
qed

section \<open>Submissions and timers\<close>

definition has_room :: "u8 list \<Rightarrow> rlc_um \<Rightarrow> bool" where
  "has_room p s \<longleftrightarrow> um_txBufferSize s + u32_size p \<le> um_maxTxBufferSize s"

lemma report_sel [simp]:
  "um_txBuffer (um_DoReportBufferStatus now s) = um_txBuffer s"
  "um_txBufferSize (um_DoReportBufferStatus now s) = um_txBufferSize s"
  "um_sequenceNumber (um_DoReportBufferStatus now s) = um_sequenceNumber s"
  "um_maxTxBufferSize (um_DoReportBufferStatus now s) = um_maxTxBufferSize s"
  "transmitted (um_DoReportBufferStatus now s) = transmitted s"
  by (simp_all add: um_DoReportBufferStatus_def split: list.split)

lemma tx_inv_same:
  assumes "tx_inv fs sdus s" and "um_txBuffer s' = um_txBuffer s" "um_txBufferSize s' = um_txBufferSize s"
    "um_sequenceNumber s' = um_sequenceNumber s" "um_maxTxBufferSize s' = um_maxTxBufferSize s"
    "transmitted s' = transmitted s"
  shows "tx_inv fs sdus s'"
  using assms by (simp add: tx_inv_def)

lemma entries_ok_snoc:
  assumes "entries_ok b xs" "pk_status (tp_pdu x) = Some FULL_SDU" "tp_bytes x \<noteq> []"
  shows "entries_ok b (xs @ [x])"
  using assms by (cases "(b, xs)" rule: entries_ok.cases) (auto simp: full_entries_def)

lemma pending_snoc:
  assumes "entries_ok (kept = None) xs"
  shows "pending kept (map tp_bytes xs @ [y]) = pending kept (map tp_bytes xs) @ [y]"
  using assms by (cases kept; cases xs) (auto simp: pending_def)

lemma um_DoTransmitPdcpPdu_ok:
  assumes inv: "tx_inv fs sdus s" and p: "p \<noteq> []" "length p < 2 ^ 31"
  shows "\<exists>s'. um_DoTransmitPdcpPdu now \<lparr>pk_bytes = p, pk_status = None\<rparr> s = Some s' \<and>
    tx_inv fs (if has_room p s then sdus @ [p] else sdus) s' \<and> um_maxTxBufferSize s' = um_maxTxBufferSize s"
proof (cases "has_room p s")
  case False
  let ?s = "(um_DoReportBufferStatus now (um_emit (TxDropTrace p) s))\<lparr>um_rbsTimer := None\<rparr>"
  have "um_DoTransmitPdcpPdu now \<lparr>pk_bytes = p, pk_status = None\<rparr> s = Some ?s"
    using False by (simp add: um_DoTransmitPdcpPdu_def has_room_def)
  moreover have "tx_inv fs sdus ?s" using inv by (rule tx_inv_same) simp_all
  ultimately show ?thesis using False by simp
next
  case True
  let ?entry = "\<lparr>tp_pdu = \<lparr>pk_bytes = p, pk_status = Some FULL_SDU\<rparr>, tp_waitingSince = now\<rparr>"
  define s0 where "s0 = um_check_delay now p s"
  have s0: "um_txBuffer s0 = um_txBuffer s" "um_txBufferSize s0 = um_txBufferSize s"
    "um_sequenceNumber s0 = um_sequenceNumber s" "um_maxTxBufferSize s0 = um_maxTxBufferSize s"
    "transmitted s0 = transmitted s"
    by (simp_all add: s0_def um_check_delay_def Let_def)
  have run: "um_DoTransmitPdcpPdu now \<lparr>pk_bytes = p, pk_status = None\<rparr> s =
      Some ((um_DoReportBufferStatus now (s0\<lparr>um_txBuffer := um_txBuffer s0 @ [?entry],
        um_txBufferSize := um_txBufferSize s0 + u32_size p\<rparr>))\<lparr>um_rbsTimer := None\<rparr>)"
    using True by (simp add: um_DoTransmitPdcpPdu_def has_room_def pk_AddTag_def Let_def flip: s0_def)
  have tot: "total_bytes (um_txBuffer s) \<le> unat (um_maxTxBufferSize s)" "unat (um_maxTxBufferSize s) \<le> 2 ^ 31"
    "um_txBufferSize s = of_nat (total_bytes (um_txBuffer s))"
    using inv by (simp_all add: tx_inv_def word_le_nat_alt)
  have sz: "unat (um_txBufferSize s) = total_bytes (um_txBuffer s)"
    using tot by (simp add: unsigned_of_nat take_bit_nat_eq_self)
  have "unat (um_txBufferSize s + u32_size p) = total_bytes (um_txBuffer s) + length p"
    using sz tot p(2) by (subst unat_add_no_wrap) (simp_all add: u32_size_simps)
  then have fit: "total_bytes (um_txBuffer s) + length p \<le> unat (um_maxTxBufferSize s)"
    using True by (simp add: has_room_def word_le_nat_alt)
  let ?s = "(um_DoReportBufferStatus now (s0\<lparr>um_txBuffer := um_txBuffer s0 @ [?entry],
    um_txBufferSize := um_txBufferSize s0 + u32_size p\<rparr>))\<lparr>um_rbsTimer := None\<rparr>"
  have en: "entries_ok (fst (content fs) = None) (um_txBuffer s)" using inv by (simp add: tx_inv_def)
  have "tx_inv fs (sdus @ [p]) ?s"
    using inv s0 fit tot(3) entries_ok_snoc [OF en, of ?entry] pending_snoc [OF en, of p] p(1)
    by (simp add: tx_inv_def u32_size_def)
  then show ?thesis using run True s0(4) by simp
qed

section \<open>Runs\<close>

text \<open>What happens to a transmitter. \<open>RbsExpires\<close> is the event of the RBS timer.\<close>

datatype tx_action = Submit int "u8 list" | Opportunity int tx_opportunity | RbsExpires

text \<open>The state after a step, and the SDUs accepted so far.\<close>

fun tx_step :: "tx_action \<Rightarrow> rlc_um \<times> u8 list list \<Rightarrow> (rlc_um \<times> u8 list list) option" where
  "tx_step (Submit now p) (s, sdus) = do {
     s' \<leftarrow> um_DoTransmitPdcpPdu now \<lparr>pk_bytes = p, pk_status = None\<rparr> s;
     Some (s', if has_room p s then sdus @ [p] else sdus) }"
| "tx_step (Opportunity now txOp) (s, sdus) = do {
     s' \<leftarrow> um_DoNotifyTxOpportunity now txOp s;
     Some (s', sdus) }"
| "tx_step RbsExpires (s, sdus) =
     Some (case um_rbsTimer s of
         None \<Rightarrow> s
       | Some t \<Rightarrow> um_ExpireRbsTimer t (s\<lparr>um_rbsTimer := None\<rparr>), sdus)"

fun tx_run :: "tx_action list \<Rightarrow> rlc_um \<times> u8 list list \<Rightarrow> (rlc_um \<times> u8 list list) option" where
  "tx_run [] c = Some c"
| "tx_run (a # as) c = tx_step a c \<bind> tx_run as"

text \<open>SDUs are not empty and less than 2 GB; transport blocks are less than 64 KB.\<close>

fun tx_legal :: "tx_action \<Rightarrow> bool" where
  "tx_legal (Submit now p) \<longleftrightarrow> p \<noteq> [] \<and> length p < 2 ^ 31"
| "tx_legal (Opportunity now txOp) \<longleftrightarrow> unat (op_bytes txOp) < 2 ^ 16"
| "tx_legal RbsExpires \<longleftrightarrow> True"

text \<open>A new entity with its attributes set.\<close>

definition configured :: "u32 \<Rightarrow> bool \<Rightarrow> u32 \<Rightarrow> int \<Rightarrow> rlc_um \<Rightarrow> rlc_um" where
  "configured maxTxBufferSize discarding discardTimerMs reorderingTimer s =
     s\<lparr>um_maxTxBufferSize := maxTxBufferSize, um_enablePdcpDiscarding := discarding,
       um_discardTimerMs := discardTimerMs, um_reorderingTimerValue := reorderingTimer\<rparr>"

lemma initial_tx_inv:
  "m \<le> 2 ^ 31 \<Longrightarrow> tx_inv [] [] (configured m e d v (LteRlcUm rnti lcid budget))"
  by (simp add: tx_inv_def configured_def LteRlcUm_def linked_def transmitted_def sn_of_def sn_at_def
      pos_value_def full_entries_def pending_def)

lemma tx_step_ok:
  assumes "tx_inv fs sdus s" "tx_legal a"
  shows "\<exists>fs' sdus' s'. tx_step a (s, sdus) = Some (s', sdus') \<and> tx_inv fs' sdus' s'"
proof (cases a)
  case (Submit now p)
  with um_DoTransmitPdcpPdu_ok [OF assms(1), of p now] assms(2) show ?thesis by auto
next
  case (Opportunity now txOp)
  show ?thesis
  proof (cases "op_bytes txOp \<le> 2 \<or> um_txBuffer s = []")
    case True
    then have "um_DoNotifyTxOpportunity now txOp s = Some s"
      by (auto simp: um_DoNotifyTxOpportunity_def)
    with Opportunity assms(1) show ?thesis by auto
  next
    case False
    with um_DoNotifyTxOpportunity_ok [OF assms(1), of txOp now] assms(2) Opportunity show ?thesis
      by (auto simp: not_le)
  qed
next
  case RbsExpires
  have "tx_inv fs sdus (um_ExpireRbsTimer t (s\<lparr>um_rbsTimer := None\<rparr>))" for t
    using assms(1) by (rule tx_inv_same) (simp_all add: um_ExpireRbsTimer_def)
  with RbsExpires assms(1) show ?thesis by (auto split: option.split)
qed

lemma tx_run_ok:
  assumes "\<forall>a\<in>set as. tx_legal a" "tx_inv fs sdus s"
  shows "\<exists>fs' sdus' s'. tx_run as (s, sdus) = Some (s', sdus') \<and> tx_inv fs' sdus' s'"
  using assms
proof (induction as arbitrary: fs sdus s)
  case (Cons a as)
  from tx_step_ok [OF Cons.prems(2), of a] Cons.prems(1) obtain fs' sdus' s' where
    "tx_step a (s, sdus) = Some (s', sdus')" "tx_inv fs' sdus' s'" by auto
  with Cons.IH [of fs' sdus' s'] Cons.prems(1) show ?case by auto
qed auto

end
