(* ===== verification/Rlc_Um_Rx.thy ===== *)
theory Rlc_Um_Rx
  imports Rlc_Um_Tx
begin

text \<open>
  Reassembly in the receiver of RLC UM: what \<open>ReassembleAndDeliver\<close> does with the frame of a PDU,
  and which SDUs it has delivered when an ascending sequence of PDUs with gaps has been processed.
\<close>

section \<open>Taking a PDU apart\<close>

text \<open>The frame a PDU carries, as the receiver reads it.\<close>

definition frame_of :: "rlc_pdu \<Rightarrow> frame option" where
  "frame_of p = do {
     (packet, h) \<leftarrow> rlc_RemoveHeader (pdu_bytes p) rlc_header0;
     segs \<leftarrow> um_split_sdus h packet [];
     Some (rh_framingInfo h AND NO_FIRST_BYTE = 0, segs, rh_framingInfo h AND NO_LAST_BYTE = 0) }"

lemma split_sdus_ok:
  assumes "rh_extensionBits h = header_bits (length segs - 1)" "rh_lengthIndicators h = indicators segs"
    and "segs \<noteq> []" "\<forall>x\<in>set (butlast segs). length x \<le> 2047" "(\<Sum>x\<leftarrow>segs. length x) < 2 ^ 32"
  shows "um_split_sdus h (concat segs) acc = Some (acc @ segs)"
  using assms
proof (induction segs arbitrary: h acc)
  case (Cons x segs)
  show ?case
  proof (cases segs)
    case Nil
    with Cons.prems show ?thesis
      by (subst um_split_sdus.simps) (simp add: header_bits_def rlc_PopExtensionBit_def DATA_FIELD_FOLLOWS_def)
  next
    case (Cons y ys)
    let ?h = "h\<lparr>rh_extensionBits := header_bits (length segs - 1), rh_lengthIndicators := indicators segs\<rparr>"
    have pop: "rlc_PopExtensionBit h = Some (1, h\<lparr>rh_extensionBits := header_bits (length segs - 1)\<rparr>)"
      using Cons.prems(1) Cons by (simp add: header_bits_def rlc_PopExtensionBit_def E_LI_FIELDS_FOLLOWS_def)
    have li: "rlc_PopLengthIndicator (h\<lparr>rh_extensionBits := e\<rparr>) =
        Some (ucast (u32_size x), h\<lparr>rh_extensionBits := e, rh_lengthIndicators := indicators segs\<rparr>)" for e
      using Cons.prems(2) Cons by (simp add: rlc_PopLengthIndicator_def)
    have x: "length x \<le> 2047" using Cons.prems(4) Cons by simp
    then have u: "unat (ucast (u32_size x) :: u16) = length x"
      by (simp add: unat_ucast_mod u32_size_simps)
    have total: "length (concat (x # segs)) < 2 ^ 32" using Cons.prems(5) by (simp add: length_concat)
    have frag: "CreateFragment0 (ucast (ucast (u32_size x) :: u16)) (concat (x # segs)) = Some x"
      using u u32_size_simps(1) [OF total]
      by (simp add: CreateFragment0_def word_le_nat_alt unat_ucast_up)
    have "um_split_sdus ?h (concat segs) (acc @ [x]) = Some ((acc @ [x]) @ segs)"
      by (rule Cons.IH) (use Cons.prems Cons in auto)
    then show ?thesis
      by (subst um_split_sdus.simps) (simp add: pop li frag [simplified] u)
  qed
qed simp

lemma carries_header:
  assumes "carries k (begins, segs, ends) p"
  obtains h where "rlc_PeekHeader (pdu_bytes p) rlc_header0 = Some h"
    "rlc_RemoveHeader (pdu_bytes p) rlc_header0 = Some (concat segs, h)"
    "rh_sequenceNumber h = sn_at k 0" "rh_framingInfo h = frame_fi begins ends"
    "\<And>acc. um_split_sdus h (concat segs) acc = Some (acc @ segs)"
proof -
  from assms obtain b where
    b: "rlc_AddHeader (frame_header (begins, segs, ends) (sn_at k b)) (concat segs) = Some (pdu_bytes p)"
    and ok: "frame_ok (begins, segs, ends)" by (auto simp: carries_def)
  let ?h = "frame_header (begins, segs, ends) (sn_at k b)"
  have small: "segs \<noteq> []" "\<forall>x\<in>set (butlast segs). length x \<le> 2047" "(\<Sum>x\<leftarrow>segs. length x) < 2 ^ 32"
    "header_length (length segs - 1) < 2 ^ 16"
    using ok by (auto simp: frame_ok_def)
  have lis: "\<forall>li\<in>set (indicators segs). li < 2048" using small(2) indicator_below by auto
  have sn: "sn_value (sn_at k b) < 1024" by (simp add: word_less_nat_alt)
  have len: "length (indicators segs) = length segs - 1" by simp
  have h: "?h = built_header (frame_fi begins ends) (sn_at k b) (indicators segs)" by (simp add: frame_header_def)
  have "header_ok ?h" unfolding h by (rule built_header_ok [OF lis sn])
  moreover have "header_length (length (rh_lengthIndicators ?h)) < 2 ^ 16" unfolding h using small(4) len by simp
  ultimately obtain q where q: "rlc_AddHeader ?h (concat segs) = Some q"
    "rlc_PeekHeader q rlc_header0 = Some (received ?h)"
    "rlc_RemoveHeader q rlc_header0 = Some (concat segs, received ?h)"
    using add_remove_header [of ?h "concat segs"] by blast
  have "frame_fi begins ends AND 3 = frame_fi begins ends"
    by (simp add: frame_fi_def FIRST_BYTE_def NO_FIRST_BYTE_def LAST_BYTE_def NO_LAST_BYTE_def)
  then have "rh_framingInfo (received ?h) = frame_fi begins ends" "rh_sequenceNumber (received ?h) = sn_at k 0"
    by (simp_all add: received_def h)
  moreover have "um_split_sdus (received ?h) (concat segs) acc = Some (acc @ segs)" for acc
    by (rule split_sdus_ok) (use small len in \<open>simp_all add: received_def h\<close>)
  moreover have "q = pdu_bytes p" using b q(1) by simp
  ultimately show thesis using q that by simp
qed

lemma frame_of_carries: "carries k f p \<Longrightarrow> frame_of p = Some f"
proof -
  assume c: "carries k f p"
  obtain begins segs ends where f: "f = (begins, segs, ends)" by (cases f) auto
  obtain h where h: "rlc_RemoveHeader (pdu_bytes p) rlc_header0 = Some (concat segs, h)"
    "rh_framingInfo h = frame_fi begins ends" "\<And>acc. um_split_sdus h (concat segs) acc = Some (acc @ segs)"
    using carries_header [OF c [unfolded f]] by metis
  then show ?thesis
    by (simp add: frame_of_def f frame_fi_def FIRST_BYTE_def NO_FIRST_BYTE_def LAST_BYTE_def NO_LAST_BYTE_def)
qed

section \<open>One PDU\<close>

definition delivered :: "rlc_um \<Rightarrow> u8 list list" where
  "delivered s = concat (map (\<lambda>x. case x of ReceivePdcpPdu p \<Rightarrow> [p] | _ \<Rightarrow> []) (um_out s))"

text \<open>
  What the receiver does with a frame, by what it has kept of an SDU and whether PDUs were lost
  before it: the SDUs it delivers and what it keeps.
\<close>

fun absorb :: "bool \<Rightarrow> frame \<Rightarrow> u8 list option \<Rightarrow> u8 list list \<times> u8 list option" where
  "absorb lost (begins, segs, ends) kept =
     (let segs' = (if begins then segs
                   else case (lost, kept) of
                       (False, Some k) \<Rightarrow> (k @ hd segs) # tl segs
                     | _ \<Rightarrow> tl segs) in
      if ends then (segs', None)
      else if segs' = [] then ([], None) else (butlast segs', Some (last segs')))"

text \<open>The receiver between PDUs, with the given beginning of an SDU kept.\<close>

definition holds :: "u8 list option \<Rightarrow> rlc_um \<Rightarrow> bool" where
  "holds kept s \<longleftrightarrow> um_sdusBuffer s = [] \<and>
     (case kept of
        None \<Rightarrow> um_reassemblingState s = WAITING_S0_FULL
      | Some k \<Rightarrow> um_reassemblingState s = WAITING_SI_SF \<and> um_keepS0 s = Some k)"

lemma fold_deliver [simp]: "fold um_deliver xs s = s\<lparr>um_out := um_out s @ map ReceivePdcpPdu xs\<rparr>"
  by (induction xs arbitrary: s) (simp_all add: um_deliver_def um_emit_def)

lemmas um_reassemble_defs = um_no_loss_S0_def um_no_loss_SI_def um_loss_S0_def um_loss_SI_def
  um_deliver_all_def um_deliver_but_last_def um_pop_front_def um_discard_front_def um_keep_front_def
  um_append_kept_def um_discard_middle_def um_deliver_def um_emit_def

lemma frame_fi_eq [simp]:
  "frame_fi b e = FIRST_BYTE OR LAST_BYTE \<longleftrightarrow> b \<and> e"
  "frame_fi b e = FIRST_BYTE OR NO_LAST_BYTE \<longleftrightarrow> b \<and> \<not> e"
  "frame_fi b e = NO_FIRST_BYTE OR LAST_BYTE \<longleftrightarrow> \<not> b \<and> e"
  "frame_fi b e = NO_FIRST_BYTE OR NO_LAST_BYTE \<longleftrightarrow> \<not> b \<and> \<not> e"
  by (cases b; cases e; simp add: frame_fi_def FIRST_BYTE_def NO_FIRST_BYTE_def LAST_BYTE_def NO_LAST_BYTE_def)+

text \<open>Only these fields change.\<close>

definition reassembled :: "u8 list list \<Rightarrow> u8 list option \<Rightarrow> rlc_um \<Rightarrow> rlc_um \<Rightarrow> bool" where
  "reassembled dels kept s s' \<longleftrightarrow> holds kept s' \<and>
     s' = s\<lparr>um_sdusBuffer := [], um_reassemblingState := um_reassemblingState s', um_keepS0 := um_keepS0 s',
        um_out := um_out s @ map ReceivePdcpPdu dels\<rparr>"

lemma drop_last: "xs \<noteq> [] \<Longrightarrow> drop (length xs - Suc 0) xs = [last xs]"
  by (induction xs) (auto simp: neq_Nil_conv)

lemma drop_length_Cons: "drop (length xs) (a # xs) = [last (a # xs)]"
  by (induction xs arbitrary: a) auto

lemma um_reassemble_ok:
  assumes "holds kept s" "segs \<noteq> []" and "\<not> lost \<and> begins \<longrightarrow> kept = None"
    and "absorb lost (begins, segs, ends) kept = (dels, kept')"
  shows "\<exists>s'. um_reassemble lost (frame_fi begins ends) (s\<lparr>um_sdusBuffer := segs\<rparr>) = Some s' \<and>
    reassembled dels kept' s s'"
proof -
  obtain x xs where segs: "segs = x # xs" using assms(2) by (cases segs) auto
  note defs = um_reassemble_def um_reassemble_defs reassembled_def holds_def segs Let_def
  show ?thesis
  proof (cases kept)
    case None
    then have h: "um_sdusBuffer s = []" "um_reassemblingState s = WAITING_S0_FULL"
      using assms(1) by (simp_all add: holds_def)
    from assms(3,4) h None show ?thesis
      by (cases begins; cases ends; cases lost; cases xs) (auto simp: defs drop_last drop_length_Cons)
  next
    case (Some k)
    then have h: "um_sdusBuffer s = []" "um_reassemblingState s = WAITING_SI_SF" "um_keepS0 s = Some k"
      using assms(1) by (simp_all add: holds_def)
    from assms(3) Some have l: "begins \<Longrightarrow> lost" by auto
    show ?thesis
    proof (cases begins)
      case True
      with assms(4) h Some l show ?thesis by (cases ends; cases xs; clarsimp simp: defs drop_last drop_length_Cons)
    next
      case False
      note rest = this assms(4) h Some
      show ?thesis
      proof (cases lost)
        case True
        with rest show ?thesis by (cases ends; cases xs; clarsimp simp: defs drop_last drop_length_Cons)
      next
        case False
        note rest = this rest
        consider "ends" | "\<not> ends" "xs = []" | y ys where "\<not> ends" "xs = y # ys" by (cases xs) auto
        then show ?thesis
        proof cases
          case 1
          with rest show ?thesis by (clarsimp simp: defs)
        next
          case 2
          with rest show ?thesis by (clarsimp simp: defs)
        next
          case 3
          with rest show ?thesis by (clarsimp simp: defs drop_length_Cons)
        qed
      qed
    qed
  qed
qed

text \<open>
  \<open>ReassembleAndDeliver\<close> of the PDU number \<open>k\<close> when the receiver expects number \<open>r\<close>.
\<close>

lemma um_ReassembleAndDeliver_ok:
  assumes "carries k (begins, segs, ends) p" "holds kept s" "um_expectedSeqNumber s = sn_at r c"
    and lost: "lost \<longleftrightarrow> k mod 1024 \<noteq> r mod 1024" and "\<not> lost \<and> begins \<longrightarrow> kept = None"
    and "absorb lost (begins, segs, ends) kept = (dels, kept')"
  shows "\<exists>s' c'. um_ReassembleAndDeliver p s = Some s' \<and>
    reassembled dels kept' (s\<lparr>um_expectedSeqNumber := sn_at (Suc k) c'\<rparr>) s'"
proof -
  from carries_header [OF assms(1)] obtain h where
    h: "rlc_RemoveHeader (pdu_bytes p) rlc_header0 = Some (concat segs, h)"
      "rh_sequenceNumber h = sn_at k 0" "rh_framingInfo h = frame_fi begins ends"
      "\<And>acc. um_split_sdus h (concat segs) acc = Some (acc @ segs)" by metis
  have nn: "segs \<noteq> []" using assms(1) by (simp add: carries_def frame_ok_def)
  have neq: "sn_neq (rh_sequenceNumber h) (um_expectedSeqNumber s) \<longleftrightarrow> lost"
    using lost assms(3) h(2) by (simp add: sn_neq_def pos_value_eq_iff)
  define c' where "c' = (if lost then 0 else c)"
  have next': "(if lost then sn_plus (rh_sequenceNumber h) 1 else snd (sn_inc (um_expectedSeqNumber s))) = sn_at (Suc k) c'"
  proof (cases lost)
    case False
    then have "Suc k mod 1024 = Suc r mod 1024" using lost by (metis mod_Suc_eq)
    then have "pos_value (Suc r) = pos_value (Suc k)" by (simp add: pos_value_eq_iff)
    then have "sn_at (Suc r) c = sn_at (Suc k) c" by (simp add: sn_at_def)
    with False assms(3) show ?thesis by (simp add: c'_def)
  qed (use h(2) in \<open>simp add: c'_def\<close>)
  let ?s1 = "s\<lparr>um_expectedSeqNumber := sn_at (Suc k) c'\<rparr>"
  have "holds kept ?s1" "um_sdusBuffer ?s1 = []" using assms(2) by (simp_all add: holds_def split: option.splits)
  then obtain s' where "um_reassemble lost (frame_fi begins ends) (?s1\<lparr>um_sdusBuffer := segs\<rparr>) = Some s'"
    "reassembled dels kept' ?s1 s'"
    using um_reassemble_ok [OF _ nn assms(5,6)] by blast
  moreover have "um_split_sdus h (concat segs) (um_sdusBuffer s) = Some segs"
    using h(4) assms(2) by (simp add: holds_def)
  ultimately show ?thesis
    using h(1,3) neq next' by (auto simp: um_ReassembleAndDeliver_def Let_def)
qed

end
