(* ===== verification/Rlc_Um_Losses.thy ===== *)
theory Rlc_Um_Losses
  imports Rlc_Um_Rx
begin

text \<open>
  Which SDUs the receiver has delivered when it has processed an ascending sequence of frames with
  gaps: exactly those all of whose frames it processed.
\<close>

section \<open>Frames and SDUs\<close>

text \<open>The number of SDUs completed by the first \<open>k\<close> frames, and the frames that carry a part of an SDU.\<close>

definition finished :: "frame list \<Rightarrow> nat \<Rightarrow> nat" where
  "finished fs k = length (snd (content (take k fs)))"

definition frame_size :: "frame \<Rightarrow> nat" where
  "frame_size f = length (fst (snd f))"

definition carriers :: "frame list \<Rightarrow> nat \<Rightarrow> nat set" where
  "carriers fs j = {k. k < length fs \<and> finished fs k \<le> j \<and> j < finished fs k + frame_size (fs ! k)}"

text \<open>The segments of a frame, the first one completed to what the frames before it left open.\<close>

definition joined :: "frame list \<Rightarrow> nat \<Rightarrow> u8 list list" where
  "joined fs k =
     (let segs = fst (snd (fs ! k)) in
      case fst (content (take k fs)) of None \<Rightarrow> segs | Some b \<Rightarrow> (b @ hd segs) # tl segs)"

definition frame_ends :: "frame \<Rightarrow> bool" where
  "frame_ends f = snd (snd f)"

definition frames_ok :: "frame list \<Rightarrow> bool" where
  "frames_ok fs \<longleftrightarrow> linked fs \<and> (\<forall>f\<in>set fs. fst (snd f) \<noteq> [])"

lemma size_pos: "frames_ok fs \<Longrightarrow> k < length fs \<Longrightarrow> 0 < frame_size (fs ! k)"
  by (auto simp: frames_ok_def frame_size_def)

lemma length_joined: "frames_ok fs \<Longrightarrow> k < length fs \<Longrightarrow> length (joined fs k) = frame_size (fs ! k)"
  using size_pos [of fs k] by (auto simp: joined_def frame_size_def Let_def split: option.split)

lemma content_Suc:
  assumes ok: "frames_ok fs" and a: "k < length fs"
  shows "content (take (Suc k) fs) =
    (if frame_ends (fs ! k) then (None, snd (content (take k fs)) @ joined fs k)
     else (Some (last (joined fs k)), snd (content (take k fs)) @ butlast (joined fs k)))"
proof -
  obtain b segs e where f: "fs ! k = (b, segs, e)" by (cases "fs ! k") auto
  show ?thesis
    using a by (cases "content (take k fs)")
      (auto simp: take_Suc_conv_app_nth content_snoc f frame_ends_def joined_def Let_def split: option.splits)
qed

lemma finished_Suc:
  assumes ok: "frames_ok fs" and a: "k < length fs"
  shows "finished fs (Suc k) = finished fs k + (if frame_ends (fs ! k) then frame_size (fs ! k) else frame_size (fs ! k) - 1)"
  using a length_joined [OF ok a] by (simp add: finished_def content_Suc [OF ok])

lemma finished_mono:
  assumes ok: "frames_ok fs" and a: "i \<le> k" "k \<le> length fs"
  shows "finished fs i \<le> finished fs k"
  using a by (induction rule: dec_induct) (auto simp: finished_Suc [OF ok])

text \<open>The SDUs of the first frames stay what they are.\<close>

lemma sdus_take:
  assumes ok: "frames_ok fs" and a: "i \<le> k" "k \<le> length fs"
  shows "\<exists>xs. snd (content (take k fs)) = snd (content (take i fs)) @ xs"
  using a by (induction rule: dec_induct) (auto simp: content_Suc [OF ok])

lemma frame_reach:
  assumes ok: "frames_ok fs" and a: "c < k" "k \<le> length fs"
  shows "finished fs c + frame_size (fs ! c) \<le> Suc (finished fs k)"
  using finished_mono [OF ok, of "Suc c" k] finished_Suc [OF ok, of c] a by (simp split: if_splits)

lemma closed_reach:
  assumes ok: "frames_ok fs" and a: "c < k" "k \<le> length fs" "fst (content (take k fs)) = None"
  shows "finished fs c + frame_size (fs ! c) \<le> finished fs k"
proof -
  obtain i where k: "k = Suc i" using a(1) by (cases k) auto
  then have e: "frame_ends (fs ! i)" using a(2,3) content_Suc [OF ok, of i] by (auto split: if_splits)
  show ?thesis
  proof (cases "c = i")
    case True
    with e k a(2) show ?thesis by (simp add: finished_Suc [OF ok])
  next
    case False
    with a k have "finished fs c + frame_size (fs ! c) \<le> Suc (finished fs i)" by (intro frame_reach [OF ok]) auto
    with e k a(2) size_pos [OF ok, of i] show ?thesis by (simp add: finished_Suc [OF ok])
  qed
qed

text \<open>The carriers of the SDU at the border before frame \<open>k\<close>, and of those behind it.\<close>

lemma carrier_before:
  assumes ok: "frames_ok fs" and a: "c \<in> carriers fs j" "c < k" "k \<le> length fs" "finished fs k \<le> j"
  shows "j = finished fs k" and "fst (content (take k fs)) \<noteq> None"
  using a frame_reach [OF ok, of c k] closed_reach [OF ok, of c k] by (auto simp: carriers_def)

lemma carrier_after:
  assumes ok: "frames_ok fs" and a: "c \<in> carriers fs j" "j < finished fs (Suc k)" "k < length fs"
  shows "c \<le> k"
  using a finished_mono [OF ok, of "Suc k" c] by (force simp: carriers_def)

lemma open_carrier:
  assumes ok: "frames_ok fs" and a: "0 < k" "k \<le> length fs" "fst (content (take k fs)) \<noteq> None"
  shows "k - 1 \<in> carriers fs (finished fs k)"
proof -
  obtain i where k: "k = Suc i" using a(1) by (cases k) auto
  have "\<not> frame_ends (fs ! i)" using a(2,3) content_Suc [OF ok, of i] k by (auto split: if_splits)
  then show ?thesis
    using a(2) k size_pos [OF ok, of i] by (simp add: carriers_def finished_Suc [OF ok])
qed

lemma finishing_frame:
  assumes ok: "frames_ok fs" and a: "r \<le> k" "k \<le> length fs" "finished fs r \<le> j" "j < finished fs k"
  shows "\<exists>c. r \<le> c \<and> c < k \<and> c \<in> carriers fs j"
  using a
proof (induction rule: dec_induct)
  case (step i)
  show ?case
  proof (cases "j < finished fs i")
    case True
    with step show ?thesis by auto
  next
    case False
    with step.prems finished_Suc [OF ok, of i] step.hyps have "i \<in> carriers fs j"
      by (auto simp: carriers_def split: if_splits)
    with step show ?thesis by auto
  qed
qed simp

section \<open>Processing with gaps\<close>

text \<open>
  The frames processed are \<open>P\<close>, all below \<open>r\<close>, and \<open>r - 1\<close> is one of them. What has been delivered,
  and what is kept of the SDU at the border.
\<close>

definition deliverable :: "frame list \<Rightarrow> nat set \<Rightarrow> nat \<Rightarrow> u8 list list" where
  "deliverable fs P r =
     map ((!) (snd (content fs))) (filter (\<lambda>j. carriers fs j \<subseteq> P) [0..<finished fs r])"

definition border_complete :: "frame list \<Rightarrow> nat set \<Rightarrow> nat \<Rightarrow> bool" where
  "border_complete fs P r \<longleftrightarrow> (\<forall>c\<in>carriers fs (finished fs r). c < r \<longrightarrow> c \<in> P)"

definition kept_at :: "frame list \<Rightarrow> nat set \<Rightarrow> nat \<Rightarrow> u8 list option" where
  "kept_at fs P r = (if border_complete fs P r then fst (content (take r fs)) else None)"

definition processed_to :: "nat set \<Rightarrow> nat \<Rightarrow> bool" where
  "processed_to P r \<longleftrightarrow> P \<subseteq> {..<r} \<and> (0 < r \<longrightarrow> r - 1 \<in> P)"

lemma map_nth_middle:
  "map ((!) (xs @ ys @ zs)) [length xs..<length xs + length ys] = ys"
  by (rule nth_equalityI) (auto simp: nth_append)

text \<open>The SDUs that frame \<open>k\<close> completes.\<close>

definition completed :: "frame list \<Rightarrow> nat \<Rightarrow> u8 list list" where
  "completed fs k = (if frame_ends (fs ! k) then joined fs k else butlast (joined fs k))"

lemma sdus_of_frame:
  assumes ok: "frames_ok fs" and a: "k < length fs"
  shows "map ((!) (snd (content fs))) [finished fs k..<finished fs (Suc k)] = completed fs k"
proof -
  have "snd (content (take (Suc k) fs)) = snd (content (take k fs)) @ completed fs k"
    using content_Suc [OF ok a] by (simp add: completed_def)
  moreover obtain xs where "snd (content fs) = snd (content (take (Suc k) fs)) @ xs"
    using sdus_take [OF ok, of "Suc k" "length fs"] a by auto
  ultimately have "snd (content fs) = snd (content (take k fs)) @ completed fs k @ xs"
    "finished fs (Suc k) = finished fs k + length (completed fs k)"
    by (simp_all add: finished_def)
  then show ?thesis by (simp add: map_nth_middle finished_def)
qed

text \<open>When frame \<open>k\<close> is the next one processed: the range of SDUs it decides.\<close>

lemma filter_upt_true: "(\<And>j. a \<le> j \<Longrightarrow> j < b \<Longrightarrow> Q j) \<Longrightarrow> filter Q [a..<b] = [a..<b]"
  by (rule filter_True) simp

lemma filter_upt_false: "(\<And>j. a \<le> j \<Longrightarrow> j < b \<Longrightarrow> \<not> Q j) \<Longrightarrow> filter Q [a..<b] = []"
  by (rule filter_False) simp

lemma deliverable_step:
  assumes ok: "frames_ok fs" and p: "processed_to P r" and a: "r \<le> k" "k < length fs"
  shows "deliverable fs (insert k P) (Suc k) =
    deliverable fs P r @ (if border_complete fs P k then completed fs k else tl (completed fs k))"
proof -
  let ?Q = "\<lambda>j. carriers fs j \<subseteq> insert k P" and ?sdu = "(!) (snd (content fs))"
  let ?E = "finished fs"
  have E: "?E r \<le> ?E k" "?E k \<le> ?E (Suc k)" using a finished_mono [OF ok] by auto
  have "filter ?Q [0..<?E r] = filter (\<lambda>j. carriers fs j \<subseteq> P) [0..<?E r]"
  proof (rule filter_cong [OF refl])
    fix j assume "j \<in> set [0..<?E r]"
    then have "k \<notin> carriers fs j" using E by (auto simp: carriers_def)
    then show "?Q j \<longleftrightarrow> carriers fs j \<subseteq> P" by auto
  qed
  moreover have "filter ?Q [?E r..<?E k] = []"
  proof (rule filter_upt_false)
    fix j assume "?E r \<le> j" "j < ?E k"
    from finishing_frame [OF ok a(1) less_imp_le [OF a(2)] this] obtain c where
      "r \<le> c" "c < k" "c \<in> carriers fs j" by blast
    moreover from this have "c \<notin> P" using p by (auto simp: processed_to_def)
    ultimately show "\<not> ?Q j" by auto
  qed
  moreover have "map ?sdu (filter ?Q [?E k..<?E (Suc k)]) =
    (if border_complete fs P k then completed fs k else tl (completed fs k))"
  proof (cases "?E k = ?E (Suc k)")
    case True
    then show ?thesis using sdus_of_frame [OF ok a(2)] by simp
  next
    case False
    then have ne: "?E k < ?E (Suc k)" using E by simp
    have rest: "?Q j" if "Suc (?E k) \<le> j" "j < ?E (Suc k)" for j
    proof
      fix c assume c: "c \<in> carriers fs j"
      have "c \<le> k" using carrier_after [OF ok c that(2) a(2)] .
      moreover have "\<not> c < k" using carrier_before(1) [OF ok c, of k] a(2) that(1) by auto
      ultimately show "c \<in> insert k P" by simp
    qed
    have first: "?Q (?E k) \<longleftrightarrow> border_complete fs P k"
      using carrier_after [OF ok _ ne a(2)] by (auto simp: border_complete_def dest: le_neq_implies_less)
    have "completed fs k = ?sdu (?E k) # map ?sdu [Suc (?E k)..<?E (Suc k)]"
      using sdus_of_frame [OF ok a(2)] ne by (simp add: upt_conv_Cons)
    then show ?thesis using ne first filter_upt_true [of "Suc (?E k)" "?E (Suc k)" ?Q, OF rest]
      by (simp add: upt_conv_Cons)
  qed
  moreover have "[0..<?E (Suc k)] = [0..<?E r] @ [?E r..<?E k] @ [?E k..<?E (Suc k)]"
    using E by (metis append_assoc le_add_diff_inverse upt_add_eq_append zero_le)
  ultimately show ?thesis by (simp add: deliverable_def)
qed

lemma border_complete_Suc:
  assumes ok: "frames_ok fs" and a: "k < length fs" "\<not> frame_ends (fs ! k)"
  shows "border_complete fs (insert k P) (Suc k) \<longleftrightarrow> border_complete fs P k \<or> 1 < frame_size (fs ! k)"
proof (cases "frame_size (fs ! k) = 1")
  case True
  then have "finished fs (Suc k) = finished fs k" using finished_Suc [OF ok a(1)] a(2) by simp
  with True show ?thesis by (auto simp: border_complete_def less_Suc_eq)
next
  case False
  then have big: "1 < frame_size (fs ! k)" using size_pos [OF ok a(1)] by simp
  then have "finished fs k < finished fs (Suc k)" using finished_Suc [OF ok a(1)] a(2) by simp
  then have "c = k" if "c \<in> carriers fs (finished fs (Suc k))" "c < Suc k" for c
    using carrier_before(1) [OF ok that(1), of k] that(2) a(1) by (cases "c < k") auto
  with big show ?thesis by (auto simp: border_complete_def)
qed

lemma absorb_step:
  assumes ok: "frames_ok fs" and p: "processed_to P r" and a: "r \<le> k" "k < length fs"
  shows "absorb (k \<noteq> r) (fs ! k) (kept_at fs P r) =
      (if border_complete fs P k then completed fs k else tl (completed fs k), kept_at fs (insert k P) (Suc k))"
    and "k = r \<and> fst (fs ! k) \<longrightarrow> kept_at fs P r = None"
proof -
  obtain begins segs ends where f: "fs ! k = (begins, segs, ends)" by (cases "fs ! k") auto
  have link: "begins \<longleftrightarrow> fst (content (take k fs)) = None"
    using ok a(2) f unfolding frames_ok_def linked_def by force
  have e: "frame_ends (fs ! k) = ends" "frame_size (fs ! k) = length segs" "segs \<noteq> []"
    using size_pos [OF ok a(2)] f by (auto simp: frame_ends_def frame_size_def)
  define segs' where "segs' = (if begins then segs
    else case (k \<noteq> r, kept_at fs P r) of (False, Some b) \<Rightarrow> (b @ hd segs) # tl segs | _ \<Rightarrow> tl segs)"
  have segs': "segs' = (if border_complete fs P k then joined fs k else tl (joined fs k))"
  proof (cases begins)
    case True
    then have "border_complete fs P k"
      using link carrier_before(2) [OF ok] a(2) by (fastforce simp: border_complete_def)
    with True link f show ?thesis by (simp add: segs'_def joined_def)
  next
    case False
    then obtain b where b: "fst (content (take k fs)) = Some b" using link by auto
    then have j: "joined fs k = (b @ hd segs) # tl segs" using f by (simp add: joined_def)
    show ?thesis
    proof (cases "k = r")
      case True
      with False b j show ?thesis by (simp add: segs'_def kept_at_def)
    next
      case lost: False
      have "k - 1 \<in> carriers fs (finished fs k)" using open_carrier [OF ok, of k] lost a b by simp
      moreover have "k - 1 \<notin> P" "k - 1 < k" using p lost a(1) by (auto simp: processed_to_def)
      ultimately have "\<not> border_complete fs P k" by (auto simp: border_complete_def)
      with False lost j show ?thesis by (simp add: segs'_def)
    qed
  qed
  have ab: "absorb (k \<noteq> r) (fs ! k) (kept_at fs P r) =
    (if ends then (segs', None) else if segs' = [] then ([], None) else (butlast segs', Some (last segs')))"
    by (simp add: f segs'_def Let_def)
  have len: "length (joined fs k) = length segs" using length_joined [OF ok a(2)] e(2) by simp
  have c: "fst (content (take (Suc k) fs)) = (if ends then None else Some (last (joined fs k)))"
    using content_Suc [OF ok a(2)] e(1) by simp
  show "absorb (k \<noteq> r) (fs ! k) (kept_at fs P r) =
      (if border_complete fs P k then completed fs k else tl (completed fs k), kept_at fs (insert k P) (Suc k))"
  proof (cases ends)
    case True
    then show ?thesis unfolding ab segs' by (simp add: completed_def e kept_at_def c)
  next
    case False
    obtain x xs where x: "joined fs k = x # xs" using len e(3) by (cases "joined fs k") auto
    have "kept_at fs (insert k P) (Suc k) =
        (if border_complete fs P k \<or> xs \<noteq> [] then Some (last (joined fs k)) else None)"
      using border_complete_Suc [OF ok a(2), of P] False e(1,2) len x c by (cases xs) (simp_all add: kept_at_def)
    with False x show ?thesis unfolding ab segs' by (cases xs) (simp_all add: completed_def e)
  qed
  show "k = r \<and> fst (fs ! k) \<longrightarrow> kept_at fs P r = None"
    using link f by (auto simp: kept_at_def)
qed

section \<open>The receiver\<close>

text \<open>
  The receiver has processed the frames \<open>P\<close> up to \<open>r\<close>: it expects number \<open>r\<close>, holds what it must
  of the SDU at the border and has delivered what it can.
\<close>

definition rx_processed :: "frame list \<Rightarrow> nat set \<Rightarrow> nat \<Rightarrow> rlc_um \<Rightarrow> bool" where
  "rx_processed fs P r s \<longleftrightarrow> processed_to P r \<and> r \<le> length fs \<and>
     (\<exists>c. um_expectedSeqNumber s = sn_at r c) \<and> holds (kept_at fs P r) s \<and>
     delivered s = deliverable fs P r"

lemma delivered_out [simp]:
  "delivered (s\<lparr>um_out := um_out s @ map ReceivePdcpPdu xs\<rparr>) = delivered s @ xs"
  by (induction xs arbitrary: s rule: rev_induct) (simp_all add: delivered_def)

lemma rx_processed_step:
  assumes ok: "frames_ok fs" and rx: "rx_processed fs P r s" and a: "r \<le> k" "k < r + 1024" "k < length fs"
    and p: "carries k (fs ! k) p"
  shows "\<exists>s'. um_ReassembleAndDeliver p s = Some s' \<and> rx_processed fs (insert k P) (Suc k) s' \<and>
    (\<exists>e st k0 out. s' = s\<lparr>um_expectedSeqNumber := e, um_sdusBuffer := [], um_reassemblingState := st,
      um_keepS0 := k0, um_out := out\<rparr>)"
proof -
  obtain begins segs ends where f: "fs ! k = (begins, segs, ends)" by (cases "fs ! k") auto
  have P: "processed_to P r" using rx by (simp add: rx_processed_def)
  obtain c where c: "um_expectedSeqNumber s = sn_at r c" using rx by (auto simp: rx_processed_def)
  have lost: "k \<noteq> r \<longleftrightarrow> k mod 1024 \<noteq> r mod 1024"
    using pos_value_inj [of k r] a(1,2) by (auto simp: pos_value_eq_iff)
  note step = absorb_step [OF ok P a(1,3)]
  have "holds (kept_at fs P r) s" using rx by (simp add: rx_processed_def)
  from um_ReassembleAndDeliver_ok [OF p [unfolded f] this c lost _ step(1) [unfolded f]] step(2) obtain s' c' where
    run: "um_ReassembleAndDeliver p s = Some s'"
    and re: "reassembled (if border_complete fs P k then completed fs k else tl (completed fs k))
      (kept_at fs (insert k P) (Suc k)) (s\<lparr>um_expectedSeqNumber := sn_at (Suc k) c'\<rparr>) s'"
    using f by auto
  let ?d = "if border_complete fs P k then completed fs k else tl (completed fs k)"
  have s': "s' = s\<lparr>um_expectedSeqNumber := sn_at (Suc k) c', um_sdusBuffer := [],
      um_reassemblingState := um_reassemblingState s', um_keepS0 := um_keepS0 s',
      um_out := um_out s @ map ReceivePdcpPdu ?d\<rparr>"
    using re by (simp add: reassembled_def)
  have "delivered s' = delivered s @ ?d"
    by (subst s') (simp add: delivered_def comp_def)
  moreover have "um_expectedSeqNumber s' = sn_at (Suc k) c'" by (subst s') simp
  moreover have "processed_to (insert k P) (Suc k)" using P a(1) by (auto simp: processed_to_def)
  ultimately have "rx_processed fs (insert k P) (Suc k) s'"
    using rx re deliverable_step [OF ok P a(1,3)] a(3) by (auto simp: rx_processed_def reassembled_def)
  with run s' show ?thesis by blast
qed

end
