(* ===== verification/Rlc_Um_Window.thy ===== *)
theory Rlc_Um_Window
  imports Rlc_Um_Losses
begin

text \<open>
  The reordering window of RLC UM on unbounded positions, and the refinement of it by
  \<open>DoReceivePdu\<close> and \<open>ExpireReorderingTimer\<close>.
\<close>

section \<open>The window on positions\<close>

text \<open>
  The procedures of 5.1.2.2 of TS 36.322 without wrap-around: the positions \<open>wn_lower\<close> and
  \<open>wn_upper\<close> stand for VR(UR) and VR(UH), \<open>wn_mark\<close> for VR(UX), \<open>wn_pending\<close> for t-Reordering.
  The positions of the PDUs stored and, in their order, of those reassembled are kept.
\<close>

record window =
  wn_lower :: nat
  wn_upper :: nat
  wn_mark :: nat
  wn_pending :: bool
  wn_stored :: "nat list"
  wn_processed :: "nat list"

definition window0 :: window where
  "window0 = \<lparr>wn_lower = 0, wn_upper = 0, wn_mark = 0, wn_pending = False, wn_stored = [], wn_processed = []\<rparr>"

text \<open>
  The first position not received. The search of \<open>DoReceivePdu\<close> counts in a \<open>uint16_t\<close> that does
  not wrap at 1024, so that it also ends at the multiples of 1024.
\<close>

function next_missing :: "nat \<Rightarrow> nat list \<Rightarrow> nat" where
  "next_missing j S = (if j \<in> set S \<and> j mod 1024 \<noteq> 0 then next_missing (Suc j) S else j)"
  by pat_completeness auto
termination
proof (relation "measure (\<lambda>(j, S). Suc (Max (set S)) - j)")
  fix j and S :: "nat list"
  assume "j \<in> set S \<and> j mod 1024 \<noteq> 0"
  then have "j \<le> Max (set S)" by simp
  then show "((Suc j, S), (j, S)) \<in> measure (\<lambda>(j, S). Suc (Max (set S)) - j)" by simp
qed simp

function first_absent :: "nat \<Rightarrow> nat list \<Rightarrow> nat" where
  "first_absent j S = (if j \<in> set S then first_absent (Suc j) S else j)"
  by pat_completeness auto
termination
proof (relation "measure (\<lambda>(j, S). Suc (Max (set S)) - j)")
  fix j and S :: "nat list"
  assume "j \<in> set S"
  then have "j \<le> Max (set S)" by simp
  then show "((Suc j, S), (j, S)) \<in> measure (\<lambda>(j, S). Suc (Max (set S)) - j)" by simp
qed simp

declare next_missing.simps [simp del] first_absent.simps [simp del]

text \<open>The lower edge moves to \<open>r\<close>, and what is stored below it is reassembled in order.\<close>

definition win_process :: "nat \<Rightarrow> window \<Rightarrow> window" where
  "win_process r w = w\<lparr>wn_lower := r,
     wn_processed := wn_processed w @ filter (\<lambda>i. i \<in> set (wn_stored w)) [wn_lower w..<r],
     wn_stored := filter (\<lambda>i. r \<le> i) (wn_stored w)\<rparr>"

definition win_start :: "window \<Rightarrow> window" where
  "win_start w =
     (if wn_lower w < wn_upper w then w\<lparr>wn_pending := True, wn_mark := wn_upper w\<rparr>
      else w\<lparr>wn_pending := False\<rparr>)"

text \<open>The window with a new position stored, and after the lower edge has moved.\<close>

definition win_store :: "nat \<Rightarrow> window \<Rightarrow> window" where
  "win_store i w = w\<lparr>wn_stored := List.insert i (wn_stored w), wn_upper := max (wn_upper w) (Suc i)\<rparr>"

definition win_advance :: "window \<Rightarrow> window" where
  "win_advance w =
     (if wn_lower w \<in> set (wn_stored w) then win_process (next_missing (Suc (wn_lower w)) (wn_stored w)) w else w)"

text \<open>
  The PDU at position \<open>i\<close> arrives. \<open>None\<close>: it is too old, or so far ahead that the window would
  have to give up stored PDUs.
\<close>

definition win_arrive :: "nat \<Rightarrow> window \<Rightarrow> window option" where
  "win_arrive i w =
     (if wn_upper w \<le> i + 512 \<and> i < wn_lower w + 512 then
        Some
          (if i < wn_lower w \<or> (wn_lower w < i \<and> i < wn_upper w \<and> i \<in> set (wn_stored w)) then w
           else
             let w1 = win_advance (win_store i w) in
             if wn_pending w1 \<and> \<not> wn_mark w1 \<le> wn_lower w1 then w1 else win_start w1)
      else None)"

definition win_expire :: "window \<Rightarrow> window" where
  "win_expire w =
     (if wn_pending w then win_start (win_process (first_absent (wn_mark w) (wn_stored w)) w) else w)"

datatype channel_action = Arrive int nat | ReorderingExpires

fun win_step :: "channel_action \<Rightarrow> window \<Rightarrow> window option" where
  "win_step (Arrive now i) w = win_arrive i w"
| "win_step ReorderingExpires w = Some (win_expire w)"

fun win_run :: "channel_action list \<Rightarrow> window \<Rightarrow> window option" where
  "win_run [] w = Some w"
| "win_run (a # as) w = win_step a w \<bind> win_run as"

text \<open>The receiver under the same actions: the PDU at position \<open>i\<close> is \<open>pdus ! i\<close>.\<close>

fun rx_step :: "rlc_pdu list \<Rightarrow> channel_action \<Rightarrow> rlc_um \<Rightarrow> rlc_um option" where
  "rx_step pdus (Arrive now i) s = um_DoReceivePdu now (pdus ! i) s"
| "rx_step pdus ReorderingExpires s =
     (case um_reorderingTimer s of
        None \<Rightarrow> Some s
      | Some t \<Rightarrow> um_ExpireReorderingTimer t (s\<lparr>um_reorderingTimer := None\<rparr>))"

fun rx_run :: "rlc_pdu list \<Rightarrow> channel_action list \<Rightarrow> rlc_um \<Rightarrow> rlc_um option" where
  "rx_run pdus [] s = Some s"
| "rx_run pdus (a # as) s = rx_step pdus a s \<bind> rx_run pdus as"

section \<open>The window's invariant\<close>

definition window_core :: "window \<Rightarrow> bool" where
  "window_core w \<longleftrightarrow>
     wn_lower w \<le> wn_upper w \<and> wn_upper w \<le> wn_lower w + 512 \<and>
     set (wn_stored w) \<subseteq> {wn_lower w..<wn_upper w} \<and>
     (wn_lower w < wn_upper w \<longrightarrow> wn_upper w - 1 \<in> set (wn_stored w)) \<and>
     processed_to (set (wn_processed w)) (wn_lower w)"

definition mark_ok :: "window \<Rightarrow> bool" where
  "mark_ok w \<longleftrightarrow> wn_lower w < wn_mark w \<and> wn_mark w \<le> wn_upper w \<and> wn_mark w - 1 \<in> set (wn_stored w)"

definition window_ok :: "window \<Rightarrow> bool" where
  "window_ok w \<longleftrightarrow> window_core w \<and> (wn_pending w \<longrightarrow> mark_ok w)"

lemma next_missing_props:
  assumes "set S \<subseteq> {..<h}" "j \<le> h"
  shows "j \<le> next_missing j S \<and> next_missing j S \<le> h \<and> {j..<next_missing j S} \<subseteq> set S"
  using assms
proof (induction j S rule: next_missing.induct)
  case (1 j S)
  show ?case
  proof (cases "j \<in> set S \<and> j mod 1024 \<noteq> 0")
    case True
    then have "Suc j \<le> h" using "1.prems"(1) by auto
    from "1.IH" [OF True "1.prems"(1) this] have ih: "Suc j \<le> next_missing (Suc j) S"
      "next_missing (Suc j) S \<le> h" "{Suc j..<next_missing (Suc j) S} \<subseteq> set S" by auto
    have "next_missing j S = next_missing (Suc j) S" using True by (subst next_missing.simps) simp
    moreover have "{j..<next_missing (Suc j) S} = insert j {Suc j..<next_missing (Suc j) S}"
      using ih(1) by (auto simp: Suc_le_eq)
    ultimately show ?thesis using ih True by auto
  next
    case False
    then have "next_missing j S = j" unfolding next_missing.simps [of j S] by (rule if_not_P)
    then show ?thesis using "1.prems"(2) by simp
  qed
qed

lemma first_absent_props:
  assumes "set S \<subseteq> {..<h}" "j \<le> h"
  shows "j \<le> first_absent j S \<and> first_absent j S \<le> h \<and> {j..<first_absent j S} \<subseteq> set S"
  using assms
proof (induction j S rule: first_absent.induct)
  case (1 j S)
  show ?case
  proof (cases "j \<in> set S")
    case True
    then have "Suc j \<le> h" using "1.prems"(1) by auto
    from "1.IH" [OF True "1.prems"(1) this] have ih: "Suc j \<le> first_absent (Suc j) S"
      "first_absent (Suc j) S \<le> h" "{Suc j..<first_absent (Suc j) S} \<subseteq> set S" by auto
    have "first_absent j S = first_absent (Suc j) S" using True by (subst first_absent.simps) simp
    moreover have "{j..<first_absent (Suc j) S} = insert j {Suc j..<first_absent (Suc j) S}"
      using ih(1) by (auto simp: Suc_le_eq)
    ultimately show ?thesis using ih True by auto
  next
    case False
    then have "first_absent j S = j" by (subst first_absent.simps) simp
    then show ?thesis using "1.prems"(2) by simp
  qed
qed

text \<open>So a search that starts behind a stored position ends behind a stored position.\<close>

lemma next_missing_edge:
  assumes "j \<in> set S" "set S \<subseteq> {..<h}"
  shows "j < next_missing (Suc j) S" "next_missing (Suc j) S \<le> h" "next_missing (Suc j) S - 1 \<in> set S"
proof -
  let ?r = "next_missing (Suc j) S"
  have "Suc j \<le> h" using assms by auto
  note nm = next_missing_props [OF assms(2) this]
  then show "j < ?r" "?r \<le> h" by auto
  show "?r - 1 \<in> set S"
  proof (cases "?r = Suc j")
    case False
    then have "?r - 1 \<in> {Suc j..<?r}" using nm by auto
    then show ?thesis using nm by auto
  qed (use assms(1) in simp)
qed

lemma first_absent_edge:
  assumes "0 < j" "j - 1 \<in> set S" "set S \<subseteq> {..<h}"
  shows "j \<le> first_absent j S" "first_absent j S \<le> h" "first_absent j S - 1 \<in> set S"
proof -
  let ?r = "first_absent j S"
  have "j - 1 < h" using assms by auto
  then have "j \<le> h" using assms(1) by simp
  note fa = first_absent_props [OF assms(3) this]
  then show "j \<le> ?r" "?r \<le> h" by auto
  show "?r - 1 \<in> set S"
  proof (cases "?r = j")
    case False
    then have "?r - 1 \<in> {j..<?r}" using fa by auto
    then show ?thesis using fa by auto
  qed (use assms(2) in simp)
qed

lemma set_win_process:
  "set (wn_processed (win_process r w)) =
    set (wn_processed w) \<union> (set (wn_stored w) \<inter> {wn_lower w..<r})"
  "set (wn_stored (win_process r w)) = set (wn_stored w) - {..<r}"
  by (auto simp: win_process_def)

lemma processed_to_extend:
  assumes "processed_to P r" "r < r'" "r' - 1 \<in> S"
  shows "processed_to (P \<union> (S \<inter> {r..<r'})) r'"
  using assms by (auto simp: processed_to_def)

lemma win_process_sel [simp]:
  "wn_lower (win_process r w) = r" "wn_upper (win_process r w) = wn_upper w"
  "wn_mark (win_process r w) = wn_mark w" "wn_pending (win_process r w) = wn_pending w"
  by (simp_all add: win_process_def)

lemma win_process_core:
  assumes "window_core w" "wn_lower w < r" "r \<le> wn_upper w" "r - 1 \<in> set (wn_stored w)"
  shows "window_core (win_process r w)"
  using assms processed_to_extend [of "set (wn_processed w)" "wn_lower w" r "set (wn_stored w)"]
  by (auto simp: window_core_def set_win_process)

lemma win_start_ok: "window_core w \<Longrightarrow> window_ok (win_start w)"
  by (auto simp: win_start_def window_ok_def window_core_def mark_ok_def)

lemma win_store_sel [simp]:
  "wn_lower (win_store i w) = wn_lower w" "wn_upper (win_store i w) = max (wn_upper w) (Suc i)"
  "wn_mark (win_store i w) = wn_mark w" "wn_pending (win_store i w) = wn_pending w"
  "set (wn_stored (win_store i w)) = insert i (set (wn_stored w))" "wn_processed (win_store i w) = wn_processed w"
  by (simp_all add: win_store_def)

lemma win_store_core:
  assumes "window_core w" "wn_lower w \<le> i" "i < wn_lower w + 512"
  shows "window_core (win_store i w)"
  using assms by (auto simp: window_core_def max_def)

lemma win_advance_next:
  assumes "window_core w" "wn_lower w \<in> set (wn_stored w)" and "r = next_missing (Suc (wn_lower w)) (wn_stored w)"
  shows "wn_lower w < r" "r \<le> wn_upper w" "r - 1 \<in> set (wn_stored w)"
proof -
  have "set (wn_stored w) \<subseteq> {..<wn_upper w}" using assms(1) by (auto simp: window_core_def)
  from next_missing_edge [OF assms(2) this, folded assms(3)]
  show "wn_lower w < r" "r \<le> wn_upper w" "r - 1 \<in> set (wn_stored w)" .
qed

lemma win_expire_next:
  assumes "window_core w" "mark_ok w" and "r = first_absent (wn_mark w) (wn_stored w)"
  shows "wn_lower w < r" "r - 1 \<in> set (wn_stored w)" "r \<le> wn_upper w"
proof -
  have "set (wn_stored w) \<subseteq> {..<wn_upper w}" "0 < wn_mark w" "wn_mark w - 1 \<in> set (wn_stored w)" "wn_lower w < wn_mark w"
    using assms(1,2) by (auto simp: window_core_def mark_ok_def)
  with first_absent_edge [OF this(2,3,1), folded assms(3)]
  show "wn_lower w < r" "r - 1 \<in> set (wn_stored w)" "r \<le> wn_upper w" by simp_all
qed

lemma win_advance_core: "window_core w \<Longrightarrow> window_core (win_advance w)"
  using win_process_core win_advance_next by (auto simp: win_advance_def)

lemma win_advance_sel [simp]:
  "wn_upper (win_advance w) = wn_upper w" "wn_mark (win_advance w) = wn_mark w" "wn_pending (win_advance w) = wn_pending w"
  by (simp_all add: win_advance_def)

lemma win_advance_mark:
  assumes "mark_ok w" "wn_lower (win_advance w) < wn_mark w"
  shows "mark_ok (win_advance w)"
  using assms by (auto simp: mark_ok_def win_advance_def set_win_process split: if_splits)

section \<open>The reception buffer\<close>

lemma map_of_assign [simp]: "map_of (map_assign k v xs) = (map_of xs)(k \<mapsto> v)"
  by (induction xs) auto

lemma map_of_erase [simp]: "map_of (map_erase k xs) = (map_of xs)(k := None)"
  by (induction xs) (auto simp: map_erase_def)

text \<open>The buffer holds the PDUs of the positions \<open>S\<close>, in a window of 1024 from \<open>r\<close>.\<close>

definition rx_map :: "rlc_pdu list \<Rightarrow> nat \<Rightarrow> nat set \<Rightarrow> (u16 \<Rightarrow> rlc_pdu option) \<Rightarrow> bool" where
  "rx_map pdus r S m \<longleftrightarrow>
     (\<forall>i. r \<le> i \<and> i < r + 1024 \<longrightarrow> m (pos_value i) = (if i \<in> S then Some (pdus ! i) else None)) \<and>
     (\<forall>k. 1024 \<le> k \<longrightarrow> m k = None)"

lemma rx_map_at:
  "rx_map pdus r S m \<Longrightarrow> r \<le> i \<Longrightarrow> i < r + 1024 \<Longrightarrow> m (pos_value i) = (if i \<in> S then Some (pdus ! i) else None)"
  by (simp add: rx_map_def)

lemma pos_value_below: "pos_value i < 1024"
  by (simp add: word_less_nat_alt)

lemma position_of_key:
  fixes k :: u16
  assumes "k < 1024"
  shows "\<exists>i. r \<le> i \<and> i < r + 1024 \<and> k = pos_value i"
proof -
  let ?x = "unat k"
  have x: "?x < 1024" using assms by (simp add: word_less_nat_alt)
  define i where "i = r + (?x + 1024 - r mod 1024) mod 1024"
  have "i mod 1024 = (r mod 1024 + (?x + 1024 - r mod 1024) mod 1024) mod 1024"
    by (simp add: i_def mod_add_left_eq)
  also have "\<dots> = (r mod 1024 + (?x + 1024 - r mod 1024)) mod 1024" by (simp only: mod_add_right_eq)
  also have "r mod 1024 + (?x + 1024 - r mod 1024) = ?x + 1024"
    using mod_less_divisor [of 1024 r] by linarith
  finally have "i mod 1024 = ?x" using x by simp
  then have "k = pos_value i" by (simp add: word_unat_eq_iff)
  moreover have "r \<le> i" "i < r + 1024" by (simp_all add: i_def)
  ultimately show ?thesis by blast
qed

lemma rx_map_key:
  assumes "rx_map pdus r S m" "m k = Some p"
  shows "\<exists>i\<in>S. r \<le> i \<and> i < r + 1024 \<and> k = pos_value i \<and> p = pdus ! i"
proof -
  have "k < 1024" using assms by (auto simp: rx_map_def not_less [symmetric])
  from position_of_key [OF this, of r] obtain i where "r \<le> i" "i < r + 1024" "k = pos_value i" by blast
  with assms show ?thesis by (auto simp: rx_map_def split: if_splits)
qed

lemma rx_map_insert:
  assumes "rx_map pdus r S m" "r \<le> i" "i < r + 1024"
  shows "rx_map pdus r (insert i S) (m(pos_value i \<mapsto> pdus ! i))"
proof -
  have "pos_value j = pos_value i \<longleftrightarrow> j = i" if "r \<le> j" "j < r + 1024" for j
    using pos_value_inj [of j i] that assms(2,3) by auto
  moreover have "pos_value i \<noteq> k" if "1024 \<le> k" for k using pos_value_below [of i] that by auto
  ultimately show ?thesis using assms(1) by (auto simp: rx_map_def)
qed

lemma rx_map_erase:
  assumes "rx_map pdus r S m" "r \<le> i" "i < r + 1024"
  shows "rx_map pdus r (S - {i}) (m(pos_value i := None))"
proof -
  have "pos_value j = pos_value i \<longleftrightarrow> j = i" if "r \<le> j" "j < r + 1024" for j
    using pos_value_inj [of j i] that assms(2,3) by auto
  then show ?thesis using assms(1) by (auto simp: rx_map_def)
qed

lemma rx_map_shift:
  assumes m: "rx_map pdus r S m" and r: "r \<le> r'" "r' \<le> r + 1024" and S: "S \<subseteq> {r'..<r + 1024}"
  shows "rx_map pdus r' S m"
  unfolding rx_map_def
proof (intro conjI allI impI)
  fix i assume i: "r' \<le> i \<and> i < r' + 1024"
  show "m (pos_value i) = (if i \<in> S then Some (pdus ! i) else None)"
  proof (cases "i < r + 1024")
    case True
    with i r show ?thesis using rx_map_at [OF m] by simp
  next
    case False
    then have "m (pos_value (i - 1024)) = (if i - 1024 \<in> S then Some (pdus ! (i - 1024)) else None)"
      using rx_map_at [OF m, of "i - 1024"] i r by simp
    moreover have "pos_value (i - 1024) = pos_value i" using False by (simp add: pos_value_eq_iff le_mod_geq)
    moreover have "i - 1024 < r'" using i False by linarith
    then have "i - 1024 \<notin> S" "i \<notin> S" using S False by auto
    ultimately show ?thesis by simp
  qed
qed (use m in \<open>simp add: rx_map_def\<close>)

section \<open>Searching and reassembling\<close>

lemma first_missing_sn_ok:
  assumes m: "rx_map pdus r (set xs) (map_of rx)" and S: "set xs \<subseteq> {..<h}" "h < r + 1024" and j: "r \<le> j" "j \<le> h"
  shows "um_first_missing_sn (sn_at j b) rx = Some (sn_at (first_absent j xs) b)"
  using j
proof (induction "h - j" arbitrary: j rule: less_induct)
  case less
  have look: "map_of rx (pos_value j) = (if j \<in> set xs then Some (pdus ! j) else None)"
    using rx_map_at [OF m, of j] less.prems S(2) by simp
  show ?case
  proof (cases "j \<in> set xs")
    case True
    then have "j < h" using S(1) by auto
    then have "um_first_missing_sn (sn_at (Suc j) b) rx = Some (sn_at (first_absent (Suc j) xs) b)"
      using less.hyps [of "Suc j"] less.prems by simp
    then show ?thesis
      using True look by (subst um_first_missing_sn.simps) (simp add: first_absent.simps [of j xs])
  next
    case False
    then show ?thesis
      using look by (subst um_first_missing_sn.simps) (simp add: first_absent.simps [of j xs])
  qed
qed

text \<open>The \<open>uint16_t\<close> the search of \<open>DoReceivePdu\<close> counts in: 1024 where the position wraps.\<close>

definition count_value :: "nat \<Rightarrow> u16" where
  "count_value j = (if j mod 1024 = 0 then 1024 else pos_value j)"

lemma count_value_Suc: "pos_value j + 1 = count_value (Suc j)"
proof -
  have "j mod 1024 < 1024" by simp
  then have "unat (pos_value j + 1) = Suc (j mod 1024)" by (subst unat_add_no_wrap) simp_all
  then show ?thesis by (simp add: word_unat_eq_iff count_value_def mod_Suc)
qed

lemma first_missing_ok:
  assumes m: "rx_map pdus r (set xs) (map_of rx)" and S: "set xs \<subseteq> {..<h}" "h < r + 1024" and j: "r \<le> j" "j \<le> h"
  shows "um_first_missing (count_value j) rx = Some (count_value (next_missing j xs))"
  using j
proof (induction "h - j" arbitrary: j rule: less_induct)
  case less
  show ?case
  proof (cases "j \<in> set xs \<and> j mod 1024 \<noteq> 0")
    case True
    then have "j < h" using S(1) by auto
    then have "um_first_missing (count_value (Suc j)) rx = Some (count_value (next_missing (Suc j) xs))"
      using less.hyps [of "Suc j"] less.prems by simp
    moreover have "map_of rx (count_value j) \<noteq> None"
      using rx_map_at [OF m, of j] less.prems S(2) True by (simp add: count_value_def)
    moreover have "next_missing j xs = next_missing (Suc j) xs"
      using True unfolding next_missing.simps [of j xs] by (rule if_P)
    moreover have "count_value j + 1 = count_value (Suc j)"
      using True count_value_Suc [of j] by (simp add: count_value_def)
    ultimately show ?thesis by (subst um_first_missing.simps) simp
  next
    case False
    then have "next_missing j xs = j" unfolding next_missing.simps [of j xs] by (rule if_not_P)
    moreover have "map_of rx (count_value j) = None"
    proof (cases "j mod 1024 = 0")
      case True
      then show ?thesis using m by (simp add: count_value_def rx_map_def)
    next
      case False
      with \<open>\<not> (j \<in> set xs \<and> j mod 1024 \<noteq> 0)\<close> show ?thesis
        using rx_map_at [OF m, of j] less.prems S(2) by (simp add: count_value_def)
    qed
    ultimately show ?thesis by (subst um_first_missing.simps) simp
  qed
qed

text \<open>The fields of the window, which reassembly leaves alone.\<close>

definition same_window :: "rlc_um \<Rightarrow> rlc_um \<Rightarrow> bool" where
  "same_window s s' \<longleftrightarrow> um_vrUr s' = um_vrUr s \<and> um_vrUx s' = um_vrUx s \<and> um_vrUh s' = um_vrUh s \<and>
     um_windowSize s' = um_windowSize s \<and> um_reorderingTimer s' = um_reorderingTimer s \<and>
     um_reorderingTimerValue s' = um_reorderingTimerValue s"

definition pdus_ok :: "frame list \<Rightarrow> rlc_pdu list \<Rightarrow> bool" where
  "pdus_ok fs pdus \<longleftrightarrow> frames_ok fs \<and> length pdus = length fs \<and> (\<forall>k<length fs. carries k (fs ! k) (pdus ! k))"

lemma rx_processed_cong:
  assumes "rx_processed fs P r s"
    and "um_expectedSeqNumber s' = um_expectedSeqNumber s" "um_sdusBuffer s' = um_sdusBuffer s"
    "um_reassemblingState s' = um_reassemblingState s" "um_keepS0 s' = um_keepS0 s" "delivered s' = delivered s"
  shows "rx_processed fs P r s'"
  using assms by (auto simp: rx_processed_def holds_def split: option.splits)

lemma atLeastLessThan_Cons: "i < r \<Longrightarrow> {i..<r} = insert i {Suc i..<r}" for i r :: nat
  by auto

lemma ReassembleSnInterval_ok:
  assumes ok: "pdus_ok fs pdus" and m: "rx_map pdus r S (map_of (um_rxBuffer s))" and rx: "rx_processed fs P e s"
    and i: "r \<le> i" "e \<le> i" "i \<le> r'" "r' \<le> r + 1024" "r' \<le> e + 1024" and S: "S \<subseteq> {..<length fs}"
    and reach: "in_reach h i" "in_reach h r'"
  shows "\<exists>s' e'. um_ReassembleSnInterval (sn_at i (window_base h)) (sn_at r' (window_base h)) s = Some s' \<and>
    rx_processed fs (P \<union> (S \<inter> {i..<r'})) e' s' \<and> same_window s s' \<and>
    rx_map pdus r (S - {i..<r'}) (map_of (um_rxBuffer s'))"
  using m rx i S reach
proof (induction "r' - i" arbitrary: i s P S e)
  case 0
  then have "i = r'" by simp
  moreover have "um_ReassembleSnInterval (sn_at i (window_base h)) (sn_at r' (window_base h)) s = Some s"
    using sn_compare_at(3) [OF "0.prems"(9,10)] \<open>i = r'\<close> by (subst um_ReassembleSnInterval.simps) simp
  ultimately show ?case using "0.prems"(1,2) by (auto simp: same_window_def)
next
  case (Suc n)
  have lt: "i < r'" using Suc.hyps(2) by simp
  have less: "sn_lt (sn_at i (window_base h)) (sn_at r' (window_base h)) = Some True"
    using sn_compare_at(3) [OF Suc.prems(9,10)] lt by simp
  have reach': "in_reach h (Suc i)" using Suc.prems(9,10) lt by (auto simp: in_reach_def)
  have look: "map_of (um_rxBuffer s) (pos_value i) = (if i \<in> S then Some (pdus ! i) else None)"
    using rx_map_at [OF Suc.prems(1), of i] Suc.prems(3-7) lt by simp
  have n: "n = r' - Suc i" using Suc.hyps(2) by simp
  show ?case
  proof (cases "i \<in> S")
    case False
    have "\<exists>s' e'. um_ReassembleSnInterval (sn_at (Suc i) (window_base h)) (sn_at r' (window_base h)) s = Some s' \<and>
        rx_processed fs (P \<union> (S \<inter> {Suc i..<r'})) e' s' \<and> same_window s s' \<and>
        rx_map pdus r (S - {Suc i..<r'}) (map_of (um_rxBuffer s'))"
      using Suc.hyps(1) [OF n Suc.prems(1,2) _ _ _ _ _ Suc.prems(8) reach' Suc.prems(10)] Suc.prems(3-7) lt by simp
    moreover have "S \<inter> {Suc i..<r'} = S \<inter> {i..<r'}" "S - {Suc i..<r'} = S - {i..<r'}"
      using False unfolding atLeastLessThan_Cons [OF lt] by auto
    ultimately show ?thesis
      using less look False by (subst um_ReassembleSnInterval.simps) simp
  next
    case True
    then have k: "i < length fs" using Suc.prems(8) by auto
    then have c: "frames_ok fs" "carries i (fs ! i) (pdus ! i)" using ok by (simp_all add: pdus_ok_def)
    have "i < e + 1024" using Suc.prems(7) lt by simp
    from rx_processed_step [OF c(1) Suc.prems(2,4) this k c(2)] obtain s1 where
      s1: "um_ReassembleAndDeliver (pdus ! i) s = Some s1" "rx_processed fs (insert i P) (Suc i) s1"
      "\<exists>e st k0 out. s1 = s\<lparr>um_expectedSeqNumber := e, um_sdusBuffer := [], um_reassemblingState := st,
        um_keepS0 := k0, um_out := out\<rparr>" by blast
    let ?s2 = "s1\<lparr>um_rxBuffer := map_erase (pos_value i) (um_rxBuffer s1)\<rparr>"
    have same: "same_window s ?s2" "um_rxBuffer s1 = um_rxBuffer s" using s1(3) by (auto simp: same_window_def)
    have m2: "rx_map pdus r (S - {i}) (map_of (um_rxBuffer ?s2))"
      using rx_map_erase [OF Suc.prems(1), of i] Suc.prems(3,6) lt same(2) by simp
    have rx2: "rx_processed fs (insert i P) (Suc i) ?s2"
      using s1(2) by (rule rx_processed_cong) (simp_all add: delivered_def)
    have "\<exists>s' e'. um_ReassembleSnInterval (sn_at (Suc i) (window_base h)) (sn_at r' (window_base h)) ?s2 = Some s' \<and>
        rx_processed fs (insert i P \<union> ((S - {i}) \<inter> {Suc i..<r'})) e' s' \<and> same_window ?s2 s' \<and>
        rx_map pdus r (S - {i} - {Suc i..<r'}) (map_of (um_rxBuffer s'))"
      using Suc.hyps(1) [OF n m2 rx2 _ _ _ _ _ _ reach' Suc.prems(10)] Suc.prems(3-8) lt by auto
    moreover have "insert i P \<union> ((S - {i}) \<inter> {Suc i..<r'}) = P \<union> (S \<inter> {i..<r'})"
      "S - {i} - {Suc i..<r'} = S - {i..<r'}"
      using True lt unfolding atLeastLessThan_Cons [OF lt] by auto
    moreover have "same_window s s'" if "same_window ?s2 s'" for s'
      using same(1) that by (simp add: same_window_def)
    ultimately show ?thesis
      using less look True s1(1) by (subst um_ReassembleSnInterval.simps) auto
  qed
qed

section \<open>The steps of reception\<close>

lemma low_edge: "sn_le (sn_at (h + 512) (window_base h)) (sn_at i (window_base h)) = Some True"
proof -
  have "sn_relative (sn_at (h + 512) (window_base h)) = 0"
    by (simp add: sn_relative_def window_base_def signed_modulo_int_def)
  then show ?thesis by (simp add: sn_le_def sn_gt_def)
qed

lemma IsInside_ok:
  assumes "um_windowSize s = 512" "um_vrUh s = sn_at h c" "in_reach h i"
  shows "um_IsInsideReorderingWindow (sn_at i b) s = Some (i < h, s\<lparr>um_vrUh := sn_at h (window_base h)\<rparr>)"
proof -
  have "in_reach h h" by (simp add: in_reach_def)
  then have "sn_lt (sn_at i (window_base h)) (sn_at h (window_base h)) = Some (i < h)"
    by (rule sn_compare_at(3) [OF assms(3)])
  then show ?thesis
    using assms low_edge [of h i] by (simp add: um_IsInsideReorderingWindow_def Let_def window_base_def)
qed

lemma um_discards_ok:
  assumes ws: "um_windowSize s = 512" and ur: "um_vrUr s = sn_at r (window_base h)" and uh: "um_vrUh s = sn_at h (window_base h)"
    and m: "rx_map pdus r S (map_of (um_rxBuffer s))" and r: "r \<le> h" "h \<le> r + 512"
    and i: "h \<le> i + 512" "i < r + 512"
  shows "um_discards (sn_at i (window_base h)) s = Some (i < r \<or> r < i \<and> i < h \<and> i \<in> S)"
proof -
  have reach: "in_reach h r" "in_reach h i" "in_reach h h" using r i by (auto simp: in_reach_def)
  note lt = sn_compare_at(3) [OF reach(1,2)] sn_compare_at(3) [OF reach(2,3)] sn_compare_at(3) [OF reach(2,1)]
  show ?thesis
  proof (cases "r < i")
    case True
    then have "map_of (um_rxBuffer s) (pos_value i) = (if i \<in> S then Some (pdus ! i) else None)"
      using rx_map_at [OF m, of i] i by simp
    with True show ?thesis by (simp add: um_discards_def ws ur uh lt low_edge)
  next
    case False
    then show ?thesis by (simp add: um_discards_def ws ur uh lt low_edge)
  qed
qed

lemma advance_window_ok:
  assumes ws: "um_windowSize s = 512" and ur: "um_vrUr s = sn_at r (window_base h)" and uh: "um_vrUh s = sn_at h (window_base h)"
    and m: "rx_map pdus r S (map_of (um_rxBuffer s))" "S \<subseteq> {r..<max h (Suc i)}" and r: "r \<le> h" "h \<le> r + 512"
    and i: "h \<le> i + 512" "i < r + 512"
  shows "um_advance_window (sn_at i (window_base h)) s =
    Some (s\<lparr>um_vrUh := sn_at (max h (Suc i)) (window_base (max h (Suc i)))\<rparr>)"
proof -
  have ri: "in_reach h i" using r i by (auto simp: in_reach_def)
  note inside = IsInside_ok [OF ws uh ri, of "window_base h"]
  show ?thesis
  proof (cases "i < h")
    case True
    then have "max h (Suc i) = h" by simp
    with True inside show ?thesis by (simp add: um_advance_window_def)
  next
    case False
    let ?h = "Suc i"
    let ?s1 = "s\<lparr>um_vrUh := sn_at ?h (window_base h)\<rparr>"
    have mx: "max h ?h = ?h" using False by simp
    have ws1: "um_windowSize ?s1 = 512" "um_vrUh ?s1 = sn_at ?h (window_base h)" using ws by simp_all
    obtain c where c: "um_ReassembleOutsideWindow ?s1 = Some (s\<lparr>um_vrUh := sn_at ?h c\<rparr>)"
    proof (cases "um_rxBuffer s")
      case Nil
      then have "um_ReassembleOutsideWindow ?s1 = Some (s\<lparr>um_vrUh := sn_at ?h (window_base h)\<rparr>)"
        by (simp add: um_ReassembleOutsideWindow_def)
      then show ?thesis by (rule that)
    next
      case (Cons e xs)
      obtain k p where e: "e = (k, p)" by (cases e)
      then have "map_of (um_rxBuffer s) k = Some p" using Cons by simp
      from rx_map_key [OF m(1) this] obtain j where j: "j \<in> S" "k = pos_value j" by blast
      have reach: "in_reach ?h j" using j(1) m(2) i(2) mx by (auto simp: in_reach_def)
      have "j < ?h" using j(1) m(2) mx by auto
      then have "um_ReassembleOutsideWindow ?s1 = Some (s\<lparr>um_vrUh := sn_at ?h (window_base ?h)\<rparr>)"
        using IsInside_ok [OF ws1 reach, of 0] by (simp add: um_ReassembleOutsideWindow_def Cons e j(2))
      then show ?thesis by (rule that)
    qed
    let ?s2 = "s\<lparr>um_vrUh := sn_at ?h c\<rparr>"
    have ws2: "um_windowSize ?s2 = 512" "um_vrUh ?s2 = sn_at ?h c" using ws by simp_all
    have "in_reach ?h r" using r i False by (auto simp: in_reach_def)
    note inside2 = IsInside_ok [OF ws2 this, of "window_base h"]
    have "s\<lparr>um_vrUh := um_vrUh s\<rparr> = s" by simp
    then have "s\<lparr>um_vrUh := sn_at h (window_base h)\<rparr> = s" unfolding uh .
    then have 1: "um_IsInsideReorderingWindow (sn_at i (window_base h)) s = Some (False, s)"
      using inside False by simp
    have 2: "um_IsInsideReorderingWindow (um_vrUr ?s2) ?s2 = Some (True, s\<lparr>um_vrUh := sn_at ?h (window_base ?h)\<rparr>)"
      using inside2 ur r False by simp
    have 3: "sn_plus (sn_at i (window_base h)) 1 = sn_at ?h (window_base h)" by simp
    show ?thesis
      unfolding mx um_advance_window_def 1 3 c 2 Option.bind.simps prod.case by (simp add: c 2)
  qed
qed

lemma processed_to_unique: "processed_to P a \<Longrightarrow> processed_to P b \<Longrightarrow> P \<noteq> {} \<Longrightarrow> a = b"
proof -
  assume a: "processed_to P a" "processed_to P b" "P \<noteq> {}"
  then have "0 < a" "0 < b" by (auto simp: processed_to_def)
  with a have "a - 1 \<in> P" "b - 1 \<in> P" by (auto simp: processed_to_def)
  with a \<open>0 < a\<close> \<open>0 < b\<close> show "a = b" by (fastforce simp: processed_to_def)
qed

lemma reassemble_to:
  assumes ok: "pdus_ok fs pdus" and m: "rx_map pdus r S (map_of (um_rxBuffer s))" and rx: "rx_processed fs P r s"
    and r: "r < r'" "r' - 1 \<in> S" "r' \<le> h" and S: "S \<subseteq> {r..<h}" "h \<le> r + 512" "h \<le> length fs"
    and reach: "in_reach h0 r" "in_reach h0 r'"
  shows "\<exists>s'. um_ReassembleSnInterval (sn_at r (window_base h0)) (sn_at r' (window_base h0)) s = Some s' \<and>
    rx_processed fs (P \<union> (S \<inter> {r..<r'})) r' s' \<and> same_window s s' \<and>
    rx_map pdus r' (S - {..<r'}) (map_of (um_rxBuffer s'))"
proof -
  have "S \<subseteq> {..<length fs}" using S by auto
  from ReassembleSnInterval_ok [OF ok m rx _ _ _ _ _ this reach] r S(2) obtain s' e' where
    s': "um_ReassembleSnInterval (sn_at r (window_base h0)) (sn_at r' (window_base h0)) s = Some s'"
    "rx_processed fs (P \<union> (S \<inter> {r..<r'})) e' s'" "same_window s s'"
    "rx_map pdus r (S - {r..<r'}) (map_of (um_rxBuffer s'))"
    by auto
  have "processed_to (P \<union> (S \<inter> {r..<r'})) r'"
    by (rule processed_to_extend) (use rx r in \<open>auto simp: rx_processed_def\<close>)
  moreover have "processed_to (P \<union> (S \<inter> {r..<r'})) e'" using s'(2) by (simp add: rx_processed_def)
  moreover have "r' - 1 \<in> P \<union> (S \<inter> {r..<r'})" using r S(1) by auto
  then have "P \<union> (S \<inter> {r..<r'}) \<noteq> {}" by blast
  ultimately have "e' = r'" by (intro processed_to_unique)
  moreover have "S - {r..<r'} = S - {..<r'}" using S(1) by auto
  moreover have "rx_map pdus r' (S - {..<r'}) (map_of (um_rxBuffer s'))"
    by (rule rx_map_shift [OF s'(4) [unfolded calculation(2)]]) (use r S in auto)
  ultimately show ?thesis using s' by auto
qed

lemma advance_lower_ok:
  assumes ok: "pdus_ok fs pdus" and m: "rx_map pdus r (set xs) (map_of (um_rxBuffer s))" and rx: "rx_processed fs P r s"
    and ur: "um_vrUr s = sn_at r (window_base h0)"
    and S: "r \<in> set xs" "set xs \<subseteq> {r..<h}" "h \<le> r + 512" "h \<le> length fs"
    and reach: "in_reach h0 r" "in_reach h0 (next_missing (Suc r) xs)"
  shows "\<exists>s'. um_advance_lower s = Some s' \<and>
    rx_processed fs (P \<union> (set xs \<inter> {r..<next_missing (Suc r) xs})) (next_missing (Suc r) xs) s' \<and>
    same_window (s\<lparr>um_vrUr := sn_at (next_missing (Suc r) xs) (window_base h0)\<rparr>) s' \<and>
    rx_map pdus (next_missing (Suc r) xs) (set xs - {..<next_missing (Suc r) xs}) (map_of (um_rxBuffer s'))"
proof -
  let ?r = "next_missing (Suc r) xs"
  have rh: "Suc r \<le> h" using S(1,2) by auto
  have "set xs \<subseteq> {..<h}" using S(2) by auto
  note nm = next_missing_edge [OF S(1) this]
  have cv: "um_first_missing (sn_value (um_vrUr s) + 1) (um_rxBuffer s) = Some (count_value ?r)"
    using first_missing_ok [OF m \<open>set xs \<subseteq> {..<h}\<close> _ _ rh] S(3) by (simp add: ur count_value_Suc)
  have "count_value ?r mod 1024 = pos_value ?r"
    by (simp add: count_value_def word_unat_eq_iff unat_mod)
  then have assign: "sn_assign (count_value ?r) (um_vrUr s) = sn_at ?r (window_base h0)"
    unfolding ur by (rule sn_assign_at)
  let ?s1 = "s\<lparr>um_vrUr := sn_at ?r (window_base h0)\<rparr>"
  have "rx_processed fs P r ?s1" using rx by (rule rx_processed_cong) (simp_all add: delivered_def)
  moreover have "rx_map pdus r (set xs) (map_of (um_rxBuffer ?s1))" using m by simp
  ultimately obtain s' where s':
    "um_ReassembleSnInterval (sn_at r (window_base h0)) (sn_at ?r (window_base h0)) ?s1 = Some s'"
    "rx_processed fs (P \<union> (set xs \<inter> {r..<?r})) ?r s'" "same_window ?s1 s'"
    "rx_map pdus ?r (set xs - {..<?r}) (map_of (um_rxBuffer s'))"
    using reassemble_to [OF ok _ _ nm(1,3,2) S(2,3,4) reach] by blast
  have "map_of (um_rxBuffer s) (sn_value (um_vrUr s)) \<noteq> None"
    using rx_map_at [OF m, of r] S(1) by (simp add: ur)
  then have "um_advance_lower s = Some s'"
    using cv assign s'(1) by (simp add: um_advance_lower_def Let_def ur)
  with s'(2-) show ?thesis by blast
qed

text \<open>The timer, with the window \<open>w\<close> already moved.\<close>

lemma update_timer_ok:
  assumes ws: "um_windowSize s = 512" and uh: "um_vrUh s = sn_at h c" and ur: "um_vrUr s = sn_at r b" and r: "r \<le> h" "h \<le> r + 512"
    and t: "um_reorderingTimer s \<noteq> None \<longleftrightarrow> pend" and ux: "pend \<longrightarrow> um_vrUx s = sn_at x d \<and> x \<le> h \<and> h \<le> x + 512"
  shows "\<exists>ux timer. um_update_timer now s = Some (s\<lparr>um_vrUr := sn_at r (window_base h),
      um_vrUh := sn_at h (window_base h), um_vrUx := ux, um_reorderingTimer := timer\<rparr>) \<and>
    (if pend \<and> \<not> x \<le> r then timer \<noteq> None \<and> ux = sn_at x (window_base h)
     else if r < h then timer \<noteq> None \<and> ux = sn_at h (window_base h) else timer = None)"
proof -
  let ?wb = "window_base h"
  let ?s1 = "s\<lparr>um_vrUr := sn_at r ?wb, um_vrUx := sn_SetModulusBase (sn_at (h + 512) c) (um_vrUx s), um_vrUh := sn_at h ?wb\<rparr>"
  have wb: "pos_value (h + 512) = ?wb" by (simp add: window_base_def)
  have reach: "in_reach h h" "in_reach h r" using r by (auto simp: in_reach_def)
  have gt: "sn_gt (sn_at h ?wb) (sn_at r ?wb) = Some (r < h)" by (rule sn_gt_at [OF reach])
  define s2 where "s2 = (if pend \<and> \<not> x \<le> r then ?s1 else ?s1\<lparr>um_reorderingTimer := None\<rparr>)"
  have bases: "um_set_bases s = ?s1" by (simp add: um_set_bases_def ws ur uh wb Let_def)
  have stop: "um_stop_reordering ?s1 = Some s2"
  proof (cases pend)
    case False
    then have none: "um_reorderingTimer s = None" using t by simp
    then have "s\<lparr>um_reorderingTimer := None\<rparr> = s" by simp
    with False none show ?thesis by (simp add: s2_def um_stop_reordering_def)
  next
    case True
    then have x: "um_vrUx ?s1 = sn_at x ?wb" "in_reach h x" "x \<le> h" using ux by (auto simp: wb in_reach_def)
    have le: "sn_le (sn_at x ?wb) (sn_at r ?wb) = Some (x \<le> r)" by (rule sn_compare_at(1) [OF x(2) reach(2)])
    have "um_IsInsideReorderingWindow (sn_at x ?wb) ?s1 = Some (x < h, ?s1)"
      using IsInside_ok [of ?s1 h ?wb x ?wb] x(2) ws by simp
    moreover have "sn_neq (sn_at x ?wb) (sn_at h ?wb) \<longleftrightarrow> x \<noteq> h" by (rule sn_neq_at [OF x(2) reach(1)])
    ultimately show ?thesis using True t x(1,3) le by (auto simp: s2_def um_stop_reordering_def)
  qed
  have run: "um_update_timer now s =
      Some (if um_reorderingTimer s2 = None \<and> r < h then um_start_reordering now s2 else s2)"
    using stop bases gt by (simp add: um_update_timer_def s2_def)
  show ?thesis
  proof (cases "pend \<and> \<not> x \<le> r")
    case True
    then have "um_vrUx ?s1 = sn_at x ?wb" "um_reorderingTimer ?s1 \<noteq> None" using ux t by (auto simp: wb)
    with True run show ?thesis
      by (intro exI [of _ "um_vrUx ?s1"] exI [of _ "um_reorderingTimer s"]) (auto simp: s2_def)
  next
    case False
    then have s2: "s2 = ?s1\<lparr>um_reorderingTimer := None\<rparr>" unfolding s2_def by (rule if_not_P)
    show ?thesis
    proof (cases "r < h")
      case True
      with False run s2 show ?thesis
        by (intro exI [of _ "sn_at h ?wb"] exI [of _ "Some (now + um_reorderingTimerValue s)"])
          (auto simp: um_start_reordering_def)
    next
      case nl: False
      with False run s2 show ?thesis
        by (intro exI [of _ "um_vrUx ?s1"] exI [of _ None]) auto
    qed
  qed
qed

section \<open>The refinement\<close>

text \<open>
  The receiver stands for the window \<open>w\<close>: its variables are the numbers of the positions, with
  the same modulus base while the timer is pending, its buffer holds the stored PDUs, and it has
  delivered what the processed frames allow.
\<close>

definition rx_inv :: "frame list \<Rightarrow> rlc_pdu list \<Rightarrow> window \<Rightarrow> rlc_um \<Rightarrow> bool" where
  "rx_inv fs pdus w s \<longleftrightarrow>
     window_ok w \<and> wn_upper w \<le> length fs \<and> rx_processed fs (set (wn_processed w)) (wn_lower w) s \<and>
     um_windowSize s = 512 \<and> rx_map pdus (wn_lower w) (set (wn_stored w)) (map_of (um_rxBuffer s)) \<and>
     (um_reorderingTimer s \<noteq> None \<longleftrightarrow> wn_pending w) \<and>
     (\<exists>b. um_vrUr s = sn_at (wn_lower w) b \<and> (wn_pending w \<longrightarrow> b = window_base (wn_upper w))) \<and>
     (\<exists>b. um_vrUh s = sn_at (wn_upper w) b \<and> (wn_pending w \<longrightarrow> b = window_base (wn_upper w))) \<and>
     (wn_pending w \<longrightarrow> um_vrUx s = sn_at (wn_mark w) (window_base (wn_upper w)))"

lemma rx_invI:
  assumes "window_ok w" "wn_upper w \<le> length fs" "rx_processed fs (set (wn_processed w)) (wn_lower w) s"
    "um_windowSize s = 512" "rx_map pdus (wn_lower w) (set (wn_stored w)) (map_of (um_rxBuffer s))"
    "um_reorderingTimer s \<noteq> None \<longleftrightarrow> wn_pending w"
    "um_vrUr s = sn_at (wn_lower w) (window_base (wn_upper w))" "um_vrUh s = sn_at (wn_upper w) (window_base (wn_upper w))"
    "wn_pending w \<Longrightarrow> um_vrUx s = sn_at (wn_mark w) (window_base (wn_upper w))"
  shows "rx_inv fs pdus w s"
  using assms by (auto simp: rx_inv_def)

text \<open>Starting the timer or not, for a window and the receiver's state with the variables set.\<close>

lemma win_start_sel [simp]:
  "wn_lower (win_start w) = wn_lower w" "wn_upper (win_start w) = wn_upper w"
  "wn_stored (win_start w) = wn_stored w" "wn_processed (win_start w) = wn_processed w"
  "wn_pending (win_start w) \<longleftrightarrow> wn_lower w < wn_upper w"
  "wn_lower w < wn_upper w \<Longrightarrow> wn_mark (win_start w) = wn_upper w"
  by (simp_all add: win_start_def)

text \<open>\<open>DoReceivePdu\<close> up to the test of 5.1.2.2.2.\<close>

lemma DoReceivePdu_start:
  assumes p: "carries i f p" and ws: "um_windowSize s = 512" and ur: "um_vrUr s = sn_at r b" and uh: "um_vrUh s = sn_at h c"
  shows "\<exists>x. um_DoReceivePdu now p s = um_receive now (sn_at i (window_base h)) p
    (s\<lparr>um_out := um_out s @ [RxPduTrace (um_rnti s) (um_lcid s) (u32_size (pdu_bytes p)) x],
       um_vrUr := sn_at r (window_base h), um_vrUh := sn_at h (window_base h)\<rparr>)"
proof -
  obtain t where t: "pdu_stamp p = Some t" using p by (auto simp: carries_def)
  obtain hd where hd: "rlc_PeekHeader (pdu_bytes p) rlc_header0 = Some hd" "rh_sequenceNumber hd = sn_at i 0"
    using p by (cases f) (metis carries_header)
  have wb: "pos_value (h + 512) = window_base h" by (simp add: window_base_def)
  show ?thesis
    by (rule exI [of _ "word_of_int (now - t)"])
      (simp add: um_DoReceivePdu_def t hd ws ur uh Let_def um_emit_def wb)
qed

text \<open>The lower edge of the receiver follows that of the window.\<close>

lemma rx_advance:
  assumes ok: "pdus_ok fs pdus" and core: "window_core w" and n: "wn_upper w \<le> length fs"
    and rx: "rx_processed fs (set (wn_processed w)) (wn_lower w) s"
    and m: "rx_map pdus (wn_lower w) (set (wn_stored w)) (map_of (um_rxBuffer s))"
    and ur: "um_vrUr s = sn_at (wn_lower w) (window_base h)"
    and reach: "in_reach h (wn_lower w)" "in_reach h (wn_lower (win_advance w))"
  shows "\<exists>s'. um_advance_lower s = Some s' \<and>
    rx_processed fs (set (wn_processed (win_advance w))) (wn_lower (win_advance w)) s' \<and>
    same_window (s\<lparr>um_vrUr := sn_at (wn_lower (win_advance w)) (window_base h)\<rparr>) s' \<and>
    rx_map pdus (wn_lower (win_advance w)) (set (wn_stored (win_advance w))) (map_of (um_rxBuffer s'))"
proof (cases "wn_lower w \<in> set (wn_stored w)")
  case True
  then have adv: "win_advance w = win_process (next_missing (Suc (wn_lower w)) (wn_stored w)) w"
    by (simp add: win_advance_def)
  have S: "set (wn_stored w) \<subseteq> {wn_lower w..<wn_upper w}" "wn_upper w \<le> wn_lower w + 512"
    using core by (simp_all add: window_core_def)
  show ?thesis
    using advance_lower_ok [OF ok m rx ur True S n reach(1)] reach(2)
    unfolding adv set_win_process win_process_sel by simp
next
  case False
  then have "win_advance w = w" by (simp add: win_advance_def)
  moreover have "um_advance_lower s = Some s"
    using rx_map_at [OF m, of "wn_lower w"] False by (simp add: um_advance_lower_def ur)
  moreover have "s\<lparr>um_vrUr := um_vrUr s\<rparr> = s" by simp
  ultimately show ?thesis using rx m unfolding ur by (simp add: same_window_def)
qed

lemma rx_arrive:
  assumes ok: "pdus_ok fs pdus" and inv: "rx_inv fs pdus w s" and i: "i < length fs" and w': "win_arrive i w = Some w'"
  shows "\<exists>s'. um_DoReceivePdu now (pdus ! i) s = Some s' \<and> rx_inv fs pdus w' s'"
proof -
  let ?r = "wn_lower w" and ?h = "wn_upper w" and ?S = "set (wn_stored w)" and ?wb = "window_base (wn_upper w)"
  have win: "?h \<le> i + 512" "i < ?r + 512" using w' by (auto simp: win_arrive_def split: if_splits)
  have core: "window_core w" "wn_pending w \<longrightarrow> mark_ok w" using inv by (simp_all add: rx_inv_def window_ok_def)
  then have rh: "?r \<le> ?h" "?h \<le> ?r + 512" "?S \<subseteq> {?r..<?h}" by (simp_all add: window_core_def)
  have ws: "um_windowSize s = 512" and m: "rx_map pdus ?r ?S (map_of (um_rxBuffer s))"
    and rx: "rx_processed fs (set (wn_processed w)) ?r s" and tm: "um_reorderingTimer s \<noteq> None \<longleftrightarrow> wn_pending w"
    and n: "?h \<le> length fs" and ux: "wn_pending w \<longrightarrow> um_vrUx s = sn_at (wn_mark w) ?wb"
    using inv by (simp_all add: rx_inv_def)
  obtain b c where bc: "um_vrUr s = sn_at ?r b" "um_vrUh s = sn_at ?h c" using inv by (auto simp: rx_inv_def)
  have p: "carries i (fs ! i) (pdus ! i)" using ok i by (simp add: pdus_ok_def)
  from DoReceivePdu_start [OF p ws bc] obtain x where
    run: "um_DoReceivePdu now (pdus ! i) s = um_receive now (sn_at i ?wb) (pdus ! i)
      (s\<lparr>um_out := um_out s @ [RxPduTrace (um_rnti s) (um_lcid s) (u32_size (pdu_bytes (pdus ! i))) x],
         um_vrUr := sn_at ?r ?wb, um_vrUh := sn_at ?h ?wb\<rparr>)" by blast
  define s1 where "s1 = s\<lparr>um_out := um_out s @ [RxPduTrace (um_rnti s) (um_lcid s) (u32_size (pdu_bytes (pdus ! i))) x],
            um_vrUr := sn_at ?r ?wb, um_vrUh := sn_at ?h ?wb\<rparr>"
  have s1: "um_windowSize s1 = 512" "um_vrUr s1 = sn_at ?r ?wb" "um_vrUh s1 = sn_at ?h ?wb"
    "rx_map pdus ?r ?S (map_of (um_rxBuffer s1))" "um_vrUx s1 = um_vrUx s" "um_reorderingTimer s1 = um_reorderingTimer s"
    using ws m by (simp_all add: s1_def)
  have rx1: "rx_processed fs (set (wn_processed w)) ?r s1"
    using rx by (rule rx_processed_cong) (simp_all add: s1_def delivered_def)
  note disc = um_discards_ok [OF s1(1,2,3,4) rh(1,2) win]
  note run = run [folded s1_def, unfolded um_receive_def disc]
  let ?old = "i < ?r \<or> ?r < i \<and> i < ?h \<and> i \<in> ?S"
  show ?thesis
  proof (cases ?old)
    case True
    then have "w' = w" using w' win by (simp add: win_arrive_def)
    moreover have "rx_inv fs pdus w s1"
      by (rule rx_invI) (use inv s1 rx1 n tm ux in \<open>simp_all add: rx_inv_def\<close>)
    ultimately show ?thesis using run True by simp
  next
    case False
    let ?w1 = "win_store i w"
    let ?h' = "max ?h (Suc i)"
    have ri: "?r \<le> i" using False by simp
    have core1: "window_core ?w1" using win_store_core [OF core(1) ri win(2)] .
    let ?s2 = "s1\<lparr>um_rxBuffer := map_assign (pos_value i) (pdus ! i) (um_rxBuffer s1)\<rparr>"
    have m2: "rx_map pdus ?r (set (wn_stored ?w1)) (map_of (um_rxBuffer ?s2))"
      using rx_map_insert [OF s1(4) ri] win(2) by simp
    have S2: "set (wn_stored ?w1) \<subseteq> {?r..<?h'}" using core1 by (simp add: window_core_def)
    let ?s3 = "?s2\<lparr>um_vrUh := sn_at ?h' (window_base ?h')\<rparr>"
    have adv: "um_advance_window (sn_at i ?wb) ?s2 = Some ?s3"
      by (rule advance_window_ok [OF _ _ _ m2 S2 rh(1,2) win]) (simp_all add: s1)
    let ?w2 = "win_advance ?w1"
    have n1: "wn_upper ?w1 \<le> length fs" using n i by simp
    have rx3: "rx_processed fs (set (wn_processed ?w1)) (wn_lower ?w1) ?s3"
      using rx1 by (simp, intro rx_processed_cong [OF rx1]) (simp_all add: delivered_def)
    have reach: "in_reach ?h (wn_lower ?w1)" "in_reach ?h (wn_lower ?w2)"
    proof -
      show "in_reach ?h (wn_lower ?w1)" using rh by (simp add: in_reach_def)
      show "in_reach ?h (wn_lower ?w2)"
      proof (cases "?r \<in> set (wn_stored ?w1)")
        case True
        note next' = win_advance_next [OF core1 _ refl, unfolded win_store_sel(1), OF True]
        have "next_missing (Suc ?r) (wn_stored ?w1) < ?h + 512"
        proof (cases "?r < ?h")
          case True
          with next'(2) rh(2) win(2) show ?thesis by simp
        next
          case False
          then have "?S = {}" "?h = ?r" using rh by auto
          with True next'(2) show ?thesis by simp
        qed
        with True next'(1) rh(2) show ?thesis by (simp add: win_advance_def in_reach_def)
      next
        case False
        with rh show ?thesis by (simp add: win_advance_def in_reach_def)
      qed
    qed
    have m3: "rx_map pdus (wn_lower ?w1) (set (wn_stored ?w1)) (map_of (um_rxBuffer ?s3))" using m2 by simp
    have ur3: "um_vrUr ?s3 = sn_at (wn_lower ?w1) ?wb" using s1 by simp
    from rx_advance [OF ok core1 n1 rx3 m3 ur3 reach] obtain s4 where
      s4: "um_advance_lower ?s3 = Some s4" "rx_processed fs (set (wn_processed ?w2)) (wn_lower ?w2) s4"
      "same_window (?s3\<lparr>um_vrUr := sn_at (wn_lower ?w2) ?wb\<rparr>) s4"
      "rx_map pdus (wn_lower ?w2) (set (wn_stored ?w2)) (map_of (um_rxBuffer s4))" by blast
    have core2: "window_core ?w2" using win_advance_core [OF core1] .
    then have rh2: "wn_lower ?w2 \<le> ?h'" "?h' \<le> wn_lower ?w2 + 512" by (simp_all add: window_core_def)
    have mark1: "wn_pending w \<Longrightarrow> mark_ok ?w1" using core(2) by (auto simp: mark_ok_def)
    have s4': "um_windowSize s4 = 512" "um_vrUh s4 = sn_at ?h' (window_base ?h')" "um_vrUr s4 = sn_at (wn_lower ?w2) ?wb"
      "um_vrUx s4 = um_vrUx s" "um_reorderingTimer s4 = um_reorderingTimer s"
      using s4(3) s1 by (simp_all add: same_window_def)
    have x: "wn_pending w \<longrightarrow> um_vrUx s4 = sn_at (wn_mark w) ?wb \<and> wn_mark w \<le> ?h' \<and> ?h' \<le> wn_mark w + 512"
      using ux s4'(4) mark1 core1 by (auto simp: mark_ok_def window_core_def)
    have t4: "um_reorderingTimer s4 \<noteq> None \<longleftrightarrow> wn_pending w" using tm s4'(5) by simp
    from update_timer_ok [OF s4'(1,2,3) rh2 t4 x, of now] obtain ux' timer where
      up: "um_update_timer now s4 = Some (s4\<lparr>um_vrUr := sn_at (wn_lower ?w2) (window_base ?h'),
        um_vrUh := sn_at ?h' (window_base ?h'), um_vrUx := ux', um_reorderingTimer := timer\<rparr>)" (is "_ = Some ?s5")
      and tux: "if wn_pending w \<and> \<not> wn_mark w \<le> wn_lower ?w2 then timer \<noteq> None \<and> ux' = sn_at (wn_mark w) (window_base ?h')
        else if wn_lower ?w2 < ?h' then timer \<noteq> None \<and> ux' = sn_at ?h' (window_base ?h') else timer = None" by blast
    have rx5: "rx_processed fs (set (wn_processed ?w2)) (wn_lower ?w2) ?s5"
      using s4(2) by (rule rx_processed_cong) (simp_all add: delivered_def)
    have "w' = (if wn_pending w \<and> \<not> wn_mark w \<le> wn_lower ?w2 then ?w2 else win_start ?w2)"
      using w' win False by (simp add: win_arrive_def Let_def)
    moreover have "rx_inv fs pdus ?w2 ?s5" if "wn_pending w \<and> \<not> wn_mark w \<le> wn_lower ?w2"
    proof (rule rx_invI)
      show "window_ok ?w2" using core2 win_advance_mark [OF mark1] that by (simp add: window_ok_def)
    qed (use that tux s4 rx5 s4'(1) n1 in simp_all)
    moreover have "rx_inv fs pdus (win_start ?w2) ?s5" if "\<not> (wn_pending w \<and> \<not> wn_mark w \<le> wn_lower ?w2)"
    proof (rule rx_invI)
      show "window_ok (win_start ?w2)" using core2 by (rule win_start_ok)
    qed (use that tux s4 rx5 s4'(1) n1 in \<open>auto split: if_splits\<close>)
    moreover have "um_DoReceivePdu now (pdus ! i) s = Some ?s5"
      using run False adv s4(1) up by (simp add: Let_def)
    ultimately show ?thesis by auto
  qed
qed

lemma rx_expire:
  assumes ok: "pdus_ok fs pdus" and inv: "rx_inv fs pdus w s"
  shows "\<exists>s'. rx_step pdus ReorderingExpires s = Some s' \<and> rx_inv fs pdus (win_expire w) s'"
proof (cases "wn_pending w")
  case False
  then have "um_reorderingTimer s = None" using inv by (simp add: rx_inv_def)
  with False inv show ?thesis by (simp add: win_expire_def)
next
  case True
  let ?r = "wn_lower w" and ?h = "wn_upper w" and ?S = "set (wn_stored w)" and ?wb = "window_base (wn_upper w)"
  let ?r' = "first_absent (wn_mark w) (wn_stored w)"
  have core: "window_core w" "mark_ok w" using inv True by (simp_all add: rx_inv_def window_ok_def)
  then have rh: "?r \<le> ?h" "?h \<le> ?r + 512" "?S \<subseteq> {?r..<?h}" "?r < wn_mark w" "wn_mark w \<le> ?h" "wn_mark w - 1 \<in> ?S"
    by (simp_all add: window_core_def mark_ok_def)
  have ws: "um_windowSize s = 512" and m: "rx_map pdus ?r ?S (map_of (um_rxBuffer s))"
    and rx: "rx_processed fs (set (wn_processed w)) ?r s" and n: "?h \<le> length fs"
    and v: "um_vrUx s = sn_at (wn_mark w) ?wb" "um_vrUr s = sn_at ?r ?wb" "um_vrUh s = sn_at ?h ?wb"
    using inv True by (auto simp: rx_inv_def)
  obtain t where t: "um_reorderingTimer s = Some t" using inv True by (auto simp: rx_inv_def)
  have S: "?S \<subseteq> {..<?h}" "?h < ?r + 1024" using rh by auto
  note r' = win_expire_next [OF core refl]
  let ?s1 = "s\<lparr>um_reorderingTimer := None, um_vrUr := sn_at ?r' ?wb\<rparr>"
  have miss: "um_first_missing_sn (um_vrUx s) (um_rxBuffer s) = Some (sn_at ?r' ?wb)"
    using first_missing_sn_ok [OF m S _ rh(5)] rh(4) by (simp add: v)
  have reach: "in_reach ?h ?r" "in_reach ?h ?r'" "in_reach ?h ?h" using rh r' by (auto simp: in_reach_def)
  have "rx_processed fs (set (wn_processed w)) ?r ?s1"
    using rx by (rule rx_processed_cong) (simp_all add: delivered_def)
  moreover have "rx_map pdus ?r ?S (map_of (um_rxBuffer ?s1))" using m by simp
  ultimately obtain s2 where s2: "um_ReassembleSnInterval (sn_at ?r ?wb) (sn_at ?r' ?wb) ?s1 = Some s2"
    "rx_processed fs (set (wn_processed w) \<union> (?S \<inter> {?r..<?r'})) ?r' s2" "same_window ?s1 s2"
    "rx_map pdus ?r' (?S - {..<?r'}) (map_of (um_rxBuffer s2))"
    using reassemble_to [OF ok _ _ r' rh(3,2) n reach(1,2)] by blast
  let ?w = "win_process ?r' w"
  have gt: "sn_gt (um_vrUh s2) (um_vrUr s2) = Some (?r' < ?h)"
    using s2(3) sn_gt_at [OF reach(3,2)] v by (simp add: same_window_def)
  have ok': "window_ok (win_start ?w)" by (rule win_start_ok [OF win_process_core [OF core(1) r'(1,3,2)]])
  let ?s3 = "if ?r' < ?h then um_start_reordering t s2 else s2"
  have "rx_step pdus ReorderingExpires s = Some ?s3"
    using t miss s2(1) gt v by (simp add: um_ExpireReorderingTimer_def Let_def)
  moreover have "rx_inv fs pdus (win_start ?w) ?s3"
  proof (rule rx_invI)
    have "rx_processed fs (set (wn_processed ?w)) ?r' ?s3"
      unfolding set_win_process by (rule rx_processed_cong [OF s2(2)]) (simp_all add: um_start_reordering_def delivered_def)
    then show "rx_processed fs (set (wn_processed (win_start ?w))) (wn_lower (win_start ?w)) ?s3" by simp
  qed (use ok' n s2(3,4) ws v in \<open>auto simp: um_start_reordering_def same_window_def set_win_process\<close>)
  moreover have "win_expire w = win_start ?w" using True by (simp add: win_expire_def)
  ultimately show ?thesis by simp
qed

section \<open>Runs\<close>

fun arrivals :: "channel_action list \<Rightarrow> nat list" where
  "arrivals [] = []"
| "arrivals (Arrive now i # as) = i # arrivals as"
| "arrivals (ReorderingExpires # as) = arrivals as"

lemma rx_run_ok:
  assumes "pdus_ok fs pdus" "rx_inv fs pdus w s" "\<forall>i\<in>set (arrivals as). i < length fs" "win_run as w = Some w'"
  shows "\<exists>s'. rx_run pdus as s = Some s' \<and> rx_inv fs pdus w' s'"
  using assms(2-)
proof (induction as arbitrary: w s)
  case (Cons a as)
  then obtain w1 where w1: "win_step a w = Some w1" "win_run as w1 = Some w'"
    by (auto simp: Option.bind_eq_Some_conv)
  have "\<exists>s1. rx_step pdus a s = Some s1 \<and> rx_inv fs pdus w1 s1"
  proof (cases a)
    case (Arrive now i)
    with Cons.prems w1(1) show ?thesis using rx_arrive [OF assms(1), of w s i w1 now] by simp
  next
    case ReorderingExpires
    with w1(1) show ?thesis using rx_expire [OF assms(1) Cons.prems(1)] by simp
  qed
  then obtain s1 where s1: "rx_step pdus a s = Some s1" "rx_inv fs pdus w1 s1" by blast
  have "\<forall>i\<in>set (arrivals as). i < length fs" using Cons.prems(2) by (cases a) auto
  from Cons.IH [OF s1(2) this w1(2)] s1(1) show ?case by simp
qed auto

lemma initial_rx_inv:
  assumes "pdus_ok fs pdus"
  shows "rx_inv fs pdus window0 (configured m e d v (LteRlcUm rnti lcid budget))"
proof -
  have z: "sn_of 0 = sn_at 0 0" by (simp add: sn_of_def sn_at_def pos_value_def)
  show ?thesis
    by (simp add: rx_inv_def window0_def window_ok_def window_core_def configured_def LteRlcUm_def z processed_to_def
        rx_processed_def holds_def kept_at_def deliverable_def finished_def rx_map_def delivered_def)
      blast
qed

end
