(* ===== verification/Rlc_Um_Link.thy ===== *)
theory Rlc_Um_Link
  imports Rlc_Um_Window
begin

text \<open>
  A transmitter and a receiver of RLC UM with a channel between them that loses, repeats and
  reorders PDUs: what reaches the upper layer, and the defects of the two.
\<close>

section \<open>What is delivered\<close>

text \<open>The frames of the PDUs sent, and the SDUs all of whose PDUs are among those at \<open>P\<close>.\<close>

definition frames_of :: "rlc_pdu list \<Rightarrow> frame list" where
  "frames_of pdus = map (\<lambda>p. the (frame_of p)) pdus"

definition received_whole :: "rlc_pdu list \<Rightarrow> nat set \<Rightarrow> u8 list list \<Rightarrow> u8 list list" where
  "received_whole pdus P sdus =
     map ((!) sdus) (filter (\<lambda>j. carriers (frames_of pdus) j \<subseteq> P) [0..<finished (frames_of pdus) (length pdus)])"

lemma tx_inv_pdus:
  assumes "tx_inv fs sdus s"
  shows "pdus_ok fs (transmitted s)" and "frames_of (transmitted s) = fs"
proof -
  have c: "\<forall>k<length fs. carries k (fs ! k) (transmitted s ! k)" "length (transmitted s) = length fs" "linked fs"
    using assms by (simp_all add: tx_inv_def)
  then show "frames_of (transmitted s) = fs"
    by (intro nth_equalityI) (auto simp: frames_of_def frame_of_carries)
  have "\<forall>f\<in>set fs. fst (snd f) \<noteq> []"
    using c(1) by (fastforce simp: in_set_conv_nth carries_def frame_ok_def)
  then show "pdus_ok fs (transmitted s)" using c by (simp add: pdus_ok_def frames_ok_def)
qed

lemma deliverable_whole:
  assumes ok: "pdus_ok fs pdus" and fs: "frames_of pdus = fs" and p: "processed_to P r" "r \<le> length fs"
    and sdus: "sdus = snd (content fs) @ rest"
  shows "deliverable fs P r = received_whole pdus P sdus"
proof -
  have fok: "frames_ok fs" and len: "length pdus = length fs" using ok by (simp_all add: pdus_ok_def)
  let ?Q = "\<lambda>j. carriers fs j \<subseteq> P" and ?n = "finished fs (length fs)"
  have E: "finished fs r \<le> ?n" using finished_mono [OF fok p(2)] by simp
  have "filter ?Q [finished fs r..<?n] = []"
  proof (rule filter_upt_false)
    fix j assume "finished fs r \<le> j" "j < ?n"
    from finishing_frame [OF fok p(2) order_refl this] obtain c where "r \<le> c" "c \<in> carriers fs j" by blast
    moreover from this have "c \<notin> P" using p(1) by (auto simp: processed_to_def)
    ultimately show "\<not> ?Q j" by auto
  qed
  moreover have "[0..<?n] = [0..<finished fs r] @ [finished fs r..<?n]"
    using E by (metis le_add_diff_inverse upt_add_eq_append zero_le)
  moreover have "?n = length (snd (content fs))" by (simp add: finished_def)
  ultimately show ?thesis
    using E by (simp add: deliverable_def received_whole_def fs len sdus nth_append)
qed

text \<open>The processed positions: ascending, and among the arrivals.\<close>

lemma win_process_sorted:
  assumes "sorted_wrt (<) (wn_processed w)" "set (wn_processed w) \<subseteq> {..<wn_lower w}" 
  shows "sorted_wrt (<) (wn_processed (win_process r w))"
  using assms by (auto simp: win_process_def sorted_wrt_append sorted_wrt_filter)

lemma win_step_sorted:
  assumes "win_step a w = Some w'" "window_core w" "sorted_wrt (<) (wn_processed w)"
  shows "sorted_wrt (<) (wn_processed w')"
proof -
  have p: "set (wn_processed w) \<subseteq> {..<wn_lower w}" using assms(2) by (auto simp: window_core_def processed_to_def)
  show ?thesis
  proof (cases a)
    case (Arrive now i)
    have "sorted_wrt (<) (wn_processed (win_advance (win_store i w)))"
      using win_process_sorted [of "win_store i w"] assms(3) p by (simp add: win_advance_def)
    with Arrive assms show ?thesis by (auto simp: win_arrive_def Let_def split: if_splits)
  next
    case ReorderingExpires
    with assms win_process_sorted [OF assms(3) p] show ?thesis by (auto simp: win_expire_def)
  qed
qed

definition window_positions :: "window \<Rightarrow> nat set" where
  "window_positions w = set (wn_stored w) \<union> set (wn_processed w)"

lemma win_step_positions:
  assumes "win_step a w = Some w'"
  shows "window_positions w' \<subseteq> window_positions w \<union> set (arrivals [a])"
  using assms
  by (cases a) (auto simp: window_positions_def win_arrive_def win_expire_def win_advance_def Let_def set_win_process
      split: if_splits)

lemma arrivals_Cons: "set (arrivals (a # as)) = set (arrivals [a]) \<union> set (arrivals as)"
  by (cases a) auto

lemma win_arrive_ok:
  assumes "win_arrive i w = Some w'" "window_ok w"
  shows "window_ok w'"
proof (cases "i < wn_lower w \<or> wn_lower w < i \<and> i < wn_upper w \<and> i \<in> set (wn_stored w)")
  case False
  have "i < wn_lower w + 512" using assms(1) by (auto simp: win_arrive_def split: if_splits)
  moreover have "wn_lower w \<le> i" using False by simp
  ultimately have core: "window_core (win_advance (win_store i w))"
    using win_advance_core win_store_core assms(2) by (simp add: window_ok_def)
  have "mark_ok (win_store i w)" if "wn_pending w" using assms(2) that by (auto simp: window_ok_def mark_ok_def)
  from win_advance_mark [OF this] core win_start_ok [OF core] assms(1) False show ?thesis
    by (auto simp: win_arrive_def Let_def window_ok_def split: if_splits)
qed (use assms in \<open>auto simp: win_arrive_def split: if_splits\<close>)

lemma win_expire_ok:
  assumes "window_ok w"
  shows "window_ok (win_expire w)"
proof (cases "wn_pending w")
  case True
  then have w: "window_core w" "mark_ok w" using assms by (simp_all add: window_ok_def)
  note r = win_expire_next [OF w refl]
  have "window_core (win_process (first_absent (wn_mark w) (wn_stored w)) w)"
    by (rule win_process_core [OF w(1) r(1,3,2)])
  from win_start_ok [OF this] True show ?thesis by (simp add: win_expire_def)
qed (use assms in \<open>simp add: win_expire_def\<close>)

lemma win_step_ok: "win_step a w = Some w' \<Longrightarrow> window_ok w \<Longrightarrow> window_ok w'"
  using win_arrive_ok win_expire_ok by (cases a) auto

lemma win_run_facts:
  assumes "win_run as w = Some w'" "window_ok w" "sorted_wrt (<) (wn_processed w)"
  shows "window_ok w' \<and> sorted_wrt (<) (wn_processed w') \<and>
    window_positions w' \<subseteq> window_positions w \<union> set (arrivals as)"
  using assms
proof (induction as arbitrary: w)
  case (Cons a as)
  then obtain w1 where w1: "win_step a w = Some w1" "win_run as w1 = Some w'"
    by (auto simp: Option.bind_eq_Some_conv)
  have "window_ok w1" "sorted_wrt (<) (wn_processed w1)"
    using win_step_ok [OF w1(1)] win_step_sorted [OF w1(1)] Cons.prems by (simp_all add: window_ok_def)
  with Cons.IH [OF w1(2)] win_step_positions [OF w1(1)] arrivals_Cons [of a as] show ?case by auto
qed simp

lemma window0_ok: "window_ok window0" "sorted_wrt (<) (wn_processed window0)" "window_positions window0 = {}"
  by (simp_all add: window0_def window_ok_def window_core_def processed_to_def window_positions_def)


section \<open>Without losses\<close>

text \<open>The window when the PDUs arrive in order: nothing is stored and the timer never starts.\<close>

definition in_order :: "nat \<Rightarrow> window" where
  "in_order k = window0\<lparr>wn_lower := k, wn_upper := k, wn_processed := [0..<k]\<rparr>"

lemma win_arrive_in_order: "win_arrive k (in_order k) = Some (in_order (Suc k))"
proof -
  have nm: "next_missing (Suc k) [k] = Suc k" unfolding next_missing.simps [of "Suc k"] by (rule if_not_P) simp
  have "win_advance (win_store k (in_order k)) = in_order (Suc k)"
    by (simp add: win_advance_def win_store_def win_process_def in_order_def window0_def nm)
  then show ?thesis
    by (simp add: win_arrive_def) (simp add: in_order_def window0_def win_start_def)
qed

lemma win_run_in_order:
  "win_run (map (\<lambda>(t, i). Arrive t i) (zip ts [k..<k + length ts])) (in_order k) = Some (in_order (k + length ts))"
proof (induction ts arbitrary: k)
  case (Cons t ts)
  have u: "[k..<k + length (t # ts)] = k # [Suc k..<Suc k + length ts]" using upt_conv_Cons [of k "k + length (t # ts)"] by simp
  from Cons.IH [of "Suc k"] show ?case unfolding u by (simp add: win_arrive_in_order)
qed simp

lemma arrivals_zip: "set (arrivals (map (\<lambda>(t, i). Arrive t i) (zip ts is))) \<subseteq> set is"
  by (induction ts "is" rule: list_induct2') auto

text \<open>
  C10: When the transmission buffer has been emptied and every PDU arrives in the order of
  transmission, at any times, the receiver has delivered exactly the SDUs accepted, each whole and
  in order.
\<close>

theorem rlc_um_lossless:
  assumes "\<forall>a\<in>set as. tx_legal a" and "m \<le> 2 ^ 31"
  shows "\<exists>tx sdus. tx_run as (configured m e d v (LteRlcUm rnti lcid budget), []) = Some (tx, sdus) \<and>
    (um_txBuffer tx = [] \<and> length ts = length (transmitted tx) \<longrightarrow>
      (\<exists>rx. rx_run (transmitted tx) (map (\<lambda>(t, i). Arrive t i) (zip ts [0..<length (transmitted tx)]))
          (configured m' e' d' v' (LteRlcUm rnti' lcid' budget')) = Some rx \<and> delivered rx = sdus))"
proof -
  from tx_run_ok [OF assms(1) initial_tx_inv [OF assms(2)]] obtain fs sdus tx where
    tx: "tx_run as (configured m e d v (LteRlcUm rnti lcid budget), []) = Some (tx, sdus)" "tx_inv fs sdus tx" by blast
  note pd = tx_inv_pdus [OF tx(2)]
  let ?cs = "map (\<lambda>(t, i). Arrive t i) (zip ts [0..<length (transmitted tx)])"
  let ?rx0 = "configured m' e' d' v' (LteRlcUm rnti' lcid' budget')"
  have "\<exists>rx. rx_run (transmitted tx) ?cs ?rx0 = Some rx \<and> delivered rx = sdus"
    if e: "um_txBuffer tx = []" "length ts = length (transmitted tx)"
  proof -
    let ?n = "length (transmitted tx)"
    have n: "?n = length fs" using pd(1) by (simp add: pdus_ok_def)
    have w: "win_run ?cs window0 = Some (in_order ?n)"
      using win_run_in_order [of ts 0] e(2) by (simp add: in_order_def window0_def)
    have "\<forall>i\<in>set (arrivals ?cs). i < length fs" using arrivals_zip [of ts "[0..<?n]"] n by auto
    from rx_run_ok [OF pd(1) initial_rx_inv [OF pd(1)] this w] obtain rx where
      rx: "rx_run (transmitted tx) ?cs ?rx0 = Some rx" "rx_inv fs (transmitted tx) (in_order ?n) rx" by blast
    then have "delivered rx = deliverable fs (set [0..<?n]) ?n"
      by (simp add: rx_inv_def rx_processed_def in_order_def)
    also have "\<dots> = snd (content fs)"
    proof -
      have "carriers fs j \<subseteq> set [0..<?n]" for j using n by (auto simp: carriers_def)
      then show ?thesis
        by (simp add: deliverable_def n finished_def map_nth del: set_upt)
    qed
    also have "\<dots> = sdus"
      using tx(2) e(1) by (cases "fst (content fs)") (auto simp: tx_inv_def pending_def)
    finally show ?thesis using rx(1) by blast
  qed
  with tx(1) show ?thesis by blast
qed

section \<open>The size of a PDU\<close>

lemma tx_run_append: "tx_run (as @ bs) c = tx_run as c \<bind> tx_run bs"
  by (induction as arbitrary: c) (simp_all split: Option.bind_split)

text \<open>
  C38: An opportunity sends one PDU when it has room for more than the fixed header and there is
  something to send, and none otherwise; with its header the PDU fits into the opportunity.
\<close>

theorem rlc_um_pdu_fits:
  assumes "\<forall>a\<in>set as. tx_legal a" and "m \<le> 2 ^ 31" and "unat (op_bytes txOp) < 2 ^ 16"
  shows "\<exists>tx sdus tx' ps. tx_run as (configured m e d v (LteRlcUm rnti lcid budget), []) = Some (tx, sdus) \<and>
    tx_run (as @ [Opportunity now txOp]) (configured m e d v (LteRlcUm rnti lcid budget), []) = Some (tx', sdus) \<and>
    transmitted tx' = transmitted tx @ ps \<and>
    length ps = (if 2 < op_bytes txOp \<and> um_txBuffer tx \<noteq> [] then 1 else 0) \<and>
    (\<forall>p\<in>set ps. length (pdu_bytes p) \<le> unat (op_bytes txOp))"
proof -
  from tx_run_ok [OF assms(1) initial_tx_inv [OF assms(2)]] obtain fs sdus tx where
    tx: "tx_run as (configured m e d v (LteRlcUm rnti lcid budget), []) = Some (tx, sdus)" "tx_inv fs sdus tx" by blast
  show ?thesis
  proof (cases "2 < op_bytes txOp \<and> um_txBuffer tx \<noteq> []")
    case True
    then obtain tx' p where "um_DoNotifyTxOpportunity now txOp tx = Some tx'"
      "transmitted tx' = transmitted tx @ [p]" "length (pdu_bytes p) \<le> unat (op_bytes txOp)"
      using um_DoNotifyTxOpportunity_ok [OF tx(2) assms(3)] by blast
    with tx(1) True show ?thesis by (intro exI [of _ tx] exI [of _ sdus] exI [of _ tx'] exI [of _ "[p]"])
      (simp add: tx_run_append)
  next
    case False
    then have "um_DoNotifyTxOpportunity now txOp tx = Some tx"
      by (auto simp: um_DoNotifyTxOpportunity_def not_less)
    with tx(1) False show ?thesis by (intro exI [of _ tx] exI [of _ sdus] exI [of _ tx] exI [of _ "[]"])
      (simp add: tx_run_append)
  qed
qed

section \<open>Well-formed states\<close>

text \<open>
  The transmitter: the size of the buffer is kept exactly, every entry has its tag and is not
  empty, only the first can be the rest of an SDU. The receiver: its numbers have 10 bits and share
  their modulus base while the timer is pending, the list of SDUs is empty between PDUs, and a
  beginning of an SDU is there when the state says so.
\<close>

definition tx_well_formed :: "rlc_um \<Rightarrow> bool" where
  "tx_well_formed s \<longleftrightarrow>
     sn_value (um_sequenceNumber s) < 1024 \<and> unat (um_txBufferSize s) = total_bytes (um_txBuffer s) \<and>
     um_txBufferSize s \<le> um_maxTxBufferSize s \<and>
     (entries_ok True (um_txBuffer s) \<or> entries_ok False (um_txBuffer s))"

definition rx_well_formed :: "rlc_um \<Rightarrow> bool" where
  "rx_well_formed s \<longleftrightarrow>
     sn_value (um_vrUr s) < 1024 \<and> sn_value (um_vrUh s) < 1024 \<and> sn_value (um_expectedSeqNumber s) < 1024 \<and>
     (um_reorderingTimer s \<noteq> None \<longrightarrow> sn_value (um_vrUx s) < 1024 \<and>
        sn_modulusBase (um_vrUx s) = sn_modulusBase (um_vrUr s) \<and>
        sn_modulusBase (um_vrUx s) = sn_modulusBase (um_vrUh s)) \<and>
     list_all (\<lambda>(k, _). k < 1024) (um_rxBuffer s) \<and> um_sdusBuffer s = [] \<and>
     (um_reassemblingState s = WAITING_S0_FULL \<or>
      um_reassemblingState s = WAITING_SI_SF \<and> um_keepS0 s \<noteq> None)"

lemma tx_inv_well_formed:
  assumes "tx_inv fs sdus s"
  shows "tx_well_formed s"
proof -
  have t: "total_bytes (um_txBuffer s) \<le> unat (um_maxTxBufferSize s)" "unat (um_maxTxBufferSize s) \<le> 2 ^ 31"
    "um_txBufferSize s = of_nat (total_bytes (um_txBuffer s))"
    using assms by (simp_all add: tx_inv_def word_le_nat_alt)
  then have u: "unat (um_txBufferSize s) = total_bytes (um_txBuffer s)"
    by (simp add: unsigned_of_nat take_bit_nat_eq_self)
  have "entries_ok (fst (content fs) = None) (um_txBuffer s)" "um_sequenceNumber s = sn_at (length fs) 0"
    using assms by (simp_all add: tx_inv_def)
  with t(1) u show ?thesis
    by (cases "fst (content fs) = None") (auto simp: tx_well_formed_def pos_value_below word_le_nat_alt)
qed

lemma rx_inv_well_formed:
  assumes "rx_inv fs pdus w s"
  shows "rx_well_formed s"
proof -
  have m: "rx_map pdus (wn_lower w) (set (wn_stored w)) (map_of (um_rxBuffer s))" using assms by (simp add: rx_inv_def)
  have keys: "list_all (\<lambda>(k, _). k < 1024) (um_rxBuffer s)"
    unfolding list_all_iff
  proof clarify
    fix k p assume "(k, p) \<in> set (um_rxBuffer s)"
    then have "map_of (um_rxBuffer s) k \<noteq> None" by (metis domI dom_map_of_conv_image_fst fst_conv imageI domIff)
    then show "k < 1024" using m by (auto simp: rx_map_def not_less [symmetric])
  qed
  have h: "holds (kept_at fs (set (wn_processed w)) (wn_lower w)) s" "\<exists>c. um_expectedSeqNumber s = sn_at (wn_lower w) c"
    using assms by (auto simp: rx_inv_def rx_processed_def)
  then have "um_sdusBuffer s = [] \<and> (um_reassemblingState s = WAITING_S0_FULL \<or>
      um_reassemblingState s = WAITING_SI_SF \<and> um_keepS0 s \<noteq> None)"
    by (auto simp: holds_def split: option.splits)
  then show ?thesis using assms keys h(2) by (auto simp: rx_well_formed_def rx_inv_def pos_value_below)
qed


section \<open>An example\<close>

text \<open>Three SDUs in three PDUs: the first SDU takes two, the other two share one.\<close>

definition opportunity :: "u32 \<Rightarrow> tx_action" where
  "opportunity n = Opportunity 0 \<lparr>op_bytes = n, op_layer = 0, op_harqId = 0, op_componentCarrierId = 0\<rparr>"

definition example_actions :: "tx_action list" where
  "example_actions = [Submit 0 [1, 2, 3], Submit 0 [4], Submit 0 [5], opportunity 4, opportunity 3, opportunity 20]"

definition example_entity :: rlc_um where
  "example_entity = configured 10240 True 0 100000000 (LteRlcUm 1 3 100)"

lemma example_legal: "\<forall>a\<in>set example_actions. tx_legal a"
  by (simp add: example_actions_def opportunity_def)

lemma example_sent:
  assumes "tx_run example_actions (configured 10240 True 0 100000000 (LteRlcUm 1 3 100), []) = Some (tx, sdus)"
  shows "sdus = [[1, 2, 3], [4], [5]]" "length (transmitted tx) = 3" "um_txBuffer tx = []"
proof -
  have "map_option (\<lambda>(s, sdus). (sdus, length (transmitted s), um_txBuffer s))
      (tx_run example_actions (configured 10240 True 0 100000000 (LteRlcUm 1 3 100), [])) =
    Some ([[1, 2, 3], [4], [5]], 3, [])" by code_simp
  then show "sdus = [[1, 2, 3], [4], [5]]" "length (transmitted tx) = 3" "um_txBuffer tx = []" using assms by simp_all
qed

lemma example_channel:
  "map_option (\<lambda>w. wn_processed w) (win_run [Arrive 0 0, Arrive 0 2, ReorderingExpires] window0) = Some [0, 2]"
  by code_simp


theorem rlc_um_lossless_witness:
  "\<exists>tx rx. tx_run example_actions (example_entity, []) = Some (tx, [[1, 2, 3], [4], [5]]) \<and>
    rx_run (transmitted tx) [Arrive 7 0, Arrive 8 1, Arrive 9 2] example_entity = Some rx \<and>
    delivered rx = [[1, 2, 3], [4], [5]]"
proof -
  have "10240 \<le> (2 ^ 31 :: u32)" by simp
  from rlc_um_lossless [OF example_legal this, of True 0 100000000 1 3 100 "[7, 8, 9]" 10240 True 0 100000000 1 3 100]
  obtain tx sdus where
    tx: "tx_run example_actions (configured 10240 True 0 100000000 (LteRlcUm 1 3 100), []) = Some (tx, sdus)"
    and rx: "um_txBuffer tx = [] \<and> length [7, 8, 9 :: int] = length (transmitted tx) \<longrightarrow>
      (\<exists>rx. rx_run (transmitted tx) (map (\<lambda>(t, i). Arrive t i) (zip [7, 8, 9] [0..<length (transmitted tx)]))
        (configured 10240 True 0 100000000 (LteRlcUm 1 3 100)) = Some rx \<and> delivered rx = sdus)" by blast
  have "[0..<3] = [0, 1, 2 :: nat]" by (simp add: upt_rec)
  with rx tx example_sent [OF tx] show ?thesis by (auto simp: example_entity_def)
qed

theorem rlc_um_pdu_fits_witness:
  "\<exists>tx sdus tx' p. tx_run (take 3 example_actions) (example_entity, []) = Some (tx, sdus) \<and>
    tx_run (take 3 example_actions @ [opportunity 4]) (example_entity, []) = Some (tx', sdus) \<and>
    transmitted tx' = transmitted tx @ [p] \<and> length (pdu_bytes p) \<le> 4"
proof -
  have l: "\<forall>a\<in>set (take 3 example_actions). tx_legal a" using example_legal by (meson in_set_takeD)
  have m: "10240 \<le> (2 ^ 31 :: u32)" by simp
  let ?op = "\<lparr>op_bytes = 4 :: u32, op_layer = 0 :: u8, op_harqId = 0 :: u8, op_componentCarrierId = 0 :: u8\<rparr>"
  have op: "unat (op_bytes ?op) < 2 ^ 16" by simp
  from rlc_um_pdu_fits [OF l m op, of True 0 100000000 1 3 100 0]
  obtain tx sdus tx' ps where
    tx: "tx_run (take 3 example_actions) (configured 10240 True 0 100000000 (LteRlcUm 1 3 100), []) = Some (tx, sdus)"
    and tx': "tx_run (take 3 example_actions @ [Opportunity 0 ?op]) (configured 10240 True 0 100000000 (LteRlcUm 1 3 100), []) = Some (tx', sdus)"
    "transmitted tx' = transmitted tx @ ps" "length ps = (if 2 < op_bytes ?op \<and> um_txBuffer tx \<noteq> [] then 1 else 0)"
    "\<forall>p\<in>set ps. length (pdu_bytes p) \<le> unat (op_bytes ?op)" by blast
  have "map_option (\<lambda>(s, _). um_txBuffer s = [])
      (tx_run (take 3 example_actions) (configured 10240 True 0 100000000 (LteRlcUm 1 3 100), [])) = Some False" by code_simp
  then have "um_txBuffer tx \<noteq> []" using tx by simp
  then have "length ps = 1" using tx'(3) by simp
  then obtain p where p: "ps = [p]" by (auto simp: length_Suc_conv)
  have "\<forall>p\<in>set ps. length (pdu_bytes p) \<le> 4" using tx'(4) by simp
  with tx tx'(1,2) show ?thesis unfolding p example_entity_def opportunity_def by auto
qed


section \<open>Where it goes wrong\<close>

text \<open>A PDU at a position, with a full SDU of one byte.\<close>

definition full_pdu :: "nat \<Rightarrow> u8 \<Rightarrow> rlc_pdu" where
  "full_pdu i b = \<lparr>pdu_bytes = the (rlc_AddHeader (built_header 0 (sn_at i 0) []) [b]), pdu_stamp = Some 0\<rparr>"

definition receive_all :: "rlc_pdu list \<Rightarrow> (u16 list \<times> u8 list list) option" where
  "receive_all pdus =
     map_option (\<lambda>s. (map fst (um_rxBuffer s), delivered s)) (rx_run pdus (map (Arrive 0) [0..<length pdus]) example_entity)"


text \<open>
  \<open>DoTransmitPdcpPdu\<close> reports an SDU whose head-of-line delay exceeds the timer as dropped, and
  transmits it all the same.
\<close>

lemma rlc_um_dropped_is_sent:
  "map_option (\<lambda>(s, sdus). (filter (\<lambda>x. case x of TxDropTrace _ \<Rightarrow> True | _ \<Rightarrow> False) (um_out s), sdus,
      map frame_of (transmitted s)))
    (tx_run [Submit 0 [1], Submit 200000000 [2], opportunity 10] (example_entity, [])) =
   Some ([TxDropTrace [2]], [[1], [2]], [Some (True, [[1], [2]], True)])"
  by code_simp

text \<open>
  An empty SDU: alone it makes \<open>DoNotifyTxOpportunity\<close> dereference the end of the data field, behind
  another one it leaves a header whose last extension bit announces a field that is not there.
\<close>

lemma rlc_um_empty_sdu:
  "tx_run [Submit 0 [], opportunity 10] (example_entity, []) = None \<and>
   map_option (\<lambda>(s, sdus). map frame_of (transmitted s))
     (tx_run [Submit 0 [1], Submit 0 [], Submit 0 [2], opportunity 10, opportunity 10] (example_entity, [])) =
     Some [None, Some (True, [[2]], True)]"
  by (intro conjI; code_simp)

end
