(* ===== verification/Type_Id_Hierarchy.thy ===== *)
theory Type_Id_Hierarchy
  imports Type_Id "HOL-Library.Sublist"
begin

text \<open>
  The type ids of a hierarchy of classes: the \<open>GetTypeId\<close> functions of the classes, run in any
  order, give a registry whose parents and attributes are those of the classes.
\<close>

section \<open>The loops over the parents\<close>

text \<open>The ids from a type up to the one that is its own parent.\<close>

fun chain_of :: "iid_manager \<Rightarrow> u16 list \<Rightarrow> bool" where
  "chain_of im [] = False"
| "chain_of im [u] = (GetParent u im = Some u)"
| "chain_of im (u # v # us) = (GetParent u im = Some v \<and> u \<noteq> v \<and> chain_of im (v # us))"

definition attributes_at :: "iid_manager \<Rightarrow> u16 \<Rightarrow> attribute_information list" where
  "attributes_at im u = (case LookupInformation u im of Some i \<Rightarrow> ii_attributes i | None \<Rightarrow> [])"

lemma LookupInformation_Some:
  "LookupInformation u im = Some i \<longleftrightarrow> unat u \<le> length (im_information im) \<and> u \<noteq> 0 \<and> i = im_information im ! (unat u - 1)"
  by (auto simp: LookupInformation_def option_simps)

lemma GetParent_Some: "GetParent u im = Some p \<longleftrightarrow> (\<exists>i. LookupInformation u im = Some i \<and> ii_parent i = p)"
  by (auto simp: GetParent_def)

lemma chain_lookup: "chain_of im (u # us) \<Longrightarrow> \<exists>i. LookupInformation u im = Some i \<and> ii_parent i = (case us of [] \<Rightarrow> u | v # _ \<Rightarrow> v)"
  by (cases us) (auto simp: GetParent_Some)

lemma HasAttribute_chain:
  "chain_of im us \<Longrightarrow> HasAttribute (hd us) n im = Some (n \<in> ai_name ` set (concat (map (attributes_at im) us)))"
proof (induction im us rule: chain_of.induct)
  case (2 im u)
  then obtain i where "LookupInformation u im = Some i" "ii_parent i = u" by (auto simp: GetParent_Some)
  then show ?case by (simp add: HasAttribute.simps [of u] attributes_at_def)
next
  case (3 im u v us)
  then obtain i where i: "LookupInformation u im = Some i" "ii_parent i = v" and ne: "u \<noteq> v" and c: "chain_of im (v # us)"
    by (auto simp: GetParent_Some)
  obtain j where "LookupInformation v im = Some j" using chain_lookup [OF c] by blast
  with i ne 3(1) [OF c] show ?case by (simp add: HasAttribute.simps [of u] attributes_at_def image_Un)
qed simp

lemma FindAttribute_chain:
  "chain_of im us \<Longrightarrow> map_option (map_option snd) (FindAttribute (hd us) n im) =
     Some (find (\<lambda>a. ai_name a = n) (concat (map (attributes_at im) us)))"
proof (induction im us rule: chain_of.induct)
  case (2 im u)
  then obtain i where "LookupInformation u im = Some i" "ii_parent i = u" by (auto simp: GetParent_Some)
  then show ?case by (simp add: FindAttribute.simps [of u] attributes_at_def GetParent_def split: option.split)
next
  case (3 im u v us)
  then obtain i where i: "LookupInformation u im = Some i" "ii_parent i = v" and ne: "u \<noteq> v" and c: "chain_of im (v # us)"
    by (auto simp: GetParent_Some)
  have f: "find P (xs @ ys) = (case find P xs of Some a \<Rightarrow> Some a | None \<Rightarrow> find P ys)" for P and xs ys :: "attribute_information list"
    by (induction xs) auto
  from i ne 3(1) [OF c] show ?case
    by (simp add: FindAttribute.simps [of u] attributes_at_def GetParent_def f split: option.split)
qed simp

lemma parent_loop_chain: "chain_of im us \<Longrightarrow> parent_loop (hd us) v im = Some (if v \<in> set us then v else last us)"
proof (induction im us rule: chain_of.induct)
  case (2 im u)
  then show ?case by (simp add: parent_loop.simps [of u])
next
  case (3 im u w us)
  then show ?case by (simp add: parent_loop.simps [of u])
qed simp

lemma IsChildOf_chain: "chain_of im us \<Longrightarrow> IsChildOf (hd us) v im = Some (v \<in> set us \<and> v \<noteq> hd us)"
proof -
  assume c: "chain_of im us"
  then have "us \<noteq> []" by auto
  then show ?thesis using parent_loop_chain [OF c, of v] last_in_set [of us] by (auto simp: IsChildOf_def)
qed

section \<open>What registration leaves alone\<close>

definition body :: "u16 \<Rightarrow> iid_manager \<Rightarrow> (u16 \<times> attribute_information list) option" where
  "body u im = map_option (\<lambda>i. (ii_parent i, ii_attributes i)) (LookupInformation u im)"

definition extends :: "iid_manager \<Rightarrow> iid_manager \<Rightarrow> bool" where
  "extends im im' \<longleftrightarrow> (\<forall>u b. body u im = Some b \<longrightarrow> body u im' = Some b)"

lemma extendsD: "extends im im' \<Longrightarrow> body u im = Some b \<Longrightarrow> body u im' = Some b"
  unfolding extends_def by blast

lemma extends_trans: "extends a b \<Longrightarrow> extends b c \<Longrightarrow> extends a c"
  by (simp add: extends_def)

lemma body_iff: "body u im = Some (p, as) \<longleftrightarrow> GetParent u im = Some p \<and> attributes_at im u = as"
  by (auto simp: body_def GetParent_def attributes_at_def split: option.splits)

lemma body_projections:
  "GetParent v im = map_option fst (body v im)" "attributes_at im v = (case body v im of Some b \<Rightarrow> snd b | None \<Rightarrow> [])"
  by (simp_all add: body_def GetParent_def attributes_at_def option.map_comp comp_def split: option.split)

lemma body_None: "body u im = None \<longleftrightarrow> \<not> (unat u \<le> length (im_information im) \<and> u \<noteq> 0)"
  by (simp add: body_def LookupInformation_def option_simps)

lemma UpdateInformation_body:
  assumes "LookupInformation u im = Some i"
  shows "\<exists>im'. UpdateInformation u f im = Some im' \<and> LookupInformation u im' = Some (f i) \<and>
    (\<forall>v. v \<noteq> u \<longrightarrow> LookupInformation v im' = LookupInformation v im) \<and> im_namemap im' = im_namemap im \<and>
    im_hashmap im' = im_hashmap im \<and> im_information im' = (im_information im)[unat u - 1 := f i]"
proof -
  have u: "unat u \<le> length (im_information im)" "u \<noteq> 0" "i = im_information im ! (unat u - 1)"
    using assms by (simp_all add: LookupInformation_Some)
  have "unat u - 1 < length (im_information im)" using u by (simp add: unat_gt_0 less_diff_conv2 Suc_le_eq)
  moreover have "unat u - 1 \<noteq> unat v - 1" if "v \<noteq> 0" "v \<noteq> u" for v :: u16
  proof -
    have "unat v \<noteq> unat u" using that(2) word_unat_eq_iff [of v u] by blast
    moreover have "0 < unat v" "0 < unat u" using that(1) u(2) by (simp_all add: unat_gt_0)
    ultimately show ?thesis by arith
  qed
  ultimately have "LookupInformation u (im\<lparr>im_information := (im_information im)[unat u - 1 := f i]\<rparr>) = Some (f i)"
    "\<And>v. v \<noteq> u \<Longrightarrow> LookupInformation v (im\<lparr>im_information := (im_information im)[unat u - 1 := f i]\<rparr>) = LookupInformation v im"
    using u(1,2) by (simp_all add: LookupInformation_Some)
      (auto simp: LookupInformation_def option_simps)
  then show ?thesis using assms by (simp add: UpdateInformation_def)
qed

lemma registered_update:
  assumes "registered H ns im" and "LookupInformation u im = Some i" and "ii_name (f i) = ii_name i" and "ii_hash (f i) = ii_hash i"
  shows "\<exists>im'. UpdateInformation u f im = Some im' \<and> registered H ns im' \<and> LookupInformation u im' = Some (f i) \<and>
    (\<forall>v. v \<noteq> u \<longrightarrow> body v im' = body v im)"
proof -
  from UpdateInformation_body [OF assms(2), of f] obtain im' where up: "UpdateInformation u f im = Some im'"
    "LookupInformation u im' = Some (f i)" "\<And>v. v \<noteq> u \<Longrightarrow> LookupInformation v im' = LookupInformation v im"
    "im_namemap im' = im_namemap im" "im_hashmap im' = im_hashmap im"
    "im_information im' = (im_information im)[unat u - 1 := f i]" by blast
  have i: "i = im_information im ! (unat u - 1)" "unat u \<le> length (im_information im)" "u \<noteq> 0"
    using assms(2) by (simp_all add: LookupInformation_Some)
  then have l: "unat u - 1 < length (im_information im)" by (simp add: unat_gt_0 less_diff_conv2 Suc_le_eq)
  have "map g (im_information im') = map g (im_information im)" if "g (f i) = g i" for g :: "iid_information \<Rightarrow> 'b"
    unfolding up(6) map_update that unfolding i(1) nth_map [OF l, of g, symmetric] by (rule list_update_id)
  then have "map ii_name (im_information im') = map ii_name (im_information im)" "map ii_hash (im_information im') = map ii_hash (im_information im)"
    using assms(3,4) by metis+
  with assms(1) have "registered H ns im'" unfolding registered_def up(4,5) by simp
  with up(1-3) show ?thesis by (auto simp: body_def)
qed

lemma body_cong: "im_information im = im_information im' \<Longrightarrow> body u im = body u im'"
  by (simp add: body_def LookupInformation_def)

lemma chain_hash_body:
  assumes "chain_hash n h im = Some (h', im1)"
  shows "body v im1 = body v im" and "length (im_information im1) = length (im_information im)"
proof -
  have "body v im1 = body v im \<and> length (im_information im1) = length (im_information im)"
  proof (cases "im_information im1 = im_information im")
    case True
    then show ?thesis using body_cong [OF True] by simp
  next
    case False
    with assms obtain uid i m where up: "UpdateInformation uid (\<lambda>i. i\<lparr>ii_hash := h OR HashChainFlag\<rparr>) (im\<lparr>im_hashmap := m\<rparr>) = Some i"
      and i: "im_information im1 = im_information i"
      by (auto simp: chain_hash_def option_simps Let_def bind_eq_Some_conv split: if_splits)
    from up obtain j where j: "LookupInformation uid (im\<lparr>im_hashmap := m\<rparr>) = Some j"
      by (auto simp: UpdateInformation_def bind_eq_Some_conv)
    from UpdateInformation_body [OF j, of "\<lambda>i. i\<lparr>ii_hash := h OR HashChainFlag\<rparr>"] up
    have r: "LookupInformation uid i = Some (j\<lparr>ii_hash := h OR HashChainFlag\<rparr>)"
      "\<And>v. v \<noteq> uid \<Longrightarrow> LookupInformation v i = LookupInformation v (im\<lparr>im_hashmap := m\<rparr>)"
      "length (im_information i) = length (im_information im)" by auto
    have "body v i = body v (im\<lparr>im_hashmap := m\<rparr>)" using r(1,2) j by (cases "v = uid") (simp_all add: body_def)
    also have "\<dots> = body v im" by (rule body_cong) simp
    finally show ?thesis using i r(3) body_cong [OF i] by simp
  qed
  then show "body v im1 = body v im" "length (im_information im1) = length (im_information im)" by blast+
qed

lemma body_append:
  "im_information im' = im_information im @ [x] \<Longrightarrow> body v im = Some b \<Longrightarrow> body v im' = Some b"
proof -
  assume a: "im_information im' = im_information im @ [x]" and "body v im = Some b"
  then obtain i where i: "LookupInformation v im = Some i" "b = (ii_parent i, ii_attributes i)" by (auto simp: body_def)
  then have v: "unat v \<le> length (im_information im)" "v \<noteq> 0" "i = im_information im ! (unat v - 1)"
    by (simp_all add: LookupInformation_Some)
  then have "unat v - 1 < length (im_information im)" by (simp add: unat_gt_0 less_diff_conv2 Suc_le_eq)
  with a v have "LookupInformation v im' = Some i" by (simp add: LookupInformation_Some nth_append)
  with i(2) show "body v im' = Some b" by (simp add: body_def)
qed

lemma body_new:
  assumes "im_information im' = im_information im @ [x]" and "length (im_information im) < 0xffff"
  shows "body (uid_at (length (im_information im))) im' = Some (ii_parent x, ii_attributes x)"
    and "body (uid_at (length (im_information im))) im = None"
proof -
  let ?u = "uid_at (length (im_information im))"
  have u: "unat ?u = Suc (length (im_information im))" using assms(2) by (rule unat_uid_at)
  then have "?u \<noteq> 0" by auto
  with u assms(1) show "body ?u im' = Some (ii_parent x, ii_attributes x)" by (simp add: body_def LookupInformation_def)
  show "body ?u im = None" unfolding body_None u by simp
qed

lemma AllocateUid_body:
  assumes "AllocateUid H n im = Some (u, im')"
  shows "extends im im'" and "body u im' = Some (0, [])" and "body u im = None"
proof -
  from assms obtain h im1 where c: "chain_hash n (H n AND NOT HashChainFlag) im = Some (h, im1)"
    and u: "Suc (length (im_information im1)) \<le> 0xffff" "u = uid_at (length (im_information im1))"
    and "\<exists>x. ii_parent x = 0 \<and> ii_attributes x = [] \<and> im_information im' = im_information im1 @ [x]"
    by (auto simp: AllocateUid_def option_simps Let_def bind_eq_Some_conv uid_at_def split: if_splits)
  then obtain x where x: "ii_parent x = 0" "ii_attributes x = []" "im_information im' = im_information im1 @ [x]" by blast
  note same = chain_hash_body [OF c]
  have l: "length (im_information im1) < 0xffff" using u(1) by simp
  show "extends im im'" unfolding extends_def using body_append [OF x(3)] same(1) by simp
  show "body u im' = Some (0, [])" using body_new(1) [OF x(3) l] x(1,2) u(2) by simp
  show "body u im = None" using body_new(2) [OF x(3) l] u(2) same(1) by simp
qed

section \<open>The classes\<close>

text \<open>
  A class is the list of its declaration and those of its ancestors: its name and the calls of
  \<open>AddAttribute\<close> in its \<open>GetTypeId\<close>, the root (\<open>ObjectBase\<close>) at the end.
\<close>

record class_decl =
  cd_name :: string
  cd_attributes :: "attribute_information list"

abbreviation class_name :: "class_decl list \<Rightarrow> string" where
  "class_name p \<equiv> cd_name (hd p)"

abbreviation class_attributes :: "class_decl list \<Rightarrow> attribute_information list" where
  "class_attributes p \<equiv> concat (map cd_attributes p)"

fun add_attributes :: "u16 \<Rightarrow> attribute_information list \<Rightarrow> iid_manager \<Rightarrow> iid_manager option" where
  "add_attributes uid [] im = Some im"
| "add_attributes uid (a # as) im = do {
     im1 \<leftarrow> AddAttribute uid (ai_name a) (ai_help a) (ai_flags a) (ai_initialValue a) (ai_accessor a) (ai_checker a)
       (ai_supportLevel a) (ai_supportMsg a) im;
     add_attributes uid as im1 }"

text \<open>
  \<open>T::GetTypeId\<close>: a static variable, initialized at the first call by the constructor of \<open>TypeId\<close>,
  \<open>SetParent\<close> with the id of the parent class (whose own \<open>GetTypeId\<close> runs in between; a root is
  its own parent) and the calls of \<open>AddAttribute\<close>.
\<close>

type_synonym statics = "string \<rightharpoonup> u16"

fun GetTypeId :: "(string \<Rightarrow> u32) \<Rightarrow> class_decl list \<Rightarrow> statics \<times> iid_manager \<Rightarrow> (u16 \<times> statics \<times> iid_manager) option" where
  "GetTypeId H [] s = None"
| "GetTypeId H (c # cs) (st, im) = (case st (cd_name c) of
     Some u \<Rightarrow> Some (u, st, im)
   | None \<Rightarrow> do {
       (u, im1) \<leftarrow> AllocateUid H (cd_name c) im;
       (p, st2, im2) \<leftarrow> (if cs = [] then Some (u, st, im1) else GetTypeId H cs (st, im1));
       im3 \<leftarrow> SetParent u p im2;
       im4 \<leftarrow> add_attributes u (cd_attributes c) im3;
       Some (u, st2(cd_name c \<mapsto> u), im4) })"

fun get_type_ids :: "(string \<Rightarrow> u32) \<Rightarrow> class_decl list list \<Rightarrow> statics \<times> iid_manager \<Rightarrow> (statics \<times> iid_manager) option" where
  "get_type_ids H [] s = Some s"
| "get_type_ids H (p # ps) s = do { (_, s1) \<leftarrow> GetTypeId H p s; get_type_ids H ps s1 }"

definition attribute_ok :: "attribute_information \<Rightarrow> bool" where
  "attribute_ok a \<longleftrightarrow> CHR '' '' \<notin> set (ai_name a) \<and> ai_originalInitialValue a = ai_initialValue a"

text \<open>
  A table of classes: the ancestors of a class are classes, the names are different and can be
  registered, and no class declares an attribute twice or one of an ancestor.
\<close>

definition class_table :: "(string \<Rightarrow> u32) \<Rightarrow> class_decl list list \<Rightarrow> bool" where
  "class_table H Cs \<longleftrightarrow> registrable H (map class_name Cs) \<and>
     (\<forall>p\<in>set Cs. p \<noteq> [] \<and> (tl p = [] \<or> tl p \<in> set Cs) \<and> distinct (map ai_name (class_attributes p)) \<and>
       (\<forall>a\<in>set (class_attributes p). attribute_ok a))"

text \<open>The registry and the static variables agree with the classes initialized so far.\<close>

definition hierarchy_ok :: "(string \<Rightarrow> u32) \<Rightarrow> class_decl list list \<Rightarrow> string list \<Rightarrow> statics \<Rightarrow> iid_manager \<Rightarrow> bool" where
  "hierarchy_ok H Cs ns st im \<longleftrightarrow> registered H ns im \<and> dom st \<subseteq> set ns \<and> set ns \<subseteq> class_name ` set Cs \<and>
     (\<forall>n u. st n = Some u \<longrightarrow> im_namemap im n = Some u) \<and>
     (\<forall>c cs u. c # cs \<in> set Cs \<longrightarrow> st (cd_name c) = Some u \<longrightarrow>
        (\<exists>p. (if cs = [] then p = u else st (class_name cs) = Some p) \<and> body u im = Some (p, cd_attributes c)))"

section \<open>Properties of the table and the registry\<close>

lemma class_table_suffix: "class_table H Cs \<Longrightarrow> p \<in> set Cs \<Longrightarrow> suffix q p \<Longrightarrow> q \<noteq> [] \<Longrightarrow> q \<in> set Cs"
proof (induction p)
  case (Cons c cs)
  show ?case
  proof (cases "q = c # cs")
    case False
    then have s: "suffix q cs" using Cons.prems(3) by (simp add: suffix_Cons)
    then have "cs \<noteq> []" using Cons.prems(4) by auto
    then have "cs \<in> set Cs" using Cons.prems(1,2) by (auto simp: class_table_def)
    then show ?thesis using Cons.IH Cons.prems(1,4) s by blast
  qed (use Cons.prems in simp)
qed simp

lemma class_table_inj: "class_table H Cs \<Longrightarrow> p \<in> set Cs \<Longrightarrow> q \<in> set Cs \<Longrightarrow> class_name p = class_name q \<Longrightarrow> p = q"
  unfolding class_table_def registrable_def distinct_map by (meson inj_onD)

lemma namemap_index:
  "registered H ns im \<Longrightarrow> im_namemap im n = Some u \<longleftrightarrow> (\<exists>i<length ns. n = ns ! i \<and> u = uid_at i)"
  unfolding registered_def by blast

lemma namemap_inj:
  assumes "registered H ns im" and "im_namemap im m = Some u" and "im_namemap im n = Some u"
  shows "m = n"
proof -
  from assms obtain i j where ij: "i < length ns" "m = ns ! i" "u = uid_at i" "j < length ns" "n = ns ! j" "u = uid_at j"
    unfolding namemap_index [OF assms(1)] by blast
  have "length ns \<le> 0xffff" using assms(1) by (simp add: registered_def)
  then have "Suc i = Suc j" using ij unat_uid_at [of i] unat_uid_at [of j] by simp
  with ij show ?thesis by simp
qed

lemma namemap_valid:
  assumes "registered H ns im" and "im_namemap im n = Some u"
  shows "u \<noteq> 0" and "unat u \<le> length (im_information im)"
proof -
  from assms obtain i where i: "i < length ns" "u = uid_at i" unfolding namemap_index [OF assms(1)] by blast
  from registered_lookup [OF assms(1) i(1)] i(2) show "u \<noteq> 0" "unat u \<le> length (im_information im)" by simp_all
qed

lemma namemap_append:
  assumes "registered H ns im" and "registered H (ns @ ms) im'" and "im_namemap im n = Some u"
  shows "im_namemap im' n = Some u"
proof -
  from assms(1,3) obtain i where "i < length ns" "n = ns ! i" "u = uid_at i" unfolding namemap_index [OF assms(1)] by blast
  then show ?thesis unfolding namemap_index [OF assms(2)] by (intro exI [of _ i]) (simp add: nth_append)
qed

abbreviation ids :: "statics \<Rightarrow> class_decl list \<Rightarrow> u16 list" where
  "ids st p \<equiv> map (\<lambda>c. the (st (cd_name c))) p"

lemma hierarchy_chain:
  assumes ok: "hierarchy_ok H Cs ns st im" and table: "class_table H Cs"
  shows "p \<in> set Cs \<Longrightarrow> st (class_name p) = Some u \<Longrightarrow>
    hd (ids st p) = u \<and> chain_of im (ids st p) \<and> concat (map (attributes_at im) (ids st p)) = class_attributes p \<and>
    (\<forall>c\<in>set p. st (cd_name c) \<noteq> None)"
proof (induction p arbitrary: u)
  case Nil
  then show ?case using table by (auto simp: class_table_def)
next
  case (Cons c cs)
  have u: "st (cd_name c) = Some u" using Cons.prems(2) by simp
  then obtain q where q: "if cs = [] then q = u else st (class_name cs) = Some q" "body u im = Some (q, cd_attributes c)"
    using ok Cons.prems(1) unfolding hierarchy_ok_def by blast
  then have par: "GetParent u im = Some q" "attributes_at im u = cd_attributes c" by (simp_all add: body_iff)
  show ?case
  proof (cases cs)
    case Nil
    then show ?thesis using par q(1) u by simp
  next
    case (Cons d ds)
    then have cs: "cs \<in> set Cs" using table Cons.prems(1) by (auto simp: class_table_def)
    have v: "st (class_name cs) = Some q" using q(1) Cons by simp
    from Cons.IH [OF cs v] have ih: "hd (ids st cs) = q" "chain_of im (ids st cs)"
      "concat (map (attributes_at im) (ids st cs)) = class_attributes cs" "\<forall>c\<in>set cs. st (cd_name c) \<noteq> None" by blast+
    have "u \<noteq> q"
    proof
      assume "u = q"
      moreover have "im_namemap im (cd_name c) = Some u" "im_namemap im (class_name cs) = Some q"
        using ok u v unfolding hierarchy_ok_def by blast+
      moreover have "registered H ns im" using ok by (simp add: hierarchy_ok_def)
      ultimately have "class_name (c # cs) = class_name cs" using namemap_inj by fastforce
      then have "c # cs = cs" using class_table_inj [OF table Cons.prems(1) cs] by blast
      then show False by simp
    qed
    then have "chain_of im (u # ids st cs)" using ih(1,2) par(1) Cons by simp
    then show ?thesis using ih(3,4) u par(2) by simp
  qed
qed

lemma chain_of_cong: "(\<And>v. v \<in> set us \<Longrightarrow> GetParent v im' = GetParent v im) \<Longrightarrow> chain_of im' us = chain_of im us"
  by (induction im us rule: chain_of.induct) auto

lemma AddAttribute_ok:
  assumes reg: "registered H ns im" and chain: "chain_of im (u # us)" and a: "attribute_ok a"
    and new: "ai_name a \<notin> ai_name ` set (concat (map (attributes_at im) (u # us)))"
  shows "\<exists>im'. AddAttribute u (ai_name a) (ai_help a) (ai_flags a) (ai_initialValue a) (ai_accessor a) (ai_checker a)
      (ai_supportLevel a) (ai_supportMsg a) im = Some im' \<and> registered H ns im' \<and> (\<forall>v. v \<noteq> u \<longrightarrow> body v im' = body v im) \<and>
    body u im' = map_option (\<lambda>(p, as). (p, as @ [a])) (body u im)"
proof -
  from chain_lookup [OF chain] obtain i where i: "LookupInformation u im = Some i" by blast
  have h: "HasAttribute u (ai_name a) im = Some False"
    using HasAttribute_chain [OF chain, of "ai_name a"] new by simp
  have rec: "\<lparr>ai_name = ai_name a, ai_help = ai_help a, ai_flags = ai_flags a, ai_originalInitialValue = ai_initialValue a,
      ai_initialValue = ai_initialValue a, ai_accessor = ai_accessor a, ai_checker = ai_checker a,
      ai_supportLevel = ai_supportLevel a, ai_supportMsg = ai_supportMsg a\<rparr> = a"
    using a by (simp add: attribute_ok_def)
  from registered_update [OF reg i, of "\<lambda>i. i\<lparr>ii_attributes := ii_attributes i @ [a]\<rparr>"] obtain im' where
    "UpdateInformation u (\<lambda>i. i\<lparr>ii_attributes := ii_attributes i @ [a]\<rparr>) im = Some im'" "registered H ns im'"
    "LookupInformation u im' = Some (i\<lparr>ii_attributes := ii_attributes i @ [a]\<rparr>)" "\<forall>v. v \<noteq> u \<longrightarrow> body v im' = body v im" by auto
  then show ?thesis using i h a unfolding AddAttribute_def rec Let_def by (simp add: attribute_ok_def body_def)
qed

lemma add_attributes_ok:
  "registered H ns im \<Longrightarrow> chain_of im (u # us) \<Longrightarrow> u \<notin> set us \<Longrightarrow> \<forall>a\<in>set as. attribute_ok a \<Longrightarrow>
   distinct (map ai_name (attributes_at im u @ as)) \<Longrightarrow>
   ai_name ` set as \<inter> ai_name ` set (concat (map (attributes_at im) us)) = {} \<Longrightarrow>
   \<exists>im'. add_attributes u as im = Some im' \<and> registered H ns im' \<and> (\<forall>v. v \<noteq> u \<longrightarrow> body v im' = body v im) \<and>
     body u im' = map_option (\<lambda>(p, bs). (p, bs @ as)) (body u im)"
proof (induction as arbitrary: im)
  case Nil
  then show ?case by (cases "body u im") auto
next
  case (Cons a as)
  have "ai_name a \<notin> ai_name ` set (concat (map (attributes_at im) (u # us)))" using Cons.prems(5,6) by auto
  with AddAttribute_ok [OF Cons.prems(1,2), of a] Cons.prems(4) obtain im1 where
    im1: "AddAttribute u (ai_name a) (ai_help a) (ai_flags a) (ai_initialValue a) (ai_accessor a) (ai_checker a)
      (ai_supportLevel a) (ai_supportMsg a) im = Some im1" "registered H ns im1" "\<And>v. v \<noteq> u \<Longrightarrow> body v im1 = body v im"
    "body u im1 = map_option (\<lambda>(p, as). (p, as @ [a])) (body u im)" by auto
  from chain_lookup [OF Cons.prems(2)] obtain p where p: "body u im = Some (p, attributes_at im u)"
    by (auto simp: body_def attributes_at_def)
  have u1: "body u im1 = Some (p, attributes_at im u @ [a])" using im1(4) p by simp
  have same: "attributes_at im1 v = attributes_at im v" "GetParent v im1 = GetParent v im" if "v \<noteq> u" for v
    unfolding body_projections im1(3) [OF that] by simp_all
  have par: "GetParent v im1 = GetParent v im" for v
    using same(2) p u1 by (cases "v = u") (auto simp: body_iff)
  have us: "map (attributes_at im1) us = map (attributes_at im) us" using Cons.prems(3) by (auto intro!: same(1))
  have at: "attributes_at im1 u = attributes_at im u @ [a]" using u1 by (simp add: body_iff)
  from Cons.IH [OF im1(2)] have "\<exists>im'. add_attributes u as im1 = Some im' \<and> registered H ns im' \<and>
      (\<forall>v. v \<noteq> u \<longrightarrow> body v im' = body v im1) \<and> body u im' = map_option (\<lambda>(p, bs). (p, bs @ as)) (body u im1)"
    using Cons.prems(2-6) par chain_of_cong [of "u # us" im1 im] unfolding us at by auto
  then show ?case using im1(1,3) u1 p by auto
qed

section \<open>One call of \<open>GetTypeId\<close>\<close>

lemma registered_room:
  assumes "registered H ns im" and "class_table H Cs" and "set ns \<subseteq> class_name ` set Cs" and "n \<in> class_name ` set Cs" and "n \<notin> set ns"
  shows "length ns < 0xffff" and "at_most_two H (insert n (set ns))"
proof -
  have sub: "insert n (set ns) \<subseteq> set (map class_name Cs)" using assms(3,4) by simp
  have "Suc (length ns) = card (insert n (set ns))"
    using assms(1,5) by (simp add: registered_def distinct_card)
  also have "\<dots> \<le> card (set (map class_name Cs))" by (rule card_mono [OF finite_set sub])
  also have "\<dots> \<le> length (map class_name Cs)" by (rule card_length)
  finally show "length ns < 0xffff" using assms(2) by (simp add: class_table_def registrable_def)
  show "at_most_two H (insert n (set ns))"
    using assms(2) at_most_two_subset [OF _ sub] by (simp add: class_table_def registrable_def)
qed

text \<open>After the allocation: what the initialized classes have is untouched.\<close>

lemma hierarchy_alloc:
  assumes ok: "hierarchy_ok H Cs ns st im" and table: "class_table H Cs" and n: "n \<in> class_name ` set Cs" "n \<notin> set ns"
  shows "\<exists>u im1. AllocateUid H n im = Some (u, im1) \<and> hierarchy_ok H Cs (ns @ [n]) st im1 \<and> im_namemap im1 n = Some u \<and>
    extends im im1 \<and> body u im1 = Some (0, []) \<and> body u im = None"
proof -
  note reg = ok [unfolded hierarchy_ok_def, THEN conjunct1]
  have sub: "set ns \<subseteq> class_name ` set Cs" using ok by (simp add: hierarchy_ok_def)
  from AllocateUid_ok [OF reg n(2) registered_room [OF reg table sub n]] obtain im1 where
    im1: "AllocateUid H n im = Some (uid_at (length ns), im1)" "registered H (ns @ [n]) im1" by blast
  note b = AllocateUid_body [OF im1(1)]
  have st: "im_namemap im1 m = Some v" if "st m = Some v" for m v
    using ok that unfolding hierarchy_ok_def by (blast intro: namemap_append [OF reg im1(2)])
  have bodies: "\<exists>p. (if cs = [] then p = v else st (class_name cs) = Some p) \<and> body v im1 = Some (p, cd_attributes c)"
    if "c # cs \<in> set Cs" "st (cd_name c) = Some v" for c cs v
    using ok that extendsD [OF b(1)] unfolding hierarchy_ok_def by meson
  have "hierarchy_ok H Cs (ns @ [n]) st im1"
    unfolding hierarchy_ok_def using im1(2) ok n(1) st bodies by (auto simp: hierarchy_ok_def)
  moreover have "im_namemap im1 n = Some (uid_at (length ns))"
    unfolding namemap_index [OF im1(2)] by (intro exI [of _ "length ns"]) simp
  ultimately show ?thesis using im1(1) b by blast
qed

lemma SetParent_ok:
  assumes reg: "registered H ns im" and u: "body u im = Some (q, as)" and p: "unat p \<le> length (im_information im)"
  shows "\<exists>im'. SetParent u p im = Some im' \<and> registered H ns im' \<and> body u im' = Some (p, as) \<and> (\<forall>v. v \<noteq> u \<longrightarrow> body v im' = body v im)"
proof -
  from u obtain i where i: "LookupInformation u im = Some i" "ii_attributes i = as" by (auto simp: body_def)
  from registered_update [OF reg i(1), of "\<lambda>i. i\<lparr>ii_parent := p\<rparr>"] obtain im' where
    "UpdateInformation u (\<lambda>i. i\<lparr>ii_parent := p\<rparr>) im = Some im'" "registered H ns im'"
    "LookupInformation u im' = Some (i\<lparr>ii_parent := p\<rparr>)" "\<forall>v. v \<noteq> u \<longrightarrow> body v im' = body v im" by auto
  then show ?thesis using p i(2) by (auto simp: SetParent_def body_def)
qed

text \<open>After the parent is known: the rest of the initialization of one class.\<close>

lemma hierarchy_finish:
  assumes ok: "hierarchy_ok H Cs ns st im" and table: "class_table H Cs" and C: "c # cs \<in> set Cs"
    and u: "im_namemap im (cd_name c) = Some u" "body u im = Some (0, [])"
    and p: "if cs = [] then p = u else st (class_name cs) = Some p"
  shows "\<exists>im3 im4. SetParent u p im = Some im3 \<and> add_attributes u (cd_attributes c) im3 = Some im4 \<and>
    hierarchy_ok H Cs ns (st(cd_name c \<mapsto> u)) im4 \<and> (\<forall>v. v \<noteq> u \<longrightarrow> body v im4 = body v im)"
proof -
  note reg = ok [unfolded hierarchy_ok_def, THEN conjunct1]
  have stm: "\<And>n v. st n = Some v \<Longrightarrow> im_namemap im n = Some v" using ok unfolding hierarchy_ok_def by blast
  have bodies: "\<And>c cs v. c # cs \<in> set Cs \<Longrightarrow> st (cd_name c) = Some v \<Longrightarrow>
      \<exists>p. (if cs = [] then p = v else st (class_name cs) = Some p) \<and> body v im = Some (p, cd_attributes c)"
    using ok unfolding hierarchy_ok_def by blast
  have other: "v \<noteq> u" if "c' # cs' \<in> set Cs" "st (cd_name c') = Some v" for c' cs' v
  proof
    assume "v = u"
    with bodies [OF that] u(2) have "if cs' = [] then (0::u16) = v else st (class_name cs') = Some 0" by auto
    then have "im_namemap im (cd_name c') = Some 0 \<or> im_namemap im (class_name cs') = Some 0"
      using stm that(2) by (metis (full_types))
    then show False using namemap_valid(1) [OF reg] by blast
  qed
  have pin: "unat p \<le> length (im_information im)"
    using p u(1) stm namemap_valid(2) [OF reg] by (metis (full_types))
  from SetParent_ok [OF reg u(2) pin] obtain im3 where im3: "SetParent u p im = Some im3" "registered H ns im3"
    "body u im3 = Some (p, [])" "\<And>v. v \<noteq> u \<Longrightarrow> body v im3 = body v im" by blast
  let ?us = "if cs = [] then [] else ids st cs"
  have cs: "cs \<in> set Cs" if "cs \<noteq> []" using table C that by (auto simp: class_table_def)
  have chain: "chain_of im3 (u # ?us) \<and> u \<notin> set ?us \<and> concat (map (attributes_at im3) ?us) = class_attributes cs"
  proof (cases "cs = []")
    case True
    then show ?thesis using im3(3) p by (simp add: body_projections)
  next
    case False
    have v: "st (class_name cs) = Some p" using p False by simp
    from hierarchy_chain [OF ok table cs [OF False] v] have c: "hd (ids st cs) = p" "chain_of im (ids st cs)"
      "concat (map (attributes_at im) (ids st cs)) = class_attributes cs" "\<forall>c\<in>set cs. st (cd_name c) \<noteq> None" by blast+
    have notin: "u \<notin> set (ids st cs)"
    proof
      assume "u \<in> set (ids st cs)"
      then obtain d where d: "d \<in> set cs" "the (st (cd_name d)) = u" by auto
      then obtain ds where ds: "suffix (d # ds) cs" by (metis split_list suffixI)
      then have "d # ds \<in> set Cs" using class_table_suffix [OF table cs [OF False]] by blast
      moreover have "st (cd_name d) = Some u" using c(4) d by auto
      ultimately show False using other by blast
    qed
    have same: "GetParent v im3 = GetParent v im" "attributes_at im3 v = attributes_at im v" if "v \<in> set (ids st cs)" for v
      using notin that unfolding body_projections by (metis im3(4))+
    have at: "map (attributes_at im3) (ids st cs) = map (attributes_at im) (ids st cs)" by (rule map_cong [OF refl same(2)])
    have "chain_of im3 (ids st cs)" using c(2) chain_of_cong [OF same(1)] by blast
    moreover have "GetParent u im3 = Some p" using im3(3) by (simp add: body_projections)
    moreover have "u \<noteq> p" using other [of "hd cs" "tl cs" p] cs [OF False] v False by auto
    ultimately have "chain_of im3 (u # ids st cs)" using c(1) False by (cases cs) simp_all
    then show ?thesis using notin c(3) False unfolding at [symmetric] by simp
  qed
  have dist: "distinct (map ai_name (class_attributes (c # cs)))" "\<forall>a\<in>set (class_attributes (c # cs)). attribute_ok a"
    using table C unfolding class_table_def by blast+
  then have ok_c: "\<forall>a\<in>set (cd_attributes c). attribute_ok a" by simp
  have "distinct (map ai_name (cd_attributes c) @ map ai_name (class_attributes cs))" using dist(1) by simp
  then have apart: "ai_name ` set (cd_attributes c) \<inter> ai_name ` set (class_attributes cs) = {}"
    "distinct (map ai_name (cd_attributes c))" unfolding distinct_append set_map by blast+
  have at: "attributes_at im3 u = []" using im3(3) by (simp add: body_iff)
  from add_attributes_ok [OF im3(2) chain [THEN conjunct1] _ ok_c] chain apart at obtain im4 where
    im4: "add_attributes u (cd_attributes c) im3 = Some im4" "registered H ns im4" "\<And>v. v \<noteq> u \<Longrightarrow> body v im4 = body v im3"
      "body u im4 = map_option (\<lambda>(p, bs). (p, bs @ cd_attributes c)) (body u im3)" by auto
  have b4: "body u im4 = Some (p, cd_attributes c)" "\<And>v. v \<noteq> u \<Longrightarrow> body v im4 = body v im" using im4(3,4) im3(3,4) by simp_all
  have nm: "im_namemap im4 n = Some v \<longleftrightarrow> im_namemap im n = Some v" for n v
    unfolding namemap_index [OF reg] namemap_index [OF im4(2)] ..
  have cin: "cd_name c \<in> set ns" using u(1) namemap_free [OF reg, of "cd_name c"] by auto
  have "\<exists>p. (if cs' = [] then p = v else (st(cd_name c \<mapsto> u)) (class_name cs') = Some p) \<and> body v im4 = Some (p, cd_attributes c')"
    if C': "c' # cs' \<in> set Cs" and v: "(st(cd_name c \<mapsto> u)) (cd_name c') = Some v" for c' cs' v
  proof (cases "cd_name c' = cd_name c")
    case True
    then have e: "c' # cs' = c # cs" using class_table_inj [OF table C' C] by simp
    have "cd_name c \<noteq> class_name cs" if "cs \<noteq> []"
      using class_table_inj [OF table C cs [OF that]] by auto
    then show ?thesis using e v True p b4(1) by auto
  next
    case False
    then have v': "st (cd_name c') = Some v" using v by simp
    from bodies [OF C' v'] obtain q where q: "if cs' = [] then q = v else st (class_name cs') = Some q" "body v im = Some (q, cd_attributes c')" by blast
    have "(st(cd_name c \<mapsto> u)) (class_name cs') = Some q" if "cs' \<noteq> []"
    proof -
      have "st (class_name cs') = Some q" using q(1) that by simp
      then have "class_name cs' = cd_name c \<longrightarrow> q = u" using stm u(1) by fastforce
      then show ?thesis using \<open>st (class_name cs') = Some q\<close> by auto
    qed
    then show ?thesis using q b4(2) [OF other [OF C' v']] by (intro exI [of _ q]) auto
  qed
  then have "hierarchy_ok H Cs ns (st(cd_name c \<mapsto> u)) im4"
    unfolding hierarchy_ok_def using im4(2) ok cin stm u(1) nm by (auto simp: hierarchy_ok_def)
  then show ?thesis using im3(1) im4(1) b4(2) by blast
qed

text \<open>A call for a class whose id is not being determined already.\<close>

lemma GetTypeId_ok:
  assumes table: "class_table H Cs"
  shows "p \<in> set Cs \<Longrightarrow> hierarchy_ok H Cs ns st im \<Longrightarrow>
    (\<And>q. suffix q p \<Longrightarrow> q \<noteq> [] \<Longrightarrow> class_name q \<in> set ns \<Longrightarrow> st (class_name q) \<noteq> None) \<Longrightarrow>
    \<exists>u st' im' ms. GetTypeId H p (st, im) = Some (u, st', im') \<and> hierarchy_ok H Cs (ns @ ms) st' im' \<and>
      st' (class_name p) = Some u \<and> st \<subseteq>\<^sub>m st' \<and> extends im im' \<and> set ns \<union> dom st' = set (ns @ ms)"
proof (induction p arbitrary: ns st im)
  case Nil
  then show ?case using table by (auto simp: class_table_def)
next
  case (Cons c cs)
  show ?case
  proof (cases "st (cd_name c)")
    case (Some u)
    have "extends im im" by (simp add: extends_def)
    moreover have "set ns \<union> dom st = set (ns @ [])" using Cons.prems(2) by (auto simp: hierarchy_ok_def)
    ultimately show ?thesis using Some Cons.prems(2)
      by (intro exI [of _ u] exI [of _ st] exI [of _ im] exI [of _ "[]"]) simp
  next
    case None
    have n: "cd_name c \<in> class_name ` set Cs" "cd_name c \<notin> set ns"
      using Cons.prems(1) image_eqI [of "cd_name c" class_name "c # cs"] Cons.prems(3) [of "c # cs"] None by auto
    from hierarchy_alloc [OF Cons.prems(2) table n] obtain u im1 where a: "AllocateUid H (cd_name c) im = Some (u, im1)"
      "hierarchy_ok H Cs (ns @ [cd_name c]) st im1" "im_namemap im1 (cd_name c) = Some u" "extends im im1"
      "body u im1 = Some (0, [])" "body u im = None" by blast
    have "\<exists>p st2 im2 ms. (if cs = [] then Some (u, st, im1) else GetTypeId H cs (st, im1)) = Some (p, st2, im2) \<and>
        hierarchy_ok H Cs ((ns @ [cd_name c]) @ ms) st2 im2 \<and> (if cs = [] then p = u else st2 (class_name cs) = Some p) \<and>
        st \<subseteq>\<^sub>m st2 \<and> extends im1 im2 \<and> set (ns @ [cd_name c]) \<union> dom st2 = set ((ns @ [cd_name c]) @ ms)"
    proof (cases "cs = []")
      case True
      have "extends im1 im1" by (simp add: extends_def)
      moreover have "set (ns @ [cd_name c]) \<union> dom st = set ((ns @ [cd_name c]) @ [])" using a(2) by (auto simp: hierarchy_ok_def)
      ultimately show ?thesis using True a(2)
        by (intro exI [of _ u] exI [of _ st] exI [of _ im1] exI [of _ "[]"]) simp
    next
      case False
      then have cs: "cs \<in> set Cs" using table Cons.prems(1) by (auto simp: class_table_def)
      have free: "st (class_name q) \<noteq> None" if q: "suffix q cs" "q \<noteq> []" "class_name q \<in> set (ns @ [cd_name c])" for q
      proof -
        have "q \<in> set Cs" by (rule class_table_suffix [OF table cs q(1,2)])
        then have "class_name q = cd_name c \<longrightarrow> q = c # cs" using class_table_inj [OF table _ Cons.prems(1)] by simp
        then have "class_name q \<noteq> cd_name c" using suffix_length_le [OF q(1)] by auto
        then show ?thesis using q Cons.prems(3) [of q] by (simp add: suffix_Cons)
      qed
      from Cons.IH [OF cs a(2) free] False show ?thesis by simp
    qed
    then obtain p st2 im2 ms where r: "(if cs = [] then Some (u, st, im1) else GetTypeId H cs (st, im1)) = Some (p, st2, im2)"
      "hierarchy_ok H Cs ((ns @ [cd_name c]) @ ms) st2 im2" "if cs = [] then p = u else st2 (class_name cs) = Some p"
      "st \<subseteq>\<^sub>m st2" "extends im1 im2" "set (ns @ [cd_name c]) \<union> dom st2 = set ((ns @ [cd_name c]) @ ms)" by blast
    have reg: "registered H (ns @ [cd_name c]) im1" "registered H ((ns @ [cd_name c]) @ ms) im2"
      using a(2) r(2) by (simp_all add: hierarchy_ok_def)
    have u2: "im_namemap im2 (cd_name c) = Some u" by (rule namemap_append [OF reg a(3)])
    have b2: "body u im2 = Some (0, [])" by (rule extendsD [OF r(5) a(5)])
    from hierarchy_finish [OF r(2) table Cons.prems(1) u2 b2 r(3)] obtain im3 im4 where f: "SetParent u p im2 = Some im3"
      "add_attributes u (cd_attributes c) im3 = Some im4" "hierarchy_ok H Cs ((ns @ [cd_name c]) @ ms) (st2(cd_name c \<mapsto> u)) im4"
      "\<And>v. v \<noteq> u \<Longrightarrow> body v im4 = body v im2" by blast
    have "extends im im4" unfolding extends_def
      using a(4,6) r(5) f(4) by (metis extendsD option.distinct(1))
    moreover have "GetTypeId H (c # cs) (st, im) = Some (u, st2(cd_name c \<mapsto> u), im4)"
      using None a(1) r(1) f(1,2) by simp
    moreover have "st \<subseteq>\<^sub>m st2(cd_name c \<mapsto> u)" using r(4) None by (auto simp: map_le_def)
    moreover have "set ns \<union> dom (st2(cd_name c \<mapsto> u)) = set (ns @ cd_name c # ms)" using r(6) by auto
    ultimately show ?thesis using f(3)
      by (intro exI [of _ u] exI [of _ "st2(cd_name c \<mapsto> u)"] exI [of _ im4] exI [of _ "cd_name c # ms"]) (simp del: fun_upd_apply add: fun_upd_same)
  qed
qed

lemma get_type_ids_ok:
  assumes table: "class_table H Cs"
  shows "set ps \<subseteq> set Cs \<Longrightarrow> hierarchy_ok H Cs ns st im \<Longrightarrow> dom st = set ns \<Longrightarrow>
    \<exists>st' im' ns'. get_type_ids H ps (st, im) = Some (st', im') \<and> hierarchy_ok H Cs ns' st' im' \<and> st \<subseteq>\<^sub>m st' \<and>
      (\<forall>p\<in>set ps. st' (class_name p) \<noteq> None)"
proof (induction ps arbitrary: ns st im)
  case (Cons p ps)
  have p: "p \<in> set Cs" and ps: "set ps \<subseteq> set Cs" using Cons.prems(1) by auto
  from GetTypeId_ok [OF table p Cons.prems(2)] Cons.prems(3) obtain u st1 im1 ms where
    g: "GetTypeId H p (st, im) = Some (u, st1, im1)" "hierarchy_ok H Cs (ns @ ms) st1 im1" "st1 (class_name p) = Some u"
      "st \<subseteq>\<^sub>m st1" "set ns \<union> dom st1 = set (ns @ ms)" by blast
  have "dom st1 = set (ns @ ms)" using g(4,5) Cons.prems(3) map_le_implies_dom_le [OF g(4)] by blast
  from Cons.IH [OF ps g(2) this] obtain st' im' ns' where r: "get_type_ids H ps (st1, im1) = Some (st', im')"
    "hierarchy_ok H Cs ns' st' im'" "st1 \<subseteq>\<^sub>m st'" "\<forall>p\<in>set ps. st' (class_name p) \<noteq> None" by blast
  have "st' (class_name p) = Some u" using r(3) g(3) by (auto simp: map_le_def dom_def)
  moreover have "st \<subseteq>\<^sub>m st'" by (rule map_le_trans [OF g(4) r(3)])
  ultimately show ?case using g(1) r by (intro exI [of _ st'] exI [of _ im'] exI [of _ ns']) simp
qed auto

text \<open>
  C11: Whatever the order in which the \<open>GetTypeId\<close> functions of the classes of a program are first
  called, no registration fails, and the registry mirrors the class hierarchy: \<open>IsChildOf\<close> holds
  exactly of the proper ancestors, and a lookup by name finds exactly the attributes that the class
  or an ancestor declares, the obsolete ones being fatal.
\<close>

theorem type_hierarchy_exact:
  assumes "class_table H Cs" and "set ps \<subseteq> set Cs"
  shows "\<exists>st im. get_type_ids H ps (Map.empty, iid_empty) = Some (st, im) \<and>
    (\<forall>p\<in>set ps. \<exists>u. st (class_name p) = Some u \<and> LookupByName (class_name p) im = Some u \<and>
       (\<forall>q\<in>set ps. \<forall>v. st (class_name q) = Some v \<longrightarrow> IsChildOf u v im = Some (strict_suffix q p)) \<and>
       (\<forall>n. LookupAttributeByName u n im =
          (case find (\<lambda>a. ai_name a = n) (class_attributes p) of
             None \<Rightarrow> Some None
           | Some a \<Rightarrow> if ai_supportLevel a = OBSOLETE then None else Some (Some a))))"
proof -
  have init: "hierarchy_ok H Cs [] Map.empty iid_empty" using registered_empty [of H] by (simp add: hierarchy_ok_def)
  from get_type_ids_ok [OF assms init] obtain st im ns where run: "get_type_ids H ps (Map.empty, iid_empty) = Some (st, im)"
    and ok: "hierarchy_ok H Cs ns st im" and all: "\<And>p. p \<in> set ps \<Longrightarrow> st (class_name p) \<noteq> None" by auto
  note reg = ok [unfolded hierarchy_ok_def, THEN conjunct1]
  have stm: "\<And>n v. st n = Some v \<Longrightarrow> im_namemap im n = Some v" using ok unfolding hierarchy_ok_def by blast
  have "\<exists>u. st (class_name p) = Some u \<and> LookupByName (class_name p) im = Some u \<and>
       (\<forall>q\<in>set ps. \<forall>v. st (class_name q) = Some v \<longrightarrow> IsChildOf u v im = Some (strict_suffix q p)) \<and>
       (\<forall>n. LookupAttributeByName u n im = (case find (\<lambda>a. ai_name a = n) (class_attributes p) of
             None \<Rightarrow> Some None | Some a \<Rightarrow> if ai_supportLevel a = OBSOLETE then None else Some (Some a)))"
    if p: "p \<in> set ps" for p
  proof -
    obtain u where u: "st (class_name p) = Some u" using all [OF p] by blast
    have pC: "p \<in> set Cs" using p assms(2) by blast
    from hierarchy_chain [OF ok assms(1) pC u] have c: "hd (ids st p) = u" "chain_of im (ids st p)"
      "concat (map (attributes_at im) (ids st p)) = class_attributes p" "\<forall>c\<in>set p. st (cd_name c) \<noteq> None" by blast+
    have child: "IsChildOf u v im = Some (strict_suffix q p)" if q: "q \<in> set ps" "st (class_name q) = Some v" for q v
    proof -
      have qC: "q \<in> set Cs" using q(1) assms(2) by blast
      then have ne: "q \<noteq> []" using assms(1) by (auto simp: class_table_def)
      have named: "q = r" if r: "r \<in> set Cs" "st (class_name r) = Some v" for r
        using class_table_inj [OF assms(1) qC r(1)] namemap_inj [OF reg stm [OF q(2)] stm [OF r(2)]] by blast
      have "v \<in> set (ids st p) \<longleftrightarrow> suffix q p"
      proof
        assume "v \<in> set (ids st p)"
        then obtain d where d: "d \<in> set p" "the (st (cd_name d)) = v" by auto
        then have dv: "st (cd_name d) = Some v" using c(4) by auto
        obtain ds where ds: "suffix (d # ds) p" using d(1) by (metis split_list suffixI)
        have "q = d # ds" using class_table_suffix [OF assms(1) pC ds] dv by (intro named) simp_all
        then show "suffix q p" using ds by simp
      next
        assume s: "suffix q p"
        then have "hd q \<in> set p" using ne by (metis set_mono_suffix hd_in_set subsetD)
        moreover have "the (st (class_name q)) = v" using q(2) by simp
        ultimately show "v \<in> set (ids st p)" by force
      qed
      moreover have "v \<noteq> u \<longleftrightarrow> q \<noteq> p" using named [OF pC] u q(2) by auto
      ultimately show ?thesis using IsChildOf_chain [OF c(2), of v] c(1) by (auto simp: strict_suffix_def)
    qed
    have "LookupByName (class_name p) im = Some u"
    proof -
      have "u \<noteq> 0" "unat u \<le> length (im_information im)" using namemap_valid [OF reg stm [OF u]] by blast+
      then show ?thesis using stm [OF u]
        by (simp add: LookupByName_def GetUid_name_def GetDeprecatedName_def LookupInformation_def)
    qed
    moreover have "LookupAttributeByName u n im = (case find (\<lambda>a. ai_name a = n) (class_attributes p) of
             None \<Rightarrow> Some None | Some a \<Rightarrow> if ai_supportLevel a = OBSOLETE then None else Some (Some a))" for n
      using FindAttribute_chain [OF c(2), of n] unfolding c(1,3) LookupAttributeByName_def
      by (auto split: option.split)
    ultimately show ?thesis using u child by blast
  qed
  then show ?thesis using run by blast
qed

text \<open>A class below two others, called before the one between them.\<close>

definition example_attribute :: "string \<Rightarrow> attribute_information" where
  "example_attribute n = \<lparr>ai_name = n, ai_help = '''', ai_flags = 7, ai_originalInitialValue = 1, ai_initialValue = 1,
     ai_accessor = 2, ai_checker = 3, ai_supportLevel = SUPPORTED, ai_supportMsg = ''''\<rparr>"

definition example_classes :: "class_decl list list" where
  "example_classes = (let b = \<lparr>cd_name = ''ns3::ObjectBase'', cd_attributes = []\<rparr>;
     q = \<lparr>cd_name = ''ns3::TcpSocket'', cd_attributes = [example_attribute ''SndBufSize'']\<rparr>;
     d = \<lparr>cd_name = ''ns3::TcpSocketBase'', cd_attributes = [example_attribute ''MaxSegLifetime'']\<rparr>
   in [[d, q, b], [q, b], [b]])"

theorem type_hierarchy_exact_witness:
  "\<exists>st im. get_type_ids (\<lambda>n. of_nat (length n)) example_classes (Map.empty, iid_empty) = Some (st, im) \<and>
     (\<exists>u. st ''ns3::TcpSocketBase'' = Some u \<and>
        LookupAttributeByName u ''SndBufSize'' im = Some (Some (example_attribute ''SndBufSize'')) \<and>
        LookupAttributeByName u ''Remote'' im = Some None)"
proof -
  have t: "class_table (\<lambda>n. of_nat (length n)) example_classes"
    by (simp add: class_table_def registrable_def at_most_two_def attribute_ok_def HashChainFlag_def example_classes_def
        example_attribute_def Let_def)
  have "hd example_classes \<in> set example_classes" by (simp add: example_classes_def Let_def)
  with type_hierarchy_exact [OF t subset_refl] obtain st im u where
    "get_type_ids (\<lambda>n. of_nat (length n)) example_classes (Map.empty, iid_empty) = Some (st, im)"
    "st (class_name (hd example_classes)) = Some u"
    "\<And>n. LookupAttributeByName u n im = (case find (\<lambda>a. ai_name a = n) (class_attributes (hd example_classes)) of
             None \<Rightarrow> Some None | Some a \<Rightarrow> if ai_supportLevel a = OBSOLETE then None else Some (Some a))" by blast
  from this(1,2) this(3) [of "''SndBufSize''"] this(3) [of "''Remote''"] show ?thesis
    by (simp add: example_classes_def Let_def) (simp add: example_attribute_def)
qed

end
