(* ===== verification/Spec2Isabelle.thy ===== *)
theory Spec2Isabelle
  imports Schedulers Cho Tcp_Rx_Buffer Buffer_Checksum Buffer_Serialization Buffer_Join Packet_Tag_Serialization Rlc_Um_Link
    Type_Id_Hierarchy
begin

text \<open>
  A verification development for the ns-3 network simulator (with its \<open>nr\<close> module).

  \<^bold>\<open>The program.\<close> ns-3 is a discrete event simulator. Its core keeps the future events in a
  scheduler and executes them in the order of their keys; models of protocols run as events and
  exchange packets. This development covers the engine (the simulator and its schedulers), the
  registry of types, the storage of packets and of their tags, the sequence numbers and the receive buffer of TCP, the unacknowledged mode
  of LTE's radio link control, and the conditional handover state machine of the \<open>nr\<close> module.

  \<^bold>\<open>Theories and sources.\<close> Paths are below \<open>src/src\<close> unless they say otherwise.

  \<^item> \<open>Prelude\<close>: option-valued operations (\<open>ns_assert\<close>), ordered insertion and removal, words
    as natural numbers.
  \<^item> \<open>Event_Queue\<close> (\<open>core/model/scheduler.h\<close>): event keys and the virtual functions of
    \<open>Scheduler\<close> as a table, their contract as the locales \<open>event_queue\<close> (insertion and
    removal of the least event) and \<open>removable_event_queue\<close> (with \<open>Remove\<close>).
  \<^item> \<open>List_Scheduler\<close>, \<open>Map_Scheduler\<close>, \<open>Priority_Queue_Scheduler\<close>, \<open>Heap_Scheduler\<close>,
    \<open>Calendar_Scheduler\<close> (\<open>core/model/\<close>): one scheduler each, with its state, its
    operations, its invariant and the interpretation of the contract. The heap scheduler only
    satisfies \<open>event_queue\<close>: its \<open>Remove\<close> can break the heap.
  \<^item> \<open>Simulator\<close> (\<open>core/model/default-simulator-impl.cc\<close>, \<open>event-impl.cc\<close>,
    \<open>event-id.cc\<close>): \<open>DefaultSimulatorImpl\<close> over any scheduler. The code of events is a
    parameter: interactive programs of calls into the simulator. The invariant of the simulation
    is proved inside the locale \<open>simulation_queue\<close> for every scheduler that meets the contract;
    \<open>scheduler_change\<close> covers \<open>SetScheduler\<close>.
  \<^item> \<open>Schedulers\<close>: sequences of calls against one sorted list of events, the specification that
    the schedulers refine, and what goes wrong with the heap scheduler.
  \<^item> \<open>Cho\<close> (\<open>src/contrib/nr/model/nr-conditional-handover-algorithm.cc\<close>): the pending
    handovers, the callbacks the algorithm schedules and its traces; the specified protocol as an
    inductive step relation that the event traces follow.
  \<^item> \<open>Sequence_Number\<close> (\<open>network/utils/sequence-number.h\<close>): \<open>SequenceNumber32\<close> on 32-bit
    words.
  \<^item> \<open>Tcp_Rx_Buffer\<close> (\<open>internet/model/tcp-rx-buffer.cc\<close>): reassembly against the peer's
    stream of bytes, across wrap-around of the sequence space, and the SACK list.
  \<^item> \<open>Buffer_Iterator\<close>, \<open>Buffer\<close> (\<open>network/model/buffer.h\<close>, \<open>buffer.cc\<close>): iterators over
    a packet's bytes, and buffers as views of reference-counted, copy-on-write storage, with the
    free list and the static variables as one explicit store.
  \<^item> \<open>Buffer_Access\<close>, \<open>Buffer_Checksum\<close>: where an iterator's bytes are stored, what reads
    and writes do there, byte orders, the IP checksum.
  \<^item> \<open>Buffer_View\<close>, \<open>Buffer_Store\<close>, \<open>Buffer_Ops\<close>, \<open>Buffer_Refinement\<close>: the bytes of a
    view, the invariant of the store, the operations one by one, and the refinement of separate
    byte strings by the live buffers.
  \<^item> \<open>Buffer_Serialization\<close>, \<open>Buffer_Join\<close>: the round trip of \<open>Serialize\<close> and \<open>Deserialize\<close>, and
    \<open>AddAtEnd\<close> of a buffer, where it appends the bytes and where it misplaces them.
  \<^item> \<open>Tag_Buffer\<close>, \<open>Packet_Tag_List\<close> (\<open>network/model/tag-buffer.cc\<close>, \<open>packet-tag-list.cc\<close>): the
    cursor by which tags write themselves, and the lists of tags that share their nodes.
  \<^item> \<open>Packet_Tag_Store\<close>, \<open>Packet_Tag_Segments\<close>, \<open>Packet_Tag_Ops\<close>, \<open>Packet_Tag_Cow\<close>,
    \<open>Packet_Tag_Traverse\<close>, \<open>Packet_Tag_Writers\<close>, \<open>Packet_Tag_Refinement\<close>: the invariant of the
    store and the rules that preserve it, the nodes that belong to one list alone, the operations
    (what a writer promises to \<open>COWTraverse\<close> is the locale \<open>cow_writer\<close>), and the refinement of
    separate lists of tags. \<open>Packet_Tag_Serialization\<close>: the round trip of a list through the hashes
    of its types.
  \<^item> \<open>Type_Id\<close>, \<open>Type_Id_Hierarchy\<close> (\<open>core/model/type-id.cc\<close>): the registry of types with its
    indices by name and by hash, the walks up the parents, and the registry that the \<open>GetTypeId\<close>
    functions of a class hierarchy build.
  \<^item> \<open>Rlc_Sequence_Number\<close>, \<open>Rlc_Header\<close> (\<open>lte/model/lte-rlc-sequence-number.h\<close>,
    \<open>lte-rlc-header.cc\<close>): the 10-bit sequence numbers with their modulus base, and the header with
    its extension bits and length indicators.
  \<^item> \<open>Rlc_Um\<close> (\<open>lte/model/lte-rlc-um.cc\<close>): segmentation, concatenation, reordering, reassembly and
    the timers of \<open>LteRlcUm\<close>.
  \<^item> \<open>Rlc_Um_Tx\<close>, \<open>Rlc_Um_Rx\<close>, \<open>Rlc_Um_Losses\<close>, \<open>Rlc_Um_Window\<close>, \<open>Rlc_Um_Link\<close>: the frames a
    transmitter sends, what the reassembly of ascending frames with gaps delivers, the reordering
    window on unbounded positions that the receiver refines, and the two ends with a channel that
    loses, repeats and reorders between them.

  \<^bold>\<open>How the model corresponds to the code.\<close> Classes are records with the members' names, enums
  and tagged states are datatypes, integers are words of their width with the wrap-around of the
  code. Methods take the record (and the store, where objects are shared) and return it updated.
  \<open>None\<close> is a failed \<open>NS_ASSERT\<close>, an \<open>NS_FATAL_ERROR\<close> or undefined behaviour (signed overflow,
  an access outside of storage, an element of an empty container); a theorem that an operation
  returns \<open>Some\<close> shows that none of these happens. Logging is left out.

  \<^bold>\<open>Recursion.\<close> Loops are structural recursion or have a termination proof. The sift loops of the
  heap, the year scan of the calendar queue, the event loop of \<open>Run\<close> and the search and reassembly
  loops of the RLC receiver and the traversals of tag lists are \<open>partial_function (option)\<close>: a run that does not return is \<open>None\<close>, and the properties that
  state their results show that they return. No fuel is used.

  \<^bold>\<open>Bounds.\<close> The calendar queue is proved for time stamps below \<open>2 ^ 46\<close> nanoseconds, where no
  bucket limit wraps around. Simulations are bounded by the 32-bit event ids and the 64-bit clock:
  a call that would exceed them is outside of the contract. Buffers are bounded by \<open>2 ^ 30\<close>
  bytes, so that no offset wraps around, and references by the 32-bit count. Positions of the TCP
  stream are unbounded; the part in flight lies within half the sequence space. RLC SDUs are not
  empty and shorter than \<open>2 ^ 31\<close> bytes, the transmission buffer holds at most as many, opportunities
  are below \<open>2 ^ 16\<close> bytes, and a PDU arrives within 512 positions of the lower edge of the window.

  \<^bold>\<open>What the lemmas show.\<close> For each component an invariant that every operation preserves and the
  functional behaviour of every operation, error branches included; refinement of an abstract
  specification for the schedulers (a sorted list), the receive buffer (a prefix of the stream),
  the handover traces (a protocol), the packet buffers (byte strings) and the RLC link (the SDUs
  whose PDUs all got through) and the tag lists (separate lists); equivalence of the
  schedulers with each other and of the fast with the slow readers; round trips of the iterator's
  writers and readers, of serialized buffers and of RLC headers; termination of the event loop when no event schedules another; and closed
  counterexamples for the defects found.

  \<^bold>\<open>Not modelled.\<close> Objects, the values of attributes, logging and tracing sources, random variables
  and the real time simulator (reflection, I/O, wall clock and threads); packet metadata and
  byte tags, the tags of PDCP that travel with an RLC SDU, and pointers to one packet held at
  several places of RLC; the radio, propagation and mobility models (floating point physics); the
  routing protocols, the acknowledged mode of RLC, and the MAC and PHY layers of the wireless
  modules, which are left for an extension of this library; bindings, helpers, examples and tests.
\<close>

end
